(* ===== verification/Prelude.thy ===== *)
theory Prelude
  imports Main "HOL-Library.Word" "HOL-Library.Monad_Syntax"
begin

unbundle bit_operations_syntax

text \<open>
  Shared vocabulary of the development: names for the C integer types and for byte-addressed
  memory, the block operations of \<^verbatim>\<open>string.h\<close> the kernel calls, the little-endian loads and
  stores, and the generic facts about words, lists and options that the component theories use.
\<close>

section \<open>Machine types\<close>

type_synonym u8 = "8 word"
type_synonym u16 = "16 word"
type_synonym u32 = "32 word"
type_synonym u64 = "64 word"
type_synonym addr = "64 word"
type_synonym mem = "addr \<Rightarrow> u8"

text \<open>
  The null pointer is address 0. The kernel maps physical memory at virtual address 0, so that a
  null pointer is an ordinary address for the hardware; the theories say where this matters.
\<close>

abbreviation (input) NULL :: addr where
  "NULL \<equiv> 0"

text \<open>The size in bytes of \<^verbatim>\<open>Buffer\<close> (\<^verbatim>\<open>main.h\<close>), the scratch space of the kernel.\<close>

definition HELOS_BUFFER_SIZE :: nat where "HELOS_BUFFER_SIZE = 16384"

text \<open>
  A C \<^verbatim>\<open>int\<close> is modelled as an \<^typ>\<open>int\<close>, and the result of an arithmetic operation on two of
  them is reduced to 32 bits, two's complement, by \<open>s32\<close>.
\<close>

definition s32 :: "int \<Rightarrow> int" where
  "s32 x = signed_take_bit 31 x"

lemma s32_id [simp]: "- (2 ^ 31) \<le> x \<Longrightarrow> x < 2 ^ 31 \<Longrightarrow> s32 x = x"
  by (simp add: s32_def signed_take_bit_int_eq_self)

lemma s32_int: "n < 2147483648 \<Longrightarrow> s32 (int n) = int n"
  by (rule s32_id) simp_all

lemma s32_bounds: "- (2 ^ 31) \<le> s32 x \<and> s32 x < 2 ^ 31"
  using signed_take_bit_int_less_exp [of 31 x] signed_take_bit_int_greater_eq_minus_exp [of 31 x]
  by (simp add: s32_def)

section \<open>Words and natural numbers\<close>

named_theorems word_nat \<open>from words to natural numbers\<close>

lemmas word_to_nat = word_less_nat_alt word_le_nat_alt unat_word_ariths

lemma of_nat_less_word [word_nat]:
  "i < 2 ^ 64 \<Longrightarrow> (of_nat i :: u64) < n \<longleftrightarrow> i < unat n"
  by (simp add: word_less_nat_alt unat_of_nat take_bit_nat_eq_self)

lemma unat_of_nat_u64 [word_nat]: "i < 2 ^ 64 \<Longrightarrow> unat (of_nat i :: u64) = i"
  by (simp add: unat_of_nat take_bit_nat_eq_self)

lemma unat_lt_u64 [simp]: "unat (w :: u64) < 2 ^ 64"
  using unsigned_less [of w] by simp

lemma unat_lt_u64_numeral [simp]: "unat (w :: u64) < 18446744073709551616"
  using unat_lt_u64 [of w] by simp

lemma unat_Suc_u64 [word_nat]:
  assumes "(w :: u64) < v"
  shows "unat (w + 1) = Suc (unat w)"
proof -
  have "Suc (unat w) < 2 ^ 64"
    using assms by (intro le_less_trans [OF Suc_leI unat_lt_u64]) (simp add: word_less_nat_alt)
  then show ?thesis by (simp add: unat_word_ariths)
qed

lemma unat_pred_u64 [word_nat]: "(w :: u64) \<noteq> 0 \<Longrightarrow> unat w = Suc (unat (w - 1))"
  by (simp add: unat_minus_one unat_gt_0)

lemma unat_lt_u32 [simp]: "unat (w :: u32) < 4294967296"
  using unsigned_less [of w] by simp

lemma unat_ucast_u32 [simp]: "unat (ucast (v :: u32) :: u64) = unat v"
proof -
  have "unat v < 2 ^ 64" by (rule less_trans [OF unat_lt_u32]) simp
  then show ?thesis by (simp add: unsigned_ucast_eq take_bit_nat_eq_self)
qed

lemma add_offset_eq [simp]: "(p :: u64) + x - p = x"
  by simp

lemma offset_of_nat: "(p :: u64) = d + of_nat (unat (p - d))"
  by simp

text \<open>Positions of a ring of \<open>s\<close> cells are distinct as long as fewer than \<open>s\<close> are counted.\<close>

lemma mod_add_inj:
  fixes b i j s :: nat
  assumes "i < s" and "j < s" and "(b + i) mod s = (b + j) mod s"
  shows "i = j"
  using assms
proof (induction i j rule: linorder_wlog)
  case (le i j)
  then have "s dvd (b + j) - (b + i)"
    by (metis add_le_mono1 add.commute mod_eq_dvd_iff_nat)
  then have "s dvd j - i" by simp
  with le show ?case
    by (metis diff_less_Suc dvd_imp_le le_neq_implies_less less_imp_diff_less not_less zero_less_diff)
qed simp

section \<open>Block operations\<close>

named_theorems mem_simps \<open>reading memory after a block write\<close>

text \<open>
  The result of \<^verbatim>\<open>memcpy\<close>, which C defines for blocks that do not overlap only: every byte is taken from the
  memory before the call. The theory \<^verbatim>\<open>Memcpy\<close> shows that the copy of \<^verbatim>\<open>src/extlib/memcpy.c\<close>, which runs
  forward word by word, has this result for such blocks. \<^verbatim>\<open>memmove\<close> has it for all blocks.
\<close>

definition memcpy :: "mem \<Rightarrow> addr \<Rightarrow> addr \<Rightarrow> u64 \<Rightarrow> mem" where
  "memcpy m dst src n = (\<lambda>a. if a - dst < n then m (src + (a - dst)) else m a)"

definition memset :: "mem \<Rightarrow> addr \<Rightarrow> u8 \<Rightarrow> u64 \<Rightarrow> mem" where
  "memset m dst v n = (\<lambda>a. if a - dst < n then v else m a)"

definition bytes_at :: "mem \<Rightarrow> addr \<Rightarrow> nat \<Rightarrow> u8 list" where
  "bytes_at m p n = map (\<lambda>i. m (p + of_nat i)) [0..<n]"

lemma length_bytes_at [simp]: "length (bytes_at m p n) = n"
  by (simp add: bytes_at_def)

lemma nth_bytes_at [simp]: "i < n \<Longrightarrow> bytes_at m p n ! i = m (p + of_nat i)"
  by (simp add: bytes_at_def)

lemma bytes_at_0 [simp]: "bytes_at m p 0 = []"
  by (simp add: bytes_at_def)

lemma bytes_at_Suc: "bytes_at m p (Suc n) = m p # bytes_at m (p + 1) n"
  by (simp add: bytes_at_def upt_conv_Cons map_Suc_upt [symmetric] o_def add.assoc del: upt_Suc)

lemma bytes_at_add: "bytes_at m p (n + k) = bytes_at m p n @ bytes_at m (p + of_nat n) k"
  by (induction n arbitrary: p) (simp_all add: bytes_at_Suc add.assoc add.commute [of 1])

lemma bytes_at_cong:
  "(\<And>i. i < n \<Longrightarrow> m (p + of_nat i) = m' (p + of_nat i)) \<Longrightarrow> bytes_at m p n = bytes_at m' p n"
  by (rule nth_equalityI) simp_all

lemma bytes_at_memcpy [mem_simps]:
  "n < 2 ^ 64 \<Longrightarrow> bytes_at (memcpy m dst src (of_nat n)) dst n = bytes_at m src n"
  by (rule nth_equalityI) (simp_all add: memcpy_def of_nat_less_word unat_of_nat_u64)

lemma bytes_at_memset [mem_simps]:
  "n < 2 ^ 64 \<Longrightarrow> bytes_at (memset m dst v (of_nat n)) dst n = replicate n v"
  by (rule nth_equalityI) (simp_all add: memset_def of_nat_less_word unat_of_nat_u64)

text \<open>Storing a run of bytes, as the compiler does for a local object, and the bytes of a number.\<close>

definition store_bytes :: "mem \<Rightarrow> addr \<Rightarrow> u8 list \<Rightarrow> mem" where
  "store_bytes m p bs = (\<lambda>a. if a - p < of_nat (length bs) then bs ! unat (a - p) else m a)"

definition le_bytes :: "nat \<Rightarrow> u64 \<Rightarrow> u8 list" where
  "le_bytes n w = map (\<lambda>i. ucast (drop_bit (8 * i) w)) [0..<n]"

definition le_load :: "mem \<Rightarrow> addr \<Rightarrow> nat \<Rightarrow> u64" where
  "le_load m p n = foldr (\<lambda>b w. push_bit 8 w OR ucast b) (bytes_at m p n) 0"

lemma length_le_bytes [simp]: "length (le_bytes n w) = n"
  by (simp add: le_bytes_def)

lemma bytes_at_store_bytes [mem_simps]:
  "length bs < 2 ^ 64 \<Longrightarrow> bytes_at (store_bytes m p bs) p (length bs) = bs"
  by (rule nth_equalityI) (simp_all add: store_bytes_def of_nat_less_word unat_of_nat_u64)

text \<open>\<open>in_block p d n\<close>: the address \<open>p\<close> lies in the block of \<open>n\<close> bytes at \<open>d\<close>.\<close>

definition in_block :: "addr \<Rightarrow> addr \<Rightarrow> u64 \<Rightarrow> bool" where
  "in_block p d n \<longleftrightarrow> p - d < n"

definition disjoint_blocks :: "addr \<Rightarrow> u64 \<Rightarrow> addr \<Rightarrow> u64 \<Rightarrow> bool" where
  "disjoint_blocks p n q k \<longleftrightarrow> (\<forall>a. \<not> (in_block a p n \<and> in_block a q k))"

lemma in_block_offset: "i < unat n \<Longrightarrow> in_block (d + of_nat i) d n"
  by (metis add_diff_cancel_left' in_block_def of_nat_less_word order.strict_trans unat_lt_u64)

lemma not_in_disjoint:
  "disjoint_blocks p n q k \<Longrightarrow> i < unat n \<Longrightarrow> \<not> in_block (p + of_nat i) q k"
  using in_block_offset by (auto simp: disjoint_blocks_def)

lemma in_block_interval:
  assumes "unat p + unat n \<le> 2 ^ 64"
  shows "in_block a p n \<longleftrightarrow> unat p \<le> unat a \<and> unat a < unat p + unat n"
proof -
  have "unat (a - p) = (if unat p \<le> unat a then unat a - unat p else unat a + 2 ^ 64 - unat p)"
    by (simp add: unat_sub_if_size word_size)
  with assms show ?thesis
    using unat_lt_u64 [of p] by (auto simp: in_block_def word_less_nat_alt)
qed

lemma disjoint_blocksI:
  "unat p + unat n \<le> unat q \<Longrightarrow> unat q + unat k \<le> 2 ^ 64 \<Longrightarrow> disjoint_blocks p n q k"
  by (auto simp: disjoint_blocks_def in_block_interval)

lemma disjoint_blocks_sym: "disjoint_blocks p n q k \<Longrightarrow> disjoint_blocks q k p n"
  by (auto simp: disjoint_blocks_def)

lemma memcpy_store: "memcpy m dst src n = store_bytes m dst (bytes_at m src (unat n))"
  by (auto simp: memcpy_def store_bytes_def fun_eq_iff word_less_nat_alt)

lemma memcpy_outside: "\<not> in_block a dst n \<Longrightarrow> memcpy m dst src n a = m a"
  by (simp add: memcpy_def in_block_def)

lemma store_bytes_outside: "\<not> in_block a p (of_nat (length bs)) \<Longrightarrow> store_bytes m p bs a = m a"
  by (simp add: store_bytes_def in_block_def)

lemma memset_outside: "\<not> in_block a dst n \<Longrightarrow> memset m dst v n a = m a"
  by (simp add: memset_def in_block_def)

lemma bytes_at_memcpy_word [mem_simps]:
  "bytes_at (memcpy m dst src n) dst (unat n) = bytes_at m src (unat n)"
  using bytes_at_memcpy [of "unat n" m dst src] by simp

lemma bytes_at_memcpy_outside:
  assumes "\<And>i. i < k \<Longrightarrow> \<not> in_block (p + of_nat i) dst n"
  shows "bytes_at (memcpy m dst src n) p k = bytes_at m p k"
  by (rule bytes_at_cong) (simp add: memcpy_outside assms)

lemma unat_add_no_wrap: "unat (p :: u64) + unat n < 2 ^ 64 \<Longrightarrow> unat (p + n) = unat p + unat n"
  by (simp add: unat_word_ariths)

lemma in_block_0 [simp]: "\<not> in_block a p 0"
  by (simp add: in_block_def)

lemma in_block_Suc:
  assumes "Suc n < 2 ^ 64"
  shows "in_block a p (of_nat (Suc n)) \<longleftrightarrow> a = p \<or> in_block a (p + 1) (of_nat n)"
    and "\<not> in_block p (p + 1) (of_nat n)"
proof -
  have un: "unat (of_nat n :: u64) = n" "unat (of_nat (Suc n) :: u64) = Suc n"
    using assms by (auto intro!: unat_of_nat_u64 simp del: of_nat_Suc)
  have "unat (- 1 :: u64) = 2 ^ 64 - 1" by (simp add: unsigned_minus_1_eq_mask mask_eq_exp_minus_1)
  with un(1) assms show "\<not> in_block p (p + 1) (of_nat n)"
    by (simp add: in_block_def word_less_nat_alt)
  show "in_block a p (of_nat (Suc n)) \<longleftrightarrow> a = p \<or> in_block a (p + 1) (of_nat n)"
  proof (cases "a = p")
    case False
    then have "unat (a - p) = Suc (unat (a - p - 1))" by (intro unat_pred_u64) simp
    with un False show ?thesis
      by (simp add: in_block_def word_less_nat_alt diff_diff_add del: of_nat_Suc)
  qed (simp add: in_block_def word_less_nat_alt un del: of_nat_Suc)
qed

lemma bytes_at_store_prefix [mem_simps]:
  "length bs < 2 ^ 64 \<Longrightarrow> n \<le> length bs \<Longrightarrow> bytes_at (store_bytes m p bs) p n = take n bs"
  by (rule nth_equalityI) (simp_all add: store_bytes_def of_nat_less_word unat_of_nat_u64)

lemma bytes_at_part: "bytes_at m p n = bs \<Longrightarrow> off + k \<le> n \<Longrightarrow> bytes_at m (p + of_nat off) k = take k (drop off bs)"
  by (rule nth_equalityI) (auto simp: add.assoc)

lemma store_bytes_Nil: "store_bytes m p [] = m"
  by (simp add: store_bytes_def fun_eq_iff)

lemma store_bytes_single: "store_bytes m p [b] = m(p := b)"
  by (auto simp: store_bytes_def word_less_nat_alt fun_eq_iff unat_eq_0)

lemma store_bytes_append:
  assumes "length xs + length ys < 2 ^ 64"
  shows "store_bytes (store_bytes m p xs) (p + of_nat (length xs)) ys = store_bytes m p (xs @ ys)"
proof
  fix a
  let ?k = "of_nat (length xs) :: u64"
  define d where "d = a - p"
  have u: "unat ?k = length xs" "unat (of_nat (length ys) :: u64) = length ys"
    "unat (of_nat (length xs + length ys) :: u64) = length xs + length ys"
    using assms by (simp_all add: unat_of_nat_u64 del: of_nat_add)
  have a: "a - (p + ?k) = d - ?k" by (simp add: d_def)
  show "store_bytes (store_bytes m p xs) (p + ?k) ys a = store_bytes m p (xs @ ys) a"
  proof (cases "d < ?k")
    case True
    then have "unat (d - ?k) = 2 ^ 64 + unat d - length xs"
      using u(1) unat_sub_if_size [of d ?k] by (auto simp: word_less_nat_alt not_le word_size)
    then have "\<not> d - ?k < of_nat (length ys)" using assms u by (auto simp: word_less_nat_alt)
    with True u show ?thesis unfolding store_bytes_def a d_def [symmetric]
      by (simp add: word_less_nat_alt nth_append del: of_nat_add)
  next
    case False
    then have "unat (d - ?k) = unat d - length xs" using u(1) by (simp add: unat_sub word_le_nat_alt not_less)
    with False u show ?thesis unfolding store_bytes_def a d_def [symmetric]
      by (auto simp: word_less_nat_alt nth_append simp del: of_nat_add)
  qed
qed

lemma take_le_bytes [simp]: "n \<le> k \<Longrightarrow> take n (le_bytes k w) = le_bytes n w"
  by (simp add: le_bytes_def take_map)

subsection \<open>Loads and stores at offsets from a base\<close>

definition le_value :: "u8 list \<Rightarrow> u64" where
  "le_value bs = foldr (\<lambda>b w. push_bit 8 w OR ucast b) bs 0"

lemma le_load_value: "le_load m p n = le_value (bytes_at m p n)"
  by (simp add: le_load_def le_value_def)

lemma le_bytes_Suc: "le_bytes (Suc n) w = ucast w # le_bytes n (drop_bit 8 w)"
  by (simp add: le_bytes_def upt_conv_Cons map_Suc_upt [symmetric] o_def add.commute del: upt_Suc)

lemma le_value_le_bytes [simp]: "le_value (le_bytes n w) = take_bit (8 * n) w"
proof (induction n arbitrary: w)
  case (Suc n)
  have "push_bit 8 (take_bit (8 * n) (drop_bit 8 w)) OR ucast (ucast w :: u8) = take_bit (8 * Suc n) w"
    by (rule bit_word_eqI) (auto simp: bit_simps not_less)
  with Suc show ?case by (simp add: le_value_def le_bytes_Suc)
qed (simp add: le_value_def le_bytes_def)

lemma store_bytes_apart:
  assumes "a + n \<le> b \<or> b + length bs \<le> a" and "a + n < 2 ^ 64" and "b + length bs < 2 ^ 64"
  shows "bytes_at (store_bytes m (d + of_nat b) bs) (d + of_nat a) n = bytes_at m (d + of_nat a) n"
proof (rule bytes_at_cong)
  fix i assume i: "i < n"
  have "unat (of_nat (a + i) - of_nat b :: u64) = (if b \<le> a + i then a + i - b else a + i + 2 ^ 64 - b)"
    using assms i by (simp add: unat_sub_if_size word_size unat_of_nat_u64 del: of_nat_add)
  then have "\<not> in_block (d + of_nat a + of_nat i) (d + of_nat b) (of_nat (length bs))"
    using assms i by (simp add: in_block_def word_less_nat_alt unat_of_nat_u64 add_diff_eq) linarith
  then show "store_bytes m (d + of_nat b) bs (d + of_nat a + of_nat i) = m (d + of_nat a + of_nat i)"
    by (rule store_bytes_outside)
qed

lemma memset_apart:
  assumes "a + n \<le> b \<or> b + k \<le> a" and "a + n < 2 ^ 64" and "b + k < 2 ^ 64"
  shows "bytes_at (memset m (d + of_nat b) v (of_nat k)) (d + of_nat a) n = bytes_at m (d + of_nat a) n"
proof -
  have "memset m (d + of_nat b) v (of_nat k) = store_bytes m (d + of_nat b) (replicate k v)"
    using assms(3) by (auto simp: memset_def store_bytes_def word_less_nat_alt unat_of_nat_u64)
  with store_bytes_apart [of a n b "replicate k v"] assms show ?thesis by simp
qed

subsection \<open>Packed structs\<close>

text \<open>The fields of a packed struct with their sizes; a field lies behind those before it.\<close>

type_synonym layout = "(string \<times> nat) list"

definition sizeof :: "layout \<Rightarrow> nat" where
  "sizeof l = sum_list (map snd l)"

definition offsetof :: "layout \<Rightarrow> string \<Rightarrow> nat" where
  "offsetof l f = sizeof (takeWhile (\<lambda>e. fst e \<noteq> f) l)"

section \<open>Bounded first-in first-out queues\<close>

text \<open>
  The contract of a bounded byte queue, as its clients (the PS/2 and serial drivers, the input
  event queue) rely on it: a push appends unless the queue is full, a pop takes from the front and
  is 0 on an empty queue, and both keep the invariant and the capacity.
\<close>

locale byte_fifo =
  fixes push :: "u8 \<Rightarrow> 's \<Rightarrow> 's"
    and pop :: "'s \<Rightarrow> u8 \<times> 's"
    and contents :: "'s \<Rightarrow> u8 list"
    and cap :: "'s \<Rightarrow> nat"
    and inv :: "'s \<Rightarrow> bool"
  assumes inv_push: "inv s \<Longrightarrow> inv (push b s)"
    and inv_pop: "inv s \<Longrightarrow> inv (snd (pop s))"
    and cap_push [simp]: "cap (push b s) = cap s"
    and cap_pop [simp]: "cap (snd (pop s)) = cap s"
    and fits: "inv s \<Longrightarrow> length (contents s) \<le> cap s"
    and push_room: "inv s \<Longrightarrow> length (contents s) < cap s \<Longrightarrow> contents (push b s) = contents s @ [b]"
    and push_full: "inv s \<Longrightarrow> length (contents s) = cap s \<Longrightarrow> contents (push b s) = contents s"
    and pop_some: "inv s \<Longrightarrow> contents s = x # xs \<Longrightarrow> fst (pop s) = x \<and> contents (snd (pop s)) = xs"
    and pop_none: "inv s \<Longrightarrow> contents s = [] \<Longrightarrow> pop s = (0, s)"
begin

lemma inv_pushes: "inv s \<Longrightarrow> inv (fold push bs s)"
  by (induction bs arbitrary: s) (simp_all add: inv_push)

lemma cap_pushes [simp]: "cap (fold push bs s) = cap s"
  by (induction bs arbitrary: s) simp_all

text \<open>Pushing a run of bytes keeps the prefix that fits and discards the rest.\<close>

lemma contents_pushes:
  "inv s \<Longrightarrow> contents (fold push bs s) = contents s @ take (cap s - length (contents s)) bs"
proof (induction bs arbitrary: s)
  case (Cons b bs)
  then show ?case
    using fits [of s] push_room [of s b] push_full [of s b]
    by (cases "length (contents s) < cap s") (simp_all add: inv_push take_Cons' Suc_diff_Suc)
qed simp

text \<open>Popping \<open>n\<close> times, with the bytes in the order they come out.\<close>

fun pops :: "nat \<Rightarrow> 's \<Rightarrow> u8 list \<times> 's" where
  "pops 0 s = ([], s)"
| "pops (Suc n) s = (let (b, s1) = pop s; (bs, s2) = pops n s1 in (b # bs, s2))"

lemma inv_pops: "inv s \<Longrightarrow> inv (snd (pops n s))"
proof (induction n arbitrary: s)
  case (Suc n)
  then show ?case using inv_pop [of s] by (auto simp: split_beta)
qed simp

lemma pops_contents:
  "inv s \<Longrightarrow> n \<le> length (contents s) \<Longrightarrow>
     fst (pops n s) = take n (contents s) \<and> contents (snd (pops n s)) = drop n (contents s)"
proof (induction n arbitrary: s)
  case (Suc n)
  then obtain x xs where c: "contents s = x # xs" by (cases "contents s") auto
  with Suc.prems pop_some [of s x xs] Suc.IH [of "snd (pop s)"] show ?case
    by (auto simp: split_beta inv_pop)
qed simp

text \<open>A message written to an empty queue with room for it comes out unchanged.\<close>

lemma push_pop_message:
  "inv s \<Longrightarrow> contents s = [] \<Longrightarrow> length bs \<le> cap s \<Longrightarrow>
     fst (pops (length bs) (fold push bs s)) = bs"
  using pops_contents [of "fold push bs s" "length bs"] contents_pushes [of s bs]
  by (simp add: inv_pushes)

end

end
