(* ===== verification/Queue.thy ===== *)
theory Queue
  imports Prelude
begin

text \<open>
  The byte ring buffer of \<^verbatim>\<open>src/util/queue.c\<close>. A queue is the struct \<^verbatim>\<open>queue_Queue\<close>: its buffer
  lives in the byte memory, and \<open>q_begin\<close>, \<open>q_end\<close> are pointers into it. The operations take and
  return the memory and the struct. The diagnostics the C code prints on a full or empty queue
  are not modelled.
\<close>

section \<open>The code\<close>

record queue_Queue =
  q_data :: addr
  q_size :: u64
  q_begin :: addr
  q_end :: addr
  q_count :: u64

definition queue_InitBuffered :: "queue_Queue \<Rightarrow> addr \<Rightarrow> u64 \<Rightarrow> queue_Queue" where
  "queue_InitBuffered q buffer sz =
     q\<lparr>q_data := buffer, q_begin := buffer, q_end := buffer, q_size := sz, q_count := 0\<rparr>"

definition queue_PushByte :: "u8 \<Rightarrow> mem \<times> queue_Queue \<Rightarrow> mem \<times> queue_Queue" where
  "queue_PushByte b s = (let (m, q) = s in
     if q_count q = q_size q then (m, q)
     else
       let q = q\<lparr>q_count := q_count q + 1\<rparr>;
           m = m(q_end q := b);
           q = q\<lparr>q_end := q_end q + 1\<rparr>;
           q = (if q_end q = q_data q + q_size q then q\<lparr>q_end := q_data q\<rparr> else q)
       in (m, q))"

definition queue_PopByte :: "mem \<times> queue_Queue \<Rightarrow> u8 \<times> mem \<times> queue_Queue" where
  "queue_PopByte s = (let (m, q) = s in
     if q_count q = 0 then (0, m, q)
     else
       let q = q\<lparr>q_count := q_count q - 1\<rparr>;
           data = m (q_begin q);
           q = q\<lparr>q_begin := q_begin q + 1\<rparr>;
           q = (if q_begin q = q_data q + q_size q then q\<lparr>q_begin := q_data q\<rparr> else q)
       in (data, m, q))"

definition queue_FrontByte :: "mem \<times> queue_Queue \<Rightarrow> u8" where
  "queue_FrontByte s = (let (m, q) = s in if q_count q = 0 then 0 else m (q_begin q))"

definition queue_Empty :: "queue_Queue \<Rightarrow> bool" where
  "queue_Empty q \<longleftrightarrow> q_count q = 0"

definition queue_Size :: "queue_Queue \<Rightarrow> u64" where
  "queue_Size q = q_count q"

definition queue_Space :: "queue_Queue \<Rightarrow> u64" where
  "queue_Space q = q_size q - q_count q"

text \<open>
  The two byte loops: \<open>i\<close> walks from the start of the caller's buffer to \<open>e\<close>, one past its end.
\<close>

function queue_Push_loop :: "addr \<Rightarrow> addr \<Rightarrow> mem \<times> queue_Queue \<Rightarrow> mem \<times> queue_Queue" where
  "queue_Push_loop i e s =
     (if i < e then queue_Push_loop (i + 1) e (queue_PushByte (fst s i) s) else s)"
  by pat_completeness auto
termination
  by (relation "measure (\<lambda>(i, e, s). unat e - unat i)") (auto simp: word_less_nat_alt word_nat)

definition queue_Push :: "addr \<Rightarrow> u64 \<Rightarrow> mem \<times> queue_Queue \<Rightarrow> mem \<times> queue_Queue" where
  "queue_Push buffer sz s =
     (if queue_Space (snd s) < sz then s else queue_Push_loop buffer (buffer + sz) s)"

function queue_Pop_loop :: "addr \<Rightarrow> addr \<Rightarrow> mem \<times> queue_Queue \<Rightarrow> mem \<times> queue_Queue" where
  "queue_Pop_loop i e s =
     (if i < e
      then let (b, m, q) = queue_PopByte s in queue_Pop_loop (i + 1) e (m(i := b), q)
      else s)"
  by pat_completeness auto
termination
  by (relation "measure (\<lambda>(i, e, s). unat e - unat i)") (auto simp: word_less_nat_alt word_nat)

definition queue_Pop :: "addr \<Rightarrow> u64 \<Rightarrow> mem \<times> queue_Queue \<Rightarrow> u64 \<times> mem \<times> queue_Queue" where
  "queue_Pop buffer sz s =
     (if queue_Size (snd s) < sz then (0, s)
      else (sz, queue_Pop_loop buffer (buffer + sz) s))"

declare queue_Push_loop.simps [simp del] queue_Pop_loop.simps [simp del]

section \<open>Invariant and contents\<close>

text \<open>
  The begin and end pointers stay inside the buffer and the end is \<open>count\<close> cells after the begin,
  modulo the size. The contents are the \<open>count\<close> cells from the begin on.
\<close>

definition q_off :: "queue_Queue \<Rightarrow> nat" where
  "q_off q = unat (q_begin q - q_data q)"

definition q_cell :: "queue_Queue \<Rightarrow> nat \<Rightarrow> addr" where
  "q_cell q i = q_data q + of_nat ((q_off q + i) mod unat (q_size q))"

definition queue_inv :: "queue_Queue \<Rightarrow> bool" where
  "queue_inv q \<longleftrightarrow>
     q_count q \<le> q_size q \<and>
     (q_off q < unat (q_size q) \<or> q_size q = 0 \<and> q_begin q = q_data q) \<and>
     q_end q = q_cell q (unat (q_count q))"

definition queue_contents :: "mem \<times> queue_Queue \<Rightarrow> u8 list" where
  "queue_contents s = map (\<lambda>i. fst s (q_cell (snd s) i)) [0..<unat (q_count (snd s))]"

lemma length_queue_contents [simp]: "length (queue_contents s) = unat (q_count (snd s))"
  by (simp add: queue_contents_def)

lemma q_cell_inj:
  assumes "i < unat (q_size q)" and "j < unat (q_size q)" and "q_cell q i = q_cell q j"
  shows "i = j"
proof -
  have pos: "0 < unat (q_size q)" using assms(1) by simp
  have lt: "(q_off q + k) mod unat (q_size q) < 2 ^ 64" for k
    using pos by (meson mod_less_divisor order.strict_trans unat_lt_u64)
  have "unat (of_nat ((q_off q + i) mod unat (q_size q)) :: u64)
      = unat (of_nat ((q_off q + j) mod unat (q_size q)) :: u64)"
    using assms(3) by (simp add: q_cell_def)
  then have "(q_off q + i) mod unat (q_size q) = (q_off q + j) mod unat (q_size q)"
    by (simp only: unat_of_nat_u64 lt)
  then show ?thesis by (rule mod_add_inj [OF assms(1,2)])
qed

text \<open>Stepping a pointer inside the buffer with the wrap-around of the code.\<close>

definition ring_step :: "addr \<Rightarrow> u64 \<Rightarrow> addr \<Rightarrow> addr" where
  "ring_step d n p = (if p + 1 = d + n then d else p + 1)"

lemma ring_step_cell:
  assumes "o' < unat n"
  shows "ring_step d n (d + of_nat o') = d + of_nat (Suc o' mod unat n)"
proof (cases "Suc o' = unat n")
  case True
  then have "(of_nat (Suc o') :: u64) = of_nat (unat n)" by simp
  then have "(of_nat o' :: u64) + 1 = n" by (simp add: add.commute)
  then show ?thesis using True by (simp add: ring_step_def add.assoc)
next
  case False
  with assms have lt: "Suc o' < unat n" by simp
  then have "unat (of_nat (Suc o') :: u64) = Suc o'"
    by (intro unat_of_nat_u64) (meson order.strict_trans unat_lt_u64)
  with lt have "(of_nat o' :: u64) + 1 \<noteq> n" by (metis add.commute less_irrefl of_nat_Suc)
  then show ?thesis using lt by (simp add: ring_step_def add.assoc add.commute [of _ 1])
qed

text \<open>The two byte operations on a queue that satisfies the invariant, in terms of cells.\<close>

lemma ring_step_q_cell:
  assumes "0 < unat (q_size q)"
  shows "ring_step (q_data q) (q_size q) (q_cell q i) = q_cell q (Suc i)"
proof -
  have "(q_off q + i) mod unat (q_size q) < unat (q_size q)" using assms by simp
  then show ?thesis
    by (simp add: q_cell_def ring_step_cell mod_Suc_eq del: of_nat_Suc)
qed

lemma q_begin_cell: "queue_inv q \<Longrightarrow> q_begin q = q_cell q 0"
  by (auto simp: queue_inv_def q_cell_def q_off_def)

lemma queue_inv_pos:
  assumes "queue_inv q" and "q_count q \<noteq> q_size q \<or> q_count q \<noteq> 0"
  shows "0 < unat (q_size q)"
proof (rule ccontr)
  assume "\<not> ?thesis"
  then have "q_size q = 0" by (simp add: unat_eq_zero)
  with assms show False by (auto simp: queue_inv_def)
qed

lemma queue_PushByte_full [simp]: "q_count q = q_size q \<Longrightarrow> queue_PushByte b (m, q) = (m, q)"
  by (simp add: queue_PushByte_def)

lemma queue_PushByte_room:
  assumes "queue_inv q" and "q_count q \<noteq> q_size q"
  shows "queue_PushByte b (m, q) =
     (m(q_cell q (unat (q_count q)) := b),
      q\<lparr>q_count := q_count q + 1, q_end := q_cell q (Suc (unat (q_count q)))\<rparr>)"
proof -
  have "0 < unat (q_size q)" using queue_inv_pos assms by blast
  from ring_step_q_cell [OF this, of "unat (q_count q)"] assms show ?thesis
    by (auto simp: queue_PushByte_def queue_inv_def ring_step_def Let_def)
qed

lemma queue_PopByte_empty [simp]: "q_count q = 0 \<Longrightarrow> queue_PopByte (m, q) = (0, m, q)"
  by (simp add: queue_PopByte_def)

lemma queue_PopByte_some:
  assumes "queue_inv q" and "q_count q \<noteq> 0"
  shows "queue_PopByte (m, q) =
     (m (q_cell q 0), m, q\<lparr>q_count := q_count q - 1, q_begin := q_cell q (Suc 0)\<rparr>)"
proof -
  have "0 < unat (q_size q)" using queue_inv_pos assms by blast
  from ring_step_q_cell [OF this, of 0] assms q_begin_cell [OF assms(1)] show ?thesis
    by (auto simp: queue_PopByte_def ring_step_def Let_def)
qed

lemma q_cell_push [simp]:
  "q_cell (q\<lparr>q_count := c, q_end := e\<rparr>) = q_cell q" "q_off (q\<lparr>q_count := c, q_end := e\<rparr>) = q_off q"
  by (auto simp: q_cell_def q_off_def)

lemma q_cell_pop:
  assumes "0 < unat (q_size q)"
  shows "q_cell (q\<lparr>q_count := c, q_begin := q_cell q (Suc 0)\<rparr>) i = q_cell q (Suc i)"
    and "q_off (q\<lparr>q_count := c, q_begin := q_cell q (Suc 0)\<rparr>) = Suc (q_off q) mod unat (q_size q)"
proof -
  have "(q_off q + 1) mod unat (q_size q) < 2 ^ 64"
    using assms by (meson mod_less_divisor order.strict_trans unat_lt_u64)
  then show off: "q_off (q\<lparr>q_count := c, q_begin := q_cell q (Suc 0)\<rparr>) = Suc (q_off q) mod unat (q_size q)"
    by (simp add: q_off_def [of "q\<lparr>q_count := c, q_begin := _\<rparr>"] q_cell_def unat_of_nat_u64)
  show "q_cell (q\<lparr>q_count := c, q_begin := q_cell q (Suc 0)\<rparr>) i = q_cell q (Suc i)"
    using off by (simp add: q_cell_def [of "q\<lparr>q_count := c, q_begin := _\<rparr>"] mod_add_left_eq)
       (simp add: q_cell_def)
qed

lemma queue_inv_PushByte:
  assumes "queue_inv (snd s)"
  shows "queue_inv (snd (queue_PushByte b s))"
proof (cases s)
  case (Pair m q)
  with assms have inv: "queue_inv q" by simp
  show ?thesis
  proof (cases "q_count q = q_size q")
    case False
    with inv have "q_count q < q_size q" by (simp add: queue_inv_def order_less_le)
    with inv show ?thesis
      by (auto simp: Pair queue_PushByte_room [OF inv False] queue_inv_def word_nat word_le_nat_alt
          word_less_nat_alt)
  qed (use inv Pair in simp)
qed

lemma queue_inv_PopByte:
  assumes "queue_inv (snd s)"
  shows "queue_inv (snd (snd (queue_PopByte s)))"
proof (cases s)
  case (Pair m q)
  with assms have inv: "queue_inv q" by simp
  show ?thesis
  proof (cases "q_count q = 0")
    case False
    with inv have pos: "0 < unat (q_size q)" using queue_inv_pos by blast
    have dec: "unat (q_count q) = Suc (unat (q_count q - 1))" using False by (rule unat_pred_u64)
    with inv pos False show ?thesis
      by (auto simp: Pair queue_PopByte_some [OF inv False] queue_inv_def q_cell_pop word_le_nat_alt)
  qed (use inv Pair in simp)
qed

lemma queue_contents_PushByte:
  assumes "queue_inv (snd s)" and "q_count (snd s) \<noteq> q_size (snd s)"
  shows "queue_contents (queue_PushByte b s) = queue_contents s @ [b]"
proof (cases s)
  case (Pair m q)
  with assms have inv: "queue_inv q" and ne: "q_count q \<noteq> q_size q" by simp_all
  then have lt: "unat (q_count q) < unat (q_size q)"
    by (simp add: queue_inv_def word_le_nat_alt order_less_le word_unat_eq_iff)
  then have suc: "unat (q_count q + 1) = Suc (unat (q_count q))"
    by (intro unat_Suc_u64 [where v = "q_size q"]) (simp add: word_less_nat_alt)
  have "q_cell q i \<noteq> q_cell q (unat (q_count q))" if "i < unat (q_count q)" for i
    using q_cell_inj [of i q "unat (q_count q)"] that lt by auto
  then show ?thesis
    by (simp add: Pair queue_PushByte_room [OF inv ne] queue_contents_def suc)
qed

lemma queue_contents_PopByte:
  assumes "queue_inv (snd s)" and "q_count (snd s) \<noteq> 0"
  shows "fst (queue_PopByte s) # queue_contents (snd (queue_PopByte s)) = queue_contents s"
proof (cases s)
  case (Pair m q)
  with assms have inv: "queue_inv q" and ne: "q_count q \<noteq> 0" by simp_all
  note pos = queue_inv_pos [OF inv disjI2 [OF ne]]
  show ?thesis
    unfolding Pair queue_PopByte_some [OF inv ne] queue_contents_def fst_conv snd_conv
    by (simp add: unat_pred_u64 [OF ne] q_cell_pop [OF pos] upt_conv_Cons map_Suc_upt [symmetric]
        o_def del: upt_Suc)
qed

lemma q_size_PushByte [simp]: "q_size (snd (queue_PushByte b s)) = q_size (snd s)"
  by (cases s) (simp add: queue_PushByte_def Let_def)

lemma q_size_PopByte [simp]: "q_size (snd (snd (queue_PopByte s))) = q_size (snd s)"
  by (cases s) (simp add: queue_PopByte_def Let_def)

text \<open>The ring buffer implements the contract of a bounded byte queue.\<close>

interpretation rq: byte_fifo queue_PushByte queue_PopByte queue_contents
  "\<lambda>s. unat (q_size (snd s))" "\<lambda>s. queue_inv (snd s)"
proof unfold_locales
  fix s :: "mem \<times> queue_Queue" and b x :: u8 and xs
  assume inv: "queue_inv (snd s)"
  show "queue_inv (snd (queue_PushByte b s))" by (rule queue_inv_PushByte [OF inv])
  show "queue_inv (snd (snd (queue_PopByte s)))" by (rule queue_inv_PopByte [OF inv])
  show "length (queue_contents s) \<le> unat (q_size (snd s))"
    using inv by (simp add: queue_inv_def word_le_nat_alt)
  show "queue_contents (queue_PushByte b s) = queue_contents s @ [b]"
    if "length (queue_contents s) < unat (q_size (snd s))"
    using that by (intro queue_contents_PushByte [OF inv]) auto
  show "queue_contents (queue_PushByte b s) = queue_contents s"
    if "length (queue_contents s) = unat (q_size (snd s))"
    using that by (cases s) (simp add: word_unat_eq_iff)
  show "fst (queue_PopByte s) = x \<and> queue_contents (snd (queue_PopByte s)) = xs"
    if "queue_contents s = x # xs"
  proof -
    have "q_count (snd s) \<noteq> 0" using that by (auto simp: queue_contents_def)
    from queue_contents_PopByte [OF inv this] that show ?thesis by simp
  qed
  show "queue_PopByte s = (0, s)" if "queue_contents s = []"
    using that by (cases s) (simp add: queue_contents_def unat_eq_zero)
qed simp_all

section \<open>Runs of bytes\<close>

lemma q_cell_in_block: "0 < unat (q_size q) \<Longrightarrow> in_block (q_cell q i) (q_data q) (q_size q)"
  unfolding q_cell_def by (rule in_block_offset) simp

lemma queue_PushByte_frame:
  assumes "queue_inv (snd s)" and "\<not> in_block a (q_data (snd s)) (q_size (snd s))"
  shows "fst (queue_PushByte b s) a = fst s a"
proof (cases s)
  case (Pair m q)
  with assms have inv: "queue_inv q" and out: "\<not> in_block a (q_data q) (q_size q)" by simp_all
  show ?thesis
  proof (cases "q_count q = q_size q")
    case False
    then have "in_block (q_cell q (unat (q_count q))) (q_data q) (q_size q)"
      using queue_inv_pos [OF inv] by (simp add: q_cell_in_block)
    with out show ?thesis by (auto simp: Pair queue_PushByte_room [OF inv False])
  qed (simp add: Pair)
qed

lemma q_data_PushByte [simp]: "q_data (snd (queue_PushByte b s)) = q_data (snd s)"
  by (cases s) (simp add: queue_PushByte_def Let_def)

lemma q_data_PopByte [simp]: "q_data (snd (snd (queue_PopByte s))) = q_data (snd s)"
  by (cases s) (simp add: queue_PopByte_def Let_def)

lemma queue_PopByte_mem [simp]: "fst (snd (queue_PopByte s)) = fst s"
  by (cases s) (simp add: queue_PopByte_def Let_def)

text \<open>The push loop is a fold of the byte push over the bytes of the caller's buffer.\<close>

lemma queue_Push_loop_fold:
  assumes "queue_inv (snd s)" and "unat e = unat i + n"
    and "\<And>k. k < n \<Longrightarrow> \<not> in_block (i + of_nat k) (q_data (snd s)) (q_size (snd s))"
  shows "queue_Push_loop i e s = fold queue_PushByte (bytes_at (fst s) i n) s"
  using assms
proof (induction n arbitrary: i s)
  case 0
  then show ?case by (simp add: queue_Push_loop.simps [of i e s] word_less_nat_alt)
next
  case (Suc n)
  let ?s = "queue_PushByte (fst s i) s"
  have lt: "i < e" using Suc.prems(2) by (simp add: word_less_nat_alt)
  then have "unat e = unat (i + 1) + n" using Suc.prems(2) by (simp add: unat_Suc_u64)
  moreover have out: "\<not> in_block (i + 1 + of_nat k) (q_data (snd s)) (q_size (snd s))"
    if "k < n" for k
    using Suc.prems(3) [of "Suc k"] that by (simp add: add.assoc)
  moreover have "bytes_at (fst ?s) (i + 1) n = bytes_at (fst s) (i + 1) n"
    by (rule bytes_at_cong) (simp add: queue_PushByte_frame [OF Suc.prems(1)] out)
  ultimately show ?case
    using Suc.IH [of ?s "i + 1"] Suc.prems(1) lt
    by (simp add: queue_Push_loop.simps [of i e s] bytes_at_Suc queue_inv_PushByte)
qed

text \<open>The pop loop fills the caller's buffer with the bytes popped.\<close>

lemma queue_contents_frame:
  assumes "queue_inv q" and "\<not> in_block a (q_data q) (q_size q)"
  shows "queue_contents (m(a := b), q) = queue_contents (m, q)"
proof -
  have "q_cell q i \<noteq> a" if "i < unat (q_count q)" for i
    using that assms queue_inv_pos [OF assms(1)] q_cell_in_block [of q i] by fastforce
  then show ?thesis by (simp add: queue_contents_def)
qed

lemma queue_Pop_loop_spec:
  assumes "queue_inv (snd s)" and "unat e = unat i + n" and "n \<le> length (queue_contents s)"
    and "\<And>k. k < n \<Longrightarrow> \<not> in_block (i + of_nat k) (q_data (snd s)) (q_size (snd s))"
  defines "s' \<equiv> queue_Pop_loop i e s"
  shows "bytes_at (fst s') i n = take n (queue_contents s) \<and>
         queue_contents s' = drop n (queue_contents s) \<and> queue_inv (snd s') \<and>
         (\<forall>a. \<not> in_block a i (of_nat n) \<longrightarrow> fst s' a = fst s a)"
  using assms(1-4) unfolding s'_def
proof (induction n arbitrary: i s)
  case 0
  then show ?case by (simp add: queue_Pop_loop.simps [of i e s] word_less_nat_alt)
next
  case (Suc n)
  obtain x xs where c: "queue_contents s = x # xs" using Suc.prems(3) by (cases "queue_contents s") auto
  let ?p = "queue_PopByte s" and ?q = "snd (snd (queue_PopByte s))"
  let ?s = "((fst s)(i := x), ?q)"
  note ps = rq.pop_some [OF Suc.prems(1) c]
  have out: "\<not> in_block i (q_data (snd s)) (q_size (snd s))" using Suc.prems(4) [of 0] by simp
  have lt: "i < e" using Suc.prems(2) by (simp add: word_less_nat_alt)
  then have len: "unat e = unat (i + 1) + n" using Suc.prems(2) by (simp add: unat_Suc_u64)
  have inv: "queue_inv ?q" by (rule queue_inv_PopByte [OF Suc.prems(1)])
  have step: "queue_Pop_loop i e s = queue_Pop_loop (i + 1) e ?s"
    using lt ps by (simp add: queue_Pop_loop.simps [of i e s] split_beta)
  have cs: "queue_contents ?s = xs"
    using ps queue_contents_frame [OF inv, of i "fst s" x] out
    by (metis prod.collapse q_data_PopByte q_size_PopByte queue_PopByte_mem)
  have out': "\<not> in_block (i + 1 + of_nat k) (q_data (snd ?s)) (q_size (snd ?s))" if "k < n" for k
    using Suc.prems(4) [of "Suc k"] that by (simp add: add.assoc)
  have n64: "Suc n < 2 ^ 64" using Suc.prems(2) unat_lt_u64 [of e] by linarith
  have "n \<le> length (queue_contents ?s)" using Suc.prems(3) c cs by simp
  from Suc.IH [of ?s "i + 1", OF _ len this out'] inv
  show ?case
    unfolding step bytes_at_Suc c cs in_block_Suc(1) [OF n64]
    using in_block_Suc(2) [OF n64, of i] by simp
qed

lemma queue_Space_unat:
  "queue_inv (snd s) \<Longrightarrow>
     unat (queue_Space (snd s)) = unat (q_size (snd s)) - length (queue_contents s)"
  by (simp add: queue_Space_def queue_inv_def unat_sub)

lemma queue_pushes_frame [simp]:
  "q_size (snd (fold queue_PushByte bs s)) = q_size (snd s)"
  "q_data (snd (fold queue_PushByte bs s)) = q_data (snd s)"
  by (induction bs arbitrary: s) simp_all

lemma queue_pushes_mem:
  "queue_inv (snd s) \<Longrightarrow> \<not> in_block a (q_data (snd s)) (q_size (snd s)) \<Longrightarrow>
     fst (fold queue_PushByte bs s) a = fst s a"
  by (induction bs arbitrary: s) (simp_all add: queue_PushByte_frame rq.inv_push)

lemma queue_Push_fold:
  assumes "queue_inv (snd s)" and "unat buffer + unat sz < 2 ^ 64"
    and "disjoint_blocks buffer sz (q_data (snd s)) (q_size (snd s))"
  shows "queue_Push buffer sz s = (if length (queue_contents s) + unat sz \<le> unat (q_size (snd s))
           then fold queue_PushByte (bytes_at (fst s) buffer (unat sz)) s else s)"
proof -
  have "queue_Space (snd s) < sz \<longleftrightarrow> \<not> length (queue_contents s) + unat sz \<le> unat (q_size (snd s))"
    using queue_Space_unat [OF assms(1)] rq.fits [OF assms(1)] by (auto simp: word_less_nat_alt)
  with assms show ?thesis
    by (simp add: queue_Push_def queue_Push_loop_fold unat_add_no_wrap not_in_disjoint)
qed

lemma queue_Pop_spec:
  assumes "queue_inv (snd s)"
    and "unat buffer + unat sz < 2 ^ 64"
    and "disjoint_blocks buffer sz (q_data (snd s)) (q_size (snd s))"
    and "queue_Pop buffer sz s = (r, s')"
  shows "if length (queue_contents s) < unat sz then r = 0 \<and> s' = s
     else r = sz
       \<and> bytes_at (fst s') buffer (unat sz) = take (unat sz) (queue_contents s)
       \<and> queue_contents s' = drop (unat sz) (queue_contents s)
       \<and> queue_inv (snd s')
       \<and> (\<forall>a. \<not> in_block a buffer sz \<longrightarrow> fst s' a = fst s a)"
proof (cases "length (queue_contents s) < unat sz")
  case True
  then show ?thesis using assms(4) by (simp add: queue_Pop_def queue_Size_def word_less_nat_alt)
next
  case False
  then have "s' = queue_Pop_loop buffer (buffer + sz) s" "r = sz"
    using assms(4) by (auto simp: queue_Pop_def queue_Size_def word_less_nat_alt)
  with False queue_Pop_loop_spec [OF assms(1) unat_add_no_wrap [OF assms(2)]] assms(3)
  show ?thesis by (simp add: not_in_disjoint)
qed

section \<open>Properties\<close>

text \<open>
  C16: \<^verbatim>\<open>queue_Push\<close> is all or nothing. When the message fits in the free space it is appended to
  the contents in order, otherwise the queue is unchanged; the ring invariant is kept either way, and
  no byte outside the ring changes.
  The caller's buffer does not overlap the ring and does not wrap around the address space.
\<close>

theorem queue_Push_all_or_nothing:
  assumes "queue_inv (snd s)"
    and "unat buffer + unat sz < 2 ^ 64"
    and "disjoint_blocks buffer sz (q_data (snd s)) (q_size (snd s))"
  shows "queue_contents (queue_Push buffer sz s) = queue_contents s @
           (if length (queue_contents s) + unat sz \<le> unat (q_size (snd s))
            then bytes_at (fst s) buffer (unat sz) else [])
       \<and> queue_inv (snd (queue_Push buffer sz s))
       \<and> (\<forall>a. \<not> in_block a (q_data (snd s)) (q_size (snd s)) \<longrightarrow> fst (queue_Push buffer sz s) a = fst s a)"
  using queue_Push_fold [OF assms] rq.contents_pushes [OF assms(1)] rq.inv_pushes [OF assms(1)]
    queue_pushes_mem [OF assms(1)] assms(1) by simp

definition demo_queue :: "mem \<times> queue_Queue" where
  "demo_queue = ((\<lambda>a. ucast a), queue_InitBuffered \<lparr>q_data = 0, q_size = 0, q_begin = 0, q_end = 0,
     q_count = 0\<rparr> 0x1000 16)"

lemma demo_queue_simps [simp]:
  "fst demo_queue a = ucast a" "q_data (snd demo_queue) = 0x1000" "q_size (snd demo_queue) = 16"
  "q_count (snd demo_queue) = 0" "queue_inv (snd demo_queue)" "queue_contents demo_queue = []"
  by (simp_all add: demo_queue_def queue_InitBuffered_def queue_inv_def q_off_def q_cell_def
      queue_contents_def)

theorem queue_Push_all_or_nothing_witness:
  "queue_contents (queue_Push 0x2041 4 demo_queue) = [0x41, 0x42, 0x43, 0x44]"
proof -
  have "disjoint_blocks 0x2041 4 (q_data (snd demo_queue)) (q_size (snd demo_queue))"
    by (intro disjoint_blocks_sym [OF disjoint_blocksI]) simp_all
  from queue_Push_all_or_nothing [OF _ _ this] show ?thesis
    by (simp add: bytes_at_def upt_rec)
qed

text \<open>
  C17: \<^verbatim>\<open>queue_Pop\<close> is all or nothing too. With fewer bytes queued than asked for it returns 0 and
  changes nothing; otherwise it returns the size asked for, the caller's buffer holds the oldest
  bytes in order, they are gone from the queue, and no byte outside the caller's buffer changed.
\<close>

theorem queue_Pop_all_or_nothing:
  assumes "queue_inv (snd s)"
    and "unat buffer + unat sz < 2 ^ 64"
    and "disjoint_blocks buffer sz (q_data (snd s)) (q_size (snd s))"
    and "queue_Pop buffer sz s = (r, s')"
  shows "if length (queue_contents s) < unat sz then r = 0 \<and> s' = s
     else r = sz
       \<and> bytes_at (fst s') buffer (unat sz) = take (unat sz) (queue_contents s)
       \<and> queue_contents s' = drop (unat sz) (queue_contents s)
       \<and> queue_inv (snd s')
       \<and> (\<forall>a. \<not> in_block a buffer sz \<longrightarrow> fst s' a = fst s a)"
  using assms by (rule queue_Pop_spec)

definition demo_wrapped :: "mem \<times> queue_Queue" where
  "demo_wrapped = ((\<lambda>a. ucast a), \<lparr>q_data = 0x1000, q_size = 16, q_begin = 0x100e,
     q_end = 0x1002, q_count = 4\<rparr>)"

lemma demo_wrapped_simps [simp]:
  "q_data (snd demo_wrapped) = 0x1000" "q_size (snd demo_wrapped) = 16"
  "queue_inv (snd demo_wrapped)" "queue_contents demo_wrapped = [0x0e, 0x0f, 0, 1]"
  by (simp_all add: demo_wrapped_def queue_inv_def q_off_def q_cell_def queue_contents_def upt_rec)

theorem queue_Pop_all_or_nothing_witness:
  "\<exists>s'. queue_Pop 0x3000 3 demo_wrapped = (3, s') \<and> bytes_at (fst s') 0x3000 3 = [0x0e, 0x0f, 0]
     \<and> queue_contents s' = [1]"
proof -
  have "disjoint_blocks 0x3000 3 (q_data (snd demo_wrapped)) (q_size (snd demo_wrapped))"
    by (intro disjoint_blocks_sym [OF disjoint_blocksI]) simp_all
  from queue_Pop_all_or_nothing [OF _ _ this, of "fst (queue_Pop 0x3000 3 demo_wrapped)"
      "snd (queue_Pop 0x3000 3 demo_wrapped)"]
  show ?thesis by (intro exI [of _ "snd (queue_Pop 0x3000 3 demo_wrapped)"]) (simp add: prod_eq_iff)
qed

end
