(* ===== verification/Stack.thy ===== *)
theory Stack
  imports Prelude
begin

text \<open>
  The byte stack of \<^verbatim>\<open>src/util/stack.c\<close>, which grows downward from the end of its buffer to
  \<open>st_data\<close>. As for the queue, the operations take and return the memory and the struct, and the
  diagnostics on a full or empty stack are not modelled.
\<close>

section \<open>The code\<close>

record c_stack =
  st_data :: addr
  st_size :: u64
  st_top :: addr

definition stack_InitBuffered :: "c_stack \<Rightarrow> addr \<Rightarrow> u64 \<Rightarrow> c_stack" where
  "stack_InitBuffered s buffer sz = s\<lparr>st_data := buffer, st_size := sz, st_top := buffer + sz\<rparr>"

definition stack_Empty :: "c_stack \<Rightarrow> bool" where
  "stack_Empty s \<longleftrightarrow> st_top s = st_data s + st_size s"

definition stack_Size :: "c_stack \<Rightarrow> u64" where
  "stack_Size s = st_data s + st_size s - st_top s"

definition stack_Space :: "c_stack \<Rightarrow> u64" where
  "stack_Space s = st_top s - st_data s"

definition stack_Clear :: "c_stack \<Rightarrow> c_stack" where
  "stack_Clear s = s\<lparr>st_top := st_data s + st_size s\<rparr>"

definition stack_PushByte :: "u8 \<Rightarrow> mem \<times> c_stack \<Rightarrow> mem \<times> c_stack" where
  "stack_PushByte b ms = (let (m, s) = ms in
     if st_top s \<le> st_data s then (m, s)
     else let s = s\<lparr>st_top := st_top s - 1\<rparr> in (m(st_top s := b), s))"

definition stack_PopByte :: "mem \<times> c_stack \<Rightarrow> u8 \<times> mem \<times> c_stack" where
  "stack_PopByte ms = (let (m, s) = ms in
     if st_top s = st_data s + st_size s then (0, m, s)
     else (m (st_top s), m, s\<lparr>st_top := st_top s + 1\<rparr>))"

definition stack_Push :: "addr \<Rightarrow> u64 \<Rightarrow> mem \<times> c_stack \<Rightarrow> mem \<times> c_stack" where
  "stack_Push buffer sz ms = (let (m, s) = ms in
     if stack_Space s < sz then (m, s)
     else let s = s\<lparr>st_top := st_top s - sz\<rparr> in (memcpy m (st_top s) buffer sz, s))"

definition stack_Pop :: "addr \<Rightarrow> u64 \<Rightarrow> mem \<times> c_stack \<Rightarrow> u64 \<times> mem \<times> c_stack" where
  "stack_Pop buffer sz ms = (let (m, s) = ms in
     if stack_Size s < sz then (0, m, s)
     else (sz, memcpy m buffer (st_top s) sz, s\<lparr>st_top := st_top s + sz\<rparr>))"

definition stack_TopByte :: "mem \<times> c_stack \<Rightarrow> u8" where
  "stack_TopByte ms = (let (m, s) = ms in if stack_Empty s then 0 else m (st_top s))"

definition stack_Top :: "addr \<Rightarrow> u64 \<Rightarrow> mem \<times> c_stack \<Rightarrow> u64 \<times> mem" where
  "stack_Top buffer sz ms = (let (m, s) = ms in
     if stack_Size s < sz then (0, m) else (sz, memcpy m buffer (st_top s) sz))"

section \<open>Invariant and contents\<close>

text \<open>
  The buffer does not wrap around the address space and the top stays inside it (or one past its
  end). The contents are read from the top downwards in age: the byte pushed last comes first.
\<close>

definition stack_inv :: "c_stack \<Rightarrow> bool" where
  "stack_inv s \<longleftrightarrow> unat (st_data s) + unat (st_size s) < 2 ^ 64 \<and>
     st_data s \<le> st_top s \<and> st_top s \<le> st_data s + st_size s"

definition stack_contents :: "mem \<times> c_stack \<Rightarrow> u8 list" where
  "stack_contents ms = bytes_at (fst ms) (st_top (snd ms)) (unat (stack_Size (snd ms)))"

lemma length_stack_contents [simp]:
  "length (stack_contents ms) = unat (stack_Size (snd ms))"
  by (simp add: stack_contents_def)

lemma stack_inv_unat:
  assumes "stack_inv s"
  shows "unat (stack_Size s) = unat (st_data s) + unat (st_size s) - unat (st_top s)"
    and "unat (stack_Space s) = unat (st_top s) - unat (st_data s)"
    and "unat (st_data s) \<le> unat (st_top s)"
    and "unat (st_top s) \<le> unat (st_data s) + unat (st_size s)"
    and "unat (st_data s) + unat (st_size s) < 2 ^ 64"
  using assms
  by (auto simp: stack_inv_def stack_Size_def stack_Space_def unat_sub unat_add_no_wrap
      word_le_nat_alt)

lemma stack_size_space: "stack_inv s \<Longrightarrow> unat (stack_Size s) + unat (stack_Space s) = unat (st_size s)"
  using stack_inv_unat by fastforce

lemma stack_InitBuffered_inv:
  "unat buffer + unat sz < 2 ^ 64 \<Longrightarrow>
     stack_inv (stack_InitBuffered s buffer sz) \<and> stack_contents (m, stack_InitBuffered s buffer sz) = []"
  by (simp add: stack_InitBuffered_def stack_inv_def stack_contents_def stack_Size_def
      word_le_nat_alt unat_add_no_wrap)

lemma stack_Clear_inv:
  "stack_inv s \<Longrightarrow> stack_inv (stack_Clear s) \<and> stack_contents (m, stack_Clear s) = []"
  by (simp add: stack_Clear_def stack_inv_def stack_contents_def stack_Size_def word_le_nat_alt
      unat_add_no_wrap)

text \<open>The pushed block lies in the free part of the buffer, so it leaves the older bytes alone.\<close>

lemma stack_Push_room:
  assumes "stack_inv s" and "unat sz \<le> unat (stack_Space s)"
  shows "stack_inv (s\<lparr>st_top := st_top s - sz\<rparr>)"
    and "unat (st_top s - sz) = unat (st_top s) - unat sz"
    and "unat (stack_Size (s\<lparr>st_top := st_top s - sz\<rparr>)) = unat sz + unat (stack_Size s)"
proof -
  note u = stack_inv_unat [OF assms(1)]
  have le: "sz \<le> st_top s" using u assms(2) by (simp add: word_le_nat_alt)
  show t: "unat (st_top s - sz) = unat (st_top s) - unat sz" using le by (rule unat_sub)
  show inv: "stack_inv (s\<lparr>st_top := st_top s - sz\<rparr>)"
    using assms u by (auto simp: stack_inv_def word_le_nat_alt t unat_add_no_wrap)
  show "unat (stack_Size (s\<lparr>st_top := st_top s - sz\<rparr>)) = unat sz + unat (stack_Size s)"
    using stack_inv_unat(1) [OF inv] u assms(2) by (simp add: t)
qed

lemma stack_Push_contents:
  assumes "stack_inv s" and "unat sz \<le> unat (stack_Space s)"
  shows "stack_contents (stack_Push buffer sz (m, s)) = bytes_at m buffer (unat sz) @ stack_contents (m, s)"
proof -
  note u = stack_inv_unat [OF assms(1)] and r = stack_Push_room [OF assms]
  have "\<not> in_block (st_top s + of_nat i) (st_top s - sz) sz" if "i < unat (stack_Size s)" for i
  proof -
    have "unat (of_nat i :: u64) = i" using that by (intro unat_of_nat_u64) (meson less_trans unat_lt_u64)
    moreover have "unat (st_top s) + i < 2 ^ 64" using that u by simp
    ultimately have "unat (st_top s + of_nat i) = unat (st_top s) + i" by (simp add: unat_add_no_wrap)
    then show ?thesis using u assms(2) r(2) by (subst in_block_interval) auto
  qed
  then show ?thesis
    using assms r(3)
    by (simp add: stack_Push_def stack_contents_def word_less_nat_alt bytes_at_add mem_simps
        bytes_at_memcpy_outside)
qed

lemma stack_Pop_contents:
  assumes "stack_inv s" and "unat sz \<le> unat (stack_Size s)"
    and "disjoint_blocks buffer sz (st_data s) (st_size s)"
    and "stack_Pop buffer sz (m, s) = (r, m', s')"
  shows "r = sz \<and> stack_inv s' \<and> bytes_at m' buffer (unat sz) = take (unat sz) (stack_contents (m, s))
     \<and> stack_contents (m', s') = drop (unat sz) (stack_contents (m, s))"
proof -
  note u = stack_inv_unat [OF assms(1)]
  have eq: "r = sz" "m' = memcpy m buffer (st_top s) sz" "s' = s\<lparr>st_top := st_top s + sz\<rparr>"
    using assms(2,4) by (auto simp: stack_Pop_def word_less_nat_alt)
  have t: "unat (st_top s + sz) = unat (st_top s) + unat sz"
    using u assms(2) by (intro unat_add_no_wrap) linarith
  have inv: "stack_inv s'" using assms(1,2) u by (simp add: eq stack_inv_def word_le_nat_alt t unat_add_no_wrap)
  have sz: "unat (stack_Size s) = unat sz + unat (stack_Size s')"
    using stack_inv_unat(1) [OF inv] u assms(2) by (simp add: eq t)
  have "\<not> in_block (st_top s + sz + of_nat i) buffer sz" if "i < unat (stack_Size s')" for i
  proof -
    have i: "unat (of_nat i :: u64) = i" using that by (intro unat_of_nat_u64) (meson less_trans unat_lt_u64)
    have "unat (st_top s) + unat sz + i < 2 ^ 64" using that sz u by simp
    then have "unat (st_top s + sz + of_nat i) = unat (st_top s) + unat sz + i"
      using i t by (simp add: unat_add_no_wrap)
    then have "in_block (st_top s + sz + of_nat i) (st_data s) (st_size s)"
      using that sz u by (subst in_block_interval) auto
    with assms(3) show ?thesis by (auto simp: disjoint_blocks_def)
  qed
  then have out: "bytes_at (memcpy m buffer (st_top s) sz) (st_top s + sz) (unat (stack_Size s'))
      = bytes_at m (st_top s + sz) (unat (stack_Size s'))"
    by (rule bytes_at_memcpy_outside)
  show ?thesis
    using inv out by (simp add: eq(1,2) stack_contents_def sz bytes_at_add mem_simps) (simp add: eq)
qed

section \<open>Properties\<close>

text \<open>
  The stack is last in, first out for runs of bytes. A \<^verbatim>\<open>stack_Push\<close> that fits puts the
  caller's bytes on top of the contents and one that does not fit changes nothing; a \<^verbatim>\<open>stack_Pop\<close>
  of the same size after a successful push returns exactly those bytes and the contents from
  before the push.
\<close>

theorem stack_push_pop:
  assumes "stack_inv s"
    and "disjoint_blocks out sz (st_data s) (st_size s)"
    and "stack_Push buffer sz (m, s) = (m1, s1)"
    and "stack_Pop out sz (m1, s1) = (r, m2, s2)"
  shows "if unat sz \<le> unat (st_size s) - length (stack_contents (m, s))
     then stack_contents (m1, s1) = bytes_at m buffer (unat sz) @ stack_contents (m, s)
       \<and> r = sz \<and> bytes_at m2 out (unat sz) = bytes_at m buffer (unat sz)
       \<and> stack_contents (m2, s2) = stack_contents (m, s) \<and> stack_inv s2
     else m1 = m \<and> s1 = s"
proof -
  have sp: "unat (st_size s) - length (stack_contents (m, s)) = unat (stack_Space s)"
    using stack_size_space [OF assms(1)] by simp
  show ?thesis
  proof (cases "unat sz \<le> unat (stack_Space s)")
    case True
    have s1: "s1 = s\<lparr>st_top := st_top s - sz\<rparr>"
      using assms(3) True by (simp add: stack_Push_def word_less_nat_alt)
    have c: "stack_contents (m1, s1) = bytes_at m buffer (unat sz) @ stack_contents (m, s)"
      using stack_Push_contents [OF assms(1) True] assms(3) by metis
    have "r = sz \<and> stack_inv s2 \<and> bytes_at m2 out (unat sz) = take (unat sz) (stack_contents (m1, s1))
       \<and> stack_contents (m2, s2) = drop (unat sz) (stack_contents (m1, s1))"
      using stack_Push_room [OF assms(1) True] assms(2,4)
      by (intro stack_Pop_contents [of s1]) (simp_all add: s1)
    with c sp True show ?thesis by simp
  next
    case False
    then show ?thesis using assms(3) sp by (simp add: stack_Push_def word_less_nat_alt)
  qed
qed

theorem stack_push_pop_witness:
  "let s = stack_InitBuffered \<lparr>st_data = 0, st_size = 0, st_top = 0\<rparr> 0x1000 32;
       (m1, s1) = stack_Push 0x2001 3 ((\<lambda>a. ucast a), s);
       (r, m2, s2) = stack_Pop 0x3000 3 (m1, s1)
   in r = 3 \<and> bytes_at m2 0x3000 3 = [1, 2, 3] \<and> stack_contents (m2, s2) = []"
proof -
  let ?s = "stack_InitBuffered \<lparr>st_data = 0, st_size = 0, st_top = 0\<rparr> 0x1000 32"
  obtain m1 s1 where p: "stack_Push 0x2001 3 ((\<lambda>a. ucast a), ?s) = (m1, s1)" by fastforce
  obtain r m2 s2 where q: "stack_Pop 0x3000 3 (m1, s1) = (r, m2, s2)" by (metis prod_cases3)
  have inv: "stack_inv ?s" and c: "stack_contents ((\<lambda>a. ucast a), ?s) = []"
    using stack_InitBuffered_inv [of "0x1000" 32] by simp_all
  have "disjoint_blocks 0x3000 3 (st_data ?s) (st_size ?s)"
    by (intro disjoint_blocks_sym [OF disjoint_blocksI]) (simp_all add: stack_InitBuffered_def)
  from stack_push_pop [OF inv this p q] c
  have "r = 3 \<and> bytes_at m2 0x3000 3 = [1, 2, 3] \<and> stack_contents (m2, s2) = []"
    by (simp add: stack_InitBuffered_def stack_Size_def bytes_at_def upt_rec)
  then show ?thesis by (simp add: p q)
qed

end
