(* ===== verification/Vector.thy ===== *)
theory Vector
  imports Prelude
begin

text \<open>
  The automatically growing array of \<^verbatim>\<open>src/util/vector.c\<close>. The struct is a record, its buffer lives
  in the byte memory. \<^verbatim>\<open>kMalloc\<close> is the allocator of the vendored \<^verbatim>\<open>dlmalloc\<close>: an operation that
  may allocate takes the address the allocator would return as its argument \<open>newbuf\<close>. The result
  \<open>None\<close> means that the C function does not return: the growth loop does not end, or the division
  by a zero object size traps.
\<close>

section \<open>The code\<close>

record vector_Vector =
  v_data :: addr
  v_size :: u64
  v_cap :: u64
  v_objectSize :: u64

definition vector_Create :: "u64 \<Rightarrow> addr \<Rightarrow> vector_Vector" where
  "vector_Create objectSize newbuf =
     \<lparr>v_data = newbuf, v_size = 0, v_cap = objectSize, v_objectSize = objectSize\<rparr>"

text \<open>
  The new buffer is an argument. The old one is handed back to the allocator after the copy, which leaves the bytes of
  both buffers alone: the allocator's own state is not part of this theory.
\<close>

definition vector_Rebuffer :: "addr \<Rightarrow> u64 \<Rightarrow> mem \<times> vector_Vector \<Rightarrow> mem \<times> vector_Vector" where
  "vector_Rebuffer newbuf newcap s = (let (m, v) = s in
     (memcpy m newbuf (v_data v) (v_size v), v\<lparr>v_data := newbuf, v_cap := newcap\<rparr>))"

text \<open>The buffers handed back to the allocator, in the order of the calls.\<close>

definition vector_Destroy :: "addr \<Rightarrow> vector_Vector \<Rightarrow> addr list" where
  "vector_Destroy vec v = [v_data v, vec]"

definition vector_Size :: "vector_Vector \<Rightarrow> u64 option" where
  "vector_Size v = (if v_objectSize v = 0 then None else Some (v_size v div v_objectSize v))"

definition vector_Capacity :: "vector_Vector \<Rightarrow> u64 option" where
  "vector_Capacity v = (if v_objectSize v = 0 then None else Some (v_cap v div v_objectSize v))"

definition vector_At :: "vector_Vector \<Rightarrow> u64 \<Rightarrow> addr" where
  "vector_At v i = v_data v + v_objectSize v * i"

definition vector_Data :: "vector_Vector \<Rightarrow> addr" where
  "vector_Data v = v_data v"

definition vector_Clear :: "vector_Vector \<Rightarrow> vector_Vector" where
  "vector_Clear v = v\<lparr>v_size := 0\<rparr>"

text \<open>The loop \<^verbatim>\<open>while (newcap < newsize) newcap *= 2;\<close> of \<^verbatim>\<open>vector_Resize\<close>.\<close>

partial_function (option) vector_grow :: "u64 \<Rightarrow> u64 \<Rightarrow> u64 option" where
  "vector_grow newcap newsize =
     (if newcap < newsize then vector_grow (newcap * 2) newsize else Some newcap)"

definition vector_Resize ::
  "addr \<Rightarrow> u64 \<Rightarrow> mem \<times> vector_Vector \<Rightarrow> (mem \<times> vector_Vector) option" where
  "vector_Resize newbuf n s = (let (m, v) = s; newsize = n * v_objectSize v in
     if newsize > v_cap v
     then do {
       newcap \<leftarrow> vector_grow (v_cap v) newsize;
       let (m, v) = vector_Rebuffer newbuf newcap (m, v);
       Some (m, v\<lparr>v_size := newsize\<rparr>)
     }
     else Some (m, v\<lparr>v_size := newsize\<rparr>))"

definition vector_Append ::
  "addr \<Rightarrow> addr \<Rightarrow> u64 \<Rightarrow> mem \<times> vector_Vector \<Rightarrow> (mem \<times> vector_Vector) option" where
  "vector_Append newbuf data n s = do {
     sz \<leftarrow> vector_Size (snd s);
     (m, v) \<leftarrow> vector_Resize newbuf (sz + n) s;
     let addsize = v_objectSize v * n;
     let oldsize = v_size v - addsize;
     Some ((if data \<noteq> 0 then memcpy m (v_data v + oldsize) data addsize
            else memset m (v_data v + oldsize) 0 addsize), v)
   }"

definition vector_Push ::
  "addr \<Rightarrow> addr \<Rightarrow> mem \<times> vector_Vector \<Rightarrow> (addr \<times> mem \<times> vector_Vector) option" where
  "vector_Push newbuf data s = do {
     (m, v) \<leftarrow> vector_Append newbuf data 1 s;
     Some (v_data v + v_size v - v_objectSize v, m, v)
   }"

definition vector_ShrinkBuffer :: "addr \<Rightarrow> mem \<times> vector_Vector \<Rightarrow> mem \<times> vector_Vector" where
  "vector_ShrinkBuffer newbuf s =
     (if v_size (snd s) \<noteq> v_cap (snd s) then vector_Rebuffer newbuf (v_size (snd s)) s else s)"

definition vector_Reserve :: "addr \<Rightarrow> u64 \<Rightarrow> mem \<times> vector_Vector \<Rightarrow> mem \<times> vector_Vector" where
  "vector_Reserve newbuf cap s = (let newcap = v_objectSize (snd s) * cap in
     if newcap > v_cap (snd s) then vector_Rebuffer newbuf newcap s else s)"

section \<open>The growth loop\<close>

lemma vector_grow_done [simp]: "\<not> c < n \<Longrightarrow> vector_grow c n = Some c"
  by (simp add: vector_grow.simps [of c n])

lemma vector_grow_step: "c < n \<Longrightarrow> vector_grow c n = vector_grow (c * 2) n"
  by (simp add: vector_grow.simps [of c n])

lemma unat_double:
  assumes "unat (c :: u64) < 2 ^ 63"
  shows "unat (c * 2) = 2 * unat c"
  using assms by (simp add: unat_word_ariths)

lemma vector_grow_terminates:
  assumes "0 < c" and "n \<le> 2 ^ 63"
  shows "\<exists>c'. vector_grow c n = Some c' \<and> n \<le> c' \<and> c \<le> c'"
  using assms(1)
proof (induction "unat n - unat c" arbitrary: c rule: less_induct)
  case less
  show ?case
  proof (cases "c < n")
    case True
    have n: "unat n \<le> 2 ^ 63" using assms(2) by (simp add: word_le_nat_alt)
    with True have d: "unat (c * 2) = 2 * unat c"
      by (intro unat_double) (simp add: word_less_nat_alt)
    have pos: "0 < unat c" using less.prems by (simp add: word_less_nat_alt)
    from d pos True have "unat n - unat (c * 2) < unat n - unat c" "0 < c * 2"
      by (auto simp: word_less_nat_alt)
    from less.hyps [OF this] obtain c' where
      "vector_grow (c * 2) n = Some c'" "n \<le> c'" "c * 2 \<le> c'" by blast
    moreover have "c \<le> c * 2" using d by (simp add: word_le_nat_alt)
    ultimately show ?thesis using True by (auto simp: vector_grow_step)
  qed auto
qed

lemma vector_grow_not_zero:
  assumes ret: "vector_grow c n = Some r"
  shows "\<not> (c = 0 \<and> 0 < n)"
proof (rule vector_grow.raw_induct [where P = "\<lambda>c n r. \<not> (c = 0 \<and> 0 < n)", OF _ ret])
  fix f and c n r :: u64
  assume IH: "\<And>c n r. f c n = Some r \<Longrightarrow> \<not> (c = 0 \<and> 0 < n)"
    and eq: "(if c < n then f (c * 2) n else Some c) = Some r"
  show "\<not> (c = 0 \<and> 0 < n)"
    using IH [of 0 n r] eq by (auto split: if_splits)
qed

lemma vector_grow_zero: "0 < n \<Longrightarrow> vector_grow 0 n = None"
  using vector_grow_not_zero [of 0 n] by (cases "vector_grow 0 n") auto

section \<open>Invariant and contents\<close>

definition vector_inv :: "vector_Vector \<Rightarrow> bool" where
  "vector_inv v \<longleftrightarrow> 0 < v_objectSize v \<and> v_size v \<le> v_cap v \<and>
     unat (v_objectSize v) dvd unat (v_size v) \<and> unat (v_data v) + unat (v_cap v) \<le> 2 ^ 64"

definition vector_bytes :: "mem \<times> vector_Vector \<Rightarrow> u8 list" where
  "vector_bytes s = bytes_at (fst s) (v_data (snd s)) (unat (v_size (snd s)))"

definition vector_object :: "mem \<times> vector_Vector \<Rightarrow> u64 \<Rightarrow> u8 list" where
  "vector_object s i = bytes_at (fst s) (vector_At (snd s) i) (unat (v_objectSize (snd s)))"

lemma length_vector_bytes [simp]: "length (vector_bytes s) = unat (v_size (snd s))"
  by (simp add: vector_bytes_def)

lemma vector_bytes_Clear [simp]: "vector_bytes (m, vector_Clear v) = []"
  by (simp add: vector_bytes_def vector_Clear_def)

lemma vector_bytes_Rebuffer: "vector_bytes (vector_Rebuffer newbuf c s) = vector_bytes s"
  by (cases s) (simp add: vector_Rebuffer_def vector_bytes_def mem_simps)

lemma vector_size_exact:
  assumes "vector_inv v"
  shows "\<exists>k. vector_Size v = Some k \<and> unat (v_size v) = unat k * unat (v_objectSize v)"
proof -
  have "v_objectSize v \<noteq> 0" using assms by (auto simp: vector_inv_def)
  moreover have "unat (v_size v div v_objectSize v) * unat (v_objectSize v) = unat (v_size v)"
    using assms by (simp add: vector_inv_def unat_div)
  ultimately show ?thesis by (simp add: vector_Size_def)
qed

text \<open>Resizing to a number of objects within the address space.\<close>

lemma vector_Resize_spec:
  assumes inv: "vector_inv v" and capacity: "0 < v_cap v"
    and fit: "unat n * unat (v_objectSize v) \<le> 2 ^ 63"
    and room: "\<And>c. vector_grow (v_cap v) (n * v_objectSize v) = Some c \<Longrightarrow>
      v_cap v < n * v_objectSize v \<Longrightarrow> unat newbuf + unat c \<le> 2 ^ 64"
  shows "\<exists>m' v'. vector_Resize newbuf n (m, v) = Some (m', v')
     \<and> unat (v_size v') = unat n * unat (v_objectSize v) \<and> v_objectSize v' = v_objectSize v
     \<and> vector_inv v' \<and> 0 < v_cap v'
     \<and> take (unat (v_size v)) (vector_bytes (m', v')) = take (unat (v_size v')) (vector_bytes (m, v))
     \<and> (v_data v' = v_data v \<and> m' = m \<or> v_data v' = newbuf \<and> m' = memcpy m newbuf (v_data v) (v_size v))"
proof -
  let ?ns = "n * v_objectSize v"
  have ns: "unat ?ns = unat n * unat (v_objectSize v)"
    using fit by (simp add: unat_word_ariths)
  then have le63: "?ns \<le> 2 ^ 63" using fit by (simp add: word_le_nat_alt)
  have dv: "unat (v_objectSize v) dvd unat ?ns" by (simp add: ns)
  have tk: "take a (bytes_at m p b) = bytes_at m p (min a b)" for a b p and m :: mem
    by (rule nth_equalityI) auto
  show ?thesis
  proof (cases "?ns > v_cap v")
    case True
    obtain c where c: "vector_grow (v_cap v) ?ns = Some c" "?ns \<le> c" "v_cap v \<le> c"
      using vector_grow_terminates [OF capacity le63] by blast
    let ?v = "v\<lparr>v_data := newbuf, v_cap := c, v_size := ?ns\<rparr>"
    let ?m = "memcpy m newbuf (v_data v) (v_size v)"
    have "v_size v \<le> ?ns" using inv True by (auto simp: vector_inv_def)
    then have mn: "unat (v_size v) \<le> unat ?ns" by (simp add: word_le_nat_alt)
    have "vector_inv ?v" using inv c room [OF c(1) True] dv by (auto simp: vector_inv_def)
    moreover have "take (unat (v_size v)) (vector_bytes (?m, ?v)) = vector_bytes (m, v)"
      using mn by (simp add: vector_bytes_def tk min_absorb1 mem_simps)
    ultimately show ?thesis using True c mn capacity
      by (auto simp: vector_Resize_def vector_Rebuffer_def ns)
  next
    case False
    then show ?thesis using inv capacity dv ns
      by (auto simp: vector_Resize_def vector_inv_def vector_bytes_def tk min.commute)
  qed
qed

lemma vector_objects_fit:
  assumes "unat (k :: u64) * unat z + unat n * unat z \<le> 2 ^ 63" and "0 < z"
  shows "unat (k + n) = unat k + unat n"
proof -
  have "0 < unat z" using assms(2) by (simp add: word_less_nat_alt)
  then have "unat k + unat n \<le> (unat k + unat n) * unat z" by simp
  also have "\<dots> \<le> 2 ^ 63" using assms(1) by (simp add: distrib_right)
  finally show ?thesis by (intro unat_add_no_wrap) simp
qed

text \<open>Writing a block right after the first \<open>k\<close> bytes of a buffer that does not wrap around.\<close>

lemma block_after:
  assumes "unat d + unat k + unat a \<le> 2 ^ 64" and "i < unat k"
  shows "\<not> in_block (d + of_nat i) (d + k) a"
proof (cases "unat a = 0")
  case False
  have i: "unat (of_nat i :: u64) = i" using assms(2) by (intro unat_of_nat_u64) (meson less_trans unat_lt_u64)
  have "unat (d + of_nat i) = unat d + i" "unat (d + k) = unat d + unat k"
    using assms False i by (simp_all add: unat_add_no_wrap)
  then show ?thesis using assms by (subst in_block_interval) auto
qed (simp add: unat_eq_zero)

lemma bytes_after_memcpy:
  assumes "unat d + unat k + unat a \<le> 2 ^ 64"
  shows "bytes_at (memcpy m (d + k) src a) d (unat k + unat a) = bytes_at m d (unat k) @ bytes_at m src (unat a)"
  using block_after [OF assms] by (simp add: bytes_at_add mem_simps bytes_at_memcpy_outside)

lemma bytes_after_memset:
  assumes "unat d + unat k + unat a \<le> 2 ^ 64"
  shows "bytes_at (memset m (d + k) v a) d (unat k + unat a) = bytes_at m d (unat k) @ replicate (unat a) v"
proof -
  have "bytes_at (memset m (d + k) v a) d (unat k) = bytes_at m d (unat k)"
    by (rule bytes_at_cong) (simp add: memset_outside block_after [OF assms])
  moreover have "bytes_at (memset m (d + k) v a) (d + k) (unat a) = replicate (unat a) v"
    using bytes_at_memset [of "unat a" m "d + k" v] by simp
  ultimately show ?thesis by (simp add: bytes_at_add)
qed

text \<open>Moving to a new buffer does not touch the bytes to be appended.\<close>

lemma source_kept:
  assumes inv: "vector_inv v" and capacity: "0 < v_cap v"
    and fit: "unat (v_size v) + unat n * unat (v_objectSize v) \<le> 2 ^ 63"
    and room: "\<And>c. vector_grow (v_cap v) (v_size v + n * v_objectSize v) = Some c \<Longrightarrow>
      unat newbuf + unat c \<le> 2 ^ 64 \<and> disjoint_blocks data (v_objectSize v * n) newbuf c"
  shows "bytes_at (memcpy m newbuf (v_data v) (v_size v)) data (unat (v_objectSize v * n)) =
     bytes_at m data (unat (v_objectSize v * n))"
proof (rule bytes_at_memcpy_outside)
  fix i assume i: "i < unat (v_objectSize v * n)"
  have "unat (v_objectSize v * n) = unat n * unat (v_objectSize v)"
    using fit by (simp add: unat_word_ariths mult.commute)
  then have "unat (v_size v + v_objectSize v * n) = unat (v_size v) + unat n * unat (v_objectSize v)"
    using fit by (subst unat_add_no_wrap) simp_all
  with fit have "v_size v + n * v_objectSize v \<le> 2 ^ 63" by (simp add: word_le_nat_alt mult.commute)
  from vector_grow_terminates [OF capacity this] obtain c where
    c: "vector_grow (v_cap v) (v_size v + n * v_objectSize v) = Some c" "v_cap v \<le> c" by blast
  from i have "\<not> in_block (data + of_nat i) newbuf c" using room [OF c(1)] not_in_disjoint by blast
  moreover have "v_size v \<le> c" using inv c(2) by (auto simp: vector_inv_def)
  ultimately show "\<not> in_block (data + of_nat i) newbuf (v_size v)" by (auto simp: in_block_def)
qed

section \<open>Properties\<close>

text \<open>
  C24: \<^verbatim>\<open>vector_Append\<close> returns and appends. For a vector with a non-zero buffer, as long as the new
  size is at most \<open>2^63\<close> bytes and the allocator hands out a buffer that does not wrap around and
  overlaps neither the old buffer nor the caller's data, the call ends (its doubling loop
  terminates), the old bytes are kept in place and followed by the caller's bytes (zeros for a
  null pointer), and the invariant holds again.
\<close>

theorem vector_Append_appends:
  assumes inv: "vector_inv v" and capacity: "0 < v_cap v"
    and fit: "unat (v_size v) + unat n * unat (v_objectSize v) \<le> 2 ^ 63"
    and room: "\<And>c. vector_grow (v_cap v) (v_size v + n * v_objectSize v) = Some c \<Longrightarrow>
      unat newbuf + unat c \<le> 2 ^ 64 \<and> disjoint_blocks data (v_objectSize v * n) newbuf c"
    and apart: "disjoint_blocks data (v_objectSize v * n) (v_data v) (v_cap v)"
  shows "\<exists>m' v'. vector_Append newbuf data n (m, v) = Some (m', v') \<and> vector_inv v' \<and>
    vector_bytes (m', v') = vector_bytes (m, v) @
      (if data = 0 then replicate (unat n * unat (v_objectSize v)) 0
       else bytes_at m data (unat n * unat (v_objectSize v)))"
proof -
  let ?z = "v_objectSize v" and ?add = "v_objectSize v * n"
  obtain k where k: "vector_Size v = Some k" "unat (v_size v) = unat k * unat ?z"
    using vector_size_exact [OF inv] by blast
  have zpos: "0 < ?z" using inv by (simp add: vector_inv_def)
  have kn: "unat (k + n) = unat k + unat n"
    using fit k zpos by (intro vector_objects_fit) simp_all
  have add: "unat ?add = unat n * unat ?z"
    using fit by (simp add: unat_word_ariths mult.commute)
  have szk: "v_size v = k * ?z"
    using k(2) by (simp add: word_unat_eq_iff unat_word_ariths) (metis k(2) unat_lt_u64_numeral mod_less)
  have ns: "(k + n) * ?z = v_size v + n * ?z" by (simp add: szk distrib_right)
  have fit': "unat (k + n) * unat ?z \<le> 2 ^ 63" using fit k(2) by (simp add: kn distrib_right)
  obtain m' v' where r: "vector_Resize newbuf (k + n) (m, v) = Some (m', v')"
      "unat (v_size v') = unat (k + n) * unat ?z" "v_objectSize v' = ?z" "vector_inv v'"
      "take (unat (v_size v)) (vector_bytes (m', v')) = take (unat (v_size v')) (vector_bytes (m, v))"
      "v_data v' = v_data v \<and> m' = m \<or>
       v_data v' = newbuf \<and> m' = memcpy m newbuf (v_data v) (v_size v)"
    using vector_Resize_spec [OF inv capacity fit', of newbuf m] room ns by metis
  have sz': "unat (v_size v') = unat (v_size v) + unat ?add"
    using r(2) k(2) add kn by (simp add: distrib_right)
  have old: "v_size v' - ?add = v_size v"
    using sz' by (simp add: word_unat_eq_iff unat_sub word_le_nat_alt)
  have blk: "unat (v_data v') + unat (v_size v) + unat ?add \<le> 2 ^ 64"
    using r(4) sz' by (auto simp: vector_inv_def word_le_nat_alt)
  have keep: "bytes_at m' (v_data v') (unat (v_size v)) = vector_bytes (m, v)"
    using r(6) by (auto simp: vector_bytes_def mem_simps)
  have "bytes_at (memcpy m newbuf (v_data v) (v_size v)) data (unat ?add) = bytes_at m data (unat ?add)"
    using source_kept [OF inv capacity fit room] .
  then have src: "bytes_at m' data (unat ?add) = bytes_at m data (unat ?add)" using r(6) by auto
  let ?m = "if data \<noteq> 0 then memcpy m' (v_data v' + v_size v) data ?add
    else memset m' (v_data v' + v_size v) 0 ?add"
  have "vector_Append newbuf data n (m, v) = Some (?m, v')"
    using k r(1,3) old by (simp add: vector_Append_def)
  moreover have "vector_bytes (?m, v') = vector_bytes (m, v) @
      (if data = 0 then replicate (unat ?add) 0 else bytes_at m data (unat ?add))"
    using sz' keep src by (simp add: vector_bytes_def bytes_after_memcpy [OF blk] bytes_after_memset [OF blk])
  ultimately show ?thesis using r(4) by (auto simp: add)
qed

definition demo_vector :: vector_Vector where
  "demo_vector = vector_Create 4 0x1000"

lemma demo_vector_grow: "vector_grow 4 8 = Some 8"
  by (simp add: vector_grow.simps)

theorem vector_Append_appends_witness:
  "\<exists>m' v'. vector_Append 0x2000 0x3010 2 ((\<lambda>a. ucast a), demo_vector) = Some (m', v') \<and>
     vector_bytes (m', v') = [0x10, 0x11, 0x12, 0x13, 0x14, 0x15, 0x16, 0x17]"
proof -
  have d: "disjoint_blocks 0x3010 8 0x2000 8" "disjoint_blocks 0x3010 8 0x1000 4"
    by (intro disjoint_blocks_sym [OF disjoint_blocksI]; simp)+
  have src: "bytes_at (\<lambda>a. ucast a) 0x3010 8 = [0x10, 0x11, 0x12, 0x13, 0x14, 0x15, 0x16, 0x17]"
    by (simp add: bytes_at_def upt_rec)
  have "vector_bytes ((\<lambda>a. ucast a), demo_vector) = []" "v_objectSize demo_vector = 4"
    by (simp_all add: demo_vector_def vector_Create_def vector_bytes_def)
  moreover have "\<exists>m' v'. vector_Append 0x2000 0x3010 2 ((\<lambda>a. ucast a), demo_vector) = Some (m', v') \<and>
      vector_inv v' \<and> vector_bytes (m', v') = vector_bytes ((\<lambda>a. ucast a), demo_vector) @
      (if (0x3010 :: addr) = 0 then replicate (unat (2 :: u64) * unat (v_objectSize demo_vector)) 0
       else bytes_at (\<lambda>a. ucast a) 0x3010 (unat (2 :: u64) * unat (v_objectSize demo_vector)))"
    by (rule vector_Append_appends)
       (simp_all add: demo_vector_def vector_Create_def vector_inv_def demo_vector_grow d)
  ultimately show ?thesis by (auto simp: src)
qed

text \<open>
  The growth loop of \<^verbatim>\<open>vector_Resize\<close> never ends on a buffer of capacity 0. \<^verbatim>\<open>vector_ShrinkBuffer\<close>
  gives an empty vector exactly such a buffer, so that every later \<^verbatim>\<open>vector_Push\<close> hangs, whatever
  the allocator returns.
\<close>

theorem vector_Push_hangs_after_shrink:
  assumes "vector_ShrinkBuffer newbuf (m, vector_Clear v) = (m', v')" and "0 < v_objectSize v"
  shows "vector_Push newbuf' data (m', v') = None"
proof -
  have "v_cap v' = 0 \<and> v_size v' = 0 \<and> v_objectSize v' = v_objectSize v"
    using assms(1)
    by (auto simp: vector_ShrinkBuffer_def vector_Clear_def vector_Rebuffer_def split: if_splits)
  then show ?thesis
    using assms(2) by (simp add: vector_Push_def vector_Append_def vector_Size_def vector_Resize_def
        vector_grow_zero word_less_nat_alt)
qed

theorem vector_Push_hangs_after_shrink_witness:
  "\<exists>m' v'. vector_ShrinkBuffer 0x2000 ((\<lambda>_. 0), vector_Clear demo_vector) = (m', v') \<and>
     vector_Push 0x4000 0x3010 (m', v') = None"
proof -
  obtain m' v' where eq: "vector_ShrinkBuffer 0x2000 ((\<lambda>_. 0), vector_Clear demo_vector) = (m', v')"
    by fastforce
  moreover have "0 < v_objectSize demo_vector" by (simp add: demo_vector_def vector_Create_def)
  ultimately show ?thesis using vector_Push_hangs_after_shrink [OF eq] by blast
qed

end
