(* ===== verification/Numeric.thy ===== *)
theory Numeric
  imports Prelude
begin

text \<open>
  The small arithmetic helpers: the comparison functions of \<^verbatim>\<open>src/util/minmax.h\<close> and the linear
  congruential generator of \<^verbatim>\<open>src/driver/random/random.c\<close>. The generator's state is the static
  variable \<^verbatim>\<open>v\<close>; drawing a number returns it together with the new state.
\<close>

section \<open>Comparison helpers\<close>

definition intmin :: "int \<Rightarrow> int \<Rightarrow> int" where
  "intmin x y = (if x < y then x else y)"

definition intmax :: "int \<Rightarrow> int \<Rightarrow> int" where
  "intmax x y = (if x > y then x else y)"

definition intmin3 :: "int \<Rightarrow> int \<Rightarrow> int \<Rightarrow> int" where
  "intmin3 x y z = (if x < y then (if x < z then x else z) else if y < z then y else z)"

definition intmax3 :: "int \<Rightarrow> int \<Rightarrow> int \<Rightarrow> int" where
  "intmax3 x y z = (if x > y then (if x > z then x else z) else if y > z then y else z)"

definition intminmax :: "int \<Rightarrow> int \<Rightarrow> int \<Rightarrow> int" where
  "intminmax x lo hi = (if x < lo then lo else if x > hi then hi else x)"

lemma intmin_min [simp]: "intmin x y = min x y"
  by (simp add: intmin_def min_def)

lemma intmax_max [simp]: "intmax x y = max x y"
  by (simp add: intmax_def max_def)

lemma intmin3_min [simp]: "intmin3 x y z = min x (min y z)"
  by (simp add: intmin3_def min_def)

lemma intmax3_max [simp]: "intmax3 x y z = max x (max y z)"
  by (simp add: intmax3_def max_def)

lemma intminmax_clamp: "lo \<le> hi \<Longrightarrow> intminmax x lo hi = max lo (min x hi)"
  by (auto simp: intminmax_def)

lemma intminmax_bounds: "lo \<le> hi \<Longrightarrow> lo \<le> intminmax x lo hi \<and> intminmax x lo hi \<le> hi"
  by (simp add: intminmax_clamp)

section \<open>The random number generator\<close>

definition random_a :: u32 where "random_a = 1103515245"
definition random_c :: u32 where "random_c = 12345"
definition random_m :: u32 where "random_m = 2147483648"

definition random_init :: u32 where "random_init = 1"

definition random_Seed :: "u32 \<Rightarrow> u32 \<Rightarrow> u32" where
  "random_Seed seed v = seed"

definition random_Rand :: "u32 \<Rightarrow> u32 \<times> u32" where
  "random_Rand v = (let r = (ucast ((ucast v * ucast random_a + ucast random_c :: u64) mod ucast random_m) :: u32)
     in (r, r))"

text \<open>
  The product and the sum fit in 64 bits, so that the generator computes the recurrence over the
  natural numbers, and every number drawn is below \<open>2^31\<close>.
\<close>

lemma random_Rand_unat:
  "unat (fst (random_Rand v)) = (unat v * 1103515245 + 12345) mod 2147483648"
proof -
  let ?p = "ucast v * ucast random_a + ucast random_c :: u64"
  have le: "unat v \<le> 4294967295" using unat_lt_u32 [of v] by linarith
  have "unat v * 1103515245 \<le> 4294967295 * 1103515245" using le by (rule mult_le_mono1)
  then have "unat ?p = unat v * 1103515245 + 12345"
    by (simp add: unat_word_ariths random_a_def random_c_def)
  then have "unat (?p mod ucast random_m) = (unat v * 1103515245 + 12345) mod 2147483648"
    by (simp add: unat_mod random_m_def)
  moreover have "(unat v * 1103515245 + 12345) mod 2147483648 < 2147483648" by simp
  ultimately show ?thesis
    by (simp add: random_Rand_def Let_def unsigned_ucast_eq take_bit_nat_eq_self)
qed

text \<open>
  The multiplier is odd and the modulus a power of two: one step is a bijection on the numbers
  below \<open>2^31\<close>, so that the generator never falls into a shorter cycle by merging two states.
\<close>

lemma lcg_inverse: "(x * 1103515245 + 12345 + 2147471303) * 1857678181 mod 2147483648 = x mod (2147483648 :: nat)"
proof -
  have "(x * 1103515245 + 12345 + 2147471303) * 1857678181 = x + 2147483648 * (x * 954594553 + 1857678181)"
    by simp
  then show ?thesis by (simp only: mod_mult_self2)
qed

lemma random_Rand_inj:
  assumes "fst (random_Rand v) = fst (random_Rand w)" and "unat v < 2147483648" and "unat w < 2147483648"
  shows "v = w"
proof -
  let ?f = "\<lambda>x :: nat. x * 1103515245 + 12345"
  have eq: "?f (unat v) mod 2147483648 = ?f (unat w) mod 2147483648"
    using assms(1) random_Rand_unat [of v] random_Rand_unat [of w] by simp
  have "unat v mod 2147483648 = (?f (unat v) + 2147471303) * 1857678181 mod 2147483648"
    by (rule lcg_inverse [symmetric])
  also have "\<dots> = (?f (unat w) + 2147471303) * 1857678181 mod 2147483648"
    by (rule mod_mult_cong [OF mod_add_cong [OF eq refl] refl])
  also have "\<dots> = unat w mod 2147483648" by (rule lcg_inverse)
  finally show ?thesis using assms(2,3) by (simp add: word_unat_eq_iff)
qed

end
