(* ===== verification/Treap.thy ===== *)
theory Treap
  imports Numeric "HOL-Library.Tree" "HOL-Library.Multiset"
begin

text \<open>
  The associative container of \<^verbatim>\<open>src/util/tree.c\<close> and \<^verbatim>\<open>src/util/tree_internal.h\<close>, at the level of
  its pointers: the nodes live in a heap that maps an address to the node allocated there, and
  every access to an address with no node is a fault. The result \<open>None\<close> of an operation means
  that it faults or does not return. The address \<^verbatim>\<open>kMalloc\<close> returns, with the uninitialised data
  found there, are arguments of the operations that allocate.
\<close>

section \<open>The code\<close>

record 'd tree_Node =
  n_key :: u64
  n_left :: addr
  n_right :: addr
  n_father :: addr
  n_internal :: u64
  n_data :: 'd

record tree_Tree =
  t_objectSize :: u64
  t_root :: addr
  t_size :: u64

type_synonym 'd tree_heap = "addr \<rightharpoonup> 'd tree_Node"
type_synonym 'd tree_state = "'d tree_heap \<times> tree_Tree \<times> u32"

datatype tree_ConnectType = tree_Left | tree_Right

fun tree_ConnectType_Invert :: "tree_ConnectType \<Rightarrow> tree_ConnectType" where
  "tree_ConnectType_Invert tree_Left = tree_Right"
| "tree_ConnectType_Invert tree_Right = tree_Left"

definition tree_Tell :: "'d tree_heap \<Rightarrow> addr \<Rightarrow> tree_ConnectType option" where
  "tree_Tell h son = do {
     s \<leftarrow> h son;
     if n_father s = NULL then Some tree_Left
     else do {
       f \<leftarrow> h (n_father s);
       Some (if n_left f = son then tree_Left else tree_Right)
     }
   }"

definition tree_Get :: "'d tree_heap \<Rightarrow> addr \<Rightarrow> tree_ConnectType \<Rightarrow> addr option" where
  "tree_Get h father type = do {
     f \<leftarrow> h father;
     Some (if type = tree_Left then n_left f else n_right f)
   }"

definition tree_Connect :: "'d tree_heap \<Rightarrow> addr \<Rightarrow> addr \<Rightarrow> tree_ConnectType \<Rightarrow> 'd tree_heap option" where
  "tree_Connect h father son type = do {
     h \<leftarrow> (if son \<noteq> NULL then do { s \<leftarrow> h son; Some (h(son \<mapsto> s\<lparr>n_father := father\<rparr>)) } else Some h);
     if father \<noteq> NULL
     then do {
       f \<leftarrow> h father;
       Some (h(father \<mapsto> (if type = tree_Left then f\<lparr>n_left := son\<rparr> else f\<lparr>n_right := son\<rparr>)))
     }
     else Some h
   }"

definition tree_Rotate :: "'d tree_heap \<Rightarrow> addr \<Rightarrow> addr \<Rightarrow> ('d tree_heap \<times> addr) option" where
  "tree_Rotate h node root = do {
     n \<leftarrow> h node;
     if n_father n = NULL then Some (h, root)
     else do {
       type \<leftarrow> tree_Tell h node;
       let f = n_father n;
       b \<leftarrow> tree_Get h node (tree_ConnectType_Invert type);
       fn \<leftarrow> h f;
       ftype \<leftarrow> tree_Tell h f;
       h \<leftarrow> tree_Connect h (n_father fn) node ftype;
       h \<leftarrow> tree_Connect h node f (tree_ConnectType_Invert type);
       h \<leftarrow> tree_Connect h f b type;
       n \<leftarrow> h node;
       Some (h, if n_father n = NULL then node else root)
     }
   }"

partial_function (option) tree_treap_Adjust ::
  "'d tree_heap \<Rightarrow> addr \<Rightarrow> addr \<Rightarrow> ('d tree_heap \<times> addr) option" where
  "tree_treap_Adjust h node root = do {
     n \<leftarrow> h node;
     if n_father n = NULL then Some (h, root)
     else do {
       f \<leftarrow> h (n_father n);
       if n_internal f > n_internal n
       then do { (h, root) \<leftarrow> tree_Rotate h node root; tree_treap_Adjust h node root }
       else Some (h, root)
     }
   }"

definition tree_Create :: "u64 \<Rightarrow> tree_Tree" where
  "tree_Create objectSize = \<lparr>t_objectSize = objectSize, t_root = NULL, t_size = 0\<rparr>"

definition tree_NewNode ::
  "addr \<Rightarrow> 'd \<Rightarrow> u64 \<Rightarrow> addr \<Rightarrow> u64 \<Rightarrow> 'd tree_heap \<times> tree_Tree \<Rightarrow> 'd tree_heap \<times> tree_Tree" where
  "tree_NewNode new garbage key father internal s = (let (h, t) = s in
     (h(new \<mapsto> \<lparr>n_key = key, n_left = NULL, n_right = NULL, n_father = father,
                n_internal = internal, n_data = garbage\<rparr>), t\<lparr>t_size := t_size t + 1\<rparr>))"

text \<open>
  The destruction of a subtree frees the sons before the node. Freeing an address where nothing is
  allocated, or which has been freed already, is a fault. The tree object itself lies in a
  heap of its own.
\<close>

definition kFree :: "addr \<Rightarrow> (addr \<rightharpoonup> 'a) \<Rightarrow> (addr \<rightharpoonup> 'a) option" where
  "kFree p h = (case h p of None \<Rightarrow> None | Some x \<Rightarrow> Some (h(p := None)))"

partial_function (option) tree_DestroyNodes :: "addr \<Rightarrow> 'd tree_heap \<Rightarrow> 'd tree_heap option" where
  "tree_DestroyNodes node h = do {
     n \<leftarrow> h node;
     h \<leftarrow> (if n_left n \<noteq> NULL then tree_DestroyNodes (n_left n) h else Some h);
     n \<leftarrow> h node;
     h \<leftarrow> (if n_right n \<noteq> NULL then tree_DestroyNodes (n_right n) h else Some h);
     kFree node h
   }"

definition tree_Destroy ::
  "addr \<Rightarrow> 'd tree_heap \<times> (addr \<rightharpoonup> tree_Tree) \<Rightarrow> ('d tree_heap \<times> (addr \<rightharpoonup> tree_Tree)) option" where
  "tree_Destroy tree = (\<lambda>(h, trees). do {
     t \<leftarrow> trees tree;
     h \<leftarrow> (if t_root t \<noteq> NULL then tree_DestroyNodes (t_root t) h else Some h);
     trees \<leftarrow> kFree tree trees;
     Some (h, trees)
   })"

text \<open>
  The pointer \<^verbatim>\<open>added\<close> is \<open>None\<close> when it is null and otherwise the value of the variable it points
  to. The result is the pointer returned, the pointer stored through \<^verbatim>\<open>result\<close>, the new value of
  \<^verbatim>\<open>*added\<close> and the new state.
\<close>

partial_function (option) tree_InsertNodes ::
  "addr \<Rightarrow> 'd \<Rightarrow> u64 \<Rightarrow> addr \<Rightarrow> addr \<Rightarrow> bool option \<Rightarrow> 'd tree_state \<Rightarrow>
     (addr \<times> addr \<times> bool option \<times> 'd tree_state) option" where
  "tree_InsertNodes new garbage key node father added s = (let (h, t, v) = s in
     if node = NULL then
       (let (r, v) = random_Rand v;
            (h, t) = tree_NewNode new garbage key father (ucast r XOR key) (h, t) in
        Some (new, new, map_option (\<lambda>_. True) added, h, t, v))
     else do {
       n \<leftarrow> h node;
       if key < n_key n then do {
         (p, result, added, h, t, v) \<leftarrow> tree_InsertNodes new garbage key (n_left n) node added s;
         n \<leftarrow> h node;
         Some (node, result, added, h(node \<mapsto> n\<lparr>n_left := p\<rparr>), t, v)
       }
       else if key > n_key n then do {
         (p, result, added, h, t, v) \<leftarrow> tree_InsertNodes new garbage key (n_right n) node added s;
         n \<leftarrow> h node;
         Some (node, result, added, h(node \<mapsto> n\<lparr>n_right := p\<rparr>), t, v)
       }
       else Some (node, node, map_option (\<lambda>_. False) added, s)
     })"

text \<open>
  \<^verbatim>\<open>tree_InsertNode\<close> reads \<^verbatim>\<open>*added\<close> unconditionally: with a null pointer that is the byte at
  address 0, here \<open>at_null\<close>.
\<close>

definition tree_InsertNode ::
  "bool \<Rightarrow> addr \<Rightarrow> 'd \<Rightarrow> u64 \<Rightarrow> bool option \<Rightarrow> 'd tree_state \<Rightarrow>
     (addr \<times> bool option \<times> 'd tree_state) option" where
  "tree_InsertNode at_null new garbage key added s = do {
     (root, result, added, h, t, v) \<leftarrow>
       tree_InsertNodes new garbage key (t_root (fst (snd s))) NULL added s;
     if (case added of None \<Rightarrow> at_null | Some b \<Rightarrow> b)
     then do {
       (h, root) \<leftarrow> tree_treap_Adjust h result root;
       Some (result, added, h, t\<lparr>t_root := root\<rparr>, v)
     }
     else Some (result, added, h, t\<lparr>t_root := root\<rparr>, v)
   }"

text \<open>The data of a node starts 40 bytes into it.\<close>

definition tree_data :: "addr \<Rightarrow> addr" where
  "tree_data node = node + 40"

definition tree_Insert ::
  "bool \<Rightarrow> addr \<Rightarrow> 'd \<Rightarrow> u64 \<Rightarrow> bool option \<Rightarrow> 'd tree_state \<Rightarrow>
     (addr \<times> bool option \<times> 'd tree_state) option" where
  "tree_Insert at_null new garbage key added s = do {
     (node, added, s) \<leftarrow> tree_InsertNode at_null new garbage key added s;
     Some (tree_data node, added, s)
   }"

partial_function (option) tree_FindNode_rec :: "'d tree_heap \<Rightarrow> addr \<Rightarrow> u64 \<Rightarrow> addr option" where
  "tree_FindNode_rec h node key =
     (if node = NULL then Some NULL
      else do {
        n \<leftarrow> h node;
        if key < n_key n then tree_FindNode_rec h (n_left n) key
        else if key > n_key n then tree_FindNode_rec h (n_right n) key
        else Some node
      })"

definition tree_FindNode :: "'d tree_heap \<Rightarrow> tree_Tree \<Rightarrow> u64 \<Rightarrow> addr option" where
  "tree_FindNode h t key = tree_FindNode_rec h (t_root t) key"

definition tree_Find :: "'d tree_heap \<Rightarrow> tree_Tree \<Rightarrow> u64 \<Rightarrow> addr option" where
  "tree_Find h t key = do {
     node \<leftarrow> tree_FindNode h t key;
     Some (if node = NULL then NULL else tree_data node)
   }"

text \<open>The loop of \<^verbatim>\<open>tree_Delete\<close> rotates the smaller son up until the node has at most one.\<close>

partial_function (option) tree_Delete_loop ::
  "'d tree_heap \<Rightarrow> addr \<Rightarrow> addr \<Rightarrow> ('d tree_heap \<times> addr) option" where
  "tree_Delete_loop h node root = do {
     n \<leftarrow> h node;
     if n_left n \<noteq> NULL \<and> n_right n \<noteq> NULL
     then do {
       l \<leftarrow> h (n_left n);
       r \<leftarrow> h (n_right n);
       (h, root) \<leftarrow> (if n_internal l < n_internal r then tree_Rotate h (n_left n) root
                     else tree_Rotate h (n_right n) root);
       tree_Delete_loop h node root
     }
     else Some (h, root)
   }"

definition tree_Delete :: "addr \<Rightarrow> 'd tree_heap \<times> tree_Tree \<Rightarrow> ('d tree_heap \<times> tree_Tree) option" where
  "tree_Delete node s = do {
     (h, root) \<leftarrow> tree_Delete_loop (fst s) node (t_root (snd s));
     n \<leftarrow> h node;
     let son = (if n_left n \<noteq> NULL then n_left n else n_right n);
     let root = (if node = root then son else root);
     type \<leftarrow> tree_Tell h node;
     h \<leftarrow> tree_Connect h (n_father n) son type;
     Some (h(node := None), (snd s)\<lparr>t_root := root\<rparr>)
   }"

partial_function (option) tree_leftmost :: "'d tree_heap \<Rightarrow> addr \<Rightarrow> addr option" where
  "tree_leftmost h result = do {
     n \<leftarrow> h result;
     if n_left n \<noteq> NULL then tree_leftmost h (n_left n) else Some result
   }"

partial_function (option) tree_rightmost :: "'d tree_heap \<Rightarrow> addr \<Rightarrow> addr option" where
  "tree_rightmost h result = do {
     n \<leftarrow> h result;
     if n_right n \<noteq> NULL then tree_rightmost h (n_right n) else Some result
   }"

definition tree_FirstNode :: "'d tree_heap \<Rightarrow> tree_Tree \<Rightarrow> addr option" where
  "tree_FirstNode h t = (if t_root t = NULL then Some NULL else tree_leftmost h (t_root t))"

definition tree_LastNode :: "'d tree_heap \<Rightarrow> tree_Tree \<Rightarrow> addr option" where
  "tree_LastNode h t = (if t_root t = NULL then Some NULL else tree_rightmost h (t_root t))"

text \<open>The loop that climbs while the node is a son of the given side.\<close>

partial_function (option) tree_climb ::
  "'d tree_heap \<Rightarrow> tree_ConnectType \<Rightarrow> addr \<Rightarrow> addr option" where
  "tree_climb h side result = do {
     n \<leftarrow> h result;
     if n_father n = NULL then Some NULL
     else do {
       type \<leftarrow> tree_Tell h result;
       if type = side then tree_climb h side (n_father n) else Some (n_father n)
     }
   }"

definition tree_Node_Next :: "'d tree_heap \<Rightarrow> addr \<Rightarrow> addr option" where
  "tree_Node_Next h node = do {
     n \<leftarrow> h node;
     if n_right n \<noteq> NULL then tree_leftmost h (n_right n) else tree_climb h tree_Right node
   }"

definition tree_Node_Previous :: "'d tree_heap \<Rightarrow> addr \<Rightarrow> addr option" where
  "tree_Node_Previous h node = do {
     n \<leftarrow> h node;
     if n_left n \<noteq> NULL then tree_rightmost h (n_left n) else tree_climb h tree_Left node
   }"

section \<open>Trees in the heap\<close>

text \<open>
  The abstract view: a binary tree of entries, each with the address, key, priority and data of
  one node. \<open>repr h fa t\<close> says that the heap holds \<open>t\<close> with the father pointer \<open>fa\<close> at its root.
\<close>

datatype 'd entry = Entry (e_addr: addr) (e_key: u64) (e_pri: u64) (e_data: 'd)

fun root_addr :: "'d entry tree \<Rightarrow> addr" where
  "root_addr Leaf = NULL"
| "root_addr (Node l e r) = e_addr e"

definition node_of :: "addr \<Rightarrow> addr \<Rightarrow> addr \<Rightarrow> 'd entry \<Rightarrow> 'd tree_Node" where
  "node_of fa a b e = \<lparr>n_key = e_key e, n_left = a, n_right = b, n_father = fa,
     n_internal = e_pri e, n_data = e_data e\<rparr>"

lemma node_of_simps [simp]:
  "n_key (node_of fa a b e) = e_key e" "n_left (node_of fa a b e) = a" "n_right (node_of fa a b e) = b"
  "n_father (node_of fa a b e) = fa" "n_internal (node_of fa a b e) = e_pri e"
  "n_data (node_of fa a b e) = e_data e"
  "(node_of fa a b e)\<lparr>n_left := a'\<rparr> = node_of fa a' b e"
  "(node_of fa a b e)\<lparr>n_right := b'\<rparr> = node_of fa a b' e"
  "(node_of fa a b e)\<lparr>n_father := fa'\<rparr> = node_of fa' a b e"
  by (simp_all add: node_of_def)

fun repr :: "'d tree_heap \<Rightarrow> addr \<Rightarrow> 'd entry tree \<Rightarrow> bool" where
  "repr h fa Leaf = True"
| "repr h fa (Node l e r) = (e_addr e \<noteq> NULL \<and>
     h (e_addr e) = Some (node_of fa (root_addr l) (root_addr r) e) \<and>
     repr h (e_addr e) l \<and> repr h (e_addr e) r)"

definition addrs :: "'d entry tree \<Rightarrow> addr list" where
  "addrs t = map e_addr (inorder t)"

lemma addrs_simps [simp]:
  "addrs Leaf = []" "addrs (Node l e r) = addrs l @ e_addr e # addrs r"
  by (simp_all add: addrs_def)

lemma root_in_addrs: "t \<noteq> Leaf \<Longrightarrow> root_addr t \<in> set (addrs t)"
  by (cases t) auto

lemma repr_not_null: "repr h fa t \<Longrightarrow> NULL \<notin> set (addrs t)"
  by (induction t arbitrary: fa) auto

lemma repr_allocated: "repr h fa t \<Longrightarrow> p \<in> set (addrs t) \<Longrightarrow> h p \<noteq> None"
  by (induction t arbitrary: fa) auto

lemma repr_root_null [simp]: "repr h fa t \<Longrightarrow> root_addr t = NULL \<longleftrightarrow> t = Leaf"
  by (cases t) auto

lemma repr_cong: "repr h fa t \<Longrightarrow> (\<And>p. p \<in> set (addrs t) \<Longrightarrow> h' p = h p) \<Longrightarrow> repr h' fa t"
  by (induction t arbitrary: fa) auto

lemma repr_upd [simp]: "repr h fa t \<Longrightarrow> p \<notin> set (addrs t) \<Longrightarrow> repr (h(p := x)) fa t"
  by (erule repr_cong) auto

text \<open>The father pointer of a root is changed on its own.\<close>

definition set_father :: "addr \<Rightarrow> addr \<Rightarrow> 'd tree_heap \<Rightarrow> 'd tree_heap" where
  "set_father p fa h = (case h p of None \<Rightarrow> h | Some n \<Rightarrow> h(p \<mapsto> n\<lparr>n_father := fa\<rparr>))"

lemma repr_set_father:
  assumes "repr h fa t" and "distinct (addrs t)" and "t \<noteq> Leaf"
  shows "repr (set_father (root_addr t) fa' h) fa' t"
  using assms by (cases t) (auto simp: set_father_def)

lemma set_father_other [simp]: "q \<noteq> p \<Longrightarrow> set_father p fa h q = h q"
  by (simp add: set_father_def split: option.splits)

text \<open>A position in a tree: the path from a subtree up to the root.\<close>

datatype 'd frame = FL "'d entry" "'d entry tree" | FR "'d entry tree" "'d entry"

fun f_entry :: "'d frame \<Rightarrow> 'd entry" where
  "f_entry (FL e r) = e"
| "f_entry (FR l e) = e"

fun f_addrs :: "'d frame \<Rightarrow> addr list" where
  "f_addrs (FL e r) = e_addr e # addrs r"
| "f_addrs (FR l e) = e_addr e # addrs l"

fun fill :: "'d frame \<Rightarrow> 'd entry tree \<Rightarrow> 'd entry tree" where
  "fill (FL e r) t = Node t e r"
| "fill (FR l e) t = Node l e t"

fun plug :: "'d frame list \<Rightarrow> 'd entry tree \<Rightarrow> 'd entry tree" where
  "plug [] t = t"
| "plug (f # c) t = plug c (fill f t)"

fun ctx_father :: "'d frame list \<Rightarrow> addr" where
  "ctx_father [] = NULL"
| "ctx_father (f # c) = e_addr (f_entry f)"

definition ctx_addrs :: "'d frame list \<Rightarrow> addr list" where
  "ctx_addrs c = concat (map f_addrs c)"

lemma ctx_addrs_simps [simp]: "ctx_addrs [] = []" "ctx_addrs (f # c) = f_addrs f @ ctx_addrs c"
  by (simp_all add: ctx_addrs_def)

fun repr_ctx :: "'d tree_heap \<Rightarrow> 'd frame list \<Rightarrow> addr \<Rightarrow> bool" where
  "repr_ctx h [] a = True"
| "repr_ctx h (FL e r # c) a = (e_addr e \<noteq> NULL \<and>
     h (e_addr e) = Some (node_of (ctx_father c) a (root_addr r) e) \<and> repr h (e_addr e) r \<and>
     repr_ctx h c (e_addr e))"
| "repr_ctx h (FR l e # c) a = (e_addr e \<noteq> NULL \<and>
     h (e_addr e) = Some (node_of (ctx_father c) (root_addr l) a e) \<and> repr h (e_addr e) l \<and>
     repr_ctx h c (e_addr e))"

lemma root_addr_fill [simp]: "root_addr (fill f t) = e_addr (f_entry f)"
  by (cases f) auto

lemma repr_plug:
  "repr h NULL (plug c t) \<longleftrightarrow> repr h (ctx_father c) t \<and> repr_ctx h c (root_addr t)"
proof (induction c arbitrary: t)
  case (Cons f c)
  then show ?case by (cases f) auto
qed simp

lemma mset_addrs_plug: "mset (addrs (plug c t)) = mset (addrs t) + mset (ctx_addrs c)"
proof (induction c arbitrary: t)
  case (Cons f c)
  then show ?case by (cases f) auto
qed simp

lemma set_addrs_plug [simp]: "set (addrs (plug c t)) = set (addrs t) \<union> set (ctx_addrs c)"
  using arg_cong [OF mset_addrs_plug, of set_mset c t] by simp

lemma distinct_addrs_plug:
  "distinct (addrs (plug c t)) \<longleftrightarrow> distinct (addrs t @ ctx_addrs c)"
  using mset_addrs_plug [of c t] by (metis mset_append mset_eq_imp_distinct_iff)

lemma repr_ctx_cong:
  "repr_ctx h c a \<Longrightarrow> (\<And>p. p \<in> set (ctx_addrs c) \<Longrightarrow> h' p = h p) \<Longrightarrow> repr_ctx h' c a"
proof (induction c arbitrary: a)
  case (Cons f c)
  then show ?case by (cases f) (auto intro: repr_cong)
qed simp

lemma ctx_father_in: "c \<noteq> [] \<Longrightarrow> ctx_father c \<in> set (ctx_addrs c)"
  by (cases c; cases "hd c") auto

lemma repr_ctx_father_null: "repr_ctx h c a \<Longrightarrow> ctx_father c = NULL \<longleftrightarrow> c = []"
  by (cases c; cases "hd c") auto

text \<open>The entries before and after the hole, in order.\<close>

fun ctx_pre :: "'d frame list \<Rightarrow> 'd entry list" where
  "ctx_pre [] = []"
| "ctx_pre (FL e r # c) = ctx_pre c"
| "ctx_pre (FR l e # c) = ctx_pre c @ inorder l @ [e]"

fun ctx_post :: "'d frame list \<Rightarrow> 'd entry list" where
  "ctx_post [] = []"
| "ctx_post (FL e r # c) = e # inorder r @ ctx_post c"
| "ctx_post (FR l e # c) = ctx_post c"

lemma inorder_plug: "inorder (plug c t) = ctx_pre c @ inorder t @ ctx_post c"
proof (induction c arbitrary: t)
  case (Cons f c)
  then show ?case by (cases f) auto
qed simp

text \<open>Every entry of a tree has a position.\<close>

lemma inorder_split:
  assumes "inorder t = xs @ e # ys" and "distinct (addrs t)"
  shows "\<exists>c l r. t = plug c (Node l e r) \<and> ctx_pre c @ inorder l = xs \<and> inorder r @ ctx_post c = ys"
proof -
  have ex: "\<exists>c' l r. plug c t = plug c' (Node l e r)" if "e \<in> set (inorder t)" for c t
    using that
  proof (induction t arbitrary: c)
    case (Node l x r)
    then consider "e = x" | "e \<in> set (inorder l)" | "e \<in> set (inorder r)" by auto
    then show ?case
    proof cases
      case 1
      then show ?thesis by blast
    next
      case 2
      show ?thesis using Node.IH(1) [OF 2, of "FL x r # c"] by simp
    next
      case 3
      show ?thesis using Node.IH(2) [OF 3, of "FR l x # c"] by simp
    qed
  qed simp
  obtain c l r where t: "t = plug c (Node l e r)" using ex [of t "[]"] assms(1) by auto
  have eq: "(ctx_pre c @ inorder l) @ e # inorder r @ ctx_post c = xs @ e # ys"
    using assms(1) t by (simp add: inorder_plug)
  have "distinct (inorder t)" using assms(2) by (simp add: addrs_def distinct_map)
  then have "e \<notin> set xs" "e \<notin> set ys" using assms(1) by auto
  with eq have "ctx_pre c @ inorder l = xs \<and> inorder r @ ctx_post c = ys"
    by (metis append_Cons_eq_iff)
  with t show ?thesis by blast
qed

section \<open>Rotations\<close>

fun ctx_side :: "'d frame list \<Rightarrow> tree_ConnectType" where
  "ctx_side (FR l e # c) = tree_Right"
| "ctx_side c = tree_Left"

lemma tree_Tell_hole:
  assumes "repr_ctx h c a" and "h a = Some n" and "n_father n = ctx_father c"
    and "a \<noteq> NULL" and "a \<notin> set (ctx_addrs c)"
  shows "tree_Tell h a = Some (ctx_side c)"
proof (cases c)
  case Nil
  with assms show ?thesis by (simp add: tree_Tell_def)
next
  case (Cons f c')
  show ?thesis
  proof (cases f)
    case (FR l e)
    then have "root_addr l \<noteq> a" using assms Cons root_in_addrs [of l] by (cases l) auto
    with assms Cons FR show ?thesis by (auto simp: tree_Tell_def)
  qed (use assms Cons in \<open>auto simp: tree_Tell_def\<close>)
qed

text \<open>Connecting a detached son to the father of a hole.\<close>

lemma tree_Connect_hole:
  assumes ctx: "repr_ctx h c a" and dis: "distinct (ctx_addrs c)" and out: "son \<notin> set (ctx_addrs c)"
    and son: "son \<noteq> NULL \<Longrightarrow> h son = Some n"
  shows "\<exists>h'. tree_Connect h (ctx_father c) son (ctx_side c) = Some h' \<and> repr_ctx h' c son \<and>
     (son \<noteq> NULL \<longrightarrow> h' son = Some (n\<lparr>n_father := ctx_father c\<rparr>)) \<and>
     (\<forall>p. (p \<noteq> son \<or> son = NULL) \<and> (p \<noteq> ctx_father c \<or> c = []) \<longrightarrow> h' p = h p)"
proof (cases c)
  case Nil
  with assms show ?thesis by (auto simp: tree_Connect_def)
next
  case (Cons f c')
  let ?g = "if son = NULL then h else h(son \<mapsto> n\<lparr>n_father := ctx_father c\<rparr>)"
  have g: "repr_ctx ?g c a" using out by (auto intro!: repr_ctx_cong [OF ctx])
  have tail: "repr_ctx (?g(e_addr (f_entry f) \<mapsto> x)) c' (e_addr (f_entry f))" for x
    using g Cons dis by (cases f) (auto intro: repr_ctx_cong)
  have ne: "e_addr (f_entry f) \<noteq> NULL" using ctx Cons by (cases f) auto
  have son': "e_addr (f_entry f) \<noteq> son" using out Cons by (cases f) auto
  have con: "tree_Connect h (ctx_father c) son (ctx_side c) = do {
      k \<leftarrow> ?g (e_addr (f_entry f));
      Some (?g(e_addr (f_entry f) \<mapsto>
        (if ctx_side c = tree_Left then k\<lparr>n_left := son\<rparr> else k\<lparr>n_right := son\<rparr>))) }"
    using son ne Cons by (auto simp: tree_Connect_def)
  show ?thesis
  proof (cases f)
    case (FL e r)
    let ?h = "?g(e_addr e \<mapsto> node_of (ctx_father c') son (root_addr r) e)"
    have "repr ?h (e_addr e) r" using g Cons FL dis by auto
    with con tail [of "node_of (ctx_father c') son (root_addr r) e"] g Cons FL son' ne show ?thesis by (intro exI [of _ ?h]) auto
  next
    case (FR l e)
    let ?h = "?g(e_addr e \<mapsto> node_of (ctx_father c') (root_addr l) son e)"
    have "repr ?h (e_addr e) l" using g Cons FR dis by auto
    with con tail [of "node_of (ctx_father c') (root_addr l) son e"] g Cons FR son' ne show ?thesis by (intro exI [of _ ?h]) auto
  qed
qed

text \<open>Connecting a subtree below a node.\<close>

lemma tree_Connect_subtree:
  assumes "repr h fa t" and "distinct (addrs t)" and "p \<notin> set (addrs t)" and "p \<noteq> NULL"
    and "h p = Some n"
  shows "\<exists>h'. tree_Connect h p (root_addr t) side = Some h' \<and> repr h' p t \<and>
     h' p = Some (if side = tree_Left then n\<lparr>n_left := root_addr t\<rparr> else n\<lparr>n_right := root_addr t\<rparr>) \<and>
     (\<forall>q. q \<noteq> p \<and> q \<notin> set (addrs t) \<longrightarrow> h' q = h q)"
proof (cases "t = Leaf")
  case True
  with assms show ?thesis by (auto simp: tree_Connect_def)
next
  case False
  let ?g = "set_father (root_addr t) p h"
  have root: "root_addr t \<in> set (addrs t)" "root_addr t \<noteq> NULL"
    using root_in_addrs [OF False] assms(1) False by auto
  obtain m where m: "h (root_addr t) = Some m" using assms(1) False by (cases t) auto
  have "repr ?g p t" by (rule repr_set_father [OF assms(1,2) False])
  then have "repr (?g(p \<mapsto> x)) p t" for x using assms(3) by simp
  moreover have "?g = h(root_addr t \<mapsto> m\<lparr>n_father := p\<rparr>)" using m by (simp add: set_father_def)
  ultimately show ?thesis using assms m root by (auto simp: tree_Connect_def)
qed

text \<open>The rotation of the hole's tree over the innermost frame.\<close>

fun rot :: "'d frame \<Rightarrow> 'd entry tree \<Rightarrow> 'd entry tree" where
  "rot (FL y r) (Node a x b) = Node a x (Node b y r)"
| "rot (FR l y) (Node a x b) = Node (Node l y a) x b"
| "rot f Leaf = fill f Leaf"

lemma inorder_rot [simp]: "inorder (rot f t) = inorder (fill f t)"
  by (cases "(f, t)" rule: rot.cases) auto

lemma addrs_rot [simp]: "addrs (rot f t) = addrs (fill f t)"
  by (simp add: addrs_def)

lemma root_addr_rot [simp]: "t \<noteq> Leaf \<Longrightarrow> root_addr (rot f t) = root_addr t"
  by (cases "(f, t)" rule: rot.cases) auto

text \<open>
  One rotation at the level of the heap: the son \<open>px\<close> on side \<open>s\<close> of \<open>py\<close> takes its place, \<open>py\<close>
  becomes its son on the other side and adopts the inner subtree \<open>t\<close>.
\<close>

definition get_son :: "tree_ConnectType \<Rightarrow> 'd tree_Node \<Rightarrow> addr" where
  "get_son s n = (if s = tree_Left then n_left n else n_right n)"

definition set_son :: "tree_ConnectType \<Rightarrow> addr \<Rightarrow> 'd tree_Node \<Rightarrow> 'd tree_Node" where
  "set_son s a n = (if s = tree_Left then n\<lparr>n_left := a\<rparr> else n\<lparr>n_right := a\<rparr>)"

lemma n_father_set_son [simp]: "n_father (set_son s a n) = n_father n"
  by (simp add: set_son_def)

lemma tree_Rotate_heap:
  assumes hx: "h px = Some nx" "n_father nx = py" and hy: "h py = Some ny" "n_father ny = ctx_father c"
    and c: "repr_ctx h c py" and tell: "tree_Tell h px = Some s"
    and inner: "get_son (tree_ConnectType_Invert s) nx = root_addr t" and t: "repr h px t"
    and null: "px \<noteq> NULL" "py \<noteq> NULL" and dis: "distinct (px # py # addrs t @ ctx_addrs c)"
  shows "\<exists>h'. tree_Rotate h px root = Some (h', if c = [] then px else root) \<and>
     h' px = Some (set_son (tree_ConnectType_Invert s) py (nx\<lparr>n_father := ctx_father c\<rparr>)) \<and>
     h' py = Some (set_son s (root_addr t) (ny\<lparr>n_father := px\<rparr>)) \<and>
     repr h' py t \<and> repr_ctx h' c px \<and>
     (\<forall>q. q \<notin> {px, py} \<union> set (addrs t) \<union> set (ctx_addrs c) \<longrightarrow> h' q = h q)"
proof -
  let ?nx = "nx\<lparr>n_father := ctx_father c\<rparr>" and ?s' = "tree_ConnectType_Invert s"
  have cf: "ctx_father c \<in> set (ctx_addrs c) \<or> c = []" using ctx_father_in by blast
  have telly: "tree_Tell h py = Some (ctx_side c)" by (rule tree_Tell_hole [OF c hy]) (use null dis in auto)
  have "px \<notin> set (ctx_addrs c)" "distinct (ctx_addrs c)" using dis by auto
  then obtain h1 where h1: "tree_Connect h (ctx_father c) px (ctx_side c) = Some h1" "repr_ctx h1 c px"
      "h1 px = Some ?nx" and out1: "\<And>p. p \<noteq> px \<Longrightarrow> p \<noteq> ctx_father c \<or> c = [] \<Longrightarrow> h1 p = h p"
    using tree_Connect_hole [OF c, of px nx] hx(1) null(1) by auto
  have keep1: "h1 q = h q" if "q \<noteq> px" "q \<notin> set (ctx_addrs c)" for q
    using out1 [OF that(1)] that(2) cf by metis
  have y1: "h1 py = Some ny" using keep1 [of py] hy(1) dis by auto
  let ?h2 = "h1(py \<mapsto> ny\<lparr>n_father := px\<rparr>, px \<mapsto> set_son ?s' py ?nx)"
  have con2: "tree_Connect h1 px py ?s' = Some ?h2"
    using h1(3) y1 null dis by (simp add: tree_Connect_def set_son_def)
  have t2: "repr ?h2 px t"
  proof (rule repr_cong [OF t])
    fix q assume "q \<in> set (addrs t)"
    then have "q \<noteq> px" "q \<noteq> py" "q \<notin> set (ctx_addrs c)" using dis by auto
    then show "?h2 q = h q" by (simp add: keep1)
  qed
  have "distinct (addrs t)" "py \<notin> set (addrs t)" "?h2 py = Some (ny\<lparr>n_father := px\<rparr>)" using dis by auto
  then obtain h3 where h3: "tree_Connect ?h2 py (root_addr t) s = Some h3" "repr h3 py t"
      "h3 py = Some (set_son s (root_addr t) (ny\<lparr>n_father := px\<rparr>))"
      and out3: "\<And>q. q \<noteq> py \<Longrightarrow> q \<notin> set (addrs t) \<Longrightarrow> h3 q = ?h2 q"
    using tree_Connect_subtree [OF t2 _ _ null(2), of "ny\<lparr>n_father := px\<rparr>" s] unfolding set_son_def by blast
  have x3: "h3 px = Some (set_son ?s' py ?nx)" using out3 [of px] dis by simp
  have "tree_Rotate h px root = Some (h3, if c = [] then px else root)"
    using hx hy tell telly h1(1) con2 h3(1) x3 null inner repr_ctx_father_null [OF c]
    by (simp add: tree_Rotate_def tree_Get_def get_son_def)
  moreover have "repr_ctx h3 c px"
  proof (rule repr_ctx_cong [OF h1(2)])
    fix q assume "q \<in> set (ctx_addrs c)"
    then have "q \<noteq> px" "q \<noteq> py" "q \<notin> set (addrs t)" using dis by auto
    then show "h3 q = h1 q" using out3 [of q] by simp
  qed
  moreover have "h3 q = h q" if "q \<notin> {px, py} \<union> set (addrs t) \<union> set (ctx_addrs c)" for q
    using out3 [of q] keep1 [of q] that by simp
  ultimately show ?thesis using h3(2,3) x3 by blast
qed

lemma tree_Rotate_left:
  assumes t: "repr h (e_addr y) (Node a x b)" and ctx: "repr_ctx h (FL y r # c) (e_addr x)"
    and dis: "distinct (addrs (Node a x b) @ ctx_addrs (FL y r # c))"
  shows "\<exists>h'. tree_Rotate h (e_addr x) root = Some (h', if c = [] then e_addr x else root) \<and>
     repr h' (ctx_father c) (Node a x (Node b y r)) \<and> repr_ctx h' c (e_addr x) \<and>
     (\<forall>p. p \<notin> set (addrs (Node a x b)) \<union> set (ctx_addrs (FL y r # c)) \<longrightarrow> h' p = h p)"
proof -
  have tell: "tree_Tell h (e_addr x) = Some tree_Left" using tree_Tell_hole [OF ctx] t dis by auto
  have sep: "distinct (e_addr x # e_addr y # addrs b @ ctx_addrs c)" using dis by auto
  obtain h' where h': "tree_Rotate h (e_addr x) root = Some (h', if c = [] then e_addr x else root)"
      "h' (e_addr x) = Some (node_of (ctx_father c) (root_addr a) (e_addr y) x)"
      "h' (e_addr y) = Some (node_of (e_addr x) (root_addr b) (root_addr r) y)"
      "repr h' (e_addr y) b" "repr_ctx h' c (e_addr x)"
      and keep: "\<And>q. q \<notin> {e_addr x, e_addr y} \<union> set (addrs b) \<union> set (ctx_addrs c) \<Longrightarrow> h' q = h q"
    using tree_Rotate_heap [of h "e_addr x" "node_of (e_addr y) (root_addr a) (root_addr b) x" "e_addr y"
        "node_of (ctx_father c) (e_addr x) (root_addr r) y" c tree_Left b root] tell t ctx sep
    by (auto simp: get_son_def set_son_def)
  have "repr h' (e_addr x) a" by (rule repr_cong [of h]) (use t dis in \<open>auto intro!: keep\<close>)
  moreover have "repr h' (e_addr y) r" by (rule repr_cong [of h]) (use ctx dis in \<open>auto intro!: keep\<close>)
  ultimately show ?thesis using h' t ctx keep by simp
qed

lemma tree_Rotate_right:
  assumes t: "repr h (e_addr y) (Node a x b)" and ctx: "repr_ctx h (FR l y # c) (e_addr x)"
    and dis: "distinct (addrs (Node a x b) @ ctx_addrs (FR l y # c))"
  shows "\<exists>h'. tree_Rotate h (e_addr x) root = Some (h', if c = [] then e_addr x else root) \<and>
     repr h' (ctx_father c) (Node (Node l y a) x b) \<and> repr_ctx h' c (e_addr x) \<and>
     (\<forall>p. p \<notin> set (addrs (Node a x b)) \<union> set (ctx_addrs (FR l y # c)) \<longrightarrow> h' p = h p)"
proof -
  have tell: "tree_Tell h (e_addr x) = Some tree_Right" using tree_Tell_hole [OF ctx] t dis by auto
  have sep: "distinct (e_addr x # e_addr y # addrs a @ ctx_addrs c)" using dis by auto
  obtain h' where h': "tree_Rotate h (e_addr x) root = Some (h', if c = [] then e_addr x else root)"
      "h' (e_addr x) = Some (node_of (ctx_father c) (e_addr y) (root_addr b) x)"
      "h' (e_addr y) = Some (node_of (e_addr x) (root_addr l) (root_addr a) y)"
      "repr h' (e_addr y) a" "repr_ctx h' c (e_addr x)"
      and keep: "\<And>q. q \<notin> {e_addr x, e_addr y} \<union> set (addrs a) \<union> set (ctx_addrs c) \<Longrightarrow> h' q = h q"
    using tree_Rotate_heap [of h "e_addr x" "node_of (e_addr y) (root_addr a) (root_addr b) x" "e_addr y"
        "node_of (ctx_father c) (root_addr l) (e_addr x) y" c tree_Right a root] tell t ctx sep
    by (auto simp: get_son_def set_son_def)
  have "repr h' (e_addr x) b" by (rule repr_cong [of h]) (use t dis in \<open>auto intro!: keep\<close>)
  moreover have "repr h' (e_addr y) l" by (rule repr_cong [of h]) (use ctx dis in \<open>auto intro!: keep\<close>)
  ultimately show ?thesis using h' t ctx keep by simp
qed

lemma tree_Rotate_repr:
  assumes "repr h (ctx_father (f # c)) t" and "repr_ctx h (f # c) (root_addr t)" and "t \<noteq> Leaf"
    and "distinct (addrs t @ ctx_addrs (f # c))"
  shows "\<exists>h'. tree_Rotate h (root_addr t) root = Some (h', if c = [] then root_addr t else root) \<and>
     repr h' (ctx_father c) (rot f t) \<and> repr_ctx h' c (root_addr t) \<and>
     (\<forall>p. p \<notin> set (addrs (plug (f # c) t)) \<longrightarrow> h' p = h p)"
proof -
  obtain a x b where t: "t = Node a x b" using assms(3) by (cases t) auto
  show ?thesis
  proof (cases f)
    case (FL y r)
    with assms t tree_Rotate_left [of h y a x b r c root] show ?thesis by auto
  next
    case (FR l y)
    with assms t tree_Rotate_right [of h y a x b l c root] show ?thesis by auto
  qed
qed

text \<open>A tree held by the heap, with no node shared.\<close>

definition tree_ok :: "'d tree_heap \<Rightarrow> 'd entry tree \<Rightarrow> bool" where
  "tree_ok h t \<longleftrightarrow> repr h NULL t \<and> distinct (addrs t)"

definition same_outside :: "addr set \<Rightarrow> 'd tree_heap \<Rightarrow> 'd tree_heap \<Rightarrow> bool" where
  "same_outside A h h' \<longleftrightarrow> (\<forall>p. p \<notin> A \<longrightarrow> h' p = h p)"

lemma same_outside_trans:
  "same_outside A h h1 \<Longrightarrow> same_outside A h1 h2 \<Longrightarrow> same_outside A h h2"
  by (simp add: same_outside_def)

lemma tree_ok_plug:
  "tree_ok h (plug c t) \<longleftrightarrow> repr h (ctx_father c) t \<and> repr_ctx h c (root_addr t) \<and>
     distinct (addrs t @ ctx_addrs c)"
  unfolding tree_ok_def repr_plug distinct_addrs_plug by auto

lemma root_addr_plug_cons: "root_addr (plug (f # c) t) = root_addr (plug (f # c) t')"
proof (induction c arbitrary: f t t')
  case (Cons g c)
  show ?case using Cons.IH [of g "fill f t" "fill f t'"] by simp
qed simp

lemma root_addr_plug: "root_addr t = root_addr t' \<Longrightarrow> root_addr (plug c t) = root_addr (plug c t')"
  using root_addr_plug_cons by (cases c) auto

lemma tree_Rotate_ok:
  assumes ok: "tree_ok h (plug (f # c) t)" and ne: "t \<noteq> Leaf"
  shows "\<exists>h'. tree_Rotate h (root_addr t) (root_addr (plug (f # c) t)) =
       Some (h', root_addr (plug c (rot f t))) \<and> tree_ok h' (plug c (rot f t)) \<and>
     same_outside (set (addrs (plug (f # c) t))) h h'"
proof -
  have r: "repr h (ctx_father (f # c)) t" "repr_ctx h (f # c) (root_addr t)"
    and dis: "distinct (addrs t @ ctx_addrs (f # c))"
    using ok unfolding tree_ok_plug by auto
  have root: "(if c = [] then root_addr t else root_addr (plug (f # c) t)) = root_addr (plug c (rot f t))"
    using ne root_addr_plug_cons by (cases c) (auto simp: root_addr_plug_cons [of "hd c" "tl c"])
  have "distinct (addrs (plug c (rot f t)))"
    using ok by (simp add: tree_ok_def distinct_addrs_plug)
  then show ?thesis
    using tree_Rotate_repr [OF r ne dis, of "root_addr (plug (f # c) t)"] ne unfolding root
    by (auto simp: tree_ok_def repr_plug same_outside_def)
qed

section \<open>Priorities\<close>

text \<open>
  Heap order, and the same for a path with the entries \<open>S\<close> below its hole: every entry on the
  path has a priority at most that of all entries below it.
\<close>

fun heap_ordered :: "'d entry tree \<Rightarrow> bool" where
  "heap_ordered Leaf = True"
| "heap_ordered (Node l e r) = ((\<forall>x \<in> set_tree l \<union> set_tree r. e_pri e \<le> e_pri x) \<and>
     heap_ordered l \<and> heap_ordered r)"

fun f_tree :: "'d frame \<Rightarrow> 'd entry tree" where
  "f_tree (FL e r) = r"
| "f_tree (FR l e) = l"

fun ctx_ordered :: "'d frame list \<Rightarrow> 'd entry set \<Rightarrow> bool" where
  "ctx_ordered [] S = True"
| "ctx_ordered (f # c) S = (heap_ordered (f_tree f) \<and>
     (\<forall>x \<in> S \<union> set_tree (f_tree f). e_pri (f_entry f) \<le> e_pri x) \<and>
     ctx_ordered c (insert (f_entry f) (S \<union> set_tree (f_tree f))))"

lemma set_tree_fill: "set_tree (fill f t) = insert (f_entry f) (set_tree t \<union> set_tree (f_tree f))"
  by (cases f) auto

lemma heap_ordered_fill:
  "heap_ordered (fill f t) \<longleftrightarrow> heap_ordered t \<and> heap_ordered (f_tree f) \<and>
     (\<forall>x \<in> set_tree t \<union> set_tree (f_tree f). e_pri (f_entry f) \<le> e_pri x)"
  by (cases f) auto

lemma heap_ordered_plug: "heap_ordered (plug c t) \<longleftrightarrow> heap_ordered t \<and> ctx_ordered c (set_tree t)"
  by (induction c arbitrary: t) (auto simp: heap_ordered_fill set_tree_fill)

lemma ctx_ordered_insert:
  "ctx_ordered c S \<Longrightarrow> y \<in> S \<Longrightarrow> e_pri y \<le> e_pri x \<Longrightarrow> ctx_ordered c (insert x S)"
proof (induction c arbitrary: S)
  case (Cons f c)
  have "ctx_ordered c (insert x (insert (f_entry f) (S \<union> set_tree (f_tree f))))"
    using Cons.prems by (intro Cons.IH) auto
  moreover have "e_pri (f_entry f) \<le> e_pri y" using Cons.prems by simp
  then have "e_pri (f_entry f) \<le> e_pri x" using Cons.prems(3) by (rule order_trans)
  ultimately show ?case using Cons.prems by (auto simp: insert_commute)
qed simp

fun adjust :: "'d frame list \<Rightarrow> 'd entry tree \<Rightarrow> 'd entry tree" where
  "adjust [] t = t"
| "adjust (f # c) t = (if e_pri (f_entry f) > e_pri (value t) then adjust c (rot f t) else plug (f # c) t)"

lemma rot_not_leaf [simp]: "rot f t \<noteq> Leaf"
  by (cases f; cases t) auto

lemma inorder_adjust [simp]: "inorder (adjust c t) = inorder (plug c t)"
  by (induction c arbitrary: t) (auto simp: inorder_plug)

lemma addrs_adjust [simp]: "addrs (adjust c t) = addrs (plug c t)"
  by (simp add: addrs_def)

lemma heap_ordered_adjust:
  "heap_ordered (Node l x r) \<Longrightarrow> ctx_ordered c (set_tree l \<union> set_tree r) \<Longrightarrow>
     heap_ordered (adjust c (Node l x r))"
proof (induction c arbitrary: l r)
  case (Cons f c)
  let ?S = "insert (f_entry f) (set_tree l \<union> set_tree r \<union> set_tree (f_tree f))"
  have ctx: "ctx_ordered c ?S" using Cons.prems(2) by simp
  show ?case
  proof (cases "e_pri (f_entry f) > e_pri x")
    case True
    show ?thesis
    proof (cases f)
      case (FL y r')
      have "\<forall>z \<in> set_tree r'. e_pri x \<le> e_pri z"
        using Cons.prems(2) FL order_trans [OF less_imp_le [OF True]] by simp
      with True have "heap_ordered (Node l x (Node r y r'))" using Cons.prems FL by (simp add: ball_Un)
      moreover have "ctx_ordered c (set_tree l \<union> set_tree (Node r y r'))"
        using ctx FL by (simp add: Un_ac)
      ultimately show ?thesis using True FL Cons.IH by simp
    next
      case (FR l' y)
      have "\<forall>z \<in> set_tree l'. e_pri x \<le> e_pri z"
        using Cons.prems(2) FR order_trans [OF less_imp_le [OF True]] by simp
      with True have "heap_ordered (Node (Node l' y l) x r)" using Cons.prems FR by (simp add: ball_Un)
      moreover have "ctx_ordered c (set_tree (Node l' y l) \<union> set_tree r)"
        using ctx FR by (simp add: Un_ac)
      ultimately show ?thesis using True FR Cons.IH by simp
    qed
  next
    case False
    then have "ctx_ordered c (insert x ?S)" using ctx by (intro ctx_ordered_insert [of c ?S "f_entry f"]) auto
    then have "ctx_ordered (f # c) (set_tree (Node l x r))"
      using False Cons.prems by (auto simp: insert_commute Un_ac)
    then have "heap_ordered (plug (f # c) (Node l x r))"
      using Cons.prems(1) heap_ordered_plug by blast
    with False show ?thesis by simp
  qed
qed simp

lemma tree_treap_Adjust_ok:
  "tree_ok h (plug c t) \<Longrightarrow> t \<noteq> Leaf \<Longrightarrow>
     \<exists>h'. tree_treap_Adjust h (root_addr t) (root_addr (plug c t)) = Some (h', root_addr (adjust c t)) \<and>
       tree_ok h' (adjust c t) \<and> same_outside (set (addrs (plug c t))) h h'"
proof (induction c arbitrary: h t)
  case Nil
  then show ?case
    by (cases t) (auto simp: tree_ok_def tree_treap_Adjust.simps same_outside_def)
next
  case (Cons f c)
  obtain l x r where t: "t = Node l x r" using Cons.prems(2) by (cases t) auto
  have x: "\<exists>n. h (root_addr t) = Some n \<and> n_father n = e_addr (f_entry f) \<and> n_internal n = e_pri x"
    and y: "e_addr (f_entry f) \<noteq> NULL"
      "\<exists>n. h (e_addr (f_entry f)) = Some n \<and> n_internal n = e_pri (f_entry f)"
    using Cons.prems(1) unfolding tree_ok_plug t by (cases f; auto)+
  show ?case
  proof (cases "e_pri (f_entry f) > e_pri x")
    case True
    obtain h1 where h1: "tree_Rotate h (root_addr t) (root_addr (plug (f # c) t)) =
        Some (h1, root_addr (plug c (rot f t)))" "tree_ok h1 (plug c (rot f t))"
        "same_outside (set (addrs (plug (f # c) t))) h h1"
      using tree_Rotate_ok [OF Cons.prems] by blast
    have A: "set (addrs (plug c (rot f t))) = set (addrs (plug (f # c) t))"
      by simp
    from Cons.IH [OF h1(2)] h1(3) A obtain h2 where
      "tree_treap_Adjust h1 (root_addr t) (root_addr (plug c (rot f t))) = Some (h2, root_addr (adjust c (rot f t)))"
      "tree_ok h2 (adjust c (rot f t))" "same_outside (set (addrs (plug (f # c) t))) h h2"
      using Cons.prems(2) by (auto intro: same_outside_trans)
    with True h1(1) x y t show ?thesis by (subst tree_treap_Adjust.simps) auto
  next
    case False
    with Cons.prems x y t show ?thesis
      by (subst tree_treap_Adjust.simps) (auto simp: same_outside_def)
  qed
qed

section \<open>Insertion\<close>

abbreviation keys :: "'d entry list \<Rightarrow> u64 list" where
  "keys xs \<equiv> map e_key xs"

abbreviation sorted_keys :: "'d entry list \<Rightarrow> bool" where
  "sorted_keys xs \<equiv> sorted_wrt (<) (keys xs)"

fun ins :: "'d entry \<Rightarrow> 'd entry tree \<Rightarrow> 'd entry tree" where
  "ins e Leaf = Node Leaf e Leaf"
| "ins e (Node l x r) =
     (if e_key e < e_key x then Node (ins e l) x r
      else if e_key e > e_key x then Node l x (ins e r) else Node l x r)"

text \<open>The specification: insertion into the list of entries ordered by key.\<close>

fun ins_list :: "'d entry \<Rightarrow> 'd entry list \<Rightarrow> 'd entry list" where
  "ins_list e [] = [e]"
| "ins_list e (x # xs) = (if e_key e < e_key x then e # x # xs
     else if e_key e > e_key x then x # ins_list e xs else x # xs)"

lemma set_ins_list: "e_key e \<notin> set (keys xs) \<Longrightarrow> set (ins_list e xs) = insert e (set xs)"
  by (induction xs) (auto simp: neq_iff)

lemma sorted_ins_list:
  "e_key e \<notin> set (keys xs) \<Longrightarrow> sorted_keys xs \<Longrightarrow> sorted_keys (ins_list e xs)"
  by (induction xs) (auto simp: set_ins_list neq_iff)

lemma ins_list_append:
  assumes "sorted_keys (xs @ x # ys)"
  shows "ins_list e (xs @ x # ys) =
    (if e_key e < e_key x then ins_list e xs @ x # ys
     else if e_key e > e_key x then xs @ x # ins_list e ys else xs @ x # ys)"
  using assms by (induction xs) (auto simp: sorted_wrt_append)

lemma inorder_ins: "sorted_keys (inorder t) \<Longrightarrow> inorder (ins e t) = ins_list e (inorder t)"
  by (induction t) (auto simp: ins_list_append sorted_wrt_append)

lemma plug_append: "plug (c @ [f]) t = fill f (plug c t)"
  by (induction c arbitrary: t) auto

lemma ins_plug:
  "e_key e \<notin> set (keys (inorder t)) \<Longrightarrow>
     \<exists>c. t = plug c Leaf \<and> ins e t = plug c (Node Leaf e Leaf)"
proof (induction t)
  case Leaf
  then show ?case by (intro exI [of _ "[]"]) simp
next
  case (Node l x r)
  then consider "e_key e < e_key x" | "e_key e > e_key x" by fastforce
  then show ?case
  proof cases
    case 1
    obtain c where "l = plug c Leaf" "ins e l = plug c (Node Leaf e Leaf)" using Node by auto
    then show ?thesis using 1 by (intro exI [of _ "c @ [FL x r]"]) (simp add: plug_append)
  next
    case 2
    obtain c where "r = plug c Leaf" "ins e r = plug c (Node Leaf e Leaf)" using Node by auto
    moreover have "\<not> e_key e < e_key x" using 2 by simp
    ultimately show ?thesis using 2 by (intro exI [of _ "c @ [FR l x]"]) (simp add: plug_append)
  qed
qed

lemma mset_inorder_ins:
  "e_key e \<notin> set (keys (inorder t)) \<Longrightarrow> mset (inorder (ins e t)) = add_mset e (mset (inorder t))"
  by (induction t) (auto simp: neq_iff)

lemma mset_addrs_ins:
  "e_key e \<notin> set (keys (inorder t)) \<Longrightarrow> mset (addrs (ins e t)) = add_mset (e_addr e) (mset (addrs t))"
  using mset_inorder_ins [of e t] by (simp add: addrs_def)

lemma set_addrs_ins:
  "e_key e \<notin> set (keys (inorder t)) \<Longrightarrow> set (addrs (ins e t)) = insert (e_addr e) (set (addrs t))"
  by (metis mset_addrs_ins set_mset_add_mset_insert set_mset_mset)

lemma distinct_addrs_ins:
  "e_key e \<notin> set (keys (inorder t)) \<Longrightarrow> distinct (addrs t) \<Longrightarrow> e_addr e \<notin> set (addrs t) \<Longrightarrow>
     distinct (addrs (ins e t))"
  by (metis distinct.simps(2) mset.simps(2) mset_addrs_ins mset_eq_imp_distinct_iff)

text \<open>The entry a fresh node carries.\<close>

definition new_entry :: "addr \<Rightarrow> 'd \<Rightarrow> u64 \<Rightarrow> u32 \<Rightarrow> 'd entry" where
  "new_entry new garbage key v = Entry new key (ucast (fst (random_Rand v)) XOR key) garbage"

lemma new_entry_simps [simp]:
  "e_addr (new_entry new garbage key v) = new" "e_key (new_entry new garbage key v) = key"
  by (simp_all add: new_entry_def)

lemma tree_InsertNodes_new:
  fixes v :: u32 and garbage :: 'd
  assumes "repr h fa t" and "distinct (addrs t)" and "key \<notin> set (keys (inorder t))"
    and "new \<notin> set (addrs t)" and "new \<noteq> NULL"
  defines "e \<equiv> new_entry new garbage key v"
  shows "\<exists>h'. tree_InsertNodes new garbage key (root_addr t) fa added (h, tr, v) =
       Some (root_addr (ins e t), new, map_option (\<lambda>_. True) added, h',
             tr\<lparr>t_size := t_size tr + 1\<rparr>, snd (random_Rand v)) \<and>
     repr h' fa (ins e t) \<and> same_outside (set (addrs (ins e t))) h h'"
  using assms(1-5)
proof (induction t arbitrary: fa)
  case Leaf
  then show ?case
    by (subst tree_InsertNodes.simps)
       (auto simp: tree_NewNode_def e_def new_entry_def node_of_def same_outside_def split_beta)
next
  case (Node l x r)
  let ?A = "\<lambda>t. set (addrs (ins e t))"
  have ek: "e_key e = key" "e_addr e = new" by (simp_all add: e_def)
  have x: "e_addr x \<noteq> NULL" "h (e_addr x) = Some (node_of fa (root_addr l) (root_addr r) x)" using Node.prems by auto
  from Node.prems(3) consider "key < e_key x" | "key > e_key x" by fastforce
  then show ?case
  proof cases
    case 1
    obtain h' where h': "tree_InsertNodes new garbage key (root_addr l) (e_addr x) added (h, tr, v) =
        Some (root_addr (ins e l), new, map_option (\<lambda>_. True) added, h',
              tr\<lparr>t_size := t_size tr + 1\<rparr>, snd (random_Rand v))"
        "repr h' (e_addr x) (ins e l)" "same_outside (?A l) h h'"
      using Node.IH(1) [of "e_addr x"] Node.prems by auto
    have A: "?A l = insert new (set (addrs l))" using Node.prems ek by (simp add: set_addrs_ins)
    have hx: "h' (e_addr x) = h (e_addr x)" using h'(3) A Node.prems by (auto simp: same_outside_def)
    have "repr h' (e_addr x) r"
      by (rule repr_cong [of h]) (use h'(3) A Node.prems in \<open>auto simp: same_outside_def\<close>)
    with 1 x h' hx A Node.prems ek show ?thesis
      by (subst tree_InsertNodes.simps) (auto simp: same_outside_def)
  next
    case 2
    obtain h' where h': "tree_InsertNodes new garbage key (root_addr r) (e_addr x) added (h, tr, v) =
        Some (root_addr (ins e r), new, map_option (\<lambda>_. True) added, h',
              tr\<lparr>t_size := t_size tr + 1\<rparr>, snd (random_Rand v))"
        "repr h' (e_addr x) (ins e r)" "same_outside (?A r) h h'"
      using Node.IH(2) [of "e_addr x"] Node.prems by auto
    have A: "?A r = insert new (set (addrs r))" using Node.prems ek by (simp add: set_addrs_ins)
    have hx: "h' (e_addr x) = h (e_addr x)" using h'(3) A Node.prems by (auto simp: same_outside_def)
    have "repr h' (e_addr x) l"
      by (rule repr_cong [of h]) (use h'(3) A Node.prems in \<open>auto simp: same_outside_def\<close>)
    with 2 x h' hx A Node.prems ek show ?thesis
      by (subst tree_InsertNodes.simps) (auto simp: same_outside_def)
  qed
qed

lemma tree_InsertNodes_found:
  assumes "repr h fa t" and "sorted_keys (inorder t)" and "e \<in> set (inorder t)" and "e_key e = key"
  shows "tree_InsertNodes new garbage key (root_addr t) fa added (h, tr, v) =
    Some (root_addr t, e_addr e, map_option (\<lambda>_. False) added, h, tr, v)"
  using assms
proof (induction t arbitrary: fa)
  case (Node l x r)
  then consider "e = x" | "e \<in> set (inorder l)" "key < e_key x" | "e \<in> set (inorder r)" "key > e_key x"
    by (auto simp: sorted_wrt_append)
  then show ?case
  proof cases
    case 1
    with Node.prems show ?thesis by (subst tree_InsertNodes.simps) auto
  next
    case 2
    with Node.prems Node.IH(1) [of "e_addr x"] show ?thesis
      by (subst tree_InsertNodes.simps) (auto simp: sorted_wrt_append map_upd_triv)
  next
    case 3
    with Node.prems Node.IH(2) [of "e_addr x"] show ?thesis
      by (subst tree_InsertNodes.simps) (auto simp: sorted_wrt_append map_upd_triv)
  qed
qed simp

section \<open>Deletion\<close>

text \<open>What the deletion needs of the priorities: everything but the node itself is in heap order.\<close>

definition ordered_but :: "'d frame list \<Rightarrow> 'd entry tree \<Rightarrow> 'd entry tree \<Rightarrow> bool" where
  "ordered_but c l r \<longleftrightarrow> heap_ordered l \<and> heap_ordered r \<and> ctx_ordered c (set_tree l \<union> set_tree r)"

lemma ctx_ordered_mono: "ctx_ordered c S \<Longrightarrow> S' \<subseteq> S \<Longrightarrow> ctx_ordered c S'"
proof (induction c arbitrary: S S')
  case (Cons f c)
  have ord: "heap_ordered (f_tree f)" "ctx_ordered c (insert (f_entry f) (S \<union> set_tree (f_tree f)))"
    and le: "\<And>x. x \<in> S \<union> set_tree (f_tree f) \<Longrightarrow> e_pri (f_entry f) \<le> e_pri x"
    using Cons.prems(1) by simp_all
  have sub: "insert (f_entry f) (S' \<union> set_tree (f_tree f)) \<subseteq> insert (f_entry f) (S \<union> set_tree (f_tree f))"
    using Cons.prems(2) by blast
  have "\<forall>x \<in> S' \<union> set_tree (f_tree f). e_pri (f_entry f) \<le> e_pri x" using le Cons.prems(2) by blast
  with ord(1) Cons.IH [OF ord(2) sub] show ?case by simp
qed simp

lemma ordered_but_plug: "heap_ordered (plug c (Node l e r)) \<Longrightarrow> ordered_but c l r"
  using ctx_ordered_mono [of c "set_tree (Node l e r)" "set_tree l \<union> set_tree r"]
  unfolding heap_ordered_plug ordered_but_def by auto

lemma root_pri_le: "heap_ordered (Node a y b) \<Longrightarrow> z \<in> set_tree (Node a y b) \<Longrightarrow> e_pri y \<le> e_pri z"
  by auto

lemma ordered_but_left:
  assumes "ordered_but c (Node a y b) (Node p z q)" and "e_pri y < e_pri z"
  shows "ordered_but (FR a y # c) b (Node p z q)"
proof -
  have "e_pri y \<le> e_pri x" if "x \<in> set_tree (Node p z q)" for x
    using root_pri_le [OF _ that] assms by (auto simp: ordered_but_def intro: order_trans [OF less_imp_le])
  with assms show ?thesis by (auto simp: ordered_but_def insert_commute Un_ac)
qed

lemma ordered_but_right:
  assumes "ordered_but c (Node a y b) (Node p z q)" and "e_pri z \<le> e_pri y"
  shows "ordered_but (FL z q # c) (Node a y b) p"
proof -
  have "e_pri z \<le> e_pri x" if "x \<in> set_tree (Node a y b)" for x
    using root_pri_le [OF _ that] assms by (auto simp: ordered_but_def intro: order_trans)
  with assms show ?thesis by (auto simp: ordered_but_def insert_commute Un_ac)
qed

text \<open>One turn of the loop moves the node one level down.\<close>

lemma tree_Delete_step:
  assumes ok: "tree_ok h (plug c (Node l e r))" and two: "l \<noteq> Leaf" "r \<noteq> Leaf"
  shows "\<exists>h' c' l' r'. tree_Delete_loop h (e_addr e) (root_addr (plug c (Node l e r))) =
       tree_Delete_loop h' (e_addr e) (root_addr (plug c' (Node l' e r'))) \<and>
     tree_ok h' (plug c' (Node l' e r')) \<and> size l' + size r' < size l + size r \<and>
     inorder (plug c' (Node l' e r')) = inorder (plug c (Node l e r)) \<and>
     same_outside (set (addrs (plug c (Node l e r)))) h h' \<and>
     (ordered_but c l r \<longrightarrow> ordered_but c' l' r')"
proof -
  obtain a y b p z q where l: "l = Node a y b" and r: "r = Node p z q"
    using two by (cases l; cases r) auto
  have he: "h (e_addr e) = Some (node_of (ctx_father c) (root_addr l) (root_addr r) e)"
    and lr: "repr h (e_addr e) l" "repr h (e_addr e) r"
    using ok unfolding tree_ok_plug by auto
  have step: "tree_Delete_loop h (e_addr e) root = do {
      (h, root) \<leftarrow> (if e_pri y < e_pri z then tree_Rotate h (e_addr y) root
                    else tree_Rotate h (e_addr z) root);
      tree_Delete_loop h (e_addr e) root }" for root
    using lr by (subst tree_Delete_loop.simps) (auto simp: he l r)
  show ?thesis
  proof (cases "e_pri y < e_pri z")
    case True
    obtain h1 where "tree_Rotate h (e_addr y) (root_addr (plug c (Node l e r))) =
        Some (h1, root_addr (plug (FR a y # c) (Node b e r)))" "tree_ok h1 (plug (FR a y # c) (Node b e r))"
        "same_outside (set (addrs (plug c (Node l e r)))) h h1"
      using tree_Rotate_ok [of h "FL e r" c l] ok by (auto simp: l)
    moreover have "ordered_but c l r \<longrightarrow> ordered_but (FR a y # c) b r"
      using ordered_but_left True unfolding l r by blast
    ultimately show ?thesis using True
      by (intro exI [of _ h1] exI [of _ "FR a y # c"] exI [of _ b] exI [of _ r])
         (simp add: step inorder_plug l)
  next
    case False
    obtain h1 where "tree_Rotate h (e_addr z) (root_addr (plug c (Node l e r))) =
        Some (h1, root_addr (plug (FL z q # c) (Node l e p)))" "tree_ok h1 (plug (FL z q # c) (Node l e p))"
        "same_outside (set (addrs (plug c (Node l e r)))) h h1"
      using tree_Rotate_ok [of h "FR l e" c r] ok by (auto simp: r)
    moreover have "ordered_but c l r \<longrightarrow> ordered_but (FL z q # c) l p"
      using ordered_but_right False unfolding l r by (metis not_less)
    ultimately show ?thesis using False
      by (intro exI [of _ h1] exI [of _ "FL z q # c"] exI [of _ l] exI [of _ p])
         (simp add: step inorder_plug r)
  qed
qed

lemma tree_Delete_loop_ok:
  assumes "tree_ok h (plug c (Node l e r))"
  shows "\<exists>h' c' l' r'. tree_Delete_loop h (e_addr e) (root_addr (plug c (Node l e r))) =
       Some (h', root_addr (plug c' (Node l' e r'))) \<and>
     tree_ok h' (plug c' (Node l' e r')) \<and> (l' = Leaf \<or> r' = Leaf) \<and>
     inorder (plug c' (Node l' e r')) = inorder (plug c (Node l e r)) \<and>
     same_outside (set (addrs (plug c (Node l e r)))) h h' \<and>
     (ordered_but c l r \<longrightarrow> ordered_but c' l' r')"
  using assms
proof (induction "size l + size r" arbitrary: h c l r rule: less_induct)
  case less
  show ?case
  proof (cases "l = Leaf \<or> r = Leaf")
    case True
    then have "tree_Delete_loop h (e_addr e) (root_addr (plug c (Node l e r))) =
        Some (h, root_addr (plug c (Node l e r)))"
      using less.prems unfolding tree_ok_plug by (subst tree_Delete_loop.simps) auto
    with True less.prems show ?thesis
      by (intro exI [of _ h] exI [of _ c] exI [of _ l] exI [of _ r]) (simp add: same_outside_def)
  next
    case False
    then obtain h1 c1 l1 r1 where s: "tree_Delete_loop h (e_addr e) (root_addr (plug c (Node l e r))) =
         tree_Delete_loop h1 (e_addr e) (root_addr (plug c1 (Node l1 e r1)))"
        "tree_ok h1 (plug c1 (Node l1 e r1))" "size l1 + size r1 < size l + size r"
        "inorder (plug c1 (Node l1 e r1)) = inorder (plug c (Node l e r))"
        "same_outside (set (addrs (plug c (Node l e r)))) h h1"
        "ordered_but c l r \<longrightarrow> ordered_but c1 l1 r1"
      using tree_Delete_step [OF less.prems] by blast
    have A: "addrs (plug c1 (Node l1 e r1)) = addrs (plug c (Node l e r))" by (simp add: addrs_def s(4))
    obtain h' c' l' r' where ih: "tree_Delete_loop h1 (e_addr e) (root_addr (plug c1 (Node l1 e r1))) =
         Some (h', root_addr (plug c' (Node l' e r')))" "tree_ok h' (plug c' (Node l' e r'))"
        "l' = Leaf \<or> r' = Leaf" "inorder (plug c' (Node l' e r')) = inorder (plug c (Node l e r))"
        "same_outside (set (addrs (plug c (Node l e r)))) h1 h'"
        "ordered_but c1 l1 r1 \<longrightarrow> ordered_but c' l' r'"
      using less.hyps [OF s(3,2)] unfolding A s(4) by blast
    from s(6) ih(6) have "ordered_but c l r \<longrightarrow> ordered_but c' l' r'" by blast
    moreover have "tree_Delete_loop h (e_addr e) (root_addr (plug c (Node l e r))) =
        Some (h', root_addr (plug c' (Node l' e r')))"
      using s(1) ih(1) by (rule trans)
    ultimately show ?thesis
      using ih(2-4) same_outside_trans [OF s(5) ih(5)]
      by (intro exI [of _ h'] exI [of _ c'] exI [of _ l'] exI [of _ r'] conjI)
  qed
qed

lemma root_addr_plug_in: "c \<noteq> [] \<Longrightarrow> root_addr (plug c t) \<in> set (ctx_addrs c)"
proof (induction c arbitrary: t)
  case (Cons f c)
  then show ?case by (cases "c = []"; cases f) auto
qed simp

text \<open>A node with at most one son is replaced by that son.\<close>

lemma tree_Delete_splice:
  assumes ok: "tree_ok h (plug c (Node l e r))" and one: "l = Leaf \<or> r = Leaf"
  defines "son \<equiv> (if l = Leaf then r else l)"
  shows "\<exists>h'. tree_Connect h (ctx_father c) (root_addr son) (ctx_side c) = Some h' \<and>
     tree_ok (h'(e_addr e := None)) (plug c son) \<and>
     same_outside (set (addrs (plug c (Node l e r)))) h h'"
proof -
  have ctx: "repr_ctx h c (e_addr e)" and dis: "distinct (addrs (Node l e r) @ ctx_addrs c)"
    and l: "repr h (e_addr e) l" and r: "repr h (e_addr e) r"
    using ok unfolding tree_ok_plug by auto
  have s: "repr h (e_addr e) son" "distinct (addrs son)" "e_addr e \<notin> set (addrs son)"
    "set (addrs son) \<inter> set (ctx_addrs c) = {}" "set (addrs son) \<subseteq> set (addrs (Node l e r))"
    "e_addr e \<notin> set (ctx_addrs c)" "distinct (ctx_addrs c)"
    using l r dis by (auto simp: son_def)
  have null: "NULL \<notin> set (ctx_addrs c)"
    using ok repr_not_null [of h NULL "plug c (Node l e r)"] by (simp add: tree_ok_def)
  have out: "root_addr son \<notin> set (ctx_addrs c)"
    using s(4) null root_in_addrs [of son] by (cases "son = Leaf") auto
  have sn: "root_addr son \<noteq> NULL \<Longrightarrow> h (root_addr son) = Some (the (h (root_addr son)))"
    using s(1) by (cases son) auto
  obtain h' where h': "tree_Connect h (ctx_father c) (root_addr son) (ctx_side c) = Some h'"
      "repr_ctx h' c (root_addr son)"
      "root_addr son \<noteq> NULL \<longrightarrow>
         h' (root_addr son) = Some ((the (h (root_addr son)))\<lparr>n_father := ctx_father c\<rparr>)"
      "\<And>p. p \<noteq> root_addr son \<or> root_addr son = NULL \<Longrightarrow> p \<noteq> ctx_father c \<or> c = [] \<Longrightarrow> h' p = h p"
    using tree_Connect_hole [OF ctx s(7) out sn] by blast
  have keep: "h' p = h p" if "p \<notin> set (ctx_addrs c)" "p \<noteq> root_addr son \<or> root_addr son = NULL" for p
    using h'(4) [OF that(2)] that(1) ctx_father_in [of c] by metis
  have "repr h' (ctx_father c) son"
  proof (cases "son = Leaf")
    case False
    have "repr (set_father (root_addr son) (ctx_father c) h) (ctx_father c) son"
      by (rule repr_set_father [OF s(1,2) False])
    moreover have "h' p = set_father (root_addr son) (ctx_father c) h p" if "p \<in> set (addrs son)" for p
      using that h'(3) sn s(1,4) False keep [of p]
      by (cases "p = root_addr son") (auto simp: set_father_def split: option.splits)
    ultimately show ?thesis by (rule repr_cong)
  qed simp
  then have "repr (h'(e_addr e := None)) (ctx_father c) son" using s(3) by simp
  moreover have "repr_ctx (h'(e_addr e := None)) c (root_addr son)"
    by (rule repr_ctx_cong [OF h'(2)]) (use s(6) in auto)
  moreover have "same_outside (set (addrs (plug c (Node l e r)))) h h'"
    unfolding same_outside_def set_addrs_plug using keep s(5) root_in_addrs [of son] s(1)
    by (metis UnCI repr_root_null subsetD)
  ultimately show ?thesis using h'(1) s by (auto simp: tree_ok_plug)
qed

lemma tree_Delete_ok:
  assumes ok: "tree_ok h (plug c (Node l e r))" and root: "t_root t = root_addr (plug c (Node l e r))"
  shows "\<exists>h' T'. tree_Delete (e_addr e) (h, t) = Some (h', t\<lparr>t_root := root_addr T'\<rparr>) \<and> tree_ok h' T' \<and>
     inorder T' = ctx_pre c @ inorder l @ inorder r @ ctx_post c \<and>
     (heap_ordered (plug c (Node l e r)) \<longrightarrow> heap_ordered T') \<and>
     h' (e_addr e) = None \<and> same_outside (set (addrs (plug c (Node l e r)))) h h'"
proof -
  obtain h1 c1 l1 r1 where loop: "tree_Delete_loop h (e_addr e) (t_root t) =
        Some (h1, root_addr (plug c1 (Node l1 e r1)))"
      and ok1: "tree_ok h1 (plug c1 (Node l1 e r1))" and one: "l1 = Leaf \<or> r1 = Leaf"
      and ino: "inorder (plug c1 (Node l1 e r1)) = inorder (plug c (Node l e r))"
      and same1: "same_outside (set (addrs (plug c (Node l e r)))) h h1"
      and ord: "ordered_but c l r \<longrightarrow> ordered_but c1 l1 r1"
    using tree_Delete_loop_ok [OF ok] root by metis
  define s where "s = (if l1 = Leaf then r1 else l1)"
  let ?T = "plug c1 s"
  obtain h2 where h2: "tree_Connect h1 (ctx_father c1) (root_addr s) (ctx_side c1) = Some h2"
      "tree_ok (h2(e_addr e := None)) ?T" "same_outside (set (addrs (plug c1 (Node l1 e r1)))) h1 h2"
    using tree_Delete_splice [OF ok1 one] unfolding s_def by blast
  have he: "h1 (e_addr e) = Some (node_of (ctx_father c1) (root_addr l1) (root_addr r1) e)" "e_addr e \<noteq> NULL"
    and c1: "repr_ctx h1 c1 (e_addr e)" "e_addr e \<notin> set (ctx_addrs c1)" and l1: "repr h1 (e_addr e) l1"
    using ok1 unfolding tree_ok_plug by auto
  have tell: "tree_Tell h1 (e_addr e) = Some (ctx_side c1)"
    using tree_Tell_hole [OF c1(1) he(1)] he(2) c1(2) by simp
  have isroot: "e_addr e = root_addr (plug c1 (Node l1 e r1)) \<longleftrightarrow> c1 = []"
  proof (cases "c1 = []")
    case False
    with root_addr_plug_in [OF False, of "Node l1 e r1"] c1(2) show ?thesis by metis
  qed simp
  have newroot: "e_addr e = root_addr (plug c1 (Node l1 e r1)) \<Longrightarrow> root_addr s = root_addr ?T"
      "e_addr e \<noteq> root_addr (plug c1 (Node l1 e r1)) \<Longrightarrow> root_addr (plug c1 (Node l1 e r1)) = root_addr ?T"
    unfolding isroot using root_addr_plug_cons by (cases c1; auto)+
  have son: "root_addr l1 \<noteq> NULL \<Longrightarrow> root_addr l1 = root_addr s" "root_addr l1 = NULL \<Longrightarrow> root_addr r1 = root_addr s"
    using repr_root_null [OF l1] unfolding s_def by auto
  have "tree_Delete (e_addr e) (h, t) = Some (h2(e_addr e := None), t\<lparr>t_root := root_addr ?T\<rparr>)"
    using loop he tell h2(1) son newroot by (auto simp: tree_Delete_def)
  moreover have "addrs (plug c1 (Node l1 e r1)) = addrs (plug c (Node l e r))" by (simp add: addrs_def ino)
  then have "same_outside (set (addrs (plug c (Node l e r)))) h (h2(e_addr e := None))"
    using h2(3) same1 by (auto simp: same_outside_def)
  moreover have "inorder ?T = ctx_pre c @ inorder l @ inorder r @ ctx_post c"
  proof -
    have "distinct (inorder (plug c (Node l e r)))"
      using ok by (simp add: tree_ok_def addrs_def distinct_map)
    then have "e \<notin> set (ctx_pre c @ inorder l)" "e \<notin> set (inorder r @ ctx_post c)"
      by (auto simp: inorder_plug)
    moreover have "(ctx_pre c1 @ inorder l1) @ e # inorder r1 @ ctx_post c1 = (ctx_pre c @ inorder l) @ e # inorder r @ ctx_post c"
      using ino by (simp add: inorder_plug)
    ultimately have "ctx_pre c1 @ inorder l1 = ctx_pre c @ inorder l \<and> inorder r1 @ ctx_post c1 = inorder r @ ctx_post c"
      by (metis append_Cons_eq_iff)
    with one show ?thesis by (auto simp: inorder_plug s_def)
  qed
  moreover have "heap_ordered (plug c (Node l e r)) \<longrightarrow> heap_ordered ?T"
    using ord ordered_but_plug one by (auto simp: ordered_but_def heap_ordered_plug s_def)
  ultimately show ?thesis using h2(2) by (intro exI [of _ "h2(e_addr e := None)"] exI [of _ ?T]) simp
qed

section \<open>Search, iteration and destruction\<close>

definition find_addr :: "u64 \<Rightarrow> 'd entry list \<Rightarrow> addr" where
  "find_addr key xs = (case find (\<lambda>e. e_key e = key) xs of None \<Rightarrow> NULL | Some e \<Rightarrow> e_addr e)"

definition first_addr :: "'d entry list \<Rightarrow> addr" where
  "first_addr xs = (case xs of [] \<Rightarrow> NULL | e # _ \<Rightarrow> e_addr e)"

definition last_addr :: "'d entry list \<Rightarrow> addr" where
  "last_addr xs = (if xs = [] then NULL else e_addr (last xs))"

lemma first_addr_simps [simp]: "first_addr [] = NULL" "first_addr (e # xs) = e_addr e"
  by (simp_all add: first_addr_def)

lemma last_addr_simps [simp]: "last_addr [] = NULL" "last_addr (xs @ [e]) = e_addr e"
  "last_addr (e # xs) = (if xs = [] then e_addr e else last_addr xs)"
  by (simp_all add: last_addr_def)

lemma first_addr_append: "first_addr (xs @ ys) = (if xs = [] then first_addr ys else first_addr xs)"
  by (cases xs) auto

lemma last_addr_append: "last_addr (xs @ ys) = (if ys = [] then last_addr xs else last_addr ys)"
  by (auto simp: last_addr_def)

lemma inorder_Nil [simp]: "inorder t = [] \<longleftrightarrow> t = Leaf"
  by (cases t) auto

lemma find_append:
  "find P (xs @ ys) = (case find P xs of None \<Rightarrow> find P ys | Some x \<Rightarrow> Some x)"
  by (induction xs) auto

lemma find_None: "(\<And>x. x \<in> set xs \<Longrightarrow> \<not> P x) \<Longrightarrow> find P xs = None"
  by (simp add: find_None_iff)

lemma tree_FindNode_rec_ok:
  "repr h fa t \<Longrightarrow> sorted_keys (inorder t) \<Longrightarrow>
     tree_FindNode_rec h (root_addr t) key = Some (find_addr key (inorder t))"
proof (induction t arbitrary: fa)
  case Leaf
  then show ?case by (subst tree_FindNode_rec.simps) (simp add: find_addr_def)
next
  case (Node l x r)
  have l: "key \<ge> e_key x \<Longrightarrow> find (\<lambda>e. e_key e = key) (inorder l) = None"
    and r: "key \<le> e_key x \<Longrightarrow> find (\<lambda>e. e_key e = key) (inorder r) = None"
    using Node.prems(2) by (force intro!: find_None simp: sorted_wrt_append)+
  consider "key < e_key x" | "key > e_key x" | "key = e_key x" by fastforce
  then show ?case
    using Node l r by cases
      (subst tree_FindNode_rec.simps, auto simp: find_addr_def find_append sorted_wrt_append split: option.splits)+
qed

lemma tree_leftmost_ok:
  "repr h fa t \<Longrightarrow> t \<noteq> Leaf \<Longrightarrow> tree_leftmost h (root_addr t) = Some (first_addr (inorder t))"
proof (induction t arbitrary: fa)
  case (Node l x r)
  then show ?case
    by (subst tree_leftmost.simps) (cases "l = Leaf"; auto simp: first_addr_append)
qed simp

lemma tree_rightmost_ok:
  "repr h fa t \<Longrightarrow> t \<noteq> Leaf \<Longrightarrow> tree_rightmost h (root_addr t) = Some (last_addr (inorder t))"
proof (induction t arbitrary: fa)
  case (Node l x r)
  then show ?case
    by (subst tree_rightmost.simps) (cases "r = Leaf"; auto simp: last_addr_append)
qed simp

lemma tree_climb_ok:
  assumes "tree_ok h (plug c t)" and "t \<noteq> Leaf"
  shows "tree_climb h tree_Right (root_addr t) = Some (first_addr (ctx_post c))"
    and "tree_climb h tree_Left (root_addr t) = Some (last_addr (ctx_pre c))"
proof -
  have "tree_climb h tree_Right (root_addr t) = Some (first_addr (ctx_post c)) \<and>
        tree_climb h tree_Left (root_addr t) = Some (last_addr (ctx_pre c))"
    using assms
  proof (induction c arbitrary: t)
    case Nil
    then show ?case by (cases t) (auto simp: tree_ok_def tree_climb.simps)
  next
    case (Cons f c)
    have ok: "repr h (e_addr (f_entry f)) t" "repr_ctx h (f # c) (root_addr t)"
      "distinct (addrs t @ ctx_addrs (f # c))" using Cons.prems unfolding tree_ok_plug by auto
    obtain n where n: "h (root_addr t) = Some n" "n_father n = e_addr (f_entry f)" "root_addr t \<noteq> NULL"
      "root_addr t \<notin> set (ctx_addrs (f # c))" using ok Cons.prems(2) by (cases t) auto
    have fa: "e_addr (f_entry f) \<noteq> NULL" using ok(2) by (cases f) auto
    have tell: "tree_Tell h (root_addr t) = Some (ctx_side (f # c))"
      using tree_Tell_hole [OF ok(2) n(1)] n by simp
    have up: "fill f t \<noteq> Leaf" by (cases f) auto
    have "tree_climb h tree_Right (e_addr (f_entry f)) = Some (first_addr (ctx_post c)) \<and>
          tree_climb h tree_Left (e_addr (f_entry f)) = Some (last_addr (ctx_pre c))"
      using Cons.IH [of "fill f t", OF _ up] Cons.prems(1) by simp
    then show ?case using n tell fa
      by (cases f) (simp_all add: tree_climb.simps [of h _ "root_addr t"] last_addr_append)
  qed
  then show "tree_climb h tree_Right (root_addr t) = Some (first_addr (ctx_post c))"
    and "tree_climb h tree_Left (root_addr t) = Some (last_addr (ctx_pre c))" by auto
qed

lemma tree_Node_Next_ok:
  assumes "tree_ok h t" and "inorder t = xs @ e # ys"
  shows "tree_Node_Next h (e_addr e) = Some (first_addr ys)"
    and "tree_Node_Previous h (e_addr e) = Some (last_addr xs)"
proof -
  obtain c l r where t: "t = plug c (Node l e r)" and xs: "ctx_pre c @ inorder l = xs"
      and ys: "inorder r @ ctx_post c = ys"
    using inorder_split [OF assms(2)] assms(1) by (auto simp: tree_ok_def)
  have he: "h (e_addr e) = Some (node_of (ctx_father c) (root_addr l) (root_addr r) e)"
    and lr: "repr h (e_addr e) l" "repr h (e_addr e) r" using assms(1) unfolding t tree_ok_plug by auto
  note climb = tree_climb_ok [OF assms(1) [unfolded t], simplified]
  show "tree_Node_Next h (e_addr e) = Some (first_addr ys)"
    using lr he climb ys tree_leftmost_ok [of h "e_addr e" r]
    by (cases "r = Leaf") (auto simp: tree_Node_Next_def first_addr_append)
  show "tree_Node_Previous h (e_addr e) = Some (last_addr xs)"
    using lr he climb xs tree_rightmost_ok [of h "e_addr e" l]
    by (cases "l = Leaf") (auto simp: tree_Node_Previous_def last_addr_append)
qed

text \<open>The heap without the nodes of a tree.\<close>

definition free_all :: "addr list \<Rightarrow> 'd tree_heap \<Rightarrow> 'd tree_heap" where
  "free_all ps h = (\<lambda>p. if p \<in> set ps then None else h p)"

lemma tree_DestroyNodes_ok:
  "repr h fa t \<Longrightarrow> distinct (addrs t) \<Longrightarrow> t \<noteq> Leaf \<Longrightarrow>
     tree_DestroyNodes (root_addr t) h = Some (free_all (addrs t) h)"
proof (induction t arbitrary: h fa)
  case (Node l x r)
  let ?h1 = "free_all (addrs l) h"
  have lr: "repr h (e_addr x) l" "repr h (e_addr x) r" using Node.prems by auto
  have left: "root_addr l \<noteq> NULL \<Longrightarrow> tree_DestroyNodes (root_addr l) h = Some ?h1" "root_addr l = NULL \<Longrightarrow> ?h1 = h"
    using Node.IH(1) [OF lr(1)] repr_root_null [OF lr(1)] Node.prems by (cases "l = Leaf"; simp add: free_all_def)+
  have r1: "repr ?h1 (e_addr x) r"
    by (rule repr_cong [OF lr(2)]) (use Node.prems in \<open>auto simp: free_all_def\<close>)
  have right: "root_addr r \<noteq> NULL \<Longrightarrow> tree_DestroyNodes (root_addr r) ?h1 = Some (free_all (addrs r) ?h1)"
      "root_addr r = NULL \<Longrightarrow> free_all (addrs r) ?h1 = ?h1"
    using Node.IH(2) [OF r1] repr_root_null [OF r1] Node.prems by (cases "r = Leaf"; simp add: free_all_def)+
  have "h (e_addr x) = Some (node_of fa (root_addr l) (root_addr r) x)"
    "?h1 (e_addr x) = h (e_addr x)" using Node.prems by (auto simp: free_all_def)
  moreover have "free_all (addrs r) ?h1 (e_addr x) = h (e_addr x)" using Node.prems by (auto simp: free_all_def)
  moreover have "(free_all (addrs r) ?h1)(e_addr x := None) = free_all (addrs (Node l x r)) h"
    by (rule ext) (simp add: free_all_def)
  ultimately show ?case
    using left right by (subst tree_DestroyNodes.simps) (auto simp: kFree_def)
qed simp

section \<open>The contract of an ordered container\<close>

text \<open>
  What the users of the container rely on: its state stands for a list of entries ordered by key;
  insertion, search, deletion and the two iterators act on that list.
\<close>

locale ordered_nodes =
  fixes rel :: "'s \<Rightarrow> 'd entry list \<Rightarrow> bool"
    and insert_node :: "addr \<Rightarrow> 'd \<Rightarrow> u64 \<Rightarrow> 's \<Rightarrow> (addr \<times> bool \<times> 's) option"
    and find_node :: "'s \<Rightarrow> u64 \<Rightarrow> addr option"
    and delete_node :: "addr \<Rightarrow> 's \<Rightarrow> 's option"
    and first_node :: "'s \<Rightarrow> addr option"
    and next_node :: "'s \<Rightarrow> addr \<Rightarrow> addr option"
    and fresh :: "'s \<Rightarrow> addr \<Rightarrow> bool"
    and entry_of :: "'s \<Rightarrow> addr \<Rightarrow> 'd \<Rightarrow> u64 \<Rightarrow> 'd entry"
  assumes rel_sorted: "rel s xs \<Longrightarrow> sorted_keys xs"
    and rel_not_null: "rel s xs \<Longrightarrow> e \<in> set xs \<Longrightarrow> e_addr e \<noteq> NULL"
    and entry_key: "e_key (entry_of s new d key) = key" "e_addr (entry_of s new d key) = new"
    and insert_new: "rel s xs \<Longrightarrow> fresh s new \<Longrightarrow> key \<notin> set (keys xs) \<Longrightarrow>
      \<exists>s'. insert_node new d key s = Some (new, True, s') \<and> rel s' (ins_list (entry_of s new d key) xs)"
    and insert_old: "rel s xs \<Longrightarrow> key \<in> set (keys xs) \<Longrightarrow>
      insert_node new d key s = Some (find_addr key xs, False, s)"
    and find_law: "rel s xs \<Longrightarrow> find_node s key = Some (find_addr key xs)"
    and delete_law: "rel s (xs @ e # ys) \<Longrightarrow> \<exists>s'. delete_node (e_addr e) s = Some s' \<and> rel s' (xs @ ys)"
    and first_law: "rel s xs \<Longrightarrow> first_node s = Some (first_addr xs)"
    and next_law: "rel s (xs @ e # ys) \<Longrightarrow> next_node s (e_addr e) = Some (first_addr ys)"
begin

text \<open>The loop \<^verbatim>\<open>for (n = First(t); n; n = Next(n))\<close>, as the list of the nodes it visits.\<close>

fun walk :: "nat \<Rightarrow> 's \<Rightarrow> addr \<Rightarrow> addr list option" where
  "walk 0 s p = (if p = NULL then Some [] else None)"
| "walk (Suc n) s p = (if p = NULL then Some [] else do {
     q \<leftarrow> next_node s p;
     ps \<leftarrow> walk n s q;
     Some (p # ps)
   })"

lemma walk_from: "rel s (xs @ ys) \<Longrightarrow> walk (length ys) s (first_addr ys) = Some (map e_addr ys)"
proof (induction ys arbitrary: xs)
  case (Cons e ys)
  have "walk (length ys) s (first_addr ys) = Some (map e_addr ys)"
    using Cons.IH [of "xs @ [e]"] Cons.prems by simp
  with Cons.prems next_law [OF Cons.prems] rel_not_null [OF Cons.prems, of e] show ?case by simp
qed simp

lemma walk_all:
  "rel s xs \<Longrightarrow> do { p \<leftarrow> first_node s; walk (length xs) s p } = Some (map e_addr xs)"
  using walk_from [of s "[]" xs] by (simp add: first_law)

text \<open>Removing the first node until none is left takes the entries in the order of their keys.\<close>

fun drain :: "nat \<Rightarrow> 's \<Rightarrow> (addr list \<times> 's) option" where
  "drain 0 s = Some ([], s)"
| "drain (Suc n) s = do {
     p \<leftarrow> first_node s;
     s \<leftarrow> delete_node p s;
     (ps, s) \<leftarrow> drain n s;
     Some (p # ps, s)
   }"

lemma drain_all: "rel s xs \<Longrightarrow> \<exists>s'. drain (length xs) s = Some (map e_addr xs, s') \<and> rel s' []"
proof (induction xs arbitrary: s)
  case (Cons e xs)
  obtain s1 where "delete_node (e_addr e) s = Some s1" "rel s1 xs"
    using delete_law [of s "[]" e xs] Cons.prems by auto
  with Cons.IH [of s1] first_law [OF Cons.prems] show ?case by auto
qed simp

lemma find_addr_in:
  "sorted_keys xs \<Longrightarrow> e \<in> set xs \<Longrightarrow> find_addr (e_key e) xs = e_addr e"
  by (induction xs) (auto simp: find_addr_def)

lemma insert_then_find:
  assumes "rel s xs" and "fresh s new" and "key \<notin> set (keys xs)"
  shows "\<exists>s'. insert_node new d key s = Some (new, True, s') \<and> find_node s' key = Some new \<and>
    (\<forall>k \<in> set (keys xs). find_node s' k = find_node s k)"
proof -
  let ?e = "entry_of s new d key"
  obtain s' where s': "insert_node new d key s = Some (new, True, s')" "rel s' (ins_list ?e xs)"
    using insert_new [OF assms] by blast
  have set: "set (ins_list ?e xs) = insert ?e (set xs)" using assms(3) by (simp add: set_ins_list entry_key)
  have "find_node s' (e_key e) = Some (e_addr e)" if "e \<in> insert ?e (set xs)" for e
    using find_law [OF s'(2)] find_addr_in [OF rel_sorted [OF s'(2)]] that set by simp
  moreover have "find_node s (e_key e) = Some (e_addr e)" if "e \<in> set xs" for e
    using find_law [OF assms(1)] find_addr_in [OF rel_sorted [OF assms(1)]] that by simp
  ultimately show ?thesis using s'(1) entry_key [of s new d key] by force
qed

end

definition tree_rel :: "'d tree_state \<Rightarrow> 'd entry list \<Rightarrow> bool" where
  "tree_rel s xs \<longleftrightarrow> (\<exists>T. tree_ok (fst s) T \<and> t_root (fst (snd s)) = root_addr T \<and> heap_ordered T \<and>
     inorder T = xs \<and> sorted_keys xs)"

lemma tree_relE:
  assumes "tree_rel (h, t, v) xs"
  obtains T where "tree_ok h T" "t_root t = root_addr T" "heap_ordered T" "inorder T = xs" "sorted_keys xs"
  using assms by (auto simp: tree_rel_def)

lemma tree_InsertNode_new:
  assumes "tree_rel (h, t, v) xs" and "h new = None" and "new \<noteq> NULL" and "key \<notin> set (keys xs)"
  shows "\<exists>h' t'. tree_InsertNode at_null new garbage key (Some b) (h, t, v) =
       Some (new, Some True, h', t', snd (random_Rand v)) \<and>
     tree_rel (h', t', snd (random_Rand v)) (ins_list (new_entry new garbage key v) xs) \<and>
     t_size t' = t_size t + 1"
proof -
  let ?e = "new_entry new garbage key v"
  obtain T where T: "tree_ok h T" "t_root t = root_addr T" "heap_ordered T" "inorder T = xs" "sorted_keys xs"
    using assms(1) by (rule tree_relE)
  have out: "new \<notin> set (addrs T)" using T(1) assms(2) repr_allocated unfolding tree_ok_def by blast
  have ok: "repr h NULL T" "distinct (addrs T)" using T(1) by (simp_all add: tree_ok_def)
  have key: "e_key ?e \<notin> set (keys (inorder T))" using assms(4) T(4) by simp
  obtain h1 where h1: "tree_InsertNodes new garbage key (t_root t) NULL (Some b) (h, t, v) =
       Some (root_addr (ins ?e T), new, Some True, h1, t\<lparr>t_size := t_size t + 1\<rparr>, snd (random_Rand v))"
      "repr h1 NULL (ins ?e T)"
    using tree_InsertNodes_new [OF ok _ out assms(3), where key = key and garbage = garbage and v = v and added = "Some b" and tr = t] assms(4) T(2,4) by auto
  obtain c where c: "T = plug c Leaf" "ins ?e T = plug c (Node Leaf ?e Leaf)" using ins_plug [OF key] by blast
  have "tree_ok h1 (plug c (Node Leaf ?e Leaf))"
    using h1(2) distinct_addrs_ins [OF key] T(1) out unfolding c(2) tree_ok_def by simp
  then obtain h2 where h2: "tree_treap_Adjust h1 new (root_addr (plug c (Node Leaf ?e Leaf))) =
      Some (h2, root_addr (adjust c (Node Leaf ?e Leaf)))" "tree_ok h2 (adjust c (Node Leaf ?e Leaf))"
    using tree_treap_Adjust_ok [of h1 c "Node Leaf ?e Leaf"] by auto
  have "heap_ordered (adjust c (Node Leaf ?e Leaf))"
    using T(3) heap_ordered_plug [of c Leaf] c(1) by (intro heap_ordered_adjust) auto
  moreover have "inorder (adjust c (Node Leaf ?e Leaf)) = ins_list ?e xs"
    using c(2) inorder_ins [of T ?e] T by simp
  moreover have "sorted_keys (ins_list ?e xs)" using sorted_ins_list [of ?e xs] assms(4) T(5) by simp
  ultimately have "tree_rel (h2, t\<lparr>t_size := t_size t + 1, t_root := root_addr (adjust c (Node Leaf ?e Leaf))\<rparr>,
      snd (random_Rand v)) (ins_list ?e xs)"
    using h2(2) unfolding tree_rel_def by (intro exI [of _ "adjust c (Node Leaf ?e Leaf)"]) simp
  moreover have "tree_InsertNode at_null new garbage key (Some b) (h, t, v) =
      Some (new, Some True, h2, t\<lparr>t_size := t_size t + 1, t_root := root_addr (adjust c (Node Leaf ?e Leaf))\<rparr>,
        snd (random_Rand v))"
    using h1(1) h2(1) c(2) by (simp add: tree_InsertNode_def)
  ultimately show ?thesis by simp
qed

lemma tree_InsertNode_old:
  assumes "tree_rel (h, t, v) xs" and "key \<in> set (keys xs)"
  shows "tree_InsertNode at_null new garbage key (Some b) (h, t, v) =
    Some (find_addr key xs, Some False, h, t, v)"
proof -
  obtain T where T: "tree_ok h T" "t_root t = root_addr T" "inorder T = xs" "sorted_keys xs"
    using assms(1) by (rule tree_relE)
  obtain e where e: "e \<in> set xs" "e_key e = key" using assms(2) by auto
  have "sorted_keys xs \<Longrightarrow> find_addr key xs = e_addr e"
    using e by (induction xs) (auto simp: find_addr_def)
  with tree_InsertNodes_found [of h NULL T e key new garbage "Some b" t v] T e show ?thesis
    by (simp add: tree_InsertNode_def tree_ok_def)
qed

lemma tree_Delete_rel:
  assumes "tree_rel (h, t, v) (xs @ e # ys)"
  shows "\<exists>h' t'. tree_Delete (e_addr e) (h, t) = Some (h', t') \<and> tree_rel (h', t', v) (xs @ ys) \<and>
    t_size t' = t_size t \<and> h' (e_addr e) = None"
proof -
  obtain T where T: "tree_ok h T" "t_root t = root_addr T" "heap_ordered T" "inorder T = xs @ e # ys"
      "sorted_keys (xs @ e # ys)" using assms by (rule tree_relE)
  obtain c l r where c: "T = plug c (Node l e r)" "ctx_pre c @ inorder l = xs" "inorder r @ ctx_post c = ys"
    using inorder_split [OF T(4)] T(1) by (auto simp: tree_ok_def)
  obtain h' T' where d: "tree_Delete (e_addr e) (h, t) = Some (h', t\<lparr>t_root := root_addr T'\<rparr>)" "tree_ok h' T'"
      "inorder T' = ctx_pre c @ inorder l @ inorder r @ ctx_post c" "heap_ordered T'" "h' (e_addr e) = None"
    using tree_Delete_ok [OF T(1) [unfolded c(1)], of t] T(2,3) c(1) by auto
  have "inorder T' = xs @ ys" using d(3) c(2,3) by (metis append.assoc)
  moreover have "sorted_keys (xs @ ys)" using T(5) by (auto simp: sorted_wrt_append)
  ultimately show ?thesis using d by (auto simp: tree_rel_def)
qed

lemma tree_Find_rel: "tree_rel (h, t, v) xs \<Longrightarrow> tree_FindNode h t key = Some (find_addr key xs)"
  by (auto elim!: tree_relE simp: tree_FindNode_def tree_ok_def tree_FindNode_rec_ok)

lemma tree_First_rel: "tree_rel (h, t, v) xs \<Longrightarrow> tree_FirstNode h t = Some (first_addr xs)"
  by (auto elim!: tree_relE simp: tree_FirstNode_def tree_ok_def tree_leftmost_ok)

lemma tree_Last_rel: "tree_rel (h, t, v) xs \<Longrightarrow> tree_LastNode h t = Some (last_addr xs)"
  by (auto elim!: tree_relE simp: tree_LastNode_def tree_ok_def tree_rightmost_ok)

lemma tree_Next_rel: "tree_rel (h, t, v) (xs @ e # ys) \<Longrightarrow> tree_Node_Next h (e_addr e) = Some (first_addr ys)"
  by (auto elim!: tree_relE simp: tree_Node_Next_ok)

text \<open>The container implements the contract, with a pointer passed for \<^verbatim>\<open>added\<close>.\<close>

definition tree_insert_op :: "addr \<Rightarrow> 'd \<Rightarrow> u64 \<Rightarrow> 'd tree_state \<Rightarrow> (addr \<times> bool \<times> 'd tree_state) option" where
  "tree_insert_op new garbage key s = do {
     (p, added, s) \<leftarrow> tree_InsertNode False new garbage key (Some False) s;
     b \<leftarrow> added;
     Some (p, b, s)
   }"

definition tree_delete_op :: "addr \<Rightarrow> 'd tree_state \<Rightarrow> 'd tree_state option" where
  "tree_delete_op p s = (let (h, t, v) = s in do { (h, t) \<leftarrow> tree_Delete p (h, t); Some (h, t, v) })"

interpretation tn: ordered_nodes tree_rel tree_insert_op "\<lambda>(h, t, v). tree_FindNode h t" tree_delete_op
  "\<lambda>(h, t, v). tree_FirstNode h t" "\<lambda>(h, t, v). tree_Node_Next h"
  "\<lambda>(h, t, v) p. h p = None \<and> p \<noteq> NULL" "\<lambda>(h, t, v) new d key. new_entry new d key v"
proof unfold_locales
  fix s :: "'a tree_state" and xs ys :: "'a entry list" and e :: "'a entry" and key new :: u64 and d :: 'a
  obtain h t v where s: "s = (h, t, v)" by (cases s) auto
  show "tree_rel s xs \<Longrightarrow> sorted_keys xs" by (auto simp: tree_rel_def)
  show "e_addr e \<noteq> NULL" if "tree_rel s xs" "e \<in> set xs"
    using that repr_not_null by (fastforce simp: tree_rel_def tree_ok_def addrs_def)
  show "e_key ((\<lambda>(h, t, v) new d key. new_entry new d key v) s new d key) = key"
    and "e_addr ((\<lambda>(h, t, v) new d key. new_entry new d key v) s new d key) = new" by (simp_all add: s)
  show "\<exists>s'. tree_insert_op new d key s = Some (new, True, s') \<and>
      tree_rel s' (ins_list ((\<lambda>(h, t, v) new d key. new_entry new d key v) s new d key) xs)"
    if "tree_rel s xs" "(\<lambda>(h, t, v) p. h p = None \<and> p \<noteq> NULL) s new" "key \<notin> set (keys xs)"
    using tree_InsertNode_new [of h t v xs new key False d False] that by (auto simp: s tree_insert_op_def)
  show "tree_insert_op new d key s = Some (find_addr key xs, False, s)"
    if "tree_rel s xs" "key \<in> set (keys xs)"
    using that by (simp add: s tree_insert_op_def tree_InsertNode_old)
  show "(\<lambda>(h, t, v). tree_FindNode h t) s key = Some (find_addr key xs)" if "tree_rel s xs"
    using that by (simp add: s tree_Find_rel)
  show "\<exists>s'. tree_delete_op (e_addr e) s = Some s' \<and> tree_rel s' (xs @ ys)" if "tree_rel s (xs @ e # ys)"
    using tree_Delete_rel [of h t v xs e ys] that by (auto simp: s tree_delete_op_def)
  show "(\<lambda>(h, t, v). tree_FirstNode h t) s = Some (first_addr xs)" if "tree_rel s xs"
    using that by (simp add: s tree_First_rel)
  show "(\<lambda>(h, t, v). tree_Node_Next h) s (e_addr e) = Some (first_addr ys)" if "tree_rel s (xs @ e # ys)"
    using that by (simp add: s tree_Next_rel)
qed

section \<open>Properties\<close>

text \<open>A container with the keys 2 and 5, to evaluate the properties on.\<close>

definition demo_tree :: "nat tree_state" where
  "demo_tree = ([0x100 \<mapsto> \<lparr>n_key = 5, n_left = 0x200, n_right = 0, n_father = 0, n_internal = 3, n_data = 50\<rparr>,
     0x200 \<mapsto> \<lparr>n_key = 2, n_left = 0, n_right = 0, n_father = 0x100, n_internal = 7, n_data = 20\<rparr>],
     \<lparr>t_objectSize = 8, t_root = 0x100, t_size = 2\<rparr>, 1)"

definition demo_entries :: "nat entry list" where
  "demo_entries = [Entry 0x200 2 7 20, Entry 0x100 5 3 50]"

lemma demo_tree_rel: "tree_rel demo_tree demo_entries"
  unfolding tree_rel_def
  by (rule exI [of _ "Node (Node Leaf (Entry 0x200 2 7 20) Leaf) (Entry 0x100 5 3 50) Leaf"])
     (simp add: demo_tree_def demo_entries_def tree_ok_def node_of_def)

text \<open>
  C1: insertion with a pointer for \<^verbatim>\<open>added\<close> refines insertion into the list of entries ordered by
  key. A key already present returns its node and changes nothing; a new key returns the fresh
  node, sets \<^verbatim>\<open>*added\<close>, counts it, and the heap holds a treap again: keys in search order, random
  priorities in heap order, father pointers consistent. No access faults and the rotations end.
\<close>

theorem tree_InsertNode_refines:
  assumes "tree_rel (h, t, v) xs" and "h new = None" and "new \<noteq> NULL"
  shows "if key \<in> set (keys xs)
    then tree_InsertNode at_null new garbage key (Some b) (h, t, v) = Some (find_addr key xs, Some False, h, t, v)
    else \<exists>h' t'. tree_InsertNode at_null new garbage key (Some b) (h, t, v) =
           Some (new, Some True, h', t', snd (random_Rand v)) \<and>
         tree_rel (h', t', snd (random_Rand v)) (ins_list (new_entry new garbage key v) xs) \<and>
         t_size t' = t_size t + 1"
  using tree_InsertNode_new [OF assms] tree_InsertNode_old [OF assms(1)] by simp

theorem tree_InsertNode_refines_witness:
  "\<exists>h' t' v'. tree_InsertNode False 0x300 0 3 (Some False) demo_tree = Some (0x300, Some True, h', t', v') \<and>
     (\<exists>e. e_addr e = 0x300 \<and> e_key e = 3 \<and>
       tree_rel (h', t', v') [Entry 0x200 2 7 20, e, Entry 0x100 5 3 50])"
proof -
  obtain h t v where d: "demo_tree = (h, t, v)" "h 0x300 = None" by (cases demo_tree) (auto simp: demo_tree_def)
  have "tree_rel (h, t, v) demo_entries" using demo_tree_rel d by simp
  from tree_InsertNode_refines [OF this d(2), of 3 False 0 False]
  show ?thesis by (auto simp: d(1) demo_entries_def intro!: exI [of _ "new_entry 0x300 0 3 v"])
qed

text \<open>
  C2: deletion refines removal from the ordered list. Whatever the position of the node, the
  rotations of \<^verbatim>\<open>tree_Delete\<close> end, exactly that entry disappears, the rest is a treap again and the
  node is freed; but the counter \<^verbatim>\<open>size\<close> keeps its old value.
\<close>

theorem tree_Delete_refines:
  assumes "tree_rel (h, t, v) (xs @ e # ys)"
  shows "\<exists>h' t'. tree_Delete (e_addr e) (h, t) = Some (h', t') \<and> tree_rel (h', t', v) (xs @ ys) \<and>
    t_size t' = t_size t \<and> h' (e_addr e) = None"
  using assms by (rule tree_Delete_rel)

theorem tree_Delete_refines_witness:
  "\<exists>h' t'. tree_Delete 0x100 (fst demo_tree, fst (snd demo_tree)) = Some (h', t') \<and>
     tree_rel (h', t', 1) [Entry 0x200 2 7 20] \<and> t_size t' = 2"
proof -
  obtain h t where d: "demo_tree = (h, t, 1)" "t_size t = 2" by (auto simp: demo_tree_def)
  have "tree_rel (h, t, 1) ([Entry 0x200 2 7 20] @ Entry 0x100 5 3 50 # [])"
    using demo_tree_rel d by (simp add: demo_entries_def)
  from tree_Delete_refines [OF this] show ?thesis by (auto simp: d)
qed

text \<open>
  C19: iteration. Following \<^verbatim>\<open>tree_Node_Next\<close> from \<^verbatim>\<open>tree_FirstNode\<close> visits every node exactly once, in
  increasing order of the keys, and then reaches the null pointer.
\<close>

theorem tree_iteration_in_order:
  assumes "tree_rel (h, t, v) xs"
  shows "do { p \<leftarrow> tree_FirstNode h t; tn.walk (length xs) (h, t, v) p } = Some (map e_addr xs) \<and> sorted_keys xs"
  using tn.walk_all [OF assms] tn.rel_sorted [OF assms] by simp

theorem tree_iteration_in_order_witness:
  "do { p \<leftarrow> tree_FirstNode (fst demo_tree) (fst (snd demo_tree)); tn.walk 2 demo_tree p } = Some [0x200, 0x100]"
proof -
  obtain h t v where d: "demo_tree = (h, t, v)" by (cases demo_tree) auto
  have "tree_rel (h, t, v) demo_entries" using demo_tree_rel d by simp
  from tree_iteration_in_order [OF this] show ?thesis
    by (simp add: d demo_entries_def numeral_2_eq_2)
qed

text \<open>
  A key inserted is found at its node, and every other key is found where it was: the lookup
  after the insertion and its rotations agrees with the lookup before it.
\<close>

theorem tree_insert_find:
  assumes "tree_rel (h, t, v) xs" and "h new = None" and "new \<noteq> NULL" and "key \<notin> set (keys xs)"
  shows "\<exists>h' t' v'. tree_InsertNode False new garbage key (Some False) (h, t, v) = Some (new, Some True, h', t', v') \<and>
     tree_FindNode h' t' key = Some new \<and>
     (\<forall>k \<in> set (keys xs). tree_FindNode h' t' k = tree_FindNode h t k)"
  using tn.insert_then_find [OF assms(1) _ assms(4), of new garbage] assms(2,3)
  by (auto simp: tree_insert_op_def split: bind_splits)

theorem tree_insert_find_witness:
  "\<exists>h' t' v'. tree_InsertNode False 0x300 0 9 (Some False) demo_tree = Some (0x300, Some True, h', t', v') \<and>
     tree_FindNode h' t' 9 = Some 0x300 \<and> tree_FindNode h' t' 2 = Some 0x200"
proof -
  obtain h t v where d: "demo_tree = (h, t, v)" "h 0x300 = None" by (cases demo_tree) (auto simp: demo_tree_def)
  have r: "tree_rel (h, t, v) demo_entries" using demo_tree_rel d by simp
  have "tree_FindNode h t 2 = Some 0x200" using tree_Find_rel [OF r] by (simp add: demo_entries_def find_addr_def)
  with tree_insert_find [OF r d(2), of 9 0] show ?thesis by (auto simp: d(1) demo_entries_def)
qed

text \<open>
  With a null pointer for \<^verbatim>\<open>added\<close>, as the scheduler calls it, the balancing depends on the
  byte at address 0: when it is zero, the new node stays at the leaf the descent reached, and the
  container degenerates to an unbalanced search tree, whatever its priority.
\<close>

theorem tree_InsertNode_null_added_unbalanced:
  assumes "tree_ok h T" and "t_root t = root_addr T" and "sorted_keys (inorder T)"
    and "key \<notin> set (keys (inorder T))" and "h new = None" and "new \<noteq> NULL"
  shows "\<exists>h'. tree_InsertNode False new garbage key None (h, t, v) =
      Some (new, None, h', t\<lparr>t_size := t_size t + 1, t_root := root_addr (ins (new_entry new garbage key v) T)\<rparr>,
        snd (random_Rand v)) \<and>
    tree_ok h' (ins (new_entry new garbage key v) T)"
proof -
  have ok: "repr h NULL T" "distinct (addrs T)" using assms(1) by (simp_all add: tree_ok_def)
  have out: "new \<notin> set (addrs T)" using ok assms(5) repr_allocated by blast
  obtain h' where h': "tree_InsertNodes new garbage key (root_addr T) NULL None (h, t, v) =
      Some (root_addr (ins (new_entry new garbage key v) T), new, None, h', t\<lparr>t_size := t_size t + 1\<rparr>,
        snd (random_Rand v))" "repr h' NULL (ins (new_entry new garbage key v) T)"
    using tree_InsertNodes_new [OF ok assms(4) out assms(6), where garbage = garbage and v = v
        and added = None and tr = t] by auto
  then show ?thesis
    using distinct_addrs_ins [of "new_entry new garbage key v" T] ok(2) out assms(2,4)
    by (simp add: tree_InsertNode_def tree_ok_def)
qed

theorem tree_InsertNode_null_added_unbalanced_witness:
  "\<exists>h' t' v' T'. tree_InsertNode False 0x300 0 9 None
       ([0x100 \<mapsto> \<lparr>n_key = 5, n_left = 0, n_right = 0, n_father = 0, n_internal = 2 ^ 40, n_data = 50 :: nat\<rparr>],
        \<lparr>t_objectSize = 8, t_root = 0x100, t_size = 1\<rparr>, 1) = Some (0x300, None, h', t', v') \<and>
     tree_ok h' T' \<and> t_root t' = root_addr T' \<and> \<not> heap_ordered T'"
proof -
  let ?h = "[0x100 \<mapsto> \<lparr>n_key = 5, n_left = 0, n_right = 0, n_father = 0, n_internal = 2 ^ 40, n_data = 50 :: nat\<rparr>]"
  let ?t = "\<lparr>t_objectSize = 8, t_root = 0x100, t_size = 1\<rparr>" and ?T = "Node Leaf (Entry 0x100 5 (2 ^ 40) 50) Leaf"
  let ?T' = "ins (new_entry 0x300 0 9 1) ?T"
  have "tree_ok ?h ?T" "t_root ?t = root_addr ?T" by (simp_all add: tree_ok_def node_of_def)
  from tree_InsertNode_null_added_unbalanced [OF this, where key = 9 and new = "0x300" and garbage = 0 and v = 1] obtain h' where
    "tree_InsertNode False 0x300 0 9 None (?h, ?t, 1) =
       Some (0x300, None, h', ?t\<lparr>t_size := 2, t_root := root_addr ?T'\<rparr>, snd (random_Rand 1))" "tree_ok h' ?T'"
    by auto
  moreover have "\<not> heap_ordered ?T'"
    by (simp add: new_entry_def random_Rand_def random_a_def random_c_def random_m_def)
  ultimately show ?thesis by fastforce
qed

text \<open>
  C20: \<^verbatim>\<open>tree_Destroy\<close> frees every node of the container and the tree object exactly once: it succeeds,
  where freeing something a second time or touching a node after it is freed would be a fault; afterwards
  the nodes and the tree object are gone, and everything else is as it was.
\<close>

theorem tree_Destroy_frees_all:
  assumes "tree_rel (h, t, v) xs" and "trees tree = Some t"
  shows "tree_Destroy tree (h, trees) = Some (\<lambda>p. if p \<in> e_addr ` set xs then None else h p, trees(tree := None))"
proof -
  obtain T where T: "tree_ok h T" "t_root t = root_addr T" "inorder T = xs" using assms(1) by (rule tree_relE)
  have "free_all (addrs T) h = (\<lambda>p. if p \<in> e_addr ` set xs then None else h p)"
    by (simp add: free_all_def addrs_def T(3) [symmetric])
  moreover have "tree_Destroy tree (h, trees) = Some (free_all (addrs T) h, trees(tree := None))"
    using T tree_DestroyNodes_ok [of h NULL T] assms(2)
    by (cases "T = Leaf") (auto simp: tree_Destroy_def tree_ok_def free_all_def kFree_def)
  ultimately show ?thesis by simp
qed

theorem tree_Destroy_frees_all_witness:
  "tree_Destroy 0x500 (fst demo_tree, [0x500 \<mapsto> fst (snd demo_tree)]) = Some (\<lambda>p. None, \<lambda>p. None)"
proof -
  obtain h t v where d: "demo_tree = (h, t, v)" "\<And>p. p \<noteq> 0x100 \<Longrightarrow> p \<noteq> 0x200 \<Longrightarrow> h p = None"
    by (cases demo_tree) (auto simp: demo_tree_def)
  have "tree_rel (h, t, v) demo_entries" using demo_tree_rel d by simp
  from tree_Destroy_frees_all [OF this, of "[0x500 \<mapsto> t]" "0x500"] show ?thesis by (auto simp: d demo_entries_def fun_eq_iff)
qed

end
