(* ===== verification/Unicode.thy ===== *)
theory Unicode
  imports Numeric
begin

text \<open>
  The UTF-8 coder of \<^verbatim>\<open>src/runtime/unicode.c\<close>. The buffers are byte memory; the output pointer of the
  decoder is \<open>None\<close> when it is null. The fall-through switches are recursions over the number of
  bytes still to go.
\<close>

section \<open>The code\<close>

definition HELOS_UNICODE_ERROR :: u32 where "HELOS_UNICODE_ERROR = 0xfffd"
definition HELOS_UNICODE_MAX :: u32 where "HELOS_UNICODE_MAX = 0x10ffff"
definition HELOS_UTF8_CONTINUATION_MIN :: u8 where "HELOS_UTF8_CONTINUATION_MIN = 0xc0"
definition HELOS_UTF8_OVERLONG_LEADER_2 :: u8 where "HELOS_UTF8_OVERLONG_LEADER_2 = 0xc1"
definition HELOS_UTF8_INVALID_LEADER_MIN :: u8 where "HELOS_UTF8_INVALID_LEADER_MIN = 0xf5"
definition HELOS_UTF8_INVALID_LEADER_MAX :: u8 where "HELOS_UTF8_INVALID_LEADER_MAX = 0xff"

lemmas utf8_constants = HELOS_UNICODE_ERROR_def HELOS_UNICODE_MAX_def HELOS_UTF8_CONTINUATION_MIN_def
  HELOS_UTF8_OVERLONG_LEADER_2_def HELOS_UTF8_INVALID_LEADER_MIN_def HELOS_UTF8_INVALID_LEADER_MAX_def

definition utf8_trailing :: "nat list" where
  "utf8_trailing = replicate 192 0 @ replicate 32 1 @ replicate 16 2 @ replicate 8 3 @
     replicate 4 4 @ replicate 4 5"

definition utf8_offsets :: "u32 list" where
  "utf8_offsets = [0x00000000, 0x00003080, 0x000E2080, 0x03C82080, 0xFA082080, 0x82082080]"

fun utf8_Decode_switch :: "nat \<Rightarrow> mem \<Rightarrow> addr \<Rightarrow> u32 \<Rightarrow> u32" where
  "utf8_Decode_switch 0 m utf8 out = out + ucast (m utf8)"
| "utf8_Decode_switch (Suc n) m utf8 out =
     utf8_Decode_switch n m (utf8 + 1) (push_bit 6 (out + ucast (m utf8)))"

definition utf8_Decode :: "mem \<Rightarrow> addr \<Rightarrow> u64 \<Rightarrow> u32 option \<Rightarrow> u64 \<times> u32 option" where
  "utf8_Decode m utf8 len codepoint =
     (let first = m utf8; trailingBytes = utf8_trailing ! unat first in
      if (first \<ge> HELOS_UTF8_CONTINUATION_MIN \<and> first \<le> HELOS_UTF8_OVERLONG_LEADER_2) \<or>
         (first \<ge> HELOS_UTF8_INVALID_LEADER_MIN \<and> first \<le> HELOS_UTF8_INVALID_LEADER_MAX) \<or>
         of_nat (trailingBytes + 1) > len
      then (1, map_option (\<lambda>_. HELOS_UNICODE_ERROR) codepoint)
      else (of_nat (trailingBytes + 1),
            map_option (\<lambda>_. utf8_Decode_switch trailingBytes m utf8 0 - utf8_offsets ! trailingBytes) codepoint))"

definition utf8_EncodeLength :: "u32 \<Rightarrow> nat" where
  "utf8_EncodeLength codepoint =
     (if codepoint \<le> 0x007f then 1 else if codepoint \<le> 0x07ff then 2
      else if codepoint \<le> 0xffff then 3 else if codepoint \<le> 0x10ffff then 4 else 0)"

definition utf8_firstBytes :: "u32 list" where
  "utf8_firstBytes = [0x00, 0x00, 0xC0, 0xE0, 0xF0, 0xF8, 0xFC]"

text \<open>\<open>utf8_Encode_switch len n\<close>: the cases \<open>n\<close> down to 1, with the leader chosen by \<open>len\<close>.\<close>

fun utf8_Encode_switch :: "nat \<Rightarrow> nat \<Rightarrow> mem \<Rightarrow> addr \<Rightarrow> u32 \<Rightarrow> mem" where
  "utf8_Encode_switch len 0 m utf8 codepoint = m"
| "utf8_Encode_switch len (Suc 0) m utf8 codepoint = m(utf8 := ucast (codepoint OR utf8_firstBytes ! len))"
| "utf8_Encode_switch len (Suc (Suc n)) m utf8 codepoint =
     utf8_Encode_switch len (Suc n) (m(utf8 + of_nat (Suc n) := ucast ((codepoint OR 0x80) AND 0xBF)))
       utf8 (drop_bit 6 codepoint)"

definition utf8_Encode :: "mem \<Rightarrow> addr \<Rightarrow> u32 \<Rightarrow> nat \<times> mem" where
  "utf8_Encode m utf8 codepoint =
     (let codepoint = (if codepoint > HELOS_UNICODE_MAX then HELOS_UNICODE_ERROR else codepoint);
          len = utf8_EncodeLength codepoint in
      (len, utf8_Encode_switch len len m utf8 codepoint))"

section \<open>Bytes as numbers\<close>

lemma unat_ucast_u8: "unat (ucast (x :: u32) :: u8) = unat x mod 256"
  by (simp add: unsigned_ucast_eq take_bit_eq_mod)

lemma continuation_word: "(x OR 0x80) AND 0xBF = (0x80 OR (x AND 0x3F) :: u32)"
proof -
  have "(0xBF :: u32) = 0x3F OR 0x80" by simp
  then show ?thesis by (simp only: bit_eq_iff bit_and_iff bit_or_iff) blast
qed

text \<open>An OR with a constant above all bits of the operand is a sum.\<close>

lemma or_add_mask:
  assumes "unat (x :: u32) < 2 ^ k" and "take_bit k c = 0" and "unat c + unat x < 2 ^ 32"
  shows "unat (c OR x) = unat c + unat x"
proof -
  have "unat (take_bit k x) = unat x" using assms(1) by (simp add: unsigned_take_bit_eq take_bit_nat_eq_self)
  then have x: "x AND mask k = x" unfolding take_bit_eq_mask word_unat_eq_iff .
  have c: "c AND mask k = 0" using assms(2) unfolding take_bit_eq_mask .
  have "c AND x = c AND (x AND mask k)" by (simp only: x)
  also have "\<dots> = (c AND mask k) AND x" by (simp only: and.assoc and.commute and.left_commute)
  finally have "c AND x = 0" by (simp add: c)
  then have "c OR x = c + x" by (simp add: disjunctive_add_eq_or)
  then show ?thesis using assms(3) by (simp add: unat_word_ariths)
qed

lemma unat_continuation: "unat (ucast ((x OR 0x80) AND 0xBF :: u32) :: u8) = 128 + unat x mod 64"
proof -
  have "x AND 0x3F = take_bit 6 x" by (simp add: take_bit_eq_mask mask_numeral)
  then have m: "unat (x AND 0x3F) = unat x mod 64" by (simp add: take_bit_eq_mod unat_mod)
  have "unat (0x80 OR (x AND 0x3F)) = 128 + unat x mod 64"
    using or_add_mask [of "x AND 0x3F" 6 "0x80"] m by simp
  then show ?thesis by (simp add: unat_ucast_u8 continuation_word)
qed

lemma unat_leader:
  assumes "unat (x :: u32) < 2 ^ k" and "take_bit k c = 0" and "unat c + unat x < 256"
  shows "unat (ucast (x OR c) :: u8) = unat c + unat x"
  using or_add_mask [of x k c] assms by (simp add: unat_ucast_u8 or.commute)

lemma unat_shift6: "unat (drop_bit 6 (x :: u32)) = unat x div 64"
  by (simp add: drop_bit_eq_div unat_div)

lemma unat_shift12: "unat (drop_bit 12 (x :: u32)) = unat x div 4096"
  by (simp add: drop_bit_eq_div unat_div)

lemma unat_shift18: "unat (drop_bit 18 (x :: u32)) = unat x div 262144"
  by (simp add: drop_bit_eq_div unat_div)

lemma unat_lt_u8 [simp]: "unat (b :: u8) < 256"
  using unsigned_less [of b] by simp

lemma ucast_u8_of_nat: "(ucast (b :: u8) :: u32) = of_nat (unat b)"
  by simp

lemma push_bit6: "push_bit 6 (x :: u32) = x * 64"
  by (simp add: push_bit_eq_mult)

lemma utf8_trailing_nth:
  "n < 192 \<Longrightarrow> utf8_trailing ! n = 0"
  "192 \<le> n \<Longrightarrow> n < 224 \<Longrightarrow> utf8_trailing ! n = 1"
  "224 \<le> n \<Longrightarrow> n < 240 \<Longrightarrow> utf8_trailing ! n = 2"
  "240 \<le> n \<Longrightarrow> n < 248 \<Longrightarrow> utf8_trailing ! n = 3"
  by (auto simp: utf8_trailing_def nth_append)

text \<open>The number a sequence with \<open>n\<close> continuation bytes stands for, before the offset is taken off.\<close>

fun utf8_sum :: "nat \<Rightarrow> mem \<Rightarrow> addr \<Rightarrow> nat \<Rightarrow> nat" where
  "utf8_sum 0 m p acc = acc + unat (m p)"
| "utf8_sum (Suc n) m p acc = utf8_sum n m (p + 1) ((acc + unat (m p)) * 64)"

lemma utf8_Decode_switch_sum:
  "utf8_Decode_switch n m p (of_nat acc) = of_nat (utf8_sum n m p acc)"
proof (induction n arbitrary: p acc)
  case (Suc n)
  have "push_bit 6 (of_nat acc + ucast (m p)) = (of_nat ((acc + unat (m p)) * 64) :: u32)"
    by (simp add: push_bit6)
  then show ?case using Suc [of "p + 1" "(acc + unat (m p)) * 64"] by (simp only: utf8_Decode_switch.simps utf8_sum.simps)
qed simp

lemma utf8_Decode_valid:
  assumes "m p \<noteq> 0xc0" and "m p \<noteq> 0xc1" and "unat (m p) < 245"
    and "utf8_trailing ! unat (m p) = n" and "of_nat (n + 1) \<le> len"
    and "utf8_sum n m p 0 = unat c + unat (utf8_offsets ! n)"
  shows "utf8_Decode m p len (Some x) = (of_nat (n + 1), Some c)"
proof -
  have "\<not> (m p \<ge> 0xc0 \<and> m p \<le> 0xc1)"
  proof
    assume "m p \<ge> 0xc0 \<and> m p \<le> 0xc1"
    then have "unat (m p) = 192 \<or> unat (m p) = 193" by (auto simp: word_le_nat_alt)
    then have "m p = 0xc0 \<or> m p = 0xc1" by (auto simp: word_unat_eq_iff)
    with assms(1,2) show False by blast
  qed
  moreover have "\<not> m p \<ge> 0xf5" using assms(3) by (simp add: word_le_nat_alt)
  moreover have "utf8_Decode_switch n m p 0 - utf8_offsets ! n = c"
    using utf8_Decode_switch_sum [of n m p 0] assms(6) by simp
  ultimately show ?thesis using assms(4,5) by (auto simp: utf8_Decode_def utf8_constants not_less Let_def)
qed

section \<open>Decoding what was encoded\<close>

abbreviation cont :: "u32 \<Rightarrow> u8" where
  "cont c \<equiv> ucast ((c OR 0x80) AND 0xBF)"

abbreviation leader :: "nat \<Rightarrow> u32 \<Rightarrow> u8" where
  "leader len c \<equiv> ucast (c OR utf8_firstBytes ! len)"

lemma encode_switch_unfold:
  "utf8_Encode_switch len 1 m p c = m(p := leader len c)"
  "utf8_Encode_switch len 2 m p c = m(p + 1 := cont c, p := leader len (drop_bit 6 c))"
  "utf8_Encode_switch len 3 m p c = m(p + 2 := cont c, p + 1 := cont (drop_bit 6 c),
     p := leader len (drop_bit 6 (drop_bit 6 c)))"
  "utf8_Encode_switch len 4 m p c = m(p + 3 := cont c, p + 2 := cont (drop_bit 6 c),
     p + 1 := cont (drop_bit 6 (drop_bit 6 c)), p := leader len (drop_bit 6 (drop_bit 6 (drop_bit 6 c))))"
  by (simp_all add: numeral_2_eq_2 numeral_3_eq_3 eval_nat_numeral)

lemma unat_shifted:
  "unat (cont c) = 128 + unat c mod 64" "unat (cont (drop_bit 6 c)) = 128 + unat c div 64 mod 64"
  "unat (cont (drop_bit 6 (drop_bit 6 c))) = 128 + unat c div 4096 mod 64"
  "unat (drop_bit 6 (drop_bit 6 c)) = unat c div 4096"
  "unat (drop_bit 6 (drop_bit 6 (drop_bit 6 c))) = unat c div 262144"
  unfolding unat_continuation unat_shift6 by (simp_all add: div_mult2_eq [symmetric])

lemma sextets:
  "4096 * (c div 4096) + (c div 64 mod 64 * 64 + c mod 64) = (c :: nat)"
  "262144 * (c div 262144) + (4096 * (c div 4096 mod 64) + (c div 64 mod 64 * 64 + c mod 64)) = (c :: nat)"
proof -
  have d: "c div 4096 = c div 64 div 64" "c div 262144 = c div 64 div 64 div 64"
    by (simp_all add: div_mult2_eq [symmetric])
  show "4096 * (c div 4096) + (c div 64 mod 64 * 64 + c mod 64) = c"
    and "262144 * (c div 262144) + (4096 * (c div 4096 mod 64) + (c div 64 mod 64 * 64 + c mod 64)) = c"
    using div_mult_mod_eq [of c 64] div_mult_mod_eq [of "c div 64" 64] div_mult_mod_eq [of "c div 64 div 64" 64]
    unfolding d by linarith+
qed

lemma decode_encode_1:
  assumes "unat c \<le> 0x7f" and "0 < len"
  shows "utf8_Decode (utf8_Encode_switch 1 1 m p c) p len (Some x) = (1, Some c)"
proof -
  let ?m = "utf8_Encode_switch 1 1 m p c"
  have b: "unat (?m p) = unat c" using assms(1) by (simp add: utf8_firstBytes_def unat_ucast_u8)
  have "utf8_Decode ?m p len (Some x) = (of_nat (0 + 1), Some c)"
    using assms b
    by (intro utf8_Decode_valid) (auto simp: utf8_trailing_nth utf8_offsets_def word_unat_eq_iff word_le_nat_alt word_less_nat_alt)
  then show ?thesis by simp
qed

lemma decode_encode_2:
  assumes "0x80 \<le> unat c" and "unat c \<le> 0x7ff" and "2 \<le> len"
  shows "utf8_Decode (utf8_Encode_switch 2 2 m p c) p len (Some x) = (2, Some c)"
proof -
  define m' where "m' = utf8_Encode_switch 2 2 m p c"
  have b1: "unat (m' (p + 1)) = 128 + unat c mod 64"
    unfolding m'_def encode_switch_unfold by (simp add: unat_continuation)
  have "unat (leader 2 (drop_bit 6 c)) = 192 + unat c div 64"
    using assms(2) unat_leader [of "drop_bit 6 c" 5 "0xC0"]
    by (simp add: utf8_firstBytes_def unat_shift6 take_bit_eq_mod)
  then have b0: "unat (m' p) = 192 + unat c div 64" unfolding m'_def encode_switch_unfold by simp
  have "utf8_Decode m' p len (Some x) = (of_nat (1 + 1), Some c)"
  proof (rule utf8_Decode_valid)
    show "utf8_sum 1 m' p 0 = unat c + unat (utf8_offsets ! 1)"
      by (simp add: utf8_offsets_def b0 b1)
    show "m' p \<noteq> 0xc0" "m' p \<noteq> 0xc1" "unat (m' p) < 245" "utf8_trailing ! unat (m' p) = 1"
      using assms b0 by (auto simp: utf8_trailing_nth word_unat_eq_iff)
  qed (use assms in simp)
  then show ?thesis by (simp add: m'_def)
qed

lemma decode_encode_3:
  assumes "0x800 \<le> unat c" and "unat c \<le> 0xffff" and "3 \<le> len"
  shows "utf8_Decode (utf8_Encode_switch 3 3 m p c) p len (Some x) = (3, Some c)"
proof -
  define m' where "m' = utf8_Encode_switch 3 3 m p c"
  have b2: "unat (m' (2 + p)) = 128 + unat c mod 64" "unat (m' (p + 1)) = 128 + unat c div 64 mod 64"
    unfolding m'_def encode_switch_unfold
    by (simp_all add: add.commute [of p] unat_continuation unat_shift6 unat_shift12)
  have "unat (leader 3 (drop_bit 6 (drop_bit 6 c))) = 224 + unat c div 4096"
    using assms(2) unat_leader [of "drop_bit 6 (drop_bit 6 c)" 4 "0xE0"]
    by (simp add: utf8_firstBytes_def unat_shift12 unat_shift18 take_bit_eq_mod)
  then have b0: "unat (m' p) = 224 + unat c div 4096" unfolding m'_def encode_switch_unfold by simp
  have "utf8_Decode m' p len (Some x) = (of_nat (2 + 1), Some c)"
  proof (rule utf8_Decode_valid)
    have "utf8_sum 2 m' p 0 = utf8_sum (Suc (Suc 0)) m' p 0" by (simp add: numeral_2_eq_2)
    also have "\<dots> = unat c + unat (utf8_offsets ! 2)"
      using sextets(1) [of "unat c"] by (simp add: utf8_offsets_def b0 b2)
    finally show "utf8_sum 2 m' p 0 = unat c + unat (utf8_offsets ! 2)" .
    show "m' p \<noteq> 0xc0" "m' p \<noteq> 0xc1" "unat (m' p) < 245" "utf8_trailing ! unat (m' p) = 2"
      using assms b0 by (auto simp: utf8_trailing_nth word_unat_eq_iff)
  qed (use assms in simp)
  then show ?thesis by (simp add: m'_def)
qed

lemma decode_encode_4:
  assumes "0x10000 \<le> unat c" and "unat c \<le> 0x10ffff" and "4 \<le> len"
  shows "utf8_Decode (utf8_Encode_switch 4 4 m p c) p len (Some x) = (4, Some c)"
proof -
  define m' where "m' = utf8_Encode_switch 4 4 m p c"
  have b2: "unat (m' (3 + p)) = 128 + unat c mod 64"
      "unat (m' (2 + p)) = 128 + unat c div 64 mod 64" "unat (m' (p + 1)) = 128 + unat c div 4096 mod 64"
    unfolding m'_def encode_switch_unfold
    by (simp_all add: add.commute [of p] unat_continuation unat_shift6 unat_shift12)
  have "unat (leader 4 (drop_bit 6 (drop_bit 6 (drop_bit 6 c)))) = 240 + unat c div 262144"
    using assms(2) unat_leader [of "drop_bit 6 (drop_bit 6 (drop_bit 6 c))" 3 "0xF0"]
    by (simp add: utf8_firstBytes_def unat_shift12 unat_shift18 take_bit_eq_mod)
  then have b0: "unat (m' p) = 240 + unat c div 262144" unfolding m'_def encode_switch_unfold by simp
  have "utf8_Decode m' p len (Some x) = (of_nat (3 + 1), Some c)"
  proof (rule utf8_Decode_valid)
    have "utf8_sum 3 m' p 0 = utf8_sum (Suc (Suc (Suc 0))) m' p 0" by (simp add: numeral_3_eq_3)
    also have "\<dots> = unat c + unat (utf8_offsets ! 3)"
      using sextets(2) [of "unat c"] by (simp add: utf8_offsets_def b0 b2)
    finally show "utf8_sum 3 m' p 0 = unat c + unat (utf8_offsets ! 3)" .
    show "m' p \<noteq> 0xc0" "m' p \<noteq> 0xc1" "unat (m' p) < 245" "utf8_trailing ! unat (m' p) = 3"
      using assms b0 by (auto simp: utf8_trailing_nth word_unat_eq_iff)
  qed (use assms in simp)
  then show ?thesis by (simp add: m'_def)
qed

lemma utf8_decode_encode:
  assumes "utf8_Encode m utf8 codepoint = (n, m')" and "of_nat n \<le> len"
  shows "1 \<le> n \<and> n \<le> 4 \<and> utf8_Decode m' utf8 len (Some x) =
    (of_nat n, Some (if codepoint \<le> HELOS_UNICODE_MAX then codepoint else HELOS_UNICODE_ERROR))"
proof -
  define c where "c = (if codepoint > HELOS_UNICODE_MAX then HELOS_UNICODE_ERROR else codepoint)"
  have bound: "unat c \<le> 0x10ffff"
    by (auto simp: c_def utf8_constants word_le_nat_alt not_less split: if_splits)
  have n: "n = utf8_EncodeLength c" "m' = utf8_Encode_switch n n m utf8 c"
    using assms(1) by (auto simp: utf8_Encode_def c_def Let_def)
  consider "unat c \<le> 0x7f" | "0x80 \<le> unat c" "unat c \<le> 0x7ff" | "0x800 \<le> unat c" "unat c \<le> 0xffff"
    | "0x10000 \<le> unat c" using bound by linarith
  then have "1 \<le> n \<and> n \<le> 4 \<and> utf8_Decode m' utf8 len (Some x) = (of_nat n, Some c)"
  proof cases
    case 1
    then have "n = 1" using n(1) by (simp add: utf8_EncodeLength_def word_le_nat_alt)
    moreover from this have "0 < len" using assms(2) by (simp add: word_le_nat_alt word_less_nat_alt)
    ultimately show ?thesis using decode_encode_1 [OF 1, of len m utf8 x] n(2) by simp
  next
    case 2
    then have "n = 2" using n(1) by (simp add: utf8_EncodeLength_def word_le_nat_alt)
    with 2 n(2) assms(2) show ?thesis by (simp add: decode_encode_2)
  next
    case 3
    then have "n = 3" using n(1) by (simp add: utf8_EncodeLength_def word_le_nat_alt)
    with 3 n(2) assms(2) show ?thesis by (simp add: decode_encode_3)
  next
    case 4
    then have "n = 4" using n(1) bound by (simp add: utf8_EncodeLength_def word_le_nat_alt)
    with 4 bound n(2) assms(2) show ?thesis by (simp add: decode_encode_4)
  qed
  then show ?thesis by (simp add: c_def not_less [symmetric])
qed

lemma utf8_trailing_bound: "unat b < 245 \<Longrightarrow> utf8_trailing ! unat (b :: u8) \<le> 3"
  by (auto simp: utf8_trailing_def nth_append)

lemma utf8_Decode_switch_cong:
  "(\<And>i. i \<le> n \<Longrightarrow> m' (p + of_nat i) = m (p + of_nat i)) \<Longrightarrow>
     utf8_Decode_switch n m' p out = utf8_Decode_switch n m p out"
proof (induction n arbitrary: p out)
  case (Suc n)
  have "m' (p + 1 + of_nat i) = m (p + 1 + of_nat i)" if "i \<le> n" for i
    using Suc.prems [of "Suc i"] that by (simp add: add.assoc)
  moreover have "m' p = m p" using Suc.prems [of 0] by simp
  ultimately show ?case using Suc.IH by simp
qed simp

lemma utf8_Decode_advance:
  assumes "0 < len" and "utf8_Decode m utf8 len cp = (n, r)"
  shows "1 \<le> n \<and> n \<le> 4 \<and> n \<le> len \<and>
    (\<forall>m'. (\<forall>i < unat n. m' (utf8 + of_nat i) = m (utf8 + of_nat i)) \<longrightarrow> utf8_Decode m' utf8 len cp = (n, r))"
proof -
  let ?t = "utf8_trailing ! unat (m utf8)"
  have one: "1 \<le> len" using assms(1) by (simp add: word_le_nat_alt word_less_nat_alt)
  show ?thesis
  proof (cases "(m utf8 \<ge> 0xc0 \<and> m utf8 \<le> 0xc1) \<or> m utf8 \<ge> 0xf5 \<or> of_nat (?t + 1) > len")
    case True
    moreover have "m utf8 \<le> 0xff" using unat_lt_u8 [of "m utf8"] by (simp add: word_le_nat_alt del: unat_lt_u8)
    ultimately have *: "utf8_Decode m' utf8 len cp = (1, map_option (\<lambda>_. HELOS_UNICODE_ERROR) cp)"
      if "m' utf8 = m utf8" for m'
      using that by (auto simp: utf8_Decode_def utf8_constants Let_def)
    show ?thesis using assms(2) * one by auto
  next
    case False
    then have t3: "?t \<le> 3" by (intro utf8_trailing_bound) (simp add: word_le_nat_alt)
    define t where "t = ?t"
    have un: "unat (of_nat (t + 1) :: u64) = t + 1" using t3 unfolding t_def by (intro unat_of_nat_u64) simp
    have *: "utf8_Decode m' utf8 len cp = (of_nat (t + 1),
        map_option (\<lambda>_. utf8_Decode_switch t m' utf8 0 - utf8_offsets ! t) cp)" if "m' utf8 = m utf8" for m'
      using that False unfolding utf8_Decode_def utf8_constants Let_def t_def by auto
    have n: "n = of_nat (t + 1)" using assms(2) * [of m] by simp
    have len: "unat n = t + 1" unfolding n by (rule un)
    have "utf8_Decode m' utf8 len cp = (n, r)"
      if "\<forall>i < unat n. m' (utf8 + of_nat i) = m (utf8 + of_nat i)" for m'
    proof -
      have eq: "m' utf8 = m utf8" using that [rule_format, of 0] len by simp
      have "utf8_Decode_switch t m' utf8 0 = utf8_Decode_switch t m utf8 0"
        by (rule utf8_Decode_switch_cong) (use that len in simp)
      then show ?thesis using * [of m'] * [of m] eq assms(2) by simp
    qed
    moreover have "1 \<le> n" "n \<le> 4" using len t3 t_def by (simp_all add: word_le_nat_alt)
    moreover have "n \<le> len" using False unfolding n t_def not_less de_Morgan_disj by blast
    ultimately show ?thesis by blast
  qed
qed

section \<open>The bytes of a code point\<close>

lemma utf8_Decode_shift: "utf8_Decode m (p + q) len cp = utf8_Decode (\<lambda>a. m (p + a)) q len cp"
proof -
  have *: "utf8_Decode_switch n m (p + q) out = utf8_Decode_switch n (\<lambda>a. m (p + a)) q out" for n q out
  proof (induction n arbitrary: q out)
    case (Suc n)
    then show ?case using Suc [of "q + 1"] by (simp add: add.assoc)
  qed simp
  show ?thesis unfolding utf8_Decode_def Let_def * ..
qed

definition utf8_bytes :: "u32 \<Rightarrow> u8 list" where
  "utf8_bytes c = (let (n, m) = utf8_Encode (\<lambda>_. 0) 0 c in bytes_at m 0 n)"

lemma length_utf8_bytes: "1 \<le> length (utf8_bytes c)" "length (utf8_bytes c) \<le> 4"
proof -
  obtain n m0 where enc: "utf8_Encode (\<lambda>_. 0) 0 c = (n, m0)" by (cases "utf8_Encode (\<lambda>_. 0) 0 c")
  with utf8_decode_encode [OF enc order.refl] show "1 \<le> length (utf8_bytes c)" "length (utf8_bytes c) \<le> 4"
    by (simp_all add: utf8_bytes_def)
qed

lemma utf8_bytes_decode:
  assumes "c \<le> HELOS_UNICODE_MAX" "bytes_at m p (length (utf8_bytes c)) = utf8_bytes c" "of_nat (length (utf8_bytes c)) \<le> len"
  shows "utf8_Decode m p len (Some x) = (of_nat (length (utf8_bytes c)), Some c)"
proof -
  obtain n m0 where enc: "utf8_Encode (\<lambda>_. 0) 0 c = (n, m0)" by (cases "utf8_Encode (\<lambda>_. 0) 0 c")
  have l: "length (utf8_bytes c) = n" by (simp add: utf8_bytes_def enc)
  have dec: "utf8_Decode m0 0 len (Some x) = (of_nat n, Some c)"
    using utf8_decode_encode [OF enc, of len x] assms(1, 3) l by simp
  have un: "unat (of_nat n :: u64) = n" using length_utf8_bytes [of c] l by (intro unat_of_nat_u64) simp
  have "0 < len" using assms(3) length_utf8_bytes(1) [of c] un by (auto simp: l word_le_nat_alt word_less_nat_alt)
  have "m (p + of_nat i) = m0 (of_nat i)" if "i < n" for i
    using assms(2) that nth_bytes_at [of i n m p] nth_bytes_at [of i n m0 0]
    unfolding l by (simp add: utf8_bytes_def enc)
  then have "\<forall>i < unat (of_nat n :: u64). m (p + of_nat i) = m0 (0 + of_nat i)" by (simp add: un)
  with utf8_Decode_advance [OF \<open>0 < len\<close> dec] have "utf8_Decode (\<lambda>a. m (p + a)) 0 len (Some x) = (of_nat n, Some c)" by simp
  then show ?thesis using utf8_Decode_shift [of m p 0] by (simp add: l)
qed

lemma utf8_Decode_length: "fst (utf8_Decode m p len (Some x)) = fst (utf8_Decode m p len None)"
  by (simp add: utf8_Decode_def Let_def)

lemma utf8_bytes_ascii: "c < 0x80 \<Longrightarrow> utf8_bytes c = [ucast c]"
proof -
  assume "c < 0x80"
  then have "c \<le> 0x7f" by (simp add: word_le_nat_alt word_less_nat_alt)
  moreover from this have "\<not> c > HELOS_UNICODE_MAX" by (simp add: utf8_constants word_le_nat_alt word_less_nat_alt)
  ultimately show ?thesis by (simp add: utf8_bytes_def utf8_Encode_def utf8_EncodeLength_def utf8_firstBytes_def Let_def bytes_at_Suc)
qed

section \<open>Properties\<close>

text \<open>
  C9: every codepoint up to the Unicode maximum survives encoding and decoding, in 1 to 4 bytes
  and exactly as many as the encoder wrote; larger numbers are encoded as the replacement
  character and come back as such.
\<close>

theorem utf8_roundtrip:
  assumes "utf8_Encode m utf8 codepoint = (n, m')" and "of_nat n \<le> len"
  shows "1 \<le> n \<and> n \<le> 4 \<and> utf8_Decode m' utf8 len (Some x) =
    (of_nat n, Some (if codepoint \<le> HELOS_UNICODE_MAX then codepoint else HELOS_UNICODE_ERROR))"
  using assms by (rule utf8_decode_encode)

theorem utf8_roundtrip_witness:
  "utf8_Decode (snd (utf8_Encode (\<lambda>_. 0) 0x1000 0x1F600)) 0x1000 4 (Some 0) = (4, Some 0x1F600)"
proof -
  have "fst (utf8_Encode (\<lambda>_. 0) 0x1000 0x1F600) = 4"
    by (simp add: utf8_Encode_def utf8_EncodeLength_def utf8_constants Let_def)
  then have "utf8_Encode (\<lambda>_. 0) 0x1000 0x1F600 = (4, snd (utf8_Encode (\<lambda>_. 0) 0x1000 0x1F600))"
    by (metis prod.collapse)
  from utf8_roundtrip [OF this] show ?thesis by (simp add: utf8_constants)
qed

text \<open>
  The decoder always advances, by at most 4 bytes and never beyond the length it is given, and
  its result depends on no byte beyond the ones it consumes.
\<close>

theorem utf8_Decode_progress:
  assumes "0 < len" and "utf8_Decode m utf8 len cp = (n, r)"
  shows "1 \<le> n \<and> n \<le> 4 \<and> n \<le> len \<and>
    (\<forall>m'. (\<forall>i < unat n. m' (utf8 + of_nat i) = m (utf8 + of_nat i)) \<longrightarrow> utf8_Decode m' utf8 len cp = (n, r))"
  using assms by (rule utf8_Decode_advance)

theorem utf8_Decode_progress_witness:
  "1 \<le> fst (utf8_Decode (\<lambda>_. 0xe5) 0x1000 2 None) \<and> fst (utf8_Decode (\<lambda>_. 0xe5) 0x1000 2 None) \<le> 2"
proof -
  have "0 < (2 :: u64)" by simp
  moreover have "utf8_Decode (\<lambda>_. 0xe5) 0x1000 2 None =
      (fst (utf8_Decode (\<lambda>_. 0xe5) 0x1000 2 None), snd (utf8_Decode (\<lambda>_. 0xe5) 0x1000 2 None))" by simp
  ultimately show ?thesis using utf8_Decode_progress by blast
qed

text \<open>
  A stray continuation byte is accepted as a character of its own. The check compares with
  \<^verbatim>\<open>HELOS_UTF8_CONTINUATION_MIN\<close>, which is defined as 0xc0, so that the bytes 0x80 to 0xbf are not
  rejected with the replacement character: each decodes to the codepoint of its own value.
\<close>

theorem utf8_Decode_accepts_stray_continuation:
  assumes "0x80 \<le> m utf8" and "m utf8 \<le> 0xbf" and "0 < len"
  shows "utf8_Decode m utf8 len (Some x) = (1, Some (ucast (m utf8)))"
proof -
  have b: "128 \<le> unat (m utf8)" "unat (m utf8) \<le> 191" using assms by (simp_all add: word_le_nat_alt)
  have "utf8_Decode m utf8 len (Some x) = (of_nat (0 + 1), Some (ucast (m utf8)))"
    using assms b
    by (intro utf8_Decode_valid)
       (auto simp: utf8_trailing_nth utf8_offsets_def word_unat_eq_iff word_le_nat_alt word_less_nat_alt
         unsigned_ucast_eq take_bit_nat_eq_self)
  then show ?thesis by simp
qed

theorem utf8_Decode_accepts_stray_continuation_witness:
  "utf8_Decode (\<lambda>_. 0x9f) 0x1000 1 (Some 0) = (1, Some 0x9f)"
  using utf8_Decode_accepts_stray_continuation [of "\<lambda>_. 0x9f" "0x1000" 1 0] by simp

end
