(* ===== verification/Paging_Physical.thy ===== *)
theory Paging_Physical
  imports Numeric "HOL-Library.Signed_Division"
begin

text \<open>
  The allocator of physical frames, \<^verbatim>\<open>src/memory/paging_physical.c\<close>: a bitmap with one bit per 4 KiB
  frame and two cursors that only move forward. The global variables of \<^verbatim>\<open>src/memory/paging_*.c\<close> are
  the record \<open>paging_state\<close>; physical memory is a function from the address of an 8-byte cell to its
  contents, since the paging code reads and writes whole table entries.

  The array \<^verbatim>\<open>paging_physical_Bitmap\<close> has \<^verbatim>\<open>MAX_SYSTEM_MEMORY_PAGES / BITMAP_BITS\<close> words, for 64 GiB
  of memory, and the code never compares a frame with that limit. The function \<open>bitmap\<close> has the
  words of the array at the indices below that number; at a larger index it says nothing about
  the program, which would use the memory behind the array there. The properties therefore
  assume frames below \<open>MAX_SYSTEM_MEMORY_PAGES\<close>, and show that no word behind the array is written.
\<close>

section \<open>The code\<close>

definition SYSTEM_PAGE_SIZE :: u64 where "SYSTEM_PAGE_SIZE = 4096"
definition SYSTEM_PAGE_2M_SIZE :: u64 where "SYSTEM_PAGE_2M_SIZE = 2097152"
definition SYSTEM_PAGE_1G_SIZE :: u64 where "SYSTEM_PAGE_1G_SIZE = 1073741824"
definition MAX_SYSTEM_MEMORY_PAGES :: nat where "MAX_SYSTEM_MEMORY_PAGES = 16777216"
definition BITMAP_BITS :: nat where "BITMAP_BITS = 64"

lemmas page_sizes = SYSTEM_PAGE_SIZE_def SYSTEM_PAGE_2M_SIZE_def SYSTEM_PAGE_1G_SIZE_def BITMAP_BITS_def

declare MAX_SYSTEM_MEMORY_PAGES_def [simp]

type_synonym bitmap = "nat \<Rightarrow> u64"
type_synonym cells = "addr \<Rightarrow> u64"

record paging_state =
  ps_bitmap :: bitmap
  ps_phy_i :: int
  ps_phy_i_2M :: int
  ps_EndPhysicalPage :: int
  ps_mem :: cells
  ps_PML4Table :: addr
  ps_SupportExecuteDisable :: bool

definition fillBits :: "int \<Rightarrow> int \<Rightarrow> u64" where
  "fillBits begin fin =
     (if fin = int BITMAP_BITS - 1 then NOT (push_bit (nat begin) 1 - 1)
      else if begin = 0 then push_bit (nat (fin + 1)) 1 - 1
      else NOT (push_bit (nat begin) 1 - 1) AND (push_bit (nat (fin + 1)) 1 - 1))"

definition paging_physical_BitmapWriteOne :: "int \<Rightarrow> int \<Rightarrow> bitmap \<Rightarrow> bitmap" where
  "paging_physical_BitmapWriteOne begin fin bm =
     (let whereBegin = begin sdiv int BITMAP_BITS; whereLast = (fin - 1) sdiv int BITMAP_BITS in
      if whereBegin = whereLast
      then bm(nat whereBegin := bm (nat whereBegin) OR
             fillBits (begin smod int BITMAP_BITS) ((fin - 1) smod int BITMAP_BITS))
      else
        (let bm = bm(nat whereBegin := bm (nat whereBegin) OR
                    fillBits (begin smod int BITMAP_BITS) (int BITMAP_BITS - 1));
             bm = bm(nat whereLast := bm (nat whereLast) OR fillBits 0 ((fin - 1) smod int BITMAP_BITS)) in
         fold (\<lambda>i bm. bm(nat i := - 1)) [whereBegin + 1 .. whereLast - 1] bm))"

definition paging_physical_BitmapWriteZero :: "int \<Rightarrow> int \<Rightarrow> bitmap \<Rightarrow> bitmap" where
  "paging_physical_BitmapWriteZero begin fin bm =
     (let whereBegin = begin sdiv int BITMAP_BITS; whereLast = (fin - 1) sdiv int BITMAP_BITS in
      if whereBegin = whereLast
      then bm(nat whereBegin := bm (nat whereBegin) AND
             NOT (fillBits (begin smod int BITMAP_BITS) ((fin - 1) smod int BITMAP_BITS)))
      else
        (let bm = bm(nat whereBegin := bm (nat whereBegin) AND
                    NOT (fillBits (begin smod int BITMAP_BITS) (int BITMAP_BITS - 1)));
             bm = bm(nat whereLast := bm (nat whereLast) AND NOT (fillBits 0 ((fin - 1) smod int BITMAP_BITS))) in
         fold (\<lambda>i bm. bm(nat i := 0)) [whereBegin + 1 .. whereLast - 1] bm))"

definition phy_i_init :: int where "phy_i_init = 1024 div 4 div int BITMAP_BITS"
definition phy_i_2M_init :: int where "phy_i_2M_init = 2048 div 4 div int BITMAP_BITS"

text \<open>The inner loop over \<^verbatim>\<open>j\<close>: the lowest clear bit of a bitmap word.\<close>

definition clear_bit :: "u64 \<Rightarrow> nat option" where
  "clear_bit w = (if w \<noteq> - 1 then find (\<lambda>j. w AND push_bit j 1 = 0) [0..<BITMAP_BITS] else None)"

text \<open>The loop over \<^verbatim>\<open>phy_i\<close>: the cursor where it stops, with the bit found there.\<close>

function phy_scan :: "bitmap \<Rightarrow> int \<Rightarrow> int \<Rightarrow> int \<times> nat option" where
  "phy_scan bm endw phy_i =
     (if phy_i < endw
      then (case clear_bit (bm (nat phy_i)) of Some j \<Rightarrow> (phy_i, Some j) | None \<Rightarrow> phy_scan bm endw (phy_i + 1))
      else (phy_i, None))"
  by pat_completeness auto
termination
  by (relation "measure (\<lambda>(bm, endw, i). nat (endw - i))") auto

declare phy_scan.simps [simp del]

definition zero_block :: "addr \<Rightarrow> u64 \<Rightarrow> cells \<Rightarrow> cells" where
  "zero_block p n m = (\<lambda>a. if a - p < n then 0 else m a)"

text \<open>
  The result is the number of frames and the values written to \<^verbatim>\<open>frames[]\<close>: the addresses of the
  frames, and a final 0 when the search failed.
\<close>

fun paging_physical_AllocateFrames :: "nat \<Rightarrow> paging_state \<Rightarrow> nat \<times> u64 list \<times> paging_state" where
  "paging_physical_AllocateFrames 0 s = (0, [], s)"
| "paging_physical_AllocateFrames (Suc n) s =
     (case phy_scan (ps_bitmap s) (ps_EndPhysicalPage s sdiv int BITMAP_BITS) (ps_phy_i s) of
        (i, None) \<Rightarrow> (0, [0], s\<lparr>ps_phy_i := i\<rparr>)
      | (i, Some j) \<Rightarrow>
          (let addr = (of_int i * of_nat BITMAP_BITS + of_nat j) * SYSTEM_PAGE_SIZE;
               s = s\<lparr>ps_phy_i := i,
                     ps_bitmap := (ps_bitmap s)(nat i := ps_bitmap s (nat i) OR push_bit j 1),
                     ps_mem := zero_block addr SYSTEM_PAGE_SIZE (ps_mem s)\<rparr>;
               (k, frames, s) = paging_physical_AllocateFrames n s in
           (Suc k, addr # frames, s)))"

definition paging_physical_AllocateOneFrame :: "paging_state \<Rightarrow> u64 \<times> paging_state" where
  "paging_physical_AllocateOneFrame s =
     (let (k, frames, s) = paging_physical_AllocateFrames 1 s in (frames ! 0, s))"

text \<open>The loop over \<^verbatim>\<open>phy_i_2M\<close> looks for 8 empty bitmap words in a row.\<close>

function phy_scan_2M :: "bitmap \<Rightarrow> int \<Rightarrow> int \<Rightarrow> int \<times> bool" where
  "phy_scan_2M bm endw i =
     (if i < endw
      then (if \<forall>j \<in> set [0..<8]. bm (nat i + j) = 0 then (i, True) else phy_scan_2M bm endw (i + 8))
      else (i, False))"
  by pat_completeness auto
termination
  by (relation "measure (\<lambda>(bm, endw, i). nat (endw - i))") auto

declare phy_scan_2M.simps [simp del]

fun paging_physical_AllocateFrames2M :: "nat \<Rightarrow> paging_state \<Rightarrow> nat \<times> u64 list \<times> paging_state" where
  "paging_physical_AllocateFrames2M 0 s = (0, [], s)"
| "paging_physical_AllocateFrames2M (Suc n) s =
     (case phy_scan_2M (ps_bitmap s) (ps_EndPhysicalPage s sdiv int BITMAP_BITS) (ps_phy_i_2M s) of
        (i, False) \<Rightarrow> (0, [0], s\<lparr>ps_phy_i_2M := i\<rparr>)
      | (i, True) \<Rightarrow>
          (let addr = of_int i * of_nat BITMAP_BITS * SYSTEM_PAGE_SIZE;
               s = s\<lparr>ps_phy_i_2M := i,
                     ps_bitmap := fold (\<lambda>j bm. bm(nat i + j := - 1)) [0..<8] (ps_bitmap s),
                     ps_mem := zero_block addr SYSTEM_PAGE_2M_SIZE (ps_mem s)\<rparr> in
           if addr = 0 then (0, [0], s)
           else (let (k, frames, s) = paging_physical_AllocateFrames2M n s in (Suc k, addr # frames, s))))"

definition paging_physical_AllocateOneFrame2M :: "paging_state \<Rightarrow> u64 \<times> paging_state" where
  "paging_physical_AllocateOneFrame2M s =
     (let (k, frames, s) = paging_physical_AllocateFrames2M 1 s in (frames ! 0, s))"

definition paging_physical_FreeFrame :: "u64 \<Rightarrow> int \<Rightarrow> paging_state \<Rightarrow> paging_state" where
  "paging_physical_FreeFrame frame pageCount s =
     (if frame mod SYSTEM_PAGE_SIZE \<noteq> 0 then s
      else s\<lparr>ps_bitmap := paging_physical_BitmapWriteZero
               (s32 (uint (frame div SYSTEM_PAGE_SIZE)))
               (s32 (uint (frame div SYSTEM_PAGE_SIZE + of_int pageCount))) (ps_bitmap s)\<rparr>)"

section \<open>The bitmap as a set of frames\<close>

definition frame_used :: "bitmap \<Rightarrow> nat \<Rightarrow> bool" where
  "frame_used bm p \<longleftrightarrow> bit (bm (p div 64)) (p mod 64)"

lemma ones_mask: "push_bit k 1 - 1 = (mask k :: u64)"
  by (simp add: mask_eq_exp_minus_1 push_bit_of_1)

lemma bit_fillBits:
  assumes "b < 64" and "l < 64" and "j < 64"
  shows "bit (fillBits (int b) (int l)) j \<longleftrightarrow> b \<le> j \<and> j \<le> l"
  using assms unfolding fillBits_def ones_mask
  by (auto simp: BITMAP_BITS_def bit_not_iff bit_and_iff bit_mask_iff possible_bit_word nat_add_distrib)

text \<open>Only words of the array differ.\<close>

definition array_kept :: "bitmap \<Rightarrow> bitmap \<Rightarrow> bool" where
  "array_kept bm bm' \<longleftrightarrow> (\<forall>k \<ge> MAX_SYSTEM_MEMORY_PAGES div BITMAP_BITS. bm' k = bm k)"

lemma array_keptI:
  assumes "\<And>p. MAX_SYSTEM_MEMORY_PAGES \<le> p \<Longrightarrow> frame_used bm' p = frame_used bm p"
  shows "array_kept bm bm'"
  unfolding array_kept_def
proof (intro allI impI)
  fix k assume k: "MAX_SYSTEM_MEMORY_PAGES div BITMAP_BITS \<le> k"
  have "bit (bm' k) j = bit (bm k) j" if "j < 64" for j
    using assms [of "64 * k + j"] k that by (simp add: frame_used_def BITMAP_BITS_def)
  then show "bm' k = bm k" by (intro bit_word_eqI) simp
qed

lemma sdiv_64 [simp]: "int n sdiv 64 = int (n div 64)"
  by (simp add: signed_divide_int_def sgn_if zdiv_int)

lemma smod_64 [simp]: "int n smod 64 = int (n mod 64)"
  by (auto simp: signed_modulo_int_def signed_divide_int_def sgn_if zmod_int minus_mult_div_eq_mod minus_div_mult_eq_mod)

text \<open>The words strictly between the first and the last are written by the loop.\<close>

lemma fold_fill:
  "fold (\<lambda>i bm. bm(nat i := v)) [int a + 1 .. int b - 1] bm = (\<lambda>k. if a < k \<and> k < b then v else bm k)"
proof -
  have fold: "fold (\<lambda>i bm. bm(nat i := v)) xs bm = (\<lambda>k. if k \<in> nat ` set xs then v else bm k)" for xs :: "int list"
    by (induction xs arbitrary: bm) auto
  have "k \<in> nat ` {int a + 1 .. int b - 1} \<longleftrightarrow> a < k \<and> k < b" for k
    by (auto simp: image_iff intro!: bexI [of _ "int k"])
  then show ?thesis by (simp add: fold)
qed

lemma div_mod_le: "a div 64 < b div 64 \<Longrightarrow> a < (b :: nat)"
  by (metis div_le_mono linorder_not_less)

text \<open>A range of frames, word by word.\<close>

lemma range_same_word:
  assumes "b div 64 = l div 64"
  shows "b \<le> p \<and> p \<le> l \<longleftrightarrow> p div 64 = b div 64 \<and> bit (fillBits (int (b mod 64)) (int (l mod 64))) (p mod 64)"
proof -
  have "p = 64 * (p div 64) + p mod 64" "b = 64 * (b div 64) + b mod 64" "l = 64 * (l div 64) + l mod 64"
    and m: "p mod 64 < 64" "b mod 64 < 64" "l mod 64 < 64" by simp_all
  then have "p div 64 = b div 64 \<Longrightarrow> (b \<le> p \<and> p \<le> l) = (b mod 64 \<le> p mod 64 \<and> p mod 64 \<le> l mod 64)"
      "p div 64 \<noteq> b div 64 \<Longrightarrow> \<not> (b \<le> p \<and> p \<le> l)"
    using assms by linarith+
  with m show ?thesis by (auto simp: bit_fillBits)
qed

lemma range_words:
  assumes "b div 64 < l div 64"
  shows "b \<le> p \<and> p \<le> l \<longleftrightarrow>
    p div 64 = b div 64 \<and> bit (fillBits (int (b mod 64)) 63) (p mod 64) \<or>
    b div 64 < p div 64 \<and> p div 64 < l div 64 \<or>
    p div 64 = l div 64 \<and> bit (fillBits 0 (int (l mod 64))) (p mod 64)"
proof -
  have "p = 64 * (p div 64) + p mod 64" "b = 64 * (b div 64) + b mod 64" "l = 64 * (l div 64) + l mod 64"
    and m: "p mod 64 < 64" "b mod 64 < 64" "l mod 64 < 64" by simp_all
  then have "b \<le> p \<and> p \<le> l \<longleftrightarrow> p div 64 = b div 64 \<and> b mod 64 \<le> p mod 64 \<or>
      b div 64 < p div 64 \<and> p div 64 < l div 64 \<or> p div 64 = l div 64 \<and> p mod 64 \<le> l mod 64"
    using assms by linarith
  moreover have "bit (fillBits (int (b mod 64)) 63) (p mod 64) \<longleftrightarrow> b mod 64 \<le> p mod 64"
    using bit_fillBits [of "b mod 64" 63 "p mod 64"] m by simp
  moreover have "bit (fillBits 0 (int (l mod 64))) (p mod 64) \<longleftrightarrow> p mod 64 \<le> l mod 64"
    using bit_fillBits [of 0 "l mod 64" "p mod 64"] m by simp
  ultimately show ?thesis by simp
qed

lemma frame_used_WriteOne:
  assumes "b < e"
  shows "frame_used (paging_physical_BitmapWriteOne (int b) (int e) bm) p \<longleftrightarrow> b \<le> p \<and> p < e \<or> frame_used bm p"
proof -
  obtain l where l: "e = Suc l" "b \<le> l" using assms by (cases e) auto
  then have "b div 64 = l div 64 \<or> b div 64 < l div 64" using div_le_mono [of b l 64] by linarith
  then show ?thesis
    using l range_same_word [of b l p] range_words [of b l p]
    by (auto simp: frame_used_def paging_physical_BitmapWriteOne_def BITMAP_BITS_def fold_fill Let_def
        bit_or_iff less_Suc_eq_le)
qed

lemma frame_used_WriteZero:
  assumes "b < e"
  shows "frame_used (paging_physical_BitmapWriteZero (int b) (int e) bm) p \<longleftrightarrow> frame_used bm p \<and> \<not> (b \<le> p \<and> p < e)"
proof -
  obtain l where l: "e = Suc l" "b \<le> l" using assms by (cases e) auto
  then have "b div 64 = l div 64 \<or> b div 64 < l div 64" using div_le_mono [of b l 64] by linarith
  then show ?thesis
    using l range_same_word [of b l p] range_words [of b l p]
    by (auto simp: frame_used_def paging_physical_BitmapWriteZero_def BITMAP_BITS_def fold_fill Let_def
        bit_and_iff bit_not_iff possible_bit_word less_Suc_eq_le)
qed

section \<open>Allocation\<close>

lemma clear_bit_Some: "clear_bit w = Some j \<Longrightarrow> j < 64 \<and> \<not> bit w j"
  by (auto simp: clear_bit_def and_exp_eq_0_iff_not_bit find_Some_iff BITMAP_BITS_def split: if_splits)

lemma clear_bit_least: "clear_bit w = Some j \<Longrightarrow> k < j \<Longrightarrow> bit w k"
  by (auto simp: clear_bit_def and_exp_eq_0_iff_not_bit find_Some_iff BITMAP_BITS_def split: if_splits)

lemma clear_bit_None: "clear_bit w = None \<longleftrightarrow> w = - 1"
proof -
  have "\<exists>j < 64. \<not> bit w j" if "w \<noteq> - 1" using that by (auto simp: bit_eq_iff)
  then show ?thesis
    by (auto simp: clear_bit_def find_None_iff and_exp_eq_0_iff_not_bit BITMAP_BITS_def)
qed

lemma phy_scan_clear_bit: "phy_scan bm endw i = (i', Some j) \<Longrightarrow> clear_bit (bm (nat i')) = Some j"
  by (induction bm endw i rule: phy_scan.induct) (subst (asm) phy_scan.simps, auto split: if_splits option.splits)

lemma phy_scan_spec:
  "phy_scan bm endw i = (i', r) \<Longrightarrow> i \<le> i' \<and> (\<forall>k. i \<le> k \<and> k < i' \<longrightarrow> bm (nat k) = - 1) \<and>
     (case r of None \<Rightarrow> endw \<le> i' | Some j \<Rightarrow> i' < endw \<and> j < 64 \<and> \<not> bit (bm (nat i')) j)"
proof (induction bm endw i rule: phy_scan.induct)
  case (1 bm endw i)
  show ?case
  proof (cases "i < endw \<and> clear_bit (bm (nat i)) = None")
    case True
    then have "phy_scan bm endw (i + 1) = (i', r)" using 1(2) by (simp add: phy_scan.simps [of bm endw i])
    moreover have "bm (nat i) = - 1" using True clear_bit_None by blast
    ultimately have IH: "i + 1 \<le> i'" "\<forall>k. i + 1 \<le> k \<and> k < i' \<longrightarrow> bm (nat k) = - 1"
      "case r of None \<Rightarrow> endw \<le> i' | Some j \<Rightarrow> i' < endw \<and> j < 64 \<and> \<not> bit (bm (nat i')) j" using 1(1) True by auto
    have "bm (nat k) = - 1" if "i \<le> k \<and> k < i'" for k
      using that IH(2) True clear_bit_None \<open>bm (nat i) = - 1\<close> by (cases "k = i") auto
    with IH show ?thesis by auto
  next
    case False
    show ?thesis
    proof (cases "i < endw")
      case True
      with False obtain j where j: "clear_bit (bm (nat i)) = Some j" by auto
      have "i' = i" "r = Some j" using 1(2) True j by (simp_all add: phy_scan.simps [of bm endw i])
      with True clear_bit_Some [OF j] show ?thesis by auto
    qed (use 1(2) in \<open>auto simp: phy_scan.simps [of bm endw i]\<close>)
  qed
qed

definition frame_addr :: "nat \<Rightarrow> u64" where
  "frame_addr p = of_nat p * 4096"

lemma frame_addr_split: "0 \<le> i \<Longrightarrow> (of_int i * 64 + of_nat j) * 4096 = frame_addr (nat i * 64 + j)"
  by (simp add: frame_addr_def)

lemma frame_used_set:
  "j < 64 \<Longrightarrow> frame_used (bm(i := bm i OR push_bit j 1)) p \<longleftrightarrow> p = i * 64 + j \<or> frame_used bm p"
proof -
  assume j: "j < 64"
  have "p = i * 64 + j \<longleftrightarrow> p div 64 = i \<and> p mod 64 = j" using j by auto
  then show ?thesis using j by (auto simp: frame_used_def bit_or_iff bit_exp_iff possible_bit_word)
qed

text \<open>What one call of the frame allocator does, with the list \<open>ps\<close> of the numbers of its frames.\<close>

definition frames_allocated :: "nat list \<Rightarrow> paging_state \<Rightarrow> paging_state \<Rightarrow> bool" where
  "frames_allocated ps s s' \<longleftrightarrow> distinct ps \<and>
     (\<forall>p \<in> set ps. \<not> frame_used (ps_bitmap s) p \<and> 64 * nat (ps_phy_i s) \<le> p \<and> int p < ps_EndPhysicalPage s) \<and>
     (\<forall>p. frame_used (ps_bitmap s') p \<longleftrightarrow> frame_used (ps_bitmap s) p \<or> p \<in> set ps) \<and>
     (\<forall>a. ps_mem s' a = (if \<exists>p \<in> set ps. a - frame_addr p < 4096 then 0 else ps_mem s a)) \<and>
     ps_phy_i s \<le> ps_phy_i s' \<and>
     s' = s\<lparr>ps_phy_i := ps_phy_i s', ps_bitmap := ps_bitmap s', ps_mem := ps_mem s'\<rparr>"

lemma frames_allocated_Nil: "ps_phy_i s \<le> i \<Longrightarrow> frames_allocated [] s (s\<lparr>ps_phy_i := i\<rparr>)"
  by (simp add: frames_allocated_def)

lemma frames_allocated_refl: "frames_allocated [] s s"
  by (simp add: frames_allocated_def)

lemma frames_allocated_Cons:
  assumes "0 \<le> ps_phy_i s" and "ps_phy_i s \<le> i" and "i < ps_EndPhysicalPage s sdiv 64" and "j < 64"
    and "\<not> bit (ps_bitmap s (nat i)) j"
    and "frames_allocated ps (s\<lparr>ps_phy_i := i,
           ps_bitmap := (ps_bitmap s)(nat i := ps_bitmap s (nat i) OR push_bit j 1),
           ps_mem := zero_block (frame_addr (nat i * 64 + j)) 4096 (ps_mem s)\<rparr>) s'"
  shows "frames_allocated ((nat i * 64 + j) # ps) s s'"
proof -
  let ?p = "nat i * 64 + j"
  let ?s = "s\<lparr>ps_phy_i := i, ps_bitmap := (ps_bitmap s)(nat i := ps_bitmap s (nat i) OR push_bit j 1),
    ps_mem := zero_block (frame_addr ?p) 4096 (ps_mem s)\<rparr>"
  have used: "frame_used (ps_bitmap ?s) q \<longleftrightarrow> q = ?p \<or> frame_used (ps_bitmap s) q" for q
    using frame_used_set [OF assms(4)] by simp
  have "\<not> frame_used (ps_bitmap s) ?p" using assms(4,5) by (simp add: frame_used_def)
  moreover have "int ?p < ps_EndPhysicalPage s"
  proof -
    have "ps_EndPhysicalPage s sdiv 64 = ps_EndPhysicalPage s div 64"
      using assms(1-3) by (auto simp: signed_divide_int_def sgn_if split: if_splits)
    then show ?thesis using assms(1-4) by linarith
  qed
  moreover have "64 * nat (ps_phy_i s) \<le> ?p" "64 * nat (ps_phy_i s) \<le> 64 * nat i" using assms(1,2) by linarith+
  ultimately show ?thesis
    using assms(6) used assms(2) unfolding frames_allocated_def
    by (auto simp: zero_block_def) 
qed

lemma frames_exhausted:
  assumes "endw \<le> i" and "\<forall>k. a \<le> k \<and> k < i \<longrightarrow> bm (nat k) = - 1" and "0 \<le> a"
    and "64 * nat a \<le> p" and "int p < 64 * endw"
  shows "frame_used bm p"
proof -
  have "a \<le> int (p div 64)" "int (p div 64) < i" using assms by linarith+
  then have "bm (p div 64) = - 1" using assms(2) by (metis nat_int)
  then show ?thesis by (simp add: frame_used_def)
qed

lemma paging_physical_AllocateFrames_spec:
  assumes "paging_physical_AllocateFrames n s = (k, frames, s')" and "0 \<le> ps_phy_i s" and "0 \<le> ps_EndPhysicalPage s"
  shows "\<exists>ps. length ps = k \<and> k \<le> n \<and> frames_allocated ps s s' \<and>
     frames = map frame_addr ps @ (if k < n then [0] else []) \<and>
     (k < n \<longrightarrow> (\<forall>p. 64 * nat (ps_phy_i s) \<le> p \<and> int p < 64 * (ps_EndPhysicalPage s div 64) \<longrightarrow>
        frame_used (ps_bitmap s') p))"
  using assms
proof (induction n arbitrary: s k frames)
  case 0
  then show ?case using frames_allocated_Nil [of s "ps_phy_i s"] by (intro exI [of _ "[]"]) simp
next
  case (Suc n)
  let ?endw = "ps_EndPhysicalPage s sdiv int BITMAP_BITS"
  have endw: "?endw = ps_EndPhysicalPage s div 64"
    using Suc.prems(3) by (auto simp: signed_divide_int_def sgn_if BITMAP_BITS_def)
  obtain i r where scan: "phy_scan (ps_bitmap s) ?endw (ps_phy_i s) = (i, r)" by fastforce
  note sp = phy_scan_spec [OF scan]
  show ?case
  proof (cases r)
    case None
    have "frame_used (ps_bitmap s) p" if "64 * nat (ps_phy_i s) \<le> p" "int p < 64 * (ps_EndPhysicalPage s div 64)" for p
      using frames_exhausted [of ?endw i "ps_phy_i s" "ps_bitmap s" p] sp None Suc.prems(2) that endw by auto
    with None scan Suc.prems(1) sp show ?thesis
      by (intro exI [of _ "[]"]) (auto simp: frames_allocated_Nil)
  next
    case (Some j)
    let ?p = "nat i * 64 + j"
    let ?s = "s\<lparr>ps_phy_i := i, ps_bitmap := (ps_bitmap s)(nat i := ps_bitmap s (nat i) OR push_bit j 1),
      ps_mem := zero_block (frame_addr ?p) 4096 (ps_mem s)\<rparr>"
    have i: "0 \<le> i" "ps_phy_i s \<le> i" "i < ps_EndPhysicalPage s sdiv 64" "j < 64" "\<not> bit (ps_bitmap s (nat i)) j"
      using sp Some Suc.prems(2) by (auto simp: BITMAP_BITS_def)
    have fa: "(of_int i * of_nat BITMAP_BITS + of_nat j) * SYSTEM_PAGE_SIZE = frame_addr ?p"
      using frame_addr_split [OF i(1)] unfolding BITMAP_BITS_def SYSTEM_PAGE_SIZE_def by simp
    obtain k' fr' where rec: "paging_physical_AllocateFrames n ?s = (k', fr', s')" "k = Suc k'" "frames = frame_addr ?p # fr'"
      using Suc.prems(1) scan Some by (auto simp: Let_def fa simp flip: SYSTEM_PAGE_SIZE_def split: prod.splits)
    obtain ps where ps: "length ps = k'" "k' \<le> n" "frames_allocated ps ?s s'"
        "fr' = map frame_addr ps @ (if k' < n then [0] else [])"
        "k' < n \<longrightarrow> (\<forall>p. 64 * nat i \<le> p \<and> int p < 64 * (ps_EndPhysicalPage s div 64) \<longrightarrow> frame_used (ps_bitmap s') p)"
      using Suc.IH [OF rec(1)] i(1) Suc.prems(3) by auto
    have all: "frames_allocated (?p # ps) s s'" by (rule frames_allocated_Cons [OF Suc.prems(2) i(2-5) ps(3)])
    have "frame_used (ps_bitmap s') p" if "k' < n" "64 * nat (ps_phy_i s) \<le> p" "int p < 64 * (ps_EndPhysicalPage s div 64)" for p
    proof (cases "64 * nat i \<le> p")
      case False
      have "frame_used (ps_bitmap s) p"
        using frames_exhausted [of i i "ps_phy_i s" "ps_bitmap s" p] sp Suc.prems(2) that(2) False i(1) by simp
      then show ?thesis using all by (simp add: frames_allocated_def)
    qed (use ps(5) that in blast)
    with ps rec all show ?thesis by (intro exI [of _ "?p # ps"]) simp
  qed
qed

section \<open>Large frames\<close>

lemma phy_scan_2M_spec:
  "phy_scan_2M bm endw i = (i', r) \<Longrightarrow> i \<le> i' \<and> 8 dvd (i' - i) \<and>
     (if r then i' < endw \<and> (\<forall>j < 8. bm (nat i' + j) = 0) else endw \<le> i')"
proof (induction bm endw i rule: phy_scan_2M.induct)
  case (1 bm endw i)
  show ?case
  proof (cases "i < endw \<and> \<not> (\<forall>j \<in> set [0..<8]. bm (nat i + j) = 0)")
    case True
    then have "phy_scan_2M bm endw (i + 8) = (i', r)"
      using 1(2) phy_scan_2M.simps [of bm endw i] by (simp only: if_True if_False simp_thms)
    with 1(1) True have "i + 8 \<le> i'" "8 dvd (i' - (i + 8))"
        "if r then i' < endw \<and> (\<forall>j < 8. bm (nat i' + j) = 0) else endw \<le> i'" by auto
    moreover from this(2) have "8 dvd (i' - i)" by presburger
    ultimately show ?thesis by simp
  next
    case False
    then show ?thesis using 1(2) by (auto simp: phy_scan_2M.simps [of bm endw i] split: if_splits)
  qed
qed

lemma frame_used_fill8:
  "frame_used (fold (\<lambda>j bm. bm(i + j := - 1)) [0..<8] bm) p \<longleftrightarrow> 64 * i \<le> p \<and> p < 64 * i + 512 \<or> frame_used bm p"
proof -
  have "fold (\<lambda>j bm. bm(i + j := - 1)) js bm = (\<lambda>k. if k \<in> (+) i ` set js then - 1 else bm k)" for js
    by (induction js arbitrary: bm) auto
  moreover have "p div 64 \<in> (+) i ` {0..<8} \<longleftrightarrow> 64 * i \<le> p \<and> p < 64 * i + 512"
  proof -
    have "p div 64 \<in> (+) i ` {0..<8} \<longleftrightarrow> i \<le> p div 64 \<and> p div 64 < i + 8"
      by (auto simp: image_iff intro!: bexI [of _ "p div 64 - i"])
    then show ?thesis by linarith
  qed
  ultimately show ?thesis by (auto simp: frame_used_def)
qed

text \<open>The 512 frames of a large frame that starts at bitmap word \<open>i\<close>.\<close>

definition large_frame :: "nat \<Rightarrow> nat set" where
  "large_frame i = {64 * i ..< 64 * i + 512}"

definition frames2M_allocated :: "nat list \<Rightarrow> paging_state \<Rightarrow> paging_state \<Rightarrow> bool" where
  "frames2M_allocated ws s s' \<longleftrightarrow> distinct ws \<and>
     (\<forall>w \<in> set ws. 8 dvd (int w - ps_phy_i_2M s) \<and> ps_phy_i_2M s \<le> int w \<and>
        (\<forall>p \<in> large_frame w. \<not> frame_used (ps_bitmap s) p)) \<and>
     (\<forall>p. frame_used (ps_bitmap s') p \<longleftrightarrow> frame_used (ps_bitmap s) p \<or> (\<exists>w \<in> set ws. p \<in> large_frame w)) \<and>
     (\<forall>a. ps_mem s' a = (if \<exists>w \<in> set ws. a - frame_addr (64 * w) < 2097152 then 0 else ps_mem s a))"

lemma frames2M_allocated_Cons:
  assumes "0 \<le> ps_phy_i_2M s" and "ps_phy_i_2M s \<le> i" and "8 dvd (i - ps_phy_i_2M s)"
    and "\<forall>j < 8. ps_bitmap s (nat i + j) = 0"
    and "frames2M_allocated ws (s\<lparr>ps_phy_i_2M := i,
           ps_bitmap := fold (\<lambda>j bm. bm(nat i + j := - 1)) [0..<8] (ps_bitmap s),
           ps_mem := zero_block (frame_addr (64 * nat i)) 2097152 (ps_mem s)\<rparr>) s'"
  shows "frames2M_allocated (nat i # ws) s s'"
proof -
  let ?s = "s\<lparr>ps_phy_i_2M := i, ps_bitmap := fold (\<lambda>j bm. bm(nat i + j := - 1)) [0..<8] (ps_bitmap s),
    ps_mem := zero_block (frame_addr (64 * nat i)) 2097152 (ps_mem s)\<rparr>"
  have used: "frame_used (ps_bitmap ?s) p \<longleftrightarrow> p \<in> large_frame (nat i) \<or> frame_used (ps_bitmap s) p" for p
    using frame_used_fill8 [of "nat i" "ps_bitmap s" p] by (auto simp: large_frame_def)
  have free: "\<not> frame_used (ps_bitmap s) p" if "p \<in> large_frame (nat i)" for p
  proof -
    have "p div 64 - nat i < 8" "p div 64 = nat i + (p div 64 - nat i)" using that by (auto simp: large_frame_def)
    then have "ps_bitmap s (p div 64) = 0" using assms(4) by metis
    then show ?thesis by (simp add: frame_used_def)
  qed
  have first: "64 * nat i \<in> large_frame (nat i)" by (simp add: large_frame_def)
  have ws: "w \<noteq> nat i \<and> 8 dvd (int w - ps_phy_i_2M s) \<and> ps_phy_i_2M s \<le> int w \<and>
      (\<forall>p \<in> large_frame w. \<not> frame_used (ps_bitmap s) p)" if "w \<in> set ws" for w
  proof -
    have w: "8 dvd (int w - i)" "i \<le> int w" "\<forall>p \<in> large_frame w. \<not> frame_used (ps_bitmap ?s) p"
      using assms(5) that by (auto simp: frames2M_allocated_def)
    have "8 dvd ((int w - i) + (i - ps_phy_i_2M s))" using w(1) assms(3) by (rule dvd_add)
    then show ?thesis using w(2,3) assms(2) used first by auto
  qed
  then show ?thesis
    using assms(1-3,5) used free unfolding frames2M_allocated_def by (auto simp: zero_block_def)
qed

lemma unat_frame_addr: "p < 2 ^ 52 \<Longrightarrow> unat (frame_addr p) = p * 4096"
proof -
  assume "p < 2 ^ 52"
  then have "unat (of_nat (p * 4096) :: u64) = p * 4096" by (intro unat_of_nat_u64) simp
  then show ?thesis by (simp add: frame_addr_def)
qed

lemma large_addr_not_0:
  assumes "0 < i" and "i < 2 ^ 31"
  shows "frame_addr (64 * nat i) \<noteq> 0"
proof -
  have "unat (frame_addr (64 * nat i)) = 64 * nat i * 4096" using assms by (intro unat_frame_addr) simp
  then show ?thesis using assms by (auto simp: word_unat_eq_iff)
qed

lemma paging_physical_AllocateFrames2M_spec:
  assumes "paging_physical_AllocateFrames2M n s = (k, frames, s')" and "0 < ps_phy_i_2M s"
    and "0 \<le> ps_EndPhysicalPage s" and "ps_EndPhysicalPage s < 2 ^ 31"
  shows "\<exists>ws. length ws = k \<and> k \<le> n \<and> frames = map (\<lambda>w. frame_addr (64 * w)) ws @ (if k < n then [0] else []) \<and>
     frames2M_allocated ws s s'"
  using assms
proof (induction n arbitrary: s k frames)
  case 0
  then show ?case by (intro exI [of _ "[]"]) (auto simp: frames2M_allocated_def)
next
  case (Suc n)
  let ?endw = "ps_EndPhysicalPage s sdiv int BITMAP_BITS"
  have endw: "?endw = ps_EndPhysicalPage s div 64"
    using Suc.prems(3) by (auto simp: signed_divide_int_def sgn_if BITMAP_BITS_def)
  obtain i r where scan: "phy_scan_2M (ps_bitmap s) ?endw (ps_phy_i_2M s) = (i, r)" by fastforce
  note sp = phy_scan_2M_spec [OF scan]
  show ?case
  proof (cases r)
    case False
    with scan Suc.prems(1) show ?thesis
      by (intro exI [of _ "[]"]) (auto simp: frames2M_allocated_def)
  next
    case True
    let ?s = "s\<lparr>ps_phy_i_2M := i, ps_bitmap := fold (\<lambda>j bm. bm(nat i + j := - 1)) [0..<8] (ps_bitmap s),
      ps_mem := zero_block (frame_addr (64 * nat i)) 2097152 (ps_mem s)\<rparr>"
    have i: "ps_phy_i_2M s \<le> i" "8 dvd (i - ps_phy_i_2M s)" "\<forall>j < 8. ps_bitmap s (nat i + j) = 0" "i < ?endw"
      using sp True by auto
    have fa: "of_int i * of_nat BITMAP_BITS * SYSTEM_PAGE_SIZE = frame_addr (64 * nat i)"
      using i(1) Suc.prems(2) unfolding BITMAP_BITS_def SYSTEM_PAGE_SIZE_def frame_addr_def by simp
    have "i < 2 ^ 31" using i(4) endw Suc.prems(3,4) by linarith
    then have nz: "frame_addr (64 * nat i) \<noteq> 0" using i(1) Suc.prems(2) by (intro large_addr_not_0) auto
    obtain k' fr' where rec: "paging_physical_AllocateFrames2M n ?s = (k', fr', s')" "k = Suc k'"
        "frames = frame_addr (64 * nat i) # fr'"
      using Suc.prems(1) scan True nz
      by (auto simp: Let_def fa SYSTEM_PAGE_2M_SIZE_def split: prod.splits simp del: upt_rec_numeral fold.simps)
    obtain ws where "length ws = k'" "k' \<le> n" "fr' = map (\<lambda>w. frame_addr (64 * w)) ws @ (if k' < n then [0] else [])"
        "frames2M_allocated ws ?s s'"
      using Suc.IH [OF rec(1)] i(1) Suc.prems(2-4) by auto
    moreover have "frames2M_allocated (nat i # ws) s s'" if "frames2M_allocated ws ?s s'"
      using that Suc.prems(2) i(1-3) by (intro frames2M_allocated_Cons) auto
    ultimately show ?thesis using rec by (intro exI [of _ "nat i # ws"]) auto
  qed
qed

section \<open>One frame\<close>

text \<open>The frames the small allocator can still return.\<close>

definition free_frames :: "paging_state \<Rightarrow> nat set" where
  "free_frames s = {p. \<not> frame_used (ps_bitmap s) p \<and> 64 * nat (ps_phy_i s) \<le> p \<and>
     int p < 64 * (ps_EndPhysicalPage s div 64)}"

lemma finite_free_frames [simp]: "finite (free_frames s)"
proof (rule finite_subset)
  show "free_frames s \<subseteq> {..< nat (64 * (ps_EndPhysicalPage s div 64))}" by (auto simp: free_frames_def)
qed simp

lemma AllocateOneFrame_spec:
  assumes "0 \<le> ps_phy_i s" and "0 \<le> ps_EndPhysicalPage s" and "free_frames s \<noteq> {}"
  shows "\<exists>p s'. paging_physical_AllocateOneFrame s = (frame_addr p, s') \<and> p \<in> free_frames s \<and>
    frames_allocated [p] s s' \<and> free_frames s' = free_frames s - {p} \<and> (\<forall>q \<in> free_frames s. p \<le> q)"
proof -
  let ?endw = "ps_EndPhysicalPage s sdiv int BITMAP_BITS"
  have endw: "?endw = ps_EndPhysicalPage s div 64"
    using assms(2) by (auto simp: signed_divide_int_def sgn_if BITMAP_BITS_def)
  obtain i r where scan: "phy_scan (ps_bitmap s) ?endw (ps_phy_i s) = (i, r)" by fastforce
  note sp = phy_scan_spec [OF scan]
  obtain q where q: "\<not> frame_used (ps_bitmap s) q" "64 * nat (ps_phy_i s) \<le> q" "int q < 64 * ?endw"
    using assms(3) endw by (auto simp: free_frames_def)
  have r: "r \<noteq> None"
  proof
    assume "r = None"
    then have "frame_used (ps_bitmap s) q"
      using frames_exhausted [of ?endw i "ps_phy_i s" "ps_bitmap s" q] sp q assms(1) by simp
    with q(1) show False by simp
  qed
  then obtain j where j: "r = Some j" by blast
  let ?p = "nat i * 64 + j"
  let ?s = "s\<lparr>ps_phy_i := i, ps_bitmap := (ps_bitmap s)(nat i := ps_bitmap s (nat i) OR push_bit j 1),
    ps_mem := zero_block (frame_addr ?p) 4096 (ps_mem s)\<rparr>"
  have i: "0 \<le> i" "ps_phy_i s \<le> i" "i < ps_EndPhysicalPage s sdiv 64" "j < 64" "\<not> bit (ps_bitmap s (nat i)) j"
    using sp j assms(1) by (auto simp: BITMAP_BITS_def)
  have fa: "(of_int i * of_nat BITMAP_BITS + of_nat j) * SYSTEM_PAGE_SIZE = frame_addr ?p"
    using frame_addr_split [OF i(1)] unfolding BITMAP_BITS_def SYSTEM_PAGE_SIZE_def by simp
  have all: "frames_allocated [?p] s ?s"
    by (rule frames_allocated_Cons [OF assms(1) i(2-5) frames_allocated_refl])
  have one: "paging_physical_AllocateOneFrame s = (frame_addr ?p, ?s)"
    using scan j unfolding paging_physical_AllocateOneFrame_def One_nat_def by (simp add: Let_def fa flip: SYSTEM_PAGE_SIZE_def)
  have p: "?p \<in> free_frames s"
  proof -
    have "int ?p < 64 * (ps_EndPhysicalPage s div 64)"
      using i(1,3,4) endw unfolding BITMAP_BITS_def by simp
    with all show ?thesis by (auto simp: free_frames_def frames_allocated_def)
  qed
  have least: "64 * nat i \<le> q'" if "q' \<in> free_frames s" for q'
  proof (rule ccontr)
    assume "\<not> 64 * nat i \<le> q'"
    then have "int q' < 64 * i" using i(1) by linarith
    then have "frame_used (ps_bitmap s) q'"
      using frames_exhausted [of i i "ps_phy_i s" "ps_bitmap s" q'] sp assms(1) that i(1) by (simp add: free_frames_def)
    with that show False by (simp add: free_frames_def)
  qed
  then have "free_frames ?s = free_frames s - {?p}"
    using all i(2) by (auto simp: free_frames_def frames_allocated_def)
  moreover have "?p \<le> q'" if "q' \<in> free_frames s" for q'
  proof -
    have "bit (ps_bitmap s (nat i)) k" if "k < j" for k
      using clear_bit_least [OF phy_scan_clear_bit that] scan j by simp
    moreover have "\<not> bit (ps_bitmap s (q' div 64)) (q' mod 64)" using that by (simp add: free_frames_def frame_used_def)
    ultimately have "\<not> (q' div 64 = nat i \<and> q' mod 64 < j)" by auto
    then have "nat i < q' div 64 \<or> nat i = q' div 64 \<and> j \<le> q' mod 64" using least [OF that] by linarith
    moreover have "q' = q' div 64 * 64 + q' mod 64" by simp
    ultimately show ?thesis using i(4) by (elim disjE conjE) linarith+
  qed
  ultimately show ?thesis using one p all by blast
qed

lemma FreeFrame_bitmap:
  assumes "frame mod SYSTEM_PAGE_SIZE = 0" and "unat (frame div SYSTEM_PAGE_SIZE) + count < 2 ^ 31"
  shows "ps_bitmap (paging_physical_FreeFrame frame (int count) s) =
    paging_physical_BitmapWriteZero (int (unat (frame div SYSTEM_PAGE_SIZE))) (int (unat (frame div SYSTEM_PAGE_SIZE) + count)) (ps_bitmap s)"
proof -
  let ?f = "frame div SYSTEM_PAGE_SIZE"
  have c: "unat (of_int (int count) :: u64) = count" using assms(2) by (simp add: unat_of_nat_u64)
  have b: "s32 (uint ?f) = int (unat ?f)" unfolding uint_nat by (rule s32_int) (use assms(2) in simp)
  have "unat (?f + of_int (int count)) = unat ?f + count"
    using assms(2) c by (subst unat_add_no_wrap) simp_all
  then have u: "uint (?f + of_int (int count)) = int (unat ?f + count)" by (metis uint_nat)
  have e: "s32 (uint (?f + of_int (int count))) = int (unat ?f + count)"
    unfolding u by (rule s32_int) (use assms(2) in simp)
  show ?thesis using assms(1) unfolding paging_physical_FreeFrame_def e b by simp
qed

section \<open>Properties\<close>

definition demo_paging :: paging_state where
  "demo_paging = \<lparr>ps_bitmap = (\<lambda>i. if i = 5 then - 4 else - 1), ps_phy_i = 4, ps_phy_i_2M = 8,
     ps_EndPhysicalPage = 4096, ps_mem = (\<lambda>_. 7), ps_PML4Table = 0x1000, ps_SupportExecuteDisable = False\<rparr>"

lemma demo_paging_used: "p < 2 ^ 20 \<Longrightarrow> frame_used (ps_bitmap demo_paging) p \<longleftrightarrow> p \<noteq> 320 \<and> p \<noteq> 321"
proof -
  have "bit (- 4 :: u64) j \<longleftrightarrow> 2 \<le> j" if "j < 64" for j
  proof -
    have eq: "(- 4 :: u64) = NOT (mask 2)" by (simp add: mask_eq_exp_minus_1)
    show ?thesis by (subst eq) (use that in \<open>auto simp: bit_not_iff bit_mask_iff possible_bit_word\<close>)
  qed
  then have "p div 64 = 5 \<Longrightarrow> bit (- 4 :: u64) (p mod 64) \<longleftrightarrow> p \<noteq> 320 \<and> p \<noteq> 321"
    using mod_less_divisor [of 64 p] div_mult_mod_eq [of p 64] by auto
  then show ?thesis by (auto simp: frame_used_def demo_paging_def)
qed

text \<open>
  C10: the frame allocator, on a machine with at most the 64 GiB the bitmap has bits for. The
  frames returned are distinct, were free, lie in physical memory at or above the cursor, are zeroed
  and marked used; no other bitmap bit and no other memory changes, no word behind the bitmap
  is written, and the cursor does not move back. When fewer frames are returned than asked for, the
  array ends with a 0 and no free frame is left between the cursor and the last whole bitmap word.
\<close>

theorem AllocateFrames_correct:
  assumes "paging_physical_AllocateFrames n s = (k, frames, s')"
    and "0 \<le> ps_phy_i s" and "0 \<le> ps_EndPhysicalPage s" and "ps_EndPhysicalPage s \<le> int MAX_SYSTEM_MEMORY_PAGES"
  shows "\<exists>ps. length ps = k \<and> k \<le> n \<and> frames_allocated ps s s' \<and> array_kept (ps_bitmap s) (ps_bitmap s') \<and>
     frames = map frame_addr ps @ (if k < n then [0] else []) \<and>
     (k < n \<longrightarrow> (\<forall>p. 64 * nat (ps_phy_i s) \<le> p \<and> int p < 64 * (ps_EndPhysicalPage s div 64) \<longrightarrow>
        frame_used (ps_bitmap s') p))"
proof -
  obtain ps where ps: "length ps = k" "k \<le> n" "frames_allocated ps s s'"
      "frames = map frame_addr ps @ (if k < n then [0] else [])"
      "k < n \<longrightarrow> (\<forall>p. 64 * nat (ps_phy_i s) \<le> p \<and> int p < 64 * (ps_EndPhysicalPage s div 64) \<longrightarrow> frame_used (ps_bitmap s') p)"
    using paging_physical_AllocateFrames_spec [OF assms(1-3)] by blast
  have "p \<notin> set ps" if "MAX_SYSTEM_MEMORY_PAGES \<le> p" for p
  proof
    assume "p \<in> set ps"
    then have "int p < ps_EndPhysicalPage s" using ps(3) by (simp add: frames_allocated_def)
    then show False using assms(4) that by simp
  qed
  then have "array_kept (ps_bitmap s) (ps_bitmap s')"
    using ps(3) by (intro array_keptI) (auto simp: frames_allocated_def)
  with ps show ?thesis by blast
qed

theorem AllocateFrames_correct_witness:
  "\<exists>p s'. paging_physical_AllocateFrames 1 demo_paging = (1, [frame_addr p], s') \<and> (p = 320 \<or> p = 321) \<and>
     frame_used (ps_bitmap s') p"
proof -
  obtain k frames s' where r: "paging_physical_AllocateFrames 1 demo_paging = (k, frames, s')"
    using prod_cases3 by blast
  have nn: "0 \<le> ps_phy_i demo_paging" "0 \<le> ps_EndPhysicalPage demo_paging"
    "ps_EndPhysicalPage demo_paging \<le> int MAX_SYSTEM_MEMORY_PAGES" by (simp_all add: demo_paging_def)
  from AllocateFrames_correct [OF r nn] obtain ps where ps: "length ps = k" "k \<le> 1"
      "frames_allocated ps demo_paging s'" "frames = map frame_addr ps @ (if k < 1 then [0] else [])"
      "k < 1 \<longrightarrow> (\<forall>p. 64 * nat 4 \<le> p \<and> int p < 64 * (4096 div 64) \<longrightarrow> frame_used (ps_bitmap s') p)"
    by (auto simp: demo_paging_def)
  have "k = 1"
  proof (rule ccontr)
    assume "k \<noteq> 1"
    then have "k = 0" using ps(2) by linarith
    then have "k < 1" "ps = []" using ps(1) by auto
    then have "frame_used (ps_bitmap s') 320" "frame_used (ps_bitmap s') 320 = frame_used (ps_bitmap demo_paging) 320"
      using ps(3,5) by (auto simp: frames_allocated_def)
    then show False using demo_paging_used [of 320] by simp
  qed
  then obtain p where p: "ps = [p]" using ps(1) by (auto simp: length_Suc_conv)
  then have "\<not> frame_used (ps_bitmap demo_paging) p" "p < 4096" "frame_used (ps_bitmap s') p"
    using ps(3) by (auto simp: frames_allocated_def demo_paging_def)
  with r ps(4) p \<open>k = 1\<close> demo_paging_used [of p] show ?thesis by auto
qed

text \<open>
  C23: freeing frees exactly the frames of the range, for every aligned address and every count
  that is not 0, when the range lies in the 64 GiB the bitmap has bits for; no word behind the
  bitmap is written. An unaligned address changes nothing.
\<close>

theorem FreeFrame_exact:
  assumes "0 < count" and "unat (frame div SYSTEM_PAGE_SIZE) + count \<le> MAX_SYSTEM_MEMORY_PAGES"
  shows "paging_physical_FreeFrame frame (int count) s = s \<and> frame mod SYSTEM_PAGE_SIZE \<noteq> 0 \<or>
    frame mod SYSTEM_PAGE_SIZE = 0 \<and>
    array_kept (ps_bitmap s) (ps_bitmap (paging_physical_FreeFrame frame (int count) s)) \<and>
    (\<forall>p. frame_used (ps_bitmap (paging_physical_FreeFrame frame (int count) s)) p \<longleftrightarrow> frame_used (ps_bitmap s) p \<and>
       \<not> (unat (frame div SYSTEM_PAGE_SIZE) \<le> p \<and> p < unat (frame div SYSTEM_PAGE_SIZE) + count))"
proof (cases "frame mod SYSTEM_PAGE_SIZE = 0")
  case True
  have lt: "unat (frame div SYSTEM_PAGE_SIZE) + count < 2 ^ 31" using assms(2) by simp
  have "unat (frame div SYSTEM_PAGE_SIZE) < unat (frame div SYSTEM_PAGE_SIZE) + count" using assms(1) by simp
  note used = frame_used_WriteZero [OF this, of "ps_bitmap s", folded FreeFrame_bitmap [OF True lt]]
  have "array_kept (ps_bitmap s) (ps_bitmap (paging_physical_FreeFrame frame (int count) s))"
    by (rule array_keptI) (use used assms(2) in \<open>auto simp del: MAX_SYSTEM_MEMORY_PAGES_def\<close>)
  with used True show ?thesis by blast
qed (simp add: paging_physical_FreeFrame_def)

theorem FreeFrame_exact_witness:
  "\<not> frame_used (ps_bitmap (paging_physical_FreeFrame 0x2000 1 demo_paging)) 2 \<and>
   frame_used (ps_bitmap (paging_physical_FreeFrame 0x2000 1 demo_paging)) 3"
proof -
  have "frame_used (ps_bitmap demo_paging) 3" using demo_paging_used [of 3] by simp
  then show ?thesis using FreeFrame_exact [of 1 "0x2000" demo_paging] by (auto simp: SYSTEM_PAGE_SIZE_def)
qed

text \<open>
  A frame freed below the allocator's cursor is lost. Since the cursor only moves forward, no
  later allocation returns it, however many frames are asked for.
\<close>

theorem freed_frame_not_reused:
  assumes "0 \<le> ps_phy_i s" and "0 \<le> ps_EndPhysicalPage s" and "ps_EndPhysicalPage s < 2 ^ 31"
    and "p < 64 * nat (ps_phy_i s)" and "p < 2 ^ 31"
    and "paging_physical_AllocateFrames n (paging_physical_FreeFrame (frame_addr p) 1 s) = (k, frames, s')"
  shows "frame_addr p \<notin> set (take k frames)"
proof
  let ?s = "paging_physical_FreeFrame (frame_addr p) 1 s"
  have s: "ps_phy_i ?s = ps_phy_i s" "ps_EndPhysicalPage ?s = ps_EndPhysicalPage s"
    by (simp_all add: paging_physical_FreeFrame_def)
  obtain ps where ps: "length ps = k" "frames_allocated ps ?s s'"
      "frames = map frame_addr ps @ (if k < n then [0] else [])"
    using paging_physical_AllocateFrames_spec [OF assms(6)] assms(1,2) s by auto
  assume "frame_addr p \<in> set (take k frames)"
  then obtain q where q: "q \<in> set ps" "frame_addr p = frame_addr q" using ps by auto
  then have le: "64 * nat (ps_phy_i s) \<le> q" and lt: "int q < ps_EndPhysicalPage s"
    using ps(2) s by (auto simp: frames_allocated_def)
  from lt assms(3) have "int q < 2 ^ 31" by linarith
  then have "q < 2 ^ 52" by simp
  moreover have "p < 2 ^ 52" using assms(5) by simp
  ultimately have "p * 4096 = q * 4096" using q(2) unat_frame_addr by metis
  then show False using assms(4) le by simp
qed

theorem freed_frame_not_reused_witness:
  "frame_addr 100 \<notin> set (take (fst (paging_physical_AllocateFrames 3 (paging_physical_FreeFrame (frame_addr 100) 1 demo_paging)))
     (fst (snd (paging_physical_AllocateFrames 3 (paging_physical_FreeFrame (frame_addr 100) 1 demo_paging)))))"
  by (rule freed_frame_not_reused [of demo_paging 100 3 _ _
        "snd (snd (paging_physical_AllocateFrames 3 (paging_physical_FreeFrame (frame_addr 100) 1 demo_paging)))"])
     (simp_all add: demo_paging_def del: paging_physical_AllocateFrames.simps)

text \<open>
  The allocator of 2 MiB frames. Every frame returned starts at a multiple of 8 bitmap words
  from the cursor, all 512 of its small frames were free and are now used and zeroed, and nothing
  else changes.
\<close>

theorem AllocateFrames2M_correct:
  assumes "paging_physical_AllocateFrames2M n s = (k, frames, s')" and "0 < ps_phy_i_2M s"
    and "0 \<le> ps_EndPhysicalPage s" and "ps_EndPhysicalPage s < 2 ^ 31"
  shows "\<exists>ws. length ws = k \<and> k \<le> n \<and> frames = map (\<lambda>w. frame_addr (64 * w)) ws @ (if k < n then [0] else []) \<and>
     frames2M_allocated ws s s'"
  using assms by (rule paging_physical_AllocateFrames2M_spec)

theorem AllocateFrames2M_correct_witness:
  "\<exists>k frames s' ws. paging_physical_AllocateFrames2M 1 demo_paging = (k, frames, s') \<and> length ws = k \<and>
     frames2M_allocated ws demo_paging s'"
proof -
  obtain k frames s' where r: "paging_physical_AllocateFrames2M 1 demo_paging = (k, frames, s')"
    using prod_cases3 by blast
  have "0 < ps_phy_i_2M demo_paging" "0 \<le> ps_EndPhysicalPage demo_paging" "ps_EndPhysicalPage demo_paging < 2 ^ 31"
    by (simp_all add: demo_paging_def)
  from AllocateFrames2M_correct [OF r this] r show ?thesis by blast
qed

text \<open>
  The bitmap writers assume a non-empty range. On an empty range at a word boundary the index
  of the last word lies below the first, and \<^verbatim>\<open>paging_physical_BitmapWriteZero\<close> frees the two whole
  words around the boundary, 128 frames that were not in the range.
\<close>

theorem BitmapWriteZero_empty_range:
  assumes "0 < w"
  shows "frame_used (paging_physical_BitmapWriteZero (int (64 * w)) (int (64 * w)) bm) p \<longleftrightarrow>
    frame_used bm p \<and> \<not> (64 * w - 64 \<le> p \<and> p < 64 * w + 64)"
proof -
  obtain v where v: "w = Suc v" using assms by (cases w) auto
  have e: "int (64 * w) - 1 = int (64 * v + 63)" by (simp add: v)
  have d: "(64 * v + 63) div 64 = v" "(64 * v + 63) mod 64 = 63" "(64 * w) div 64 = Suc v" "(64 * w) mod 64 = 0"
    by (simp_all add: v)
  have "bit (fillBits 0 63) (p mod 64)" using bit_fillBits [of 0 63 "p mod 64"] by simp
  moreover have "p div 64 = v \<or> p div 64 = Suc v \<longleftrightarrow> 64 * w - 64 \<le> p \<and> p < 64 * w + 64" using v by auto
  moreover have "[int (Suc v) + 1 .. int v - 1] = []" by simp
  ultimately show ?thesis
    unfolding paging_physical_BitmapWriteZero_def BITMAP_BITS_def e
    by (auto simp: d frame_used_def Let_def bit_and_iff bit_not_iff possible_bit_word simp del: of_nat_mult of_nat_add of_nat_Suc)
qed

theorem BitmapWriteZero_empty_range_witness:
  "\<not> frame_used (paging_physical_BitmapWriteZero (int (64 * 4)) (int (64 * 4)) (\<lambda>_. - 1)) 200"
  using BitmapWriteZero_empty_range [of 4 "\<lambda>_. - 1" 200] by simp

end
