(* ===== verification/Paging_Map.thy ===== *)
theory Paging_Map
  imports Paging_Physical
begin

text \<open>
  The four-level page tables: the mapping and unmapping functions of \<^verbatim>\<open>src/memory/paging_map.c\<close> and
  the helpers of \<^verbatim>\<open>src/memory/paging_internal.h\<close>. A table entry is an 8-byte cell of physical
  memory, which is mapped one to one while the tables are built. The result \<open>None\<close> is an assertion
  that fails, or a loop that does not end. Flushing the translation buffer has no effect on this
  state.
\<close>

section \<open>The code\<close>

definition PML_PRESENT :: u64 where "PML_PRESENT = push_bit 0 1"
definition PML_WRITEABLE :: u64 where "PML_WRITEABLE = push_bit 1 1"
definition PML_PAGE_SIZE :: u64 where "PML_PAGE_SIZE = push_bit 7 1"
definition PML_EXECUTE_DISABLE :: u64 where "PML_EXECUTE_DISABLE = push_bit 63 1"
definition PML_ADDR_MASK :: u64 where "PML_ADDR_MASK = 0xFFFFFFFFFF000"
definition PML_ADDR_MASK_2M :: u64 where "PML_ADDR_MASK_2M = 0xFFFFFFFE00000"
definition PML_ADDR_MASK_1G :: u64 where "PML_ADDR_MASK_1G = 0xFFFFFC0000000"

definition MAP_PROT_EXEC :: u32 where "MAP_PROT_EXEC = 1"
definition MAP_PROT_WRITE :: u32 where "MAP_PROT_WRITE = 2"
definition MAP_PROT_READ :: u32 where "MAP_PROT_READ = 4"

partial_function (option) roundUpTo2Exponent_loop :: "u64 \<Rightarrow> u64 \<Rightarrow> u64 option" where
  "roundUpTo2Exponent_loop s v = (if s < v then roundUpTo2Exponent_loop (push_bit 1 s) v else Some s)"

definition roundUpTo2Exponent :: "u64 \<Rightarrow> u64 option" where
  "roundUpTo2Exponent v = roundUpTo2Exponent_loop 1 v"

text \<open>The mask is computed as an \<^verbatim>\<open>int\<close> and then converted.\<close>

definition takeBitfield :: "u64 \<Rightarrow> nat \<Rightarrow> nat \<Rightarrow> u64" where
  "takeBitfield v high low = drop_bit low v AND of_int (s32 (s32 (2 ^ (high - low + 1)) - 1))"

definition roundUpToPageCount :: "u64 \<Rightarrow> int" where
  "roundUpToPageCount sz = (if sz mod SYSTEM_PAGE_SIZE = 0 then s32 (uint (sz div SYSTEM_PAGE_SIZE))
     else s32 (uint (sz div SYSTEM_PAGE_SIZE + 1)))"

definition roundUpToPageCount2M :: "u64 \<Rightarrow> int" where
  "roundUpToPageCount2M sz = (if sz mod SYSTEM_PAGE_2M_SIZE = 0 then s32 (uint (sz div SYSTEM_PAGE_2M_SIZE))
     else s32 (uint (sz div SYSTEM_PAGE_2M_SIZE + 1)))"

definition roundUpToPageCount1G :: "u64 \<Rightarrow> int" where
  "roundUpToPageCount1G sz = (if sz mod SYSTEM_PAGE_1G_SIZE = 0 then s32 (uint (sz div SYSTEM_PAGE_1G_SIZE))
     else s32 (uint (sz div SYSTEM_PAGE_1G_SIZE + 1)))"

definition tbl_get :: "paging_state \<Rightarrow> addr \<Rightarrow> u64 \<Rightarrow> u64" where
  "tbl_get s table i = ps_mem s (table + 8 * i)"

definition tbl_set :: "addr \<Rightarrow> u64 \<Rightarrow> u64 \<Rightarrow> paging_state \<Rightarrow> paging_state" where
  "tbl_set table i v s = s\<lparr>ps_mem := (ps_mem s)(table + 8 * i := v)\<rparr>"

text \<open>
  The lines repeated at every upper level: allocate a table if the entry is not present, and
  follow the entry.
\<close>

definition pml_ensure :: "addr \<Rightarrow> u64 \<Rightarrow> paging_state \<Rightarrow> paging_state" where
  "pml_ensure table i s =
     (if tbl_get s table i AND PML_PRESENT = 0
      then (let (f, s) = paging_physical_AllocateOneFrame s in
            tbl_set table i (f OR PML_PRESENT OR PML_WRITEABLE) s)
      else s)"

definition pml_next :: "paging_state \<Rightarrow> addr \<Rightarrow> u64 \<Rightarrow> addr" where
  "pml_next s table i = tbl_get s table i AND PML_ADDR_MASK"

definition pml_flags :: "u32 \<Rightarrow> paging_state \<Rightarrow> u64" where
  "pml_flags protectionFlags s =
     (if protectionFlags AND MAP_PROT_WRITE \<noteq> 0 then PML_WRITEABLE else 0) OR
     (if ps_SupportExecuteDisable s \<and> protectionFlags AND MAP_PROT_EXEC = 0 then PML_EXECUTE_DISABLE else 0)"

definition paging_map_one :: "u64 \<Rightarrow> u64 \<Rightarrow> u32 \<Rightarrow> paging_state \<Rightarrow> paging_state" where
  "paging_map_one physical virtual protectionFlags s =
     (let table = ps_PML4Table s; i = takeBitfield virtual 47 39; s = pml_ensure table i s;
          table = pml_next s table i; i = takeBitfield virtual 38 30; s = pml_ensure table i s;
          table = pml_next s table i; i = takeBitfield virtual 29 21; s = pml_ensure table i s;
          table = pml_next s table i; i = takeBitfield virtual 20 12 in
      tbl_set table i (physical OR PML_PRESENT OR pml_flags protectionFlags s) s)"

text \<open>The loop \<^verbatim>\<open>while (pageCount--)\<close>; no caller passes a negative count.\<close>

fun paging_map_loop :: "nat \<Rightarrow> u64 \<Rightarrow> u64 \<Rightarrow> u32 \<Rightarrow> paging_state \<Rightarrow> paging_state" where
  "paging_map_loop 0 physical virtual flags s = s"
| "paging_map_loop (Suc n) physical virtual flags s =
     paging_map_loop n (physical + SYSTEM_PAGE_SIZE) (virtual + SYSTEM_PAGE_SIZE) flags
       (paging_map_one physical virtual flags s)"

definition paging_map_Page :: "u64 \<Rightarrow> u64 \<Rightarrow> nat \<Rightarrow> u32 \<Rightarrow> paging_state \<Rightarrow> paging_state option" where
  "paging_map_Page physical virtual pageCount flags s =
     (if physical mod SYSTEM_PAGE_SIZE = 0 \<and> virtual mod SYSTEM_PAGE_SIZE = 0
      then Some (paging_map_loop pageCount physical virtual flags s) else None)"

text \<open>Replacing a table by a large page gives its frame back; the tables below it are not visited.\<close>

definition pml_release :: "addr \<Rightarrow> u64 \<Rightarrow> paging_state \<Rightarrow> paging_state" where
  "pml_release table i s =
     (if tbl_get s table i AND PML_PRESENT \<noteq> 0 \<and> tbl_get s table i AND PML_PAGE_SIZE = 0
      then paging_physical_FreeFrame (tbl_get s table i AND PML_ADDR_MASK) 1 s else s)"

definition paging_map_one2M :: "u64 \<Rightarrow> u64 \<Rightarrow> u32 \<Rightarrow> paging_state \<Rightarrow> paging_state" where
  "paging_map_one2M physical virtual protectionFlags s =
     (let table = ps_PML4Table s; i = takeBitfield virtual 47 39; s = pml_ensure table i s;
          table = pml_next s table i; i = takeBitfield virtual 38 30; s = pml_ensure table i s;
          table = pml_next s table i; i = takeBitfield virtual 29 21; s = pml_release table i s in
      tbl_set table i (physical OR PML_PRESENT OR PML_PAGE_SIZE OR pml_flags protectionFlags s) s)"

fun paging_map_loop2M :: "nat \<Rightarrow> u64 \<Rightarrow> u64 \<Rightarrow> u32 \<Rightarrow> paging_state \<Rightarrow> paging_state" where
  "paging_map_loop2M 0 physical virtual flags s = s"
| "paging_map_loop2M (Suc n) physical virtual flags s =
     paging_map_loop2M n (physical + SYSTEM_PAGE_2M_SIZE) (virtual + SYSTEM_PAGE_2M_SIZE) flags
       (paging_map_one2M physical virtual flags s)"

definition paging_map_Page2M :: "u64 \<Rightarrow> u64 \<Rightarrow> nat \<Rightarrow> u32 \<Rightarrow> paging_state \<Rightarrow> paging_state option" where
  "paging_map_Page2M physical virtual pageCount flags s =
     (if physical mod SYSTEM_PAGE_2M_SIZE = 0 \<and> virtual mod SYSTEM_PAGE_2M_SIZE = 0
      then Some (paging_map_loop2M pageCount physical virtual flags s) else None)"

definition paging_map_one1G :: "u64 \<Rightarrow> u64 \<Rightarrow> u32 \<Rightarrow> paging_state \<Rightarrow> paging_state" where
  "paging_map_one1G physical virtual protectionFlags s =
     (let table = ps_PML4Table s; i = takeBitfield virtual 47 39; s = pml_ensure table i s;
          table = pml_next s table i; i = takeBitfield virtual 38 30; s = pml_release table i s in
      tbl_set table i (physical OR PML_PRESENT OR PML_PAGE_SIZE OR pml_flags protectionFlags s) s)"

fun paging_map_loop1G :: "nat \<Rightarrow> u64 \<Rightarrow> u64 \<Rightarrow> u32 \<Rightarrow> paging_state \<Rightarrow> paging_state" where
  "paging_map_loop1G 0 physical virtual flags s = s"
| "paging_map_loop1G (Suc n) physical virtual flags s =
     paging_map_loop1G n (physical + SYSTEM_PAGE_1G_SIZE) (virtual + SYSTEM_PAGE_1G_SIZE) flags
       (paging_map_one1G physical virtual flags s)"

definition paging_map_Page1G :: "u64 \<Rightarrow> u64 \<Rightarrow> nat \<Rightarrow> u32 \<Rightarrow> paging_state \<Rightarrow> paging_state option" where
  "paging_map_Page1G physical virtual pageCount flags s =
     (if physical mod SYSTEM_PAGE_1G_SIZE = 0 \<and> virtual mod SYSTEM_PAGE_1G_SIZE = 0
      then Some (paging_map_loop1G pageCount physical virtual flags s) else None)"

text \<open>The loop over the frames of one batch, which are mapped one after the other.\<close>

fun map_batch :: "u64 list \<Rightarrow> u64 \<Rightarrow> u32 \<Rightarrow> paging_state \<Rightarrow> (u64 \<times> paging_state) option" where
  "map_batch [] virtual flags s = Some (virtual, s)"
| "map_batch (f # fs) virtual flags s = do {
     s \<leftarrow> paging_map_Page f virtual 1 flags s;
     map_batch fs (virtual + SYSTEM_PAGE_SIZE) flags s
   }"

partial_function (option) PageAllocated_loop ::
  "u64 \<Rightarrow> int \<Rightarrow> u32 \<Rightarrow> paging_state \<Rightarrow> paging_state option" where
  "PageAllocated_loop virtual pageCount flags s =
     (if pageCount > 0
      then do {
        let pageCur = intmin pageCount (int (HELOS_BUFFER_SIZE div 8));
        let (allocated, buf, s) = paging_physical_AllocateFrames (nat pageCur) s;
        (virtual, s) \<leftarrow> map_batch (take allocated buf) virtual flags s;
        PageAllocated_loop virtual (pageCount - int allocated) flags s
      }
      else Some s)"

definition paging_map_PageAllocated :: "u64 \<Rightarrow> int \<Rightarrow> u32 \<Rightarrow> paging_state \<Rightarrow> paging_state option" where
  "paging_map_PageAllocated virtual pageCount flags s =
     (if virtual mod SYSTEM_PAGE_SIZE = 0 then PageAllocated_loop virtual pageCount flags s else None)"

text \<open>The loop over the large frames of one batch maps all of them at the same address.\<close>

fun map_batch2M :: "u64 list \<Rightarrow> u64 \<Rightarrow> u32 \<Rightarrow> paging_state \<Rightarrow> paging_state option" where
  "map_batch2M [] virtual flags s = Some s"
| "map_batch2M (f # fs) virtual flags s = do {
     s \<leftarrow> paging_map_Page2M f virtual 1 flags s;
     map_batch2M fs virtual flags s
   }"

partial_function (option) PageAllocated2M_loop ::
  "u64 \<Rightarrow> int \<Rightarrow> u32 \<Rightarrow> paging_state \<Rightarrow> paging_state option" where
  "PageAllocated2M_loop virtual pageCount flags s =
     (if pageCount > 0
      then do {
        let pageCur = intmin pageCount (int (HELOS_BUFFER_SIZE div 8));
        let (allocated, buf, s) = paging_physical_AllocateFrames2M (nat pageCur) s;
        s \<leftarrow> map_batch2M (take allocated buf) virtual flags s;
        PageAllocated2M_loop (virtual + SYSTEM_PAGE_2M_SIZE * of_nat allocated) (pageCount - int allocated) flags s
      }
      else Some s)"

definition paging_map_PageAllocated2M :: "u64 \<Rightarrow> int \<Rightarrow> u32 \<Rightarrow> paging_state \<Rightarrow> paging_state option" where
  "paging_map_PageAllocated2M virtual pageCount flags s =
     (if virtual mod SYSTEM_PAGE_2M_SIZE = 0 then PageAllocated2M_loop virtual pageCount flags s else None)"

text \<open>One turn of the unmapping loop: the step to the next address, and the new state.\<close>

definition FreeAllocated_step :: "u64 \<Rightarrow> paging_state \<Rightarrow> u64 \<times> paging_state" where
  "FreeAllocated_step virtual s =
     (let table = ps_PML4Table s; i = takeBitfield virtual 47 39 in
      if tbl_get s table i AND PML_PRESENT = 0 then (SYSTEM_PAGE_SIZE, s)
      else
     (let table = pml_next s table i; i = takeBitfield virtual 38 30 in
      if tbl_get s table i AND PML_PRESENT = 0 then (SYSTEM_PAGE_SIZE, s)
      else if tbl_get s table i AND PML_PAGE_SIZE \<noteq> 0
      then (SYSTEM_PAGE_1G_SIZE,
            tbl_set table i 0 (paging_physical_FreeFrame (tbl_get s table i AND PML_ADDR_MASK_1G) (512 * 512) s))
      else
     (let table = pml_next s table i; i = takeBitfield virtual 29 21 in
      if tbl_get s table i AND PML_PRESENT = 0 then (SYSTEM_PAGE_SIZE, s)
      else if tbl_get s table i AND PML_PAGE_SIZE \<noteq> 0
      then (SYSTEM_PAGE_2M_SIZE,
            tbl_set table i 0 (paging_physical_FreeFrame (tbl_get s table i AND PML_ADDR_MASK_2M) 512 s))
      else
     (let table = pml_next s table i; i = takeBitfield virtual 20 12 in
      if tbl_get s table i AND PML_PRESENT \<noteq> 0
      then (SYSTEM_PAGE_SIZE,
            tbl_set table i 0 (paging_physical_FreeFrame (tbl_get s table i AND PML_ADDR_MASK) 1 s))
      else (SYSTEM_PAGE_SIZE, s)))))"

partial_function (option) FreeAllocated_loop :: "u64 \<Rightarrow> u64 \<Rightarrow> paging_state \<Rightarrow> paging_state option" where
  "FreeAllocated_loop virtual fin s =
     (if virtual < fin
      then (let (step, s) = FreeAllocated_step virtual s in FreeAllocated_loop (virtual + step) fin s)
      else Some s)"

definition paging_map_FreeAllocated :: "u64 \<Rightarrow> u64 \<Rightarrow> paging_state \<Rightarrow> paging_state option" where
  "paging_map_FreeAllocated virtual fin s =
     (if virtual mod SYSTEM_PAGE_SIZE = 0 then FreeAllocated_loop virtual fin s else None)"

section \<open>The translation the hardware makes\<close>

text \<open>
  The page walk of the processor manual, for the specification: an entry that is not present stops
  the walk, a large-page entry or an entry of the last level ends it with that entry and the
  number of levels left.
\<close>

fun walk_entry :: "cells \<Rightarrow> addr \<Rightarrow> u64 list \<Rightarrow> (u64 \<times> nat) option" where
  "walk_entry m t [] = None"
| "walk_entry m t (i # is) =
     (let e = m (t + 8 * i) in
      if e AND PML_PRESENT = 0 then None
      else if is = [] \<or> e AND PML_PAGE_SIZE \<noteq> 0 then Some (e, length is)
      else walk_entry m (e AND PML_ADDR_MASK) is)"

text \<open>The table reached by a path of indices.\<close>

fun walk_table :: "cells \<Rightarrow> addr \<Rightarrow> u64 list \<Rightarrow> addr option" where
  "walk_table m t [] = Some t"
| "walk_table m t (i # is) =
     (let e = m (t + 8 * i) in
      if e AND PML_PRESENT = 0 \<or> e AND PML_PAGE_SIZE \<noteq> 0 then None
      else walk_table m (e AND PML_ADDR_MASK) is)"

text \<open>
  The rights of an address, writing and executing: the processor grants what every entry of the
  walk allows.
\<close>

definition entry_writes :: "u64 \<Rightarrow> bool" where
  "entry_writes e \<longleftrightarrow> e AND PML_WRITEABLE \<noteq> 0"

definition entry_executes :: "u64 \<Rightarrow> bool" where
  "entry_executes e \<longleftrightarrow> e AND PML_EXECUTE_DISABLE = 0"

fun walk_rights :: "cells \<Rightarrow> addr \<Rightarrow> u64 list \<Rightarrow> (bool \<times> bool) option" where
  "walk_rights m t [] = None"
| "walk_rights m t (i # is) =
     (let e = m (t + 8 * i) in
      if e AND PML_PRESENT = 0 then None
      else if is = [] \<or> e AND PML_PAGE_SIZE \<noteq> 0 then Some (entry_writes e, entry_executes e)
      else map_option (\<lambda>(w, x). (entry_writes e \<and> w, entry_executes e \<and> x)) (walk_rights m (e AND PML_ADDR_MASK) is))"

text \<open>The entries on a path that lead to tables restrict nothing.\<close>

fun walk_open :: "cells \<Rightarrow> addr \<Rightarrow> u64 list \<Rightarrow> bool" where
  "walk_open m t [] = True"
| "walk_open m t (i # is) =
     (let e = m (t + 8 * i) in
      e AND PML_PRESENT = 0 \<or> e AND PML_PAGE_SIZE \<noteq> 0 \<or>
      entry_writes e \<and> entry_executes e \<and> walk_open m (e AND PML_ADDR_MASK) is)"

definition page_indices :: "u64 \<Rightarrow> u64 list" where
  "page_indices v = [takeBitfield v 47 39, takeBitfield v 38 30, takeBitfield v 29 21, takeBitfield v 20 12]"

definition translate :: "paging_state \<Rightarrow> u64 \<Rightarrow> u64 option" where
  "translate s v = (case walk_entry (ps_mem s) (ps_PML4Table s) (page_indices v) of
     None \<Rightarrow> None
   | Some (e, n) \<Rightarrow> Some ((if n = 0 then e AND PML_ADDR_MASK
       else if n = 1 then e AND PML_ADDR_MASK_2M else e AND PML_ADDR_MASK_1G) OR take_bit (12 + 9 * n) v))"

definition page_rights :: "paging_state \<Rightarrow> u64 \<Rightarrow> (bool \<times> bool) option" where
  "page_rights s v = walk_rights (ps_mem s) (ps_PML4Table s) (page_indices v)"

text \<open>The rights a mapping asks for. Without the support of the processor everything can be executed.\<close>

definition rights_asked :: "u32 \<Rightarrow> paging_state \<Rightarrow> bool \<times> bool" where
  "rights_asked flags s =
     (flags AND MAP_PROT_WRITE \<noteq> 0, flags AND MAP_PROT_EXEC \<noteq> 0 \<or> \<not> ps_SupportExecuteDisable s)"

lemma walk_rights_open:
  "walk_open m t (butlast is) \<Longrightarrow>
     walk_rights m t is = map_option (\<lambda>(e, n). (entry_writes e, entry_executes e)) (walk_entry m t is)"
  by (induction "is" arbitrary: t) (auto simp: Let_def option.map_comp split: if_splits intro!: option.map_cong)

lemma walk_open_append:
  "walk_open m t (a @ b) \<longleftrightarrow> walk_open m t a \<and> (case walk_table m t a of None \<Rightarrow> True | Some t' \<Rightarrow> walk_open m t' b)"
  by (induction a arbitrary: t) (auto simp: Let_def split: option.splits)

lemma walk_table_append:
  "walk_table m t (a @ b) = (case walk_table m t a of None \<Rightarrow> None | Some t' \<Rightarrow> walk_table m t' b)"
  by (induction a arbitrary: t) (simp_all add: Let_def)

lemma walk_entry_append:
  "b \<noteq> [] \<Longrightarrow> walk_entry m t (a @ b) =
     (case walk_table m t a of Some t' \<Rightarrow> walk_entry m t' b
      | None \<Rightarrow> map_option (\<lambda>(e, n). (e, n + length b)) (walk_entry m t a))"
  by (induction a arbitrary: t) (auto simp: Let_def split: option.splits)

text \<open>A walk depends on the entries it reads only.\<close>

lemma walk_cong:
  "(\<And>a j r t'. is = a @ j # r \<Longrightarrow> walk_table m t a = Some t' \<Longrightarrow> m' (t' + 8 * j) = m (t' + 8 * j)) \<Longrightarrow>
     walk_entry m' t is = walk_entry m t is \<and> walk_table m' t is = walk_table m t is \<and>
     walk_open m' t is = walk_open m t is"
proof (induction "is" arbitrary: t)
  case (Cons i "is")
  let ?e = "m (t + 8 * i)"
  have hd: "m' (t + 8 * i) = ?e" using Cons.prems [of "[]" i "is" t] by simp
  show ?case
  proof (cases "?e AND PML_PRESENT = 0 \<or> ?e AND PML_PAGE_SIZE \<noteq> 0")
    case False
    have "walk_entry m' (?e AND PML_ADDR_MASK) is = walk_entry m (?e AND PML_ADDR_MASK) is \<and>
      walk_table m' (?e AND PML_ADDR_MASK) is = walk_table m (?e AND PML_ADDR_MASK) is \<and>
      walk_open m' (?e AND PML_ADDR_MASK) is = walk_open m (?e AND PML_ADDR_MASK) is"
    proof (rule Cons.IH)
      fix a j r t' assume "is = a @ j # r" "walk_table m (?e AND PML_ADDR_MASK) a = Some t'"
      then show "m' (t' + 8 * j) = m (t' + 8 * j)" using Cons.prems [of "i # a" j r t'] False by (simp add: Let_def)
    qed
    with hd False show ?thesis by (simp add: Let_def)
  qed (use hd in \<open>auto simp: Let_def\<close>)
qed simp

lemma walk_entry_cong:
  "(\<And>a j r t'. is = a @ j # r \<Longrightarrow> walk_table m t a = Some t' \<Longrightarrow> m' (t' + 8 * j) = m (t' + 8 * j)) \<Longrightarrow>
     walk_entry m' t is = walk_entry m t is"
  using walk_cong [of "is" m t m'] by blast

lemma walk_table_cong:
  "(\<And>a j r t'. is = a @ j # r \<Longrightarrow> walk_table m t a = Some t' \<Longrightarrow> m' (t' + 8 * j) = m (t' + 8 * j)) \<Longrightarrow>
     walk_table m' t is = walk_table m t is"
  using walk_cong [of "is" m t m'] by blast

lemma walk_open_cong:
  "(\<And>a j r t'. is = a @ j # r \<Longrightarrow> walk_table m t a = Some t' \<Longrightarrow> m' (t' + 8 * j) = m (t' + 8 * j)) \<Longrightarrow>
     walk_open m' t is = walk_open m t is"
  using walk_cong [of "is" m t m'] by blast

section \<open>Well-formed page tables\<close>

abbreviation path_ok :: "u64 list \<Rightarrow> bool" where
  "path_ok is \<equiv> (\<forall>i \<in> set is. i < 512)"

text \<open>
  The invariant: every table reached by up to three indices is a whole frame that the allocator
  considers used, and no two paths share a table; every entry that leads to a table allows
  writing and executing. The frames have a bit in the bitmap.
\<close>

definition tables_inv :: "paging_state \<Rightarrow> bool" where
  "tables_inv s \<longleftrightarrow> 0 \<le> ps_phy_i s \<and> 0 \<le> ps_EndPhysicalPage s \<and> ps_EndPhysicalPage s \<le> int MAX_SYSTEM_MEMORY_PAGES \<and>
     (\<forall>is t. length is \<le> 3 \<and> path_ok is \<and> walk_table (ps_mem s) (ps_PML4Table s) is = Some t \<longrightarrow>
        (\<exists>p < MAX_SYSTEM_MEMORY_PAGES. t = frame_addr p \<and> frame_used (ps_bitmap s) p)) \<and>
     (\<forall>is js t. length is \<le> 3 \<and> path_ok is \<and> length js \<le> 3 \<and> path_ok js \<and>
        walk_table (ps_mem s) (ps_PML4Table s) is = Some t \<and>
        walk_table (ps_mem s) (ps_PML4Table s) js = Some t \<longrightarrow> is = js) \<and>
     (\<forall>is. length is \<le> 3 \<and> path_ok is \<longrightarrow> walk_open (ps_mem s) (ps_PML4Table s) is)"

lemma unat_cell:
  assumes "p < 2 ^ 40" and "i < 512"
  shows "unat (frame_addr p + 8 * i) = p * 4096 + 8 * unat i"
proof -
  have p: "unat (frame_addr p) = p * 4096" using assms(1) by (intro unat_frame_addr) simp
  have i: "unat i < 512" using assms(2) by (simp add: word_less_nat_alt)
  then have "unat (8 * i) = 8 * unat i" by (simp add: unat_word_ariths)
  with p i assms(1) show ?thesis by (subst unat_add_no_wrap) simp_all
qed

lemma cell_inj:
  assumes "p < 2 ^ 40" and "q < 2 ^ 40" and "i < 512" and "j < 512"
    and "frame_addr p + 8 * i = frame_addr q + 8 * j"
  shows "p = q \<and> i = j"
proof -
  have eq: "p * 4096 + 8 * unat i = q * 4096 + 8 * unat j"
    using unat_cell [OF assms(1,3)] unat_cell [OF assms(2,4)] assms(5) by simp
  have "unat i < 512" "unat j < 512" using assms(3,4) by (simp_all add: word_less_nat_alt)
  with eq have "p = q" by linarith
  with eq show ?thesis by (simp add: word_unat_eq_iff)
qed

lemma cell_page:
  assumes "p < 2 ^ 40" and "q < 2 ^ 40" and "i < 512"
  shows "frame_addr p + 8 * i - frame_addr q < 4096 \<longleftrightarrow> p = q"
proof -
  have q: "unat (frame_addr q) = q * 4096" using assms(2) by (intro unat_frame_addr) simp
  have i: "unat i < 512" using assms(3) by (simp add: word_less_nat_alt)
  have "in_block (frame_addr p + 8 * i) (frame_addr q) 4096 \<longleftrightarrow> p = q"
    using unat_cell [OF assms(1,3)] q i assms(2) by (subst in_block_interval) auto
  then show ?thesis by (simp add: in_block_def)
qed

section \<open>Entries\<close>

lemma bit_PML [simp]:
  "bit PML_PRESENT n \<longleftrightarrow> n = 0" "bit PML_WRITEABLE n \<longleftrightarrow> n = 1" "bit PML_PAGE_SIZE n \<longleftrightarrow> n = 7"
  "bit PML_EXECUTE_DISABLE n \<longleftrightarrow> n = 63"
  unfolding PML_PRESENT_def PML_WRITEABLE_def PML_PAGE_SIZE_def PML_EXECUTE_DISABLE_def bit_push_bit_iff
    bit_1_iff possible_bit_word by auto

lemma PML_ADDR_MASK_mask: "PML_ADDR_MASK = push_bit 12 (mask 40)"
  by (simp add: PML_ADDR_MASK_def mask_eq_exp_minus_1 push_bit_eq_mult)

lemma bit_PML_ADDR_MASK [simp]: "bit PML_ADDR_MASK n \<longleftrightarrow> 12 \<le> n \<and> n < 52"
  by (auto simp: PML_ADDR_MASK_mask bit_push_bit_iff bit_mask_iff possible_bit_word)

lemma bit_frame_addr: "p < 2 ^ 40 \<Longrightarrow> bit (frame_addr p) n \<longleftrightarrow> 12 \<le> n \<and> n < 52 \<and> bit p (n - 12)"
proof -
  assume p: "p < 2 ^ 40"
  have "frame_addr p = push_bit 12 (of_nat p)" by (simp add: frame_addr_def push_bit_eq_mult)
  then have "bit (frame_addr p) n \<longleftrightarrow> 12 \<le> n \<and> n < 64 \<and> bit p (n - 12)"
    by (auto simp: bit_push_bit_iff bit_of_nat_iff possible_bit_word)
  moreover have "bit p k \<Longrightarrow> k < 40" for k
    using p by (metis bit_take_bit_iff take_bit_nat_eq_self)
  ultimately show ?thesis by fastforce
qed

lemma and_flag:
  "e AND PML_PRESENT = 0 \<longleftrightarrow> \<not> bit e 0" "e AND PML_PAGE_SIZE = 0 \<longleftrightarrow> \<not> bit e 7"
proof -
  have flag: "PML_PRESENT = 2 ^ 0" "PML_PAGE_SIZE = 2 ^ 7" by (simp_all add: PML_PRESENT_def PML_PAGE_SIZE_def)
  show "e AND PML_PRESENT = 0 \<longleftrightarrow> \<not> bit e 0" unfolding flag by (rule and_exp_eq_0_iff_not_bit)
  show "e AND PML_PAGE_SIZE = 0 \<longleftrightarrow> \<not> bit e 7" unfolding flag by (rule and_exp_eq_0_iff_not_bit)
qed

lemma entry_rights_bits: "entry_writes e \<longleftrightarrow> bit e 1" "entry_executes e \<longleftrightarrow> \<not> bit e 63"
proof -
  have flag: "PML_WRITEABLE = 2 ^ 1" "PML_EXECUTE_DISABLE = 2 ^ 63"
    by (simp_all add: PML_WRITEABLE_def PML_EXECUTE_DISABLE_def)
  show "entry_writes e \<longleftrightarrow> bit e 1" unfolding entry_writes_def flag unfolding and_exp_eq_0_iff_not_bit by simp
  show "entry_executes e \<longleftrightarrow> \<not> bit e 63" unfolding entry_executes_def flag and_exp_eq_0_iff_not_bit by simp
qed

lemma table_entry:
  assumes "p < 2 ^ 40"
  defines "e \<equiv> frame_addr p OR PML_PRESENT OR PML_WRITEABLE"
  shows "e AND PML_PRESENT \<noteq> 0" "e AND PML_PAGE_SIZE = 0" "e AND PML_ADDR_MASK = frame_addr p"
    "entry_writes e" "entry_executes e"
  using assms(1) unfolding e_def and_flag entry_rights_bits
  by (auto simp: bit_eq_iff [of "_ AND PML_ADDR_MASK"] bit_and_iff bit_or_iff bit_frame_addr)

section \<open>Adding a table\<close>

lemma inv_frame_int:
  assumes "tables_inv s" and "walk_table (ps_mem s) (ps_PML4Table s) is = Some t" and "length is \<le> 3" and "path_ok is"
  obtains p where "p < MAX_SYSTEM_MEMORY_PAGES" "t = frame_addr p" "frame_used (ps_bitmap s) p"
  using assms unfolding tables_inv_def by blast

lemma inv_frame:
  assumes "tables_inv s" and "walk_table (ps_mem s) (ps_PML4Table s) is = Some t" and "length is \<le> 3" and "path_ok is"
  obtains p where "p < 2 ^ 40" "t = frame_addr p" "frame_used (ps_bitmap s) p"
  by (rule inv_frame_int [OF assms]) (rule that, simp_all)

lemma inv_unshared:
  assumes "tables_inv s" and "walk_table (ps_mem s) (ps_PML4Table s) is = Some t" and "length is \<le> 3" and "path_ok is"
    and "walk_table (ps_mem s) (ps_PML4Table s) js = Some t" and "length js \<le> 3" and "path_ok js"
  shows "is = js"
  using assms unfolding tables_inv_def by blast

lemma inv_open:
  assumes "tables_inv s" and "length is \<le> 3" and "path_ok is"
  shows "walk_open (ps_mem s) (ps_PML4Table s) is"
  using assms unfolding tables_inv_def by blast

text \<open>
  The cells read along a path that does not go through the entry \<open>i\<close> of the table of \<open>is\<close> are not
  changed by filling a free frame and writing that entry.
\<close>

lemma cell_distinct:
  assumes inv: "tables_inv s" and walk: "walk_table (ps_mem s) (ps_PML4Table s) is = Some t"
    and path: "length is \<le> 3" "path_ok (is @ [i])"
    and a: "walk_table (ps_mem s) (ps_PML4Table s) a = Some t'" "length a \<le> 3" "path_ok (a @ [j])"
    and other: "a @ [j] \<noteq> is @ [i]"
  shows "t' + 8 * j \<noteq> t + 8 * i"
proof
  assume eq: "t' + 8 * j = t + 8 * i"
  obtain q where q: "q < 2 ^ 40" "t = frame_addr q" using inv_frame [OF inv walk path(1)] path(2) by auto
  obtain q' where q': "q' < 2 ^ 40" "t' = frame_addr q'" using inv_frame [OF inv a(1,2)] a(3) by auto
  have ij: "i < 512" "j < 512" using path(2) a(3) by auto
  have "q' = q" "j = i" using cell_inj [OF q'(1) q(1) ij(2,1)] eq q(2) q'(2) by auto
  then have "t' = t" using q(2) q'(2) by simp
  then have "a = is" using inv_unshared [OF inv walk path(1) _ _ a(2)] a(1,3) path(2) by auto
  with \<open>j = i\<close> show False using other by simp
qed

lemma cell_not_in_free:
  assumes inv: "tables_inv s" and a: "walk_table (ps_mem s) (ps_PML4Table s) a = Some t'" "length a \<le> 3" "path_ok (a @ [j])"
    and free: "\<not> frame_used (ps_bitmap s) p" "p < 2 ^ 40"
  shows "\<not> t' + 8 * j - frame_addr p < 4096"
proof -
  obtain q' where q': "q' < 2 ^ 40" "t' = frame_addr q'" "frame_used (ps_bitmap s) q'"
    using inv_frame [OF inv a(1,2)] a(3) by auto
  have "j < 512" using a(3) by simp
  from cell_page [OF q'(1) free(2) this] show ?thesis using q'(2,3) free(1) by auto
qed

definition add_table :: "addr \<Rightarrow> u64 \<Rightarrow> nat \<Rightarrow> cells \<Rightarrow> cells" where
  "add_table t i p m = (\<lambda>a. if a - frame_addr p < 4096 then 0 else m a)
     (t + 8 * i := frame_addr p OR PML_PRESENT OR PML_WRITEABLE)"

lemma path_through: "js = a @ j # r \<Longrightarrow> a @ [j] = is @ [i] \<Longrightarrow> js = is @ i # r"
  by simp

lemma add_table_other:
  assumes inv: "tables_inv s" and walk: "walk_table (ps_mem s) (ps_PML4Table s) is = Some t"
    and path: "length is \<le> 3" "path_ok (is @ [i])" and free: "\<not> frame_used (ps_bitmap s) p" "p < 2 ^ 40"
    and js: "length js \<le> 4" "path_ok js" "\<nexists>r. js = is @ i # r"
  shows "walk_entry (add_table t i p (ps_mem s)) (ps_PML4Table s) js = walk_entry (ps_mem s) (ps_PML4Table s) js"
    and "walk_table (add_table t i p (ps_mem s)) (ps_PML4Table s) js = walk_table (ps_mem s) (ps_PML4Table s) js"
    and "walk_open (add_table t i p (ps_mem s)) (ps_PML4Table s) js = walk_open (ps_mem s) (ps_PML4Table s) js"
proof -
  have cell: "add_table t i p (ps_mem s) (t' + 8 * j) = ps_mem s (t' + 8 * j)"
    if "js = a @ j # r" "walk_table (ps_mem s) (ps_PML4Table s) a = Some t'" for a j r t'
  proof -
    have "length a \<le> 3" "path_ok (a @ [j])" using js(1,2) by (simp_all add: that(1))
    moreover have "a @ [j] \<noteq> is @ [i]" using js(3) path_through [OF that(1), of "is" i] by blast
    ultimately show ?thesis
      using cell_distinct [OF inv walk path that(2), of j] cell_not_in_free [OF inv that(2) _ _ free, of j]
      by (simp add: add_table_def)
  qed
  show "walk_entry (add_table t i p (ps_mem s)) (ps_PML4Table s) js = walk_entry (ps_mem s) (ps_PML4Table s) js"
    by (rule walk_entry_cong) (rule cell)
  show "walk_table (add_table t i p (ps_mem s)) (ps_PML4Table s) js = walk_table (ps_mem s) (ps_PML4Table s) js"
    by (rule walk_table_cong) (rule cell)
  show "walk_open (add_table t i p (ps_mem s)) (ps_PML4Table s) js = walk_open (ps_mem s) (ps_PML4Table s) js"
    by (rule walk_open_cong) (rule cell)
qed

lemma add_table_through:
  assumes inv: "tables_inv s" and walk: "walk_table (ps_mem s) (ps_PML4Table s) is = Some t"
    and path: "length is \<le> 2" "path_ok (is @ [i])" and free: "\<not> frame_used (ps_bitmap s) p" "p < 2 ^ 40"
    and absent: "ps_mem s (t + 8 * i) AND PML_PRESENT = 0" and r: "path_ok r"
  defines "m' \<equiv> add_table t i p (ps_mem s)"
  shows "walk_table (ps_mem s) (ps_PML4Table s) (is @ i # r) = None"
    and "walk_entry (ps_mem s) (ps_PML4Table s) (is @ i # r) = None"
    and "walk_table m' (ps_PML4Table s) (is @ i # r) = (if r = [] then Some (frame_addr p) else None)"
    and "r \<noteq> [] \<Longrightarrow> walk_entry m' (ps_PML4Table s) (is @ i # r) = None"
    and "walk_open m' (ps_PML4Table s) (is @ i # r)"
proof -
  have walk': "walk_table m' (ps_PML4Table s) is = Some t"
    using add_table_other(2) [OF inv walk _ path(2) free, of "is"] walk path unfolding m'_def by auto
  have new: "m' (t + 8 * i) = frame_addr p OR PML_PRESENT OR PML_WRITEABLE" by (simp add: m'_def add_table_def)
  obtain q where q: "q < 2 ^ 40" "t = frame_addr q" "frame_used (ps_bitmap s) q"
    using inv_frame [OF inv walk] path by auto
  have zero: "m' (frame_addr p + 8 * j) = 0" if "j < 512" for j
  proof -
    have "frame_addr p + 8 * j \<noteq> t + 8 * i"
      using cell_inj [OF free(2) q(1) that, of i] q(2,3) free(1) path(2) by auto
    moreover have "frame_addr p + 8 * j - frame_addr p < 4096" using cell_page [OF free(2) free(2) that] by blast
    ultimately show ?thesis by (simp add: m'_def add_table_def)
  qed
  note te = table_entry [OF free(2)]
  show "walk_table (ps_mem s) (ps_PML4Table s) (is @ i # r) = None"
    using walk absent by (simp add: walk_table_append Let_def)
  show "walk_entry (ps_mem s) (ps_PML4Table s) (is @ i # r) = None"
    using walk absent by (simp add: walk_entry_append Let_def)
  show "walk_table m' (ps_PML4Table s) (is @ i # r) = (if r = [] then Some (frame_addr p) else None)"
    using walk' new te zero r by (cases r) (simp_all add: walk_table_append Let_def)
  show "walk_entry m' (ps_PML4Table s) (is @ i # r) = None" if "r \<noteq> []"
    using walk' new te zero r that by (cases r) (simp_all add: walk_entry_append Let_def)
  have "length is \<le> 3" "path_ok is" using path by simp_all
  then have "walk_open m' (ps_PML4Table s) is"
    using inv_open [OF inv] add_table_other(3) [OF inv walk _ path(2) free, of "is"] unfolding m'_def by auto
  then show "walk_open m' (ps_PML4Table s) (is @ i # r)"
    using walk' new te zero r by (cases r) (simp_all add: walk_open_append Let_def)
qed

lemma frame_addr_inj: "p < 2 ^ 40 \<Longrightarrow> q < 2 ^ 40 \<Longrightarrow> frame_addr p = frame_addr q \<Longrightarrow> p = q"
  using cell_inj [of p q 0 0] by simp

lemma tables_inv_add_table:
  assumes inv: "tables_inv s" and walk: "walk_table (ps_mem s) (ps_PML4Table s) is = Some t"
    and path: "length is \<le> 2" "path_ok (is @ [i])" and free: "\<not> frame_used (ps_bitmap s) p" "p < MAX_SYSTEM_MEMORY_PAGES"
    and absent: "ps_mem s (t + 8 * i) AND PML_PRESENT = 0"
    and s': "ps_mem s' = add_table t i p (ps_mem s)" "ps_PML4Table s' = ps_PML4Table s"
      "\<And>q. frame_used (ps_bitmap s') q \<longleftrightarrow> q = p \<or> frame_used (ps_bitmap s) q"
      "0 \<le> ps_phy_i s'" "ps_EndPhysicalPage s' = ps_EndPhysicalPage s"
  shows "tables_inv s'"
proof -
  let ?w = "walk_table (ps_mem s) (ps_PML4Table s)" and ?w' = "walk_table (ps_mem s') (ps_PML4Table s')"
  have "length is \<le> 3" using path(1) by simp
  have p40: "p < 2 ^ 40" using free(2) by simp
  note other = add_table_other(2) [OF inv walk \<open>length is \<le> 3\<close> path(2) free(1) p40]
  note through = add_table_through [OF inv walk path free(1) p40 absent]
  have w': "js = is @ [i] \<and> t' = frame_addr p \<or> ?w js = Some t'"
    if "?w' js = Some t'" "length js \<le> 3" "path_ok js" for js t'
  proof (cases "\<exists>r. js = is @ i # r")
    case True
    then obtain r where r: "js = is @ i # r" by blast
    then have "path_ok r" using that(3) by simp
    from through(3) [OF this] that(1) show ?thesis by (auto simp: r s'(1,2) split: if_splits)
  next
    case False
    with other [of js] that show ?thesis by (simp add: s'(1,2))
  qed
  have new: "?w js \<noteq> Some (frame_addr p)" if "length js \<le> 3" "path_ok js" for js
  proof
    assume w: "?w js = Some (frame_addr p)"
    show False
      by (rule inv_frame [OF inv w that]) (use frame_addr_inj [OF p40] free(1) in blast)
  qed
  have A: "\<exists>q < MAX_SYSTEM_MEMORY_PAGES. t' = frame_addr q \<and> frame_used (ps_bitmap s') q"
    if "?w' js = Some t'" "length js \<le> 3" "path_ok js" for js t'
    using w' [OF that]
  proof
    assume "js = is @ [i] \<and> t' = frame_addr p"
    then show ?thesis using free(2) s'(3) by blast
  next
    assume w: "?w js = Some t'"
    show ?thesis by (rule inv_frame_int [OF inv w that(2,3)]) (use s'(3) in blast)
  qed
  have B: "as = bs"
    if a: "?w' as = Some t'" "length as \<le> 3" "path_ok as" and b: "?w' bs = Some t'" "length bs \<le> 3" "path_ok bs" for as bs t'
    using w' [OF a] w' [OF b] new [OF a(2,3)] new [OF b(2,3)] inv_unshared [OF inv _ a(2,3) _ b(2,3), of t'] by metis
  have C: "walk_open (ps_mem s') (ps_PML4Table s') js" if "length js \<le> 3" "path_ok js" for js
  proof (cases "\<exists>r. js = is @ i # r")
    case True
    then obtain r where r: "js = is @ i # r" by blast
    then have "path_ok r" using that(2) by simp
    from through(5) [OF this] show ?thesis by (simp add: r s'(1,2))
  next
    case False
    with add_table_other(3) [OF inv walk \<open>length is \<le> 3\<close> path(2) free(1) p40, of js] inv_open [OF inv that] that
    show ?thesis by (simp add: s'(1,2))
  qed
  show ?thesis
    unfolding tables_inv_def
  proof (intro conjI allI impI)
    show "0 \<le> ps_phy_i s'" "0 \<le> ps_EndPhysicalPage s'" "ps_EndPhysicalPage s' \<le> int MAX_SYSTEM_MEMORY_PAGES"
      using s'(4,5) inv by (auto simp: tables_inv_def)
  qed (use A B C in blast)+
qed

text \<open>What one level of the mapping function achieves.\<close>

lemma pml_ensure_spec:
  assumes inv: "tables_inv s" and walk: "walk_table (ps_mem s) (ps_PML4Table s) is = Some t"
    and path: "length is \<le> 2" "path_ok (is @ [i])"
    and small: "ps_mem s (t + 8 * i) AND PML_PRESENT \<noteq> 0 \<Longrightarrow> ps_mem s (t + 8 * i) AND PML_PAGE_SIZE = 0"
    and room: "free_frames s \<noteq> {}"
  defines "s' \<equiv> pml_ensure t i s"
  shows "tables_inv s'" and "ps_PML4Table s' = ps_PML4Table s"
    and "ps_SupportExecuteDisable s' = ps_SupportExecuteDisable s"
    and "walk_table (ps_mem s') (ps_PML4Table s) (is @ [i]) = Some (pml_next s' t i)"
    and "\<And>js. length js = 4 \<Longrightarrow> path_ok js \<Longrightarrow>
      walk_entry (ps_mem s') (ps_PML4Table s) js = walk_entry (ps_mem s) (ps_PML4Table s) js"
    and "card (free_frames s) \<le> Suc (card (free_frames s'))"
proof -
  have "tables_inv s' \<and> ps_PML4Table s' = ps_PML4Table s \<and>
     ps_SupportExecuteDisable s' = ps_SupportExecuteDisable s \<and>
     walk_table (ps_mem s') (ps_PML4Table s) (is @ [i]) = Some (pml_next s' t i) \<and>
     (\<forall>js. length js = 4 \<and> path_ok js \<longrightarrow>
        walk_entry (ps_mem s') (ps_PML4Table s) js = walk_entry (ps_mem s) (ps_PML4Table s) js) \<and>
     card (free_frames s) \<le> Suc (card (free_frames s'))"
  proof (cases "tbl_get s t i AND PML_PRESENT = 0")
    case False
    then have "s' = s" "ps_mem s (t + 8 * i) AND PML_PAGE_SIZE = 0"
      using small by (simp_all add: s'_def pml_ensure_def tbl_get_def)
    then show ?thesis using False inv walk
      by (simp add: walk_table_append pml_next_def tbl_get_def Let_def)
  next
    case True
    have st: "0 \<le> ps_phy_i s" "0 \<le> ps_EndPhysicalPage s" "ps_EndPhysicalPage s \<le> int MAX_SYSTEM_MEMORY_PAGES"
      using inv by (simp_all add: tables_inv_def)
    obtain p s1 where p: "paging_physical_AllocateOneFrame s = (frame_addr p, s1)" "p \<in> free_frames s"
        "frames_allocated [p] s s1" "free_frames s1 = free_frames s - {p}"
      using AllocateOneFrame_spec [OF st(1,2) room] by blast
    have "int p < ps_EndPhysicalPage s" using p(3) by (simp add: frames_allocated_def)
    then have p31: "p < MAX_SYSTEM_MEMORY_PAGES" using st(3) by simp
    then have p40: "p < 2 ^ 40" by simp
    have free: "\<not> frame_used (ps_bitmap s) p" using p(3) by (simp add: frames_allocated_def)
    have absent: "ps_mem s (t + 8 * i) AND PML_PRESENT = 0" using True by (simp add: tbl_get_def)
    have s1: "ps_mem s1 = (\<lambda>a. if a - frame_addr p < 4096 then 0 else ps_mem s a)" "ps_phy_i s \<le> ps_phy_i s1"
      "\<And>q. frame_used (ps_bitmap s1) q \<longleftrightarrow> q = p \<or> frame_used (ps_bitmap s) q"
      "s1 = s\<lparr>ps_phy_i := ps_phy_i s1, ps_bitmap := ps_bitmap s1, ps_mem := ps_mem s1\<rparr>"
      using p(3) by (auto simp: frames_allocated_def)
    have keep: "ps_PML4Table s1 = ps_PML4Table s" "ps_EndPhysicalPage s1 = ps_EndPhysicalPage s"
      "ps_SupportExecuteDisable s1 = ps_SupportExecuteDisable s"
      by (subst s1(4), simp)+
    have s': "s' = tbl_set t i (frame_addr p OR PML_PRESENT OR PML_WRITEABLE) s1"
      using True p(1) by (simp add: s'_def pml_ensure_def Let_def)
    have mem': "ps_mem s' = add_table t i p (ps_mem s)" by (simp add: s' tbl_set_def add_table_def s1(1))
    have rest: "ps_PML4Table s' = ps_PML4Table s" "ps_EndPhysicalPage s' = ps_EndPhysicalPage s"
      "ps_SupportExecuteDisable s' = ps_SupportExecuteDisable s" "0 \<le> ps_phy_i s'" "ps_bitmap s' = ps_bitmap s1"
      using keep s1(2) st(1) by (simp_all add: s' tbl_set_def)
    have "length is \<le> 3" using path(1) by simp
    note other = add_table_other(1) [OF inv walk this path(2) free p40]
    note through = add_table_through [OF inv walk path free p40 absent]
    have "tables_inv s'"
      using tables_inv_add_table [OF inv walk path free p31 absent mem' rest(1)] s1(3) rest by simp
    moreover have "walk_table (ps_mem s') (ps_PML4Table s) (is @ [i]) = Some (pml_next s' t i)"
      using through(3) [of "[]"] table_entry(3) [OF p40] by (simp add: mem' pml_next_def tbl_get_def add_table_def)
    moreover have "walk_entry (ps_mem s') (ps_PML4Table s) js = walk_entry (ps_mem s) (ps_PML4Table s) js"
      if js: "length js = 4" "path_ok js" for js
    proof (cases "\<exists>r. js = is @ i # r")
      case True
      then obtain r where r: "js = is @ i # r" by blast
      then have "path_ok r" "r \<noteq> []" using js path(1) by auto
      with through(2,4) show ?thesis by (simp add: r mem')
    next
      case False
      with other [of js] js show ?thesis by (simp add: mem')
    qed
    moreover have "free_frames s' = free_frames s - {p}"
      unfolding p(4) [symmetric] by (simp add: s' tbl_set_def free_frames_def)
    then have "card (free_frames s) \<le> Suc (card (free_frames s'))" using p(2) by (simp add: card_Diff_singleton)
    ultimately show ?thesis using rest by simp
  qed
  then show "tables_inv s'" "ps_PML4Table s' = ps_PML4Table s"
    "ps_SupportExecuteDisable s' = ps_SupportExecuteDisable s"
    "walk_table (ps_mem s') (ps_PML4Table s) (is @ [i]) = Some (pml_next s' t i)"
    "\<And>js. length js = 4 \<Longrightarrow> path_ok js \<Longrightarrow>
      walk_entry (ps_mem s') (ps_PML4Table s) js = walk_entry (ps_mem s) (ps_PML4Table s) js"
    "card (free_frames s) \<le> Suc (card (free_frames s'))" by blast+
qed

section \<open>Mapping one page\<close>

lemma leaf_write:
  assumes inv: "tables_inv s" and walk: "walk_table (ps_mem s) (ps_PML4Table s) is = Some t"
    and path: "length is = 3" "path_ok (is @ [i])" and e: "e AND PML_PRESENT \<noteq> 0"
  shows "tables_inv (tbl_set t i e s)"
    and "length js = 4 \<Longrightarrow> path_ok js \<Longrightarrow> walk_entry (ps_mem (tbl_set t i e s)) (ps_PML4Table s) js =
      (if js = is @ [i] then Some (e, 0) else walk_entry (ps_mem s) (ps_PML4Table s) js)"
proof -
  let ?m = "ps_mem (tbl_set t i e s)"
  have le: "length is \<le> 3" using path(1) by simp
  have cell: "?m (t' + 8 * j) = ps_mem s (t' + 8 * j)"
    if "js = a @ j # r" "walk_table (ps_mem s) (ps_PML4Table s) a = Some t'" "path_ok js" "length js \<le> 4" "js \<noteq> is @ [i]"
    for js a j r t'
  proof -
    have "length a \<le> 3" "path_ok (a @ [j])" using that(3,4) by (simp_all add: that(1))
    moreover have "a @ [j] \<noteq> is @ [i]" using that(1,4,5) path(1) by auto
    ultimately show ?thesis using cell_distinct [OF inv walk le path(2) that(2), of j] by (simp add: tbl_set_def)
  qed
  have tables: "walk_table ?m (ps_PML4Table s) js = walk_table (ps_mem s) (ps_PML4Table s) js \<and>
      walk_open ?m (ps_PML4Table s) js = walk_open (ps_mem s) (ps_PML4Table s) js"
    if "length js \<le> 3" "path_ok js" for js
  proof -
    have cell': "?m (t' + 8 * j) = ps_mem s (t' + 8 * j)"
      if "js = a @ j # r" "walk_table (ps_mem s) (ps_PML4Table s) a = Some t'" for a j r t'
      using cell [OF that] \<open>length js \<le> 3\<close> \<open>path_ok js\<close> path(1) by fastforce
    have "walk_entry ?m (ps_PML4Table s) js = walk_entry (ps_mem s) (ps_PML4Table s) js \<and>
      walk_table ?m (ps_PML4Table s) js = walk_table (ps_mem s) (ps_PML4Table s) js \<and>
      walk_open ?m (ps_PML4Table s) js = walk_open (ps_mem s) (ps_PML4Table s) js"
      by (rule walk_cong) (rule cell')
    then show ?thesis by blast
  qed
  then have table: "length js \<le> 3 \<Longrightarrow> path_ok js \<Longrightarrow>
      walk_table ?m (ps_PML4Table s) js = walk_table (ps_mem s) (ps_PML4Table s) js" for js by blast
  have st: "ps_PML4Table (tbl_set t i e s) = ps_PML4Table s" "ps_bitmap (tbl_set t i e s) = ps_bitmap s"
    "ps_phy_i (tbl_set t i e s) = ps_phy_i s" "ps_EndPhysicalPage (tbl_set t i e s) = ps_EndPhysicalPage s"
    by (simp_all add: tbl_set_def)
  show "tables_inv (tbl_set t i e s)"
    using inv unfolding tables_inv_def st by (auto simp: tables)
  show "walk_entry ?m (ps_PML4Table s) js = (if js = is @ [i] then Some (e, 0) else walk_entry (ps_mem s) (ps_PML4Table s) js)"
    if js: "length js = 4" "path_ok js"
  proof (cases "js = is @ [i]")
    case True
    have "walk_table ?m (ps_PML4Table s) is = Some t" using table [of "is"] walk path by simp
    with True e show ?thesis by (simp add: walk_entry_append Let_def tbl_set_def)
  next
    case False
    have "walk_entry ?m (ps_PML4Table s) js = walk_entry (ps_mem s) (ps_PML4Table s) js"
    proof (rule walk_entry_cong)
      fix a j r t' assume "js = a @ j # r" "walk_table (ps_mem s) (ps_PML4Table s) a = Some t'"
      from cell [OF this] js False show "?m (t' + 8 * j) = ps_mem s (t' + 8 * j)" by simp
    qed
    with False show ?thesis by simp
  qed
qed

lemma takeBitfield_9: "takeBitfield v (low + 8) low = take_bit 9 (drop_bit low v)"
  by (simp add: takeBitfield_def take_bit_eq_mask mask_eq_exp_minus_1)

lemma takeBitfield_lt: "takeBitfield v (low + 8) low < 512"
proof -
  have "unat (take_bit 9 (drop_bit low v)) < 2 ^ 9"
    unfolding unsigned_take_bit_eq by (rule take_bit_nat_less_exp)
  then show ?thesis by (simp add: takeBitfield_9 word_less_nat_alt)
qed

lemma path_ok_page_indices [simp]: "path_ok (page_indices v)" "length (page_indices v) = 4"
  using takeBitfield_lt [of v 39] takeBitfield_lt [of v 30] takeBitfield_lt [of v 21] takeBitfield_lt [of v 12]
  by (simp_all add: page_indices_def)

text \<open>No large page lies on the way to an address.\<close>

definition no_large_page :: "paging_state \<Rightarrow> u64 list \<Rightarrow> bool" where
  "no_large_page s is \<longleftrightarrow> (\<forall>e n. walk_entry (ps_mem s) (ps_PML4Table s) is = Some (e, n) \<longrightarrow> n = 0)"

lemma no_large_entry:
  assumes "no_large_page s (is @ i # r)" and "r \<noteq> []" and "walk_table (ps_mem s) (ps_PML4Table s) is = Some t"
    and "ps_mem s (t + 8 * i) AND PML_PRESENT \<noteq> 0"
  shows "ps_mem s (t + 8 * i) AND PML_PAGE_SIZE = 0"
  using assms by (auto simp: no_large_page_def walk_entry_append Let_def split: if_splits)

lemma leaf_address:
  assumes "physical AND PML_ADDR_MASK = physical"
  shows "(physical OR PML_PRESENT OR pml_flags flags s) AND PML_ADDR_MASK = physical"
    and "(physical OR PML_PRESENT OR pml_flags flags s) AND PML_PRESENT \<noteq> 0"
proof -
  have "bit physical n \<Longrightarrow> 12 \<le> n \<and> n < 52" for n using assms by (metis bit_and_iff bit_PML_ADDR_MASK)
  moreover have "bit (pml_flags flags s) n \<Longrightarrow> n = 1 \<or> n = 63" for n
    by (auto simp: pml_flags_def bit_or_iff split: if_splits)
  ultimately show "(physical OR PML_PRESENT OR pml_flags flags s) AND PML_ADDR_MASK = physical"
    by (intro bit_word_eqI) (fastforce simp: bit_and_iff bit_or_iff)
  show "(physical OR PML_PRESENT OR pml_flags flags s) AND PML_PRESENT \<noteq> 0"
    by (simp add: and_flag bit_or_iff)
qed

lemma pml_flags_cong: "ps_SupportExecuteDisable s' = ps_SupportExecuteDisable s \<Longrightarrow> pml_flags flags s' = pml_flags flags s"
  by (simp add: pml_flags_def)

lemma leaf_rights:
  assumes "physical AND PML_ADDR_MASK = physical"
  shows "(entry_writes (physical OR PML_PRESENT OR pml_flags flags s),
      entry_executes (physical OR PML_PRESENT OR pml_flags flags s)) = rights_asked flags s"
proof -
  have "bit physical n \<Longrightarrow> 12 \<le> n \<and> n < 52" for n using assms by (metis bit_and_iff bit_PML_ADDR_MASK)
  then have "\<not> bit physical 1" "\<not> bit physical 63" by fastforce+
  then show ?thesis by (auto simp: rights_asked_def entry_rights_bits bit_or_iff pml_flags_def)
qed

text \<open>What mapping one page needs, and what it achieves.\<close>

lemma paging_map_one_spec:
  fixes flags :: u32
  assumes inv: "tables_inv s" and room: "3 \<le> card (free_frames s)" and small: "no_large_page s (page_indices v)"
    and phys: "physical AND PML_ADDR_MASK = physical"
  defines "s' \<equiv> paging_map_one physical v flags s"
  shows "tables_inv s'" and "ps_PML4Table s' = ps_PML4Table s"
    and "card (free_frames s) \<le> card (free_frames s') + 3"
    and "\<And>js. length js = 4 \<Longrightarrow> path_ok js \<Longrightarrow> walk_entry (ps_mem s') (ps_PML4Table s) js =
      (if js = page_indices v then Some (physical OR PML_PRESENT OR pml_flags flags s, 0)
       else walk_entry (ps_mem s) (ps_PML4Table s) js)"
    and "ps_SupportExecuteDisable s' = ps_SupportExecuteDisable s"
proof -
  define i4 i3 i2 i1 where "i4 = takeBitfield v 47 39" and "i3 = takeBitfield v 38 30"
    and "i2 = takeBitfield v 29 21" and "i1 = takeBitfield v 20 12"
  note idef = i4_def i3_def i2_def i1_def
  have pi: "page_indices v = [i4, i3, i2, i1]" by (simp add: page_indices_def idef)
  then have lt: "i4 < 512" "i3 < 512" "i2 < 512" "i1 < 512" using path_ok_page_indices(1) [of v] by auto
  let ?r = "ps_PML4Table s"
  define s1 where "s1 = pml_ensure ?r i4 s"
  define t3 where "t3 = pml_next s1 ?r i4"
  define s2 where "s2 = pml_ensure t3 i3 s1"
  define t2 where "t2 = pml_next s2 t3 i3"
  define s3 where "s3 = pml_ensure t2 i2 s2"
  define t1 where "t1 = pml_next s3 t2 i2"
  define e where "e = physical OR PML_PRESENT OR pml_flags flags s3"
  have s': "s' = tbl_set t1 i1 e s3"
    by (simp add: s'_def paging_map_one_def Let_def idef [symmetric] s1_def [symmetric] t3_def [symmetric]
        s2_def [symmetric] t2_def [symmetric] s3_def [symmetric] t1_def [symmetric] e_def)
  have w0: "walk_table (ps_mem s) ?r [] = Some ?r" by simp
  have p4: "length [] \<le> (2 :: nat)" "path_ok ([] @ [i4])" using lt by simp_all
  have room0: "free_frames s \<noteq> {}" using room by auto
  have sm4: "ps_mem s (?r + 8 * i4) AND PML_PAGE_SIZE = 0" if "ps_mem s (?r + 8 * i4) AND PML_PRESENT \<noteq> 0"
    using no_large_entry [OF _ _ w0 that, of "[i3, i2, i1]"] small pi by simp
  note e1 = pml_ensure_spec [OF inv w0 p4 sm4 room0, folded s1_def]
  have card1: "2 \<le> card (free_frames s1)" using e1(6) room by linarith
  then have room1: "free_frames s1 \<noteq> {}" by auto
  have w1: "walk_table (ps_mem s1) (ps_PML4Table s1) [i4] = Some t3" using e1(2,4) by (simp add: t3_def)
  have p3: "length [i4] \<le> 2" "path_ok ([i4] @ [i3])" using lt by simp_all
  have "no_large_page s1 (page_indices v)" using small e1(2,5) by (simp add: no_large_page_def)
  then have sm3: "ps_mem s1 (t3 + 8 * i3) AND PML_PAGE_SIZE = 0" if "ps_mem s1 (t3 + 8 * i3) AND PML_PRESENT \<noteq> 0"
    using no_large_entry [OF _ _ w1 that, of "[i2, i1]"] pi by simp
  note e2 = pml_ensure_spec [OF e1(1) w1 p3 sm3 room1, folded s2_def]
  have card2: "1 \<le> card (free_frames s2)" using e2(6) card1 by linarith
  then have room2: "free_frames s2 \<noteq> {}" by auto
  have w2: "walk_table (ps_mem s2) (ps_PML4Table s2) [i4, i3] = Some t2" using e2(2,4) by (simp add: t2_def)
  have p2: "length [i4, i3] \<le> 2" "path_ok ([i4, i3] @ [i2])" using lt by simp_all
  have "no_large_page s2 (page_indices v)" using small e1(2,5) e2(2,5) by (simp add: no_large_page_def)
  then have sm2: "ps_mem s2 (t2 + 8 * i2) AND PML_PAGE_SIZE = 0" if "ps_mem s2 (t2 + 8 * i2) AND PML_PRESENT \<noteq> 0"
    using no_large_entry [OF _ _ w2 that, of "[i1]"] pi by simp
  note e3 = pml_ensure_spec [OF e2(1) w2 p2 sm2 room2, folded s3_def]
  have w3: "walk_table (ps_mem s3) (ps_PML4Table s3) [i4, i3, i2] = Some t1" using e3(2,4) by (simp add: t1_def)
  have p1: "length [i4, i3, i2] = 3" "path_ok ([i4, i3, i2] @ [i1])" using lt by simp_all
  note le = leaf_address [OF phys, of flags s3, folded e_def]
  note leaf = leaf_write [OF e3(1) w3 p1 le(2), folded s']
  have root: "ps_PML4Table s3 = ?r" using e1(2) e2(2) e3(2) by simp
  show "tables_inv s'" by (rule leaf(1))
  show "ps_PML4Table s' = ?r" using root by (simp add: s' tbl_set_def)
  have "free_frames s' = free_frames s3" by (simp add: s' tbl_set_def free_frames_def)
  then show "card (free_frames s) \<le> card (free_frames s') + 3" using e1(6) e2(6) e3(6) by simp
  have sup: "ps_SupportExecuteDisable s3 = ps_SupportExecuteDisable s" using e1(3) e2(3) e3(3) by simp
  then show "ps_SupportExecuteDisable s' = ps_SupportExecuteDisable s" by (simp add: s' tbl_set_def)
  have e: "e = physical OR PML_PRESENT OR pml_flags flags s" unfolding e_def pml_flags_cong [OF sup] ..
  fix js :: "u64 list" assume js: "length js = 4" "path_ok js"
  have "walk_entry (ps_mem s3) ?r js = walk_entry (ps_mem s) ?r js" using e1(2,5) e2(2,5) e3(5) js by simp
  with leaf(2) [of js] js root e show "walk_entry (ps_mem s') ?r js =
      (if js = page_indices v then Some (physical OR PML_PRESENT OR pml_flags flags s, 0) else walk_entry (ps_mem s) ?r js)"
    by (simp add: pi)
qed

section \<open>Mapping a range of pages\<close>

definition page_number :: "u64 \<Rightarrow> nat" where
  "page_number v = unat v div 4096 mod 2 ^ 36"

lemma take_bit_eq_bits: "take_bit k (x :: u64) = take_bit k y \<longleftrightarrow> (\<forall>n < k. bit x n = bit y n)"
proof
  assume eq: "take_bit k x = take_bit k y"
  have "bit (take_bit k x) n = bit (take_bit k y) n" for n by (simp add: eq)
  then show "\<forall>n < k. bit x n = bit y n" by (auto simp: bit_take_bit_iff)
qed (auto intro!: bit_word_eqI simp: bit_take_bit_iff)

lemma all_shift: "(\<forall>n < k. P (low + n)) \<longleftrightarrow> (\<forall>n. low \<le> n \<and> n < low + k \<longrightarrow> P (n :: nat))"
  by (metis le_add1 le_iff_add nat_add_left_cancel_less)

lemma all_join:
  "a \<le> b \<Longrightarrow> b \<le> c \<Longrightarrow> (\<forall>n. b \<le> n \<and> n < c \<longrightarrow> P n) \<and> (\<forall>n. a \<le> n \<and> n < b \<longrightarrow> P n) \<longleftrightarrow>
     (\<forall>n. a \<le> n \<and> n < c \<longrightarrow> P (n :: nat))"
  by (meson le_trans less_le_trans not_le)

lemma page_number_bits: "page_number v = page_number w \<longleftrightarrow> (\<forall>n. 12 \<le> n \<and> n < 48 \<longrightarrow> bit v n = bit w n)"
proof -
  have pn: "page_number v = unat (take_bit 36 (drop_bit 12 v))" for v :: u64
    by (simp add: page_number_def unsigned_take_bit_eq take_bit_eq_mod drop_bit_eq_div unat_div unat_mod)
  have "page_number v = page_number w \<longleftrightarrow> (\<forall>n < 36. bit v (12 + n) = bit w (12 + n))"
    unfolding pn word_unat_eq_iff [symmetric] take_bit_eq_bits by (simp add: bit_drop_bit_eq)
  also have "\<dots> \<longleftrightarrow> (\<forall>n. 12 \<le> n \<and> n < 48 \<longrightarrow> bit v n = bit w n)"
    using all_shift [of 36 "\<lambda>n. bit v n = bit w n" 12] by simp
  finally show ?thesis .
qed

lemma takeBitfield_bits:
  "takeBitfield v (low + 8) low = takeBitfield w (low + 8) low \<longleftrightarrow>
     (\<forall>n. low \<le> n \<and> n < low + 9 \<longrightarrow> bit v n = bit w n)"
proof -
  have "takeBitfield v (low + 8) low = takeBitfield w (low + 8) low \<longleftrightarrow> (\<forall>n < 9. bit v (low + n) = bit w (low + n))"
    unfolding takeBitfield_9 take_bit_eq_bits by (simp add: bit_drop_bit_eq)
  also have "\<dots> \<longleftrightarrow> (\<forall>n. low \<le> n \<and> n < low + 9 \<longrightarrow> bit v n = bit w n)"
    by (rule all_shift)
  finally show ?thesis .
qed

lemma page_indices_eq: "page_indices v = page_indices w \<longleftrightarrow> page_number v = page_number w"
proof -
  let ?P = "\<lambda>n. bit v n = bit w n"
  have "page_indices v = page_indices w \<longleftrightarrow>
      (\<forall>n. 39 \<le> n \<and> n < 48 \<longrightarrow> ?P n) \<and> (\<forall>n. 30 \<le> n \<and> n < 39 \<longrightarrow> ?P n) \<and>
      (\<forall>n. 21 \<le> n \<and> n < 30 \<longrightarrow> ?P n) \<and> (\<forall>n. 12 \<le> n \<and> n < 21 \<longrightarrow> ?P n)"
    using takeBitfield_bits [of v 39 w] takeBitfield_bits [of v 30 w] takeBitfield_bits [of v 21 w]
      takeBitfield_bits [of v 12 w] by (simp add: page_indices_def)
  also have "\<dots> \<longleftrightarrow> (\<forall>n. 12 \<le> n \<and> n < 48 \<longrightarrow> ?P n)"
    using all_join [of 30 39 48 ?P] all_join [of 21 30 48 ?P] all_join [of 12 21 48 ?P] by simp blast
  finally show ?thesis unfolding page_number_bits .
qed

lemma page_number_add:
  assumes "v mod SYSTEM_PAGE_SIZE = 0" and "off < 4096" and "k < 2 ^ 36"
  shows "page_number (v + of_nat k * 4096 + off) = (page_number v + k) mod 2 ^ 36"
proof -
  have v: "4096 dvd unat v" using assms(1) by (simp add: SYSTEM_PAGE_SIZE_def word_unat_eq_iff unat_mod mod_eq_0_iff_dvd)
  then obtain u where u: "unat v = 4096 * u" by blast
  have k: "unat (of_nat k * 4096 :: u64) = k * 4096" using unat_frame_addr [of k] assms(3) by (simp add: frame_addr_def)
  have off: "unat off < 4096" using assms(2) by (simp add: word_less_nat_alt)
  define x where "x = u + k"
  have "unat (v + of_nat k * 4096 + off) = (4096 * x + unat off) mod 2 ^ 64"
    by (simp add: unat_word_ariths(1) k u mod_add_left_eq distrib_left mult.commute x_def)
  moreover have "(4096 * x + unat off) mod 2 ^ 64 = 4096 * (x mod 2 ^ 52) + unat off"
  proof -
    have "(4096 * x + unat off) mod (4096 * 2 ^ 52) = 4096 * ((4096 * x + unat off) div 4096 mod 2 ^ 52) + (4096 * x + unat off) mod 4096"
      by (rule mod_mult2_eq)
    then show ?thesis using off by simp
  qed
  ultimately have "unat (v + of_nat k * 4096 + off) div 4096 = x mod 2 ^ 52" using off by simp
  moreover have "x mod 2 ^ 52 mod 2 ^ 36 = x mod 2 ^ 36"
    by (rule mod_mod_cancel) (simp add: le_imp_power_dvd)
  ultimately show ?thesis using u by (simp add: page_number_def mod_add_left_eq x_def)
qed

lemma aligned_mask:
  assumes "x mod SYSTEM_PAGE_SIZE = 0" and "unat x < 2 ^ 52"
  shows "x AND PML_ADDR_MASK = x"
proof -
  have "4096 dvd unat x" using assms(1) by (simp add: SYSTEM_PAGE_SIZE_def word_unat_eq_iff unat_mod mod_eq_0_iff_dvd)
  then obtain p where p: "unat x = 4096 * p" by blast
  then have p40: "p < 2 ^ 40" using assms(2) by simp
  have "unat (frame_addr p) = p * 4096" using p40 by (intro unat_frame_addr) simp
  then have "x = frame_addr p" using p by (simp add: word_unat_eq_iff)
  then show ?thesis using p40 by (auto intro!: bit_word_eqI simp: bit_and_iff bit_frame_addr)
qed

lemma mod_add_page: "v mod SYSTEM_PAGE_SIZE = 0 \<Longrightarrow> (v + SYSTEM_PAGE_SIZE) mod SYSTEM_PAGE_SIZE = 0"
proof -
  assume "v mod SYSTEM_PAGE_SIZE = 0"
  then have "4096 dvd unat v" by (simp add: SYSTEM_PAGE_SIZE_def word_unat_eq_iff unat_mod mod_eq_0_iff_dvd)
  then have "4096 dvd (unat v + 4096) mod (4096 * 2 ^ 52)" by (simp add: dvd_mod)
  then show ?thesis
    by (simp add: SYSTEM_PAGE_SIZE_def word_unat_eq_iff unat_mod unat_word_ariths(1) mod_eq_0_iff_dvd)
qed

text \<open>Distinct pages of a range have distinct indices.\<close>

lemma page_number_next:
  assumes "v mod SYSTEM_PAGE_SIZE = 0" and "0 < k" and "k < 2 ^ 36"
  shows "page_number (v + of_nat k * 4096) \<noteq> page_number v"
proof
  assume eq: "page_number (v + of_nat k * 4096) = page_number v"
  have "page_number (v + of_nat k * 4096) = (page_number v + k) mod 2 ^ 36"
    using page_number_add [OF assms(1) _ assms(3), of 0] by simp
  moreover have "page_number v = (page_number v + 0) mod 2 ^ 36" by (simp add: page_number_def)
  ultimately have "(page_number v + k) mod 2 ^ 36 = (page_number v + 0) mod 2 ^ 36" using eq by simp
  from mod_add_inj [OF assms(3) _ this] assms(2) show False by simp
qed

text \<open>A page is mapped to a frame, by an entry of the last level with the rights asked for.\<close>

definition maps_page :: "paging_state \<Rightarrow> u64 \<Rightarrow> u64 \<Rightarrow> u32 \<Rightarrow> bool" where
  "maps_page s v phys flags \<longleftrightarrow> phys AND PML_ADDR_MASK = phys \<and>
     walk_entry (ps_mem s) (ps_PML4Table s) (page_indices v) = Some (phys OR PML_PRESENT OR pml_flags flags s, 0)"

lemma maps_page_translate: "maps_page s v phys flags \<Longrightarrow> page_number v' = page_number v \<Longrightarrow>
    translate s v' = Some (phys OR take_bit 12 v')"
  by (auto simp: maps_page_def translate_def page_indices_eq [symmetric] leaf_address)

lemma page_rights_entry:
  assumes "tables_inv s"
  shows "page_rights s v = map_option (\<lambda>(e, n). (entry_writes e, entry_executes e))
    (walk_entry (ps_mem s) (ps_PML4Table s) (page_indices v))"
proof -
  have "path_ok (page_indices v)" by simp
  then have "path_ok (butlast (page_indices v))" by (meson in_set_butlastD)
  then have "walk_open (ps_mem s) (ps_PML4Table s) (butlast (page_indices v))" using inv_open [OF assms] by simp
  then show ?thesis unfolding page_rights_def by (rule walk_rights_open)
qed

lemma maps_page_rights: "maps_page s v phys flags \<Longrightarrow> tables_inv s \<Longrightarrow> page_number v' = page_number v \<Longrightarrow>
    page_rights s v' = Some (rights_asked flags s)"
  using leaf_rights by (auto simp: maps_page_def page_rights_entry page_indices_eq [symmetric])

lemma paging_map_loop_spec:
  fixes flags :: u32
  assumes "tables_inv s" and "3 * n \<le> card (free_frames s)" and "n \<le> 2 ^ 36"
    and "\<And>k. k < n \<Longrightarrow> no_large_page s (page_indices (v + of_nat k * 4096))"
    and "physical mod SYSTEM_PAGE_SIZE = 0" and "unat physical + n * 4096 \<le> 2 ^ 52" and "v mod SYSTEM_PAGE_SIZE = 0"
  defines "s' \<equiv> paging_map_loop n physical v flags s"
  shows "tables_inv s' \<and> ps_PML4Table s' = ps_PML4Table s \<and> ps_SupportExecuteDisable s' = ps_SupportExecuteDisable s \<and>
    (\<forall>k < n. maps_page s' (v + of_nat k * 4096) (physical + of_nat k * 4096) flags) \<and>
    (\<forall>js. length js = 4 \<and> path_ok js \<and> (\<forall>k < n. js \<noteq> page_indices (v + of_nat k * 4096)) \<longrightarrow>
       walk_entry (ps_mem s') (ps_PML4Table s) js = walk_entry (ps_mem s) (ps_PML4Table s) js)"
  using assms(1-7) unfolding s'_def
proof (induction n arbitrary: s physical v)
  case (Suc n)
  let ?s1 = "paging_map_one physical v flags s" and ?p1 = "physical + SYSTEM_PAGE_SIZE" and ?v1 = "v + SYSTEM_PAGE_SIZE"
  let ?r = "ps_PML4Table s"
  let ?s' = "paging_map_loop n ?p1 ?v1 flags ?s1"
  have shift: "v + of_nat (Suc k) * 4096 = ?v1 + of_nat k * 4096" "physical + of_nat (Suc k) * 4096 = ?p1 + of_nat k * 4096" for k
    by (simp_all add: SYSTEM_PAGE_SIZE_def algebra_simps)
  have room: "3 \<le> card (free_frames s)" using Suc.prems(2) by simp
  have small: "no_large_page s (page_indices v)" using Suc.prems(4) [of 0] by simp
  have mask: "physical AND PML_ADDR_MASK = physical" using Suc.prems(5,6) by (intro aligned_mask) simp_all
  note one = paging_map_one_spec [OF Suc.prems(1) room small mask, where flags = flags]
  have room1: "3 * n \<le> card (free_frames ?s1)" using Suc.prems(2) one(3) by simp
  have n1: "n \<le> 2 ^ 36" using Suc.prems(3) by simp
  have small1: "no_large_page ?s1 (page_indices (?v1 + of_nat k * 4096))" if "k < n" for k
    using Suc.prems(4) [of "Suc k"] that one(4) [of "page_indices (?v1 + of_nat k * 4096)"] one(2)
    unfolding shift no_large_page_def by auto
  have p1: "?p1 mod SYSTEM_PAGE_SIZE = 0" using Suc.prems(5) by (rule mod_add_page)
  have "unat ?p1 = unat physical + 4096" using Suc.prems(6) by (subst unat_add_no_wrap) (simp_all add: SYSTEM_PAGE_SIZE_def)
  then have p1': "unat ?p1 + n * 4096 \<le> 2 ^ 52" using Suc.prems(6) by simp
  note ih = Suc.IH [OF one(1) room1 n1 small1 p1 p1' mod_add_page [OF Suc.prems(7)]]
  have sep: "page_indices v \<noteq> page_indices (?v1 + of_nat k * 4096)" if "k < n" for k
    using page_number_next [OF Suc.prems(7), of "Suc k"] that Suc.prems(3) unfolding shift page_indices_eq by simp
  have sup: "ps_SupportExecuteDisable ?s' = ps_SupportExecuteDisable s" using ih one(5) by simp
  have "walk_entry (ps_mem ?s') ?r (page_indices v) = Some (physical OR PML_PRESENT OR pml_flags flags ?s', 0)"
    using ih one(4) [of "page_indices v"] sep one(2) pml_flags_cong [OF sup, of flags] by auto
  then have first: "maps_page ?s' v physical flags" using ih one(2) mask by (simp add: maps_page_def)
  have "maps_page ?s' (v + of_nat k * 4096) (physical + of_nat k * 4096) flags" if "k < Suc n" for k
    using first ih that unfolding less_Suc_eq_0_disj by (auto simp: shift simp del: of_nat_Suc)
  moreover have "walk_entry (ps_mem ?s') ?r js = walk_entry (ps_mem s) ?r js"
    if js: "length js = 4" "path_ok js" "\<forall>k < Suc n. js \<noteq> page_indices (v + of_nat k * 4096)" for js
  proof -
    have "js \<noteq> page_indices v" using js(3) by (metis add.right_neutral mult_zero_left of_nat_0 zero_less_Suc)
    moreover have "\<forall>k < n. js \<noteq> page_indices (?v1 + of_nat k * 4096)" using js(3) unfolding shift [symmetric] by (metis Suc_mono)
    ultimately show ?thesis using ih one(4) [OF js(1,2)] js(1,2) one(2) by simp
  qed
  ultimately show ?case using ih one(2) sup by simp
qed simp

section \<open>Properties\<close>

definition empty_tables :: paging_state where
  "empty_tables = \<lparr>ps_bitmap = (\<lambda>i. if i < 4 then - 1 else 0), ps_phy_i = 4, ps_phy_i_2M = 8,
     ps_EndPhysicalPage = 4096, ps_mem = (\<lambda>_. 0), ps_PML4Table = 0x1000, ps_SupportExecuteDisable = True\<rparr>"

lemma empty_tables_walk: "walk_table (\<lambda>_. 0) t js = (if js = [] then Some t else None)"
  by (cases js) auto

lemma empty_tables_open: "walk_open (\<lambda>_. 0) t js"
  by (cases js) auto

lemma empty_tables_inv: "tables_inv empty_tables"
proof -
  have "frame_used (ps_bitmap empty_tables) 1" by (simp add: frame_used_def empty_tables_def)
  moreover have "(0x1000 :: u64) = frame_addr 1" by (simp add: frame_addr_def)
  ultimately show ?thesis
    by (auto simp: tables_inv_def empty_tables_walk empty_tables_open empty_tables_def split: if_splits intro!: exI [of _ 1])
qed

lemma empty_tables_room: "6 \<le> card (free_frames empty_tables)"
proof -
  have "{256 ..< 262} \<subseteq> free_frames empty_tables"
    by (auto simp: free_frames_def frame_used_def empty_tables_def)
  from card_mono [OF finite_free_frames this] show ?thesis by simp
qed

lemma empty_tables_no_large: "no_large_page empty_tables is"
  by (cases "is") (auto simp: no_large_page_def empty_tables_def)

text \<open>
  C4: \<^verbatim>\<open>paging_map_Page\<close> builds the translation asked for, with the rights asked for, for aligned addresses and physical ones below
  \<open>2 ^ 52\<close>. With three free
  frames per page for new tables and no large page in the way, each virtual page of the range
  translates to its physical page afterwards, for every offset; it can be written exactly if
  \<^verbatim>\<open>MAP_PROT_WRITE\<close> is among the flags, and executed exactly if \<^verbatim>\<open>MAP_PROT_EXEC\<close> is or the processor
  does not support the bit that forbids it. Every address outside the range has the translation and the
  rights it had before, and the page tables stay well formed: whole used frames, none of
  them shared, reached through entries that restrict nothing.
\<close>

theorem paging_map_Page_translates:
  assumes "tables_inv s" and "3 * n \<le> card (free_frames s)" and "n \<le> 2 ^ 36"
    and "\<And>k. k < n \<Longrightarrow> no_large_page s (page_indices (v + of_nat k * 4096))"
    and "physical mod SYSTEM_PAGE_SIZE = 0" and "unat physical + n * 4096 \<le> 2 ^ 52" and "v mod SYSTEM_PAGE_SIZE = 0"
  shows "\<exists>s'. paging_map_Page physical v n flags s = Some s' \<and> tables_inv s' \<and>
    (\<forall>k < n. \<forall>v'. page_number v' = page_number (v + of_nat k * 4096) \<longrightarrow>
       translate s' v' = Some ((physical + of_nat k * 4096) OR take_bit 12 v') \<and>
       page_rights s' v' = Some (rights_asked flags s)) \<and>
    (\<forall>v'. (\<forall>k < n. page_number v' \<noteq> page_number (v + of_nat k * 4096)) \<longrightarrow>
       translate s' v' = translate s v' \<and> page_rights s' v' = page_rights s v')"
proof -
  let ?s' = "paging_map_loop n physical v flags s"
  note spec = paging_map_loop_spec [OF assms, of flags]
  have inv': "tables_inv ?s'" using spec by blast
  have asked: "rights_asked flags ?s' = rights_asked flags s" using spec by (simp add: rights_asked_def)
  have "translate ?s' v' = translate s v' \<and> page_rights ?s' v' = page_rights s v'"
    if "\<forall>k < n. page_number v' \<noteq> page_number (v + of_nat k * 4096)" for v'
  proof -
    have "walk_entry (ps_mem ?s') (ps_PML4Table s) (page_indices v') = walk_entry (ps_mem s) (ps_PML4Table s) (page_indices v')"
      using spec that by (simp add: page_indices_eq)
    then show ?thesis using spec page_rights_entry [OF inv'] page_rights_entry [OF assms(1)] by (simp add: translate_def)
  qed
  moreover have "translate ?s' v' = Some ((physical + of_nat k * 4096) OR take_bit 12 v') \<and>
      page_rights ?s' v' = Some (rights_asked flags s)"
    if "k < n" "page_number v' = page_number (v + of_nat k * 4096)" for k v'
  proof -
    have "maps_page ?s' (v + of_nat k * 4096) (physical + of_nat k * 4096) flags" using spec that(1) by blast
    from maps_page_translate [OF this that(2)] maps_page_rights [OF this inv' that(2)] asked show ?thesis by simp
  qed
  moreover have "paging_map_Page physical v n flags s = Some ?s'" using assms(5,7) by (simp add: paging_map_Page_def)
  ultimately show ?thesis using inv' by blast
qed

theorem paging_map_Page_translates_witness:
  "\<exists>s'. paging_map_Page 0x400000 0xFFFFFFFFC0000000 2 MAP_PROT_WRITE empty_tables = Some s' \<and>
     translate s' 0xFFFFFFFFC0001234 = Some 0x401234 \<and> page_rights s' 0xFFFFFFFFC0001234 = Some (True, False) \<and>
     translate s' 0xFFFFFFFFC0002000 = None"
proof -
  let ?v = "0xFFFFFFFFC0000000 :: u64"
  have room: "3 * 2 \<le> card (free_frames empty_tables)" using empty_tables_room by simp
  have "\<exists>s'. paging_map_Page 0x400000 ?v 2 MAP_PROT_WRITE empty_tables = Some s' \<and> tables_inv s' \<and>
    (\<forall>k < 2. \<forall>v'. page_number v' = page_number (?v + of_nat k * 4096) \<longrightarrow>
       translate s' v' = Some ((0x400000 + of_nat k * 4096) OR take_bit 12 v') \<and>
       page_rights s' v' = Some (rights_asked MAP_PROT_WRITE empty_tables)) \<and>
    (\<forall>v'. (\<forall>k < 2. page_number v' \<noteq> page_number (?v + of_nat k * 4096)) \<longrightarrow>
       translate s' v' = translate empty_tables v' \<and> page_rights s' v' = page_rights empty_tables v')"
    by (rule paging_map_Page_translates [OF empty_tables_inv room _ empty_tables_no_large])
       (simp_all add: SYSTEM_PAGE_SIZE_def)
  then obtain s' where s': "paging_map_Page 0x400000 ?v 2 MAP_PROT_WRITE empty_tables = Some s'"
      "\<And>k v'. k < 2 \<Longrightarrow> page_number v' = page_number (?v + of_nat k * 4096) \<Longrightarrow>
         translate s' v' = Some ((0x400000 + of_nat k * 4096) OR take_bit 12 v') \<and>
         page_rights s' v' = Some (rights_asked MAP_PROT_WRITE empty_tables)"
      "\<And>v'. (\<forall>k < 2. page_number v' \<noteq> page_number (?v + of_nat k * 4096)) \<Longrightarrow> translate s' v' = translate empty_tables v'"
    by blast
  have "translate s' 0xFFFFFFFFC0001234 = Some 0x401234"
    using s'(2) [of 1 "0xFFFFFFFFC0001234"] by (simp add: page_number_def take_bit_eq_mod)
  moreover have "page_rights s' 0xFFFFFFFFC0001234 = Some (True, False)"
    using s'(2) [of 1 "0xFFFFFFFFC0001234"]
    by (simp add: page_number_def rights_asked_def MAP_PROT_WRITE_def MAP_PROT_EXEC_def empty_tables_def)
  moreover have "translate s' 0xFFFFFFFFC0002000 = None"
    using s'(3) [of "0xFFFFFFFFC0002000"]
    by (simp add: page_number_def less_2_cases_iff translate_def page_indices_def empty_tables_def)
  ultimately show ?thesis using s'(1) by blast
qed

text \<open>
  \<^verbatim>\<open>paging_map_PageAllocated\<close> never returns once physical memory is exhausted. The allocator then
  hands out no frame, the loop subtracts 0 from the pages still to map and starts over.
\<close>

lemma AllocateFrames_none:
  assumes "0 \<le> ps_phy_i s" and "0 \<le> ps_EndPhysicalPage s" and "free_frames s = {}"
    and "paging_physical_AllocateFrames (Suc n) s = (k, frames, s')"
  shows "k = 0 \<and> free_frames s' = {} \<and> 0 \<le> ps_phy_i s' \<and> ps_EndPhysicalPage s' = ps_EndPhysicalPage s"
proof -
  let ?endw = "ps_EndPhysicalPage s sdiv int BITMAP_BITS"
  have endw: "?endw = ps_EndPhysicalPage s div 64"
    using assms(2) by (auto simp: signed_divide_int_def sgn_if BITMAP_BITS_def)
  obtain i r where scan: "phy_scan (ps_bitmap s) ?endw (ps_phy_i s) = (i, r)" by fastforce
  note sp = phy_scan_spec [OF scan]
  have "r = None"
  proof (rule ccontr)
    assume "r \<noteq> None"
    then obtain j where j: "i < ?endw" "j < 64" "\<not> bit (ps_bitmap s (nat i)) j" using sp by (auto split: option.splits)
    have "int (nat i * 64 + j) < 64 * ?endw" using j(1,2) sp assms(1) by linarith
    then have "nat i * 64 + j \<in> free_frames s"
      using j sp assms(1) endw by (auto simp: free_frames_def frame_used_def)
    with assms(3) show False by simp
  qed
  then have "k = 0" "s' = s\<lparr>ps_phy_i := i\<rparr>" using assms(4) scan by (auto split: prod.splits option.splits)
  moreover have "free_frames (s\<lparr>ps_phy_i := i\<rparr>) \<subseteq> free_frames s" using sp assms(1) by (auto simp: free_frames_def)
  ultimately show ?thesis using assms(1,3) sp by auto
qed

lemma PageAllocated_loop_stuck:
  assumes ret: "PageAllocated_loop v n flags s = Some r"
  shows "\<not> (0 < n \<and> free_frames s = {} \<and> 0 \<le> ps_phy_i s \<and> 0 \<le> ps_EndPhysicalPage s)"
proof (rule PageAllocated_loop.raw_induct [where P = "\<lambda>v n flags s r.
    \<not> (0 < n \<and> free_frames s = {} \<and> 0 \<le> ps_phy_i s \<and> 0 \<le> ps_EndPhysicalPage s)", OF _ ret])
  fix f v n flags s r
  assume IH: "\<And>v n flags s r. f v n flags s = Some r \<Longrightarrow>
      \<not> (0 < n \<and> free_frames s = {} \<and> 0 \<le> ps_phy_i s \<and> 0 \<le> ps_EndPhysicalPage s)"
    and eq: "(if n > 0
      then do {
        let pageCur = intmin n (int (HELOS_BUFFER_SIZE div 8));
        let (allocated, buf, s) = paging_physical_AllocateFrames (nat pageCur) s;
        (v, s) \<leftarrow> map_batch (take allocated buf) v flags s;
        f v (n - int allocated) flags s
      }
      else Some s) = Some r"
  show "\<not> (0 < n \<and> free_frames s = {} \<and> 0 \<le> ps_phy_i s \<and> 0 \<le> ps_EndPhysicalPage s)"
  proof
    assume *: "0 < n \<and> free_frames s = {} \<and> 0 \<le> ps_phy_i s \<and> 0 \<le> ps_EndPhysicalPage s"
    let ?c = "nat (intmin n (int (HELOS_BUFFER_SIZE div 8)))"
    have "0 < ?c" using * by (simp add: HELOS_BUFFER_SIZE_def)
    then obtain c where c: "?c = Suc c" using gr0_conv_Suc by auto
    obtain k frames s' where a: "paging_physical_AllocateFrames (Suc c) s = (k, frames, s')"
      using prod_cases3 by blast
    have s': "k = 0" "free_frames s' = {}" "0 \<le> ps_phy_i s'" "0 \<le> ps_EndPhysicalPage s'"
      using AllocateFrames_none [OF _ _ _ a] * by auto
    have "f v n flags s' = Some r" using eq * a s'(1) unfolding Let_def c by simp
    from IH [OF this] * s' show False by simp
  qed
qed

theorem PageAllocated_hangs_without_memory:
  assumes "0 < pageCount" and "free_frames s = {}" and "0 \<le> ps_phy_i s" and "0 \<le> ps_EndPhysicalPage s"
  shows "paging_map_PageAllocated v pageCount flags s = None"
proof -
  have "PageAllocated_loop v pageCount flags s = None"
    using PageAllocated_loop_stuck [of v pageCount flags s] assms by (cases "PageAllocated_loop v pageCount flags s") auto
  then show ?thesis by (simp add: paging_map_PageAllocated_def)
qed

theorem PageAllocated_hangs_without_memory_witness:
  "paging_map_PageAllocated 0xFFFFFFFF00000000 1 MAP_PROT_WRITE (empty_tables\<lparr>ps_bitmap := \<lambda>_. - 1\<rparr>) = None"
proof -
  have "free_frames (empty_tables\<lparr>ps_bitmap := \<lambda>_. - 1\<rparr>) = {}" by (simp add: free_frames_def frame_used_def)
  then show ?thesis by (intro PageAllocated_hangs_without_memory) (simp_all add: empty_tables_def)
qed

end
