(* ===== verification/Kernel_Memory.thy ===== *)
theory Kernel_Memory
  imports Paging_Map
begin

text \<open>
  What the kernel builds on the page tables: the growing heap of \<^verbatim>\<open>src/memory/heap_break.c\<close>, the
  allocator of kernel address ranges of \<^verbatim>\<open>src/memory/memory.h\<close>, the pass over the memory map of the
  firmware and the mappings made at boot in \<^verbatim>\<open>src/memory/paging_init.c\<close>.
\<close>

section \<open>The code\<close>

definition KERNEL_CODE_VIRTUAL :: u64 where "KERNEL_CODE_VIRTUAL = 0xFFFFFFFFC0000000"
definition KERNEL_STACK_END_VIRTUAL :: u64 where "KERNEL_STACK_END_VIRTUAL = KERNEL_CODE_VIRTUAL"
definition KERNEL_HEAP_VIRTUAL :: u64 where "KERNEL_HEAP_VIRTUAL = 0xFFFFFFFF00000000"
definition KERNEL_FRAMEBUFFER_MAPPING :: u64 where "KERNEL_FRAMEBUFFER_MAPPING = 0xFFFFFFFEE0000000"
definition KERNEL_MISC_MAPPING :: u64 where "KERNEL_MISC_MAPPING = 0xFFFFFFFEC0000000"
definition KERNEL_IDT_MAPPING :: u64 where "KERNEL_IDT_MAPPING = KERNEL_MISC_MAPPING"
definition KERNEL_IDT_SIZE :: u64 where "KERNEL_IDT_SIZE = 256 * 16"
definition KERNEL_GDT_MAPPING :: u64 where "KERNEL_GDT_MAPPING = KERNEL_IDT_MAPPING + KERNEL_IDT_SIZE"
definition KERNEL_GDT_SIZE :: u64 where "KERNEL_GDT_SIZE = 64 * 8"
definition KERNEL_MISC_SIZE :: u64 where "KERNEL_MISC_SIZE = KERNEL_IDT_SIZE + KERNEL_GDT_SIZE"

definition memory_KernelMappingBottom_init :: u64 where
  "memory_KernelMappingBottom_init = KERNEL_MISC_MAPPING"

definition memory_AllocateKernelMapping :: "u64 \<Rightarrow> u64 \<Rightarrow> u64 \<Rightarrow> u64 \<times> u64" where
  "memory_AllocateKernelMapping sz align bottom =
     (let bottom = bottom - sz; bottom = bottom AND NOT (align - 1) in (bottom, bottom))"

definition paging_MapFunction :: "u64 \<Rightarrow> u64 \<Rightarrow> u64" where
  "paging_MapFunction func loader = (func - loader) + KERNEL_CODE_VIRTUAL"

text \<open>The two static variables of the heap, with the state of the page tables.\<close>

record heap_state =
  hs_heapBreak :: u64
  hs_pageBreak :: u64
  hs_paging :: paging_state

text \<open>
  \<^verbatim>\<open>SYSTEM_PAGE_SIZE * pageCount\<close> is computed in 64 bits. The increment is a signed 64-bit number
  added to an unsigned one. \<open>None\<close>: the mapping function does not return.
\<close>

definition memory_AddBreak :: "u64 \<Rightarrow> heap_state \<Rightarrow> (u64 \<times> heap_state) option" where
  "memory_AddBreak inc s =
     (if hs_heapBreak s + inc < KERNEL_HEAP_VIRTUAL then Some (- 1, s)
      else
        (let s = s\<lparr>hs_heapBreak := hs_heapBreak s + inc\<rparr> in
         if hs_heapBreak s > hs_pageBreak s
         then
           (let pageCount = roundUpToPageCount (hs_heapBreak s - hs_pageBreak s) in do {
              p \<leftarrow> paging_map_PageAllocated (hs_pageBreak s) pageCount (MAP_PROT_READ OR MAP_PROT_WRITE) (hs_paging s);
              let s = s\<lparr>hs_paging := p, hs_pageBreak := hs_pageBreak s + SYSTEM_PAGE_SIZE * of_int pageCount\<rparr>;
              Some (hs_heapBreak s - inc, s)
            })
         else Some (hs_heapBreak s - inc, s)))"

definition heap_init :: "paging_state \<Rightarrow> heap_state" where
  "heap_init p = \<lparr>hs_heapBreak = KERNEL_HEAP_VIRTUAL, hs_pageBreak = KERNEL_HEAP_VIRTUAL, hs_paging = p\<rparr>"

subsection \<open>The memory map of the firmware\<close>

text \<open>The memory types by their numbers, and the names \<^verbatim>\<open>memoryTypeName\<close> prints.\<close>

definition EfiLoaderCode :: u32 where "EfiLoaderCode = 1"
definition EfiConventionalMemory :: u32 where "EfiConventionalMemory = 7"
definition EfiMaxMemoryType :: u32 where "EfiMaxMemoryType = 14"

definition memoryTypeName :: "u32 \<Rightarrow> string" where
  "memoryTypeName type =
     (if type = 0 then ''EfiReservedMemoryType'' else if type = EfiLoaderCode then ''EfiLoaderCode''
      else if type = 2 then ''EfiLoaderData'' else if type = 3 then ''EfiBootServicesCode''
      else if type = 4 then ''EfiBootServicesData'' else if type = 5 then ''EfiRuntimeServicesCode''
      else if type = 6 then ''EfiRuntimeServicesData'' else if type = EfiConventionalMemory then ''EfiConventionalMemory''
      else if type = 8 then ''EfiUnusableMemory'' else if type = 9 then ''EfiACPIReclaimMemory''
      else if type = 10 then ''EfiACPIMemoryNVS'' else if type = 11 then ''EfiMemoryMappedIO''
      else if type = 12 then ''EfiMemoryMappedIOPortSpace'' else if type = 13 then ''EfiPalCode''
      else if type = EfiMaxMemoryType then ''EfiPersistentMemory'' else ''(unknown)'')"

record efi_descriptor =
  efi_Type :: u32
  efi_PhysicalStart :: u64
  efi_NumberOfPages :: u64

record boot_map =
  bm_bitmap :: bitmap
  bm_TotalBytes :: u64
  bm_UsableBytes :: u64
  bm_EndPhysicalAddress :: u64
  bm_LoaderCodeAddress :: u64
  bm_LoaderCodeSize :: u64
  bm_LoaderCodePageCount :: int

definition boot_map_init :: boot_map where
  "boot_map_init = \<lparr>bm_bitmap = (\<lambda>_. - 1), bm_TotalBytes = 0, bm_UsableBytes = 0, bm_EndPhysicalAddress = 0,
     bm_LoaderCodeAddress = 0, bm_LoaderCodeSize = 0, bm_LoaderCodePageCount = 0\<rparr>"

text \<open>One turn of the loop over the descriptors; \<open>text\<close> is the address of the kernel code.\<close>

definition boot_map_entry :: "u64 \<Rightarrow> efi_descriptor \<Rightarrow> boot_map \<Rightarrow> boot_map option" where
  "boot_map_entry code d s =
     (let start = efi_PhysicalStart d; n = efi_NumberOfPages d;
          s = s\<lparr>bm_TotalBytes := bm_TotalBytes s + SYSTEM_PAGE_SIZE * n\<rparr>;
          s = (if efi_Type d = EfiConventionalMemory
               then (let s = s\<lparr>bm_bitmap := paging_physical_BitmapWriteZero
                           (s32 (uint (start div SYSTEM_PAGE_SIZE)))
                           (s32 (uint (start div SYSTEM_PAGE_SIZE + n))) (bm_bitmap s),
                           bm_UsableBytes := bm_UsableBytes s + SYSTEM_PAGE_SIZE * n\<rparr> in
                     if bm_EndPhysicalAddress s < start + n * SYSTEM_PAGE_SIZE
                     then s\<lparr>bm_EndPhysicalAddress := start + n * SYSTEM_PAGE_SIZE\<rparr> else s)
               else s) in
      if efi_Type d = EfiLoaderCode \<and> code \<ge> start \<and> code \<le> start + SYSTEM_PAGE_SIZE * n
      then (if bm_LoaderCodeAddress s = 0
            then Some (s\<lparr>bm_LoaderCodeAddress := start, bm_LoaderCodeSize := n * SYSTEM_PAGE_SIZE,
                         bm_LoaderCodePageCount := s32 (uint n)\<rparr>)
            else None)
      else Some s)"

fun boot_map_loop :: "u64 \<Rightarrow> efi_descriptor list \<Rightarrow> boot_map \<Rightarrow> boot_map option" where
  "boot_map_loop code [] s = Some s"
| "boot_map_loop code (d # ds) s = do { s \<leftarrow> boot_map_entry code d s; boot_map_loop code ds s }"

definition boot_EndPhysicalPage :: "boot_map \<Rightarrow> int" where
  "boot_EndPhysicalPage s = s32 (uint (bm_EndPhysicalAddress s div SYSTEM_PAGE_SIZE))"

text \<open>The limits the linker gives the sections of the kernel.\<close>

record link_map =
  link_TextStart :: u64
  link_TextEnd :: u64
  link_DataStart :: u64
  link_DataEnd :: u64
  link_RodataStart :: u64
  link_RodataEnd :: u64
  link_BssStart :: u64
  link_BssEnd :: u64

definition map_section :: "u64 \<Rightarrow> u64 \<Rightarrow> u64 \<Rightarrow> u32 \<Rightarrow> paging_state \<Rightarrow> paging_state option" where
  "map_section loader start fin prot s =
     paging_map_Page start (KERNEL_CODE_VIRTUAL + (start - loader)) (nat (roundUpToPageCount (fin - start))) prot s"

text \<open>The mappings of \<^verbatim>\<open>runtime_InitPaging\<close>, in the order of the calls.\<close>

definition boot_mappings ::
  "link_map \<Rightarrow> u64 \<Rightarrow> u64 \<Rightarrow> u64 \<Rightarrow> u64 \<Rightarrow> paging_state \<Rightarrow> paging_state option" where
  "boot_mappings k loader framebuffer fbsize endphys s = do {
     s \<leftarrow> map_section loader (link_TextStart k) (link_TextEnd k) (MAP_PROT_READ OR MAP_PROT_EXEC) s;
     s \<leftarrow> map_section loader (link_DataStart k) (link_DataEnd k) (MAP_PROT_READ OR MAP_PROT_WRITE) s;
     s \<leftarrow> map_section loader (link_RodataStart k) (link_RodataEnd k) MAP_PROT_READ s;
     s \<leftarrow> map_section loader (link_BssStart k) (link_BssEnd k) (MAP_PROT_READ OR MAP_PROT_WRITE) s;
     s \<leftarrow> paging_map_Page2M framebuffer KERNEL_FRAMEBUFFER_MAPPING (nat (roundUpToPageCount2M fbsize))
           (MAP_PROT_READ OR MAP_PROT_WRITE) s;
     s \<leftarrow> paging_map_Page2M 0 0 (nat (roundUpToPageCount2M endphys))
           (MAP_PROT_READ OR MAP_PROT_WRITE OR MAP_PROT_EXEC) s;
     let (f, s) = paging_physical_AllocateOneFrame s;
     s \<leftarrow> paging_map_Page f (KERNEL_STACK_END_VIRTUAL - SYSTEM_PAGE_SIZE) 1 (MAP_PROT_READ OR MAP_PROT_WRITE) s;
     paging_map_PageAllocated2M KERNEL_MISC_MAPPING (roundUpToPageCount2M KERNEL_MISC_SIZE)
       (MAP_PROT_READ OR MAP_PROT_WRITE) s
   }"

section \<open>Kernel address ranges\<close>

lemma align_down_le: "(x :: u64) AND NOT m \<le> x"
  by (simp add: word_and_le2)

lemma align_down_dvd:
  assumes "k < 64"
  shows "unat ((x :: u64) AND NOT (2 ^ k - 1)) = unat x div 2 ^ k * 2 ^ k"
proof -
  have "x AND NOT (2 ^ k - 1) = push_bit k (drop_bit k x)"
    by (rule bit_word_eqI)
       (auto simp: bit_and_iff bit_not_iff bit_mask_iff bit_push_bit_iff bit_drop_bit_eq possible_bit_word
         mask_eq_exp_minus_1 [symmetric])
  also have "unat \<dots> = unat x div 2 ^ k * 2 ^ k"
  proof -
    have d: "unat (drop_bit k x) = unat x div 2 ^ k" unfolding unat_drop_bit_eq by (simp add: drop_bit_eq_div)
    have "unat x div 2 ^ k * 2 ^ k < 2 ^ 64" by (rule le_less_trans [OF div_times_less_eq_dividend unat_lt_u64])
    then show ?thesis
      unfolding unsigned_push_bit_eq d by (simp add: push_bit_eq_mult take_bit_nat_eq_self)
  qed
  finally show ?thesis .
qed

lemma memory_AllocateKernelMapping_spec:
  assumes "memory_AllocateKernelMapping sz (2 ^ k) bottom = (p, bottom')" and "k < 64" and "sz \<le> bottom"
  shows "p = bottom' \<and> 2 ^ k dvd unat p \<and> unat p + unat sz \<le> unat bottom \<and>
    unat bottom < unat p + unat sz + 2 ^ k"
proof -
  have p: "unat p = unat (bottom - sz) div 2 ^ k * 2 ^ k" "p = bottom'"
    using assms(1) align_down_dvd [OF assms(2)] by (auto simp: memory_AllocateKernelMapping_def Let_def)
  have "unat (bottom - sz) = unat bottom - unat sz" "unat sz \<le> unat bottom"
    using assms(3) by (simp_all add: unat_sub word_le_nat_alt)
  moreover have "unat p \<le> unat (bottom - sz)" unfolding p(1) by (rule div_times_less_eq_dividend)
  moreover have "unat (bottom - sz) < unat p + 2 ^ k"
  proof -
    have "unat (bottom - sz) mod 2 ^ k < 2 ^ k" by simp
    then show ?thesis unfolding p(1) using div_mult_mod_eq [of "unat (bottom - sz)" "2 ^ k"] by linarith
  qed
  moreover have "2 ^ k dvd unat p" unfolding p(1) by simp
  ultimately show ?thesis using p(2) by linarith
qed

section \<open>The boot memory map\<close>

text \<open>The frames of a descriptor of conventional memory.\<close>

definition conventional_frames :: "efi_descriptor \<Rightarrow> nat set" where
  "conventional_frames d = (if efi_Type d = EfiConventionalMemory
     then {unat (efi_PhysicalStart d div SYSTEM_PAGE_SIZE) ..<
           unat (efi_PhysicalStart d div SYSTEM_PAGE_SIZE) + unat (efi_NumberOfPages d)} else {})"

definition descriptor_ok :: "efi_descriptor \<Rightarrow> bool" where
  "descriptor_ok d \<longleftrightarrow> (efi_Type d = EfiConventionalMemory \<longrightarrow> 0 < efi_NumberOfPages d \<and>
     unat (efi_PhysicalStart d div SYSTEM_PAGE_SIZE) + unat (efi_NumberOfPages d) \<le> MAX_SYSTEM_MEMORY_PAGES)"

lemma boot_map_entry_bitmap:
  assumes "boot_map_entry code d s = Some s'" and "descriptor_ok d"
  shows "frame_used (bm_bitmap s') p \<longleftrightarrow> frame_used (bm_bitmap s) p \<and> p \<notin> conventional_frames d"
proof (cases "efi_Type d = EfiConventionalMemory")
  case False
  then show ?thesis using assms(1)
    by (auto simp: boot_map_entry_def Let_def conventional_frames_def split: if_splits)
next
  case True
  let ?f = "efi_PhysicalStart d div SYSTEM_PAGE_SIZE" and ?n = "efi_NumberOfPages d"
  have lt: "unat ?f + unat ?n < 2147483648" using assms(2) True by (simp add: descriptor_ok_def)
  have pos: "unat ?f < unat ?f + unat ?n" using assms(2) True by (simp add: descriptor_ok_def word_less_nat_alt)
  have a: "s32 (uint ?f) = int (unat ?f)" unfolding uint_nat by (rule s32_int) (use lt in simp)
  have sum: "unat (?f + ?n) = unat ?f + unat ?n" using lt by (intro unat_add_no_wrap) simp
  have b: "s32 (uint (?f + ?n)) = int (unat ?f + unat ?n)"
    unfolding uint_nat sum by (rule s32_int) (use lt in simp)
  have "EfiConventionalMemory \<noteq> EfiLoaderCode" by (simp add: EfiConventionalMemory_def EfiLoaderCode_def)
  then have "bm_bitmap s' = paging_physical_BitmapWriteZero (int (unat ?f)) (int (unat ?f + unat ?n)) (bm_bitmap s)"
    using assms(1) True a b by (auto simp: boot_map_entry_def Let_def)
  with frame_used_WriteZero [OF pos] True show ?thesis by (auto simp: conventional_frames_def)
qed

lemma boot_map_loop_bitmap:
  assumes "boot_map_loop code ds s = Some s'" and "\<forall>d \<in> set ds. descriptor_ok d"
  shows "frame_used (bm_bitmap s') p \<longleftrightarrow> frame_used (bm_bitmap s) p \<and> (\<forall>d \<in> set ds. p \<notin> conventional_frames d)"
  using assms
proof (induction ds arbitrary: s)
  case (Cons d ds)
  then obtain s1 where s1: "boot_map_entry code d s = Some s1" "boot_map_loop code ds s1 = Some s'"
    by (auto simp: bind_eq_Some_conv)
  with Cons.IH [OF s1(2)] boot_map_entry_bitmap [OF s1(1)] Cons.prems(2) show ?case by auto
qed simp

section \<open>Properties\<close>

text \<open>
  The allocator of kernel address ranges. For an alignment that is a power of two, every range
  is aligned, lies below all ranges handed out before and wastes less than the alignment, so that
  the ranges of successive calls never overlap.
\<close>

theorem AllocateKernelMapping_disjoint:
  assumes "memory_AllocateKernelMapping sz (2 ^ k) bottom = (p, bottom')" and "k < 64" and "sz \<le> bottom"
    and "memory_AllocateKernelMapping sz' (2 ^ k') bottom' = (p', bottom'')" and "k' < 64" and "sz' \<le> bottom'"
  shows "2 ^ k dvd unat p \<and> unat p + unat sz \<le> unat bottom \<and> unat bottom < unat p + unat sz + 2 ^ k \<and>
    2 ^ k' dvd unat p' \<and> unat p' + unat sz' \<le> unat p"
  using memory_AllocateKernelMapping_spec [OF assms(1-3)] memory_AllocateKernelMapping_spec [OF assms(4-6)] by auto

theorem AllocateKernelMapping_disjoint_witness:
  "\<exists>p b p' b'. memory_AllocateKernelMapping 0x1800 (2 ^ 12) memory_KernelMappingBottom_init = (p, b) \<and>
     memory_AllocateKernelMapping 0x300000 (2 ^ 21) b = (p', b') \<and> unat p' + 0x300000 \<le> unat p"
proof -
  have b: "memory_AllocateKernelMapping 0x1800 (2 ^ 12) memory_KernelMappingBottom_init = (0xFFFFFFFEBFFFE000, 0xFFFFFFFEBFFFE000)"
    by (simp add: memory_AllocateKernelMapping_def memory_KernelMappingBottom_init_def KERNEL_MISC_MAPPING_def)
  obtain p' b' where p': "memory_AllocateKernelMapping 0x300000 (2 ^ 21) 0xFFFFFFFEBFFFE000 = (p', b')" by fastforce
  have "sz \<le> memory_KernelMappingBottom_init" if "sz = 0x1800" for sz
    using that by (simp add: memory_KernelMappingBottom_init_def KERNEL_MISC_MAPPING_def)
  from AllocateKernelMapping_disjoint [OF b _ this p'] b p' show ?thesis by auto
qed

text \<open>
  C31: after the pass over the memory map of the firmware, exactly the frames of the descriptors
  of conventional memory are free, in whatever order the descriptors come and whether or not they
  overlap, provided that the descriptors of conventional memory are not empty and end within the
  64 GiB the bitmap has bits for; no word behind the bitmap is written.
\<close>

theorem boot_map_frees_conventional_memory:
  assumes "boot_map_loop code ds boot_map_init = Some s" and "\<forall>d \<in> set ds. descriptor_ok d"
  shows "(\<forall>p. frame_used (bm_bitmap s) p \<longleftrightarrow> (\<forall>d \<in> set ds. p \<notin> conventional_frames d)) \<and>
    array_kept (bm_bitmap boot_map_init) (bm_bitmap s)"
proof -
  note used = boot_map_loop_bitmap [OF assms]
  have "p \<notin> conventional_frames d" if "d \<in> set ds" "MAX_SYSTEM_MEMORY_PAGES \<le> p" for p d
    using assms(2) that by (auto simp: conventional_frames_def descriptor_ok_def)
  then have "array_kept (bm_bitmap boot_map_init) (bm_bitmap s)" by (intro array_keptI) (auto simp: used)
  with used show ?thesis by (simp add: boot_map_init_def frame_used_def)
qed

theorem boot_map_frees_conventional_memory_witness:
  "\<exists>s. boot_map_loop 0x5000 [\<lparr>efi_Type = EfiConventionalMemory, efi_PhysicalStart = 0x100000, efi_NumberOfPages = 4\<rparr>,
       \<lparr>efi_Type = EfiLoaderCode, efi_PhysicalStart = 0x4000, efi_NumberOfPages = 2\<rparr>] boot_map_init = Some s \<and>
     \<not> frame_used (bm_bitmap s) 0x101 \<and> frame_used (bm_bitmap s) 5"
proof -
  let ?ds = "[\<lparr>efi_Type = EfiConventionalMemory, efi_PhysicalStart = 0x100000, efi_NumberOfPages = 4\<rparr>,
       \<lparr>efi_Type = EfiLoaderCode, efi_PhysicalStart = 0x4000, efi_NumberOfPages = 2\<rparr>]"
  obtain s where s: "boot_map_loop 0x5000 ?ds boot_map_init = Some s"
    by (simp add: boot_map_entry_def Let_def EfiConventionalMemory_def EfiLoaderCode_def boot_map_init_def
        SYSTEM_PAGE_SIZE_def)
  have "\<forall>d \<in> set ?ds. descriptor_ok d" by (simp add: descriptor_ok_def SYSTEM_PAGE_SIZE_def)
  from boot_map_frees_conventional_memory [OF s this] s show ?thesis
    by (intro exI [of _ s])
       (simp add: conventional_frames_def SYSTEM_PAGE_SIZE_def EfiConventionalMemory_def EfiLoaderCode_def)
qed

end
