(* ===== verification/Paging_Large.thy ===== *)
theory Paging_Large
  imports Paging_Map
begin

text \<open>
  Large pages: what the functions of \<^verbatim>\<open>src/memory/paging_map.c\<close> that map 2 MiB and 1 GiB pages do to the
  translation, and how many frames each mapping function takes from the allocator, lowest first.
\<close>

section \<open>Frames taken\<close>

definition alloc_ok :: "paging_state \<Rightarrow> bool" where
  "alloc_ok s \<longleftrightarrow> 0 \<le> ps_phy_i s \<and> 0 \<le> ps_EndPhysicalPage s \<and> ps_EndPhysicalPage s \<le> int MAX_SYSTEM_MEMORY_PAGES"

lemma tables_inv_alloc_ok: "tables_inv s \<Longrightarrow> alloc_ok s"
  by (simp add: tables_inv_def alloc_ok_def)

definition free_below :: "nat \<Rightarrow> paging_state \<Rightarrow> nat set" where
  "free_below B s = {p \<in> free_frames s. p < B}"

lemma finite_free_below [simp]: "finite (free_below B s)"
  by (simp add: free_below_def)

text \<open>
  At most \<open>n\<close> frames are taken, the lowest ones: as long as that many are free below a limit, none
  above it is touched.
\<close>

definition takes :: "nat \<Rightarrow> paging_state \<Rightarrow> paging_state \<Rightarrow> bool" where
  "takes n s s' \<longleftrightarrow> s' = s\<lparr>ps_phy_i := ps_phy_i s', ps_bitmap := ps_bitmap s', ps_mem := ps_mem s'\<rparr> \<and>
     (alloc_ok s \<longrightarrow> alloc_ok s' \<and>
       (\<forall>B. n \<le> card (free_below B s) \<longrightarrow> card (free_below B s) \<le> card (free_below B s') + n \<and>
          (\<forall>q \<ge> B. frame_used (ps_bitmap s') q \<longrightarrow> frame_used (ps_bitmap s) q)))"

lemma takes_fields:
  assumes "takes n s s'"
  shows "ps_PML4Table s' = ps_PML4Table s" "ps_EndPhysicalPage s' = ps_EndPhysicalPage s" "ps_phy_i_2M s' = ps_phy_i_2M s"
    "ps_SupportExecuteDisable s' = ps_SupportExecuteDisable s"
proof -
  have "s' = s\<lparr>ps_phy_i := ps_phy_i s', ps_bitmap := ps_bitmap s', ps_mem := ps_mem s'\<rparr>" using assms by (simp add: takes_def)
  then show "ps_PML4Table s' = ps_PML4Table s" "ps_EndPhysicalPage s' = ps_EndPhysicalPage s" "ps_phy_i_2M s' = ps_phy_i_2M s"
    "ps_SupportExecuteDisable s' = ps_SupportExecuteDisable s"
    by (metis paging_state.select_convs paging_state.surjective paging_state.update_convs)+
qed

lemma takes_use:
  assumes "takes n s s'" and "alloc_ok s" and "n \<le> card (free_below B s)"
  shows "card (free_below B s) \<le> card (free_below B s') + n" "q \<ge> B \<Longrightarrow> frame_used (ps_bitmap s') q \<Longrightarrow> frame_used (ps_bitmap s) q"
  using assms unfolding takes_def by blast+

lemma takes_alloc_ok: "takes n s s' \<Longrightarrow> alloc_ok s \<Longrightarrow> alloc_ok s'"
  by (simp add: takes_def)

lemma takesI:
  assumes "s' = s\<lparr>ps_phy_i := ps_phy_i s', ps_bitmap := ps_bitmap s', ps_mem := ps_mem s'\<rparr>" and "alloc_ok s \<Longrightarrow> alloc_ok s'"
    and "\<And>B. alloc_ok s \<Longrightarrow> n \<le> card (free_below B s) \<Longrightarrow> card (free_below B s) \<le> card (free_below B s') + n"
    and "\<And>B q. alloc_ok s \<Longrightarrow> n \<le> card (free_below B s) \<Longrightarrow> q \<ge> B \<Longrightarrow> frame_used (ps_bitmap s') q \<Longrightarrow> frame_used (ps_bitmap s) q"
  shows "takes n s s'"
  using assms unfolding takes_def by blast

lemma takes_trans:
  assumes "takes n s s1" and "takes m s1 s2"
  shows "takes (n + m) s s2"
proof -
  note f = takes_fields [OF assms(1)] takes_fields [OF assms(2)]
  show ?thesis
  proof (rule takesI)
    show "s2 = s\<lparr>ps_phy_i := ps_phy_i s2, ps_bitmap := ps_bitmap s2, ps_mem := ps_mem s2\<rparr>" using f by simp
  next
    assume "alloc_ok s"
    then show "alloc_ok s2" using assms takes_alloc_ok by blast
  next
    fix B assume ok: "alloc_ok s" and room: "n + m \<le> card (free_below B s)"
    then have "n \<le> card (free_below B s)" by simp
    note 1 = takes_use [OF assms(1) ok this]
    have "m \<le> card (free_below B s1)" using 1(1) room by linarith
    note 2 = takes_use [OF assms(2) takes_alloc_ok [OF assms(1) ok] this]
    show "card (free_below B s) \<le> card (free_below B s2) + (n + m)" using 1(1) 2(1) by linarith
    fix q assume "q \<ge> B" "frame_used (ps_bitmap s2) q"
    then show "frame_used (ps_bitmap s) q" using 1(2) 2(2) by blast
  qed
qed

lemma takes_none:
  assumes "s' = s\<lparr>ps_bitmap := b, ps_mem := m\<rparr>" and "\<And>q. frame_used b q \<Longrightarrow> frame_used (ps_bitmap s) q"
  shows "takes 0 s s'"
proof -
  have "free_below B s \<subseteq> free_below B s'" for B using assms by (auto simp: free_below_def free_frames_def)
  then have "card (free_below B s) \<le> card (free_below B s')" for B by (intro card_mono) simp_all
  with assms show ?thesis by (auto simp: takes_def alloc_ok_def)
qed

lemma takes_refl: "takes 0 s s"
  by (rule takes_none [where b = "ps_bitmap s" and m = "ps_mem s"]) simp_all

lemma takes_tbl_set: "takes 0 s (tbl_set t i e s)"
  unfolding tbl_set_def by (rule takes_none [where b = "ps_bitmap s"]) simp_all

lemma takes_mono:
  assumes "takes n s s'" and "n \<le> m"
  shows "takes m s s'"
proof (rule takesI)
  show "s' = s\<lparr>ps_phy_i := ps_phy_i s', ps_bitmap := ps_bitmap s', ps_mem := ps_mem s'\<rparr>" using assms(1) by (simp add: takes_def)
next
  fix B assume ok: "alloc_ok s" and "m \<le> card (free_below B s)"
  then have "n \<le> card (free_below B s)" using assms(2) by linarith
  note u = takes_use [OF assms(1) ok this]
  show "card (free_below B s) \<le> card (free_below B s') + m" using u(1) assms(2) by linarith
  show "frame_used (ps_bitmap s) q" if "q \<ge> B" "frame_used (ps_bitmap s') q" for q using u(2) that by blast
qed (use assms(1) takes_alloc_ok in blast)

lemma takes_AllocateOneFrame: "takes 1 s (snd (paging_physical_AllocateOneFrame s))"
proof -
  obtain k frames s' where a: "paging_physical_AllocateFrames 1 s = (k, frames, s')" by (cases "paging_physical_AllocateFrames 1 s")
  then have s': "snd (paging_physical_AllocateOneFrame s) = s'" by (simp add: paging_physical_AllocateOneFrame_def del: One_nat_def)
  show ?thesis
  proof (cases "alloc_ok s")
    case True
    then have st: "0 \<le> ps_phy_i s" "0 \<le> ps_EndPhysicalPage s" by (simp_all add: alloc_ok_def)
    obtain ps where ps: "frames_allocated ps s s'" using paging_physical_AllocateFrames_spec [OF a st] by blast
    then have eq: "s' = s\<lparr>ps_phy_i := ps_phy_i s', ps_bitmap := ps_bitmap s', ps_mem := ps_mem s'\<rparr>" "ps_phy_i s \<le> ps_phy_i s'"
      by (simp_all add: frames_allocated_def)
    have e: "ps_EndPhysicalPage s' = ps_EndPhysicalPage s" by (subst eq(1)) simp
    then have ok: "alloc_ok s'" using eq(2) True by (simp add: alloc_ok_def)
    have "card (free_below B s) \<le> card (free_below B s') + 1 \<and> (\<forall>q \<ge> B. frame_used (ps_bitmap s') q \<longrightarrow> frame_used (ps_bitmap s) q)"
      if "1 \<le> card (free_below B s)" for B
    proof -
      have "free_below B s \<noteq> {}" using that by auto
      then obtain q where q: "q \<in> free_frames s" "q < B" by (auto simp: free_below_def)
      then have "free_frames s \<noteq> {}" by blast
      from AllocateOneFrame_spec [OF st this] q(1)
      obtain p where p: "p \<in> free_frames s" "frames_allocated [p] s s'" "free_frames s' = free_frames s - {p}" "p \<le> q"
        unfolding s' [symmetric] by auto
      have "free_below B s' = free_below B s - {p}" using p(3) by (auto simp: free_below_def)
      moreover have "\<forall>r. frame_used (ps_bitmap s') r \<longrightarrow> frame_used (ps_bitmap s) r \<or> r = p" using p(2) by (simp add: frames_allocated_def)
      ultimately show ?thesis using p(1,4) q(2) by (auto simp: card_Diff_singleton_if)
    qed
    with eq ok show ?thesis unfolding s' takes_def by blast
  next
    case False
    obtain i r where scan: "phy_scan (ps_bitmap s) (ps_EndPhysicalPage s sdiv int BITMAP_BITS) (ps_phy_i s) = (i, r)" by fastforce
    then have "s' = s\<lparr>ps_phy_i := ps_phy_i s', ps_bitmap := ps_bitmap s', ps_mem := ps_mem s'\<rparr>"
      using a by (cases r) (auto simp: Let_def)
    with False show ?thesis unfolding s' takes_def by blast
  qed
qed

lemma takes_pml_ensure: "takes 1 s (pml_ensure t i s)"
proof (cases "tbl_get s t i AND PML_PRESENT = 0")
  case True
  obtain f s1 where f: "paging_physical_AllocateOneFrame s = (f, s1)" by fastforce
  with takes_trans [OF takes_AllocateOneFrame [of s] takes_tbl_set [of _ t i "f OR PML_PRESENT OR PML_WRITEABLE"]] True
  show ?thesis by (simp add: pml_ensure_def)
next
  case False
  with takes_mono [OF takes_refl] show ?thesis by (simp add: pml_ensure_def)
qed

section \<open>Giving a table back\<close>

lemma WriteZero_clears: "frame_used (paging_physical_BitmapWriteZero a b bm) q \<Longrightarrow> frame_used bm q"
proof -
  have fold: "fold (\<lambda>i bm. bm(nat i := 0)) xs bm k = (if k \<in> nat ` set xs then 0 else bm k)" for xs :: "int list" and bm :: bitmap and k
    by (induction xs arbitrary: bm) auto
  show "frame_used (paging_physical_BitmapWriteZero a b bm) q \<Longrightarrow> frame_used bm q"
    by (auto simp: paging_physical_BitmapWriteZero_def frame_used_def Let_def fold bit_and_iff split: if_splits)
qed

lemma pml_release_fields [simp]:
  "ps_mem (pml_release t i s) = ps_mem s" "ps_PML4Table (pml_release t i s) = ps_PML4Table s"
  "ps_phy_i (pml_release t i s) = ps_phy_i s" "ps_EndPhysicalPage (pml_release t i s) = ps_EndPhysicalPage s"
  "ps_phy_i_2M (pml_release t i s) = ps_phy_i_2M s" "ps_SupportExecuteDisable (pml_release t i s) = ps_SupportExecuteDisable s"
  by (simp_all add: pml_release_def paging_physical_FreeFrame_def)

lemma takes_pml_release: "takes 0 s (pml_release t i s)"
proof (rule takes_none)
  show "pml_release t i s = s\<lparr>ps_bitmap := ps_bitmap (pml_release t i s), ps_mem := ps_mem s\<rparr>"
    by (simp add: pml_release_def paging_physical_FreeFrame_def)
  show "frame_used (ps_bitmap s) q" if "frame_used (ps_bitmap (pml_release t i s)) q" for q
    using that by (auto simp: pml_release_def paging_physical_FreeFrame_def split: if_splits dest: WriteZero_clears)
qed

text \<open>The frame of the table at the entry is free afterwards, and no other.\<close>

lemma pml_release_used:
  assumes inv: "tables_inv s" and walk: "walk_table (ps_mem s) (ps_PML4Table s) is = Some t"
    and path: "length is \<le> 2" "path_ok (is @ [i])" and q: "q < 2 ^ 40"
  shows "frame_used (ps_bitmap (pml_release t i s)) q \<longleftrightarrow>
    frame_used (ps_bitmap s) q \<and> walk_table (ps_mem s) (ps_PML4Table s) (is @ [i]) \<noteq> Some (frame_addr q)"
proof (cases "tbl_get s t i AND PML_PRESENT \<noteq> 0 \<and> tbl_get s t i AND PML_PAGE_SIZE = 0")
  case True
  then have w: "walk_table (ps_mem s) (ps_PML4Table s) (is @ [i]) = Some (tbl_get s t i AND PML_ADDR_MASK)"
    using walk by (simp add: walk_table_append Let_def tbl_get_def)
  obtain p where p: "p < MAX_SYSTEM_MEMORY_PAGES" "tbl_get s t i AND PML_ADDR_MASK = frame_addr p"
    by (rule inv_frame_int [OF inv w]) (use path in simp_all)
  have pn: "unat (frame_addr p) = p * 4096" using p(1) by (intro unat_frame_addr) simp
  then have al: "frame_addr p mod SYSTEM_PAGE_SIZE = 0" "unat (frame_addr p div SYSTEM_PAGE_SIZE) = p"
    by (simp_all add: SYSTEM_PAGE_SIZE_def word_unat_eq_iff unat_mod unat_div)
  have "ps_bitmap (pml_release t i s) = paging_physical_BitmapWriteZero (int p) (int (p + 1)) (ps_bitmap s)"
    using True FreeFrame_bitmap [OF al(1), of 1 s] p al(2) by (simp add: pml_release_def)
  then have "frame_used (ps_bitmap (pml_release t i s)) q \<longleftrightarrow> frame_used (ps_bitmap s) q \<and> q \<noteq> p"
    using frame_used_WriteZero [of p "p + 1" "ps_bitmap s" q] by auto
  moreover have "frame_addr p = frame_addr q \<longleftrightarrow> q = p" using frame_addr_inj [of p q] p(1) q by auto
  ultimately show ?thesis by (simp add: w p(2))
next
  case False
  then have "walk_table (ps_mem s) (ps_PML4Table s) (is @ [i]) = None"
    using walk by (auto simp: walk_table_append Let_def tbl_get_def)
  with False show ?thesis by (auto simp: pml_release_def)
qed

section \<open>Writing a large leaf\<close>

lemma large_write:
  assumes inv: "tables_inv s" and walk: "walk_table (ps_mem s) (ps_PML4Table s) is = Some t"
    and path: "length is \<le> 2" "path_ok (is @ [i])" and e: "e AND PML_PRESENT \<noteq> 0" "e AND PML_PAGE_SIZE \<noteq> 0"
  defines "s' \<equiv> tbl_set t i e (pml_release t i s)"
  shows "length js = 4 \<Longrightarrow> path_ok js \<Longrightarrow> walk_entry (ps_mem s') (ps_PML4Table s) js =
      (if \<exists>r. js = is @ i # r then Some (e, 3 - length is) else walk_entry (ps_mem s) (ps_PML4Table s) js)"
    and "tables_inv s'"
proof -
  let ?m = "ps_mem s'"
  have le: "length is \<le> 3" using path(1) by simp
  have cell: "?m (t' + 8 * j) = ps_mem s (t' + 8 * j)"
    if "js = a @ j # r" "walk_table (ps_mem s) (ps_PML4Table s) a = Some t'" "path_ok js" "length js \<le> 4" "\<nexists>r. js = is @ i # r"
    for js a j r t'
  proof -
    have "length a \<le> 3" "path_ok (a @ [j])" using that(3,4) by (simp_all add: that(1))
    moreover have "a @ [j] \<noteq> is @ [i]" using that(5) path_through [OF that(1), of "is" i] by blast
    ultimately show ?thesis using cell_distinct [OF inv walk le path(2) that(2), of j] by (simp add: s'_def tbl_set_def)
  qed
  have table: "walk_table ?m (ps_PML4Table s) js = walk_table (ps_mem s) (ps_PML4Table s) js"
    if "length js \<le> 4" "path_ok js" "\<nexists>r. js = is @ i # r" for js
    by (rule walk_table_cong) (use cell that in blast)
  have opened: "walk_open ?m (ps_PML4Table s) js = walk_open (ps_mem s) (ps_PML4Table s) js"
    if "length js \<le> 4" "path_ok js" "\<nexists>r. js = is @ i # r" for js
    by (rule walk_open_cong) (use cell that in blast)
  have new: "?m (t + 8 * i) = e" by (simp add: s'_def tbl_set_def)
  have walk': "walk_table ?m (ps_PML4Table s) is = Some t" using table [of "is"] walk path by auto
  then have through: "walk_table ?m (ps_PML4Table s) (is @ i # r) = None"
    "walk_entry ?m (ps_PML4Table s) (is @ i # r) = Some (e, length r)" for r
    using new e by (simp_all add: walk_table_append walk_entry_append Let_def)
  show "walk_entry ?m (ps_PML4Table s) js =
      (if \<exists>r. js = is @ i # r then Some (e, 3 - length is) else walk_entry (ps_mem s) (ps_PML4Table s) js)"
    if js: "length js = 4" "path_ok js" for js
  proof (cases "\<exists>r. js = is @ i # r")
    case True
    then show ?thesis using through(2) js by auto
  next
    case False
    have "walk_entry ?m (ps_PML4Table s) js = walk_entry (ps_mem s) (ps_PML4Table s) js"
      by (rule walk_entry_cong) (use cell js False in auto)
    with False show ?thesis by simp
  qed
  have st: "ps_PML4Table s' = ps_PML4Table s" "ps_phy_i s' = ps_phy_i s" "ps_EndPhysicalPage s' = ps_EndPhysicalPage s"
    "ps_bitmap s' = ps_bitmap (pml_release t i s)" by (simp_all add: s'_def tbl_set_def)
  have old: "walk_table (ps_mem s) (ps_PML4Table s) js = Some t' \<and> js \<noteq> is @ [i]"
    if "walk_table ?m (ps_PML4Table s) js = Some t'" "length js \<le> 3" "path_ok js" for js t'
  proof (cases "\<exists>r. js = is @ i # r")
    case True
    then show ?thesis using through(1) that(1) by auto
  next
    case False
    with table [of js] that show ?thesis by auto
  qed
  have A: "\<exists>p < MAX_SYSTEM_MEMORY_PAGES. t' = frame_addr p \<and> frame_used (ps_bitmap s') p"
    if w: "walk_table ?m (ps_PML4Table s) js = Some t'" and js: "length js \<le> 3" "path_ok js" for js t'
  proof -
    note o = old [OF w js]
    obtain p where p: "p < MAX_SYSTEM_MEMORY_PAGES" "t' = frame_addr p" "frame_used (ps_bitmap s) p"
      using inv_frame_int [OF inv conjunct1 [OF o] js] by blast
    have "walk_table (ps_mem s) (ps_PML4Table s) (is @ [i]) \<noteq> Some (frame_addr p)"
      using inv_unshared [OF inv conjunct1 [OF o] js, of "is @ [i]"] o path by (auto simp: p(2))
    then have "frame_used (ps_bitmap s') p" using pml_release_used [OF inv walk path, of p] p(1,3) st(4) by simp
    with p(1,2) show ?thesis by blast
  qed
  have B: "as = bs" if "walk_table ?m (ps_PML4Table s) as = Some t'" "length as \<le> 3" "path_ok as"
      "walk_table ?m (ps_PML4Table s) bs = Some t'" "length bs \<le> 3" "path_ok bs" for as bs t'
    using old [OF that(1-3)] old [OF that(4-6)] inv_unshared [OF inv _ that(2,3) _ that(5,6)] by blast
  have C: "walk_open ?m (ps_PML4Table s) js" if js: "length js \<le> 3" "path_ok js" for js
  proof (cases "\<exists>r. js = is @ i # r")
    case True
    have "walk_open ?m (ps_PML4Table s) is" using opened [of "is"] inv_open [OF inv le] path by auto
    with True walk' new e show ?thesis by (auto simp: walk_open_append Let_def)
  next
    case False
    with opened [of js] inv_open [OF inv js] js show ?thesis by simp
  qed
  show "tables_inv s'"
    unfolding tables_inv_def
  proof (intro conjI allI impI)
    show "0 \<le> ps_phy_i s'" "0 \<le> ps_EndPhysicalPage s'" "ps_EndPhysicalPage s' \<le> int MAX_SYSTEM_MEMORY_PAGES" using inv st by (auto simp: tables_inv_def)
  qed (use A B C st(1) in auto)
qed

end
