(* ===== verification/Input_Keys.thy ===== *)
theory Input_Keys
  imports Prelude
begin

text \<open>
  The enumerations of \<^verbatim>\<open>src/driver/input/consts.h\<close>: the codes of the keys and of the mouse buttons,
  with the names \<^verbatim>\<open>input_Key_GetName\<close> in \<^verbatim>\<open>src/driver/input/input.c\<close> gives them. An enumerator is an
  \<^verbatim>\<open>int\<close>, and the code computes with it as such.
\<close>

section \<open>Key codes\<close>

type_synonym input_Key = int

definition input_Key_Unknown :: input_Key where "input_Key_Unknown = - 1"
definition input_Key_A :: input_Key where "input_Key_A = 0"
definition input_Key_B :: input_Key where "input_Key_B = 1"
definition input_Key_C :: input_Key where "input_Key_C = 2"
definition input_Key_D :: input_Key where "input_Key_D = 3"
definition input_Key_E :: input_Key where "input_Key_E = 4"
definition input_Key_F :: input_Key where "input_Key_F = 5"
definition input_Key_G :: input_Key where "input_Key_G = 6"
definition input_Key_H :: input_Key where "input_Key_H = 7"
definition input_Key_I :: input_Key where "input_Key_I = 8"
definition input_Key_J :: input_Key where "input_Key_J = 9"
definition input_Key_K :: input_Key where "input_Key_K = 10"
definition input_Key_L :: input_Key where "input_Key_L = 11"
definition input_Key_M :: input_Key where "input_Key_M = 12"
definition input_Key_N :: input_Key where "input_Key_N = 13"
definition input_Key_O :: input_Key where "input_Key_O = 14"
definition input_Key_P :: input_Key where "input_Key_P = 15"
definition input_Key_Q :: input_Key where "input_Key_Q = 16"
definition input_Key_R :: input_Key where "input_Key_R = 17"
definition input_Key_S :: input_Key where "input_Key_S = 18"
definition input_Key_T :: input_Key where "input_Key_T = 19"
definition input_Key_U :: input_Key where "input_Key_U = 20"
definition input_Key_V :: input_Key where "input_Key_V = 21"
definition input_Key_W :: input_Key where "input_Key_W = 22"
definition input_Key_X :: input_Key where "input_Key_X = 23"
definition input_Key_Y :: input_Key where "input_Key_Y = 24"
definition input_Key_Z :: input_Key where "input_Key_Z = 25"
definition input_Key_Num0 :: input_Key where "input_Key_Num0 = 26"
definition input_Key_Num1 :: input_Key where "input_Key_Num1 = 27"
definition input_Key_Num2 :: input_Key where "input_Key_Num2 = 28"
definition input_Key_Num3 :: input_Key where "input_Key_Num3 = 29"
definition input_Key_Num4 :: input_Key where "input_Key_Num4 = 30"
definition input_Key_Num5 :: input_Key where "input_Key_Num5 = 31"
definition input_Key_Num6 :: input_Key where "input_Key_Num6 = 32"
definition input_Key_Num7 :: input_Key where "input_Key_Num7 = 33"
definition input_Key_Num8 :: input_Key where "input_Key_Num8 = 34"
definition input_Key_Num9 :: input_Key where "input_Key_Num9 = 35"
definition input_Key_Escape :: input_Key where "input_Key_Escape = 36"
definition input_Key_LControl :: input_Key where "input_Key_LControl = 37"
definition input_Key_LShift :: input_Key where "input_Key_LShift = 38"
definition input_Key_LAlt :: input_Key where "input_Key_LAlt = 39"
definition input_Key_LSuper :: input_Key where "input_Key_LSuper = 40"
definition input_Key_RControl :: input_Key where "input_Key_RControl = 41"
definition input_Key_RShift :: input_Key where "input_Key_RShift = 42"
definition input_Key_RAlt :: input_Key where "input_Key_RAlt = 43"
definition input_Key_RSuper :: input_Key where "input_Key_RSuper = 44"
definition input_Key_Menu :: input_Key where "input_Key_Menu = 45"
definition input_Key_LBracket :: input_Key where "input_Key_LBracket = 46"
definition input_Key_RBracket :: input_Key where "input_Key_RBracket = 47"
definition input_Key_Semicolon :: input_Key where "input_Key_Semicolon = 48"
definition input_Key_Comma :: input_Key where "input_Key_Comma = 49"
definition input_Key_Period :: input_Key where "input_Key_Period = 50"
definition input_Key_Quote :: input_Key where "input_Key_Quote = 51"
definition input_Key_Slash :: input_Key where "input_Key_Slash = 52"
definition input_Key_Backslash :: input_Key where "input_Key_Backslash = 53"
definition input_Key_Tilde :: input_Key where "input_Key_Tilde = 54"
definition input_Key_Equal :: input_Key where "input_Key_Equal = 55"
definition input_Key_Hyphen :: input_Key where "input_Key_Hyphen = 56"
definition input_Key_Space :: input_Key where "input_Key_Space = 57"
definition input_Key_Enter :: input_Key where "input_Key_Enter = 58"
definition input_Key_Backspace :: input_Key where "input_Key_Backspace = 59"
definition input_Key_Tab :: input_Key where "input_Key_Tab = 60"
definition input_Key_PageUp :: input_Key where "input_Key_PageUp = 61"
definition input_Key_PageDown :: input_Key where "input_Key_PageDown = 62"
definition input_Key_End :: input_Key where "input_Key_End = 63"
definition input_Key_Home :: input_Key where "input_Key_Home = 64"
definition input_Key_Insert :: input_Key where "input_Key_Insert = 65"
definition input_Key_Delete :: input_Key where "input_Key_Delete = 66"
definition input_Key_Add :: input_Key where "input_Key_Add = 67"
definition input_Key_Subtract :: input_Key where "input_Key_Subtract = 68"
definition input_Key_Multiply :: input_Key where "input_Key_Multiply = 69"
definition input_Key_Divide :: input_Key where "input_Key_Divide = 70"
definition input_Key_Left :: input_Key where "input_Key_Left = 71"
definition input_Key_Right :: input_Key where "input_Key_Right = 72"
definition input_Key_Up :: input_Key where "input_Key_Up = 73"
definition input_Key_Down :: input_Key where "input_Key_Down = 74"
definition input_Key_Numpad0 :: input_Key where "input_Key_Numpad0 = 75"
definition input_Key_Numpad1 :: input_Key where "input_Key_Numpad1 = 76"
definition input_Key_Numpad2 :: input_Key where "input_Key_Numpad2 = 77"
definition input_Key_Numpad3 :: input_Key where "input_Key_Numpad3 = 78"
definition input_Key_Numpad4 :: input_Key where "input_Key_Numpad4 = 79"
definition input_Key_Numpad5 :: input_Key where "input_Key_Numpad5 = 80"
definition input_Key_Numpad6 :: input_Key where "input_Key_Numpad6 = 81"
definition input_Key_Numpad7 :: input_Key where "input_Key_Numpad7 = 82"
definition input_Key_Numpad8 :: input_Key where "input_Key_Numpad8 = 83"
definition input_Key_Numpad9 :: input_Key where "input_Key_Numpad9 = 84"
definition input_Key_F1 :: input_Key where "input_Key_F1 = 85"
definition input_Key_F2 :: input_Key where "input_Key_F2 = 86"
definition input_Key_F3 :: input_Key where "input_Key_F3 = 87"
definition input_Key_F4 :: input_Key where "input_Key_F4 = 88"
definition input_Key_F5 :: input_Key where "input_Key_F5 = 89"
definition input_Key_F6 :: input_Key where "input_Key_F6 = 90"
definition input_Key_F7 :: input_Key where "input_Key_F7 = 91"
definition input_Key_F8 :: input_Key where "input_Key_F8 = 92"
definition input_Key_F9 :: input_Key where "input_Key_F9 = 93"
definition input_Key_F10 :: input_Key where "input_Key_F10 = 94"
definition input_Key_F11 :: input_Key where "input_Key_F11 = 95"
definition input_Key_F12 :: input_Key where "input_Key_F12 = 96"
definition input_Key_F13 :: input_Key where "input_Key_F13 = 97"
definition input_Key_F14 :: input_Key where "input_Key_F14 = 98"
definition input_Key_F15 :: input_Key where "input_Key_F15 = 99"
definition input_Key_Pause :: input_Key where "input_Key_Pause = 100"
definition input_Key_CapsLock :: input_Key where "input_Key_CapsLock = 101"
definition input_Key_NumLock :: input_Key where "input_Key_NumLock = 102"
definition input_Key_ScrollLock :: input_Key where "input_Key_ScrollLock = 103"
definition input_Key_Count :: input_Key where "input_Key_Count = 104"

lemmas input_Key_defs =
  input_Key_Unknown_def input_Key_A_def input_Key_B_def input_Key_C_def input_Key_D_def
  input_Key_E_def input_Key_F_def input_Key_G_def input_Key_H_def input_Key_I_def input_Key_J_def
  input_Key_K_def input_Key_L_def input_Key_M_def input_Key_N_def input_Key_O_def input_Key_P_def
  input_Key_Q_def input_Key_R_def input_Key_S_def input_Key_T_def input_Key_U_def input_Key_V_def
  input_Key_W_def input_Key_X_def input_Key_Y_def input_Key_Z_def input_Key_Num0_def
  input_Key_Num1_def input_Key_Num2_def input_Key_Num3_def input_Key_Num4_def input_Key_Num5_def
  input_Key_Num6_def input_Key_Num7_def input_Key_Num8_def input_Key_Num9_def
  input_Key_Escape_def input_Key_LControl_def input_Key_LShift_def input_Key_LAlt_def
  input_Key_LSuper_def input_Key_RControl_def input_Key_RShift_def input_Key_RAlt_def
  input_Key_RSuper_def input_Key_Menu_def input_Key_LBracket_def input_Key_RBracket_def
  input_Key_Semicolon_def input_Key_Comma_def input_Key_Period_def input_Key_Quote_def
  input_Key_Slash_def input_Key_Backslash_def input_Key_Tilde_def input_Key_Equal_def
  input_Key_Hyphen_def input_Key_Space_def input_Key_Enter_def input_Key_Backspace_def
  input_Key_Tab_def input_Key_PageUp_def input_Key_PageDown_def input_Key_End_def
  input_Key_Home_def input_Key_Insert_def input_Key_Delete_def input_Key_Add_def
  input_Key_Subtract_def input_Key_Multiply_def input_Key_Divide_def input_Key_Left_def
  input_Key_Right_def input_Key_Up_def input_Key_Down_def input_Key_Numpad0_def
  input_Key_Numpad1_def input_Key_Numpad2_def input_Key_Numpad3_def input_Key_Numpad4_def
  input_Key_Numpad5_def input_Key_Numpad6_def input_Key_Numpad7_def input_Key_Numpad8_def
  input_Key_Numpad9_def input_Key_F1_def input_Key_F2_def input_Key_F3_def input_Key_F4_def
  input_Key_F5_def input_Key_F6_def input_Key_F7_def input_Key_F8_def input_Key_F9_def
  input_Key_F10_def input_Key_F11_def input_Key_F12_def input_Key_F13_def input_Key_F14_def
  input_Key_F15_def input_Key_Pause_def input_Key_CapsLock_def input_Key_NumLock_def
  input_Key_ScrollLock_def input_Key_Count_def

text \<open>The cases of \<^verbatim>\<open>input_Key_GetName\<close>, in their order.\<close>

definition input_Key_cases :: "(input_Key \<times> string) list" where
  "input_Key_cases = [
     (input_Key_A, ''input_Key_A''), (input_Key_B, ''input_Key_B''),
     (input_Key_C, ''input_Key_C''), (input_Key_D, ''input_Key_D''),
     (input_Key_E, ''input_Key_E''), (input_Key_F, ''input_Key_F''),
     (input_Key_G, ''input_Key_G''), (input_Key_H, ''input_Key_H''),
     (input_Key_I, ''input_Key_I''), (input_Key_J, ''input_Key_J''),
     (input_Key_K, ''input_Key_K''), (input_Key_L, ''input_Key_L''),
     (input_Key_M, ''input_Key_M''), (input_Key_N, ''input_Key_N''),
     (input_Key_O, ''input_Key_O''), (input_Key_P, ''input_Key_P''),
     (input_Key_Q, ''input_Key_Q''), (input_Key_R, ''input_Key_R''),
     (input_Key_S, ''input_Key_S''), (input_Key_T, ''input_Key_T''),
     (input_Key_U, ''input_Key_U''), (input_Key_V, ''input_Key_V''),
     (input_Key_W, ''input_Key_W''), (input_Key_X, ''input_Key_X''),
     (input_Key_Y, ''input_Key_Y''), (input_Key_Z, ''input_Key_Z''),
     (input_Key_Num0, ''input_Key_Num0''), (input_Key_Num1, ''input_Key_Num1''),
     (input_Key_Num2, ''input_Key_Num2''), (input_Key_Num3, ''input_Key_Num3''),
     (input_Key_Num4, ''input_Key_Num4''), (input_Key_Num5, ''input_Key_Num5''),
     (input_Key_Num6, ''input_Key_Num6''), (input_Key_Num7, ''input_Key_Num7''),
     (input_Key_Num8, ''input_Key_Num8''), (input_Key_Num9, ''input_Key_Num9''),
     (input_Key_Escape, ''input_Key_Escape''), (input_Key_LControl, ''input_Key_LControl''),
     (input_Key_LShift, ''input_Key_LShift''), (input_Key_LAlt, ''input_Key_LAlt''),
     (input_Key_LSuper, ''input_Key_LSuper''), (input_Key_RControl, ''input_Key_RControl''),
     (input_Key_RShift, ''input_Key_RShift''), (input_Key_RAlt, ''input_Key_RAlt''),
     (input_Key_RSuper, ''input_Key_RSuper''), (input_Key_Menu, ''input_Key_Menu''),
     (input_Key_LBracket, ''input_Key_LBracket''), (input_Key_RBracket, ''input_Key_RBracket''),
     (input_Key_Semicolon, ''input_Key_Semicolon''), (input_Key_Comma, ''input_Key_Comma''),
     (input_Key_Period, ''input_Key_Period''), (input_Key_Quote, ''input_Key_Quote''),
     (input_Key_Slash, ''input_Key_Slash''), (input_Key_Backslash, ''input_Key_Backslash''),
     (input_Key_Tilde, ''input_Key_Tilde''), (input_Key_Equal, ''input_Key_Equal''),
     (input_Key_Hyphen, ''input_Key_Hyphen''), (input_Key_Space, ''input_Key_Space''),
     (input_Key_Enter, ''input_Key_Enter''), (input_Key_Backspace, ''input_Key_Backspace''),
     (input_Key_Tab, ''input_Key_Tab''), (input_Key_PageUp, ''input_Key_PageUp''),
     (input_Key_PageDown, ''input_Key_PageDown''), (input_Key_End, ''input_Key_End''),
     (input_Key_Home, ''input_Key_Home''), (input_Key_Insert, ''input_Key_Insert''),
     (input_Key_Delete, ''input_Key_Delete''), (input_Key_Add, ''input_Key_Add''),
     (input_Key_Subtract, ''input_Key_Subtract''), (input_Key_Multiply, ''input_Key_Multiply''),
     (input_Key_Divide, ''input_Key_Divide''), (input_Key_Left, ''input_Key_Left''),
     (input_Key_Right, ''input_Key_Right''), (input_Key_Up, ''input_Key_Up''),
     (input_Key_Down, ''input_Key_Down''), (input_Key_Numpad0, ''input_Key_Numpad0''),
     (input_Key_Numpad1, ''input_Key_Numpad1''), (input_Key_Numpad2, ''input_Key_Numpad2''),
     (input_Key_Numpad3, ''input_Key_Numpad3''), (input_Key_Numpad4, ''input_Key_Numpad4''),
     (input_Key_Numpad5, ''input_Key_Numpad5''), (input_Key_Numpad6, ''input_Key_Numpad6''),
     (input_Key_Numpad7, ''input_Key_Numpad7''), (input_Key_Numpad8, ''input_Key_Numpad8''),
     (input_Key_Numpad9, ''input_Key_Numpad9''), (input_Key_F1, ''input_Key_F1''),
     (input_Key_F2, ''input_Key_F2''), (input_Key_F3, ''input_Key_F3''),
     (input_Key_F4, ''input_Key_F4''), (input_Key_F5, ''input_Key_F5''),
     (input_Key_F6, ''input_Key_F6''), (input_Key_F7, ''input_Key_F7''),
     (input_Key_F8, ''input_Key_F8''), (input_Key_F9, ''input_Key_F9''),
     (input_Key_F10, ''input_Key_F10''), (input_Key_F11, ''input_Key_F11''),
     (input_Key_F12, ''input_Key_F12''), (input_Key_F13, ''input_Key_F13''),
     (input_Key_F14, ''input_Key_F14''), (input_Key_F15, ''input_Key_F15''),
     (input_Key_Pause, ''input_Key_Pause''), (input_Key_CapsLock, ''input_Key_CapsLock''),
     (input_Key_NumLock, ''input_Key_NumLock''),
     (input_Key_ScrollLock, ''input_Key_ScrollLock'')]"

definition input_Key_GetName :: "input_Key \<Rightarrow> string" where
  "input_Key_GetName key = (case map_of input_Key_cases key of Some name \<Rightarrow> name | None \<Rightarrow> ''(Unknown)'')"

section \<open>Mouse buttons\<close>

type_synonym input_MouseButton = int

definition input_MouseButton_Left :: input_MouseButton where "input_MouseButton_Left = 0"
definition input_MouseButton_Right :: input_MouseButton where "input_MouseButton_Right = 1"
definition input_MouseButton_Middle :: input_MouseButton where "input_MouseButton_Middle = 2"
definition input_MouseButton_4 :: input_MouseButton where "input_MouseButton_4 = 3"
definition input_MouseButton_5 :: input_MouseButton where "input_MouseButton_5 = 4"
definition input_MouseButton_Count :: input_MouseButton where "input_MouseButton_Count = 5"

lemmas input_MouseButton_defs = input_MouseButton_Left_def input_MouseButton_Right_def
  input_MouseButton_Middle_def input_MouseButton_4_def input_MouseButton_5_def input_MouseButton_Count_def

section \<open>The names\<close>

lemma input_Key_cases_codes: "map fst input_Key_cases = [0..input_Key_Count - 1]"
  unfolding input_Key_cases_def input_Key_defs by (simp add: upto_rec1)

lemma input_Key_cases_names: "distinct (map snd input_Key_cases)"
  unfolding input_Key_cases_def by simp

lemma input_Key_unknown_unnamed: "''(Unknown)'' \<notin> set (map snd input_Key_cases)"
  unfolding input_Key_cases_def by simp

lemma input_Key_GetName_known:
  "0 \<le> k \<Longrightarrow> k < input_Key_Count \<Longrightarrow> (k, input_Key_GetName k) \<in> set input_Key_cases"
  using input_Key_cases_codes map_of_SomeD [of input_Key_cases k]
  by (metis (no_types, lifting) domD dom_map_of_conv_image_fst image_set input_Key_GetName_def
      option.simps(5) atLeastAtMost_iff set_upto zle_diff1_eq)

end
