(* ===== verification/Input.thy ===== *)
theory Input
  imports Input_Keys Numeric Queue "HOL-Library.Signed_Division"
begin

text \<open>
  The input state of the kernel, \<^verbatim>\<open>src/driver/input/input.c\<close>: the sets of pressed keys and mouse
  buttons, the cursor inside the desktop, and the queue of events. The state is a record of the
  global variables. Each function that builds an event takes the address \<open>sp\<close> of its local variable
  \<^verbatim>\<open>e\<close>; the bytes of the union that the initialiser leaves out are zero. Switching interrupts off
  and on has no effect on this state. Notifying \<^verbatim>\<open>input_Condition\<close> is counted: what it does is the
  scheduler's part.
\<close>

section \<open>The code\<close>

datatype input_Event =
    MouseMoved int int
  | MouseButtonPressed input_MouseButton int int
  | MouseButtonReleased input_MouseButton int int
  | KeyPressed input_Key bool bool bool bool
  | KeyReleased input_Key bool bool bool bool

text \<open>The type tag and the members of the union, as the struct lies in memory.\<close>

definition int_bytes :: "int \<Rightarrow> u8 list" where
  "int_bytes x = le_bytes 4 (of_int x)"

definition bool_byte :: "bool \<Rightarrow> u8" where
  "bool_byte b = (if b then 1 else 0)"

fun event_bytes :: "input_Event \<Rightarrow> u8 list" where
  "event_bytes (MouseMoved x y) = int_bytes 0 @ int_bytes x @ int_bytes y @ replicate 4 0"
| "event_bytes (MouseButtonPressed b x y) = int_bytes 1 @ int_bytes b @ int_bytes x @ int_bytes y"
| "event_bytes (MouseButtonReleased b x y) = int_bytes 2 @ int_bytes b @ int_bytes x @ int_bytes y"
| "event_bytes (KeyPressed k control shift alt super) =
     int_bytes 3 @ int_bytes k @ map bool_byte [control, shift, alt, super] @ replicate 4 0"
| "event_bytes (KeyReleased k control shift alt super) =
     int_bytes 4 @ int_bytes k @ map bool_byte [control, shift, alt, super] @ replicate 4 0"

definition sizeof_input_Event :: u64 where "sizeof_input_Event = 16"

record input_state =
  in_mem :: mem
  in_EventQueue :: "queue_Queue option"
  in_Condition :: bool
  in_notified :: nat
  in_CursorX :: int
  in_CursorY :: int
  in_DesktopWidth :: int
  in_DesktopHeight :: int
  in_KeyMask :: "int \<Rightarrow> u64"
  in_MouseMask :: "int \<Rightarrow> u64"

text \<open>
  \<^verbatim>\<open>1ull << n\<close> for an \<^verbatim>\<open>int\<close> \<open>n\<close>. Outside 0 to 63 the C language leaves it open; the processor takes
  the count modulo 64.
\<close>

definition shl1 :: "int \<Rightarrow> u64" where
  "shl1 n = push_bit (nat (n mod 64)) 1"

definition input_KeyPressed :: "input_Key \<Rightarrow> input_state \<Rightarrow> bool" where
  "input_KeyPressed key s \<longleftrightarrow> in_KeyMask s (key sdiv 64) AND shl1 (key smod 64) \<noteq> 0"

text \<open>The shift binds more tightly than \<^verbatim>\<open>&\<close> in C: \<^verbatim>\<open>1ull << key & 64\<close> is \<^verbatim>\<open>(1ull << key) & 64\<close>.\<close>

definition mouse_bit :: "input_MouseButton \<Rightarrow> u64" where
  "mouse_bit key = shl1 key AND 64"

definition input_MousePressed :: "input_MouseButton \<Rightarrow> input_state \<Rightarrow> bool" where
  "input_MousePressed key s \<longleftrightarrow> in_MouseMask s (key sdiv 64) AND mouse_bit key \<noteq> 0"

definition input_MousePosition :: "input_state \<Rightarrow> int \<times> int" where
  "input_MousePosition s = (in_CursorX s, in_CursorY s)"

definition input_DesktopSize :: "input_state \<Rightarrow> int \<times> int" where
  "input_DesktopSize s = (in_DesktopWidth s, in_DesktopHeight s)"

definition notify :: "input_state \<Rightarrow> input_state" where
  "notify s = (if in_Condition s then s\<lparr>in_notified := in_notified s + 1\<rparr> else s)"

definition flagControl :: "input_state \<Rightarrow> bool" where
  "flagControl s \<longleftrightarrow> input_KeyPressed input_Key_LControl s \<or> input_KeyPressed input_Key_RControl s"

definition flagShift :: "input_state \<Rightarrow> bool" where
  "flagShift s \<longleftrightarrow> input_KeyPressed input_Key_LShift s \<or> input_KeyPressed input_Key_RShift s"

definition flagAlt :: "input_state \<Rightarrow> bool" where
  "flagAlt s \<longleftrightarrow> input_KeyPressed input_Key_LAlt s \<or> input_KeyPressed input_Key_RAlt s"

text \<open>The block \<^verbatim>\<open>if (input_EventQueue) ...\<close>: the local event is stored and pushed as bytes.\<close>

definition send_event :: "addr \<Rightarrow> input_Event \<Rightarrow> input_state \<Rightarrow> input_state" where
  "send_event sp e s = (case in_EventQueue s of None \<Rightarrow> s
     | Some q \<Rightarrow> (let (m, q) = queue_Push sp sizeof_input_Event (store_bytes (in_mem s) sp (event_bytes e), q)
                  in s\<lparr>in_mem := m, in_EventQueue := Some q\<rparr>))"

definition input_source_PressKey :: "addr \<Rightarrow> input_Key \<Rightarrow> input_state \<Rightarrow> input_state" where
  "input_source_PressKey sp key s =
     (let i = key sdiv 64; s = s\<lparr>in_KeyMask := (in_KeyMask s)(i := in_KeyMask s i OR shl1 (key smod 64))\<rparr>;
          s = send_event sp (KeyPressed key (flagControl s) (flagShift s) (flagAlt s) False) s
      in notify s)"

definition input_source_ReleaseKey :: "addr \<Rightarrow> input_Key \<Rightarrow> input_state \<Rightarrow> input_state" where
  "input_source_ReleaseKey sp key s =
     (let i = key sdiv 64; s = s\<lparr>in_KeyMask := (in_KeyMask s)(i := in_KeyMask s i AND NOT (shl1 (key smod 64)))\<rparr>;
          s = send_event sp (KeyReleased key (flagControl s) (flagShift s) (flagAlt s) False) s
      in notify s)"

definition input_source_PressMouse :: "addr \<Rightarrow> input_MouseButton \<Rightarrow> input_state \<Rightarrow> input_state" where
  "input_source_PressMouse sp key s =
     (let i = key sdiv 64; s = s\<lparr>in_MouseMask := (in_MouseMask s)(i := in_MouseMask s i OR mouse_bit key)\<rparr>;
          s = send_event sp (MouseButtonPressed key (in_CursorX s) (in_CursorY s)) s
      in notify s)"

definition input_source_ReleaseMouse :: "addr \<Rightarrow> input_MouseButton \<Rightarrow> input_state \<Rightarrow> input_state" where
  "input_source_ReleaseMouse sp key s =
     (let i = key sdiv 64; s = s\<lparr>in_MouseMask := (in_MouseMask s)(i := in_MouseMask s i AND NOT (mouse_bit key))\<rparr>;
          s = send_event sp (MouseButtonReleased key (in_CursorX s) (in_CursorY s)) s
      in notify s)"

definition input_source_MoveMouse :: "addr \<Rightarrow> int \<Rightarrow> int \<Rightarrow> input_state \<Rightarrow> input_state" where
  "input_source_MoveMouse sp x y s =
     (let s = s\<lparr>in_CursorX := intminmax (s32 (in_CursorX s + x)) 0 (in_DesktopWidth s)\<rparr>;
          s = s\<lparr>in_CursorY := intminmax (s32 (in_CursorY s + y)) 0 (in_DesktopHeight s)\<rparr>;
          s = send_event sp (MouseMoved (in_CursorX s) (in_CursorY s)) s
      in notify s)"

definition input_source_PositionMouse :: "addr \<Rightarrow> int \<Rightarrow> int \<Rightarrow> input_state \<Rightarrow> input_state" where
  "input_source_PositionMouse sp x y s =
     (let s = s\<lparr>in_CursorX := intminmax x 0 (in_DesktopWidth s)\<rparr>;
          s = s\<lparr>in_CursorY := intminmax y 0 (in_DesktopHeight s)\<rparr>;
          s = send_event sp (MouseMoved (in_CursorX s) (in_CursorY s)) s
      in notify s)"

definition input_source_SetDesktopSize :: "int \<Rightarrow> int \<Rightarrow> input_state \<Rightarrow> input_state" where
  "input_source_SetDesktopSize x y s =
     (let s = s\<lparr>in_DesktopWidth := x, in_DesktopHeight := y\<rparr>;
          s = s\<lparr>in_CursorX := intminmax (in_CursorX s) 0 (in_DesktopWidth s)\<rparr>
      in s\<lparr>in_CursorY := intminmax (in_CursorY s) 0 (in_DesktopHeight s)\<rparr>)"

section \<open>Sequences of input operations\<close>

text \<open>The calls a source of input makes, each with the stack position it is made at.\<close>

datatype source_op =
    PressKey addr input_Key
  | ReleaseKey addr input_Key
  | PressMouse addr input_MouseButton
  | ReleaseMouse addr input_MouseButton
  | MoveMouse addr int int
  | PositionMouse addr int int
  | SetDesktopSize int int

fun input_apply :: "source_op \<Rightarrow> input_state \<Rightarrow> input_state" where
  "input_apply (PressKey sp k) = input_source_PressKey sp k"
| "input_apply (ReleaseKey sp k) = input_source_ReleaseKey sp k"
| "input_apply (PressMouse sp b) = input_source_PressMouse sp b"
| "input_apply (ReleaseMouse sp b) = input_source_ReleaseMouse sp b"
| "input_apply (MoveMouse sp x y) = input_source_MoveMouse sp x y"
| "input_apply (PositionMouse sp x y) = input_source_PositionMouse sp x y"
| "input_apply (SetDesktopSize x y) = input_source_SetDesktopSize x y"

lemmas source_defs = input_source_PressKey_def input_source_ReleaseKey_def input_source_PressMouse_def
  input_source_ReleaseMouse_def input_source_MoveMouse_def input_source_PositionMouse_def
  input_source_SetDesktopSize_def

text \<open>The operations the model speaks of: key and button codes of the enumerations, sizes not negative.\<close>

fun op_ok :: "source_op \<Rightarrow> bool" where
  "op_ok (PressKey sp k) \<longleftrightarrow> 0 \<le> k \<and> k < input_Key_Count"
| "op_ok (ReleaseKey sp k) \<longleftrightarrow> 0 \<le> k \<and> k < input_Key_Count"
| "op_ok (PressMouse sp b) \<longleftrightarrow> 0 \<le> b \<and> b < input_MouseButton_Count"
| "op_ok (ReleaseMouse sp b) \<longleftrightarrow> 0 \<le> b \<and> b < input_MouseButton_Count"
| "op_ok (SetDesktopSize x y) \<longleftrightarrow> 0 \<le> x \<and> 0 \<le> y"
| "op_ok _ \<longleftrightarrow> True"

inductive input_run :: "input_state \<Rightarrow> source_op list \<Rightarrow> input_state \<Rightarrow> bool" where
  none: "input_run s [] s"
| step: "input_run s ops s' \<Longrightarrow> op_ok op \<Longrightarrow> input_run s (ops @ [op]) (input_apply op s')"

lemma input_run_fold: "input_run s ops s' \<longleftrightarrow> (\<forall>op \<in> set ops. op_ok op) \<and> s' = fold input_apply ops s"
proof
  show "input_run s ops s' \<Longrightarrow> (\<forall>op \<in> set ops. op_ok op) \<and> s' = fold input_apply ops s"
    by (induction rule: input_run.induct) auto
  show "(\<forall>op \<in> set ops. op_ok op) \<and> s' = fold input_apply ops s \<Longrightarrow> input_run s ops s'"
    by (induction ops arbitrary: s' rule: rev_induct) (auto intro: input_run.intros)
qed

subsection \<open>What sending and notifying leave alone\<close>

named_theorems input_frame \<open>fields kept by an operation\<close>

lemma send_event_fields [simp, input_frame]:
  "in_KeyMask (send_event sp e s) = in_KeyMask s" "in_MouseMask (send_event sp e s) = in_MouseMask s"
  "in_CursorX (send_event sp e s) = in_CursorX s" "in_CursorY (send_event sp e s) = in_CursorY s"
  "in_DesktopWidth (send_event sp e s) = in_DesktopWidth s"
  "in_DesktopHeight (send_event sp e s) = in_DesktopHeight s"
  by (simp_all add: send_event_def split: option.split prod.split)

lemma notify_fields [simp, input_frame]:
  "in_KeyMask (notify s) = in_KeyMask s" "in_MouseMask (notify s) = in_MouseMask s"
  "in_CursorX (notify s) = in_CursorX s" "in_CursorY (notify s) = in_CursorY s"
  "in_DesktopWidth (notify s) = in_DesktopWidth s" "in_DesktopHeight (notify s) = in_DesktopHeight s"
  "in_mem (notify s) = in_mem s" "in_EventQueue (notify s) = in_EventQueue s"
  by (simp_all add: notify_def)

lemma input_KeyPressed_cong: "in_KeyMask s = in_KeyMask s' \<Longrightarrow> input_KeyPressed k s = input_KeyPressed k s'"
  by (simp add: input_KeyPressed_def)

lemma modifier_flags_cong:
  assumes "in_KeyMask s = in_KeyMask s'"
  shows "flagControl s = flagControl s'" "flagShift s = flagShift s'" "flagAlt s = flagAlt s'"
  using input_KeyPressed_cong [OF assms] by (simp_all add: flagControl_def flagShift_def flagAlt_def)

lemma modifier_flags_frame [simp, input_frame]:
  "flagControl (notify s) = flagControl s" "flagControl (send_event sp e s) = flagControl s"
  "flagShift (notify s) = flagShift s" "flagShift (send_event sp e s) = flagShift s"
  "flagAlt (notify s) = flagAlt s" "flagAlt (send_event sp e s) = flagAlt s"
  by (rule modifier_flags_cong, simp)+

subsection \<open>The set of pressed keys\<close>

lemma key_index:
  assumes "0 \<le> k" and "k < input_Key_Count"
  shows "k sdiv 64 = k div 64" "k smod 64 = k mod 64"
  using assms by (simp_all add: signed_divide_int_def signed_modulo_int_def sgn_if)

lemma input_KeyPressed_bit:
  assumes "0 \<le> k" and "k < input_Key_Count"
  shows "input_KeyPressed k s \<longleftrightarrow> bit (in_KeyMask s (k div 64)) (nat (k mod 64))"
  using assms
  by (simp add: input_KeyPressed_def key_index shl1_def and_exp_eq_0_iff_not_bit)

lemma bit_shl1:
  assumes "n < 64"
  shows "bit (shl1 (k mod 64)) n \<longleftrightarrow> n = nat (k mod 64)"
proof -
  have "nat (k mod 64) < 64" by simp
  with assms show ?thesis by (auto simp: shl1_def bit_simps)
qed

lemma key_index_eq: "k div 64 = k' div 64 \<Longrightarrow> nat (k mod 64) = nat (k' mod 64) \<Longrightarrow> k = (k' :: int)"
  by (metis div_mult_mod_eq eq_nat_nat_iff pos_mod_sign zero_less_numeral)

fun key_op :: "input_Key \<Rightarrow> source_op \<Rightarrow> bool \<Rightarrow> bool" where
  "key_op k (PressKey sp k') down = (if k' = k then True else down)"
| "key_op k (ReleaseKey sp k') down = (if k' = k then False else down)"
| "key_op k _ down = down"

lemma input_KeyPressed_apply:
  assumes "0 \<le> k" and "k < input_Key_Count" and "op_ok op"
  shows "input_KeyPressed k (input_apply op s) = key_op k op (input_KeyPressed k s)"
proof -
  have n: "nat (k mod 64) < 64" by simp
  show ?thesis
    using assms n key_index_eq [of k]
    by (cases op)
      (auto simp: source_defs Let_def input_KeyPressed_bit key_index bit_or_iff bit_and_iff bit_not_iff
         bit_shl1)
qed

definition cursor_ok :: "input_state \<Rightarrow> bool" where
  "cursor_ok s \<longleftrightarrow> 0 \<le> in_CursorX s \<and> in_CursorX s \<le> in_DesktopWidth s \<and>
     0 \<le> in_CursorY s \<and> in_CursorY s \<le> in_DesktopHeight s"

lemma cursor_ok_apply: "cursor_ok s \<Longrightarrow> op_ok op \<Longrightarrow> cursor_ok (input_apply op s)"
  by (cases op) (simp_all add: source_defs Let_def cursor_ok_def intminmax_def)

subsection \<open>The queue of events\<close>

text \<open>The event an operation sends, read off the state after it.\<close>

fun op_events :: "source_op \<Rightarrow> input_state \<Rightarrow> input_Event list" where
  "op_events (PressKey sp k) s = [KeyPressed k (flagControl s) (flagShift s) (flagAlt s) False]"
| "op_events (ReleaseKey sp k) s = [KeyReleased k (flagControl s) (flagShift s) (flagAlt s) False]"
| "op_events (PressMouse sp b) s = [MouseButtonPressed b (in_CursorX s) (in_CursorY s)]"
| "op_events (ReleaseMouse sp b) s = [MouseButtonReleased b (in_CursorX s) (in_CursorY s)]"
| "op_events (MoveMouse sp x y) s = [MouseMoved (in_CursorX s) (in_CursorY s)]"
| "op_events (PositionMouse sp x y) s = [MouseMoved (in_CursorX s) (in_CursorY s)]"
| "op_events (SetDesktopSize x y) s = []"

fun trace_events :: "source_op list \<Rightarrow> input_state \<Rightarrow> input_Event list" where
  "trace_events [] s = []"
| "trace_events (op # ops) s = op_events op (input_apply op s) @ trace_events ops (input_apply op s)"

text \<open>The stack position of an operation stays clear of the ring.\<close>

fun op_clear :: "queue_Queue \<Rightarrow> source_op \<Rightarrow> bool" where
  "op_clear q (SetDesktopSize x y) \<longleftrightarrow> True"
| "op_clear q (PressKey sp _) \<longleftrightarrow> unat sp + 16 < 2 ^ 64 \<and> disjoint_blocks sp 16 (q_data q) (q_size q)"
| "op_clear q (ReleaseKey sp _) \<longleftrightarrow> unat sp + 16 < 2 ^ 64 \<and> disjoint_blocks sp 16 (q_data q) (q_size q)"
| "op_clear q (PressMouse sp _) \<longleftrightarrow> unat sp + 16 < 2 ^ 64 \<and> disjoint_blocks sp 16 (q_data q) (q_size q)"
| "op_clear q (ReleaseMouse sp _) \<longleftrightarrow> unat sp + 16 < 2 ^ 64 \<and> disjoint_blocks sp 16 (q_data q) (q_size q)"
| "op_clear q (MoveMouse sp _ _) \<longleftrightarrow> unat sp + 16 < 2 ^ 64 \<and> disjoint_blocks sp 16 (q_data q) (q_size q)"
| "op_clear q (PositionMouse sp _ _) \<longleftrightarrow> unat sp + 16 < 2 ^ 64 \<and> disjoint_blocks sp 16 (q_data q) (q_size q)"

lemma op_clear_cong: "q_data q = q_data q' \<Longrightarrow> q_size q = q_size q' \<Longrightarrow> op_clear q op = op_clear q' op"
  by (cases op) simp_all

lemma length_event_bytes [simp]: "length (event_bytes e) = 16"
  by (cases e) (simp_all add: int_bytes_def)

declare event_bytes.simps [simp del]

text \<open>The event queue seen from outside: its contents, capacity and place.\<close>

definition event_queue :: "input_state \<Rightarrow> queue_Queue \<Rightarrow> u8 list \<Rightarrow> bool" where
  "event_queue s q bs \<longleftrightarrow> (\<exists>q'. in_EventQueue s = Some q' \<and> queue_inv q' \<and> q_data q' = q_data q \<and>
     q_size q' = q_size q \<and> queue_contents (in_mem s, q') = bs)"

lemma queue_contents_mem_cong:
  assumes "queue_inv q" and "\<And>a. in_block a (q_data q) (q_size q) \<Longrightarrow> m a = m' a"
  shows "queue_contents (m, q) = queue_contents (m', q)"
proof -
  have "in_block (q_cell q i) (q_data q) (q_size q)" if "i < unat (q_count q)" for i
    using that assms(1) by (intro q_cell_in_block) (auto simp: queue_inv_def word_le_nat_alt)
  with assms(2) show ?thesis by (simp add: queue_contents_def)
qed

lemma send_event_queue:
  assumes "event_queue s q bs" and "unat sp + 16 < 2 ^ 64" and "disjoint_blocks sp 16 (q_data q) (q_size q)"
  shows "event_queue (send_event sp e s) q
           (bs @ (if length bs + 16 \<le> unat (q_size q) then event_bytes e else []))"
proof -
  obtain q' where q': "in_EventQueue s = Some q'" "queue_inv q'" "q_data q' = q_data q" "q_size q' = q_size q"
    "queue_contents (in_mem s, q') = bs" using assms(1) by (auto simp: event_queue_def)
  let ?m = "store_bytes (in_mem s) sp (event_bytes e)"
  have c: "queue_contents (?m, q') = bs"
    unfolding q'(5) [symmetric] using assms(3) q'(3,4)
    by (intro queue_contents_mem_cong [OF q'(2)]) (auto simp: disjoint_blocks_def intro!: store_bytes_outside)
  have b: "bytes_at ?m sp 16 = event_bytes e"
    using bytes_at_store_bytes [of "event_bytes e" "in_mem s" sp] by simp
  define P where "P = queue_Push sp 16 (?m, q')"
  have P: "P = (if length bs + 16 \<le> unat (q_size q) then fold queue_PushByte (event_bytes e) (?m, q') else (?m, q'))"
    using queue_Push_fold [of "(?m, q')" sp 16] q' c b assms(2,3) by (simp add: P_def)
  have "queue_inv (snd P)" "q_data (snd P) = q_data q" "q_size (snd P) = q_size q"
    using q' rq.inv_pushes [of "(?m, q')" "event_bytes e"] by (simp_all add: P)
  moreover have "queue_contents P = bs @ (if length bs + 16 \<le> unat (q_size q) then event_bytes e else [])"
    using q' c rq.contents_pushes [of "(?m, q')" "event_bytes e"] by (auto simp: P)
  ultimately show ?thesis
    using q'(1) by (auto simp: event_queue_def send_event_def sizeof_input_Event_def P_def [symmetric] split: prod.split)
qed

lemma event_queue_cong:
  "in_EventQueue s = in_EventQueue s' \<Longrightarrow> in_mem s = in_mem s' \<Longrightarrow> event_queue s q bs = event_queue s' q bs"
  by (simp add: event_queue_def)

lemma op_events_shape: "length (op_events op s) \<le> 1"
  by (cases op) simp_all

lemma if_append: "c \<Longrightarrow> xs @ (if c then ys else []) = xs @ ys" "\<not> c \<Longrightarrow> xs @ (if c then ys else []) = xs"
  by simp_all

lemma apply_event_queue:
  assumes "event_queue s q bs" and "op_clear q op"
  shows "event_queue (input_apply op s) q
           (bs @ (if length bs + 16 \<le> unat (q_size q) then concat (map event_bytes (op_events op (input_apply op s))) else []))"
proof -
  have send: "event_queue (notify (send_event sp e s')) q
      (bs @ (if length bs + 16 \<le> unat (q_size q) then event_bytes e else []))"
    if "unat sp + 16 < 2 ^ 64" "disjoint_blocks sp 16 (q_data q) (q_size q)"
      and "in_EventQueue s' = in_EventQueue s" "in_mem s' = in_mem s" for sp e s'
  proof -
    have "event_queue s' q bs" using assms(1) that by (simp add: event_queue_def)
    from send_event_queue [OF this that(1,2), of e] show ?thesis by (simp add: event_queue_def)
  qed
  note room = send [THEN back_subst [of "event_queue _ q"], OF _ _ _ _ if_append(1)]
    and full = send [THEN back_subst [of "event_queue _ q"], OF _ _ _ _ if_append(2)]
  show ?thesis
  proof (cases op)
    case (SetDesktopSize x y)
    with assms show ?thesis by (simp add: event_queue_def source_defs Let_def)
  qed (use assms(2) in \<open>simp_all add: source_defs Let_def room full\<close>)
qed

lemma concat_events_length: "length (concat (map event_bytes es)) = 16 * length es"
  by (induction es) simp_all

text \<open>Events are all of one size, so that the queue keeps the first ones that fit.\<close>

lemma fold_apply_event_queue:
  "event_queue s q bs \<Longrightarrow> length bs \<le> unat (q_size q) \<Longrightarrow> (\<And>op. op \<in> set ops \<Longrightarrow> op_clear q op) \<Longrightarrow>
     event_queue (fold input_apply ops s) q
       (bs @ concat (map event_bytes (take ((unat (q_size q) - length bs) div 16) (trace_events ops s))))"
proof (induction ops arbitrary: s bs)
  case (Cons op ops)
  let ?s = "input_apply op s" and ?n = "(unat (q_size q) - length bs) div 16"
  have clear: "op_clear q op" and rest: "\<And>op. op \<in> set ops \<Longrightarrow> op_clear q op" using Cons.prems(3) by auto
  have "op_events op ?s = [] \<or> (\<exists>e. op_events op ?s = [e])"
    using op_events_shape [of op ?s] by (cases "op_events op ?s") auto
  then consider (none) "op_events op ?s = []"
    | (room) e where "op_events op ?s = [e]" "length bs + 16 \<le> unat (q_size q)"
    | (full) e where "op_events op ?s = [e]" "\<not> length bs + 16 \<le> unat (q_size q)"
    by blast
  then show ?case
  proof cases
    case none
    then have "event_queue ?s q bs"
      using apply_event_queue [OF Cons.prems(1) clear] by (simp split: if_splits)
    from Cons.IH [OF this Cons.prems(2) rest] none show ?thesis by simp
  next
    case (room e)
    then have "event_queue ?s q (bs @ event_bytes e)" using apply_event_queue [OF Cons.prems(1) clear] by simp
    from Cons.IH [OF this _ rest] room
    have *: "event_queue (fold input_apply ops ?s) q ((bs @ event_bytes e) @ concat (map event_bytes
        (take ((unat (q_size q) - length (bs @ event_bytes e)) div 16) (trace_events ops ?s))))" by simp
    have "?n = Suc ((unat (q_size q) - length (bs @ event_bytes e)) div 16)" using room(2) by simp
    with * room(1) show ?thesis by simp
  next
    case (full e)
    then have "event_queue ?s q bs" using apply_event_queue [OF Cons.prems(1) clear] by simp
    from Cons.IH [OF this Cons.prems(2) rest] full show ?thesis by simp
  qed
qed simp

section \<open>Properties\<close>

text \<open>
  C22: whatever the sources of input do, a key is reported as pressed exactly if the last operation
  on it was a press (or it was pressed before and not touched since), and the cursor stays inside
  the desktop. The cursor may lie on the far edge: the desktop's width and height are included.
\<close>

theorem input_keys_and_cursor:
  assumes "input_run s ops s'" and "cursor_ok s"
  shows "cursor_ok s' \<and> (\<forall>k. 0 \<le> k \<and> k < input_Key_Count \<longrightarrow>
     input_KeyPressed k s' = fold (key_op k) ops (input_KeyPressed k s))"
  using assms
  by (induction rule: input_run.induct) (auto simp: cursor_ok_apply input_KeyPressed_apply)

definition demo_input :: input_state where
  "demo_input = \<lparr>in_mem = (\<lambda>_. 0), in_EventQueue = Some \<lparr>q_data = 0x1000, q_size = 40, q_begin = 0x1000,
     q_end = 0x1000, q_count = 0\<rparr>, in_Condition = True, in_notified = 0, in_CursorX = 5, in_CursorY = 5,
     in_DesktopWidth = 8, in_DesktopHeight = 8, in_KeyMask = (\<lambda>_. 0), in_MouseMask = (\<lambda>_. 0)\<rparr>"

definition demo_ops :: "source_op list" where
  "demo_ops = [PressKey 0x2000 input_Key_LShift, MoveMouse 0x2000 100 (- 2), PressKey 0x2000 input_Key_A,
     ReleaseKey 0x2000 input_Key_LShift]"

lemma demo_input_run: "input_run demo_input demo_ops (fold input_apply demo_ops demo_input)"
  by (simp add: input_run_fold demo_ops_def input_Key_defs)

theorem input_keys_and_cursor_witness:
  "let s' = fold input_apply demo_ops demo_input in
     cursor_ok s' \<and> input_KeyPressed input_Key_A s' \<and> \<not> input_KeyPressed input_Key_LShift s'"
proof -
  have "cursor_ok demo_input" by (simp add: cursor_ok_def demo_input_def)
  from input_keys_and_cursor [OF demo_input_run this] show ?thesis
    by (simp add: demo_ops_def input_Key_defs Let_def)
qed

text \<open>
  The event queue receives one event for each operation but the change of the desktop, in
  order, each as its 16 bytes; it keeps the first events that fit and drops the later ones whole.
  The local variables of the calls do not overlap the ring.
\<close>

theorem input_events_delivered:
  assumes "input_run s ops s'" and "event_queue s q bs" and "length bs \<le> unat (q_size q)"
    and "\<And>op. op \<in> set ops \<Longrightarrow> op_clear q op"
  shows "event_queue s' q
    (bs @ concat (map event_bytes (take ((unat (q_size q) - length bs) div 16) (trace_events ops s))))"
  using fold_apply_event_queue [OF assms(2-4)] assms(1) by (simp add: input_run_fold)

theorem input_events_delivered_witness:
  "event_queue (fold input_apply demo_ops demo_input) (the (in_EventQueue demo_input))
     (event_bytes (KeyPressed input_Key_LShift False True False False) @ event_bytes (MouseMoved 8 3))"
proof -
  let ?q = "the (in_EventQueue demo_input)"
  have q: "event_queue demo_input ?q []"
    by (simp add: event_queue_def demo_input_def queue_inv_def q_off_def q_cell_def queue_contents_def)
  have "op_clear ?q op" if "op \<in> set demo_ops" for op
    using that by (auto simp: demo_ops_def demo_input_def intro!: disjoint_blocks_sym [OF disjoint_blocksI])
  from input_events_delivered [OF demo_input_run q _ this]
  have "event_queue (fold input_apply demo_ops demo_input) ?q
     (concat (map event_bytes (take (unat (q_size ?q) div 16) (trace_events demo_ops demo_input))))" by simp
  then show ?thesis
    by (simp add: demo_ops_def demo_input_def source_defs Let_def input_Key_defs flagControl_def flagShift_def
        flagAlt_def input_KeyPressed_def shl1_def intminmax_def key_index)
qed

text \<open>
  No mouse button is ever reported as pressed: the mask of a button is 0 for every button there
  is, so that pressing a button leaves the set of pressed buttons as it was, empty or not.
\<close>

theorem mouse_buttons_never_recorded:
  assumes "0 \<le> b" and "b < input_MouseButton_Count"
  shows "in_MouseMask (input_source_PressMouse sp b s) = in_MouseMask s \<and>
     \<not> input_MousePressed b (input_source_PressMouse sp b s)"
proof -
  have "b \<in> {0, 1, 2, 3, 4}" using assms by (auto simp: input_MouseButton_Count_def)
  then have "mouse_bit b = 0" by (auto simp: mouse_bit_def shl1_def)
  then show ?thesis by (simp add: input_source_PressMouse_def Let_def input_MousePressed_def fun_upd_idem)
qed

theorem mouse_buttons_never_recorded_witness:
  "\<not> input_MousePressed input_MouseButton_Left (input_source_PressMouse 0x2000 input_MouseButton_Left demo_input)"
  using mouse_buttons_never_recorded [of input_MouseButton_Left]
  by (simp add: input_MouseButton_defs)

end
