(* ===== verification/Interrupt.thy ===== *)
theory Interrupt
  imports Kernel_Memory
begin

text \<open>
  The descriptor tables of the processor: \<^verbatim>\<open>src/interrupt/init.c\<close>, the constants of
  \<^verbatim>\<open>src/interrupt/interrupt.h\<close> and the routine that writes a gate, \<^verbatim>\<open>src/interrupt/map_handler.S\<close>.
  The state is the memory the tables lie in and the two table registers. The addresses of the
  handlers are arguments. Messages and the reload of the segment registers are not modelled.
\<close>

section \<open>The code\<close>

definition GDT_EXEC :: u64 where "GDT_EXEC = 0x00AF9A000000FFFF"
definition GDT_DATA :: u64 where "GDT_DATA = 0x00EF92000000FFFF"
definition GDT_EXEC_RING3 :: u64 where "GDT_EXEC_RING3 = 0x00AFFA000000FFFF"
definition GDT_DATA_RING3 :: u64 where "GDT_DATA_RING3 = 0x00EFF2000000FFFF"
definition GDT_DATA_SELECTOR :: u64 where "GDT_DATA_SELECTOR = 0x08"
definition GDT_EXEC_SELECTOR :: u64 where "GDT_EXEC_SELECTOR = 0x10"
definition GDT_DATA_RING3_SELECTOR :: u64 where "GDT_DATA_RING3_SELECTOR = 0x1B"
definition GDT_EXEC_RING3_SELECTOR :: u64 where "GDT_EXEC_RING3_SELECTOR = 0x23"

lemmas gdt_defs = GDT_EXEC_def GDT_DATA_def GDT_EXEC_RING3_def GDT_DATA_RING3_def GDT_DATA_SELECTOR_def
  GDT_EXEC_SELECTOR_def GDT_DATA_RING3_SELECTOR_def GDT_EXEC_RING3_SELECTOR_def

definition interrupt_Descriptions :: "string list" where
  "interrupt_Descriptions = [
     ''Divide Error Execption'', ''Debug Exception'', ''NMI Interrupt'',
     ''Breakpoint Exception'', ''Overflow Exception'', ''BOUND Range Exceeded Exception'',
     ''Invalid Opcode Exception'', ''Device Not Available Exception'',
     ''Double Fault Exception'', ''Coprocessor Segment Overrun'', ''Invalid TSS Exception'',
     ''Segment Not Present'', ''Stack Fault Exception'', ''General Protection Exception'',
     ''Page-Fault Exception'', ''Interrupt 15'', ''x87 FPU Floating-Point Error'',
     ''Alignment Check Exception'', ''Machine-Check Exception'',
     ''SIMD Floating-Point Exception'', ''Interrupt 20'', ''Control Protection Exception'',
     ''Interrupt 22'', ''Interrupt 23'', ''Interrupt 24'', ''Interrupt 25'', ''Interrupt 26'',
     ''Interrupt 27'', ''Interrupt 28'', ''Interrupt 29'', ''Interrupt 30'', ''Interrupt 31'']"

record interrupt_state =
  im_mem :: mem
  im_GDTR :: "u16 \<times> addr"
  im_IDTR :: "u16 \<times> addr"
  im_Enabled :: bool

text \<open>The routine in assembly: five stores, with the handler's address shifted down in between.\<close>

definition interrupt_MapHandler :: "addr \<Rightarrow> u64 \<Rightarrow> mem \<Rightarrow> mem" where
  "interrupt_MapHandler handler interrupt m =
     (let rax = 0xFFFFFFFEC0000000; rsi = push_bit 4 interrupt; rsi = rsi + rax;
          m = store_bytes m rsi (le_bytes 2 handler);
          m = store_bytes m (rsi + 2) (le_bytes 2 0x10);
          m = store_bytes m (rsi + 4) (le_bytes 2 0x8e00);
          handler = drop_bit 16 handler;
          m = store_bytes m (rsi + 6) (le_bytes 2 handler);
          handler = drop_bit 16 handler
      in store_bytes m (rsi + 8) (le_bytes 8 handler))"

definition set_gdt :: "u64 \<Rightarrow> u64 \<Rightarrow> mem \<Rightarrow> mem" where
  "set_gdt i v m = store_bytes m (KERNEL_GDT_MAPPING + 8 * i) (le_bytes 8 v)"

definition interrupt_vectors :: "nat list" where
  "interrupt_vectors = [0..<32] @ [128]"

definition interrupt_Init :: "(nat \<Rightarrow> addr) \<Rightarrow> interrupt_state \<Rightarrow> interrupt_state" where
  "interrupt_Init handlers s =
     (let m = memset (im_mem s) KERNEL_GDT_MAPPING 0 KERNEL_GDT_SIZE;
          m = set_gdt 0 0 m;
          m = set_gdt (drop_bit 3 GDT_DATA_SELECTOR) GDT_DATA m;
          m = set_gdt (drop_bit 3 GDT_EXEC_SELECTOR) GDT_EXEC m;
          m = set_gdt (drop_bit 3 GDT_DATA_RING3_SELECTOR) GDT_DATA_RING3 m;
          m = set_gdt (drop_bit 3 GDT_EXEC_RING3_SELECTOR) GDT_EXEC_RING3 m;
          s = s\<lparr>im_GDTR := (ucast (KERNEL_GDT_SIZE - 1), KERNEL_GDT_MAPPING)\<rparr>;
          m = memset m KERNEL_IDT_MAPPING 0 KERNEL_IDT_SIZE;
          m = fold (\<lambda>v. interrupt_MapHandler (handlers v) (of_nat v)) interrupt_vectors m
      in s\<lparr>im_mem := m, im_IDTR := (ucast (KERNEL_IDT_SIZE - 1), KERNEL_IDT_MAPPING), im_Enabled := True\<rparr>)"

section \<open>The gates as the processor reads them\<close>

text \<open>
  Entry \<open>v\<close> of the interrupt table: the address of the handler, put together from its three parts,
  the segment selector, and the word with the type of the gate and its present bit.
\<close>

definition idt_base :: "nat \<Rightarrow> addr" where
  "idt_base v = KERNEL_IDT_MAPPING + 16 * of_nat v"

definition idt_gate :: "mem \<Rightarrow> nat \<Rightarrow> addr \<times> u64 \<times> u64" where
  "idt_gate m v =
     (le_load m (idt_base v) 2 OR push_bit 16 (le_load m (idt_base v + 6) 2) OR push_bit 32 (le_load m (idt_base v + 8) 4),
      le_load m (idt_base v + 2) 2, le_load m (idt_base v + 4) 2)"

definition gdt_entry :: "mem \<Rightarrow> u64 \<Rightarrow> u64" where
  "gdt_entry m selector = le_load m (KERNEL_GDT_MAPPING + 8 * drop_bit 3 selector) 8"

subsection \<open>Reading back what was stored\<close>

text \<open>Stores into the region of the tables, by their offset from its start.\<close>

definition put :: "nat \<Rightarrow> u8 list \<Rightarrow> mem \<Rightarrow> mem" where
  "put off bs m = store_bytes m (KERNEL_IDT_MAPPING + of_nat off) bs"

definition get :: "mem \<Rightarrow> nat \<Rightarrow> nat \<Rightarrow> u8 list" where
  "get m off n = bytes_at m (KERNEL_IDT_MAPPING + of_nat off) n"

lemma get_put_same [simp]:
  "length bs < 2 ^ 64 \<Longrightarrow> n \<le> length bs \<Longrightarrow> get (put off bs m) off n = take n bs"
  by (simp add: get_def put_def bytes_at_store_prefix)

lemma get_put_apart [simp]:
  "a + n \<le> b \<or> b + length bs \<le> a \<Longrightarrow> a + n < 2 ^ 64 \<Longrightarrow> b + length bs < 2 ^ 64 \<Longrightarrow>
     get (put b bs m) a n = get m a n"
  by (simp add: get_def put_def store_bytes_apart)

lemma interrupt_MapHandler_put:
  "interrupt_MapHandler h (of_nat v) m =
     put (16 * v + 8) (le_bytes 8 (drop_bit 32 h)) (put (16 * v + 6) (le_bytes 2 (drop_bit 16 h))
       (put (16 * v + 4) (le_bytes 2 0x8e00) (put (16 * v + 2) (le_bytes 2 0x10) (put (16 * v) (le_bytes 2 h) m))))"
  by (simp add: interrupt_MapHandler_def put_def Let_def KERNEL_IDT_MAPPING_def KERNEL_MISC_MAPPING_def
      push_bit_eq_mult algebra_simps)

lemma idt_gate_get:
  "idt_gate m v =
     (le_value (get m (16 * v) 2) OR push_bit 16 (le_value (get m (16 * v + 6) 2)) OR
        push_bit 32 (le_value (get m (16 * v + 8) 4)),
      le_value (get m (16 * v + 2) 2), le_value (get m (16 * v + 4) 2))"
  by (simp add: idt_gate_def idt_base_def get_def le_load_value algebra_simps)

lemma address_parts:
  "take_bit 16 h OR push_bit 16 (take_bit 16 (drop_bit 16 h)) OR push_bit 32 (take_bit 32 (drop_bit 32 h)) = (h :: u64)"
proof (rule bit_word_eqI)
  fix n
  show "bit (take_bit 16 h OR push_bit 16 (take_bit 16 (drop_bit 16 h)) OR
      push_bit 32 (take_bit 32 (drop_bit 32 h))) n = bit h n" if "n < LENGTH(64)"
    using that by (cases "n < 16"; cases "n < 32") (auto simp: bit_simps)
qed

lemma idt_gate_MapHandler [simp]:
  "v < 256 \<Longrightarrow> idt_gate (interrupt_MapHandler h (of_nat v) m) v = (h, 0x10, 0x8e00)"
  by (simp add: idt_gate_get interrupt_MapHandler_put address_parts)

lemma get_MapHandler_apart [simp]:
  "v < 256 \<Longrightarrow> a + n < 2 ^ 64 \<Longrightarrow> a + n \<le> 16 * v \<or> 16 * v + 16 \<le> a \<Longrightarrow>
     get (interrupt_MapHandler h (of_nat v) m) a n = get m a n"
  by (auto simp: interrupt_MapHandler_put)

lemma idt_gate_MapHandler_other [simp]:
  "v < 256 \<Longrightarrow> w < 256 \<Longrightarrow> v \<noteq> w \<Longrightarrow> idt_gate (interrupt_MapHandler h (of_nat v) m) w = idt_gate m w"
  by (cases "v < w") (simp_all add: idt_gate_get)

text \<open>A run of mappings of distinct vectors, and the entries outside it.\<close>

lemma idt_gate_MapHandlers:
  "distinct vs \<Longrightarrow> set vs \<subseteq> {..<256} \<Longrightarrow> w < 256 \<Longrightarrow>
     idt_gate (fold (\<lambda>v. interrupt_MapHandler (hs v) (of_nat v)) vs m) w =
       (if w \<in> set vs then (hs w, 0x10, 0x8e00) else idt_gate m w)"
proof (induction vs arbitrary: m)
  case (Cons v vs)
  show ?case
  proof (cases "w \<in> set vs")
    case True
    with Cons show ?thesis by auto
  next
    case False
    with Cons show ?thesis by (cases "w = v") auto
  qed
qed simp

lemma get_MapHandlers_above:
  "set vs \<subseteq> {..<256} \<Longrightarrow> 4096 \<le> a \<Longrightarrow> a + n < 2 ^ 64 \<Longrightarrow>
     get (fold (\<lambda>v. interrupt_MapHandler (hs v) (of_nat v)) vs m) a n = get m a n"
  by (induction vs arbitrary: m) auto

lemma le_value_zeros [simp]: "le_value (replicate n 0) = 0"
  by (induction n) (simp_all add: le_value_def)

lemma bytes_at_memset_inside:
  assumes "a + n \<le> k" and "k < 2 ^ 64"
  shows "bytes_at (memset m d v (of_nat k)) (d + of_nat a) n = replicate n v"
proof (rule nth_equalityI)
  fix i assume "i < length (bytes_at (memset m d v (of_nat k)) (d + of_nat a) n)"
  then have i: "i < n" by simp
  then have "(of_nat (a + i) :: u64) < of_nat k" using assms by (simp add: of_nat_less_word unat_of_nat_u64 del: of_nat_add)
  with i show "bytes_at (memset m d v (of_nat k)) (d + of_nat a) n ! i = replicate n v ! i"
    by (simp add: memset_def add.assoc)
qed simp

lemma get_idt_cleared [simp]: "a + n \<le> 4096 \<Longrightarrow> get (memset m KERNEL_IDT_MAPPING 0 KERNEL_IDT_SIZE) a n = replicate n 0"
  using bytes_at_memset_inside [of a n 4096 m KERNEL_IDT_MAPPING 0] by (simp add: get_def KERNEL_IDT_SIZE_def)

lemma get_idt_cleared_above [simp]:
  "4096 \<le> a \<Longrightarrow> a + n < 2 ^ 64 \<Longrightarrow> get (memset m KERNEL_IDT_MAPPING v KERNEL_IDT_SIZE) a n = get m a n"
  using memset_apart [of a n 0 4096 m KERNEL_IDT_MAPPING v] by (simp add: get_def KERNEL_IDT_SIZE_def)

lemma get_gdt_cleared [simp]:
  "4096 \<le> a \<Longrightarrow> a + n \<le> 4608 \<Longrightarrow> get (memset m KERNEL_GDT_MAPPING 0 KERNEL_GDT_SIZE) a n = replicate n 0"
  using bytes_at_memset_inside [of "a - 4096" n 512 m KERNEL_GDT_MAPPING 0]
  by (simp add: get_def KERNEL_GDT_SIZE_def KERNEL_GDT_MAPPING_def KERNEL_IDT_SIZE_def of_nat_diff)

lemma set_gdt_put: "set_gdt (of_nat i) v m = put (4096 + 8 * i) (le_bytes 8 v) m"
  by (simp add: set_gdt_def put_def KERNEL_GDT_MAPPING_def KERNEL_IDT_SIZE_def algebra_simps)

lemma gdt_entry_get: "gdt_entry m (8 * of_nat i) = le_value (get m (4096 + 8 * i) 8)" if "i < 2 ^ 60"
proof -
  have "8 * i < 2 ^ 64" using that by simp
  then have "unat (8 * of_nat i :: u64) = 8 * i" using unat_of_nat_u64 [of "8 * i"] by simp
  then have "drop_bit 3 (8 * of_nat i :: u64) = of_nat i"
    using that by (simp add: word_unat_eq_iff drop_bit_eq_div unat_div unat_of_nat_u64)
  then show ?thesis
    by (simp add: gdt_entry_def get_def le_load_value KERNEL_GDT_MAPPING_def KERNEL_IDT_SIZE_def algebra_simps)
qed

section \<open>Properties\<close>

text \<open>
  After \<^verbatim>\<open>interrupt_Init\<close> each of the vectors 0 to 31 and 128 has a present interrupt gate to
  its handler in the kernel code segment, every other vector is absent, the global table holds the
  four segments at their selectors and zero elsewhere, and the two registers describe the tables.
\<close>

theorem interrupt_Init_tables:
  defines "m hs s \<equiv> im_mem (interrupt_Init hs s)"
  shows "(\<forall>v<256. idt_gate (m hs s) v = (if v < 32 \<or> v = 128 then (hs v, GDT_EXEC_SELECTOR, 0x8e00) else (0, 0, 0)))
    \<and> gdt_entry (m hs s) GDT_DATA_SELECTOR = GDT_DATA \<and> gdt_entry (m hs s) GDT_EXEC_SELECTOR = GDT_EXEC
    \<and> gdt_entry (m hs s) GDT_DATA_RING3_SELECTOR = GDT_DATA_RING3
    \<and> gdt_entry (m hs s) GDT_EXEC_RING3_SELECTOR = GDT_EXEC_RING3
    \<and> (\<forall>i<64. i \<notin> {1, 2, 3, 4} \<longrightarrow> gdt_entry (m hs s) (8 * of_nat i) = 0)
    \<and> im_GDTR (interrupt_Init hs s) = (511, KERNEL_GDT_MAPPING)
    \<and> im_IDTR (interrupt_Init hs s) = (4095, KERNEL_IDT_MAPPING) \<and> im_Enabled (interrupt_Init hs s)"
proof -
  define m1 where "m1 = put 4128 (le_bytes 8 GDT_EXEC_RING3) (put 4120 (le_bytes 8 GDT_DATA_RING3)
    (put 4112 (le_bytes 8 GDT_EXEC) (put 4104 (le_bytes 8 GDT_DATA) (put 4096 (le_bytes 8 0)
      (memset (im_mem s) KERNEL_GDT_MAPPING 0 KERNEL_GDT_SIZE)))))"
  have m: "m hs s = fold (\<lambda>v. interrupt_MapHandler (hs v) (of_nat v)) interrupt_vectors
      (memset m1 KERNEL_IDT_MAPPING 0 KERNEL_IDT_SIZE)"
    using set_gdt_put [of 0] set_gdt_put [of 1] set_gdt_put [of 2] set_gdt_put [of 3] set_gdt_put [of 4]
    by (simp add: m_def m1_def interrupt_Init_def Let_def gdt_defs)
  have vs: "distinct interrupt_vectors" "set interrupt_vectors \<subseteq> {..<256}"
    "\<And>v. v \<in> set interrupt_vectors \<longleftrightarrow> v < 32 \<or> v = 128"
    by (auto simp: interrupt_vectors_def)
  have absent: "idt_gate (memset m1 KERNEL_IDT_MAPPING 0 KERNEL_IDT_SIZE) v = (0, 0, 0)" if "v < 256" for v
    using that by (simp add: idt_gate_get)
  have gates: "\<forall>v<256. idt_gate (m hs s) v = (if v < 32 \<or> v = 128 then (hs v, 0x10, 0x8e00) else (0, 0, 0))"
    using absent by (simp add: m idt_gate_MapHandlers [OF vs(1,2)] vs(3))
  have entry: "gdt_entry (m hs s) (8 * of_nat i) = le_value (get m1 (4096 + 8 * i) 8)" if "i < 64" for i
    using that by (simp add: gdt_entry_get m get_MapHandlers_above [OF vs(2)])
  have sel: "gdt_entry (m hs s) GDT_DATA_RING3_SELECTOR = gdt_entry (m hs s) (8 * of_nat 3)"
    "gdt_entry (m hs s) GDT_EXEC_RING3_SELECTOR = gdt_entry (m hs s) (8 * of_nat 4)"
    "gdt_entry (m hs s) GDT_DATA_SELECTOR = gdt_entry (m hs s) (8 * of_nat 1)"
    "gdt_entry (m hs s) GDT_EXEC_SELECTOR = gdt_entry (m hs s) (8 * of_nat 2)"
    by (simp_all add: gdt_entry_def gdt_defs)
  have "gdt_entry (m hs s) (8 * of_nat i) = 0" if "i < 64" "i \<notin> {1, 2, 3, 4}" for i
  proof -
    have "i = 0 \<or> 5 \<le> i" using that(2) by auto
    with that(1) show ?thesis unfolding entry [OF that(1)] m1_def by auto
  qed
  then show ?thesis
    using gates entry [of 1] entry [of 2] entry [of 3] entry [of 4]
    unfolding sel by (simp add: gdt_defs m1_def interrupt_Init_def Let_def GDT_EXEC_SELECTOR_def
        KERNEL_GDT_SIZE_def KERNEL_IDT_SIZE_def)
qed

theorem interrupt_Init_tables_witness:
  "let m = im_mem (interrupt_Init (\<lambda>v. 0xFFFFFFFFC0001000 + of_nat v) \<lparr>im_mem = \<lambda>_. 7, im_GDTR = (0, 0),
     im_IDTR = (0, 0), im_Enabled = False\<rparr>)
   in idt_gate m 14 = (0xFFFFFFFFC000100E, 0x10, 0x8e00) \<and> idt_gate m 33 = (0, 0, 0)
     \<and> gdt_entry m 0x10 = GDT_EXEC \<and> gdt_entry m 40 = 0"
proof -
  let ?hs = "\<lambda>v. 0xFFFFFFFFC0001000 + of_nat v"
  let ?s = "\<lparr>im_mem = \<lambda>_. 7, im_GDTR = (0, 0), im_IDTR = (0, 0), im_Enabled = False\<rparr>"
  note t = interrupt_Init_tables [of ?hs ?s]
  have "idt_gate (im_mem (interrupt_Init ?hs ?s)) 14 = (?hs 14, GDT_EXEC_SELECTOR, 0x8e00)"
    "idt_gate (im_mem (interrupt_Init ?hs ?s)) 33 = (0, 0, 0)"
    "gdt_entry (im_mem (interrupt_Init ?hs ?s)) (8 * of_nat 5) = 0"
    "gdt_entry (im_mem (interrupt_Init ?hs ?s)) GDT_EXEC_SELECTOR = GDT_EXEC"
    using t [THEN conjunct1, rule_format, of 14] t [THEN conjunct1, rule_format, of 33]
      t [THEN conjunct2, THEN conjunct2, THEN conjunct2, THEN conjunct2, THEN conjunct2, THEN conjunct1, rule_format, of 5]
      t [THEN conjunct2, THEN conjunct2, THEN conjunct1] by simp_all
  then show ?thesis by (simp add: GDT_EXEC_SELECTOR_def Let_def)
qed

end
