(* ===== verification/Ports.thy ===== *)
theory Ports
  imports Prelude
begin

text \<open>
  The I/O ports of the processor, as the drivers use them through \<^verbatim>\<open>inb\<close> and \<^verbatim>\<open>outb\<close> of
  \<^verbatim>\<open>src/driver/irq/pic/internal.h\<close>. The devices are the environment: for each port a sequence of
  bytes, the value of its n-th read. The state counts the reads and records the writes in order. A
  loop that polls a port is a partial function: \<open>None\<close> means that it never ends.
\<close>

record io_state =
  io_in :: "u16 \<Rightarrow> nat \<Rightarrow> u8"
  io_pos :: "u16 \<Rightarrow> nat"
  io_out :: "(u16 \<times> u8) list"

definition inb :: "u16 \<Rightarrow> 'a io_state_scheme \<Rightarrow> u8 \<times> 'a io_state_scheme" where
  "inb port s = (io_in s port (io_pos s port), s\<lparr>io_pos := (io_pos s)(port := io_pos s port + 1)\<rparr>)"

definition outb :: "u16 \<Rightarrow> u8 \<Rightarrow> 'a io_state_scheme \<Rightarrow> 'a io_state_scheme" where
  "outb port val s = s\<lparr>io_out := io_out s @ [(port, val)]\<rparr>"

definition io_wait :: "'a io_state_scheme \<Rightarrow> 'a io_state_scheme" where
  "io_wait s = outb 0x80 0 s"

text \<open>The second instruction writes the low byte of the accumulator, which still holds the value.\<close>

definition outb_wait :: "u16 \<Rightarrow> u8 \<Rightarrow> 'a io_state_scheme \<Rightarrow> 'a io_state_scheme" where
  "outb_wait port val s = outb 0x80 val (outb port val s)"

text \<open>\<open>poll port bits want\<close>: read the port until its bits in \<open>bits\<close> are all clear, or not all clear.\<close>

partial_function (option) poll :: "u16 \<Rightarrow> u8 \<Rightarrow> bool \<Rightarrow> 'a io_state_scheme \<Rightarrow> 'a io_state_scheme option" where
  "poll port bits want s =
     (let (v, s) = inb port s in if (v AND bits \<noteq> 0) = want then Some s else poll port bits want s)"

subsection \<open>What the port operations touch\<close>

lemma inb_simps [simp]:
  "fst (inb port s) = io_in s port (io_pos s port)"
  "io_in (snd (inb port s)) = io_in s" "io_out (snd (inb port s)) = io_out s"
  "io_pos (snd (inb port s)) = (io_pos s)(port := io_pos s port + 1)"
  "io_state.more (snd (inb port s)) = io_state.more s"
  by (simp_all add: inb_def)

lemma outb_simps [simp]:
  "io_in (outb port v s) = io_in s" "io_pos (outb port v s) = io_pos s"
  "io_out (outb port v s) = io_out s @ [(port, v)]" "io_state.more (outb port v s) = io_state.more s"
  by (simp_all add: outb_def)

lemma outb_wait_simps [simp]:
  "io_in (outb_wait port v s) = io_in s" "io_pos (outb_wait port v s) = io_pos s"
  "io_out (outb_wait port v s) = io_out s @ [(port, v), (0x80, v)]"
  "io_state.more (outb_wait port v s) = io_state.more s"
  by (simp_all add: outb_wait_def)

text \<open>
  A poll ends exactly at the first read that shows what it waits for; it reads nothing else and
  writes nothing.
\<close>

definition poll_end :: "u16 \<Rightarrow> u8 \<Rightarrow> bool \<Rightarrow> 'a io_state_scheme \<Rightarrow> nat \<Rightarrow> bool" where
  "poll_end port bits want s n \<longleftrightarrow> (io_in s port (io_pos s port + n) AND bits \<noteq> 0) = want"

lemma poll_first:
  assumes "poll_end port bits want s n" and "\<And>i. i < n \<Longrightarrow> \<not> poll_end port bits want s i"
  shows "poll port bits want s = Some (s\<lparr>io_pos := (io_pos s)(port := io_pos s port + n + 1)\<rparr>)"
  using assms
proof (induction n arbitrary: s)
  case 0
  then show ?case by (subst poll.simps) (simp add: inb_def poll_end_def)
next
  case (Suc n)
  let ?s = "snd (inb port s)"
  have shift: "poll_end port bits want ?s i = poll_end port bits want s (Suc i)" for i
    by (simp add: poll_end_def)
  have "\<not> poll_end port bits want s 0" using Suc.prems(2) [of 0] by simp
  then have "poll port bits want s = poll port bits want ?s"
    by (subst poll.simps) (simp add: inb_def poll_end_def)
  moreover have "\<not> poll_end port bits want ?s i" if "i < n" for i
    using that Suc.prems(2) [of "Suc i"] shift by simp
  moreover have "poll_end port bits want ?s n" using Suc.prems(1) shift by simp
  ultimately show ?case using Suc.IH [of ?s] by (simp add: inb_def fun_upd_def cong: if_cong)
qed

lemma poll_ends:
  assumes "poll_end port bits want s n"
  obtains k where "poll port bits want s = Some (s\<lparr>io_pos := (io_pos s)(port := io_pos s port + k + 1)\<rparr>)"
proof -
  define k where "k = (LEAST n. poll_end port bits want s n)"
  have "poll_end port bits want s k" unfolding k_def using assms by (rule LeastI)
  moreover have "\<not> poll_end port bits want s i" if "i < k" for i
    using that not_less_Least unfolding k_def by blast
  ultimately show ?thesis using poll_first that by blast
qed

text \<open>If the port never shows it, the loop does not end.\<close>

lemma poll_some_end:
  assumes ret: "poll port bits want s = Some r"
  shows "\<exists>n. poll_end port bits want s n"
proof (rule poll.raw_induct [where P = "\<lambda>port bits want s r. \<exists>n. poll_end port bits want s n", OF _ ret])
  fix f and port bits want and s r :: "'a io_state_scheme"
  assume IH: "\<And>port bits want s r. f port bits want s = Some r \<Longrightarrow> \<exists>n. poll_end port bits want s n"
    and eq: "(let (v, s) = inb port s in if (v AND bits \<noteq> 0) = want then Some s else f port bits want s) = Some r"
  show "\<exists>n. poll_end port bits want s n"
  proof (cases "poll_end port bits want s 0")
    case False
    then have "f port bits want (snd (inb port s)) = Some r"
      using eq by (simp add: inb_def poll_end_def Let_def)
    from IH [OF this] obtain n where "poll_end port bits want (snd (inb port s)) n" by blast
    then have "poll_end port bits want s (Suc n)" by (simp add: poll_end_def)
    then show ?thesis by blast
  qed blast
qed

lemma poll_hangs: "(\<And>n. \<not> poll_end port bits want s n) \<Longrightarrow> poll port bits want s = None"
  using poll_some_end by (metis not_Some_eq)

end
