(* ===== verification/Pic.thy ===== *)
theory Pic
  imports Ports Interrupt
begin

text \<open>
  The interrupt controller and the real-time clock: \<^verbatim>\<open>src/driver/irq/pic/pic_init.c\<close>,
  \<^verbatim>\<open>int_handler.c\<close> and \<^verbatim>\<open>int_handler.asm.S\<close>, with \<^verbatim>\<open>rtc/rtc.c\<close>. The state adds the tables of handlers
  and the state of the interrupt tables to the ports. A handler is an address; delivering an
  interrupt yields the address called or jumped to, with its argument. The result \<open>None\<close> of an
  initialisation is a failed assertion.
\<close>

section \<open>The code\<close>

definition PIC1_COMMAND :: u16 where "PIC1_COMMAND = 0x20"
definition PIC1_DATA :: u16 where "PIC1_DATA = 0x21"
definition PIC2_COMMAND :: u16 where "PIC2_COMMAND = 0xA0"
definition PIC2_DATA :: u16 where "PIC2_DATA = 0xA1"
definition PIC_CMD_EOI :: u8 where "PIC_CMD_EOI = 0x20"
definition ICW1_ICW4 :: u8 where "ICW1_ICW4 = 0x01"
definition ICW1_INIT :: u8 where "ICW1_INIT = 0x10"
definition ICW4_8086 :: u8 where "ICW4_8086 = 0x01"
definition IRQ_PIC_INT_OFFSET_MASTER :: u8 where "IRQ_PIC_INT_OFFSET_MASTER = 0x20"
definition IRQ_PIC_INT_OFFSET_SLAVE :: u8 where "IRQ_PIC_INT_OFFSET_SLAVE = 0x28"

lemmas pic_ports = PIC1_COMMAND_def PIC1_DATA_def PIC2_COMMAND_def PIC2_DATA_def

record pic_state = io_state +
  pic_IRQHandler :: "nat \<Rightarrow> addr"
  pic_IRQHandler_Data :: "nat \<Rightarrow> u64"
  pic_IRQHandlerRaw :: "nat \<Rightarrow> addr"
  pic_Enabled :: bool
  pic_interrupt :: interrupt_state
  pic_rtc_Enabled :: bool
  pic_rtc_IRQHandler :: addr

text \<open>The addresses of \<^verbatim>\<open>irq_pic_IntHandler20h\<close> and so on are an argument.\<close>

definition irq_pic_Init :: "(nat \<Rightarrow> addr) \<Rightarrow> 'a pic_state_scheme \<Rightarrow> 'a pic_state_scheme option" where
  "irq_pic_Init stubs s =
     (if \<not> im_Enabled (pic_interrupt s) then None
      else
        (let s = outb_wait PIC1_DATA 0xff s;
             s = outb_wait PIC2_DATA 0xff s;
             s = outb_wait PIC1_COMMAND (ICW1_INIT OR ICW1_ICW4) s;
             s = outb_wait PIC1_DATA IRQ_PIC_INT_OFFSET_MASTER s;
             s = outb_wait PIC1_DATA 4 s;
             s = outb_wait PIC1_DATA ICW4_8086 s;
             s = outb_wait PIC2_COMMAND (ICW1_INIT OR ICW1_ICW4) s;
             s = outb_wait PIC2_DATA IRQ_PIC_INT_OFFSET_SLAVE s;
             s = outb_wait PIC2_DATA 2 s;
             s = outb_wait PIC2_DATA ICW4_8086 s;
             s = outb_wait PIC1_DATA 0xfb s;
             s = outb_wait PIC2_DATA 0xff s;
             s = s\<lparr>pic_IRQHandler := (\<lambda>_. NULL)\<rparr>;
             s = s\<lparr>pic_IRQHandlerRaw := (\<lambda>_. NULL)\<rparr>;
             i = pic_interrupt s;
             m = fold (\<lambda>v. interrupt_MapHandler (stubs v) (of_nat v)) [0x20..<0x30] (im_mem i)
         in Some (s\<lparr>pic_interrupt := i\<lparr>im_mem := m\<rparr>, pic_Enabled := True\<rparr>)))"

definition irq_pic_InitRemap :: "int \<Rightarrow> int \<Rightarrow> 'a io_state_scheme \<Rightarrow> 'a io_state_scheme" where
  "irq_pic_InitRemap offset_master offset_slave s =
     (let (a1, s) = inb PIC1_DATA s;
          (a2, s) = inb PIC2_DATA s;
          s = outb_wait PIC1_COMMAND (ICW1_INIT OR ICW1_ICW4) s;
          s = outb_wait PIC2_COMMAND (ICW1_INIT OR ICW1_ICW4) s;
          s = outb_wait PIC1_DATA (of_int offset_master) s;
          s = outb_wait PIC2_DATA (of_int offset_slave) s;
          s = outb_wait PIC1_DATA 4 s;
          s = outb_wait PIC2_DATA 2 s;
          s = outb_wait PIC1_DATA ICW4_8086 s;
          s = outb_wait PIC2_DATA ICW4_8086 s;
          s = outb_wait PIC1_DATA a1 s
      in outb_wait PIC2_DATA a1 s)"

definition irq_pic_Mask :: "u8 \<Rightarrow> bool \<Rightarrow> 'a io_state_scheme \<Rightarrow> 'a io_state_scheme" where
  "irq_pic_Mask irq_line masked s =
     (let (port, irq_line) = (if irq_line < 8 then (PIC1_DATA, irq_line) else (PIC2_DATA, irq_line - 8));
          (v, s) = inb port s
      in if masked then outb port (v OR push_bit (unat irq_line) 1) s
         else outb port (v AND NOT (push_bit (unat irq_line) 1)) s)"

definition irq_pic_GetRegister :: "u8 \<Rightarrow> 'a io_state_scheme \<Rightarrow> u16 \<times> 'a io_state_scheme" where
  "irq_pic_GetRegister ocw3 s =
     (let s = outb_wait PIC1_COMMAND ocw3 s;
          s = outb_wait PIC2_COMMAND ocw3 s;
          (hi, s) = inb PIC2_COMMAND s;
          (lo, s) = inb PIC1_COMMAND s
      in (push_bit 8 (ucast hi) OR ucast lo, s))"

definition irq_pic_GetIRR :: "'a io_state_scheme \<Rightarrow> u16 \<times> 'a io_state_scheme" where
  "irq_pic_GetIRR s = irq_pic_GetRegister 0x0a s"

definition irq_pic_GetISR :: "'a io_state_scheme \<Rightarrow> u16 \<times> 'a io_state_scheme" where
  "irq_pic_GetISR s = irq_pic_GetRegister 0x0b s"

text \<open>
  Delivery of an interrupt. \<open>irq_pic_IntHandler\<close> is the C part: end of interrupt, then the handler
  with its data, if there is one. \<open>pic_inth\<close> is the stub in assembly before it: a raw handler is
  jumped to with nothing in its argument register changed.
\<close>

datatype delivery = Unhandled | Call addr u64 | Jump addr

definition irq_pic_IntHandler :: "nat \<Rightarrow> 'a pic_state_scheme \<Rightarrow> delivery \<times> 'a pic_state_scheme" where
  "irq_pic_IntHandler irq s =
     (let s = (if irq \<ge> 8 then outb PIC2_COMMAND PIC_CMD_EOI s else s);
          s = outb PIC1_COMMAND PIC_CMD_EOI s
      in if pic_IRQHandler s irq = NULL then (Unhandled, s)
         else (Call (pic_IRQHandler s irq) (pic_IRQHandler_Data s irq), s))"

definition pic_inth :: "nat \<Rightarrow> 'a pic_state_scheme \<Rightarrow> delivery \<times> 'a pic_state_scheme" where
  "pic_inth irq s =
     (if pic_IRQHandlerRaw s irq \<noteq> NULL
      then (let s = (if irq \<ge> 8 then outb PIC2_COMMAND PIC_CMD_EOI s else s);
                s = outb PIC1_COMMAND PIC_CMD_EOI s
            in (Jump (pic_IRQHandlerRaw s irq), s))
      else irq_pic_IntHandler irq s)"

text \<open>The real-time clock. Its interrupt acknowledges register C and jumps to the handler set, if any.\<close>

definition pic_rtc_Init :: "addr \<Rightarrow> 'a pic_state_scheme \<Rightarrow> 'a pic_state_scheme option" where
  "pic_rtc_Init irq8 s =
     (if \<not> pic_Enabled s then None
      else if pic_rtc_Enabled s then Some s
      else
        (let s = outb 0x70 0x8b s;
             (prev, s) = inb 0x71 s;
             s = outb 0x70 0x8B s;
             s = outb 0x71 (prev OR 0x40) s;
             s = s\<lparr>pic_IRQHandlerRaw := (pic_IRQHandlerRaw s)(8 := irq8)\<rparr>;
             s = irq_pic_Mask 8 False s
         in Some (s\<lparr>pic_rtc_Enabled := True\<rparr>)))"

definition pic_rtc_SetHandler :: "addr \<Rightarrow> 'a pic_state_scheme \<Rightarrow> 'a pic_state_scheme" where
  "pic_rtc_SetHandler handler s = s\<lparr>pic_rtc_IRQHandler := handler\<rparr>"

definition pic_rtc_IRQ8 :: "'a pic_state_scheme \<Rightarrow> delivery \<times> 'a pic_state_scheme" where
  "pic_rtc_IRQ8 s =
     (let s = outb 0x70 0x0c s;
          (_, s) = inb 0x71 s
      in if pic_rtc_IRQHandler s = NULL then (Unhandled, s) else (Jump (pic_rtc_IRQHandler s), s))"

lemma outb_pic_fields [simp]:
  "pic_IRQHandler (outb p v s) = pic_IRQHandler s" "pic_IRQHandler_Data (outb p v s) = pic_IRQHandler_Data s"
  "pic_IRQHandlerRaw (outb p v s) = pic_IRQHandlerRaw s" "pic_Enabled (outb p v s) = pic_Enabled s"
  "pic_interrupt (outb p v s) = pic_interrupt s" "pic_rtc_Enabled (outb p v s) = pic_rtc_Enabled s"
  "pic_rtc_IRQHandler (outb p v s) = pic_rtc_IRQHandler s"
  by (simp_all add: outb_def)

section \<open>Masks\<close>

text \<open>Masking a line reads its controller once and writes the value back with one bit changed.\<close>

lemma irq_pic_Mask_bit:
  assumes "irq_line < 16"
  defines "port \<equiv> if irq_line < 8 then PIC1_DATA else PIC2_DATA"
  shows "\<exists>v. io_out (irq_pic_Mask irq_line masked s) = io_out s @ [(port, v)] \<and>
     (\<forall>n<8. bit v n = (if n = unat irq_line mod 8 then masked else bit (io_in s port (io_pos s port)) n))"
proof -
  have "unat (irq_line - 8) = unat irq_line mod 8" "unat (irq_line - 8) < 8" if "\<not> irq_line < 8"
    using that assms(1) by (auto simp: word_less_nat_alt unat_sub_if_size not_less le_mod_geq)
  moreover have "unat irq_line mod 8 = unat irq_line" if "irq_line < 8"
    using that by (simp add: word_less_nat_alt)
  ultimately show ?thesis
    by (auto simp: irq_pic_Mask_def port_def inb_def bit_simps word_less_nat_alt)
qed

lemma irq_pic_Mask_keeps [simp]:
  "io_in (irq_pic_Mask l b s) = io_in s" "io_state.more (irq_pic_Mask l b s) = io_state.more s"
  by (simp_all add: irq_pic_Mask_def inb_def split: prod.split)

text \<open>
  Moving the vectors saves the two masks and writes the first one back to both controllers: the mask
  of the slave is lost.
\<close>

lemma irq_pic_InitRemap_slave_mask:
  "\<exists>pre. io_out (irq_pic_InitRemap a b s) =
     pre @ [(PIC1_DATA, io_in s PIC1_DATA (io_pos s PIC1_DATA)), (0x80, io_in s PIC1_DATA (io_pos s PIC1_DATA)),
            (PIC2_DATA, io_in s PIC1_DATA (io_pos s PIC1_DATA)), (0x80, io_in s PIC1_DATA (io_pos s PIC1_DATA))]"
  by (simp add: irq_pic_InitRemap_def inb_def Let_def)

section \<open>Properties\<close>

text \<open>
  C34: once the controller is set up, the vectors 20h to 2Fh lead to the stubs of the 16 lines and
  the other gates are as before, every line but the cascade is masked, and no line has a handler.
  When a handler is set for a line, an interrupt on it is acknowledged, at the slave too for the
  lines from 8 on, and the handler is called with the line's data.
\<close>

theorem pic_init_delivery:
  assumes "irq_pic_Init stubs s = Some s'" and "irq < 16" and "h \<noteq> NULL"
  defines "gate \<equiv> idt_gate (im_mem (pic_interrupt s'))"
    and "r \<equiv> pic_inth irq (s'\<lparr>pic_IRQHandler := (pic_IRQHandler s')(irq := h)\<rparr>)"
  shows "gate (0x20 + irq) = (stubs (0x20 + irq), GDT_EXEC_SELECTOR, 0x8e00)
    \<and> (\<forall>v<256. v \<notin> {0x20..<0x30} \<longrightarrow> gate v = idt_gate (im_mem (pic_interrupt s)) v)
    \<and> (\<exists>pre. io_out s' = pre @ [(PIC1_DATA, 0xfb), (0x80, 0xfb), (PIC2_DATA, 0xff), (0x80, 0xff)])
    \<and> fst (pic_inth irq s') = Unhandled
    \<and> fst r = Call h (pic_IRQHandler_Data s irq)
    \<and> io_out (snd r) = io_out s' @ (if irq \<ge> 8 then [(PIC2_COMMAND, PIC_CMD_EOI)] else []) @ [(PIC1_COMMAND, PIC_CMD_EOI)]"
proof -
  define m where "m = im_mem (pic_interrupt s)"
  have en: "im_Enabled (pic_interrupt s)" using assms(1) by (auto simp: irq_pic_Init_def split: if_splits)
  note s' = assms(1) [unfolded irq_pic_Init_def if_not_P [OF en [THEN not_not [THEN iffD2]]] Let_def, THEN option.inject [THEN iffD1]]
  have mem: "im_mem (pic_interrupt s') = fold (\<lambda>v. interrupt_MapHandler (stubs v) (of_nat v)) [0x20..<0x30] m"
    using s' by (auto simp: m_def outb_wait_def outb_def)
  have "set [0x20..<0x30] \<subseteq> {..<256::nat}" by auto
  from idt_gate_MapHandlers [OF distinct_upt this]
  have gates: "v < 256 \<Longrightarrow> gate v = (if v \<in> {0x20..<0x30} then (stubs v, 0x10, 0x8e00) else idt_gate m v)" for v
    unfolding gate_def mem set_upt by simp
  have fields: "pic_IRQHandler s' = (\<lambda>_. NULL)" "pic_IRQHandlerRaw s' = (\<lambda>_. NULL)"
    "pic_IRQHandler_Data s' = pic_IRQHandler_Data s"
    "\<exists>pre. io_out s' = pre @ [(PIC1_DATA, 0xfb), (0x80, 0xfb), (PIC2_DATA, 0xff), (0x80, 0xff)]"
    using s' by (auto simp: outb_wait_def outb_def)
  show ?thesis
    using gates assms(2,3) fields
    by (simp add: r_def pic_inth_def irq_pic_IntHandler_def Let_def GDT_EXEC_SELECTOR_def m_def)
qed

definition demo_pic :: pic_state where
  "demo_pic = \<lparr>io_in = (\<lambda>_ _. 0), io_pos = (\<lambda>_. 0), io_out = [], pic_IRQHandler = (\<lambda>_. 5),
     pic_IRQHandler_Data = (\<lambda>_. 9), pic_IRQHandlerRaw = (\<lambda>_. 6), pic_Enabled = False,
     pic_interrupt = \<lparr>im_mem = (\<lambda>_. 0), im_GDTR = (0, 0), im_IDTR = (0, 0), im_Enabled = True\<rparr>,
     pic_rtc_Enabled = False, pic_rtc_IRQHandler = NULL\<rparr>"

theorem pic_init_delivery_witness:
  "let s' = the (irq_pic_Init (\<lambda>v. 0x1000 + of_nat v) demo_pic) in
     fst (pic_inth 12 (s'\<lparr>pic_IRQHandler := (pic_IRQHandler s')(12 := 0x4000)\<rparr>)) = Call 0x4000 9"
proof -
  obtain s' where s': "irq_pic_Init (\<lambda>v. 0x1000 + of_nat v) demo_pic = Some s'"
    by (simp add: irq_pic_Init_def Let_def demo_pic_def)
  have "pic_IRQHandler_Data demo_pic 12 = 9" by (simp add: demo_pic_def)
  with pic_init_delivery [OF s', of 12 "0x4000"] show ?thesis
    by (simp add: s' Let_def)
qed

end
