(* ===== verification/PS2.thy ===== *)
theory PS2
  imports Pic Input
begin

text \<open>
  The keyboard and mouse driver, \<^verbatim>\<open>src/driver/irq/pic/ps2/ps2.c\<close> with its \<^verbatim>\<open>internal.h\<close> and \<^verbatim>\<open>ps2.h\<close>.
  The state extends that of the interrupt controller by the input state the driver feeds, the two
  byte queues and the variables of the driver. The queues' buffers are static arrays: their bytes
  are a memory of their own, \<open>ps_mem\<close>. The handlers take the stack address of the events they send,
  and the keyboard handler the contents of its uninitialised local event.
\<close>

section \<open>The code\<close>

definition PIC_PS2_MOUSE_SAMPLERATE :: u8 where "PIC_PS2_MOUSE_SAMPLERATE = 60"
definition PIC_PS2_KEYBOARD :: nat where "PIC_PS2_KEYBOARD = 1"
definition PIC_PS2_MOUSE :: nat where "PIC_PS2_MOUSE = 12"
definition PIC_PS2_IOPORT :: u16 where "PIC_PS2_IOPORT = 0x0060"
definition PIC_PS2_STATUSPORT :: u16 where "PIC_PS2_STATUSPORT = 0x0064"
definition PIC_PS2_CMDPORT :: u16 where "PIC_PS2_CMDPORT = 0x0064"
definition PIC_PS2_STATUS_OUTPUT_BUFFER :: u8 where "PIC_PS2_STATUS_OUTPUT_BUFFER = push_bit 0 1"
definition PIC_PS2_STATUS_INPUT_BUFFER :: u8 where "PIC_PS2_STATUS_INPUT_BUFFER = push_bit 1 1"
definition PIC_PS2_CONFIG_PORT1_CLOCK :: u8 where "PIC_PS2_CONFIG_PORT1_CLOCK = push_bit 4 1"
definition PIC_PS2_CONFIG_PORT1_TRANSLATION :: u8 where "PIC_PS2_CONFIG_PORT1_TRANSLATION = push_bit 6 1"
definition PIC_PS2_ACK :: u8 where "PIC_PS2_ACK = 0xfa"
definition PIC_PS2_RESET_OK :: u8 where "PIC_PS2_RESET_OK = 0xaa"
definition PIC_PS2_CMD_READ_CONFIGBYTE :: u8 where "PIC_PS2_CMD_READ_CONFIGBYTE = 0x20"
definition PIC_PS2_CMD_WRITE_CONFIGBYTE :: u8 where "PIC_PS2_CMD_WRITE_CONFIGBYTE = 0x60"
definition PIC_PS2_CMD_ENABLE_MOUSE :: u8 where "PIC_PS2_CMD_ENABLE_MOUSE = 0xa8"
definition PIC_PS2_CMD_SEND_MOUSE :: u8 where "PIC_PS2_CMD_SEND_MOUSE = 0xd4"
definition PIC_PS2_CMD_DEVICE_RESET :: u8 where "PIC_PS2_CMD_DEVICE_RESET = 0xff"
definition PIC_PS2_CMD_DEVICE_MOUSE_ENABLE_REPORTING :: u8 where "PIC_PS2_CMD_DEVICE_MOUSE_ENABLE_REPORTING = 0xf4"
definition PIC_PS2_QUEUESIZE_KEYBOARD :: u64 where "PIC_PS2_QUEUESIZE_KEYBOARD = 64"
definition PIC_PS2_QUEUESIZE_MOUSE :: u64 where "PIC_PS2_QUEUESIZE_MOUSE = 256"

record ps2_state = pic_state +
  ps_input :: input_state
  ps_mem :: mem
  ps_QueueKeyboard :: queue_Queue
  ps_QueueMouse :: queue_Queue
  ps_HasMouse :: bool
  ps_Mouse4Bytes :: bool
  ps_MouseButtons :: u8

subsection \<open>Talking to the controller\<close>

definition ps2_PollWait_ReadReady :: "'a io_state_scheme \<Rightarrow> 'a io_state_scheme option" where
  "ps2_PollWait_ReadReady s = poll PIC_PS2_STATUSPORT PIC_PS2_STATUS_OUTPUT_BUFFER True s"

definition ps2_PollWait_WriteReady :: "'a io_state_scheme \<Rightarrow> 'a io_state_scheme option" where
  "ps2_PollWait_WriteReady s = poll PIC_PS2_STATUSPORT PIC_PS2_STATUS_INPUT_BUFFER False s"

definition ps2_ReadData :: "'a io_state_scheme \<Rightarrow> (u8 \<times> 'a io_state_scheme) option" where
  "ps2_ReadData s = do { s \<leftarrow> ps2_PollWait_ReadReady s; Some (inb PIC_PS2_IOPORT s) }"

definition ps2_WriteCommand :: "u8 \<Rightarrow> 'a io_state_scheme \<Rightarrow> 'a io_state_scheme option" where
  "ps2_WriteCommand cmd s = do { s \<leftarrow> ps2_PollWait_WriteReady s; Some (outb PIC_PS2_CMDPORT cmd s) }"

definition ps2_WriteCommandData :: "u8 \<Rightarrow> u8 \<Rightarrow> 'a io_state_scheme \<Rightarrow> 'a io_state_scheme option" where
  "ps2_WriteCommandData cmd data s = do {
     s \<leftarrow> ps2_PollWait_WriteReady s;
     let s = outb PIC_PS2_CMDPORT cmd s;
     s \<leftarrow> ps2_PollWait_WriteReady s;
     Some (outb PIC_PS2_IOPORT data s)
   }"

text \<open>The loops that read bytes until one with a given value arrives.\<close>

partial_function (option) ps2_ReadUntil :: "u8 \<Rightarrow> 'a io_state_scheme \<Rightarrow> 'a io_state_scheme option" where
  "ps2_ReadUntil b s = do { (data, s) \<leftarrow> ps2_ReadData s; if data \<noteq> b then ps2_ReadUntil b s else Some s }"

definition ps2_ReadACK :: "'a io_state_scheme \<Rightarrow> 'a io_state_scheme option" where
  "ps2_ReadACK s = ps2_ReadUntil PIC_PS2_ACK s"

definition ps2_SetMouseRate :: "u8 \<Rightarrow> 'a io_state_scheme \<Rightarrow> 'a io_state_scheme option" where
  "ps2_SetMouseRate rate s = do {
     s \<leftarrow> ps2_WriteCommandData PIC_PS2_CMD_SEND_MOUSE 0xf3 s;
     s \<leftarrow> ps2_ReadACK s;
     s \<leftarrow> ps2_WriteCommandData PIC_PS2_CMD_SEND_MOUSE rate s;
     ps2_ReadACK s
   }"

text \<open>
  \<open>bufK\<close>, \<open>bufM\<close> are the addresses of the two buffers, \<open>hK\<close>, \<open>hM\<close> those of the interrupt handlers.
  \<open>None\<close>: the controller is not set up, or one of the polling loops does not end.
\<close>

definition pic_ps2_Init :: "addr \<Rightarrow> addr \<Rightarrow> addr \<Rightarrow> addr \<Rightarrow> ps2_state \<Rightarrow> ps2_state option" where
  "pic_ps2_Init bufK bufM hK hM s =
     (if \<not> pic_Enabled s then None
      else do {
        let s = s\<lparr>ps_QueueKeyboard := queue_InitBuffered (ps_QueueKeyboard s) bufK PIC_PS2_QUEUESIZE_KEYBOARD\<rparr>;
        let s = s\<lparr>ps_QueueMouse := queue_InitBuffered (ps_QueueMouse s) bufM PIC_PS2_QUEUESIZE_MOUSE\<rparr>;
        let s = s\<lparr>pic_IRQHandler := (pic_IRQHandler s)(PIC_PS2_KEYBOARD := hK)\<rparr>;
        let s = irq_pic_Mask (of_nat PIC_PS2_KEYBOARD) False s;
        s \<leftarrow> ps2_WriteCommand PIC_PS2_CMD_ENABLE_MOUSE s;
        s \<leftarrow> ps2_WriteCommand PIC_PS2_CMD_READ_CONFIGBYTE s;
        (config, s) \<leftarrow> ps2_ReadData s;
        s \<leftarrow> ps2_WriteCommandData PIC_PS2_CMD_WRITE_CONFIGBYTE (config OR PIC_PS2_CONFIG_PORT1_TRANSLATION) s;
        if config AND PIC_PS2_CONFIG_PORT1_CLOCK \<noteq> 0 then Some (s\<lparr>ps_HasMouse := False\<rparr>)
        else do {
          s \<leftarrow> ps2_WriteCommandData PIC_PS2_CMD_SEND_MOUSE PIC_PS2_CMD_DEVICE_RESET s;
          s \<leftarrow> ps2_ReadUntil PIC_PS2_RESET_OK s;
          let s = s\<lparr>ps_Mouse4Bytes := False\<rparr>;
          s \<leftarrow> ps2_SetMouseRate 200 s;
          s \<leftarrow> ps2_SetMouseRate 100 s;
          s \<leftarrow> ps2_SetMouseRate 80 s;
          s \<leftarrow> ps2_WriteCommandData PIC_PS2_CMD_SEND_MOUSE 0xf2 s;
          s \<leftarrow> ps2_ReadACK s;
          (id, s) \<leftarrow> ps2_ReadData s;
          let s = s\<lparr>ps_Mouse4Bytes := (id = 3)\<rparr>;
          let s = s\<lparr>pic_IRQHandler := (pic_IRQHandler s)(PIC_PS2_MOUSE := hM)\<rparr>;
          let s = irq_pic_Mask (of_nat PIC_PS2_MOUSE) False s;
          s \<leftarrow> ps2_SetMouseRate PIC_PS2_MOUSE_SAMPLERATE s;
          s \<leftarrow> ps2_WriteCommandData PIC_PS2_CMD_SEND_MOUSE PIC_PS2_CMD_DEVICE_MOUSE_ENABLE_REPORTING s;
          ps2_ReadACK s
        }
      })"

subsection \<open>The keyboard\<close>

definition event_KeyPressed :: int where "event_KeyPressed = 3"
definition event_KeyReleased :: int where "event_KeyReleased = 4"

definition pic_ps2_KeyScancode1 :: "input_Key list" where
  "pic_ps2_KeyScancode1 = [
     input_Key_Unknown, input_Key_Escape, input_Key_Num1, input_Key_Num2, input_Key_Num3,
     input_Key_Num4, input_Key_Num5, input_Key_Num6, input_Key_Num7, input_Key_Num8,
     input_Key_Num9, input_Key_Num0, input_Key_Hyphen, input_Key_Equal, input_Key_Backspace,
     input_Key_Tab, input_Key_Q, input_Key_W, input_Key_E, input_Key_R, input_Key_T, input_Key_Y,
     input_Key_U, input_Key_I, input_Key_O, input_Key_P, input_Key_LBracket, input_Key_RBracket,
     input_Key_Enter, input_Key_LControl, input_Key_A, input_Key_S, input_Key_D, input_Key_F,
     input_Key_G, input_Key_H, input_Key_J, input_Key_K, input_Key_L, input_Key_Semicolon,
     input_Key_Quote, input_Key_Tilde, input_Key_LShift, input_Key_Backslash, input_Key_Z,
     input_Key_X, input_Key_C, input_Key_V, input_Key_B, input_Key_N, input_Key_M,
     input_Key_Comma, input_Key_Period, input_Key_Slash, input_Key_RShift, input_Key_Multiply,
     input_Key_LAlt, input_Key_Space, input_Key_CapsLock, input_Key_F1, input_Key_F2,
     input_Key_F3, input_Key_F4, input_Key_F5, input_Key_F6, input_Key_F7, input_Key_F8,
     input_Key_F9, input_Key_F10, input_Key_NumLock, input_Key_ScrollLock, input_Key_Numpad7,
     input_Key_Numpad8, input_Key_Numpad9, input_Key_Subtract, input_Key_Numpad4,
     input_Key_Numpad5, input_Key_Numpad6, input_Key_Add, input_Key_Numpad1, input_Key_Numpad2,
     input_Key_Numpad3, input_Key_Numpad0, input_Key_Period, input_Key_Unknown,
     input_Key_Unknown, input_Key_Unknown, input_Key_F11, input_Key_F12]"

text \<open>The cases of the switch on the second byte.\<close>

definition ps2_e0_cases :: "(u8 \<times> int \<times> input_Key) list" where
  "ps2_e0_cases = [
     (0x1c, event_KeyPressed, input_Key_Enter), (0x1d, event_KeyPressed, input_Key_RControl),
     (0x35, event_KeyPressed, input_Key_Divide), (0x38, event_KeyPressed, input_Key_RAlt),
     (0x47, event_KeyPressed, input_Key_Home), (0x48, event_KeyPressed, input_Key_Up),
     (0x49, event_KeyPressed, input_Key_PageUp), (0x4b, event_KeyPressed, input_Key_Left),
     (0x4d, event_KeyPressed, input_Key_Right), (0x4f, event_KeyPressed, input_Key_End),
     (0x50, event_KeyPressed, input_Key_Down), (0x51, event_KeyPressed, input_Key_PageDown),
     (0x52, event_KeyPressed, input_Key_Insert), (0x53, event_KeyPressed, input_Key_Delete),
     (0x1c + 0x80, event_KeyReleased, input_Key_Enter),
     (0x1d + 0x80, event_KeyReleased, input_Key_RControl),
     (0x35 + 0x80, event_KeyReleased, input_Key_Divide),
     (0x38 + 0x80, event_KeyReleased, input_Key_RAlt),
     (0x47 + 0x80, event_KeyReleased, input_Key_Home),
     (0x48 + 0x80, event_KeyReleased, input_Key_Up),
     (0x49 + 0x80, event_KeyReleased, input_Key_PageUp),
     (0x4b + 0x80, event_KeyReleased, input_Key_Left),
     (0x4d + 0x80, event_KeyReleased, input_Key_Right),
     (0x4f + 0x80, event_KeyReleased, input_Key_End),
     (0x50 + 0x80, event_KeyReleased, input_Key_Down),
     (0x51 + 0x80, event_KeyReleased, input_Key_PageDown),
     (0x52 + 0x80, event_KeyReleased, input_Key_Insert),
     (0x53 + 0x80, event_KeyReleased, input_Key_Delete)]"

record scan_event =
  sc_Type :: int
  sc_Key :: input_Key

type_synonym byte_queue = "mem \<times> queue_Queue"

definition pic_ps2_DecodeKeyScancode1 :: "scan_event \<Rightarrow> byte_queue \<Rightarrow> bool \<times> scan_event \<times> byte_queue" where
  "pic_ps2_DecodeKeyScancode1 e k =
     (let byte0 = queue_FrontByte k in
      if byte0 = 0xfa then (let (_, k) = queue_PopByte k in (False, e, k))
      else if byte0 \<ge> 0x01 \<and> byte0 \<le> 0x58 then
        (let (_, k) = queue_PopByte k
         in (True, e\<lparr>sc_Type := event_KeyPressed, sc_Key := pic_ps2_KeyScancode1 ! unat byte0\<rparr>, k))
      else if byte0 \<ge> 0x81 \<and> byte0 \<le> 0xd8 then
        (let (_, k) = queue_PopByte k
         in (True, e\<lparr>sc_Type := event_KeyReleased, sc_Key := pic_ps2_KeyScancode1 ! unat (byte0 - 0x80)\<rparr>, k))
      else if byte0 = 0xe0 then
        (if queue_Size (snd k) < 2 then (False, e, k)
         else
           (let (_, k) = queue_PopByte k; (byte1, k) = queue_PopByte k;
                e = e\<lparr>sc_Type := input_Key_Unknown\<rparr>;
                e = (case map_of ps2_e0_cases byte1 of None \<Rightarrow> e
                     | Some (t, key) \<Rightarrow> e\<lparr>sc_Type := t, sc_Key := key\<rparr>)
            in (sc_Key e \<noteq> input_Key_Unknown, e, k)))
      else if byte0 = 0xe1 then
        (if queue_Size (snd k) < 3 then (False, e, k)
         else
           (let (_, k) = queue_PopByte k; (_, k) = queue_PopByte k; (_, k) = queue_PopByte k
            in (False, e, k)))
      else (False, e, k))"

text \<open>The handler: read the byte, queue it, decode at most one key from the front of the queue.\<close>

definition ps2_keyboard_byte :: "addr \<Rightarrow> scan_event \<Rightarrow> u8 \<Rightarrow> byte_queue \<times> input_state \<Rightarrow> byte_queue \<times> input_state" where
  "ps2_keyboard_byte sp garbage b st =
     (let (k, inp) = st; k = queue_PushByte b k; (r, e, k) = pic_ps2_DecodeKeyScancode1 garbage k
      in if r then
           (if sc_Type e = event_KeyPressed then (k, input_source_PressKey sp (sc_Key e) inp)
            else if sc_Type e = event_KeyReleased then (k, input_source_ReleaseKey sp (sc_Key e) inp)
            else (k, inp))
         else (k, inp))"

definition pic_ps2_IRQHandlerK :: "addr \<Rightarrow> scan_event \<Rightarrow> ps2_state \<Rightarrow> ps2_state" where
  "pic_ps2_IRQHandlerK sp garbage s =
     (let (b, s) = inb PIC_PS2_IOPORT s;
          ((m, k), inp) = ps2_keyboard_byte sp garbage b ((ps_mem s, ps_QueueKeyboard s), ps_input s)
      in s\<lparr>ps_mem := m, ps_QueueKeyboard := k, ps_input := inp\<rparr>)"

subsection \<open>The mouse\<close>

lemma q_count_PopByte [simp]:
  "q_count (snd (snd (queue_PopByte k))) = (if q_count (snd k) = 0 then 0 else q_count (snd k) - 1)"
  by (cases k) (simp add: queue_PopByte_def Let_def)

lemma unat_pred_less: "w \<noteq> 0 \<Longrightarrow> unat (w - 1) < unat (w :: u64)"
  using unat_pred_u64 [of w] by simp

lemma pop_less: "unat (q_count (snd (snd (queue_PopByte k)))) \<le> unat (q_count (snd k))"
  using unat_pred_less [of "q_count (snd k)"] by auto

function ps2_mouse_resync :: "byte_queue \<Rightarrow> byte_queue" where
  "ps2_mouse_resync k =
     (if queue_Size (snd k) \<noteq> 0 \<and> queue_FrontByte k AND push_bit 3 1 = 0
      then ps2_mouse_resync (snd (queue_PopByte k)) else k)"
  by pat_completeness auto
termination
  by (relation "measure (\<lambda>k. unat (q_count (snd k)))") (auto simp: queue_Size_def unat_pred_less)

declare ps2_mouse_resync.simps [simp del]

text \<open>The arithmetic of a packet is in \<^verbatim>\<open>unsigned int\<close>; the arguments of the call are converted to \<^verbatim>\<open>int\<close>.\<close>

definition ps2_packet_move :: "u8 \<Rightarrow> u8 \<Rightarrow> u8 \<Rightarrow> int \<times> int" where
  "ps2_packet_move state dx dy =
     (let st = ucast state :: u32; moveX = ucast dx - (push_bit 4 st AND 0x100);
          moveY = ucast dy - (push_bit 3 st AND 0x100)
      in (s32 (uint moveX), s32 (uint (- moveY))))"

definition ps2_button_change ::
  "addr \<Rightarrow> u8 \<Rightarrow> input_MouseButton \<Rightarrow> u8 \<Rightarrow> u8 \<Rightarrow> input_state \<Rightarrow> input_state" where
  "ps2_button_change sp b button old state inp =
     (let inp = (if old AND b = 0 \<and> state AND b \<noteq> 0 then input_source_PressMouse sp button inp else inp)
      in if old AND b \<noteq> 0 \<and> state AND b = 0 then input_source_ReleaseMouse sp button inp else inp)"

definition ps2_buttons :: "addr \<Rightarrow> u8 \<Rightarrow> u8 \<Rightarrow> input_state \<Rightarrow> input_state" where
  "ps2_buttons sp old state inp =
     (if old \<noteq> state AND 7
      then (let inp = ps2_button_change sp 1 input_MouseButton_Left old state inp;
                inp = ps2_button_change sp 2 input_MouseButton_Right old state inp
            in ps2_button_change sp 4 input_MouseButton_Middle old state inp)
      else inp)"

function ps2_mouse_packets ::
  "addr \<Rightarrow> bool \<Rightarrow> byte_queue \<times> input_state \<times> u8 \<Rightarrow> byte_queue \<times> input_state \<times> u8" where
  "ps2_mouse_packets sp four (k, inp, buttons) =
     (if queue_Size (snd k) \<ge> (if four then 4 else 3)
      then
        (let (state, k) = queue_PopByte k;
             (dx, k) = queue_PopByte k;
             (dy, k) = queue_PopByte k;
             (x, y) = ps2_packet_move state dx dy;
             inp = input_source_MoveMouse sp x y inp;
             k = (if four then snd (queue_PopByte k) else k);
             inp = ps2_buttons sp buttons state inp;
             buttons = (if buttons \<noteq> state AND 7 then state AND 7 else buttons)
         in ps2_mouse_packets sp four (k, inp, buttons))
      else (k, inp, buttons))"
  by pat_completeness auto

termination
proof (relation "measure (\<lambda>(sp, four, k, inp, buttons). unat (q_count (snd k)))", goal_cases)
  case (2 sp four k inp buttons r1 state k1 r2 dx k2 r3 dy k3 r4 x y inp1 k4 inp2 buttons1)
  then have "q_count (snd k) \<noteq> 0" by (auto simp: queue_Size_def split: if_splits)
  then have "unat (q_count (snd (snd (queue_PopByte k)))) < unat (q_count (snd k))"
    using unat_pred_less by simp
  moreover have "k1 = snd (queue_PopByte k)" "k2 = snd (queue_PopByte k1)" "k3 = snd (queue_PopByte k2)"
    "k4 = (if four then snd (queue_PopByte k3) else k3)"
    using 2 by (metis snd_conv)+
  ultimately show ?case
    using pop_less [of k1] pop_less [of k2] pop_less [of k3] by (simp split: if_splits)
qed simp

declare ps2_mouse_packets.simps [simp del]

definition ps2_mouse_byte ::
  "addr \<Rightarrow> bool \<Rightarrow> u8 \<Rightarrow> byte_queue \<times> input_state \<times> u8 \<Rightarrow> byte_queue \<times> input_state \<times> u8" where
  "ps2_mouse_byte sp four b st =
     (let (k, inp, buttons) = st; k = queue_PushByte b k; k = ps2_mouse_resync k
      in ps2_mouse_packets sp four (k, inp, buttons))"

definition pic_ps2_IRQHandlerM :: "addr \<Rightarrow> ps2_state \<Rightarrow> ps2_state" where
  "pic_ps2_IRQHandlerM sp s =
     (let (b, s) = inb PIC_PS2_IOPORT s;
          ((m, k), inp, buttons) = ps2_mouse_byte sp (ps_Mouse4Bytes s) b
             ((ps_mem s, ps_QueueMouse s), ps_input s, ps_MouseButtons s)
      in s\<lparr>ps_mem := m, ps_QueueMouse := k, ps_input := inp, ps_MouseButtons := buttons\<rparr>)"

section \<open>Queues by their contents\<close>

text \<open>\<open>holds k c n\<close>: the queue keeps its invariant, contains the bytes \<open>c\<close> and has room for \<open>n\<close>.\<close>

definition holds :: "byte_queue \<Rightarrow> u8 list \<Rightarrow> nat \<Rightarrow> bool" where
  "holds k c n \<longleftrightarrow> queue_inv (snd k) \<and> queue_contents k = c \<and> unat (q_size (snd k)) = n"

lemma holds_push:
  "holds k c n \<Longrightarrow> holds (queue_PushByte b k) (if length c < n then c @ [b] else c) n"
  using rq.push_room [of k b] rq.push_full [of k b] rq.fits [of k] rq.inv_push [of k b]
  by (auto simp: holds_def)

lemma holds_pop:
  "holds k (x # c) n \<Longrightarrow> fst (queue_PopByte k) = x \<and> holds (snd (queue_PopByte k)) c n"
  using rq.pop_some [of k x c] rq.inv_pop [of k] by (simp add: holds_def)

lemma holds_front: "holds k (x # c) n \<Longrightarrow> queue_FrontByte k = x"
  using holds_pop [of k x c n]
  by (cases k) (auto simp: queue_FrontByte_def queue_PopByte_def holds_def queue_contents_def Let_def)

lemma holds_size: "holds k c n \<Longrightarrow> queue_Size (snd k) = of_nat (length c)"
  by (auto simp: holds_def queue_Size_def)

lemma holds_fits: "holds k c n \<Longrightarrow> length c \<le> n"
  using rq.fits [of k] by (auto simp: holds_def)

text \<open>Popping as a step of the state, for the code's \<^verbatim>\<open>let\<close>s.\<close>

lemma holds_popE:
  assumes "holds k (x # c) n"
  obtains k' where "queue_PopByte k = (x, k')" and "holds k' c n"
  using holds_pop [OF assms] by (cases "queue_PopByte k") auto

section \<open>What the bytes of the keyboard mean\<close>

text \<open>
  A key code of one byte, an extended code, an acknowledgement, or the prefix \<^verbatim>\<open>0xe1\<close> with its two
  bytes.
\<close>

datatype scan_token = Key u8 | Extended u8 | Ack | Pause u8 u8

fun token_bytes :: "scan_token \<Rightarrow> u8 list" where
  "token_bytes (Key c) = [c]"
| "token_bytes (Extended c) = [0xe0, c]"
| "token_bytes Ack = [0xfa]"
| "token_bytes (Pause a b) = [0xe1, a, b]"

fun token_ok :: "scan_token \<Rightarrow> bool" where
  "token_ok (Key c) \<longleftrightarrow> (0x01 \<le> c \<and> c \<le> 0x58) \<or> (0x81 \<le> c \<and> c \<le> 0xd8)"
| "token_ok _ \<longleftrightarrow> True"

fun token_ops :: "addr \<Rightarrow> scan_token \<Rightarrow> source_op list" where
  "token_ops sp (Key c) =
     (if c \<le> 0x58 then [PressKey sp (pic_ps2_KeyScancode1 ! unat c)]
      else [ReleaseKey sp (pic_ps2_KeyScancode1 ! unat (c - 0x80))])"
| "token_ops sp (Extended c) = (case map_of ps2_e0_cases c of None \<Rightarrow> []
     | Some (t, key) \<Rightarrow> if t = event_KeyPressed then [PressKey sp key] else [ReleaseKey sp key])"
| "token_ops sp _ = []"

lemma ps2_e0_cases_range:
  "map_of ps2_e0_cases c = Some (t, key) \<Longrightarrow> key \<noteq> input_Key_Unknown \<and> (t = event_KeyPressed \<or> t = event_KeyReleased)"
  by (drule map_of_SomeD) (auto simp: ps2_e0_cases_def input_Key_defs)

lemma event_types [simp]: "event_KeyReleased \<noteq> event_KeyPressed" "event_KeyPressed \<noteq> input_Key_Unknown"
  "event_KeyReleased \<noteq> input_Key_Unknown" "input_Key_Unknown \<noteq> event_KeyPressed" "input_Key_Unknown \<noteq> event_KeyReleased"
  by (simp_all add: event_KeyPressed_def event_KeyReleased_def input_Key_Unknown_def)

declare split_paired_Ex [simp del]

text \<open>One byte at an idle queue, byte by byte through a token.\<close>

lemma keyboard_Key:
  assumes "holds k [] n" and "0 < n" and "token_ok (Key c)"
  shows "\<exists>k'. ps2_keyboard_byte sp g c (k, inp) = (k', fold input_apply (token_ops sp (Key c)) inp) \<and> holds k' [] n"
proof -
  have p: "holds (queue_PushByte c k) [c] n" using holds_push [OF assms(1), of c] assms(2) by simp
  from holds_popE [OF p] obtain k' where k': "queue_PopByte (queue_PushByte c k) = (c, k')" "holds k' [] n" .
  have "c \<noteq> 0xfa" "c \<noteq> 0xe0" "c \<noteq> 0xe1" using assms(3) by auto
  moreover have "0x81 \<le> c \<Longrightarrow> \<not> c \<le> 0x58" by (simp add: word_le_nat_alt)
  ultimately show ?thesis
    using assms(3) holds_front [OF p] k'
    by (auto simp: ps2_keyboard_byte_def pic_ps2_DecodeKeyScancode1_def Let_def)
qed

lemma keyboard_Ack:
  assumes "holds k [] n" and "0 < n"
  shows "\<exists>k'. ps2_keyboard_byte sp g 0xfa (k, inp) = (k', inp) \<and> holds k' [] n"
proof -
  have p: "holds (queue_PushByte 0xfa k) [0xfa] n" using holds_push [OF assms(1), of "0xfa"] assms(2) by simp
  from holds_popE [OF p] obtain k' where "queue_PopByte (queue_PushByte 0xfa k) = (0xfa, k')" "holds k' [] n" .
  then show ?thesis
    using holds_front [OF p] by (auto simp: ps2_keyboard_byte_def pic_ps2_DecodeKeyScancode1_def Let_def)
qed

text \<open>A prefix waits in the queue until its bytes have come.\<close>

lemma keyboard_wait:
  assumes "holds k c n" and "length c < n"
    and "hd (c @ [b]) = 0xe0 \<and> length c = 0 \<or> hd (c @ [b]) = 0xe1 \<and> length c < 2"
  shows "\<exists>k'. ps2_keyboard_byte sp g b (k, inp) = (k', inp) \<and> holds k' (c @ [b]) n"
proof -
  have p: "holds (queue_PushByte b k) (c @ [b]) n" using holds_push [OF assms(1), of b] assms(2) by simp
  have f: "queue_FrontByte (queue_PushByte b k) = hd (c @ [b])"
    using p holds_front [of _ "hd (c @ [b])" "tl (c @ [b])"] by simp
  have s: "queue_Size (snd (queue_PushByte b k)) = of_nat (length c + 1)" using holds_size [OF p] by simp
  have "length c = 0 \<or> length c = 1" using assms(3) by linarith
  then show ?thesis
    using p f s assms(3)
    by (elim disjE) (simp_all add: ps2_keyboard_byte_def pic_ps2_DecodeKeyScancode1_def Let_def)
qed

lemma keyboard_Extended:
  assumes "holds k [0xe0] n" and "1 < n"
  shows "\<exists>k'. ps2_keyboard_byte sp g c (k, inp) = (k', fold input_apply (token_ops sp (Extended c)) inp) \<and> holds k' [] n"
proof -
  have p: "holds (queue_PushByte c k) [0xe0, c] n" using holds_push [OF assms(1), of c] assms(2) by simp
  from holds_popE [OF p] obtain k1 where k1: "queue_PopByte (queue_PushByte c k) = (0xe0, k1)" "holds k1 [c] n" .
  from holds_popE [OF k1(2)] obtain k2 where k2: "queue_PopByte k1 = (c, k2)" "holds k2 [] n" .
  show ?thesis
    using holds_front [OF p] holds_size [OF p] k1(1) k2 ps2_e0_cases_range [of c]
    by (auto simp: ps2_keyboard_byte_def pic_ps2_DecodeKeyScancode1_def Let_def split: option.split)
qed

lemma keyboard_Pause:
  assumes "holds k [0xe1, a] n" and "2 < n"
  shows "\<exists>k'. ps2_keyboard_byte sp g b (k, inp) = (k', inp) \<and> holds k' [] n"
proof -
  have p: "holds (queue_PushByte b k) [0xe1, a, b] n" using holds_push [OF assms(1), of b] assms(2) by simp
  from holds_popE [OF p] obtain k1 where k1: "queue_PopByte (queue_PushByte b k) = (0xe1, k1)" "holds k1 [a, b] n" .
  from holds_popE [OF k1(2)] obtain k2 where k2: "queue_PopByte k1 = (a, k2)" "holds k2 [b] n" .
  from holds_popE [OF k2(2)] obtain k3 where k3: "queue_PopByte k2 = (b, k3)" "holds k3 [] n" .
  show ?thesis
    using holds_front [OF p] holds_size [OF p] k1(1) k2(1) k3
    by (auto simp: ps2_keyboard_byte_def pic_ps2_DecodeKeyScancode1_def Let_def)
qed

lemma keyboard_token:
  assumes "holds k [] n" and "3 \<le> n" and "token_ok t"
  shows "\<exists>k'. fold (ps2_keyboard_byte sp g) (token_bytes t) (k, inp) =
      (k', fold input_apply (token_ops sp t) inp) \<and> holds k' [] n"
proof (cases t)
  case (Key c)
  with assms keyboard_Key [of k n c] show ?thesis by simp
next
  case (Extended c)
  have "\<exists>k1. ps2_keyboard_byte sp g 0xe0 (k, inp) = (k1, inp) \<and> holds k1 [0xe0] n"
    using keyboard_wait [OF assms(1), of "0xe0"] assms(2) by simp
  then obtain k1 where "ps2_keyboard_byte sp g 0xe0 (k, inp) = (k1, inp)" "holds k1 [0xe0] n" by blast
  with Extended keyboard_Extended [of k1 n] assms(2) show ?thesis by simp
next
  case Ack
  with assms keyboard_Ack [of k n] show ?thesis by simp
next
  case (Pause a b)
  have "\<exists>k1. ps2_keyboard_byte sp g 0xe1 (k, inp) = (k1, inp) \<and> holds k1 [0xe1] n"
    using keyboard_wait [OF assms(1), of "0xe1"] assms(2) by simp
  then obtain k1 where k1: "ps2_keyboard_byte sp g 0xe1 (k, inp) = (k1, inp)" "holds k1 [0xe1] n" by blast
  have "\<exists>k2. ps2_keyboard_byte sp g a (k1, inp) = (k2, inp) \<and> holds k2 [0xe1, a] n"
    using keyboard_wait [OF k1(2), of a] assms(2) by simp
  then obtain k2 where "ps2_keyboard_byte sp g a (k1, inp) = (k2, inp)" "holds k2 [0xe1, a] n" by blast
  with k1 Pause keyboard_Pause [of k2 a n] assms(2) show ?thesis by simp
qed

lemma keyboard_tokens:
  "holds k [] n \<Longrightarrow> 3 \<le> n \<Longrightarrow> (\<And>t. t \<in> set ts \<Longrightarrow> token_ok t) \<Longrightarrow>
     \<exists>k'. fold (ps2_keyboard_byte sp g) (concat (map token_bytes ts)) (k, inp) =
       (k', fold input_apply (concat (map (token_ops sp) ts)) inp) \<and> holds k' [] n"
proof (induction ts arbitrary: k inp)
  case (Cons t ts)
  then obtain k1 where k1: "fold (ps2_keyboard_byte sp g) (token_bytes t) (k, inp) =
      (k1, fold input_apply (token_ops sp t) inp)" "holds k1 [] n"
    using keyboard_token [of k n t sp g inp] by auto
  from Cons.IH [OF k1(2) Cons.prems(2)] Cons.prems(3) k1(1) show ?case by simp
qed simp

text \<open>A byte that is none of these stays at the front, whatever follows.\<close>

definition undecodable :: "u8 \<Rightarrow> bool" where
  "undecodable b \<longleftrightarrow> \<not> token_ok (Key b) \<and> b \<notin> {0xe0, 0xe1, 0xfa}"

lemma keyboard_blocked:
  assumes "holds k c n" and "0 < n" and "undecodable (hd (c @ [b]))"
  shows "\<exists>k' c'. ps2_keyboard_byte sp g b (k, inp) = (k', inp) \<and> holds k' c' n \<and> c' \<noteq> [] \<and> hd c' = hd (c @ [b])"
proof -
  define c' where "c' = (if length c < n then c @ [b] else c)"
  have p: "holds (queue_PushByte b k) c' n" using holds_push [OF assms(1)] by (simp add: c'_def)
  have c': "c' \<noteq> []" "hd c' = hd (c @ [b])" using assms(2) by (auto simp: c'_def hd_append)
  then have "queue_FrontByte (queue_PushByte b k) = hd (c @ [b])"
    using holds_front p by (metis list.collapse)
  then have "ps2_keyboard_byte sp g b (k, inp) = (queue_PushByte b k, inp)"
    using assms(3) by (auto simp: ps2_keyboard_byte_def pic_ps2_DecodeKeyScancode1_def Let_def undecodable_def)
  with p c' show ?thesis by blast
qed

section \<open>The mouse\<close>

text \<open>The signed displacements of a packet: nine bits, the sign in the first byte.\<close>

definition packet_dx :: "u8 \<Rightarrow> u8 \<Rightarrow> int" where
  "packet_dx state d = int (unat d) - (if bit state 4 then 256 else 0)"

definition packet_dy :: "u8 \<Rightarrow> u8 \<Rightarrow> int" where
  "packet_dy state d = int (unat d) - (if bit state 5 then 256 else 0)"

lemma packet_sign_bits:
  "push_bit 4 (ucast (st :: u8) :: u32) AND 0x100 = (if bit st 4 then 0x100 else 0)"
  "push_bit 3 (ucast (st :: u8) :: u32) AND 0x100 = (if bit st 5 then 0x100 else 0)"
proof -
  have "(0x100 :: u32) = push_bit 8 1" by simp
  then have "bit (0x100 :: u32) n \<longleftrightarrow> n = 8" if "n < 32" for n
    using that by (simp only: bit_simps) auto
  then show "push_bit 4 (ucast (st :: u8) :: u32) AND 0x100 = (if bit st 4 then 0x100 else 0)"
    "push_bit 3 (ucast (st :: u8) :: u32) AND 0x100 = (if bit st 5 then 0x100 else 0)"
    by (auto intro!: bit_word_eqI simp: bit_simps)
qed

lemma s32_of_int: "- (2 ^ 31) \<le> x \<Longrightarrow> x < 2 ^ 31 \<Longrightarrow> s32 (uint (of_int x :: u32)) = x"
  using sint_sbintrunc' [of x, where ?'a = 32]
  by (simp add: s32_def sint_uint signed_take_bit_int_eq_self)

lemma ucast_of_int_unat: "(ucast (d :: u8) :: u32) = of_int (int (unat d))"
  by (simp add: unsigned_ucast_eq flip: uint_nat)

lemma ps2_packet_move_signed: "ps2_packet_move st dx dy = (packet_dx st dx, - packet_dy st dy)"
proof -
  have b: "int (unat d) < 256" for d :: u8 using unsigned_less [of d] by simp
  have x: "ucast dx - (if bit st 4 then 0x100 else 0) = (of_int (packet_dx st dx) :: u32)"
    unfolding packet_dx_def ucast_of_int_unat by simp
  have y: "- (ucast dy - (if bit st 5 then 0x100 else 0)) = (of_int (- packet_dy st dy) :: u32)"
    unfolding packet_dy_def ucast_of_int_unat by simp
  have d: "\<bar>u - (if c then 256 else 0)\<bar> < 2 ^ 31" if "0 \<le> u" "u < 256" for u :: int and c
    using that by simp
  have r: "\<bar>packet_dx st dx\<bar> < 2 ^ 31" "\<bar>packet_dy st dy\<bar> < 2 ^ 31"
    using d [of "int (unat dx)"] d [of "int (unat dy)"] b unfolding packet_dx_def packet_dy_def by simp_all
  show ?thesis
    unfolding ps2_packet_move_def Let_def packet_sign_bits x y
    using r by (subst s32_of_int, simp, simp, subst s32_of_int) simp_all
qed

text \<open>The operations a packet stands for: one move, and one for each button whose bit changed.\<close>

definition button_ops :: "addr \<Rightarrow> u8 \<Rightarrow> u8 \<Rightarrow> nat \<Rightarrow> input_MouseButton \<Rightarrow> source_op list" where
  "button_ops sp old state n button =
     (if bit old n = bit state n then []
      else if bit state n then [PressMouse sp button] else [ReleaseMouse sp button])"

definition packet_ops :: "addr \<Rightarrow> u8 \<Rightarrow> u8 \<Rightarrow> u8 \<Rightarrow> u8 \<Rightarrow> source_op list" where
  "packet_ops sp old state dx dy = MoveMouse sp (packet_dx state dx) (- packet_dy state dy) #
     button_ops sp old state 0 input_MouseButton_Left @ button_ops sp old state 1 input_MouseButton_Right @
     button_ops sp old state 2 input_MouseButton_Middle"

lemma and_bit_zero: "(w :: u8) AND 1 = 0 \<longleftrightarrow> \<not> bit w 0" "(w :: u8) AND 2 = 0 \<longleftrightarrow> \<not> bit w 1"
  "(w :: u8) AND 4 = 0 \<longleftrightarrow> \<not> bit w 2" "(w :: u8) AND 8 = 0 \<longleftrightarrow> \<not> bit w 3"
  using and_exp_eq_0_iff_not_bit [of w 0] and_exp_eq_0_iff_not_bit [of w 1]
    and_exp_eq_0_iff_not_bit [of w 2] and_exp_eq_0_iff_not_bit [of w 3] by simp_all

lemma ps2_button_change_ops:
  "ps2_button_change sp (push_bit n 1) button old state inp = fold input_apply (button_ops sp old state n button) inp"
  by (auto simp: ps2_button_change_def button_ops_def Let_def and_exp_eq_0_iff_not_bit push_bit_eq_mult)

lemma ps2_buttons_ops:
  "ps2_buttons sp old state inp = fold input_apply
     (button_ops sp old state 0 input_MouseButton_Left @ button_ops sp old state 1 input_MouseButton_Right @
      button_ops sp old state 2 input_MouseButton_Middle) inp"
proof -
  have low: "bit (state AND 7) n = bit state n" if "n < 3" for n
  proof -
    have "n = 0 \<or> n = 1 \<or> n = 2" using that by auto
    then show ?thesis by (auto simp: bit_and_iff bit_numeral_rec)
  qed
  have "button_ops sp old state 0 b = []" "button_ops sp old state 1 b = []" "button_ops sp old state 2 b = []"
    if "old = state AND 7" for b
    unfolding button_ops_def that by (simp_all add: low)
  then show ?thesis
    using ps2_button_change_ops [of sp 0] ps2_button_change_ops [of sp 1] ps2_button_change_ops [of sp 2]
    by (simp add: ps2_buttons_def Let_def)
qed

subsection \<open>A packet, byte by byte\<close>

lemma mouse_resync_keep: "holds k (b # c) n \<Longrightarrow> bit b 3 \<Longrightarrow> ps2_mouse_resync k = k"
  using holds_front [of k b c n] by (subst ps2_mouse_resync.simps) (simp add: and_bit_zero)

lemma mouse_resync_drop:
  assumes "holds k [b] n" and "\<not> bit b 3"
  shows "holds (ps2_mouse_resync k) [] n"
proof -
  from holds_popE [OF assms(1)] obtain k' where k': "queue_PopByte k = (b, k')" "holds k' [] n" .
  then have "ps2_mouse_resync k' = k'"
    using holds_size [of k'] by (subst ps2_mouse_resync.simps) simp
  then show ?thesis
    using assms holds_front [OF assms(1)] holds_size [OF assms(1)] k'
    by (subst ps2_mouse_resync.simps) (simp add: and_bit_zero)
qed

lemma mouse_packets_none:
  assumes "holds k c n" and "length c < (if four then 4 else 3)"
  shows "ps2_mouse_packets sp four (k, inp, old) = (k, inp, old)"
proof -
  have "unat (queue_Size (snd k)) = length c"
    using holds_size [OF assms(1)] assms(2) by (simp add: unat_of_nat_u64 split: if_splits)
  then have "\<not> queue_Size (snd k) \<ge> (if four then 4 else 3)"
    using assms(2) by (simp add: word_le_nat_alt split: if_splits)
  then show ?thesis by (subst ps2_mouse_packets.simps) (simp only: if_False)
qed

text \<open>The last byte of a packet: the packet is taken apart and the queue is empty again.\<close>

lemma mouse_byte_packet:
  assumes "holds k c n" and "4 \<le> n" and "bit st 3" and "c @ [b] = st # dx # dy # (if four then [w] else [])"
  shows "\<exists>k'. ps2_mouse_byte sp four b (k, inp, old) = (k', fold input_apply (packet_ops sp old st dx dy) inp, st AND 7)
    \<and> holds k' [] n"
proof -
  have "length (c @ [b]) = (if four then 4 else 3)" unfolding assms(4) by simp
  then have len: "length c < n" using assms(2) by (simp split: if_splits)
  then have p: "holds (queue_PushByte b k) (st # dx # dy # (if four then [w] else [])) n"
    using holds_push [OF assms(1), of b] by (simp add: assms(4))
  from holds_popE [OF p] obtain k1 where k1: "queue_PopByte (queue_PushByte b k) = (st, k1)"
    "holds k1 (dx # dy # (if four then [w] else [])) n" .
  from holds_popE [OF k1(2)] obtain k2 where k2: "queue_PopByte k1 = (dx, k2)" "holds k2 (dy # (if four then [w] else [])) n" .
  from holds_popE [OF k2(2)] obtain k3 where k3: "queue_PopByte k2 = (dy, k3)" "holds k3 (if four then [w] else []) n" .
  define k4 where "k4 = (if four then snd (queue_PopByte k3) else k3)"
  have k4: "holds k4 [] n" using k3(2) holds_pop [of k3 w "[]" n] by (auto simp: k4_def)
  have "queue_Size (snd (queue_PushByte b k)) \<ge> (if four then 4 else 3)"
    using holds_size [OF p] by simp
  then have "ps2_mouse_packets sp four (queue_PushByte b k, inp, old) =
      ps2_mouse_packets sp four (k4, fold input_apply (packet_ops sp old st dx dy) inp, st AND 7)"
    using k1(1) k2(1) k3(1)
    by (subst ps2_mouse_packets.simps)
      (simp add: Let_def ps2_packet_move_signed ps2_buttons_ops packet_ops_def k4_def del: if_split)
  moreover have "ps2_mouse_resync (queue_PushByte b k) = queue_PushByte b k"
    using mouse_resync_keep [OF p assms(3)] .
  ultimately show ?thesis
    using mouse_packets_none [OF k4] k4 by (simp add: ps2_mouse_byte_def Let_def)
qed

lemma mouse_byte_wait:
  assumes "holds k c n" and "length c + 1 < (if four then 4 else 3)" and "4 \<le> n" and "bit (hd (c @ [b])) 3"
  shows "\<exists>k'. ps2_mouse_byte sp four b (k, inp, old) = (k', inp, old) \<and> holds k' (c @ [b]) n"
proof -
  have p: "holds (queue_PushByte b k) (c @ [b]) n"
    using holds_push [OF assms(1), of b] assms(2,3) by (simp split: if_splits)
  have "ps2_mouse_resync (queue_PushByte b k) = queue_PushByte b k"
    using mouse_resync_keep p assms(4) by (cases "c @ [b]") auto
  with mouse_packets_none [OF p] assms(2) p show ?thesis by (simp add: ps2_mouse_byte_def Let_def)
qed

lemma mouse_byte_junk:
  assumes "holds k [] n" and "4 \<le> n" and "\<not> bit b 3"
  shows "\<exists>k'. ps2_mouse_byte sp four b (k, inp, old) = (k', inp, old) \<and> holds k' [] n"
proof -
  have p: "holds (queue_PushByte b k) [b] n" using holds_push [OF assms(1), of b] assms(2) by simp
  from mouse_resync_drop [OF p assms(3)] mouse_packets_none [of _ "[]" n]
  show ?thesis by (simp add: ps2_mouse_byte_def Let_def)
qed

type_synonym packet = "u8 list \<times> u8 \<times> u8 \<times> u8 \<times> u8"

text \<open>A packet with the stray bytes before it, which lack the bit that marks a first byte.\<close>

fun packet_bytes :: "bool \<Rightarrow> packet \<Rightarrow> u8 list" where
  "packet_bytes four (junk, st, dx, dy, w) = junk @ st # dx # dy # (if four then [w] else [])"

fun packet_ok :: "packet \<Rightarrow> bool" where
  "packet_ok (junk, st, dx, dy, w) \<longleftrightarrow> (\<forall>b \<in> set junk. \<not> bit b 3) \<and> bit st 3"

fun mouse_ops :: "addr \<Rightarrow> u8 \<Rightarrow> packet list \<Rightarrow> source_op list" where
  "mouse_ops sp old [] = []"
| "mouse_ops sp old ((junk, st, dx, dy, w) # ps) = packet_ops sp old st dx dy @ mouse_ops sp (st AND 7) ps"

lemma mouse_junk:
  "holds k [] n \<Longrightarrow> 4 \<le> n \<Longrightarrow> (\<And>b. b \<in> set junk \<Longrightarrow> \<not> bit b 3) \<Longrightarrow>
     \<exists>k'. fold (ps2_mouse_byte sp four) junk (k, inp, old) = (k', inp, old) \<and> holds k' [] n"
proof (induction junk arbitrary: k)
  case (Cons b junk)
  from mouse_byte_junk [OF Cons.prems(1,2), of b sp four inp old] Cons.prems(3)
  obtain k1 where "ps2_mouse_byte sp four b (k, inp, old) = (k1, inp, old)" "holds k1 [] n"
    by (metis list.set_intros(1))
  with Cons.IH [of k1] Cons.prems(2,3) show ?case by simp
qed simp

lemma mouse_packet:
  assumes "holds k [] n" and "4 \<le> n" and "bit st 3"
  shows "\<exists>k'. fold (ps2_mouse_byte sp four) (st # dx # dy # (if four then [w] else [])) (k, inp, old) =
      (k', fold input_apply (packet_ops sp old st dx dy) inp, st AND 7) \<and> holds k' [] n"
proof -
  have "\<exists>k1. ps2_mouse_byte sp four st (k, inp, old) = (k1, inp, old) \<and> holds k1 [st] n"
    using mouse_byte_wait [OF assms(1), of four st] assms(2,3) by simp
  then obtain k1 where k1: "ps2_mouse_byte sp four st (k, inp, old) = (k1, inp, old)" "holds k1 [st] n" by blast
  have "\<exists>k2. ps2_mouse_byte sp four dx (k1, inp, old) = (k2, inp, old) \<and> holds k2 [st, dx] n"
    using mouse_byte_wait [OF k1(2), of four dx] assms(2,3) by simp
  then obtain k2 where k2: "ps2_mouse_byte sp four dx (k1, inp, old) = (k2, inp, old)" "holds k2 [st, dx] n" by blast
  show ?thesis
  proof (cases four)
    case False
    with mouse_byte_packet [OF k2(2) assms(2,3), of dy dx dy four w sp inp old] k1(1) k2(1) show ?thesis by simp
  next
    case True
    have "\<exists>k3. ps2_mouse_byte sp four dy (k2, inp, old) = (k3, inp, old) \<and> holds k3 [st, dx, dy] n"
      using mouse_byte_wait [OF k2(2), of four dy] assms(2,3) True by simp
    then obtain k3 where k3: "ps2_mouse_byte sp four dy (k2, inp, old) = (k3, inp, old)" "holds k3 [st, dx, dy] n" by blast
    from mouse_byte_packet [OF k3(2) assms(2,3), of w dx dy four w sp inp old] k1(1) k2(1) k3(1) True
    show ?thesis by simp
  qed
qed

lemma mouse_packets:
  "holds k [] n \<Longrightarrow> 4 \<le> n \<Longrightarrow> (\<And>p. p \<in> set ps \<Longrightarrow> packet_ok p) \<Longrightarrow>
     \<exists>k' old'. fold (ps2_mouse_byte sp four) (concat (map (packet_bytes four) ps)) (k, inp, old) =
       (k', fold input_apply (mouse_ops sp old ps) inp, old') \<and> holds k' [] n"
proof (induction ps arbitrary: k inp old)
  case (Cons p ps)
  obtain junk st dx dy w where p: "p = (junk, st, dx, dy, w)" by (cases p)
  with Cons.prems(3) have ok: "\<And>b. b \<in> set junk \<Longrightarrow> \<not> bit b 3" "bit st 3" by force+
  from mouse_junk [OF Cons.prems(1,2) ok(1)] obtain k1 where
    k1: "fold (ps2_mouse_byte sp four) junk (k, inp, old) = (k1, inp, old)" "holds k1 [] n" by metis
  from mouse_packet [OF k1(2) Cons.prems(2) ok(2)] obtain k2 where
    k2: "fold (ps2_mouse_byte sp four) (st # dx # dy # (if four then [w] else [])) (k1, inp, old) =
      (k2, fold input_apply (packet_ops sp old st dx dy) inp, st AND 7)" "holds k2 [] n" by metis
  from Cons.IH [OF k2(2) Cons.prems(2)] Cons.prems(3) k1(1) k2(1)
  show ?case unfolding p by (simp del: fold_simps) 
qed auto

subsection \<open>Interrupt by interrupt\<close>

text \<open>The bytes the next reads of the data port yield.\<close>

definition port_bytes :: "ps2_state \<Rightarrow> u8 list \<Rightarrow> bool" where
  "port_bytes s bs \<longleftrightarrow> (\<forall>i<length bs. io_in s PIC_PS2_IOPORT (io_pos s PIC_PS2_IOPORT + i) = bs ! i)"

lemma port_bytes_Cons:
  "port_bytes s (b # bs) \<longleftrightarrow> fst (inb PIC_PS2_IOPORT s) = b \<and> port_bytes (snd (inb PIC_PS2_IOPORT s)) bs"
  by (auto simp: port_bytes_def nth_Cons' less_Suc_eq_0_disj)

lemma keyboard_interrupts:
  "port_bytes s bs \<Longrightarrow> let s' = (pic_ps2_IRQHandlerK sp g ^^ length bs) s in
     ((ps_mem s', ps_QueueKeyboard s'), ps_input s') =
       fold (ps2_keyboard_byte sp g) bs ((ps_mem s, ps_QueueKeyboard s), ps_input s)"
proof (induction bs arbitrary: s)
  case (Cons b bs)
  let ?s = "pic_ps2_IRQHandlerK sp g s"
  have "port_bytes ?s bs" and "((ps_mem ?s, ps_QueueKeyboard ?s), ps_input ?s) =
      ps2_keyboard_byte sp g b ((ps_mem s, ps_QueueKeyboard s), ps_input s)"
    using Cons.prems by (auto simp: port_bytes_Cons pic_ps2_IRQHandlerK_def inb_def port_bytes_def split: prod.split)
  with Cons.IH [of ?s] show ?case by (simp add: funpow_Suc_right del: funpow.simps)
qed simp

lemma mouse_interrupts:
  "port_bytes s bs \<Longrightarrow> let s' = (pic_ps2_IRQHandlerM sp ^^ length bs) s in
     ((ps_mem s', ps_QueueMouse s'), ps_input s', ps_MouseButtons s') =
       fold (ps2_mouse_byte sp (ps_Mouse4Bytes s)) bs ((ps_mem s, ps_QueueMouse s), ps_input s, ps_MouseButtons s)"
proof (induction bs arbitrary: s)
  case (Cons b bs)
  let ?s = "pic_ps2_IRQHandlerM sp s"
  have "port_bytes ?s bs" and "((ps_mem ?s, ps_QueueMouse ?s), ps_input ?s, ps_MouseButtons ?s) =
      ps2_mouse_byte sp (ps_Mouse4Bytes s) b ((ps_mem s, ps_QueueMouse s), ps_input s, ps_MouseButtons s)"
    and "ps_Mouse4Bytes ?s = ps_Mouse4Bytes s"
    using Cons.prems by (auto simp: port_bytes_Cons pic_ps2_IRQHandlerM_def inb_def port_bytes_def split: prod.split)
  with Cons.IH [of ?s] show ?case by (simp add: funpow_Suc_right del: funpow.simps)
qed simp

lemma keyboard_stays_blocked:
  "holds (ps_mem s, ps_QueueKeyboard s) c n \<Longrightarrow> 0 < n \<Longrightarrow> c \<noteq> [] \<Longrightarrow> undecodable (hd c) \<Longrightarrow>
     ps_input ((pic_ps2_IRQHandlerK sp g ^^ m) s) = ps_input s"
proof (induction m arbitrary: s c)
  case (Suc m)
  let ?s = "pic_ps2_IRQHandlerK sp g s" and ?b = "fst (inb PIC_PS2_IOPORT s)"
  have "undecodable (hd (c @ [?b]))" using Suc.prems(3,4) by simp
  from keyboard_blocked [OF Suc.prems(1,2) this, of sp g "ps_input s"] obtain k' c' where
    "ps2_keyboard_byte sp g ?b ((ps_mem s, ps_QueueKeyboard s), ps_input s) = (k', ps_input s)"
    "holds k' c' n" "c' \<noteq> []" "hd c' = hd c" using Suc.prems(3) by auto
  moreover have "((ps_mem ?s, ps_QueueKeyboard ?s), ps_input ?s) =
      ps2_keyboard_byte sp g ?b ((ps_mem s, ps_QueueKeyboard s), ps_input s)"
    by (auto simp: pic_ps2_IRQHandlerK_def inb_def split: prod.split)
  ultimately have "holds (ps_mem ?s, ps_QueueKeyboard ?s) c' n" "c' \<noteq> []" "undecodable (hd c')"
    "ps_input ?s = ps_input s" using Suc.prems(4) by auto
  with Suc.IH [of ?s c'] Suc.prems(2) show ?case by (simp add: funpow_Suc_right del: funpow.simps)
qed simp

section \<open>Properties\<close>

text \<open>
  C12: when the bytes of a sequence of key codes arrive one interrupt after the other at an idle
  keyboard queue, the input state changes by exactly the presses and releases they stand for, in
  order, and the queue is idle again. The contents of the uninitialised local event do not matter.
\<close>

theorem keyboard_decodes:
  fixes sp :: addr and garbage :: scan_event
  assumes "holds (ps_mem s, ps_QueueKeyboard s) [] n" and "3 \<le> n" and "\<And>t. t \<in> set ts \<Longrightarrow> token_ok t"
    and "port_bytes s (concat (map token_bytes ts))"
  defines "s' \<equiv> (pic_ps2_IRQHandlerK sp garbage ^^ length (concat (map token_bytes ts))) s"
  shows "ps_input s' = fold input_apply (concat (map (token_ops sp) ts)) (ps_input s)
    \<and> holds (ps_mem s', ps_QueueKeyboard s') [] n"
  using keyboard_interrupts [OF assms(4), of sp garbage] keyboard_tokens [OF assms(1-3), where ts = ts and sp = sp and g = garbage and inp = "ps_input s"]
  by (auto simp: s'_def Let_def)

definition demo_ps2 :: "u8 list \<Rightarrow> ps2_state" where
  "demo_ps2 bytes = \<lparr>io_in = (\<lambda>_ i. if i < length bytes then bytes ! i else 0), io_pos = (\<lambda>_. 0), io_out = [],
     pic_IRQHandler = (\<lambda>_. 0), pic_IRQHandler_Data = (\<lambda>_. 0), pic_IRQHandlerRaw = (\<lambda>_. 0), pic_Enabled = True,
     pic_interrupt = \<lparr>im_mem = (\<lambda>_. 0), im_GDTR = (0, 0), im_IDTR = (0, 0), im_Enabled = True\<rparr>,
     pic_rtc_Enabled = False, pic_rtc_IRQHandler = NULL,
     ps_input = demo_input, ps_mem = (\<lambda>_. 0),
     ps_QueueKeyboard = \<lparr>q_data = 0x100, q_size = 64, q_begin = 0x100, q_end = 0x100, q_count = 0\<rparr>,
     ps_QueueMouse = \<lparr>q_data = 0x200, q_size = 256, q_begin = 0x200, q_end = 0x200, q_count = 0\<rparr>,
     ps_HasMouse = False, ps_Mouse4Bytes = False, ps_MouseButtons = 0\<rparr>"

lemma demo_ps2_queues:
  "holds (ps_mem (demo_ps2 bs), ps_QueueKeyboard (demo_ps2 bs)) [] 64"
  "holds (ps_mem (demo_ps2 bs), ps_QueueMouse (demo_ps2 bs)) [] 256"
  "port_bytes (demo_ps2 bs) bs" "ps_input (demo_ps2 bs) = demo_input"
  "ps_Mouse4Bytes (demo_ps2 bs) = False" "ps_MouseButtons (demo_ps2 bs) = 0"
  by (simp_all add: holds_def demo_ps2_def queue_inv_def q_off_def q_cell_def queue_contents_def port_bytes_def)

theorem keyboard_decodes_witness:
  "ps_input ((pic_ps2_IRQHandlerK 0x2000 \<lparr>sc_Type = 7, sc_Key = 8\<rparr> ^^ length [0x2a, 0xe0, 0x48, 0xfa, 0xaa :: u8]) (demo_ps2 [0x2a, 0xe0, 0x48, 0xfa, 0xaa]))
     = fold input_apply [PressKey 0x2000 input_Key_LShift, PressKey 0x2000 input_Key_Up,
         ReleaseKey 0x2000 input_Key_LShift] demo_input"
proof -
  let ?bs = "[0x2a, 0xe0, 0x48, 0xfa, 0xaa]" and ?ts = "[Key 0x2a, Extended 0x48, Ack, Key 0xaa]"
  have "token_ok t" if "t \<in> set ?ts" for t using that by auto
  from keyboard_decodes [OF demo_ps2_queues(1) [of ?bs] _ this, where ts = ?ts and sp = "0x2000" and
      garbage = "\<lparr>sc_Type = 7, sc_Key = 8\<rparr>"]
    demo_ps2_queues(3,4) [of ?bs]
  show ?thesis by (simp add: pic_ps2_KeyScancode1_def ps2_e0_cases_def)
qed

text \<open>
  C40: a byte that starts no key code (such as the answers \<^verbatim>\<open>0xfe\<close> and \<^verbatim>\<open>0xee\<close>, or an overrun, 0)
  stays at the front of the queue for good: from then on no byte of the keyboard has any effect.
\<close>

theorem keyboard_blocked_forever:
  assumes "holds (ps_mem s, ps_QueueKeyboard s) [] n" and "0 < n"
    and "undecodable (fst (inb PIC_PS2_IOPORT s))"
  shows "ps_input ((pic_ps2_IRQHandlerK sp garbage ^^ m) s) = ps_input s"
proof (cases m)
  case (Suc l)
  let ?b = "fst (inb PIC_PS2_IOPORT s)" and ?s = "pic_ps2_IRQHandlerK sp garbage s"
  have s: "((ps_mem ?s, ps_QueueKeyboard ?s), ps_input ?s) =
      ps2_keyboard_byte sp garbage ?b ((ps_mem s, ps_QueueKeyboard s), ps_input s)"
    by (auto simp: pic_ps2_IRQHandlerK_def inb_def split: prod.split)
  obtain k' c' where "ps2_keyboard_byte sp garbage ?b ((ps_mem s, ps_QueueKeyboard s), ps_input s) = (k', ps_input s)"
    "holds k' c' n" "c' \<noteq> []" "undecodable (hd c')"
    using keyboard_blocked [OF assms(1,2), of ?b sp garbage "ps_input s"] assms(3) by auto
  with s keyboard_stays_blocked [of ?s c' n] assms(2) show ?thesis
    by (auto simp: Suc funpow_Suc_right simp del: funpow.simps)
qed simp

theorem keyboard_blocked_forever_witness:
  "ps_input ((pic_ps2_IRQHandlerK 0x2000 \<lparr>sc_Type = 0, sc_Key = 0\<rparr> ^^ 3) (demo_ps2 [0xfe, 0x1e, 0x9e])) = demo_input"
  using keyboard_blocked_forever [where s = "demo_ps2 [0xfe, 0x1e, 0x9e]" and n = 64 and sp = "0x2000" and
      garbage = "\<lparr>sc_Type = 0, sc_Key = 0\<rparr>" and m = 3]
    demo_ps2_queues [of "[0xfe, 0x1e, 0x9e]"]
  by (simp add: undecodable_def demo_ps2_def)

text \<open>
  C11: the mouse handler finds the packets in the bytes that arrive, over stray bytes between them,
  in the 3-byte and in the 4-byte mode, and applies for each the signed move, with the vertical
  direction turned round, and one press or release for each button that changed.
\<close>

theorem mouse_decodes:
  fixes sp :: addr
  assumes "holds (ps_mem s, ps_QueueMouse s) [] n" and "4 \<le> n" and "\<And>p. p \<in> set ps \<Longrightarrow> packet_ok p"
    and "port_bytes s (concat (map (packet_bytes (ps_Mouse4Bytes s)) ps))"
  defines "s' \<equiv> (pic_ps2_IRQHandlerM sp ^^ length (concat (map (packet_bytes (ps_Mouse4Bytes s)) ps))) s"
  shows "ps_input s' = fold input_apply (mouse_ops sp (ps_MouseButtons s) ps) (ps_input s)
    \<and> holds (ps_mem s', ps_QueueMouse s') [] n"
  using mouse_interrupts [OF assms(4), of sp]
    mouse_packets [OF assms(1-3), where ps = ps and sp = sp and four = "ps_Mouse4Bytes s" and inp = "ps_input s" and
      old = "ps_MouseButtons s"]
  by (auto simp: s'_def Let_def)

theorem mouse_decodes_witness:
  "ps_input ((pic_ps2_IRQHandlerM 0x2000 ^^ length [0x01, 0x19, 0xfe, 0x03 :: u8]) (demo_ps2 [0x01, 0x19, 0xfe, 0x03])) =
     fold input_apply [MoveMouse 0x2000 (- 2) (- 3), PressMouse 0x2000 input_MouseButton_Left] demo_input"
proof -
  have b: "bit (25 :: u8) 3" "bit (25 :: u8) 4" "\<not> bit (25 :: u8) 5" "bit (25 :: u8) 0" "\<not> bit (25 :: u8) (Suc 0)"
    "\<not> bit (25 :: u8) 2" "\<not> bit (1 :: u8) 3" by (simp_all add: bit_numeral_rec)
  show ?thesis
    using mouse_decodes [where s = "demo_ps2 [0x01, 0x19, 0xfe, 0x03]" and n = 256 and
        ps = "[([0x01], 0x19, 0xfe, 0x03, 0)]" and sp = "0x2000"]
      demo_ps2_queues [of "[0x01, 0x19, 0xfe, 0x03]"] b
    by (simp add: packet_ops_def packet_dx_def packet_dy_def button_ops_def)
qed

end
