(* ===== verification/Serial.thy ===== *)
theory Serial
  imports Pic Queue "HOL-Library.Signed_Division"
begin

text \<open>
  The serial ports, \<^verbatim>\<open>src/driver/irq/pic/serial/serial.c\<close>. A port is the struct of the code; the
  operations take it and return it with the state of the controller. The address of the input buffer
  is the one the allocator returned; the memory is the kernel's. The condition variable of a port is
  a count of its notifications. The result \<open>None\<close> means that the function does not return: a division
  by zero, or a line that is never ready.
\<close>

section \<open>The code\<close>

definition PIC_SERIAL_DEFAULT_BUFFERSIZE :: u64 where "PIC_SERIAL_DEFAULT_BUFFERSIZE = 16"

record serial_port =
  sp_port :: int
  sp_irq :: int
  sp_ok :: bool
  sp_buffer :: queue_Queue
  sp_notified :: nat

definition serial_no_queue :: queue_Queue where
  "serial_no_queue = \<lparr>q_data = NULL, q_size = 0, q_begin = NULL, q_end = NULL, q_count = 0\<rparr>"

definition pic_serial_COM1 :: serial_port where
  "pic_serial_COM1 = \<lparr>sp_port = 0x3f8, sp_irq = 4, sp_ok = False, sp_buffer = serial_no_queue, sp_notified = 0\<rparr>"

definition pic_serial_COM2 :: serial_port where
  "pic_serial_COM2 = \<lparr>sp_port = 0x2f8, sp_irq = 3, sp_ok = False, sp_buffer = serial_no_queue, sp_notified = 0\<rparr>"

text \<open>A register of the port: the sum is an \<^verbatim>\<open>int\<close>, the argument of \<^verbatim>\<open>inb\<close> and \<^verbatim>\<open>outb\<close> 16 bits.\<close>

definition serial_reg :: "serial_port \<Rightarrow> int \<Rightarrow> u16" where
  "serial_reg port n = of_int (sp_port port + n)"

partial_function (option) pic_serial_IRQHandler ::
  "mem \<Rightarrow> serial_port \<Rightarrow> 'a io_state_scheme \<Rightarrow> (mem \<times> serial_port \<times> 'a io_state_scheme) option" where
  "pic_serial_IRQHandler m port s =
     (let (status, s) = inb (serial_reg port 5) s
      in if status AND 1 \<noteq> 0
         then
           (let (b, s) = inb (serial_reg port 0) s;
                (m, q) = queue_PushByte b (m, sp_buffer port);
                port = port\<lparr>sp_buffer := q, sp_notified := sp_notified port + 1\<rparr>
            in pic_serial_IRQHandler m port s)
         else Some (m, port, s))"

definition pic_serial_Init ::
  "int \<Rightarrow> serial_port \<Rightarrow> 'a io_state_scheme \<Rightarrow> (bool \<times> serial_port \<times> 'a io_state_scheme) option" where
  "pic_serial_Init baudrate port s =
     (if baudrate = 0 then None
      else if 115200 smod baudrate \<noteq> 0 then Some (False, port, s)
      else
        (let divisor = of_int (115200 sdiv baudrate) :: u16;
             s = outb (serial_reg port 3) 0x80 s;
             s = outb (serial_reg port 0) (ucast (divisor AND 0xFF)) s;
             s = outb (serial_reg port 1) (ucast (drop_bit 8 divisor)) s;
             s = outb (serial_reg port 3) 0x03 s;
             s = outb (serial_reg port 2) 0xC7 s;
             s = outb (serial_reg port 4) 0x0B s;
             s = outb (serial_reg port 4) 0x1E s;
             s = outb (serial_reg port 0) 0xAE s;
             (echo, s) = inb (serial_reg port 0) s
         in if echo \<noteq> 0xAE then Some (False, port, s)
            else
              (let s = outb (serial_reg port 4) 0x0F s
               in Some (True, port\<lparr>sp_ok := True\<rparr>, s))))"

text \<open>\<open>buffer\<close>: the block allocated; \<open>self\<close>: the address of the struct; \<open>handler\<close>: that of the handler.\<close>

definition pic_serial_InitInput ::
  "addr \<Rightarrow> addr \<Rightarrow> addr \<Rightarrow> serial_port \<Rightarrow> 'a pic_state_scheme \<Rightarrow> bool \<times> serial_port \<times> 'a pic_state_scheme" where
  "pic_serial_InitInput buffer self handler port s =
     (if sp_irq port \<noteq> 0
      then
        (let port = port\<lparr>sp_buffer := queue_InitBuffered (sp_buffer port) buffer PIC_SERIAL_DEFAULT_BUFFERSIZE\<rparr>;
             port = port\<lparr>sp_notified := 0\<rparr>;
             irq = nat (sp_irq port);
             s = s\<lparr>pic_IRQHandler := (pic_IRQHandler s)(irq := handler)\<rparr>;
             s = s\<lparr>pic_IRQHandler_Data := (pic_IRQHandler_Data s)(irq := self)\<rparr>;
             s = irq_pic_Mask (of_int (sp_irq port)) False s;
             s = outb (serial_reg port 1) 1 s
         in (True, port, s))
      else (False, port, s))"

definition serial_PutByte :: "serial_port \<Rightarrow> u8 \<Rightarrow> 'a io_state_scheme \<Rightarrow> 'a io_state_scheme option" where
  "serial_PutByte port b s = do {
     s \<leftarrow> poll (serial_reg port 5) 0x20 True s;
     Some (outb (serial_reg port 0) b s)
   }"

text \<open>The loop over \<^verbatim>\<open>n\<close> characters, and the loop up to the terminating zero.\<close>

fun serial_Write_n :: "nat \<Rightarrow> mem \<Rightarrow> addr \<Rightarrow> serial_port \<Rightarrow> 'a io_state_scheme \<Rightarrow> 'a io_state_scheme option" where
  "serial_Write_n 0 m str port s = Some s"
| "serial_Write_n (Suc n) m str port s = do {
     s \<leftarrow> serial_PutByte port (m str) s;
     serial_Write_n n m (str + 1) port s
   }"

partial_function (option) serial_Write_z ::
  "mem \<Rightarrow> addr \<Rightarrow> serial_port \<Rightarrow> 'a io_state_scheme \<Rightarrow> 'a io_state_scheme option" where
  "serial_Write_z m str port s =
     (if m str \<noteq> 0 then do { s \<leftarrow> serial_PutByte port (m str) s; serial_Write_z m (str + 1) port s } else Some s)"

definition pic_serial_Write ::
  "mem \<Rightarrow> addr \<Rightarrow> int \<Rightarrow> serial_port option \<Rightarrow> 'a io_state_scheme \<Rightarrow> 'a io_state_scheme option" where
  "pic_serial_Write m str n port s = (case port of None \<Rightarrow> Some s
     | Some port \<Rightarrow>
         if sp_ok port
         then (if n \<noteq> 0 then serial_Write_n (nat n) m str port s else serial_Write_z m str port s)
         else Some s)"

section \<open>Writing\<close>

text \<open>The line is ready again and again, from every point of the sequence of status reads on.\<close>

definition line_ready :: "serial_port \<Rightarrow> 'a io_state_scheme \<Rightarrow> bool" where
  "line_ready port s \<longleftrightarrow> (\<forall>k. \<exists>n\<ge>k. io_in s (serial_reg port 5) n AND 0x20 \<noteq> 0)"

lemma serial_PutByte_ready:
  assumes "line_ready port s"
  shows "\<exists>s'. serial_PutByte port b s = Some s' \<and> io_in s' = io_in s \<and> io_out s' = io_out s @ [(serial_reg port 0, b)]
     \<and> io_state.more s' = io_state.more s"
proof -
  let ?r = "serial_reg port 5"
  obtain n where "io_pos s ?r \<le> n" "io_in s ?r n AND 0x20 \<noteq> 0"
    using assms by (auto simp: line_ready_def)
  then have "poll_end ?r 0x20 True s (n - io_pos s ?r)" by (simp add: poll_end_def)
  then obtain k where "poll ?r 0x20 True s = Some (s\<lparr>io_pos := (io_pos s)(?r := io_pos s ?r + k + 1)\<rparr>)"
    by (rule poll_ends)
  then show ?thesis by (simp add: serial_PutByte_def)
qed

lemma line_ready_cong: "io_in s = io_in s' \<Longrightarrow> line_ready port s = line_ready port s'"
  by (simp add: line_ready_def)

lemma serial_Write_n_ready:
  "line_ready port s \<Longrightarrow> \<exists>s'. serial_Write_n n m str port s = Some s' \<and> io_in s' = io_in s \<and>
     io_out s' = io_out s @ map (Pair (serial_reg port 0)) (bytes_at m str n) \<and> io_state.more s' = io_state.more s"
proof (induction n arbitrary: s str)
  case (Suc n)
  obtain s1 where s1: "serial_PutByte port (m str) s = Some s1" "io_in s1 = io_in s"
    "io_out s1 = io_out s @ [(serial_reg port 0, m str)]" "io_state.more s1 = io_state.more s"
    using serial_PutByte_ready [OF Suc.prems] by blast
  with Suc.IH [of s1 "str + 1"] Suc.prems line_ready_cong [OF s1(2)] show ?case
    by (auto simp: bytes_at_Suc)
qed simp

lemma serial_Write_z_n:
  fixes s :: "'a io_state_scheme"
  shows "(\<And>i. i < n \<Longrightarrow> m (str + of_nat i) \<noteq> 0) \<Longrightarrow> m (str + of_nat n) = 0 \<Longrightarrow>
     serial_Write_z m str port s = serial_Write_n n m str port s"
proof (induction n arbitrary: s str)
  case 0
  then show ?case by (subst serial_Write_z.simps) simp
next
  case (Suc n)
  have "serial_Write_z m (str + 1) port s1 = serial_Write_n n m (str + 1) port s1"
    for s1 :: "'a io_state_scheme"
  proof (rule Suc.IH)
    show "m (str + 1 + of_nat i) \<noteq> 0" if "i < n" for i
      using Suc.prems(1) [of "Suc i"] that by (simp add: add.assoc)
  qed (use Suc.prems(2) in \<open>simp add: add.assoc\<close>)
  then have "serial_Write_z m (str + 1) port = (serial_Write_n n m (str + 1) port :: 'a io_state_scheme \<Rightarrow> _)" by blast
  with Suc.prems(1) [of 0] show ?case by (subst serial_Write_z.simps) simp
qed

lemma serial_PutByte_never:
  assumes "\<And>n. io_pos s (serial_reg port 5) \<le> n \<Longrightarrow> io_in s (serial_reg port 5) n AND 0x20 = 0"
  shows "serial_PutByte port b s = None"
  using assms by (simp add: serial_PutByte_def poll_hangs poll_end_def)

section \<open>Properties\<close>

text \<open>
  A write to a port in use whose line becomes ready again and again returns, and has sent
  exactly the characters asked for in order: \<^verbatim>\<open>n\<close> of them, or those before the terminating zero if
  \<^verbatim>\<open>n\<close> is 0. If the line is never ready again a write of at least one character does not return.
\<close>

theorem serial_Write_transmits:
  assumes "sp_ok port" and "0 \<le> n" and "k = (if n = 0 then zlen else nat n)"
    and "n = 0 \<Longrightarrow> (\<forall>i<zlen. m (str + of_nat i) \<noteq> 0) \<and> m (str + of_nat zlen) = 0"
  shows "(line_ready port s \<longrightarrow> (\<exists>s'. pic_serial_Write m str n (Some port) s = Some s' \<and>
           io_out s' = io_out s @ map (Pair (serial_reg port 0)) (bytes_at m str k)))
    \<and> ((\<forall>i\<ge>io_pos s (serial_reg port 5). io_in s (serial_reg port 5) i AND 0x20 = 0) \<and> 0 < k \<longrightarrow>
           pic_serial_Write m str n (Some port) s = None)"
proof -
  have w: "pic_serial_Write m str n (Some port) s = serial_Write_n k m str port s"
    using assms serial_Write_z_n [of zlen m str port s] by (simp add: pic_serial_Write_def)
  have "\<exists>s'. serial_Write_n k m str port s = Some s' \<and>
      io_out s' = io_out s @ map (Pair (serial_reg port 0)) (bytes_at m str k)" if "line_ready port s"
    using serial_Write_n_ready [OF that] by blast
  moreover have "serial_Write_n k m str port s = None"
    if "\<forall>i\<ge>io_pos s (serial_reg port 5). io_in s (serial_reg port 5) i AND 0x20 = 0" "0 < k"
    using serial_PutByte_never [of s port] that by (cases k) auto
  ultimately show ?thesis unfolding w by blast
qed

definition demo_line :: "nat \<Rightarrow> io_state" where
  "demo_line period = \<lparr>io_in = (\<lambda>_ i. if i mod period = 2 then 0x60 else 0), io_pos = (\<lambda>_. 0), io_out = []\<rparr>"

theorem serial_Write_transmits_witness:
  "\<exists>s'. pic_serial_Write (\<lambda>a. if a < 0x1003 then 0x41 else 0) 0x1000 0 (Some (pic_serial_COM1\<lparr>sp_ok := True\<rparr>)) (demo_line 3)
     = Some s' \<and> io_out s' = [(0x3f8, 0x41), (0x3f8, 0x41), (0x3f8, 0x41)]"
proof -
  let ?m = "\<lambda>a :: addr. if a < 0x1003 then 0x41 else 0 :: u8" and ?p = "pic_serial_COM1\<lparr>sp_ok := True\<rparr>"
  have "\<exists>n\<ge>k. n mod 3 = 2" for k :: nat by (rule exI [of _ "3 * k + 2"]) presburger
  then have ready: "line_ready ?p (demo_line 3)" by (force simp: line_ready_def demo_line_def)
  have "?m (0x1000 + of_nat i) \<noteq> 0" if "i < 3" for i
  proof -
    have "i = 0 \<or> i = 1 \<or> i = 2" using that by auto
    then show ?thesis by (elim disjE) simp_all
  qed
  then have "(\<forall>i<3. ?m (0x1000 + of_nat i) \<noteq> 0) \<and> ?m (0x1000 + of_nat 3) = 0" by simp
  from serial_Write_transmits [where port = ?p and n = 0 and k = 3 and zlen = 3 and m = ?m and str = "0x1000" and
      s = "demo_line 3"] this ready
  show ?thesis
    by (simp add: bytes_at_def upt_rec serial_reg_def pic_serial_COM1_def demo_line_def)
qed

end
