(* ===== verification/Sched.thy ===== *)
theory Sched
  imports Treap Kernel_Memory Interrupt
begin

text \<open>
  The kernel threads of \<^verbatim>\<open>src/smp/kthread.c\<close>, \<^verbatim>\<open>src/smp/kthread_switch.c\<close>,
  \<^verbatim>\<open>src/smp/kthread_switch_asm.S\<close>, \<^verbatim>\<open>src/smp/internal.h\<close> and \<^verbatim>\<open>src/smp/metrics.c\<close>. The three containers
  are used through the contract the theory Treap proves of them: the entries in the order of their
  keys. A thread is the data of a node of \<^verbatim>\<open>__smp_Threads\<close>; the heap maps its address to it, and an
  access to an address with no thread is a fault, the result \<open>None\<close>. What the allocator returns,
  with the uninitialised contents found there, is an argument of the operations that allocate.
  Interrupts are off inside each operation, which is one step of the model.
\<close>

section \<open>The code\<close>

text \<open>The container operations on the list of entries.\<close>

type_synonym 'v ordered = "(u64 \<times> 'v) list"

fun om_insert :: "u64 \<Rightarrow> 'v \<Rightarrow> 'v ordered \<Rightarrow> 'v ordered" where
  "om_insert k v [] = [(k, v)]"
| "om_insert k v ((k', v') # ts) =
     (if k < k' then (k, v) # (k', v') # ts
      else if k = k' then (k, v) # ts
      else (k', v') # om_insert k v ts)"

definition om_delete :: "u64 \<Rightarrow> 'v ordered \<Rightarrow> 'v ordered" where
  "om_delete k ts = filter (\<lambda>e. fst e \<noteq> k) ts"

record smp_thread_State =
  r_rax :: u64
  r_rbx :: u64
  r_rcx :: u64
  r_rdx :: u64
  r_rsi :: u64
  r_rdi :: u64
  r_rbp :: u64
  r_rsp :: u64
  r_r8 :: u64
  r_r9 :: u64
  r_r10 :: u64
  r_r11 :: u64
  r_r12 :: u64
  r_r13 :: u64
  r_r14 :: u64
  r_r15 :: u64
  r_rflags :: u64
  r_rip :: u64
  r_ss :: u16
  r_cs :: u16

datatype smp_Thread_Waiting_Type = Waiting_Condiction | Waiting_Mutex

record smp_Thread_Waiting =
  w_object :: addr
  w_data :: u64
  w_timeout :: u64
  w_type :: smp_Thread_Waiting_Type

text \<open>The pointer to the waiting struct is \<open>None\<close> when null; no two threads share the struct.\<close>

record smp_Thread =
  th_id :: int
  th_nice :: u32
  th_lastTick :: u64
  th_sleepUntil :: u64
  th_wait :: "smp_Thread_Waiting option"
  th_state :: smp_thread_State
  th_stackframe :: u64
  th_process :: u64

record smp_thread_Arguments =
  a_a :: u64
  a_b :: u64
  a_c :: u64
  a_d :: u64
  a_e :: u64
  a_f :: u64

record smp_Mutex =
  m_locked :: u64
  m_waiting :: "addr list"

text \<open>
  The variables of \<^verbatim>\<open>internal.c\<close>, \<^verbatim>\<open>metrics.c\<close> and \<^verbatim>\<open>kthread_switch.c\<close> with the heap, the kernel address
  allocator and page tables, the conditions and mutexes allocated, and the addresses the linker
  gives the two assembly routines. \<^verbatim>\<open>__smp_Count\<close> is 1.
\<close>

record smp_state =
  s_Now :: u64
  s_PauseTicker :: bool
  s_Current :: addr
  s_Idallo :: int
  s_Threads :: "addr ordered"
  s_ThreadsWaiting :: "addr ordered"
  s_StackPool :: "unit ordered"
  s_heap :: "addr \<rightharpoonup> smp_Thread"
  s_LastState :: smp_thread_State
  s_PrevTime :: u64
  s_Tick_Idling :: u64
  s_Tick_Kernel :: u64
  s_Tick_Userspace :: u64
  s_KernelMappingBottom :: u64
  s_paging :: paging_state
  s_conditions :: "addr \<rightharpoonup> addr list"
  s_mutexes :: "addr \<rightharpoonup> smp_Mutex"
  s_Switch_Idle :: addr
  s_EntryPoint :: addr

definition SMP_NICENESS_DEFAULT :: u32 where "SMP_NICENESS_DEFAULT = 80"

definition smp_Thread_Waiting_IsWaiting :: "u64 \<Rightarrow> smp_Thread_Waiting option \<Rightarrow> bool" where
  "smp_Thread_Waiting_IsWaiting now wait = (case wait of None \<Rightarrow> False | Some w \<Rightarrow>
     w_object w \<noteq> NULL \<and> (w_timeout w = 0 \<or> w_timeout w > now))"

subsection \<open>The switch\<close>

definition Switch_blocked :: "smp_state \<Rightarrow> addr \<Rightarrow> bool option" where
  "Switch_blocked s p = do {
     t \<leftarrow> s_heap s p;
     Some (th_sleepUntil t > s_Now s \<or> smp_Thread_Waiting_IsWaiting (s_Now s) (th_wait t))
   }"

text \<open>The loop over the waiting threads; the end of the list is \<open>Some None\<close>.\<close>

fun Switch_first :: "smp_state \<Rightarrow> addr ordered \<Rightarrow> (u64 \<times> addr) option option" where
  "Switch_first s [] = Some None"
| "Switch_first s ((k, p) # ts) = do {
     b \<leftarrow> Switch_blocked s p;
     if b then Switch_first s ts else Some (Some (k, p))
   }"

text \<open>The loop \<^verbatim>\<open>while (!ok)\<close> that looks for a key not in use.\<close>

partial_function (option) Switch_key :: "addr ordered \<Rightarrow> u64 \<Rightarrow> u64 option" where
  "Switch_key ts priority =
     (if priority \<in> fst ` set ts then Switch_key ts (priority + 1) else Some priority)"

definition Switch_count :: "smp_Thread option \<Rightarrow> smp_state \<Rightarrow> smp_state" where
  "Switch_count t s =
     (let deltaTick = s_Now s - s_PrevTime s;
          s = (case t of
                 None \<Rightarrow> s\<lparr>s_Tick_Idling := s_Tick_Idling s + deltaTick\<rparr>
               | Some t \<Rightarrow>
                   if ucast (r_cs (th_state t)) = GDT_EXEC_RING3_SELECTOR
                   then s\<lparr>s_Tick_Userspace := s_Tick_Userspace s + deltaTick\<rparr>
                   else s\<lparr>s_Tick_Kernel := s_Tick_Kernel s + deltaTick\<rparr>)
      in s\<lparr>s_PrevTime := s_Now s\<rparr>)"

definition Switch_priority :: "smp_Thread option \<Rightarrow> smp_state \<Rightarrow> u64" where
  "Switch_priority t s = (case t of
       None \<Rightarrow> - 1
     | Some t \<Rightarrow> ucast (th_nice t) + (if th_lastTick t > s_Now s then th_lastTick t else s_Now s))"

definition Switch_save :: "smp_Thread option \<Rightarrow> smp_state \<Rightarrow> smp_state option" where
  "Switch_save t s = (case t of
       None \<Rightarrow> Some s
     | Some t \<Rightarrow> do {
         let priority = Switch_priority (Some t) s;
         let s = s\<lparr>s_heap := (s_heap s)(s_Current s \<mapsto> t\<lparr>th_lastTick := s_Now s, th_state := s_LastState s\<rparr>)\<rparr>;
         k \<leftarrow> Switch_key (s_ThreadsWaiting s) priority;
         Some (s\<lparr>s_ThreadsWaiting := om_insert k (s_Current s) (s_ThreadsWaiting s)\<rparr>)
       })"

definition Switch_load :: "(u64 \<times> addr) option \<Rightarrow> smp_state \<Rightarrow> smp_state option" where
  "Switch_load first s = (case first of
       None \<Rightarrow> Some (s\<lparr>s_LastState := (s_LastState s)\<lparr>r_rip := s_Switch_Idle s,
                                r_rflags := r_rflags (s_LastState s) OR push_bit 9 1\<rparr>,
                      s_Current := NULL\<rparr>)
     | Some (k, p) \<Rightarrow> do {
         t \<leftarrow> s_heap s p;
         Some (s\<lparr>s_LastState := th_state t, s_Current := p,
                 s_ThreadsWaiting := om_delete k (s_ThreadsWaiting s)\<rparr>)
       })"

definition smp_Switch :: "smp_state \<Rightarrow> (u64 \<times> smp_state) option" where
  "smp_Switch s = do {
     t \<leftarrow> (if s_Current s = NULL then Some None else map_option Some (s_heap s (s_Current s)));
     let s = Switch_count t s;
     let priority = Switch_priority t s;
     first \<leftarrow> Switch_first s (s_ThreadsWaiting s);
     stay \<leftarrow> (case first of
         None \<Rightarrow> Some False
       | Some (k, p) \<Rightarrow> do { b \<leftarrow> Switch_blocked s p; Some (\<not> b \<and> k > priority) });
     if stay then Some (0, s)
     else do {
       s \<leftarrow> Switch_save t s;
       s \<leftarrow> Switch_load first s;
       Some (1, s)
     }
   }"

text \<open>
  The interrupt handler, on the registers of the interrupted program. It ends with \<^verbatim>\<open>iret\<close> to the
  registers returned.
\<close>

definition IntSwitch_realcall :: "smp_thread_State \<Rightarrow> smp_state \<Rightarrow> (smp_thread_State \<times> smp_state) option" where
  "IntSwitch_realcall cpu s = do {
     (r, s) \<leftarrow> smp_Switch (s\<lparr>s_LastState := cpu\<rparr>);
     Some (s_LastState s, s)
   }"

definition smp_IntSwitch :: "smp_thread_State \<Rightarrow> smp_state \<Rightarrow> (smp_thread_State \<times> smp_state) option" where
  "smp_IntSwitch cpu s =
     (let s = s\<lparr>s_LastState := (s_LastState s)\<lparr>r_rax := r_rax cpu\<rparr>\<rparr> in
      if \<not> s_PauseTicker s
      then (let s = s\<lparr>s_Now := s_Now s + 1\<rparr> in
            if s_Now s AND 3 = 0 then IntSwitch_realcall cpu s else Some (cpu, s))
      else IntSwitch_realcall cpu (s\<lparr>s_PauseTicker := False\<rparr>))"

text \<open>\<^verbatim>\<open>int 0x28\<close> enters the handler with the registers of the caller.\<close>

definition smp_thread_Yield :: "smp_thread_State \<Rightarrow> smp_state \<Rightarrow> (smp_thread_State \<times> smp_state) option" where
  "smp_thread_Yield cpu s = smp_IntSwitch cpu (s\<lparr>s_PauseTicker := True\<rparr>)"

subsection \<open>Threads\<close>

text \<open>
  The node of \<^verbatim>\<open>__smp_Threads\<close> with the id, at the address \<open>new\<close> with the contents \<open>garbage\<close> when
  there was none. Converting an \<^verbatim>\<open>int\<close> to a key extends its sign.
\<close>

definition Threads_node :: "addr \<Rightarrow> smp_Thread \<Rightarrow> int \<Rightarrow> smp_state \<Rightarrow> addr \<times> smp_state" where
  "Threads_node new garbage tid s = (case map_of (s_Threads s) (of_int tid) of
       Some p \<Rightarrow> (p, s)
     | None \<Rightarrow> (new, s\<lparr>s_Threads := om_insert (of_int tid) new (s_Threads s),
                      s_heap := (s_heap s)(new \<mapsto> garbage)\<rparr>))"

definition smp_thread_Init ::
  "addr \<Rightarrow> smp_Thread \<Rightarrow> smp_Thread_Waiting \<Rightarrow> smp_state \<Rightarrow> (int \<times> smp_state) option" where
  "smp_thread_Init new garbage wait s =
     (let s = s\<lparr>s_Threads := [], s_ThreadsWaiting := [], s_StackPool := [], s_Now := 1\<rparr>;
          tid = s32 (s_Idallo s + 1);
          s = s\<lparr>s_Idallo := tid\<rparr>;
          (p, s) = Threads_node new garbage tid s in
      do {
        t \<leftarrow> s_heap s p;
        let t = t\<lparr>th_nice := SMP_NICENESS_DEFAULT, th_id := tid, th_lastTick := 1, th_sleepUntil := 0,
                  th_wait := Some wait, th_process := NULL\<rparr>;
        Some (tid, s\<lparr>s_heap := (s_heap s)(p \<mapsto> t), s_Current := p\<rparr>)
      })"

text \<open>The registers a thread starts with; those not set here are what the allocator left.\<close>

definition Start_state ::
  "addr \<Rightarrow> u64 \<Rightarrow> smp_thread_Arguments option \<Rightarrow> smp_thread_State \<Rightarrow> smp_thread_State" where
  "Start_state ep entry args r =
     (let r = r\<lparr>r_cs := ucast GDT_EXEC_SELECTOR, r_ss := ucast GDT_DATA_SELECTOR, r_rip := ep, r_rax := entry\<rparr> in
      case args of None \<Rightarrow> r
      | Some a \<Rightarrow> r\<lparr>r_rdi := a_a a, r_rsi := a_b a, r_rdx := a_c a, r_rcx := a_d a, r_r8 := a_e a, r_r9 := a_f a\<rparr>)"

text \<open>The stack: the first of the pool, or a new page below the last kernel mapping.\<close>

definition Start_stack :: "smp_state \<Rightarrow> (u64 \<times> smp_state) option" where
  "Start_stack s = (case s_StackPool s of
       (k, _) # _ \<Rightarrow> Some (k + 4096, s\<lparr>s_StackPool := om_delete k (s_StackPool s)\<rparr>)
     | [] \<Rightarrow> (let (newstack, bottom) = memory_AllocateKernelMapping 4096 4096 (s_KernelMappingBottom s) in do {
         pg \<leftarrow> paging_map_PageAllocated newstack 1 (MAP_PROT_READ OR MAP_PROT_WRITE) (s_paging s);
         Some (newstack + 4096, s\<lparr>s_KernelMappingBottom := bottom, s_paging := pg\<rparr>)
       }))"

definition smp_thread_Start ::
  "addr \<Rightarrow> smp_Thread \<Rightarrow> smp_Thread_Waiting \<Rightarrow> u64 \<Rightarrow> smp_thread_Arguments option \<Rightarrow> u32 \<Rightarrow>
     smp_state \<Rightarrow> (int \<times> smp_state) option" where
  "smp_thread_Start new garbage wait entry args nice s =
     (let tid = s32 (s_Idallo s + 1);
          s = s\<lparr>s_Idallo := tid\<rparr>;
          (p, s) = Threads_node new garbage tid s in
      do {
        t \<leftarrow> s_heap s p;
        let t = t\<lparr>th_nice := nice, th_id := tid, th_lastTick := s_Now s, th_sleepUntil := 0,
                  th_wait := Some wait, th_process := NULL,
                  th_state := Start_state (s_EntryPoint s) entry args (th_state t)\<rparr>;
        (stack, s) \<leftarrow> Start_stack s;
        let t = t\<lparr>th_stackframe := stack, th_state := (th_state t)\<lparr>r_rsp := stack\<rparr>\<rparr>;
        let s = s\<lparr>s_heap := (s_heap s)(p \<mapsto> t)\<rparr>;
        Some (tid, s\<lparr>s_ThreadsWaiting :=
                     om_insert (th_lastTick t + ucast (th_nice t)) p (s_ThreadsWaiting s)\<rparr>)
      })"

definition smp_thread_Nice :: "int \<Rightarrow> int \<Rightarrow> smp_state \<Rightarrow> (int \<times> smp_state) option" where
  "smp_thread_Nice tid newnice s = (case map_of (s_Threads s) (of_int tid) of
       None \<Rightarrow> Some (- 1, s)
     | Some p \<Rightarrow> do {
         t \<leftarrow> s_heap s p;
         if newnice < 0 then Some (s32 (uint (th_nice t)), s)
         else Some (s32 (uint (th_nice t)), s\<lparr>s_heap := (s_heap s)(p \<mapsto> t\<lparr>th_nice := of_int newnice\<rparr>)\<rparr>)
       })"

definition Sleep_request :: "int \<Rightarrow> smp_state \<Rightarrow> smp_state option" where
  "Sleep_request ticks s = do {
     t \<leftarrow> s_heap s (s_Current s);
     Some (s\<lparr>s_heap := (s_heap s)(s_Current s \<mapsto> t\<lparr>th_sleepUntil := s_Now s + of_int ticks\<rparr>)\<rparr>)
   }"

definition smp_thread_Sleep ::
  "int \<Rightarrow> smp_thread_State \<Rightarrow> smp_state \<Rightarrow> (smp_thread_State \<times> smp_state) option" where
  "smp_thread_Sleep ticks cpu s = do { s \<leftarrow> Sleep_request ticks s; smp_thread_Yield cpu s }"

text \<open>
  The end of a thread. \<^verbatim>\<open>t->stackframe\<close> is read after the node that holds \<open>t\<close> is freed: the value
  found in the freed memory is the argument \<open>stale\<close>.
\<close>

definition Cleanup_remove :: "u64 \<Rightarrow> smp_state \<Rightarrow> smp_state option" where
  "Cleanup_remove stale s = do {
     t \<leftarrow> s_heap s (s_Current s);
     p \<leftarrow> map_of (s_Threads s) (of_int (th_id t));
     Some (s\<lparr>s_Threads := om_delete (of_int (th_id t)) (s_Threads s), s_heap := (s_heap s)(p := None),
             s_Current := NULL, s_StackPool := om_insert stale () (s_StackPool s)\<rparr>)
   }"

definition smp_thread_Cleanup ::
  "u64 \<Rightarrow> smp_thread_State \<Rightarrow> smp_state \<Rightarrow> (smp_thread_State \<times> smp_state) option" where
  "smp_thread_Cleanup stale cpu s = do { s \<leftarrow> Cleanup_remove stale s; smp_thread_Yield cpu s }"

section \<open>The ordered containers\<close>

definition om_ok :: "'v ordered \<Rightarrow> bool" where
  "om_ok ts \<longleftrightarrow> sorted_wrt (<) (map fst ts)"

lemma om_ok_simps [simp]:
  "om_ok []" "om_ok ((k, v) # ts) \<longleftrightarrow> (\<forall>e \<in> set ts. k < fst e) \<and> om_ok ts"
  by (simp_all add: om_ok_def)

text \<open>They are the abstract view of the container: insertion and deletion act on the entries alike.\<close>

definition om_of :: "'v entry list \<Rightarrow> 'v ordered" where
  "om_of xs = map (\<lambda>e. (e_key e, e_data e)) xs"

lemma om_of_ins_list: "e_key e \<notin> set (keys xs) \<Longrightarrow> om_of (ins_list e xs) = om_insert (e_key e) (e_data e) (om_of xs)"
  by (induction xs) (auto simp: om_of_def neq_iff)

lemma om_of_delete:
  assumes "sorted_keys (xs @ e # ys)"
  shows "om_delete (e_key e) (om_of (xs @ e # ys)) = om_of (xs @ ys)"
proof -
  have "filter (\<lambda>x. e_key x \<noteq> e_key e) xs = xs" "filter (\<lambda>x. e_key x \<noteq> e_key e) ys = ys"
    using assms by (auto simp: filter_id_conv sorted_wrt_append)
  then show ?thesis by (simp add: om_delete_def om_of_def filter_map o_def)
qed

lemma om_ok_of: "om_ok (om_of xs) \<longleftrightarrow> sorted_keys xs"
  by (simp add: om_ok_def om_of_def o_def)

lemma set_om_insert: "k \<notin> fst ` set ts \<Longrightarrow> set (om_insert k v ts) = insert (k, v) (set ts)"
  by (induction k v ts rule: om_insert.induct) auto

lemma keys_om_insert [simp]: "fst ` set (om_insert k v ts) = insert k (fst ` set ts)"
  by (induction k v ts rule: om_insert.induct) auto

lemma om_ok_insert [simp]: "om_ok ts \<Longrightarrow> om_ok (om_insert k v ts)"
proof (induction k v ts rule: om_insert.induct)
  case (2 k v k' v' ts)
  have "k' < fst e" if "e \<in> set (om_insert k v ts)" "k' < k" for e
  proof -
    have "fst e \<in> insert k (fst ` set ts)" using that(1) keys_om_insert [of k v ts] by blast
    with 2(2) that(2) show ?thesis by auto
  qed
  with 2 show ?case by auto
qed simp

lemma mset_om_insert: "k \<notin> fst ` set ts \<Longrightarrow> image_mset snd (mset (om_insert k v ts)) = add_mset v (image_mset snd (mset ts))"
  by (induction k v ts rule: om_insert.induct) auto

lemma distinct_om_insert:
  "k \<notin> fst ` set ts \<Longrightarrow> distinct (map snd (om_insert k v ts)) \<longleftrightarrow> v \<notin> snd ` set ts \<and> distinct (map snd ts)"
  by (subst mset_eq_imp_distinct_iff [of _ "v # map snd ts"]) (simp_all add: mset_om_insert)

lemma set_om_delete [simp]: "set (om_delete k ts) = {e \<in> set ts. fst e \<noteq> k}"
  by (auto simp: om_delete_def)

lemma om_ok_delete [simp]: "om_ok ts \<Longrightarrow> om_ok (om_delete k ts)"
  by (induction ts) (auto simp: om_delete_def)

lemma distinct_om_delete [simp]: "distinct (map snd ts) \<Longrightarrow> distinct (map snd (om_delete k ts))"
  by (simp add: om_delete_def distinct_map_filter)

lemma om_ok_keys: "om_ok ts \<Longrightarrow> (k, v) \<in> set ts \<Longrightarrow> (k, v') \<in> set ts \<Longrightarrow> v = v'"
  by (induction ts) force+

lemma distinct_values: "distinct (map snd ts) \<Longrightarrow> (k, v) \<in> set ts \<Longrightarrow> (k', v) \<in> set ts \<Longrightarrow> k = k'"
  by (induction ts) force+

lemma om_ok_lookup: "om_ok ts \<Longrightarrow> map_of ts k = Some v \<longleftrightarrow> (k, v) \<in> set ts"
  by (rule map_of_eq_Some_iff) (simp add: om_ok_def strict_sorted_iff)

lemma om_delete_entry:
  "om_ok ts \<Longrightarrow> (k, v) \<in> set ts \<Longrightarrow> set (om_delete k ts) = set ts - {(k, v)}"
  by (auto dest: om_ok_keys)

text \<open>With fewer than all keys in use the search for a free one ends.\<close>

lemma Switch_key_ends:
  assumes "length ts < 2 ^ 64"
  shows "\<exists>k. Switch_key ts p = Some k \<and> k \<notin> fst ` set ts"
proof -
  have "card (fst ` set ts) < card (UNIV :: u64 set)"
    using le_less_trans [OF le_trans [OF card_image_le [OF finite_set] card_length] assms]
    by (simp add: card_word)
  then obtain f :: u64 where "f \<notin> fst ` set ts"
    using card_mono [of "fst ` set ts" UNIV] by (metis UNIV_I finite_set finite_imageI not_less subsetI)
  then show ?thesis
  proof (induction "unat (f - p)" arbitrary: p)
    case 0
    then have "p = f" by (simp add: unat_eq_0)
    with 0 show ?case by (subst Switch_key.simps) auto
  next
    case (Suc n)
    then have "f - p \<noteq> 0" by auto
    from unat_minus_one [OF this] Suc(2) have "n = unat (f - p - 1)" by simp
    then have n: "n = unat (f - (p + 1))" by (simp add: algebra_simps)
    from Suc(1) [OF n Suc(3)] show ?case by (subst Switch_key.simps) auto
  qed
qed

lemma Switch_key_free: "p \<notin> fst ` set ts \<Longrightarrow> Switch_key ts p = Some p"
  by (subst Switch_key.simps) simp

section \<open>The invariant\<close>

text \<open>
  No thread is lost and none is held twice: the current thread and the waiting ones are distinct
  and are exactly the threads allocated, each of which is found in \<^verbatim>\<open>__smp_Threads\<close> under its id.
\<close>

definition live_threads :: "smp_state \<Rightarrow> addr list" where
  "live_threads s = (if s_Current s = NULL then [] else [s_Current s]) @ map snd (s_ThreadsWaiting s)"

definition smp_inv :: "smp_state \<Rightarrow> bool" where
  "smp_inv s \<longleftrightarrow> om_ok (s_Threads s) \<and> om_ok (s_ThreadsWaiting s) \<and>
     distinct (live_threads s) \<and> set (live_threads s) = dom (s_heap s) \<and> s_heap s NULL = None \<and>
     distinct (map snd (s_Threads s)) \<and> snd ` set (s_Threads s) = dom (s_heap s) \<and>
     (\<forall>(k, p) \<in> set (s_Threads s). \<forall>t. s_heap s p = Some t \<longrightarrow> k = of_int (th_id t))"

lemma smp_inv_live: "smp_inv s \<Longrightarrow> p \<in> set (live_threads s) \<longleftrightarrow> (\<exists>t. s_heap s p = Some t)"
  by (simp add: smp_inv_def dom_def)

lemma smp_inv_waiting:
  "smp_inv s \<Longrightarrow> (k, p) \<in> set (s_ThreadsWaiting s) \<Longrightarrow> \<exists>t. s_heap s p = Some t"
  using smp_inv_live [of s p] by (force simp: live_threads_def)

lemma smp_inv_current: "smp_inv s \<Longrightarrow> s_Current s \<noteq> NULL \<Longrightarrow> \<exists>t. s_heap s (s_Current s) = Some t"
  using smp_inv_live [of s "s_Current s"] by (simp add: live_threads_def)

lemma smp_inv_null: "smp_inv s \<Longrightarrow> NULL \<notin> snd ` set (s_ThreadsWaiting s)"
  using smp_inv_live [of s NULL] by (auto simp: smp_inv_def live_threads_def)

lemma smp_inv_current_not_waiting:
  assumes "smp_inv s" and "s_Current s \<noteq> NULL" and "(k, p) \<in> set (s_ThreadsWaiting s)"
  shows "p \<noteq> s_Current s"
proof -
  have "distinct (live_threads s)" using assms(1) by (simp add: smp_inv_def)
  then have "s_Current s \<notin> snd ` set (s_ThreadsWaiting s)" using assms(2) by (simp add: live_threads_def)
  then show ?thesis using assms(3) by force
qed

lemma smp_inv_length:
  assumes "smp_inv s"
  shows "length (s_ThreadsWaiting s) < 2 ^ 64"
proof -
  have "distinct (map snd (s_ThreadsWaiting s))" using assms by (simp add: smp_inv_def live_threads_def)
  from distinct_card [OF this] have "length (s_ThreadsWaiting s) = card (snd ` set (s_ThreadsWaiting s))" by simp
  also have "\<dots> < card (UNIV :: u64 set)" using smp_inv_null [OF assms] by (intro psubset_card_mono) auto
  finally show ?thesis by (simp add: card_word)
qed

text \<open>Only the containers, the current thread and the heap matter for it.\<close>

lemma smp_inv_cong:
  "s_Current s' = s_Current s \<Longrightarrow> s_Threads s' = s_Threads s \<Longrightarrow>
   s_ThreadsWaiting s' = s_ThreadsWaiting s \<Longrightarrow> s_heap s' = s_heap s \<Longrightarrow> smp_inv s' \<longleftrightarrow> smp_inv s"
  by (simp add: smp_inv_def live_threads_def)

text \<open>Changing a thread in place keeps it, as long as the id stays.\<close>

lemma smp_inv_update:
  assumes "smp_inv s" and "s_heap s p = Some t" and "th_id t' = th_id t"
    and "s_Current s' = s_Current s" "s_Threads s' = s_Threads s" "s_ThreadsWaiting s' = s_ThreadsWaiting s"
    and "s_heap s' = (s_heap s)(p \<mapsto> t')"
  shows "smp_inv s'"
proof -
  have "dom (s_heap s') = dom (s_heap s)" using assms(2, 7) by auto
  moreover have "p \<noteq> NULL" using assms(1, 2) by (auto simp: smp_inv_def)
  ultimately show ?thesis using assms unfolding smp_inv_def live_threads_def by (auto split: if_splits)
qed

section \<open>The switch\<close>

definition runnable :: "smp_state \<Rightarrow> addr \<Rightarrow> bool" where
  "runnable s p = (Switch_blocked s p = Some False)"

lemma Switch_blocked_eq:
  "s_heap s p = Some t \<Longrightarrow> Switch_blocked s p = Some (\<not> runnable s p)"
  by (simp add: runnable_def Switch_blocked_def)

text \<open>The search returns the first runnable entry of the list.\<close>

lemma Switch_first_find:
  "(\<And>k p. (k, p) \<in> set ts \<Longrightarrow> \<exists>t. s_heap s p = Some t) \<Longrightarrow>
   Switch_first s ts = Some (find (\<lambda>(k, p). runnable s p) ts)"
proof (induction ts)
  case (Cons e ts)
  obtain k p where e: "e = (k, p)" by (cases e)
  obtain t where "s_heap s p = Some t" using Cons.prems [of k p] e by auto
  moreover have "Switch_first s ts = Some (find (\<lambda>(k, p). runnable s p) ts)"
    using Cons.prems by (intro Cons.IH) auto
  ultimately show ?case by (simp add: e Switch_blocked_eq)
qed simp

lemma find_ordered:
  assumes "om_ok ts" and "find P ts = Some (k, p)"
  shows "(k, p) \<in> set ts \<and> P (k, p) \<and> (\<forall>(k', p') \<in> set ts. P (k', p') \<longrightarrow> k \<le> k')"
  using assms by (induction ts) (auto split: if_splits intro: less_imp_le)

lemma Switch_count_simps [simp]:
  "s_Current (Switch_count t s) = s_Current s" "s_Threads (Switch_count t s) = s_Threads s"
  "s_ThreadsWaiting (Switch_count t s) = s_ThreadsWaiting s" "s_heap (Switch_count t s) = s_heap s"
  "s_Now (Switch_count t s) = s_Now s" "s_LastState (Switch_count t s) = s_LastState s"
  "s_Switch_Idle (Switch_count t s) = s_Switch_Idle s"
  by (simp_all add: Switch_count_def Let_def split: option.splits if_splits)

lemma Switch_count_blocked [simp]: "Switch_blocked (Switch_count t s) = Switch_blocked s"
  by (simp add: Switch_blocked_def fun_eq_iff)

lemma Switch_count_first [simp]: "Switch_first (Switch_count t s) ts = Switch_first s ts"
proof (induction ts)
  case (Cons e ts)
  then show ?case by (cases e) (cases "Switch_blocked s (snd e)"; simp)
qed simp

lemma Switch_count_priority [simp]: "Switch_priority t (Switch_count t' s) = Switch_priority t s"
  by (cases t) (simp_all add: Switch_priority_def)

text \<open>
  The contract of the switch. It keeps the current thread when every runnable waiting thread has a
  larger key than the new priority of the current one, and there is one. Otherwise it saves the
  current thread under a free key and loads the runnable thread with the least key, or the idle
  loop when there is none.
\<close>

definition current_thread :: "smp_state \<Rightarrow> smp_Thread option" where
  "current_thread s = (if s_Current s = NULL then None else s_heap s (s_Current s))"

definition ready_threads :: "smp_state \<Rightarrow> (u64 \<times> addr) set" where
  "ready_threads s = {(k, p). (k, p) \<in> set (s_ThreadsWaiting s) \<and> runnable s p}"

definition switch_saves :: "smp_state \<Rightarrow> (u64 \<times> addr) set \<Rightarrow> smp_state \<Rightarrow> bool" where
  "switch_saves s saved s' = (case current_thread s of
       None \<Rightarrow> saved = {} \<and> s_heap s' = s_heap s
     | Some t \<Rightarrow> \<exists>k. k \<notin> fst ` set (s_ThreadsWaiting s) \<and> saved = {(k, s_Current s)} \<and>
         s_heap s' = (s_heap s)(s_Current s \<mapsto> t\<lparr>th_lastTick := s_Now s, th_state := s_LastState s\<rparr>))"

definition switch_spec :: "smp_state \<Rightarrow> u64 \<Rightarrow> smp_state \<Rightarrow> bool" where
  "switch_spec s r s' \<longleftrightarrow>
     (if ready_threads s \<noteq> {} \<and> (\<forall>(k, p) \<in> ready_threads s. Switch_priority (current_thread s) s < k)
      then r = 0 \<and> s_Current s' = s_Current s \<and> s_ThreadsWaiting s' = s_ThreadsWaiting s \<and>
        s_heap s' = s_heap s \<and> s_LastState s' = s_LastState s
      else r = 1 \<and> (\<exists>saved. switch_saves s saved s' \<and>
        (if ready_threads s = {}
         then s_Current s' = NULL \<and> r_rip (s_LastState s') = s_Switch_Idle s \<and>
           set (s_ThreadsWaiting s') = set (s_ThreadsWaiting s) \<union> saved
         else \<exists>k p t. (k, p) \<in> ready_threads s \<and> (\<forall>(k', p') \<in> ready_threads s. k \<le> k') \<and>
           s_Current s' = p \<and> s_heap s p = Some t \<and> s_LastState s' = th_state t \<and>
           set (s_ThreadsWaiting s') = set (s_ThreadsWaiting s) \<union> saved - {(k, p)})))"

lemma Switch_count_spec [simp]:
  "current_thread (Switch_count t s) = current_thread s" "switch_saves (Switch_count t s) = switch_saves s"
proof -
  show c: "current_thread (Switch_count t s) = current_thread s" by (simp add: current_thread_def)
  show "switch_saves (Switch_count t s) = switch_saves s"
    by (cases "current_thread s") (simp_all add: switch_saves_def c fun_eq_iff)
qed

text \<open>Saving puts the current thread back among the waiting ones.\<close>

definition saved_at :: "u64 \<Rightarrow> smp_Thread \<Rightarrow> smp_state \<Rightarrow> smp_state" where
  "saved_at k t s = s\<lparr>s_heap := (s_heap s)(s_Current s \<mapsto> t\<lparr>th_lastTick := s_Now s, th_state := s_LastState s\<rparr>),
     s_ThreadsWaiting := om_insert k (s_Current s) (s_ThreadsWaiting s)\<rparr>"

lemma saved_at_simps [simp]:
  "s_heap (saved_at k t s) = (s_heap s)(s_Current s \<mapsto> t\<lparr>th_lastTick := s_Now s, th_state := s_LastState s\<rparr>)"
  "s_ThreadsWaiting (saved_at k t s) = om_insert k (s_Current s) (s_ThreadsWaiting s)"
  "s_LastState (saved_at k t s) = s_LastState s" "s_Switch_Idle (saved_at k t s) = s_Switch_Idle s"
  "s_Threads (saved_at k t s) = s_Threads s" "s_Current (saved_at k t s) = s_Current s"
  by (simp_all add: saved_at_def)

lemma Switch_save_current:
  assumes "smp_inv s"
  shows "\<exists>k. k \<notin> fst ` set (s_ThreadsWaiting s) \<and> Switch_save (Some t) s = Some (saved_at k t s)"
  using Switch_key_ends [OF smp_inv_length [OF assms], of "Switch_priority (Some t) s"]
  by (auto simp: Switch_save_def saved_at_def)

lemma saved_at_inv:
  assumes inv: "smp_inv s" and cur: "s_Current s \<noteq> NULL" "s_heap s (s_Current s) = Some t"
    and k: "k \<notin> fst ` set (s_ThreadsWaiting s)"
  shows "smp_inv ((saved_at k t s)\<lparr>s_Current := NULL\<rparr>)"
proof -
  let ?s' = "(saved_at k t s)\<lparr>s_Current := NULL\<rparr>"
  have "dom (s_heap ?s') = dom (s_heap s)" using cur by auto
  moreover have "set (live_threads ?s') = set (live_threads s)"
    using k cur(1) by (auto simp: live_threads_def set_om_insert)
  moreover have "distinct (live_threads ?s')"
    using inv cur(1) k by (simp add: live_threads_def distinct_om_insert smp_inv_def)
  ultimately show ?thesis using inv cur unfolding smp_inv_def by (auto split: if_splits)
qed

text \<open>Loading takes the chosen thread from the waiting ones.\<close>

definition loaded :: "(u64 \<times> addr) option \<Rightarrow> (addr \<rightharpoonup> smp_Thread) \<Rightarrow> (u64 \<times> addr) set \<Rightarrow> addr \<Rightarrow> smp_state \<Rightarrow> bool" where
  "loaded first h waiting idle s' = (case first of
       None \<Rightarrow> s_Current s' = NULL \<and> r_rip (s_LastState s') = idle \<and> set (s_ThreadsWaiting s') = waiting
     | Some (k, p) \<Rightarrow> s_Current s' = p \<and> (\<exists>t. h p = Some t \<and> s_LastState s' = th_state t) \<and>
         set (s_ThreadsWaiting s') = waiting - {(k, p)})"

lemma Switch_load_inv:
  assumes inv: "smp_inv (s\<lparr>s_Current := NULL\<rparr>)"
    and first: "\<And>k p. first = Some (k, p) \<Longrightarrow> (k, p) \<in> set (s_ThreadsWaiting s)"
  shows "\<exists>s'. Switch_load first s = Some s' \<and> smp_inv s' \<and> s_heap s' = s_heap s \<and>
    loaded first (s_heap s) (set (s_ThreadsWaiting s)) (s_Switch_Idle s) s'"
proof (cases first)
  case None
  let ?s' = "s\<lparr>s_LastState := (s_LastState s)\<lparr>r_rip := s_Switch_Idle s,
     r_rflags := r_rflags (s_LastState s) OR push_bit 9 1\<rparr>, s_Current := NULL\<rparr>"
  have "smp_inv ?s'" by (rule smp_inv_cong [THEN iffD2, OF _ _ _ _ inv]) simp_all
  with None show ?thesis by (simp add: Switch_load_def loaded_def)
next
  case (Some e)
  obtain k p where e: "e = (k, p)" by (cases e)
  have kp: "(k, p) \<in> set (s_ThreadsWaiting s)" using first Some e by simp
  obtain t where t: "s_heap s p = Some t" using smp_inv_waiting [OF inv, of k p] kp by auto
  let ?s' = "s\<lparr>s_LastState := th_state t, s_Current := p, s_ThreadsWaiting := om_delete k (s_ThreadsWaiting s)\<rparr>"
  have w: "om_ok (s_ThreadsWaiting s)" "distinct (map snd (s_ThreadsWaiting s))"
    using inv by (simp_all add: smp_inv_def live_threads_def)
  have "p \<noteq> NULL" using smp_inv_null [OF inv] kp by force
  moreover have "set (live_threads ?s') = set (live_threads (s\<lparr>s_Current := NULL\<rparr>))"
    using kp \<open>p \<noteq> NULL\<close>
    by (simp add: live_threads_def om_delete_entry [OF w(1) kp] del: set_om_delete) force
  moreover have "p \<notin> snd ` set (om_delete k (s_ThreadsWaiting s))"
    by (auto dest: distinct_values [OF w(2) kp])
  then have "distinct (live_threads ?s')" using w(2) by (simp add: live_threads_def)
  ultimately have "smp_inv ?s'" using inv w(1) unfolding smp_inv_def by simp
  with Some e t show ?thesis
    by (simp add: Switch_load_def loaded_def om_delete_entry [OF w(1) kp] del: set_om_delete)
qed

lemma current_thread_eq:
  "smp_inv s \<Longrightarrow> (if s_Current s = NULL then Some None else map_option Some (s_heap s (s_Current s))) =
     Some (current_thread s)"
  using smp_inv_current [of s] by (auto simp: current_thread_def)

lemma ready_threads_find:
  "smp_inv s \<Longrightarrow> case find (\<lambda>(k, p). runnable s p) (s_ThreadsWaiting s) of
       None \<Rightarrow> ready_threads s = {}
     | Some (k, p) \<Rightarrow> (k, p) \<in> ready_threads s \<and> (\<forall>(k', p') \<in> ready_threads s. k \<le> k')"
  using find_ordered [of "s_ThreadsWaiting s" "\<lambda>(k, p). runnable s p"]
  by (fastforce simp: ready_threads_def smp_inv_def find_None_iff split: option.split)

text \<open>The part of the switch after the decision.\<close>

lemma Switch_real:
  assumes inv: "smp_inv s" and first: "\<And>k p. first = Some (k, p) \<Longrightarrow> (k, p) \<in> set (s_ThreadsWaiting s)"
  shows "\<exists>s' saved. do { s \<leftarrow> Switch_save (current_thread s) s; Switch_load first s } = Some s' \<and>
    smp_inv s' \<and> switch_saves s saved s' \<and>
    loaded first (s_heap s) (set (s_ThreadsWaiting s) \<union> saved) (s_Switch_Idle s) s'"
proof (cases "current_thread s")
  case None
  then have c: "s_Current s = NULL"
    using smp_inv_current [OF inv] by (auto simp: current_thread_def split: if_splits)
  have "smp_inv (s\<lparr>s_Current := NULL\<rparr>)" using inv c by (subst smp_inv_cong [of _ s]) simp_all
  from Switch_load_inv [OF this first] obtain s' where s': "Switch_load first s = Some s'" "smp_inv s'"
    "s_heap s' = s_heap s" "loaded first (s_heap s) (set (s_ThreadsWaiting s)) (s_Switch_Idle s) s'" by blast
  then show ?thesis using None
    by (intro exI [of _ s'] exI [of _ "{}"]) (simp add: Switch_save_def switch_saves_def)
next
  case (Some t)
  then have c: "s_Current s \<noteq> NULL" "s_heap s (s_Current s) = Some t"
    by (auto simp: current_thread_def split: if_splits)
  obtain k0 where k0: "k0 \<notin> fst ` set (s_ThreadsWaiting s)" "Switch_save (Some t) s = Some (saved_at k0 t s)"
    using Switch_save_current [OF inv] by blast
  let ?s = "saved_at k0 t s"
  have sub: "set (s_ThreadsWaiting ?s) = set (s_ThreadsWaiting s) \<union> {(k0, s_Current s)}"
    using k0(1) by (simp add: set_om_insert)
  have first': "(k, p) \<in> set (s_ThreadsWaiting ?s)" if "first = Some (k, p)" for k p
    using first that sub by simp
  from Switch_load_inv [OF saved_at_inv [OF inv c k0(1)] first'] obtain s' where
    s': "Switch_load first ?s = Some s'" "smp_inv s'" "s_heap s' = s_heap ?s" and
    l: "loaded first (s_heap ?s) (set (s_ThreadsWaiting ?s)) (s_Switch_Idle ?s) s'" by blast
  have "p \<noteq> s_Current s" if "first = Some (k, p)" for k p
    by (rule smp_inv_current_not_waiting [OF inv c(1) first [OF that]])
  with l have "loaded first (s_heap s) (set (s_ThreadsWaiting s) \<union> {(k0, s_Current s)}) (s_Switch_Idle s) s'"
    unfolding sub by (auto simp: loaded_def split: option.splits)
  moreover have "switch_saves s {(k0, s_Current s)} s'" using Some s'(3) k0(1) by (simp add: switch_saves_def)
  ultimately show ?thesis using s'(1, 2) k0(2) Some
    by (intro exI [of _ s'] exI [of _ "{(k0, s_Current s)}"]) simp
qed

lemma smp_Switch_spec:
  assumes inv: "smp_inv s"
  shows "\<exists>r s'. smp_Switch s = Some (r, s') \<and> smp_inv s' \<and> switch_spec s r s'"
proof -
  let ?t = "current_thread s"
  let ?s = "Switch_count ?t s"
  define first where "first = find (\<lambda>(k, p). runnable s p) (s_ThreadsWaiting s)"
  have f: "Switch_first s (s_ThreadsWaiting s) = Some first"
    unfolding first_def using smp_inv_waiting [OF inv] by (intro Switch_first_find) blast
  have inv': "smp_inv ?s" using inv by (subst smp_inv_cong [of _ s]) simp_all
  have rdy: "case first of None \<Rightarrow> ready_threads s = {}
     | Some (k, p) \<Rightarrow> (k, p) \<in> ready_threads s \<and> (\<forall>(k', p') \<in> ready_threads s. k \<le> k')"
    unfolding first_def by (rule ready_threads_find [OF inv])
  then have first: "(k, p) \<in> set (s_ThreadsWaiting ?s)" if "first = Some (k, p)" for k p
    using that by (auto simp: ready_threads_def)
  define stay where "stay = (case first of None \<Rightarrow> False | Some (k, p) \<Rightarrow> k > Switch_priority ?t s)"
  have st: "(case first of None \<Rightarrow> Some False
       | Some (k, p) \<Rightarrow> do { b \<leftarrow> Switch_blocked ?s p; Some (\<not> b \<and> k > Switch_priority ?t ?s) }) = Some stay"
    using rdy by (auto simp: stay_def ready_threads_def runnable_def split: option.splits)
  have stay_iff: "stay \<longleftrightarrow> ready_threads s \<noteq> {} \<and> (\<forall>(k, p) \<in> ready_threads s. Switch_priority ?t s < k)"
    using rdy by (auto simp: stay_def split: option.splits intro: less_le_trans)
  have sw: "smp_Switch s = (if stay then Some (0, ?s)
      else do { s \<leftarrow> Switch_save ?t ?s; s \<leftarrow> Switch_load first s; Some (1, s) })"
    using current_thread_eq [OF inv] f st by (simp add: smp_Switch_def Let_def)
  show ?thesis
  proof (cases stay)
    case True
    then show ?thesis using sw inv' stay_iff by (simp add: switch_spec_def)
  next
    case False
    from Switch_real [OF inv' first] obtain s' saved where
      s': "do { s \<leftarrow> Switch_save ?t ?s; Switch_load first s } = Some s'" "smp_inv s'" "switch_saves s saved s'"
      and l: "loaded first (s_heap s) (set (s_ThreadsWaiting s) \<union> saved) (s_Switch_Idle s) s'"
      unfolding Switch_count_spec Switch_count_simps by blast
    have "smp_Switch s = Some (1, s')" using sw s'(1) False by (auto simp: Option.bind_eq_Some_conv)
    moreover have "switch_spec s 1 s'"
      unfolding switch_spec_def stay_iff [symmetric] if_not_P [OF False]
    proof (intro conjI exI [of _ saved])
      show "if ready_threads s = {}
         then s_Current s' = NULL \<and> r_rip (s_LastState s') = s_Switch_Idle s \<and>
           set (s_ThreadsWaiting s') = set (s_ThreadsWaiting s) \<union> saved
         else \<exists>k p t. (k, p) \<in> ready_threads s \<and> (\<forall>(k', p') \<in> ready_threads s. k \<le> k') \<and>
           s_Current s' = p \<and> s_heap s p = Some t \<and> s_LastState s' = th_state t \<and>
           set (s_ThreadsWaiting s') = set (s_ThreadsWaiting s) \<union> saved - {(k, p)}"
        using l rdy by (cases first) (auto simp: loaded_def)
    qed (use s'(3) in simp_all)
    ultimately show ?thesis using s'(2) by blast
  qed
qed

section \<open>The other operations keep the invariant\<close>

lemma smp_IntSwitch_inv:
  assumes "smp_inv s"
  shows "\<exists>cpu' s'. smp_IntSwitch cpu s = Some (cpu', s') \<and> smp_inv s'"
proof -
  have real: "\<exists>cpu' s''. IntSwitch_realcall cpu s' = Some (cpu', s'') \<and> smp_inv s''" if "smp_inv s'" for s'
  proof -
    have "smp_inv (s'\<lparr>s_LastState := cpu\<rparr>)" using that by (subst smp_inv_cong [of _ s']) simp_all
    from smp_Switch_spec [OF this] show ?thesis by (auto simp: IntSwitch_realcall_def)
  qed
  let ?s = "s\<lparr>s_LastState := (s_LastState s)\<lparr>r_rax := r_rax cpu\<rparr>\<rparr>"
  have "smp_inv (?s\<lparr>s_Now := s_Now s + 1\<rparr>)" "smp_inv (?s\<lparr>s_PauseTicker := False\<rparr>)"
    using assms by (subst smp_inv_cong [of _ s], simp_all)+
  with real show ?thesis by (simp add: smp_IntSwitch_def Let_def)
qed

lemma smp_thread_Yield_inv:
  assumes "smp_inv s"
  shows "\<exists>cpu' s'. smp_thread_Yield cpu s = Some (cpu', s') \<and> smp_inv s'"
proof -
  have "smp_inv (s\<lparr>s_PauseTicker := True\<rparr>)" using assms by (subst smp_inv_cong [of _ s]) simp_all
  from smp_IntSwitch_inv [OF this] show ?thesis by (simp add: smp_thread_Yield_def)
qed

text \<open>A thread added under an id and a priority not in use.\<close>

lemma smp_inv_add:
  assumes inv: "smp_inv s" and new: "new \<noteq> NULL" "s_heap s new = None"
    and kt: "of_int (th_id t) \<notin> fst ` set (s_Threads s)" and kw: "kw \<notin> fst ` set (s_ThreadsWaiting s)"
    and s': "s_Current s' = s_Current s" "s_Threads s' = om_insert (of_int (th_id t)) new (s_Threads s)"
      "s_ThreadsWaiting s' = om_insert kw new (s_ThreadsWaiting s)" "s_heap s' = (s_heap s)(new \<mapsto> t)"
  shows "smp_inv s'"
proof -
  have n: "new \<notin> set (live_threads s)" "new \<notin> snd ` set (s_Threads s)"
    using smp_inv_live [OF inv, of new] inv new by (auto simp: smp_inv_def)
  have old: "\<forall>(k, p) \<in> set (s_Threads s). \<forall>t. s_heap s p = Some t \<longrightarrow> k = of_int (th_id t)"
    using inv by (simp add: smp_inv_def)
  have m: "mset (live_threads s') = mset (new # live_threads s)"
    using s' kw by (simp add: live_threads_def mset_om_insert)
  have "set (live_threads s') = insert new (set (live_threads s))" using mset_eq_setD [OF m] by simp
  moreover have "distinct (live_threads s')"
    using mset_eq_imp_distinct_iff [OF m] n(1) inv by (simp add: smp_inv_def)
  moreover have "distinct (map snd (s_Threads s'))" using inv s' kt n(2) by (simp add: distinct_om_insert smp_inv_def)
  moreover have "snd ` set (s_Threads s') = insert new (snd ` set (s_Threads s))"
    using s' kt by (simp add: set_om_insert)
  moreover have "\<forall>(k, p) \<in> set (s_Threads s'). \<forall>t. s_heap s' p = Some t \<longrightarrow> k = of_int (th_id t)"
    using old n(2) unfolding s'(2, 4) set_om_insert [OF kt] by (auto simp: rev_image_eqI split: if_splits)
  ultimately show ?thesis using inv s' new unfolding smp_inv_def by simp
qed

lemma Start_stack_fields:
  "Start_stack s = Some (stack, s') \<Longrightarrow> s_Current s' = s_Current s \<and> s_Threads s' = s_Threads s \<and>
     s_ThreadsWaiting s' = s_ThreadsWaiting s \<and> s_heap s' = s_heap s \<and> s_Now s' = s_Now s"
  by (auto simp: Start_stack_def Let_def Option.bind_eq_Some_conv split: list.splits prod.splits)

text \<open>What a thread started with a new id gets.\<close>

definition started_thread ::
  "smp_Thread \<Rightarrow> smp_Thread_Waiting \<Rightarrow> u64 \<Rightarrow> smp_thread_Arguments option \<Rightarrow> u32 \<Rightarrow> smp_state \<Rightarrow> u64 \<Rightarrow> smp_Thread" where
  "started_thread garbage wait entry args nice s stack = garbage\<lparr>th_nice := nice, th_id := s32 (s_Idallo s + 1),
     th_lastTick := s_Now s, th_sleepUntil := 0, th_wait := Some wait, th_process := NULL, th_stackframe := stack,
     th_state := (Start_state (s_EntryPoint s) entry args (th_state garbage))\<lparr>r_rsp := stack\<rparr>\<rparr>"

definition with_node :: "addr \<Rightarrow> smp_Thread \<Rightarrow> smp_state \<Rightarrow> smp_state" where
  "with_node new garbage s = s\<lparr>s_Idallo := s32 (s_Idallo s + 1),
     s_Threads := om_insert (of_int (s32 (s_Idallo s + 1))) new (s_Threads s),
     s_heap := (s_heap s)(new \<mapsto> garbage)\<rparr>"

lemma smp_thread_Start_new:
  assumes "map_of (s_Threads s) (of_int (s32 (s_Idallo s + 1))) = None"
  shows "smp_thread_Start new garbage wait entry args nice s = do {
      (stack, s2) \<leftarrow> Start_stack (with_node new garbage s);
      Some (s32 (s_Idallo s + 1), s2\<lparr>s_heap := (s_heap s)(new \<mapsto> started_thread garbage wait entry args nice s stack),
        s_ThreadsWaiting := om_insert (s_Now s + ucast nice) new (s_ThreadsWaiting s)\<rparr>)
    }"
proof (cases "Start_stack (with_node new garbage s)")
  case (Some r)
  then obtain stack s2 where "Start_stack (with_node new garbage s) = Some (stack, s2)" by (cases r) simp
  with Start_stack_fields [OF this] assms show ?thesis
    by (simp add: smp_thread_Start_def Let_def Threads_node_def with_node_def started_thread_def)
qed (use assms in \<open>simp add: smp_thread_Start_def Let_def Threads_node_def with_node_def\<close>)

lemma smp_thread_Start_inv:
  assumes inv: "smp_inv s" and new: "new \<noteq> NULL" "s_heap s new = None"
    and kt: "map_of (s_Threads s) (of_int (s32 (s_Idallo s + 1))) = None"
    and kw: "s_Now s + ucast nice \<notin> fst ` set (s_ThreadsWaiting s)"
    and start: "smp_thread_Start new garbage wait entry args nice s = Some (tid, s')"
  shows "smp_inv s'"
proof -
  from start obtain stack s2 where s2: "Start_stack (with_node new garbage s) = Some (stack, s2)"
    and s': "s' = s2\<lparr>s_heap := (s_heap s)(new \<mapsto> started_thread garbage wait entry args nice s stack),
      s_ThreadsWaiting := om_insert (s_Now s + ucast nice) new (s_ThreadsWaiting s)\<rparr>"
    by (auto simp: smp_thread_Start_new [OF kt] Option.bind_eq_Some_conv)
  have t: "th_id (started_thread garbage wait entry args nice s stack) = s32 (s_Idallo s + 1)"
    by (simp add: started_thread_def)
  have "of_int (th_id (started_thread garbage wait entry args nice s stack)) \<notin> fst ` set (s_Threads s)"
    using kt by (simp add: t map_of_eq_None_iff)
  from smp_inv_add [OF inv new this kw] show ?thesis using Start_stack_fields [OF s2] s' t by (simp add: with_node_def)
qed

text \<open>The removal of the current thread.\<close>

lemma Cleanup_remove_inv:
  assumes inv: "smp_inv s" and cur: "s_Current s \<noteq> NULL"
  shows "\<exists>s'. Cleanup_remove stale s = Some s' \<and> smp_inv s' \<and> s_heap s' = (s_heap s)(s_Current s := None) \<and>
    s_Current s' = NULL \<and> s_StackPool s' = om_insert stale () (s_StackPool s)"
proof -
  obtain t where t: "s_heap s (s_Current s) = Some t" using smp_inv_current [OF inv cur] by blast
  let ?k = "of_int (th_id t)"
  have ok: "om_ok (s_Threads s)" "distinct (map snd (s_Threads s))" "snd ` set (s_Threads s) = dom (s_heap s)"
    using inv by (simp_all add: smp_inv_def)
  from ok(3) t have "s_Current s \<in> snd ` set (s_Threads s)" by blast
  then obtain k where k: "(k, s_Current s) \<in> set (s_Threads s)" by auto
  then have "k = ?k" using inv t by (auto simp: smp_inv_def)
  with k have k: "(?k, s_Current s) \<in> set (s_Threads s)" by simp
  let ?s' = "s\<lparr>s_Threads := om_delete ?k (s_Threads s), s_heap := (s_heap s)(s_Current s := None),
    s_Current := NULL, s_StackPool := om_insert stale () (s_StackPool s)\<rparr>"
  have T: "set (om_delete ?k (s_Threads s)) = set (s_Threads s) - {(?k, s_Current s)}"
    by (rule om_delete_entry [OF ok(1) k])
  have "s_Current s \<notin> snd ` set (om_delete ?k (s_Threads s))"
    by (auto dest: distinct_values [OF ok(2) k])
  then have "snd ` set (om_delete ?k (s_Threads s)) = snd ` set (s_Threads s) - {s_Current s}"
    unfolding T by force
  moreover have "set (live_threads ?s') = set (live_threads s) - {s_Current s}"
    using smp_inv_current_not_waiting [OF inv cur] cur by (force simp: live_threads_def)
  moreover have "distinct (live_threads ?s')" using inv by (simp add: smp_inv_def live_threads_def)
  moreover have "\<forall>(k, p) \<in> set (om_delete ?k (s_Threads s)). \<forall>t. ((s_heap s)(s_Current s := None)) p = Some t \<longrightarrow> k = of_int (th_id t)"
    using inv unfolding T by (auto simp: smp_inv_def split: if_splits)
  ultimately have "smp_inv ?s'" using inv ok unfolding smp_inv_def by (simp del: set_om_delete)
  moreover have "map_of (s_Threads s) ?k = Some (s_Current s)" using k om_ok_lookup [OF ok(1)] by blast
  ultimately show ?thesis using t by (simp add: Cleanup_remove_def)
qed

lemma smp_thread_Cleanup_inv:
  assumes "smp_inv s" and "s_Current s \<noteq> NULL"
  shows "\<exists>cpu' s'. smp_thread_Cleanup stale cpu s = Some (cpu', s') \<and> smp_inv s'"
  using Cleanup_remove_inv [OF assms, of stale] smp_thread_Yield_inv by (force simp: smp_thread_Cleanup_def)

lemma Sleep_request_inv:
  assumes "smp_inv s" and "Sleep_request ticks s = Some s'"
  shows "smp_inv s'"
proof -
  from assms(2) obtain t where t: "s_heap s (s_Current s) = Some t"
    "s' = s\<lparr>s_heap := (s_heap s)(s_Current s \<mapsto> t\<lparr>th_sleepUntil := s_Now s + of_int ticks\<rparr>)\<rparr>"
    by (auto simp: Sleep_request_def Option.bind_eq_Some_conv)
  show ?thesis by (rule smp_inv_update [OF assms(1) t(1), where t' = "t\<lparr>th_sleepUntil := s_Now s + of_int ticks\<rparr>"])
    (simp_all add: t(2))
qed

lemma smp_thread_Nice_inv:
  assumes "smp_inv s" and "smp_thread_Nice tid newnice s = Some (old, s')"
  shows "smp_inv s'"
proof (cases "s' = s")
  case False
  with assms(2) obtain p t where t: "s_heap s p = Some t"
    "s' = s\<lparr>s_heap := (s_heap s)(p \<mapsto> t\<lparr>th_nice := of_int newnice\<rparr>)\<rparr>"
    by (auto simp: smp_thread_Nice_def Option.bind_eq_Some_conv split: option.splits if_splits)
  show ?thesis by (rule smp_inv_update [OF assms(1) t(1), where t' = "t\<lparr>th_nice := of_int newnice\<rparr>"])
    (simp_all add: t(2))
qed (use assms in simp)

lemma smp_thread_Init_inv:
  assumes "s_heap s = Map.empty" and "new \<noteq> NULL"
  shows "\<exists>tid s'. smp_thread_Init new garbage wait s = Some (tid, s') \<and> smp_inv s'"
  using assms by (simp add: smp_thread_Init_def Let_def Threads_node_def smp_inv_def live_threads_def)

text \<open>The switch leaves the tables of threads and stacks alone.\<close>

lemma smp_Switch_fields:
  assumes "smp_Switch s = Some (r, s')"
  shows "s_Threads s' = s_Threads s \<and> s_StackPool s' = s_StackPool s \<and> s_Idallo s' = s_Idallo s \<and> s_mutexes s' = s_mutexes s"
proof -
  have c: "s_StackPool (Switch_count t s) = s_StackPool s \<and> s_Idallo (Switch_count t s) = s_Idallo s \<and>
      s_mutexes (Switch_count t s) = s_mutexes s" for t
    by (cases t) (simp_all add: Switch_count_def Let_def)
  have a: "Switch_save t s1 = Some s2 \<Longrightarrow> s_Threads s2 = s_Threads s1 \<and> s_StackPool s2 = s_StackPool s1 \<and>
      s_Idallo s2 = s_Idallo s1 \<and> s_mutexes s2 = s_mutexes s1" for t s1 s2
    by (cases t) (auto simp: Switch_save_def Option.bind_eq_Some_conv)
  have l: "Switch_load f s1 = Some s2 \<Longrightarrow> s_Threads s2 = s_Threads s1 \<and> s_StackPool s2 = s_StackPool s1 \<and>
      s_Idallo s2 = s_Idallo s1 \<and> s_mutexes s2 = s_mutexes s1" for f s1 s2
    by (auto simp: Switch_load_def Option.bind_eq_Some_conv split: option.splits)
  from assms obtain t where "s' = Switch_count t s \<or>
      (\<exists>f s1. Switch_save t (Switch_count t s) = Some s1 \<and> Switch_load f s1 = Some s')"
    by (auto simp: smp_Switch_def Let_def Option.bind_eq_Some_conv split: if_splits)
  then show ?thesis
  proof (elim disjE exE conjE)
    fix f s1 assume "Switch_save t (Switch_count t s) = Some s1" "Switch_load f s1 = Some s'"
    with a [OF this(1)] l [OF this(2)] c show ?thesis by simp
  qed (simp add: c)
qed

lemma smp_IntSwitch_fields:
  "smp_IntSwitch cpu s = Some (cpu', s') \<Longrightarrow>
   s_Threads s' = s_Threads s \<and> s_StackPool s' = s_StackPool s \<and> s_Idallo s' = s_Idallo s \<and> s_mutexes s' = s_mutexes s"
  by (auto simp: smp_IntSwitch_def IntSwitch_realcall_def Let_def Option.bind_eq_Some_conv
      dest!: smp_Switch_fields split: if_splits)

lemma smp_thread_Yield_fields:
  "smp_thread_Yield cpu s = Some (cpu', s') \<Longrightarrow>
   s_Threads s' = s_Threads s \<and> s_StackPool s' = s_StackPool s \<and> s_Idallo s' = s_Idallo s \<and> s_mutexes s' = s_mutexes s"
  by (auto simp: smp_thread_Yield_def dest!: smp_IntSwitch_fields)

lemma om_insert_replaces: "om_ok ts \<Longrightarrow> (k, q) \<in> set ts \<Longrightarrow> set (om_insert k v ts) = insert (k, v) (set ts - {(k, q)})"
  by (induction k v ts rule: om_insert.induct) (auto split: if_splits)

lemma om_delete_single [simp]: "om_delete k [(k, v)] = []"
  by (simp add: om_delete_def)

section \<open>The properties\<close>

text \<open>
  Three threads at tick 100: the first runs, the second sleeps until 200 and the third is ready;
  one stack is in the pool.
\<close>

definition demo_regs :: "u64 \<Rightarrow> smp_thread_State" where
  "demo_regs v = \<lparr>r_rax = v, r_rbx = v, r_rcx = v, r_rdx = v, r_rsi = v, r_rdi = v, r_rbp = v, r_rsp = v,
     r_r8 = v, r_r9 = v, r_r10 = v, r_r11 = v, r_r12 = v, r_r13 = v, r_r14 = v, r_r15 = v,
     r_rflags = 0x202, r_rip = v, r_ss = 0x08, r_cs = 0x10\<rparr>"

definition demo_wait :: smp_Thread_Waiting where
  "demo_wait = \<lparr>w_object = 0, w_data = 0, w_timeout = 0, w_type = Waiting_Mutex\<rparr>"

definition demo_thread :: "int \<Rightarrow> u64 \<Rightarrow> smp_Thread" where
  "demo_thread tid sleep = \<lparr>th_id = tid, th_nice = 80, th_lastTick = 60, th_sleepUntil = sleep,
     th_wait = Some demo_wait, th_state = demo_regs (of_int tid), th_stackframe = 0x9000, th_process = 0\<rparr>"

definition demo_smp :: smp_state where
  "demo_smp = \<lparr>s_Now = 100, s_PauseTicker = False, s_Current = 0x1000, s_Idallo = 3,
     s_Threads = [(1, 0x1000), (2, 0x2000), (3, 0x3000)],
     s_ThreadsWaiting = [(150, 0x2000), (160, 0x3000)], s_StackPool = [],
     s_heap = [0x1000 \<mapsto> demo_thread 1 0, 0x2000 \<mapsto> demo_thread 2 200, 0x3000 \<mapsto> demo_thread 3 0],
     s_LastState = demo_regs 7, s_PrevTime = 96, s_Tick_Idling = 0, s_Tick_Kernel = 0, s_Tick_Userspace = 0,
     s_KernelMappingBottom = KERNEL_MISC_MAPPING, s_paging = empty_tables, s_conditions = Map.empty,
     s_mutexes = Map.empty, s_Switch_Idle = 0x500, s_EntryPoint = 0x600\<rparr>"

lemma demo_smp_inv: "smp_inv demo_smp"
  by (auto simp: smp_inv_def live_threads_def demo_smp_def demo_thread_def split: if_splits)

lemma demo_smp_ready: "ready_threads demo_smp = {(160, 0x3000)}"
  by (auto simp: ready_threads_def runnable_def Switch_blocked_def smp_Thread_Waiting_IsWaiting_def demo_smp_def
      demo_thread_def demo_wait_def)

lemma demo_smp_priority: "Switch_priority (current_thread demo_smp) demo_smp = 180"
  by (simp add: Switch_priority_def current_thread_def demo_smp_def demo_thread_def)

text \<open>
  C3: the thread switch implements its contract. In every state of the invariant it runs to its
  end without touching a missing thread; it keeps the current thread when every runnable thread
  has a larger key than the current one's new priority (nice plus the later of its last tick and
  now), and otherwise stores the registers of the current thread, puts it among the waiting
  threads under a free key, and continues with the runnable thread of least key, in the registers
  saved for it, or with the idle loop when no waiting thread is runnable.
\<close>

theorem smp_Switch_refines:
  assumes "smp_inv s"
  shows "\<exists>r s'. smp_Switch s = Some (r, s') \<and> switch_spec s r s'"
  using smp_Switch_spec [OF assms] by blast

theorem smp_Switch_refines_witness:
  "\<exists>s'. smp_Switch demo_smp = Some (1, s') \<and> s_Current s' = 0x3000 \<and> s_LastState s' = demo_regs 3"
proof -
  obtain r s' where "smp_Switch demo_smp = Some (r, s')" "switch_spec demo_smp r s'"
    using smp_Switch_refines [OF demo_smp_inv] by blast
  then show ?thesis
    unfolding switch_spec_def demo_smp_ready demo_smp_priority
    by (auto simp: demo_smp_def demo_thread_def)
qed

text \<open>
  C39: a thread is lost when one is started with its priority. The tree of the waiting threads
  holds one thread per key, and \<^verbatim>\<open>smp_thread_Start\<close> stores the new thread over the old one when
  the current tick plus its niceness is in use (two threads started in the same tick with the same
  niceness): right after the start the old thread is still allocated and found by its id, but it
  is neither the current thread nor among the waiting ones, which are all the next switch chooses
  from.
\<close>

theorem smp_thread_Start_loses_thread:
  assumes "smp_inv s" and "new \<noteq> NULL" and "s_heap s new = None"
    and "map_of (s_Threads s) (of_int (s32 (s_Idallo s + 1))) = None"
    and "(s_Now s + ucast nice, q) \<in> set (s_ThreadsWaiting s)"
    and "smp_thread_Start new garbage wait entry args nice s = Some (tid, s')"
  shows "q \<notin> set (live_threads s') \<and> s_heap s' q = s_heap s q \<and> q \<in> snd ` set (s_Threads s')"
proof -
  from assms(6) obtain stack s2 where s2: "Start_stack (with_node new garbage s) = Some (stack, s2)"
    and s': "s' = s2\<lparr>s_heap := (s_heap s)(new \<mapsto> started_thread garbage wait entry args nice s stack),
      s_ThreadsWaiting := om_insert (s_Now s + ucast nice) new (s_ThreadsWaiting s)\<rparr>"
    by (auto simp: smp_thread_Start_new [OF assms(4)] Option.bind_eq_Some_conv)
  have ok: "om_ok (s_ThreadsWaiting s)" "distinct (map snd (s_ThreadsWaiting s))"
    using assms(1) by (simp_all add: smp_inv_def live_threads_def)
  have q: "q \<noteq> new" using smp_inv_waiting [OF assms(1, 5)] assms(3) by auto
  have "q \<notin> snd ` set (s_ThreadsWaiting s')"
    using om_insert_replaces [OF ok(1) assms(5)] q by (auto simp: s' dest: distinct_values [OF ok(2) assms(5)])
  moreover have "s_Current s' = NULL \<or> q \<noteq> s_Current s'"
    using smp_inv_current_not_waiting [OF assms(1) _ assms(5)] Start_stack_fields [OF s2]
    by (auto simp: s' with_node_def)
  moreover have "q \<in> snd ` set (s_Threads s)"
    using smp_inv_waiting [OF assms(1, 5)] assms(1) by (auto simp: smp_inv_def)
  then have "q \<in> snd ` set (s_Threads s')"
    using Start_stack_fields [OF s2] assms(4) by (auto simp: s' with_node_def set_om_insert map_of_eq_None_iff)
  ultimately show ?thesis using q by (auto simp: s' live_threads_def)
qed

theorem smp_thread_Start_loses_thread_witness:
  "\<exists>tid s'. smp_thread_Start 0x4000 (demo_thread 0 0) demo_wait 0x700 None 60
       (demo_smp\<lparr>s_StackPool := [(0x8000, ())]\<rparr>) = Some (tid, s') \<and> 0x3000 \<notin> set (live_threads s')"
proof -
  let ?s = "demo_smp\<lparr>s_StackPool := [(0x8000, ())]\<rparr>"
  have "smp_inv ?s" using demo_smp_inv by (subst smp_inv_cong [of _ demo_smp]) simp_all
  note lost = smp_thread_Start_loses_thread [OF this, where new = "0x4000" and garbage = "demo_thread 0 0"
      and nice = 60 and q = "0x3000" and wait = demo_wait and entry = "0x700" and args = None]
  show ?thesis
    using lost by (simp add: demo_smp_def smp_thread_Start_new Start_stack_def with_node_def)
qed

text \<open>
  The stack of a thread that ended is reused one page too high. \<^verbatim>\<open>stackframe\<close> is the upper end
  of the stack, which \<^verbatim>\<open>__smp_thread_Cleanup\<close> puts in the pool and \<^verbatim>\<open>smp_thread_Start\<close> takes for its
  lower end: the next thread runs on the page above the one that was freed, which holds the stack
  of the thread whose stack was allocated before.
\<close>

theorem smp_stack_reused_above:
  assumes "smp_inv s" and "s_heap s (s_Current s) = Some t" and "s_StackPool s = []"
    and "smp_thread_Cleanup (th_stackframe t) cpu s = Some (cpu1, s1)"
    and "map_of (s_Threads s1) (of_int (s32 (s_Idallo s1 + 1))) = None"
    and "smp_thread_Start new garbage wait entry args nice s1 = Some (tid, s2)"
  shows "\<exists>u. s_heap s2 new = Some u \<and> th_stackframe u = th_stackframe t + 4096 \<and>
    r_rsp (th_state u) = th_stackframe t + 4096"
proof -
  have cur: "s_Current s \<noteq> NULL" using assms(1, 2) by (auto simp: smp_inv_def)
  obtain s0 where s0: "Cleanup_remove (th_stackframe t) s = Some s0" "s_StackPool s0 = [(th_stackframe t, ())]"
    using Cleanup_remove_inv [OF assms(1) cur, of "th_stackframe t"] assms(3) by auto
  have "smp_thread_Yield cpu s0 = Some (cpu1, s1)" using assms(4) s0(1) by (simp add: smp_thread_Cleanup_def)
  from smp_thread_Yield_fields [OF this] s0(2) have "s_StackPool s1 = [(th_stackframe t, ())]" by simp
  then show ?thesis using assms(6)
    by (auto simp: smp_thread_Start_new [OF assms(5)] Start_stack_def with_node_def started_thread_def)
qed

theorem smp_stack_reused_above_witness:
  "\<exists>cpu1 s1 s2 u. smp_thread_Cleanup 0x9000 (demo_regs 9) demo_smp = Some (cpu1, s1) \<and>
     smp_thread_Start 0x4000 (demo_thread 0 0) demo_wait 0x700 None 80 s1 = Some (4, s2) \<and>
     s_heap s2 0x4000 = Some u \<and> th_stackframe u = 0xA000"
proof -
  have cur: "s_Current demo_smp \<noteq> NULL" "s_heap demo_smp (s_Current demo_smp) = Some (demo_thread 1 0)"
    "s_StackPool demo_smp = []" by (simp_all add: demo_smp_def)
  obtain cpu1 s1 where c: "smp_thread_Cleanup 0x9000 (demo_regs 9) demo_smp = Some (cpu1, s1)"
    using smp_thread_Cleanup_inv [OF demo_smp_inv cur(1)] by blast
  then obtain s0 where s0: "Cleanup_remove 0x9000 demo_smp = Some s0" "smp_thread_Yield (demo_regs 9) s0 = Some (cpu1, s1)"
    by (auto simp: smp_thread_Cleanup_def Option.bind_eq_Some_conv)
  have s0': "s_Threads s0 = [(2, 0x2000), (3, 0x3000)]" "s_Idallo s0 = 3" "s_StackPool s0 = [(0x9000, ())]"
    using s0(1) by (auto simp: Cleanup_remove_def demo_smp_def demo_thread_def om_delete_def)
  have s1: "s_Threads s1 = [(2, 0x2000), (3, 0x3000)]" "s_Idallo s1 = 3" "s_StackPool s1 = [(0x9000, ())]"
    using smp_thread_Yield_fields [OF s0(2)] s0' by simp_all
  have n: "map_of (s_Threads s1) (of_int (s32 (s_Idallo s1 + 1))) = None" by (simp add: s1)
  obtain s2 where st: "smp_thread_Start 0x4000 (demo_thread 0 0) demo_wait 0x700 None 80 s1 = Some (4, s2)"
    by (simp add: smp_thread_Start_new [OF n] Start_stack_def with_node_def s1)
  have "th_stackframe (demo_thread 1 0) = 0x9000" by (simp add: demo_thread_def)
  with smp_stack_reused_above [OF demo_smp_inv cur(2, 3) _ n st] c st show ?thesis by auto
qed

end
