(* ===== verification/Sync.thy ===== *)
theory Sync
  imports Sched
begin

text \<open>
  The conditions and mutexes of \<^verbatim>\<open>src/smp/condiction.c\<close> and \<^verbatim>\<open>src/smp/mutex.c\<close> on the threads of the
  theory Sched, and the transitions of the whole scheduler. The vectors of waiting threads are the
  lists the theory Vector proves them to be. A call that yields is modelled in two parts, because
  the processor may run other threads in between: the request, and the result that is read when
  the thread runs again.
\<close>

section \<open>The code\<close>

text \<open>\<^verbatim>\<open>t->wait\<close> of the current thread, allocated with the contents \<open>garbage\<close> when it is null.\<close>

definition wait_on :: "smp_Thread_Waiting_Type \<Rightarrow> addr \<Rightarrow> u64 \<Rightarrow> smp_Thread_Waiting \<Rightarrow> smp_state \<Rightarrow> smp_state option" where
  "wait_on type obj timeout garbage s = do {
     t \<leftarrow> s_heap s (s_Current s);
     let w = (case th_wait t of None \<Rightarrow> garbage | Some w \<Rightarrow> w);
     let w = w\<lparr>w_type := type, w_object := obj, w_data := 0, w_timeout := timeout\<rparr>;
     Some (s\<lparr>s_heap := (s_heap s)(s_Current s \<mapsto> t\<lparr>th_wait := Some w\<rparr>)\<rparr>)
   }"

definition wait_data :: "addr \<Rightarrow> smp_state \<Rightarrow> u64 option" where
  "wait_data p s = do { t \<leftarrow> s_heap s p; w \<leftarrow> th_wait t; Some (w_data w) }"

text \<open>A waiting thread is released: the object is cleared, and the data is stored.\<close>

definition release :: "addr \<Rightarrow> u64 \<Rightarrow> smp_state \<Rightarrow> smp_state option" where
  "release p data s = do {
     t \<leftarrow> s_heap s p;
     w \<leftarrow> th_wait t;
     Some (s\<lparr>s_heap := (s_heap s)(p \<mapsto> t\<lparr>th_wait := Some (w\<lparr>w_object := NULL, w_data := data\<rparr>)\<rparr>)\<rparr>)
   }"

text \<open>A call that waits for \<open>p\<close> to run again: the result is there if the switch kept the thread.\<close>

definition yield_result ::
  "smp_thread_State \<Rightarrow> smp_state \<Rightarrow> (u64 option \<times> smp_thread_State \<times> smp_state) option" where
  "yield_result cpu s = do {
     (cpu', s') \<leftarrow> smp_thread_Yield cpu s;
     if s_Current s' = s_Current s
     then do { d \<leftarrow> wait_data (s_Current s) s'; Some (Some d, cpu', s') }
     else Some (None, cpu', s')
   }"

subsection \<open>Conditions\<close>

definition smp_Condition_Create :: "addr \<Rightarrow> smp_state \<Rightarrow> addr \<times> smp_state" where
  "smp_Condition_Create c s = (c, s\<lparr>s_conditions := (s_conditions s)(c \<mapsto> [])\<rparr>)"

definition Condition_Wait_request :: "addr \<Rightarrow> smp_Thread_Waiting \<Rightarrow> smp_state \<Rightarrow> smp_state option" where
  "Condition_Wait_request c garbage s = do {
     threads \<leftarrow> s_conditions s c;
     s \<leftarrow> wait_on Waiting_Condiction c 0 garbage s;
     Some (s\<lparr>s_conditions := (s_conditions s)(c \<mapsto> threads @ [s_Current s])\<rparr>)
   }"

definition smp_Condition_Wait ::
  "addr \<Rightarrow> smp_Thread_Waiting \<Rightarrow> smp_thread_State \<Rightarrow> smp_state \<Rightarrow>
     (u64 option \<times> smp_thread_State \<times> smp_state) option" where
  "smp_Condition_Wait c garbage cpu s = do { s \<leftarrow> Condition_Wait_request c garbage s; yield_result cpu s }"

definition smp_Condition_NotifyOne :: "addr \<Rightarrow> u64 \<Rightarrow> smp_state \<Rightarrow> (bool \<times> smp_state) option" where
  "smp_Condition_NotifyOne c data s = do {
     threads \<leftarrow> s_conditions s c;
     if length threads = 0 then Some (False, s)
     else do {
       s \<leftarrow> release (threads ! (length threads - 1)) data s;
       Some (True, s\<lparr>s_conditions := (s_conditions s)(c \<mapsto> take (length threads - 1) threads)\<rparr>)
     }
   }"

fun NotifyAll_loop :: "addr list \<Rightarrow> u64 \<Rightarrow> smp_state \<Rightarrow> smp_state option" where
  "NotifyAll_loop [] data s = Some s"
| "NotifyAll_loop (p # ps) data s = do { s \<leftarrow> release p data s; NotifyAll_loop ps data s }"

text \<open>The function ends with \<^verbatim>\<open>return true\<close> and returns an \<^verbatim>\<open>int\<close>.\<close>

definition smp_Condition_NotifyAll :: "addr \<Rightarrow> u64 \<Rightarrow> smp_state \<Rightarrow> (int \<times> smp_state) option" where
  "smp_Condition_NotifyAll c data s = do {
     threads \<leftarrow> s_conditions s c;
     if length threads = 0 then Some (0, s)
     else do {
       s \<leftarrow> NotifyAll_loop threads data s;
       Some (1, s\<lparr>s_conditions := (s_conditions s)(c \<mapsto> [])\<rparr>)
     }
   }"

definition smp_Condition_Destroy :: "addr \<Rightarrow> smp_state \<Rightarrow> smp_state option" where
  "smp_Condition_Destroy c s = do {
     (n, s) \<leftarrow> smp_Condition_NotifyAll c (- 1) s;
     Some (s\<lparr>s_conditions := (s_conditions s)(c := None)\<rparr>)
   }"

subsection \<open>Mutexes\<close>

definition smp_Mutex_Create :: "addr \<Rightarrow> smp_state \<Rightarrow> addr \<times> smp_state" where
  "smp_Mutex_Create m s = (m, s\<lparr>s_mutexes := (s_mutexes s)(m \<mapsto> \<lparr>m_locked = 0, m_waiting = []\<rparr>)\<rparr>)"

definition smp_Mutex_Destroy :: "addr \<Rightarrow> smp_state \<Rightarrow> smp_state option" where
  "smp_Mutex_Destroy m s = do { mx \<leftarrow> s_mutexes s m; Some (s\<lparr>s_mutexes := (s_mutexes s)(m := None)\<rparr>) }"

definition smp_Mutex_TryLock :: "addr \<Rightarrow> smp_state \<Rightarrow> (bool \<times> smp_state) option" where
  "smp_Mutex_TryLock m s = do {
     mx \<leftarrow> s_mutexes s m;
     if m_locked mx = 0 then Some (True, s\<lparr>s_mutexes := (s_mutexes s)(m \<mapsto> mx\<lparr>m_locked := 1\<rparr>)\<rparr>)
     else Some (False, s)
   }"

text \<open>True when the lock was free and is taken, false when the caller has to wait.\<close>

definition LockTimeout_request :: "addr \<Rightarrow> u64 \<Rightarrow> smp_Thread_Waiting \<Rightarrow> smp_state \<Rightarrow> (bool \<times> smp_state) option" where
  "LockTimeout_request m timeout garbage s = do {
     mx \<leftarrow> s_mutexes s m;
     if m_locked mx = 0 then Some (True, s\<lparr>s_mutexes := (s_mutexes s)(m \<mapsto> mx\<lparr>m_locked := 1\<rparr>)\<rparr>)
     else do {
       s \<leftarrow> wait_on Waiting_Mutex m (if timeout \<noteq> 0 then s_Now s + timeout else 0) garbage s;
       Some (False, s\<lparr>s_mutexes := (s_mutexes s)(m \<mapsto> mx\<lparr>m_waiting := m_waiting mx @ [s_Current s]\<rparr>)\<rparr>)
     }
   }"

definition smp_Mutex_LockTimeout ::
  "addr \<Rightarrow> u64 \<Rightarrow> smp_Thread_Waiting \<Rightarrow> smp_thread_State \<Rightarrow> smp_state \<Rightarrow>
     (bool option \<times> smp_thread_State \<times> smp_state) option" where
  "smp_Mutex_LockTimeout m timeout garbage cpu s = do {
     (got, s) \<leftarrow> LockTimeout_request m timeout garbage s;
     if got then Some (Some True, cpu, s)
     else do {
       (d, cpu, s) \<leftarrow> yield_result cpu s;
       Some (map_option (\<lambda>d. d \<noteq> 0) d, cpu, s)
     }
   }"

text \<open>\<^verbatim>\<open>smp_Mutex_Lock\<close> discards the result: \<open>Some ()\<close> says that it has returned.\<close>

definition smp_Mutex_Lock ::
  "addr \<Rightarrow> smp_Thread_Waiting \<Rightarrow> smp_thread_State \<Rightarrow> smp_state \<Rightarrow>
     (unit option \<times> smp_thread_State \<times> smp_state) option" where
  "smp_Mutex_Lock m garbage cpu s = do {
     (r, cpu, s) \<leftarrow> smp_Mutex_LockTimeout m 0 garbage cpu s;
     Some (map_option (\<lambda>_. ()) r, cpu, s)
   }"

definition release_mutex :: "addr \<Rightarrow> smp_state \<Rightarrow> smp_state option" where
  "release_mutex p s = do {
     s \<leftarrow> release p 1 s;
     t \<leftarrow> s_heap s p;
     w \<leftarrow> th_wait t;
     Some (s\<lparr>s_heap := (s_heap s)(p \<mapsto> t\<lparr>th_wait := Some (w\<lparr>w_timeout := 0\<rparr>)\<rparr>)\<rparr>)
   }"

text \<open>A failed assertion stops the kernel.\<close>

definition smp_Mutex_Unlock :: "addr \<Rightarrow> smp_state \<Rightarrow> smp_state option" where
  "smp_Mutex_Unlock m s = do {
     mx \<leftarrow> s_mutexes s m;
     if m_locked mx = 0 then None
     else if length (m_waiting mx) \<noteq> 0
     then do {
       let size = length (m_waiting mx);
       s \<leftarrow> release_mutex (m_waiting mx ! (size - 1)) s;
       Some (s\<lparr>s_mutexes := (s_mutexes s)(m \<mapsto> mx\<lparr>m_waiting := take (size - 1) (m_waiting mx)\<rparr>)\<rparr>)
     }
     else Some (s\<lparr>s_mutexes := (s_mutexes s)(m \<mapsto> mx\<lparr>m_locked := 0\<rparr>)\<rparr>)
   }"

section \<open>The transitions\<close>

text \<open>
  Every way the state of the scheduler changes: the timer interrupt, the calls of the current
  thread up to the point where they yield, and the yield itself. The label tells the start of
  a thread, with its niceness, from all other steps. The address of a new node is one the
  allocator may return.
\<close>

datatype smp_event = Start_event u32 | Other_event

inductive smp_step :: "smp_event \<Rightarrow> smp_state \<Rightarrow> smp_state \<Rightarrow> bool" where
  tick: "smp_IntSwitch cpu s = Some (cpu', s') \<Longrightarrow> smp_step Other_event s s'"
| yield: "smp_thread_Yield cpu s = Some (cpu', s') \<Longrightarrow> smp_step Other_event s s'"
| start: "new \<noteq> NULL \<Longrightarrow> s_heap s new = None \<Longrightarrow>
    smp_thread_Start new garbage wait entry args nice s = Some (tid, s') \<Longrightarrow> smp_step (Start_event nice) s s'"
| nice: "smp_thread_Nice tid newnice s = Some (old, s') \<Longrightarrow> smp_step Other_event s s'"
| sleep: "Sleep_request ticks s = Some s' \<Longrightarrow> smp_step Other_event s s'"
| cleanup: "s_Current s \<noteq> NULL \<Longrightarrow> smp_thread_Cleanup stale cpu s = Some (cpu', s') \<Longrightarrow> smp_step Other_event s s'"
| condition: "smp_step Other_event s (snd (smp_Condition_Create c s))"
| condition_wait: "Condition_Wait_request c garbage s = Some s' \<Longrightarrow> smp_step Other_event s s'"
| notify_one: "smp_Condition_NotifyOne c data s = Some (b, s') \<Longrightarrow> smp_step Other_event s s'"
| notify_all: "smp_Condition_NotifyAll c data s = Some (n, s') \<Longrightarrow> smp_step Other_event s s'"
| condition_destroy: "smp_Condition_Destroy c s = Some s' \<Longrightarrow> smp_step Other_event s s'"
| mutex: "smp_step Other_event s (snd (smp_Mutex_Create m s))"
| mutex_destroy: "smp_Mutex_Destroy m s = Some s' \<Longrightarrow> smp_step Other_event s s'"
| trylock: "smp_Mutex_TryLock m s = Some (b, s') \<Longrightarrow> smp_step Other_event s s'"
| lock: "LockTimeout_request m timeout garbage s = Some (b, s') \<Longrightarrow> smp_step Other_event s s'"
| unlock: "smp_Mutex_Unlock m s = Some s' \<Longrightarrow> smp_step Other_event s s'"

text \<open>
  The code checks neither that the id of a new thread nor that its first priority, the current
  tick plus its niceness, is free. A start is fresh if both are; one under the priority of a waiting
  thread loses that thread (theorem \<open>smp_thread_Start_loses_thread\<close>).
\<close>

fun fresh_event :: "smp_state \<Rightarrow> smp_event \<Rightarrow> bool" where
  "fresh_event s (Start_event nice) \<longleftrightarrow>
     map_of (s_Threads s) (of_int (s32 (s_Idallo s + 1))) = None \<and>
     s_Now s + ucast nice \<notin> fst ` set (s_ThreadsWaiting s)"
| "fresh_event s Other_event \<longleftrightarrow> True"

text \<open>The states reached from the start of the scheduler by runs in which every start of a thread is fresh.\<close>

inductive smp_reachable_fresh :: "smp_state \<Rightarrow> bool" where
  init: "s_heap s = Map.empty \<Longrightarrow> new \<noteq> NULL \<Longrightarrow> smp_thread_Init new garbage wait s = Some (tid, s') \<Longrightarrow>
    smp_reachable_fresh s'"
| step: "smp_reachable_fresh s \<Longrightarrow> fresh_event s ev \<Longrightarrow> smp_step ev s s' \<Longrightarrow> smp_reachable_fresh s'"

section \<open>The invariant\<close>

text \<open>The synchronisation calls touch no container of the scheduler and keep the threads' ids.\<close>

definition same_threads :: "smp_state \<Rightarrow> smp_state \<Rightarrow> bool" where
  "same_threads s s' \<longleftrightarrow> s_Current s' = s_Current s \<and> s_Threads s' = s_Threads s \<and>
     s_ThreadsWaiting s' = s_ThreadsWaiting s \<and>
     (\<forall>p. map_option th_id (s_heap s' p) = map_option th_id (s_heap s p))"

lemma same_threads_refl [intro]: "same_threads s s"
  by (simp add: same_threads_def)

lemma same_threads_trans [trans]: "same_threads s s' \<Longrightarrow> same_threads s' s'' \<Longrightarrow> same_threads s s''"
  by (simp add: same_threads_def)

lemma same_threads_fields [simp]:
  "same_threads s (s'\<lparr>s_conditions := c\<rparr>) = same_threads s s'"
  "same_threads s (s'\<lparr>s_mutexes := m\<rparr>) = same_threads s s'"
  by (simp_all add: same_threads_def)

lemma same_threads_inv:
  assumes "smp_inv s" and "same_threads s s'"
  shows "smp_inv s'"
proof -
  have h: "map_option th_id (s_heap s' p) = map_option th_id (s_heap s p)" for p
    using assms(2) by (simp add: same_threads_def)
  have n: "s_heap s' p = None \<longleftrightarrow> s_heap s p = None" for p
    using arg_cong [OF h [of p], of "\<lambda>x. x = None"] by simp
  then have d: "dom (s_heap s') = dom (s_heap s)" by (simp only: dom_def n)
  have i: "\<exists>u. s_heap s p = Some u \<and> th_id u = th_id t" if "s_heap s' p = Some t" for p t
    using h [of p] that by (cases "s_heap s p") simp_all
  have "\<forall>(k, p) \<in> set (s_Threads s). \<forall>t. s_heap s' p = Some t \<longrightarrow> k = of_int (th_id t)"
    using assms(1) i by (fastforce simp: smp_inv_def)
  moreover have "live_threads s' = live_threads s" using assms(2) by (simp add: live_threads_def same_threads_def)
  ultimately show ?thesis using assms d n by (simp add: smp_inv_def same_threads_def)
qed

lemma wait_on_threads: "wait_on type obj timeout garbage s = Some s' \<Longrightarrow> same_threads s s'"
  by (auto simp: wait_on_def same_threads_def Let_def Option.bind_eq_Some_conv)

lemma release_threads: "release p data s = Some s' \<Longrightarrow> same_threads s s'"
  by (auto simp: release_def same_threads_def Option.bind_eq_Some_conv)

lemma release_mutex_threads: "release_mutex p s = Some s' \<Longrightarrow> same_threads s s'"
proof -
  assume "release_mutex p s = Some s'"
  then obtain s1 where "release p 1 s = Some s1" "same_threads s1 s'"
    by (auto simp: release_mutex_def same_threads_def Option.bind_eq_Some_conv)
  with release_threads same_threads_trans show ?thesis by blast
qed

lemma NotifyAll_loop_threads: "NotifyAll_loop ps data s = Some s' \<Longrightarrow> same_threads s s'"
proof (induction ps arbitrary: s)
  case (Cons p ps)
  then obtain s1 where "release p data s = Some s1" "NotifyAll_loop ps data s1 = Some s'"
    by (auto simp: Option.bind_eq_Some_conv)
  with Cons.IH release_threads same_threads_trans show ?case by blast
qed auto

lemmas sync_threads = wait_on_threads release_threads release_mutex_threads NotifyAll_loop_threads

lemma sync_create_threads:
  "same_threads s (snd (smp_Condition_Create c s))" "same_threads s (snd (smp_Mutex_Create m s))"
  by (simp_all add: smp_Condition_Create_def smp_Mutex_Create_def same_threads_refl)

lemma sync_same_threads:
  "Condition_Wait_request c garbage s = Some s' \<Longrightarrow> same_threads s s'"
  "smp_Condition_NotifyOne c data s = Some (b, s') \<Longrightarrow> same_threads s s'"
  "smp_Condition_NotifyAll c data s = Some (n, s') \<Longrightarrow> same_threads s s'"
  "smp_Condition_Destroy c s = Some s' \<Longrightarrow> same_threads s s'"
  "smp_Mutex_Destroy m s = Some s' \<Longrightarrow> same_threads s s'"
  "smp_Mutex_TryLock m s = Some (b, s') \<Longrightarrow> same_threads s s'"
  "LockTimeout_request m timeout garbage s = Some (b, s') \<Longrightarrow> same_threads s s'"
  "smp_Mutex_Unlock m s = Some s' \<Longrightarrow> same_threads s s'"
  by (auto simp: Condition_Wait_request_def smp_Condition_NotifyOne_def smp_Condition_NotifyAll_def
      smp_Condition_Destroy_def smp_Mutex_Destroy_def smp_Mutex_TryLock_def LockTimeout_request_def
      smp_Mutex_Unlock_def Let_def Option.bind_eq_Some_conv dest!: sync_threads split: if_splits)

lemma smp_step_inv: "smp_step ev s s' \<Longrightarrow> fresh_event s ev \<Longrightarrow> smp_inv s \<Longrightarrow> smp_inv s'"
proof (induction rule: smp_step.induct)
  case (tick cpu s cpu' s')
  with smp_IntSwitch_inv [of s cpu] show ?case by auto
next
  case (yield cpu s cpu' s')
  with smp_thread_Yield_inv [of s cpu] show ?case by auto
next
  case (start new s garbage wait entry args nice tid s')
  then show ?case by - (rule smp_thread_Start_inv; simp)
next
  case (cleanup s stale cpu cpu' s')
  with smp_thread_Cleanup_inv [of s stale cpu] show ?case by auto
next
  case (nice tid newnice s old s')
  then show ?case by - (rule smp_thread_Nice_inv)
next
  case (sleep ticks s s')
  then show ?case by - (rule Sleep_request_inv)
qed (rule same_threads_inv, assumption, (rule sync_create_threads | erule sync_same_threads))+

lemma smp_reachable_inv: "smp_reachable_fresh s \<Longrightarrow> smp_inv s"
proof (induction rule: smp_reachable_fresh.induct)
  case (init s new garbage wait tid s')
  with smp_thread_Init_inv [of s new garbage wait] show ?case by auto
qed (blast intro: smp_step_inv)

section \<open>The properties\<close>

text \<open>
  C6: no thread is lost or run twice as long as every thread is started under an id and a priority
  not in use. In every state reached from \<^verbatim>\<open>smp_thread_Init\<close> by timer interrupts, yields, such
  starts, ends of threads, sleeps, changes of niceness, and calls on conditions and mutexes, the current
  thread and the waiting ones are distinct and are exactly the threads allocated, all of them
  found by id, and the next thread switch runs to its end: no dangling pointer is followed. The
  code does not check the restriction on starts.
\<close>

theorem smp_reachable_threads:
  assumes "smp_reachable_fresh s"
  shows "distinct (live_threads s) \<and> set (live_threads s) = dom (s_heap s) \<and>
    snd ` set (s_Threads s) = dom (s_heap s) \<and> (\<exists>r s'. smp_Switch s = Some (r, s'))"
  using smp_reachable_inv [OF assms] smp_Switch_spec [of s] by (auto simp: smp_inv_def)

definition demo_boot :: smp_state where
  "demo_boot = demo_smp\<lparr>s_Current := 0, s_Idallo := 0, s_Threads := [], s_ThreadsWaiting := [], s_heap := Map.empty\<rparr>"

theorem smp_reachable_threads_witness:
  "\<exists>s1 cpu s2 r s3. smp_thread_Init 0x1000 (demo_thread 0 0) demo_wait demo_boot = Some (1, s1) \<and>
     smp_thread_Yield (demo_regs 9) s1 = Some (cpu, s2) \<and> set (live_threads s2) = dom (s_heap s2) \<and>
     smp_Switch s2 = Some (r, s3)"
proof -
  have h: "s_heap demo_boot = Map.empty" by (simp add: demo_boot_def)
  obtain s1 where s1: "smp_thread_Init 0x1000 (demo_thread 0 0) demo_wait demo_boot = Some (1, s1)"
    by (simp add: smp_thread_Init_def Threads_node_def demo_boot_def demo_smp_def)
  then have r1: "smp_reachable_fresh s1" by (intro smp_reachable_fresh.init [OF h]) simp_all
  obtain cpu s2 where s2: "smp_thread_Yield (demo_regs 9) s1 = Some (cpu, s2)"
    using smp_thread_Yield_inv [OF smp_reachable_inv [OF r1]] by blast
  have "smp_reachable_fresh s2" by (rule smp_reachable_fresh.step [OF r1 _ smp_step.yield [OF s2]]) simp
  from smp_reachable_threads [OF this] obtain r s3 where "set (live_threads s2) = dom (s_heap s2)"
    "smp_Switch s2 = Some (r, s3)" by blast
  with s1 s2 show ?thesis by (intro exI conjI)
qed

text \<open>Waiting changes nothing for the other threads, nor for their order.\<close>

lemma ready_threads_cong:
  "s_ThreadsWaiting s' = s_ThreadsWaiting s \<Longrightarrow> s_Now s' = s_Now s \<Longrightarrow>
   (\<And>k p. (k, p) \<in> set (s_ThreadsWaiting s) \<Longrightarrow> s_heap s' p = s_heap s p) \<Longrightarrow> ready_threads s' = ready_threads s"
  by (auto simp: ready_threads_def runnable_def Switch_blocked_def)

text \<open>
  C38: \<^verbatim>\<open>smp_Mutex_Lock\<close> returns without the lock. It expects that the yield comes back only after
  the mutex is handed over; but the switch keeps the current thread, blocked or not, when the key
  of every runnable thread is larger than its new priority. Then the call returns to a thread that
  does not own the mutex, and stays in the list of its waiting threads, while the owner still
  holds it.
\<close>

theorem smp_Mutex_Lock_returns_unlocked:
  assumes inv: "smp_inv s" and cur: "s_heap s (s_Current s) = Some t"
    and mx: "s_mutexes s m = Some mx" "m_locked mx \<noteq> 0"
    and ready: "ready_threads s \<noteq> {}" "\<forall>(k, p) \<in> ready_threads s. Switch_priority (Some t) s < k"
  shows "\<exists>s'. smp_Mutex_Lock m garbage cpu s = Some (Some (), cpu, s') \<and> s_Current s' = s_Current s \<and>
    s_mutexes s' m = Some (mx\<lparr>m_waiting := m_waiting mx @ [s_Current s]\<rparr>)"
proof -
  define w where "w = (case th_wait t of None \<Rightarrow> garbage | Some w \<Rightarrow> w)
    \<lparr>w_type := Waiting_Mutex, w_object := m, w_data := 0, w_timeout := 0\<rparr>"
  define s1 where "s1 = s\<lparr>s_heap := (s_heap s)(s_Current s \<mapsto> t\<lparr>th_wait := Some w\<rparr>),
    s_mutexes := (s_mutexes s)(m \<mapsto> mx\<lparr>m_waiting := m_waiting mx @ [s_Current s]\<rparr>)\<rparr>"
  define s2 where "s2 = s1\<lparr>s_PauseTicker := False, s_LastState := cpu\<rparr>"
  have n: "s_Current s \<noteq> NULL" using inv cur by (auto simp: smp_inv_def)
  have req: "LockTimeout_request m 0 garbage s = Some (False, s1)"
    using cur mx by (simp add: LockTimeout_request_def wait_on_def s1_def w_def)
  have inv1: "smp_inv s1" by (rule same_threads_inv [OF inv sync_same_threads(7) [OF req]])
  have "smp_inv s2" using inv1 unfolding s2_def by (subst smp_inv_cong [of _ s1]) simp_all
  from smp_Switch_spec [OF this] obtain r s' where sw: "smp_Switch s2 = Some (r, s')" "switch_spec s2 r s'" by blast
  have "ready_threads s2 = ready_threads s"
    using smp_inv_current_not_waiting [OF inv n] by (intro ready_threads_cong) (auto simp: s2_def s1_def)
  moreover have "Switch_priority (current_thread s2) s2 = Switch_priority (Some t) s"
    using n by (simp add: s2_def s1_def current_thread_def Switch_priority_def)
  ultimately have r: "s_Current s' = s_Current s2" "s_heap s' = s_heap s2" "s_LastState s' = s_LastState s2"
    using sw(2) ready by (simp_all add: switch_spec_def)
  have "smp_thread_Yield cpu s1 = Some (cpu, s')"
    using sw(1) r by (simp add: smp_thread_Yield_def smp_IntSwitch_def IntSwitch_realcall_def s2_def)
  then have "smp_Mutex_Lock m garbage cpu s = Some (Some (), cpu, s')"
    using req r by (simp add: smp_Mutex_Lock_def smp_Mutex_LockTimeout_def yield_result_def wait_data_def s2_def s1_def)
  with r smp_Switch_fields [OF sw(1)] show ?thesis by (simp add: s2_def s1_def)
qed

definition demo_lock :: smp_state where
  "demo_lock = demo_smp\<lparr>s_ThreadsWaiting := [(150, 0x2000), (190, 0x3000)],
     s_mutexes := [0x7000 \<mapsto> \<lparr>m_locked = 1, m_waiting = []\<rparr>]\<rparr>"

lemma demo_lock_inv: "smp_inv demo_lock"
  by (auto simp: smp_inv_def live_threads_def demo_lock_def demo_smp_def demo_thread_def split: if_splits)

lemma demo_lock_ready: "ready_threads demo_lock = {(190, 0x3000)}"
  by (auto simp: ready_threads_def runnable_def Switch_blocked_def smp_Thread_Waiting_IsWaiting_def demo_lock_def
      demo_smp_def demo_thread_def demo_wait_def)

theorem smp_Mutex_Lock_returns_unlocked_witness:
  "\<exists>s'. smp_Mutex_Lock 0x7000 demo_wait (demo_regs 5) demo_lock = Some (Some (), demo_regs 5, s') \<and>
     s_Current s' = 0x1000 \<and> s_mutexes s' 0x7000 = Some \<lparr>m_locked = 1, m_waiting = [0x1000]\<rparr>"
proof -
  have "s_heap demo_lock (s_Current demo_lock) = Some (demo_thread 1 0)" "s_Current demo_lock = 0x1000"
    "s_mutexes demo_lock 0x7000 = Some \<lparr>m_locked = 1, m_waiting = []\<rparr>"
    "Switch_priority (Some (demo_thread 1 0)) demo_lock = 180"
    by (simp_all add: demo_lock_def demo_smp_def Switch_priority_def demo_thread_def)
  with smp_Mutex_Lock_returns_unlocked [OF demo_lock_inv, where t = "demo_thread 1 0" and m = "0x7000" and garbage = demo_wait and cpu = "demo_regs 5"]
  show ?thesis by (simp add: demo_lock_ready)
qed

end
