(* ===== verification/PE.thy ===== *)
theory PE
  imports Prelude
begin

text \<open>
  The loader's view of an executable: \<^verbatim>\<open>src/execformat/pe/format.h\<close>, \<^verbatim>\<open>struct.c\<close>, \<^verbatim>\<open>reloc.c\<close> and the
  names printed by \<^verbatim>\<open>read_headers.c\<close>. The image lies in the byte memory; a field of one of the packed
  structs is loaded at its offset, which is the sum of the sizes of the fields before it. The
  messages printed are left out. \<open>None\<close> is a failed assertion or a loop that does not end.
\<close>

section \<open>The code\<close>

subsection \<open>The layout of the headers\<close>

definition pe_Header :: layout where
  "pe_Header =
    [(''machineType'', 2), (''numSections'', 2), (''unixTimestamp'', 4), (''offsetSymbolTable'', 4),
     (''numSymbols'', 4), (''sizeofOptionalHeader'', 2), (''flags'', 2)]"

definition StandardFields_PE32P :: layout where
  "StandardFields_PE32P =
    [(''magic'', 2), (''majorLinkerVersion'', 1), (''minorLinkerVersion'', 1), (''sizeofText'', 4),
     (''sizeofData'', 4), (''sizeofBss'', 4), (''offsetofEntryPoint'', 4), (''offsetofText'', 4)]"

definition StandardFields_PE32 :: layout where
  "StandardFields_PE32 =
    [(''magic'', 2), (''majorLinkerVersion'', 1), (''minorLinkerVersion'', 1), (''sizeofText'', 4),
     (''sizeofData'', 4), (''sizeofBss'', 4), (''offsetofEntryPoint'', 4), (''offsetofText'', 4),
     (''offsetofData'', 4)]"

definition WindowsFields_PE32P :: layout where
  "WindowsFields_PE32P =
    [(''imageBase'', 8), (''sectionAlignment'', 4), (''fileAlignment'', 4), (''majorOSVersion'', 2),
     (''minorOSVersion'', 2), (''majorImageVersion'', 2), (''minorImageVersion'', 2),
     (''majorSubsystemVersion'', 2), (''minorSubsystemVersion'', 2), (''win32VersionValue'', 4),
     (''sizeofImage'', 4), (''sizeofHeaders'', 4), (''checksum'', 4), (''subsystem'', 2), (''dllFlags'', 2),
     (''sizeofStackReserve'', 8), (''sizeofStackCommit'', 8), (''sizeofHeapReserve'', 8),
     (''sizeofHeapCommit'', 8), (''loaderFlags'', 4), (''numRVAandSizes'', 4)]"

definition WindowsFields_PE32 :: layout where
  "WindowsFields_PE32 =
    [(''imageBase'', 4), (''sectionAlignment'', 4), (''fileAlignment'', 4), (''majorOSVersion'', 2),
     (''minorOSVersion'', 2), (''majorImageVersion'', 2), (''minorImageVersion'', 2),
     (''majorSubsystemVersion'', 2), (''minorSubsystemVersion'', 2), (''win32VersionValue'', 4),
     (''sizeofImage'', 4), (''sizeofHeaders'', 4), (''checksum'', 4), (''subsystem'', 2), (''dllFlags'', 2),
     (''sizeofStackReserve'', 4), (''sizeofStackCommit'', 4), (''sizeofHeapReserve'', 4),
     (''sizeofHeapCommit'', 4), (''loaderFlags'', 4), (''numRVAandSizes'', 4)]"

definition DataDirectory :: layout where
  "DataDirectory =
    [(''Offset'', 4), (''Size'', 4)]"

text \<open>The optional headers, with the first entry of the data directory.\<close>

definition OptionalHeader_PE32P :: layout where
  "OptionalHeader_PE32P =
     [(''std'', sizeof StandardFields_PE32P), (''win'', sizeof WindowsFields_PE32P), (''data'', sizeof DataDirectory)]"

definition OptionalHeader_PE32 :: layout where
  "OptionalHeader_PE32 =
     [(''std'', sizeof StandardFields_PE32), (''win'', sizeof WindowsFields_PE32), (''data'', sizeof DataDirectory)]"

definition SectionHeader :: layout where
  "SectionHeader =
    [(''name'', 8), (''virtualSize'', 4), (''virtualAddr'', 4), (''sizeofRawData'', 4),
     (''pointerToRawData'', 4), (''pointerToRelocations'', 4), (''pointerToLineNumbers'', 4),
     (''numRelocations'', 2), (''numLineNumbers'', 2), (''flags'', 4)]"

definition OptionalHeader_CheckPacking :: bool where
  "OptionalHeader_CheckPacking \<longleftrightarrow>
     sizeof StandardFields_PE32 = 28 \<and> sizeof StandardFields_PE32P = 24 \<and>
     sizeof WindowsFields_PE32 = 68 \<and> sizeof WindowsFields_PE32P = 88 \<and>
     offsetof OptionalHeader_PE32 ''std'' = 0 \<and> offsetof OptionalHeader_PE32 ''win'' = 28 \<and>
     offsetof OptionalHeader_PE32 ''data'' = 96 \<and> offsetof OptionalHeader_PE32P ''std'' = 0 \<and>
     offsetof OptionalHeader_PE32P ''win'' = 24 \<and> offsetof OptionalHeader_PE32P ''data'' = 112"

definition HEADER_MAGIC :: "u8 list" where "HEADER_MAGIC = [0x50, 0x45, 0, 0]"
definition OPTIONAL_HEADER_MAGIC_PE32P :: u64 where "OPTIONAL_HEADER_MAGIC_PE32P = 0x20b"

definition pe_machines :: "(string \<times> u16) list" where
  "pe_machines = [
    (''MACHINE_UNKNOWN'', 0x0), (''MACHINE_AMD64'', 0x8664), (''MACHINE_I386'', 0x14c),
    (''MACHINE_EBC'', 0xebc)]"

definition pe_flags :: "(string \<times> u32) list" where
  "pe_flags = [
    (''RELOCS_STRIPPED'', 0x0001), (''EXECUTABLE_IMAGE'', 0x0002), (''LINE_NUMS_STRIPPED'', 0x0004),
    (''LOCAL_SYMS_STRIPPED'', 0x0008), (''AGGRESSIVE_WS_TRIM'', 0x0010), (''LARGE_ADDRESS_AWARE'', 0x0020),
    (''RESERVED_0x0040'', 0x0040), (''BYTES_REVERSED_LO'', 0x0080), (''32BIT_MACHINE'', 0x0100),
    (''DEBUG_STRIPPED'', 0x0200), (''REMOVABLE_RUN_FROM_SWAP'', 0x0400), (''NET_RUN_FROM_SWAP'', 0x0800),
    (''SYSTEM'', 0x1000), (''DLL'', 0x2000), (''UP_SYSTEM_ONLY'', 0x4000), (''BYTES_REVERSED_HI'', 0x8000)]"

definition pe_sectionflags :: "(string \<times> u32) list" where
  "pe_sectionflags = [
    (''NO_PAD'', 0x00000008), (''CNT_CODE'', 0x00000020), (''CNT_INITIALIZED_DATA'', 0x00000040),
    (''CNT_UNINITIALIZED_DATA'', 0x00000080), (''LNK_INFO'', 0x00000200), (''LNK_REMOVE'', 0x00000800),
    (''LNK_COMDAT'', 0x00001000), (''GPREL'', 0x00008000), (''LNK_NRELOC_OVFL'', 0x01000000),
    (''MEM_DISCARDABLE'', 0x02000000), (''MEM_NOT_CACHED'', 0x04000000), (''MEM_NOT_PAGED'', 0x08000000),
    (''MEM_SHARED'', 0x10000000), (''MEM_EXECUTE'', 0x20000000), (''MEM_READ'', 0x40000000),
    (''MEM_WRITE'', 0x80000000)]"

definition caseMachine :: "u16 \<Rightarrow> string" where
  "caseMachine type = (case find (\<lambda>(n, v). v = type) pe_machines of Some (n, v) \<Rightarrow> n | None \<Rightarrow> ''(Unknown)'')"

text \<open>The output of the two functions that print flags.\<close>

definition flag_names :: "(string \<times> u32) list \<Rightarrow> u32 \<Rightarrow> string" where
  "flag_names table flags = concat (map (\<lambda>(n, v). if flags AND v \<noteq> 0 then ''|'' @ n else []) table) @ ''|'' @ [CHR 0x0A]"

definition caseFlags :: "u32 \<Rightarrow> string" where
  "caseFlags flags = flag_names pe_flags flags"

definition caseSectionFlags :: "u32 \<Rightarrow> string" where
  "caseSectionFlags flags = flag_names pe_sectionflags flags"

subsection \<open>Loading\<close>

record execformat_pe_PortableExecutable =
  pe_begin :: addr
  pe_pemagic :: addr
  pe_header :: addr
  pe_optional :: addr
  pe_sections :: addr
  pe_size :: u32
  pe_numDataDir :: int
  pe_numSections :: int
  pe_isPE32P :: bool

definition field :: "mem \<Rightarrow> addr \<Rightarrow> layout \<Rightarrow> string \<Rightarrow> u64" where
  "field m p l f = le_load m (p + of_nat (offsetof l f)) (the (map_of l f))"

definition optional_win :: "bool \<Rightarrow> mem \<Rightarrow> addr \<Rightarrow> string \<Rightarrow> u64" where
  "optional_win is_plus m optional f =
     (if is_plus then field m (optional + of_nat (offsetof OptionalHeader_PE32P ''win'')) WindowsFields_PE32P f
      else field m (optional + of_nat (offsetof OptionalHeader_PE32 ''win'')) WindowsFields_PE32 f)"

text \<open>The loop that looks for the magic; the comparison reads up to three bytes past the end.\<close>

function LoadMemory_find :: "mem \<Rightarrow> addr \<Rightarrow> nat \<Rightarrow> nat \<Rightarrow> addr" where
  "LoadMemory_find m img sz i =
     (if i < sz
      then (if bytes_at m (img + of_nat i) 4 = HEADER_MAGIC then img + of_nat i
            else LoadMemory_find m img sz (i + 1))
      else NULL)"
  by pat_completeness auto
termination by (relation "measure (\<lambda>(m, img, sz, i). sz - i)") auto

definition execformat_pe_LoadMemory ::
  "addr \<Rightarrow> u32 \<Rightarrow> mem \<Rightarrow> execformat_pe_PortableExecutable \<Rightarrow> execformat_pe_PortableExecutable option" where
  "execformat_pe_LoadMemory img sz m pe =
     (let pe = pe\<lparr>pe_begin := NULL, pe_pemagic := NULL\<rparr> in
      if sz < 2 \<or> m img \<noteq> 0x4D \<or> m (img + 1) \<noteq> 0x5A then Some pe
      else
        (let pe = pe\<lparr>pe_pemagic := LoadMemory_find m img (unat sz) 8\<rparr> in
         if pe_pemagic pe = NULL then Some pe
         else
           (let pe = pe\<lparr>pe_header := pe_pemagic pe + 4\<rparr>;
                pe = pe\<lparr>pe_numSections := uint (field m (pe_header pe) pe_Header ''numSections'')\<rparr>;
                pe = pe\<lparr>pe_optional := pe_header pe + of_nat (sizeof pe_Header)\<rparr>;
                pe = pe\<lparr>pe_isPE32P := (le_load m (pe_optional pe) 2 = OPTIONAL_HEADER_MAGIC_PE32P)\<rparr>;
                pe = pe\<lparr>pe_numDataDir := s32 (uint (optional_win (pe_isPE32P pe) m (pe_optional pe) ''numRVAandSizes''))\<rparr>;
                fixed = (if pe_isPE32P pe then sizeof StandardFields_PE32P + sizeof WindowsFields_PE32P
                         else sizeof StandardFields_PE32 + sizeof WindowsFields_PE32);
                pe = pe\<lparr>pe_sections := pe_optional pe + of_nat fixed +
                         of_nat (sizeof DataDirectory) * of_int (pe_numDataDir pe)\<rparr>
            in if pe_sections pe - pe_optional pe = field m (pe_header pe) pe_Header ''sizeofOptionalHeader''
               then Some (pe\<lparr>pe_begin := img, pe_size := sz\<rparr>) else None)))"

text \<open>The header of the kernel itself, at the address found in the memory map.\<close>

definition execformat_pe_ReadSystemHeader ::
  "addr \<Rightarrow> u64 \<Rightarrow> mem \<Rightarrow> execformat_pe_PortableExecutable \<Rightarrow> execformat_pe_PortableExecutable option" where
  "execformat_pe_ReadSystemHeader code sz m pe =
     (if OptionalHeader_CheckPacking then execformat_pe_LoadMemory code (ucast sz) m pe else None)"

subsection \<open>Base relocations\<close>

definition BASERELOC_ABSOLUTE :: u64 where "BASERELOC_ABSOLUTE = 0x0000"
definition BASERELOC_HIGH :: u64 where "BASERELOC_HIGH = 0x1000"
definition BASERELOC_LOW :: u64 where "BASERELOC_LOW = 0x2000"
definition BASERELOC_HIGHLOW :: u64 where "BASERELOC_HIGHLOW = 0x3000"
definition BASERELOC_HIGHADJ :: u64 where "BASERELOC_HIGHADJ = 0x4000"
definition BASERELOC_DIR64 :: u64 where "BASERELOC_DIR64 = 0xa000"
definition BASERELOC_FLAG_MASK :: u64 where "BASERELOC_FLAG_MASK = 0xf000"
definition BASERELOC_OFFSET_MASK :: u64 where "BASERELOC_OFFSET_MASK = 0x0fff"

lemmas basereloc = BASERELOC_ABSOLUTE_def BASERELOC_HIGH_def BASERELOC_LOW_def BASERELOC_HIGHLOW_def
  BASERELOC_HIGHADJ_def BASERELOC_DIR64_def BASERELOC_FLAG_MASK_def BASERELOC_OFFSET_MASK_def

definition reloc_caseFlags :: "u64 \<Rightarrow> string" where
  "reloc_caseFlags type =
     (if type = BASERELOC_ABSOLUTE then ''ABSOLUTE'' else if type = BASERELOC_HIGH then ''HIGH''
      else if type = BASERELOC_LOW then ''LOW'' else if type = BASERELOC_HIGHLOW then ''HIGHLOW''
      else if type = BASERELOC_HIGHADJ then ''HIGHADJ'' else if type = BASERELOC_DIR64 then ''DIR64''
      else ''(Unknown)'')"

text \<open>The comparison of a name in memory with the bytes of a literal, of which the last is 0.\<close>

fun local_strncmp :: "mem \<Rightarrow> addr \<Rightarrow> u8 list \<Rightarrow> nat \<Rightarrow> int" where
  "local_strncmp m s1 s2 0 = 0"
| "local_strncmp m s1 [] (Suc n) = 0"
| "local_strncmp m s1 (c # cs) (Suc n) =
     (if m s1 \<noteq> 0 \<and> m s1 = c then local_strncmp m (s1 + 1) cs n else uint (m s1) - uint c)"

text \<open>The name \<^verbatim>\<open>".reloc"\<close>.\<close>

definition reloc_name :: "u8 list" where
  "reloc_name = [0x2E, 0x72, 0x65, 0x6C, 0x6F, 0x63, 0]"

definition BaseReloc_section :: "execformat_pe_PortableExecutable \<Rightarrow> mem \<Rightarrow> addr option" where
  "BaseReloc_section pe m =
     find (\<lambda>s. local_strncmp m (s + of_nat (offsetof SectionHeader ''name'')) reloc_name 6 = 0)
       (map (\<lambda>i. pe_sections pe + of_nat (sizeof SectionHeader * i)) [0..<nat (pe_numSections pe)])"

text \<open>The addition of the difference to a field of \<open>n\<close> bytes, from bit \<open>k\<close> of the difference on.\<close>

definition reloc_add :: "u64 \<Rightarrow> addr \<times> nat \<times> nat \<Rightarrow> mem \<Rightarrow> mem" where
  "reloc_add diff site m = (case site of (p, n, k) \<Rightarrow>
     store_bytes m p (le_bytes n (le_load m p n + drop_bit k diff)))"

definition BaseReloc_entry :: "u64 \<Rightarrow> u64 \<Rightarrow> addr \<Rightarrow> mem \<Rightarrow> mem" where
  "BaseReloc_entry diff flag target m =
     (if flag = BASERELOC_HIGH then reloc_add diff (target, 2, 16) m
      else if flag = BASERELOC_LOW then reloc_add diff (target, 2, 0) m
      else if flag = BASERELOC_HIGHLOW then reloc_add diff (target, 4, 0) m
      else if flag = BASERELOC_DIR64 then reloc_add diff (target, 8, 0) m
      else m)"

text \<open>The loop over the entries of the block at \<open>b\<close>.\<close>

function BaseReloc_entries :: "addr \<Rightarrow> u64 \<Rightarrow> addr \<Rightarrow> int \<Rightarrow> int \<Rightarrow> mem \<Rightarrow> mem" where
  "BaseReloc_entries base diff b i entries m =
     (if i < entries
      then (let e = le_load m (b + 8 + 2 * of_int i) 2;
                target = base + le_load m b 4 + (e AND BASERELOC_OFFSET_MASK);
                flag = e AND BASERELOC_FLAG_MASK;
                i = (if flag = BASERELOC_HIGHADJ then i + 1 else i) in
            BaseReloc_entries base diff b (i + 1) entries (BaseReloc_entry diff flag target m))
      else m)"
  by pat_completeness auto
termination by (relation "measure (\<lambda>(base, diff, b, i, entries, m). nat (entries - i))") (auto simp: Let_def)

declare BaseReloc_entries.simps [simp del]

definition blockSize :: "mem \<Rightarrow> addr \<Rightarrow> u32" where
  "blockSize m b = ucast (le_load m (b + 4) 4)"

partial_function (option) BaseReloc_blocks :: "addr \<Rightarrow> u64 \<Rightarrow> addr \<Rightarrow> addr \<Rightarrow> mem \<Rightarrow> mem option" where
  "BaseReloc_blocks base diff reloc reloc_end m =
     (if reloc < reloc_end
      then (let entries = s32 (uint ((blockSize m reloc - 8) div 2)) in
            if (blockSize m reloc - 8) mod 2 \<noteq> 0 then None
            else (let m = BaseReloc_entries base diff reloc 0 entries m in
                  BaseReloc_blocks base diff (reloc + ucast (blockSize m reloc)) reloc_end m))
      else Some m)"

definition execformat_pe_BaseRelocate ::
  "execformat_pe_PortableExecutable \<Rightarrow> addr \<Rightarrow> addr \<Rightarrow> u64 \<Rightarrow> u64 \<Rightarrow> mem \<Rightarrow> mem option" where
  "execformat_pe_BaseRelocate pe relocBase relocEnd currentBase targetBase m =
     (if pe_begin pe = NULL then Some m
      else
        (let currentBase = (if currentBase = 0 then optional_win (pe_isPE32P pe) m (pe_optional pe) ''imageBase''
                            else currentBase);
             diff = targetBase - currentBase in
         if relocBase \<noteq> NULL \<and> relocEnd \<noteq> NULL
         then BaseReloc_blocks (pe_begin pe) diff relocBase relocEnd m
         else (case BaseReloc_section pe m of
             None \<Rightarrow> Some m
           | Some s \<Rightarrow>
               (let reloc = pe_begin pe + field m s SectionHeader ''virtualAddr'';
                    reloc_end = reloc + field m s SectionHeader ''virtualSize'' in
                if reloc = NULL then Some m
                else BaseReloc_blocks (pe_begin pe) diff reloc reloc_end m))))"

section \<open>The fields a table relocates\<close>

lemma OptionalHeader_CheckPacking_holds: "OptionalHeader_CheckPacking"
  by (simp add: OptionalHeader_CheckPacking_def sizeof_def offsetof_def StandardFields_PE32_def
      StandardFields_PE32P_def WindowsFields_PE32_def WindowsFields_PE32P_def OptionalHeader_PE32_def
      OptionalHeader_PE32P_def)

text \<open>
  The table as data: a list of blocks, each an offset and a list of 16-bit entries. A site is the
  address of a field, its size in bytes, and the first bit of the difference that is added to it.
\<close>

type_synonym reloc_site = "addr \<times> nat \<times> nat"

definition entry_flag :: "u16 \<Rightarrow> u64" where
  "entry_flag e = ucast e AND BASERELOC_FLAG_MASK"

definition entry_site :: "addr \<Rightarrow> u16 \<Rightarrow> reloc_site list" where
  "entry_site base e =
     (let target = base + (ucast e AND BASERELOC_OFFSET_MASK) in
      if entry_flag e = BASERELOC_HIGH then [(target, 2, 16)]
      else if entry_flag e = BASERELOC_LOW then [(target, 2, 0)]
      else if entry_flag e = BASERELOC_HIGHLOW then [(target, 4, 0)]
      else if entry_flag e = BASERELOC_DIR64 then [(target, 8, 0)]
      else [])"

text \<open>The entry after a \<^verbatim>\<open>HIGHADJ\<close> entry is its parameter, and both are skipped.\<close>

fun entry_sites :: "addr \<Rightarrow> u16 list \<Rightarrow> reloc_site list" where
  "entry_sites base [] = []"
| "entry_sites base (e # es) =
     (if entry_flag e = BASERELOC_HIGHADJ then entry_sites base (drop 1 es)
      else entry_site base e @ entry_sites base es)"

definition block_sites :: "addr \<Rightarrow> (u32 \<times> u16 list) list \<Rightarrow> reloc_site list" where
  "block_sites base blocks = concat (map (\<lambda>(off, es). entry_sites (base + ucast off) es) blocks)"

definition block_at :: "mem \<Rightarrow> addr \<Rightarrow> u32 \<Rightarrow> u16 list \<Rightarrow> bool" where
  "block_at m b off es \<longleftrightarrow> le_load m b 4 = ucast off \<and> blockSize m b = 8 + 2 * of_nat (length es) \<and>
     (\<forall>i < length es. le_load m (b + 8 + 2 * of_nat i) 2 = ucast (es ! i))"

text \<open>The blocks follow each other from \<open>b\<close> up to \<open>e\<close>.\<close>

fun reloc_table :: "mem \<Rightarrow> addr \<Rightarrow> addr \<Rightarrow> (u32 \<times> u16 list) list \<Rightarrow> bool" where
  "reloc_table m b e [] \<longleftrightarrow> b = e"
| "reloc_table m b e ((off, es) # blocks) \<longleftrightarrow>
     length es < 2 ^ 30 \<and> unat b + 8 + 2 * length es \<le> unat e \<and> block_at m b off es \<and>
     reloc_table m (b + 8 + 2 * of_nat (length es)) e blocks"

definition sites_off :: "nat \<Rightarrow> nat \<Rightarrow> reloc_site list \<Rightarrow> bool" where
  "sites_off lo hi sites \<longleftrightarrow>
     (\<forall>(p, n, k) \<in> set sites. \<forall>a. in_block a p (of_nat n) \<longrightarrow> \<not> (lo \<le> unat a \<and> unat a < hi))"

fun sites_disjoint :: "reloc_site list \<Rightarrow> bool" where
  "sites_disjoint [] \<longleftrightarrow> True"
| "sites_disjoint ((p, n, k) # sites) \<longleftrightarrow>
     (\<forall>(q, j, l) \<in> set sites. disjoint_blocks p (of_nat n) q (of_nat j)) \<and> sites_disjoint sites"

definition agree :: "nat \<Rightarrow> nat \<Rightarrow> mem \<Rightarrow> mem \<Rightarrow> bool" where
  "agree lo hi m m' \<longleftrightarrow> (\<forall>a. lo \<le> unat a \<and> unat a < hi \<longrightarrow> m' a = m a)"

section \<open>Relocation\<close>

lemma le_load_cong:
  assumes "\<And>a. in_block a p (of_nat n) \<Longrightarrow> m' a = m a" and "n < 2 ^ 64"
  shows "le_load m' p n = le_load m p n"
proof -
  have "bytes_at m' p n = bytes_at m p n"
    using in_block_offset [of _ "of_nat n"] assms by (intro bytes_at_cong) (simp add: unat_of_nat_u64)
  then show ?thesis by (simp add: le_load_value)
qed

lemma le_load_agree:
  assumes "agree lo hi m m'" and "lo \<le> unat p" "unat p + n \<le> hi" "hi < 2 ^ 64"
  shows "le_load m' p n = le_load m p n"
  using assms by (intro le_load_cong) (auto simp: agree_def in_block_interval unat_of_nat_u64)

lemma reloc_add_outside: "\<not> in_block a p (of_nat n) \<Longrightarrow> reloc_add diff (p, n, k) m a = m a"
  by (simp add: reloc_add_def store_bytes_outside)

lemma reloc_add_inside:
  "n < 2 ^ 64 \<Longrightarrow> le_load (reloc_add diff (p, n, k) m) p n = take_bit (8 * n) (le_load m p n + drop_bit k diff)"
  using bytes_at_store_bytes [of "le_bytes n (le_load m p n + drop_bit k diff)" m p]
  by (simp add: reloc_add_def le_load_value)

lemma agree_relocs: "sites_off lo hi sites \<Longrightarrow> agree lo hi m (fold (reloc_add diff) sites m)"
proof (induction sites arbitrary: m)
  case (Cons s sites)
  obtain p n k where s: "s = (p, n, k)" by (cases s) auto
  have "agree lo hi m (reloc_add diff s m)"
    using Cons.prems by (auto simp: s agree_def sites_off_def intro!: reloc_add_outside)
  with Cons.IH [of "reloc_add diff s m"] Cons.prems show ?case
    by (simp add: agree_def sites_off_def)
qed (simp add: agree_def)

lemma block_at_agree:
  assumes "block_at m b off es" and "agree (unat b) hi m m'"
    and "unat b + 8 + 2 * length es \<le> hi" and "hi < 2 ^ 64"
  shows "block_at m' b off es"
proof -
  have load: "le_load m' (b + of_nat i) n = le_load m (b + of_nat i) n" if "i + n \<le> 8 + 2 * length es" for i n
  proof -
    have "unat (b + of_nat i) = unat b + i"
      using that assms(3, 4) by (subst unat_add_no_wrap) (simp_all add: unat_of_nat_u64)
    with that assms show ?thesis by (intro le_load_agree [OF assms(2)]) simp_all
  qed
  have "le_load m' (b + 8 + 2 * of_nat i) 2 = le_load m (b + 8 + 2 * of_nat i) 2" if "i < length es" for i
    using load [of "8 + 2 * i" 2] that by (simp add: add.assoc)
  with assms(1) load [of 0 4] load [of 4 4] show ?thesis by (simp add: block_at_def blockSize_def)
qed

lemma BaseReloc_entry_site:
  "BaseReloc_entry diff (entry_flag e) (base + (ucast e AND BASERELOC_OFFSET_MASK)) m =
     fold (reloc_add diff) (entry_site base e) m"
  by (simp add: BaseReloc_entry_def entry_site_def Let_def)

lemma BaseReloc_entries_sites:
  assumes "block_at m b off es" and "unat b + 8 + 2 * length es \<le> hi" and "hi < 2 ^ 64"
    and "sites_off (unat b) hi (entry_sites (base + ucast off) (drop i es))"
  shows "BaseReloc_entries base diff b (int i) (int (length es)) m =
    fold (reloc_add diff) (entry_sites (base + ucast off) (drop i es)) m"
  using assms
proof (induction "length es - i" arbitrary: i m rule: less_induct)
  case less
  show ?case
  proof (cases "i < length es")
    case False
    then show ?thesis by (subst BaseReloc_entries.simps) simp
  next
    case True
    let ?e = "es ! i" and ?base = "base + ucast off"
    let ?i = "if entry_flag ?e = BASERELOC_HIGHADJ then Suc (Suc i) else Suc i"
    let ?m = "fold (reloc_add diff) (entry_site ?base ?e) m"
    have d: "drop i es = ?e # drop (Suc i) es" using True by (rule Cons_nth_drop_Suc [symmetric])
    have hi: "entry_flag ?e = BASERELOC_HIGHADJ \<Longrightarrow> entry_site ?base ?e = []"
      by (simp add: entry_site_def basereloc)
    have sites: "entry_sites ?base (drop i es) = entry_site ?base ?e @ entry_sites ?base (drop ?i es)"
      using hi by (simp add: d)
    have off: "sites_off (unat b) hi (entry_site ?base ?e)" "sites_off (unat b) hi (entry_sites ?base (drop ?i es))"
      using less.prems(4) unfolding sites by (auto simp: sites_off_def)
    have "block_at ?m b off es"
      by (rule block_at_agree [OF less.prems(1) agree_relocs [OF off(1)] less.prems(2, 3)])
    moreover have "length es - ?i < length es - i" using True by (simp, linarith)
    ultimately have IH: "BaseReloc_entries base diff b (int ?i) (int (length es)) ?m =
        fold (reloc_add diff) (entry_sites ?base (drop ?i es)) ?m"
      using less.prems(2, 3) off(2) by (intro less.hyps)
    have "le_load m (b + 8 + 2 * of_nat i) 2 = ucast ?e" "le_load m b 4 = ucast off"
      using less.prems(1) True by (simp_all add: block_at_def)
    then have "BaseReloc_entries base diff b (int i) (int (length es)) m =
        BaseReloc_entries base diff b (int ?i) (int (length es)) ?m"
      using True BaseReloc_entry_site [of diff ?e ?base m]
      by (subst BaseReloc_entries.simps) (simp add: Let_def entry_flag_def [symmetric] add.commute [of 1])
    with IH sites show ?thesis by simp
  qed
qed

lemma block_entries:
  assumes "block_at m b off es" and "length es < 2 ^ 30"
  shows "s32 (uint ((blockSize m b - 8) div 2)) = int (length es)" and "(blockSize m b - 8) mod 2 = 0"
    and "ucast (blockSize m b) = (8 + 2 * of_nat (length es) :: u64)"
proof -
  have b: "blockSize m b = of_nat (8 + 2 * length es)" using assms(1) by (simp add: block_at_def)
  have d: "blockSize m b - 8 = of_nat (2 * length es)" using b by simp
  have u: "unat (blockSize m b - 8) = 2 * length es" using assms(2) unfolding d
    by (simp add: unat_of_nat take_bit_nat_eq_self del: of_nat_mult)
  have "unat ((blockSize m b - 8) div 2) = length es" using u by (simp add: unat_div)
  then have "uint ((blockSize m b - 8) div 2) = int (length es)" by (metis uint_nat)
  then show "s32 (uint ((blockSize m b - 8) div 2)) = int (length es)"
    using assms(2) by (simp add: s32_int)
  have "unat ((blockSize m b - 8) mod 2) = 0" using u by (simp add: unat_mod)
  then show "(blockSize m b - 8) mod 2 = 0" by (simp add: unat_eq_0)
  have "unat (blockSize m b) = 8 + 2 * length es" using assms(2) unfolding b
    by (simp add: unat_of_nat take_bit_nat_eq_self del: of_nat_add of_nat_mult)
  then show "ucast (blockSize m b) = (8 + 2 * of_nat (length es) :: u64)"
    by (metis (no_types, lifting) of_nat_add of_nat_mult of_nat_numeral of_nat_unat)
qed

lemma block_end:
  assumes "unat (b :: addr) + 8 + 2 * n \<le> unat (e :: addr)"
  shows "unat (b + 8 + 2 * of_nat n) = unat b + 8 + 2 * n"
proof -
  have s: "b + 8 + 2 * of_nat n = b + of_nat (8 + 2 * n)" by (simp add: add.assoc)
  have lt: "unat b + (8 + 2 * n) < 2 ^ 64" using le_less_trans [OF assms unat_lt_u64] by simp
  then have u: "unat (of_nat (8 + 2 * n) :: u64) = 8 + 2 * n" by (intro unat_of_nat_u64) linarith
  have "unat (b + of_nat (8 + 2 * n)) = unat b + unat (of_nat (8 + 2 * n) :: u64)"
    using lt by (intro unat_add_no_wrap) (simp only: u)
  then show ?thesis unfolding s u by simp
qed

lemma reloc_table_agree:
  "reloc_table m b e blocks \<Longrightarrow> agree (unat b) (unat e) m m' \<Longrightarrow> reloc_table m' b e blocks"
proof (induction blocks arbitrary: b)
  case (Cons x blocks)
  obtain off es where x: "x = (off, es)" by (cases x)
  have t: "unat b + 8 + 2 * length es \<le> unat e" "block_at m b off es" using Cons.prems(1) by (simp_all add: x)
  have "agree (unat (b + 8 + 2 * of_nat (length es))) (unat e) m m'"
    using Cons.prems(2) block_end [OF t(1)] by (simp add: agree_def)
  with Cons block_at_agree [OF t(2) Cons.prems(2) t(1) unat_lt_u64] show ?case by (simp add: x)
qed simp

lemma BaseReloc_blocks_sites:
  assumes "reloc_table m b e blocks" and "sites_off (unat b) (unat e) (block_sites base blocks)"
  shows "BaseReloc_blocks base diff b e m = Some (fold (reloc_add diff) (block_sites base blocks) m)"
  using assms
proof (induction blocks arbitrary: b m)
  case Nil
  then show ?case by (subst BaseReloc_blocks.simps) (simp add: block_sites_def)
next
  case (Cons x blocks)
  obtain off es where x: "x = (off, es)" by (cases x)
  let ?n = "length es" and ?sites = "entry_sites (base + ucast off) es"
  let ?m = "fold (reloc_add diff) ?sites m" and ?b = "b + 8 + 2 * of_nat (length es) :: addr"
  from Cons.prems(1) have t: "?n < 2 ^ 30" "unat b + 8 + 2 * ?n \<le> unat e" "block_at m b off es"
    and tail: "reloc_table m ?b e blocks" by (simp_all add: x)
  have off: "sites_off (unat b) (unat e) ?sites" "sites_off (unat b) (unat e) (block_sites base blocks)"
    using Cons.prems(2) by (auto simp: x block_sites_def sites_off_def)
  have ub: "unat ?b = unat b + 8 + 2 * ?n" by (rule block_end [OF t(2)])
  have agr: "agree (unat b) (unat e) m ?m" by (rule agree_relocs [OF off(1)])
  have blk: "block_at ?m b off es" by (rule block_at_agree [OF t(3) agr t(2) unat_lt_u64])
  have ent: "BaseReloc_entries base diff b 0 (int ?n) m = ?m"
    using BaseReloc_entries_sites [OF t(3, 2) unat_lt_u64, of base 0] off(1) by simp
  have lt: "b < e" using t(2) by (simp add: word_less_nat_alt)
  have "reloc_table ?m ?b e blocks"
  proof (rule reloc_table_agree [OF tail])
    show "agree (unat ?b) (unat e) m ?m" using agr ub by (simp add: agree_def)
  qed
  moreover have "sites_off (unat ?b) (unat e) (block_sites base blocks)"
    using off(2) ub by (fastforce simp: sites_off_def)
  ultimately have "BaseReloc_blocks base diff ?b e ?m = Some (fold (reloc_add diff) (block_sites base blocks) ?m)"
    by (rule Cons.IH)
  then show ?case
    using lt ent block_entries [OF t(3, 1)] block_entries(3) [OF blk t(1)]
    by (subst BaseReloc_blocks.simps) (simp add: x block_sites_def Let_def add.assoc)
qed

text \<open>The fields of disjoint sites get the difference once each, and nothing else changes.\<close>

lemma relocs_outside:
  "(\<And>p n k. (p, n, k) \<in> set sites \<Longrightarrow> \<not> in_block a p (of_nat n)) \<Longrightarrow> fold (reloc_add diff) sites m a = m a"
proof (induction sites arbitrary: m)
  case (Cons s sites)
  obtain p n k where s: "s = (p, n, k)" by (cases s) auto
  have "fold (reloc_add diff) sites (reloc_add diff s m) a = reloc_add diff s m a"
    using Cons.prems by (intro Cons.IH) auto
  also have "\<dots> = m a" unfolding s using Cons.prems [of p n k] by (intro reloc_add_outside) (simp add: s)
  finally show ?case by simp
qed simp

lemma relocs_inside:
  "sites_disjoint sites \<Longrightarrow> \<forall>(p, n, k) \<in> set sites. n < 2 ^ 64 \<Longrightarrow> (p, n, k) \<in> set sites \<Longrightarrow>
   le_load (fold (reloc_add diff) sites m) p n = take_bit (8 * n) (le_load m p n + drop_bit k diff)"
proof (induction sites arbitrary: m)
  case (Cons s sites)
  obtain q j l where s: "s = (q, j, l)" by (cases s) auto
  have n: "n < 2 ^ 64" using Cons.prems(2, 3) by fast
  have dis: "\<forall>(p, n, k) \<in> set sites. disjoint_blocks q (of_nat j) p (of_nat n)" using Cons.prems(1) by (simp add: s)
  show ?case
  proof (cases "(p, n, k) = s")
    case True
    have "le_load (fold (reloc_add diff) sites (reloc_add diff s m)) p n = le_load (reloc_add diff s m) p n"
      using True s dis n by (intro le_load_cong relocs_outside) (auto simp: disjoint_blocks_def)
    also have "\<dots> = take_bit (8 * n) (le_load m p n + drop_bit k diff)"
      unfolding True [symmetric] by (rule reloc_add_inside [OF n])
    finally show ?thesis by simp
  next
    case False
    with Cons.prems(3) have mem: "(p, n, k) \<in> set sites" by simp
    have "le_load (reloc_add diff s m) p n = le_load m p n"
      using dis mem n by (intro le_load_cong) (auto simp: s disjoint_blocks_def intro!: reloc_add_outside)
    with Cons.IH [of "reloc_add diff s m"] Cons.prems mem show ?thesis by (simp add: s)
  qed
qed simp

lemma entry_sites_sizes: "(p, n, k) \<in> set (entry_sites base es) \<Longrightarrow> n < 2 ^ 64"
proof (induction base es rule: entry_sites.induct)
  case (2 base e es)
  then show ?case by (auto simp: entry_site_def Let_def split: if_splits)
qed simp

lemma block_sites_sizes: "\<forall>(p, n, k) \<in> set (block_sites base blocks). n < 2 ^ 64"
  by (auto simp: block_sites_def dest: entry_sites_sizes)

section \<open>The properties\<close>

text \<open>
  C14: relocation by a table of blocks. For a table in memory that ends where the last block does,
  whose fields are disjoint from each other and from the table, \<^verbatim>\<open>execformat_pe_BaseRelocate\<close> returns;
  each field named by the table holds its old value plus the difference of the bases (from bit 16
  on for a HIGH entry) at its own width, and every other byte is unchanged.
\<close>

theorem BaseRelocate_relocates:
  assumes "pe_begin pe \<noteq> NULL" and "relocBase \<noteq> NULL" and "relocEnd \<noteq> NULL" and "currentBase \<noteq> 0"
    and "reloc_table m relocBase relocEnd blocks"
    and "sites_off (unat relocBase) (unat relocEnd) (block_sites (pe_begin pe) blocks)"
    and "sites_disjoint (block_sites (pe_begin pe) blocks)"
  shows "\<exists>m'. execformat_pe_BaseRelocate pe relocBase relocEnd currentBase targetBase m = Some m' \<and>
    (\<forall>(p, n, k) \<in> set (block_sites (pe_begin pe) blocks).
       le_load m' p n = take_bit (8 * n) (le_load m p n + drop_bit k (targetBase - currentBase))) \<and>
    (\<forall>a. (\<forall>(p, n, k) \<in> set (block_sites (pe_begin pe) blocks). \<not> in_block a p (of_nat n)) \<longrightarrow> m' a = m a)"
proof -
  let ?sites = "block_sites (pe_begin pe) blocks" and ?diff = "targetBase - currentBase"
  let ?m = "fold (reloc_add ?diff) ?sites m"
  have "execformat_pe_BaseRelocate pe relocBase relocEnd currentBase targetBase m = Some ?m"
    using BaseReloc_blocks_sites [OF assms(5, 6)] assms(1-4) by (simp add: execformat_pe_BaseRelocate_def Let_def)
  moreover have "\<forall>(p, n, k) \<in> set ?sites. le_load ?m p n = take_bit (8 * n) (le_load m p n + drop_bit k ?diff)"
  proof (clarify)
    fix p n k assume "(p, n, k) \<in> set ?sites"
    then show "le_load ?m p n = take_bit (8 * n) (le_load m p n + drop_bit k ?diff)"
      by (rule relocs_inside [OF assms(7) block_sites_sizes])
  qed
  moreover have "\<forall>a. (\<forall>(p, n, k) \<in> set ?sites. \<not> in_block a p (of_nat n)) \<longrightarrow> ?m a = m a"
  proof (intro allI impI)
    fix a assume "\<forall>(p, n, k) \<in> set ?sites. \<not> in_block a p (of_nat n)"
    then show "?m a = m a" by (intro relocs_outside) blast
  qed
  ultimately show ?thesis by blast
qed

text \<open>A table with one block of two entries, a field of eight and one of four bytes.\<close>

definition demo_image :: mem where
  "demo_image = store_bytes (\<lambda>_. 0) 0x20000 [0x00, 0x01, 0, 0, 12, 0, 0, 0, 0x08, 0xA0, 0x10, 0x30]"

definition demo_pe :: execformat_pe_PortableExecutable where
  "demo_pe = \<lparr>pe_begin = 0x10000, pe_pemagic = 0x10080, pe_header = 0x10084, pe_optional = 0x10098,
     pe_sections = 0x10188, pe_size = 0x20000, pe_numDataDir = 16, pe_numSections = 0, pe_isPE32P = True\<rparr>"

lemma demo_sites: "block_sites 0x10000 [(0x100, [0xA008, 0x3010])] = [(0x10108, 8, 0), (0x10110, 4, 0)]"
  by (simp add: block_sites_def entry_site_def entry_flag_def basereloc)

lemma demo_loads:
  "le_load demo_image 0x20000 4 = 0x100" "le_load demo_image 0x20004 4 = 12"
  "le_load demo_image 0x20008 2 = 0xA008" "le_load demo_image 0x2000A 2 = 0x3010"
  "le_load demo_image 0x10108 8 = 0" "le_load demo_image 0x10110 4 = 0"
  by (simp_all add: le_load_def bytes_at_def demo_image_def store_bytes_def upt_conv_Cons)

lemma demo_block: "block_at demo_image 0x20000 0x100 [0xA008, 0x3010]"
proof -
  have "le_load demo_image (0x20000 + 8 + 2 * of_nat i) 2 = ucast ([0xA008, 0x3010 :: u16] ! i)" if "i < 2" for i
    using that less_2_cases [OF that] by (auto simp: demo_loads)
  then show ?thesis by (simp add: block_at_def blockSize_def demo_loads)
qed

lemma demo_table: "reloc_table demo_image 0x20000 0x2000C [(0x100, [0xA008, 0x3010])]"
  using demo_block by simp

theorem BaseRelocate_relocates_witness:
  "\<exists>m'. execformat_pe_BaseRelocate demo_pe 0x20000 0x2000C 0x400000 0x500000 demo_image = Some m' \<and>
     le_load m' 0x10108 8 = 0x100000 \<and> le_load m' 0x10110 4 = 0x100000 \<and> m' 0x10114 = 0"
proof -
  have b: "pe_begin demo_pe = 0x10000" by (simp add: demo_pe_def)
  have d: "sites_off (unat (0x20000 :: u64)) (unat (0x2000C :: u64)) [(0x10108, 8, 0), (0x10110, 4, 0)]"
    by (simp add: sites_off_def in_block_interval)
  have s: "sites_disjoint [(0x10108, 8, 0), (0x10110, 4, 0)]" by (simp add: disjoint_blocksI)
  have o: "\<not> in_block 0x10114 0x10108 8" "\<not> in_block 0x10114 0x10110 4" by (simp_all add: in_block_def)
  from BaseRelocate_relocates [where pe = demo_pe and relocBase = "0x20000" and relocEnd = "0x2000C" and m = demo_image
      and currentBase = "0x400000" and targetBase = "0x500000" and blocks = "[(0x100, [0xA008, 0x3010])]"]
  obtain m' where m': "execformat_pe_BaseRelocate demo_pe 0x20000 0x2000C 0x400000 0x500000 demo_image = Some m'"
    "\<forall>(p, n, k) \<in> set [(0x10108, 8, 0), (0x10110, 4, 0)].
       le_load m' p n = take_bit (8 * n) (le_load demo_image p n + drop_bit k 0x100000)"
    "\<forall>a. (\<forall>(p, n, k) \<in> set [(0x10108 :: u64, 8 :: nat, 0 :: nat), (0x10110, 4, 0)]. \<not> in_block a p (of_nat n)) \<longrightarrow>
       m' a = demo_image a"
    using demo_table d s unfolding b demo_sites by auto
  have "demo_image 0x10114 = 0" by (simp add: demo_image_def store_bytes_def)
  with m' o show ?thesis by (auto simp: demo_loads)
qed

end
