(* ===== verification/Graphics.thy ===== *)
theory Graphics
  imports Numeric
begin

text \<open>
  The frame buffer: the pixel copies of \<^verbatim>\<open>src/graphics/internal_helpers.h\<close>, the drawing operations
  of \<^verbatim>\<open>src/graphics/graphics.c\<close> and the glyphs of \<^verbatim>\<open>src/graphics/unifont.c\<close>. Images lie in the byte
  memory. The stack of invalidated rectangles is the list the theory Stack proves it to be, the
  rectangle on top first. Arithmetic on \<^verbatim>\<open>int\<close> is exact: C leaves its overflow undefined. What the
  firmware answers, the font data and the position of the mouse are arguments.
\<close>

section \<open>The code\<close>

record HelosGraphics_Color =
  c_B :: u8
  c_G :: u8
  c_R :: u8
  c_A :: u8

definition HelosGraphics_Color_Black :: HelosGraphics_Color where
  "HelosGraphics_Color_Black = \<lparr>c_B = 0x00, c_G = 0x00, c_R = 0x00, c_A = 0xff\<rparr>"
definition HelosGraphics_Color_White :: HelosGraphics_Color where
  "HelosGraphics_Color_White = \<lparr>c_B = 0xff, c_G = 0xff, c_R = 0xff, c_A = 0xff\<rparr>"
definition HelosGraphics_Color_Red :: HelosGraphics_Color where
  "HelosGraphics_Color_Red = \<lparr>c_B = 0x00, c_G = 0x00, c_R = 0xff, c_A = 0xff\<rparr>"
definition HelosGraphics_Color_Green :: HelosGraphics_Color where
  "HelosGraphics_Color_Green = \<lparr>c_B = 0x00, c_G = 0xff, c_R = 0x00, c_A = 0xff\<rparr>"
definition HelosGraphics_Color_Blue :: HelosGraphics_Color where
  "HelosGraphics_Color_Blue = \<lparr>c_B = 0xff, c_G = 0x00, c_R = 0x00, c_A = 0xff\<rparr>"
definition HelosGraphics_Color_Cyan :: HelosGraphics_Color where
  "HelosGraphics_Color_Cyan = \<lparr>c_B = 0xff, c_G = 0xff, c_R = 0x00, c_A = 0xff\<rparr>"
definition HelosGraphics_Color_Magenta :: HelosGraphics_Color where
  "HelosGraphics_Color_Magenta = \<lparr>c_B = 0xff, c_G = 0x00, c_R = 0xff, c_A = 0xff\<rparr>"
definition HelosGraphics_Color_Yellow :: HelosGraphics_Color where
  "HelosGraphics_Color_Yellow = \<lparr>c_B = 0x00, c_G = 0xff, c_R = 0xff, c_A = 0xff\<rparr>"

datatype graphics_PixelFormat = RGBA_8bit | BGRA_8bit | OtherFormat

record HelosGraphics_Mode =
  gm_Width :: int
  gm_Height :: int
  gm_PixelsPerLine :: int
  gm_PixelFormat :: graphics_PixelFormat

record graphics_Rect =
  rc_left :: u32
  rc_top :: u32
  rc_width :: u32
  rc_height :: u32

text \<open>The header of a cursor image, with the address of its pixels.\<close>

record xcursor_Image =
  xc_width :: u32
  xc_height :: u32
  xc_xhot :: u32
  xc_yhot :: u32
  xc_pixels :: addr

definition INVALIDATED_BUFFER_SIZE :: nat where "INVALIDATED_BUFFER_SIZE = 32"
definition MOUSE_OVERLAY_SIZE :: int where "MOUSE_OVERLAY_SIZE = 32"

record graphics_state =
  g_mem :: mem
  g_DeviceFramebuffer :: addr
  g_Framebuffer :: addr
  g_FramebufferSize :: u64
  g_Doublebuffer :: addr
  g_Mode :: HelosGraphics_Mode
  g_Cursor :: "xcursor_Image option"
  g_lastMouseX :: int
  g_lastMouseY :: int
  g_lastMouseSizeX :: int
  g_lastMouseSizeY :: int
  g_mouseOverlay :: addr
  g_invalidated_screen :: bool
  g_invalidated :: "graphics_Rect list"
  g_CursorX :: int
  g_CursorY :: int

subsection \<open>Copying and blending\<close>

text \<open>The limits of the part of a region that lies in both images, along one axis.\<close>

definition clip_begin :: "int \<Rightarrow> int \<Rightarrow> int" where
  "clip_begin fromOffset toOffset = intmax3 0 (- fromOffset) (- toOffset)"

definition clip_end :: "int \<Rightarrow> int \<Rightarrow> int \<Rightarrow> int \<Rightarrow> int \<Rightarrow> int" where
  "clip_end cnt fromSize fromOffset toSize toOffset = intmin3 cnt (fromSize - fromOffset) (toSize - toOffset)"

record copy_area =
  ca_from :: addr
  ca_fromOffsetX :: int
  ca_fromOffsetY :: int
  ca_fromSizeX :: int
  ca_fromSizeY :: int
  ca_to :: addr
  ca_toOffsetX :: int
  ca_toOffsetY :: int
  ca_toSizeX :: int
  ca_toSizeY :: int
  ca_countX :: int
  ca_countY :: int

abbreviation ca_beginX :: "copy_area \<Rightarrow> int" where
  "ca_beginX c \<equiv> clip_begin (ca_fromOffsetX c) (ca_toOffsetX c)"
abbreviation ca_beginY :: "copy_area \<Rightarrow> int" where
  "ca_beginY c \<equiv> clip_begin (ca_fromOffsetY c) (ca_toOffsetY c)"
abbreviation ca_endX :: "copy_area \<Rightarrow> int" where
  "ca_endX c \<equiv> clip_end (ca_countX c) (ca_fromSizeX c) (ca_fromOffsetX c) (ca_toSizeX c) (ca_toOffsetX c)"
abbreviation ca_endY :: "copy_area \<Rightarrow> int" where
  "ca_endY c \<equiv> clip_end (ca_countY c) (ca_fromSizeY c) (ca_fromOffsetY c) (ca_toSizeY c) (ca_toOffsetY c)"

definition pixel_at :: "addr \<Rightarrow> int \<Rightarrow> int \<Rightarrow> int \<Rightarrow> addr" where
  "pixel_at base sizeX x y = base + of_int ((x + sizeX * y) * 4)"

text \<open>One row. The length is a \<^verbatim>\<open>size_t\<close>: a negative one is a number just below \<open>2 ^ 64\<close>.\<close>

definition CopyBuffer32_row :: "copy_area \<Rightarrow> int \<Rightarrow> mem \<Rightarrow> mem" where
  "CopyBuffer32_row c i m =
     memcpy m (pixel_at (ca_to c) (ca_toSizeX c) (ca_toOffsetX c + ca_beginX c) (ca_toOffsetY c + i))
       (pixel_at (ca_from c) (ca_fromSizeX c) (ca_fromOffsetX c + ca_beginX c) (ca_fromOffsetY c + i))
       (of_int ((ca_endX c - ca_beginX c) * 4))"

definition graphics_CopyBuffer32 :: "copy_area \<Rightarrow> mem \<Rightarrow> mem" where
  "graphics_CopyBuffer32 c m = fold (CopyBuffer32_row c) [ca_beginY c .. ca_endY c - 1] m"

definition load_color :: "mem \<Rightarrow> addr \<Rightarrow> HelosGraphics_Color" where
  "load_color m p = \<lparr>c_B = m p, c_G = m (p + 1), c_R = m (p + 2), c_A = m (p + 3)\<rparr>"

text \<open>One channel of a blend: the sum is computed as an \<^verbatim>\<open>int\<close> and cut to a byte.\<close>

definition blend :: "u8 \<Rightarrow> u8 \<Rightarrow> u8 \<Rightarrow> u8" where
  "blend src dest a = of_int (uint src + uint dest * (0xff - uint a) div 0xff)"

definition RenderBuffer32_pixel :: "copy_area \<Rightarrow> int \<Rightarrow> int \<Rightarrow> mem \<Rightarrow> mem" where
  "RenderBuffer32_pixel c x y m =
     (let src = pixel_at (ca_from c) (ca_fromSizeX c) (ca_fromOffsetX c + x) (ca_fromOffsetY c + y);
          dest = pixel_at (ca_to c) (ca_toSizeX c) (ca_toOffsetX c + x) (ca_toOffsetY c + y);
          s = load_color m src; d = load_color m dest in
      if c_A s = 0 then m
      else if c_A s = 0xff then store_bytes m dest [c_B s, c_G s, c_R s, 0]
      else store_bytes m dest [blend (c_B s) (c_B d) (c_A s), blend (c_G s) (c_G d) (c_A s),
             blend (c_R s) (c_R d) (c_A s), 0])"

definition graphics_RenderBuffer32 :: "copy_area \<Rightarrow> mem \<Rightarrow> mem" where
  "graphics_RenderBuffer32 c m =
     fold (\<lambda>x. fold (RenderBuffer32_pixel c x) [ca_beginY c .. ca_endY c - 1]) [ca_beginX c .. ca_endX c - 1] m"

subsection \<open>Drawing\<close>

definition graphics_SetPixel_RGB :: "int \<Rightarrow> int \<Rightarrow> HelosGraphics_Color \<Rightarrow> graphics_state \<Rightarrow> graphics_state" where
  "graphics_SetPixel_RGB posX posY color s =
     s\<lparr>g_mem := store_bytes (g_mem s) (pixel_at (g_Framebuffer s) (gm_PixelsPerLine (g_Mode s)) posX posY)
         [c_R color, c_G color, c_B color, 0]\<rparr>"

definition graphics_SetPixel_BGR :: "int \<Rightarrow> int \<Rightarrow> HelosGraphics_Color \<Rightarrow> graphics_state \<Rightarrow> graphics_state" where
  "graphics_SetPixel_BGR posX posY color s =
     s\<lparr>g_mem := store_bytes (g_mem s) (pixel_at (g_Framebuffer s) (gm_PixelsPerLine (g_Mode s)) posX posY)
         [c_B color, c_G color, c_R color, 0]\<rparr>"

definition graphics_SetPixel :: "int \<Rightarrow> int \<Rightarrow> HelosGraphics_Color \<Rightarrow> graphics_state \<Rightarrow> graphics_state" where
  "graphics_SetPixel posX posY color s = (case gm_PixelFormat (g_Mode s) of
       BGRA_8bit \<Rightarrow> graphics_SetPixel_BGR posX posY color s
     | RGBA_8bit \<Rightarrow> graphics_SetPixel_RGB posX posY color s
     | OtherFormat \<Rightarrow> s)"

definition graphics_GetSize :: "graphics_state \<Rightarrow> int \<times> int \<times> int" where
  "graphics_GetSize s = (gm_Width (g_Mode s), gm_Height (g_Mode s), 24)"

text \<open>
  The loop of \<^verbatim>\<open>graphics_ClearBuffer\<close> compares for equality with an end that is computed in bytes
  as if it were in pixels. The variable \<^verbatim>\<open>data\<close> is not set for another format: its value is
  \<open>garbage\<close>.
\<close>

partial_function (option) ClearBuffer_loop :: "addr \<Rightarrow> addr \<Rightarrow> u8 list \<Rightarrow> mem \<Rightarrow> mem option" where
  "ClearBuffer_loop p e data m =
     (if p \<noteq> e then ClearBuffer_loop (p + 4) e data (store_bytes m p data) else Some m)"

definition graphics_ClearBuffer :: "u8 list \<Rightarrow> HelosGraphics_Color \<Rightarrow> graphics_state \<Rightarrow> graphics_state option" where
  "graphics_ClearBuffer garbage color s =
     (if color = HelosGraphics_Color_Black
      then Some (s\<lparr>g_mem := memset (g_mem s) (g_Framebuffer s) 0 (g_FramebufferSize s)\<rparr>)
      else
        (let data = (case gm_PixelFormat (g_Mode s) of
               RGBA_8bit \<Rightarrow> [c_R color, c_G color, c_B color, 0]
             | BGRA_8bit \<Rightarrow> [c_B color, c_G color, c_R color, 0]
             | OtherFormat \<Rightarrow> garbage) in
         do {
           m \<leftarrow> ClearBuffer_loop (g_Framebuffer s) (g_Framebuffer s + g_FramebufferSize s div 4) data (g_mem s);
           Some (s\<lparr>g_mem := m\<rparr>)
         }))"

text \<open>
  A new rectangle is merged with the one on top of the stack when together they form a rectangle;
  on a full stack the whole screen is invalidated.
\<close>

definition rect :: "int \<Rightarrow> int \<Rightarrow> int \<Rightarrow> int \<Rightarrow> graphics_Rect" where
  "rect x y w h = \<lparr>rc_left = of_int x, rc_top = of_int y, rc_width = of_int w, rc_height = of_int h\<rparr>"

definition rect_merge :: "graphics_Rect \<Rightarrow> graphics_Rect \<Rightarrow> graphics_Rect option" where
  "rect_merge prev r =
     (if rc_top prev = rc_top r \<and> rc_height prev = rc_height r
      then (if rc_left prev + rc_width prev = rc_left r
            then Some (r\<lparr>rc_left := rc_left prev, rc_width := rc_width prev + rc_width r\<rparr>)
            else if rc_left r + rc_width r = rc_left prev
            then Some (r\<lparr>rc_width := rc_width r + rc_width prev\<rparr>)
            else None)
      else if rc_left prev = rc_left r \<and> rc_width prev = rc_width r
      then (if rc_top prev + rc_height prev = rc_top r
            then Some (r\<lparr>rc_top := rc_top prev, rc_height := rc_height prev + rc_height r\<rparr>)
            else if rc_top r + rc_height r = rc_top prev
            then Some (r\<lparr>rc_height := rc_height r + rc_height prev\<rparr>)
            else None)
      else None)"

definition graphics_Invalidate :: "int \<Rightarrow> int \<Rightarrow> int \<Rightarrow> int \<Rightarrow> graphics_state \<Rightarrow> graphics_state" where
  "graphics_Invalidate x y w h s =
     (if length (g_invalidated s) = INVALIDATED_BUFFER_SIZE then s\<lparr>g_invalidated_screen := True\<rparr>
      else
        (let r = rect x y w h in
         case g_invalidated s of
           [] \<Rightarrow> s\<lparr>g_invalidated := [r]\<rparr>
         | prev # rs \<Rightarrow> (case rect_merge prev r of
               Some r' \<Rightarrow> s\<lparr>g_invalidated := r' # rs\<rparr>
             | None \<Rightarrow> s\<lparr>g_invalidated := r # prev # rs\<rparr>)))"

text \<open>Both formats store the bytes of the color as they are.\<close>

definition graphics_FillPixel :: "int \<Rightarrow> int \<Rightarrow> int \<Rightarrow> int \<Rightarrow> HelosGraphics_Color \<Rightarrow> graphics_state \<Rightarrow> graphics_state" where
  "graphics_FillPixel startX startY endX endY color s =
     (let put = (\<lambda>i j m. store_bytes m (pixel_at (g_Framebuffer s) (gm_PixelsPerLine (g_Mode s)) i j)
                [c_B color, c_G color, c_R color, 0]);
          s = (if gm_PixelFormat (g_Mode s) = BGRA_8bit
               then s\<lparr>g_mem := fold (\<lambda>i. fold (put i) [startY .. endY - 1]) [startX .. endX - 1] (g_mem s)\<rparr>
               else if gm_PixelFormat (g_Mode s) = RGBA_8bit
               then s\<lparr>g_mem := fold (\<lambda>i. fold (put i) [startY .. endY - 1]) [startX .. endX - 1] (g_mem s)\<rparr>
               else s)
      in graphics_Invalidate startX startY (endX - startX) (endY - startY) s)"

definition screen_area :: "addr \<Rightarrow> int \<Rightarrow> int \<Rightarrow> int \<Rightarrow> int \<Rightarrow>
    addr \<Rightarrow> int \<Rightarrow> int \<Rightarrow> int \<Rightarrow> int \<Rightarrow> int \<Rightarrow> int \<Rightarrow> copy_area" where
  "screen_area from fox foy fsx fsy to tox toy tsx tsy cx cy =
     \<lparr>ca_from = from, ca_fromOffsetX = fox, ca_fromOffsetY = foy, ca_fromSizeX = fsx, ca_fromSizeY = fsy,
      ca_to = to, ca_toOffsetX = tox, ca_toOffsetY = toy, ca_toSizeX = tsx, ca_toSizeY = tsy,
      ca_countX = cx, ca_countY = cy\<rparr>"

subsection \<open>The mouse and the screen\<close>

text \<open>The comparison of the cursor size with the last one is made on unsigned numbers.\<close>

definition graphics_UpdateMouse :: "int \<Rightarrow> int \<Rightarrow> graphics_state \<Rightarrow> graphics_state" where
  "graphics_UpdateMouse x y s = (case g_Cursor s of None \<Rightarrow> s | Some c \<Rightarrow>
     (let imgX = s32 (uint (of_int x - xc_xhot c + 1)); imgY = s32 (uint (of_int y - xc_yhot c + 1));
          w = s32 (uint (xc_width c)); h = s32 (uint (xc_height c));
          sw = gm_Width (g_Mode s); sh = gm_Height (g_Mode s) in
      if imgX \<noteq> g_lastMouseX s \<or> imgY \<noteq> g_lastMouseY s \<or>
         xc_width c \<noteq> of_int (g_lastMouseSizeX s) \<or> xc_height c \<noteq> of_int (g_lastMouseSizeY s)
      then
        (let m = graphics_CopyBuffer32 (screen_area (g_mouseOverlay s) 0 0 MOUSE_OVERLAY_SIZE MOUSE_OVERLAY_SIZE
                   (g_Framebuffer s) (g_lastMouseX s) (g_lastMouseY s) sw sh (g_lastMouseSizeX s) (g_lastMouseSizeY s))
                   (g_mem s);
             m = graphics_CopyBuffer32 (screen_area (g_Framebuffer s) imgX imgY sw sh
                   (g_mouseOverlay s) 0 0 MOUSE_OVERLAY_SIZE MOUSE_OVERLAY_SIZE w h) m;
             m = graphics_RenderBuffer32 (screen_area (xc_pixels c) 0 0 w h
                   (g_Framebuffer s) imgX imgY sw sh w h) m;
             s = s\<lparr>g_mem := m\<rparr>;
             s = graphics_Invalidate (g_lastMouseX s) (g_lastMouseY s) (g_lastMouseSizeX s) (g_lastMouseSizeY s) s;
             s = graphics_Invalidate imgX imgY w h s
         in s\<lparr>g_lastMouseX := imgX, g_lastMouseY := imgY, g_lastMouseSizeX := w, g_lastMouseSizeY := h\<rparr>)
      else s))"

definition SwapBuffer_rect :: "graphics_state \<Rightarrow> graphics_Rect \<Rightarrow> mem \<Rightarrow> mem" where
  "SwapBuffer_rect s r =
     (let left = s32 (uint (rc_left r)); tp = s32 (uint (rc_top r)) in
      graphics_CopyBuffer32 (screen_area (g_Framebuffer s) left tp (gm_Width (g_Mode s)) (gm_Height (g_Mode s))
        (g_DeviceFramebuffer s) left tp (gm_Width (g_Mode s)) (gm_Height (g_Mode s))
        (s32 (uint (rc_width r))) (s32 (uint (rc_height r)))))"

definition graphics_SwapBuffer :: "int \<Rightarrow> int \<Rightarrow> graphics_state \<Rightarrow> graphics_state" where
  "graphics_SwapBuffer mouseX mouseY s =
     (let s = graphics_UpdateMouse mouseX mouseY s;
          m = (if g_invalidated_screen s
               then memcpy (g_mem s) (g_DeviceFramebuffer s) (g_Framebuffer s) (g_FramebufferSize s)
               else fold (SwapBuffer_rect s) (g_invalidated s) (g_mem s))
      in s\<lparr>g_mem := m, g_invalidated_screen := False, g_invalidated := []\<rparr>)"

text \<open>\<^verbatim>\<open>memmove\<close> reads the whole source before it writes.\<close>

definition graphics_Scroll :: "int \<Rightarrow> graphics_state \<Rightarrow> graphics_state" where
  "graphics_Scroll scrollY s =
     (let ppl = gm_PixelsPerLine (g_Mode s); w = gm_Width (g_Mode s); h = gm_Height (g_Mode s);
          m = memcpy (g_mem s) (g_Doublebuffer s) (g_Doublebuffer s + of_int (4 * (ppl * scrollY)))
                (of_int (4 * (ppl * (h - scrollY))));
          s = graphics_FillPixel 0 (h - scrollY) w h HelosGraphics_Color_Black (s\<lparr>g_mem := m\<rparr>)
      in s\<lparr>g_lastMouseY := g_lastMouseY s - scrollY, g_invalidated_screen := True\<rparr>)"

definition graphics_ElementSize :: "int \<Rightarrow> int \<Rightarrow> graphics_state \<Rightarrow> graphics_state" where
  "graphics_ElementSize sizeX sizeY s =
     (let s = (if g_CursorX s + sizeX \<ge> gm_Width (g_Mode s)
               then s\<lparr>g_CursorY := g_CursorY s + sizeY, g_CursorX := 0\<rparr> else s) in
      if g_CursorY s + sizeY \<ge> gm_Height (g_Mode s)
      then (let s = graphics_Scroll (sizeY + g_CursorY s - gm_Height (g_Mode s)) s in
            s\<lparr>g_CursorY := gm_Height (g_Mode s) - sizeY\<rparr>)
      else s)"

definition graphics_Newline :: "int \<Rightarrow> graphics_state \<Rightarrow> graphics_state" where
  "graphics_Newline advanceY s = s\<lparr>g_CursorY := g_CursorY s + advanceY, g_CursorX := 0\<rparr>"

subsection \<open>Glyphs\<close>

definition UNIFONT_CHAR_WIDTH :: int where "UNIFONT_CHAR_WIDTH = 8"
definition UNIFONT_CHAR_HEIGHT :: int where "UNIFONT_CHAR_HEIGHT = 16"

definition unifont_IsCharDoublewidth :: "u32 \<Rightarrow> bool" where
  "unifont_IsCharDoublewidth ucs \<longleftrightarrow> ucs \<ge> 0x1100 \<and>
     (ucs \<le> 0x115f \<or> ucs = 0x2329 \<or> ucs = 0x232a \<or>
      ucs \<ge> 0x2e80 \<and> ucs \<le> 0xa4cf \<and> ucs \<noteq> 0x303f \<or> ucs \<ge> 0xac00 \<and> ucs \<le> 0xd7a3 \<or>
      ucs \<ge> 0xf900 \<and> ucs \<le> 0xfaff \<or> ucs \<ge> 0xfe10 \<and> ucs \<le> 0xfe19 \<or> ucs \<ge> 0xfe30 \<and> ucs \<le> 0xfe6f \<or>
      ucs \<ge> 0xff00 \<and> ucs \<le> 0xff60 \<or> ucs \<ge> 0xffe0 \<and> ucs \<le> 0xffe6 \<or>
      ucs \<ge> 0x20000 \<and> ucs \<le> 0x2fffd \<or> ucs \<ge> 0x30000 \<and> ucs \<le> 0x3fffd)"

text \<open>One line of a glyph is a byte, the leftmost pixel in its highest bit.\<close>

definition glyph_line :: "int \<Rightarrow> int \<Rightarrow> HelosGraphics_Color \<Rightarrow> u8 \<Rightarrow> graphics_state \<Rightarrow> graphics_state" where
  "glyph_line posX posY color line s =
     fold (\<lambda>x s. if line AND push_bit (7 - x mod 8) 1 \<noteq> 0 then graphics_SetPixel (posX + int x) posY color s else s)
       [0..<8] s"

text \<open>The offset of a glyph is computed in 32 bits; \<open>font\<close> is the font data.\<close>

definition unifont_DrawChar :: "(u32 \<Rightarrow> u8) \<Rightarrow> int \<Rightarrow> int \<Rightarrow> HelosGraphics_Color \<Rightarrow> u32 \<Rightarrow> graphics_state \<Rightarrow> graphics_state" where
  "unifont_DrawChar font posX posY color codepoint s =
     (let d = codepoint * 8 * 16 * 2 div 8 in
      if unifont_IsCharDoublewidth codepoint
      then fold (\<lambda>y s. glyph_line (posX + 8) (posY + int y) color (font (d + of_nat (2 * y + 1)))
                  (glyph_line posX (posY + int y) color (font (d + of_nat (2 * y))) s)) [0..<16] s
      else fold (\<lambda>y. glyph_line posX (posY + int y) color (font (d + of_nat y))) [0..<16] s)"

definition DrawString_char :: "(u32 \<Rightarrow> u8) \<Rightarrow> int \<Rightarrow> HelosGraphics_Color \<Rightarrow> (u32 \<Rightarrow> int) \<Rightarrow> u32 \<Rightarrow>
    int \<times> int \<times> graphics_state \<Rightarrow> int \<times> int \<times> graphics_state" where
  "DrawString_char font posX color advance cp = (\<lambda>(x, y, s).
     if cp = 0x0A then (posX, y + UNIFONT_CHAR_HEIGHT, s)
     else if cp = 0x0D then (posX, y, s)
     else (x + advance cp, y, unifont_DrawChar font x y color cp s))"

definition unifont_DrawString :: "(u32 \<Rightarrow> u8) \<Rightarrow> int \<Rightarrow> int \<Rightarrow> HelosGraphics_Color \<Rightarrow> u32 list \<Rightarrow> graphics_state \<Rightarrow> graphics_state" where
  "unifont_DrawString font posX posY color codepoints s = snd (snd
     (fold (DrawString_char font posX color
         (\<lambda>cp. UNIFONT_CHAR_WIDTH * (if unifont_IsCharDoublewidth cp then 2 else 1))) codepoints (posX, posY, s)))"

definition unifont_DrawStringUTF16 :: "(u32 \<Rightarrow> u8) \<Rightarrow> int \<Rightarrow> int \<Rightarrow> HelosGraphics_Color \<Rightarrow> u16 list \<Rightarrow> graphics_state \<Rightarrow> graphics_state" where
  "unifont_DrawStringUTF16 font posX posY color codepoints s =
     unifont_DrawString font posX posY color (map ucast codepoints) s"

text \<open>A \<^verbatim>\<open>char\<close> is signed. The string is the one before the terminating zero when \<open>count\<close> is 0.\<close>

definition unifont_DrawStringASCII :: "(u32 \<Rightarrow> u8) \<Rightarrow> int \<Rightarrow> int \<Rightarrow> HelosGraphics_Color \<Rightarrow> u8 list \<Rightarrow> graphics_state \<Rightarrow> graphics_state" where
  "unifont_DrawStringASCII font posX posY color codepoints s = snd (snd
     (fold (DrawString_char font posX color (\<lambda>_. UNIFONT_CHAR_WIDTH)) (map scast codepoints) (posX, posY, s)))"

section \<open>Copying a region\<close>

text \<open>A run of block copies whose sources are never overwritten.\<close>

lemma copies_outside:
  "(\<And>d src. (d, src) \<in> set rows \<Longrightarrow> \<not> in_block a d n) \<Longrightarrow> fold (\<lambda>(d, src) m. memcpy m d src n) rows m a = m a"
proof (induction rows arbitrary: m)
  case (Cons r rows)
  obtain d src where r: "r = (d, src)" by (cases r)
  have "fold (\<lambda>(d, src) m. memcpy m d src n) rows (memcpy m d src n) a = memcpy m d src n a"
    using Cons.prems by (intro Cons.IH) auto
  with Cons.prems [of d src] show ?case by (simp add: r memcpy_outside)
qed simp

lemma copies_inside:
  assumes "\<And>d src d' src'. (d, src) \<in> set rows \<Longrightarrow> (d', src') \<in> set rows \<Longrightarrow> disjoint_blocks src n d' n"
    and "sorted_wrt (\<lambda>x y. disjoint_blocks (fst x) n (fst y) n) rows"
    and "(d, src) \<in> set rows" and "in_block a d n"
  shows "fold (\<lambda>(d, src) m. memcpy m d src n) rows m a = m (src + (a - d))"
  using assms
proof (induction rows arbitrary: m)
  case (Cons r rows)
  obtain d1 src1 where r: "r = (d1, src1)" by (cases r)
  show ?case
  proof (cases "(d, src) = r")
    case True
    have "\<not> in_block a d' n" if "(d', src') \<in> set rows" for d' src'
      using Cons.prems(2, 4) that True by (force simp: r disjoint_blocks_def)
    from copies_outside [OF this] True Cons.prems(4) show ?thesis
      by (auto simp: r memcpy_def in_block_def)
  next
    case False
    then have mem: "(d, src) \<in> set rows" using Cons.prems(3) by simp
    have IH: "fold (\<lambda>(d, src) m. memcpy m d src n) rows (memcpy m d1 src1 n) a = memcpy m d1 src1 n (src + (a - d))"
      using Cons.prems mem by (intro Cons.IH) auto
    have "in_block (src + (a - d)) src n" using Cons.prems(4) by (simp add: in_block_def)
    moreover have "disjoint_blocks src n d1 n" using Cons.prems(1) [of d src d1 src1] mem by (simp add: r)
    ultimately have "\<not> in_block (src + (a - d)) d1 n" by (auto simp: disjoint_blocks_def)
    with IH show ?thesis by (simp add: r memcpy_outside)
  qed
qed simp

text \<open>Blocks at offsets from a base.\<close>

lemma in_block_int:
  assumes "0 \<le> A" "A < 2 ^ 63" "0 \<le> D" "D < 2 ^ 63" "0 \<le> N" "N < 2 ^ 63"
  shows "in_block (base + of_int A) (base + of_int D) (of_int N) \<longleftrightarrow> D \<le> A \<and> A < D + N"
proof -
  have "(base + of_int A) - (base + of_int D) = (of_int (A - D) :: u64)" by simp
  moreover
  have u: "uint (of_int z :: u64) = z mod 2 ^ 64" for z by (simp add: uint_word_of_int)
  have "uint (of_int (A - D) :: u64) = (if D \<le> A then A - D else A - D + 2 ^ 64)"
  proof (cases "D \<le> A")
    case False
    have "(A - D) mod 2 ^ 64 = (A - D + 2 ^ 64) mod 2 ^ 64" by simp
    also have "\<dots> = A - D + 2 ^ 64" using assms False by (intro mod_pos_pos_trivial) simp_all
    finally show ?thesis using False unfolding u by simp
  qed (use assms in \<open>simp add: u del: of_int_diff\<close>)
  moreover have "uint (of_int N :: u64) = N" using assms by (simp add: uint_word_of_int)
  ultimately show ?thesis using assms by (auto simp: in_block_def word_less_def)
qed

lemma in_block_part:
  assumes "in_block a (base + of_int D) (of_int N)" and "0 \<le> D" "0 \<le> N" "D + N \<le> S" "S < 2 ^ 63"
  shows "in_block a base (of_int S)"
proof -
  define k where "k = uint (a - (base + of_int D))"
  have "uint (of_int N :: u64) = N" using assms by (simp add: uint_word_of_int)
  then have k: "0 \<le> k" "k < N" using assms(1) by (simp_all add: k_def in_block_def word_less_def)
  have "of_int k = a - (base + of_int D)" by (simp add: k_def)
  then have "a = base + of_int (k + D)" by simp
  with in_block_int [of "k + D" 0 S base] assms k show ?thesis by simp
qed

text \<open>The pixels of an image of \<open>W\<close> times \<open>H\<close>: which of them a row of a region holds.\<close>

lemma pixel_offset_bounds:
  assumes "0 \<le> X" "X + k \<le> W" "0 \<le> (Y::int)" "Y < H" "0 \<le> k"
  shows "0 \<le> (X + W * Y) * 4" and "(X + W * Y) * 4 + 4 * k \<le> 4 * (W * H)"
proof -
  have "0 \<le> W * Y" using assms by simp
  then show "0 \<le> (X + W * Y) * 4" using assms by simp
  have "W * (Y + 1) \<le> W * H" using assms by (intro mult_left_mono) simp_all
  with assms show "(X + W * Y) * 4 + 4 * k \<le> 4 * (W * H)" by (simp add: distrib_left)
qed

lemma pixel_in_row:
  assumes "0 \<le> X" "X < W" "0 \<le> X0" "X0 + k \<le> W" "0 \<le> (j::int)" "j < 4"
  shows "(X0 + W * V) * 4 \<le> (X + W * Y) * 4 + j \<and> (X + W * Y) * 4 + j < (X0 + W * V) * 4 + k * 4 \<longleftrightarrow>
    Y = V \<and> X0 \<le> X \<and> X < X0 + k"
proof (cases Y V rule: linorder_cases)
  case less
  then have "W * (Y + 1) \<le> W * V" using assms by (intro mult_left_mono) simp_all
  then have "X + W * Y < X0 + W * V" using assms by (simp add: distrib_left)
  with less assms show ?thesis by simp
next
  case greater
  then have "W * (V + 1) \<le> W * Y" using assms by (intro mult_left_mono) simp_all
  then have "X0 + k + W * V \<le> X + W * Y" using assms by (simp add: distrib_left)
  with greater assms show ?thesis by simp
qed (use assms in auto)

text \<open>
  The region is copied between two images in separate memory, and the part of it in both is not of
  negative width.
\<close>

definition copy_ok :: "copy_area \<Rightarrow> bool" where
  "copy_ok c \<longleftrightarrow> 0 \<le> ca_toSizeX c \<and> 0 \<le> ca_fromSizeX c \<and>
     4 * (ca_toSizeX c * ca_toSizeY c) < 2 ^ 63 \<and> 4 * (ca_fromSizeX c * ca_fromSizeY c) < 2 ^ 63 \<and>
     disjoint_blocks (ca_from c) (of_int (4 * (ca_fromSizeX c * ca_fromSizeY c)))
       (ca_to c) (of_int (4 * (ca_toSizeX c * ca_toSizeY c))) \<and>
     ca_beginX c \<le> ca_endX c"

text \<open>The pixel of the region at \<open>(u, v)\<close> lies in the source image; that it lies in the destination is asked apart.\<close>

definition in_region :: "copy_area \<Rightarrow> int \<Rightarrow> int \<Rightarrow> bool" where
  "in_region c u v \<longleftrightarrow> 0 \<le> u \<and> u < ca_countX c \<and> 0 \<le> v \<and> v < ca_countY c \<and>
     0 \<le> ca_fromOffsetX c + u \<and> ca_fromOffsetX c + u < ca_fromSizeX c \<and>
     0 \<le> ca_fromOffsetY c + v \<and> ca_fromOffsetY c + v < ca_fromSizeY c"

definition copy_row :: "copy_area \<Rightarrow> int \<Rightarrow> addr \<times> addr" where
  "copy_row c i =
     (pixel_at (ca_to c) (ca_toSizeX c) (ca_toOffsetX c + ca_beginX c) (ca_toOffsetY c + i),
      pixel_at (ca_from c) (ca_fromSizeX c) (ca_fromOffsetX c + ca_beginX c) (ca_fromOffsetY c + i))"

abbreviation row_bytes :: "copy_area \<Rightarrow> int" where
  "row_bytes c \<equiv> (ca_endX c - ca_beginX c) * 4"

definition row_len :: "copy_area \<Rightarrow> u64" where
  "row_len c = of_int (row_bytes c)"

lemma CopyBuffer32_rows:
  "graphics_CopyBuffer32 c m = fold (\<lambda>(d, src) m. memcpy m d src (row_len c))
     (map (copy_row c) [ca_beginY c .. ca_endY c - 1]) m"
  by (simp add: graphics_CopyBuffer32_def fold_map o_def copy_row_def CopyBuffer32_row_def [abs_def] row_len_def)

lemma clip_limits:
  "0 \<le> clip_begin fo to" "0 \<le> fo + clip_begin fo to" "0 \<le> to + clip_begin fo to"
  "clip_end n fs fo ts to \<le> n" "fo + clip_end n fs fo ts to \<le> fs" "to + clip_end n fs fo ts to \<le> ts"
  by (auto simp: clip_begin_def clip_end_def)

lemma clip_between:
  "clip_begin fo to \<le> u \<and> u < clip_end n fs fo ts to \<longleftrightarrow>
     0 \<le> u \<and> u < n \<and> 0 \<le> fo + u \<and> fo + u < fs \<and> 0 \<le> to + u \<and> to + u < ts"
  by (auto simp: clip_begin_def clip_end_def)

text \<open>The rows lie in the two images.\<close>

lemma row_limits:
  assumes "copy_ok c" and "ca_beginY c \<le> i" "i < ca_endY c"
  shows "0 \<le> (ca_toOffsetX c + ca_beginX c + ca_toSizeX c * (ca_toOffsetY c + i)) * 4"
    and "(ca_toOffsetX c + ca_beginX c + ca_toSizeX c * (ca_toOffsetY c + i)) * 4 + row_bytes c \<le>
      4 * (ca_toSizeX c * ca_toSizeY c)"
    and "0 \<le> (ca_fromOffsetX c + ca_beginX c + ca_fromSizeX c * (ca_fromOffsetY c + i)) * 4"
    and "(ca_fromOffsetX c + ca_beginX c + ca_fromSizeX c * (ca_fromOffsetY c + i)) * 4 + row_bytes c \<le>
      4 * (ca_fromSizeX c * ca_fromSizeY c)"
proof -
  let ?k = "ca_endX c - ca_beginX c"
  have k: "0 \<le> ?k" using assms(1) by (simp add: copy_ok_def)
  have y: "0 \<le> i" "0 \<le> ca_fromOffsetY c + i" "ca_fromOffsetY c + i < ca_fromSizeY c"
    "0 \<le> ca_toOffsetY c + i" "ca_toOffsetY c + i < ca_toSizeY c"
    using assms(2, 3) clip_between [of "ca_fromOffsetY c" "ca_toOffsetY c" i] by blast+
  have tx: "0 \<le> ca_toOffsetX c + ca_beginX c" "ca_toOffsetX c + ca_beginX c + ?k \<le> ca_toSizeX c"
    using clip_limits(3) clip_limits(6) [of "ca_toOffsetX c"] by simp_all
  have fx: "0 \<le> ca_fromOffsetX c + ca_beginX c" "ca_fromOffsetX c + ca_beginX c + ?k \<le> ca_fromSizeX c"
    using clip_limits(2) clip_limits(5) [of "ca_fromOffsetX c"] by simp_all
  from pixel_offset_bounds [OF tx y(4, 5) k] pixel_offset_bounds [OF fx y(2, 3) k]
  show "0 \<le> (ca_toOffsetX c + ca_beginX c + ca_toSizeX c * (ca_toOffsetY c + i)) * 4"
    "(ca_toOffsetX c + ca_beginX c + ca_toSizeX c * (ca_toOffsetY c + i)) * 4 + row_bytes c \<le>
      4 * (ca_toSizeX c * ca_toSizeY c)"
    "0 \<le> (ca_fromOffsetX c + ca_beginX c + ca_fromSizeX c * (ca_fromOffsetY c + i)) * 4"
    "(ca_fromOffsetX c + ca_beginX c + ca_fromSizeX c * (ca_fromOffsetY c + i)) * 4 + row_bytes c \<le>
      4 * (ca_fromSizeX c * ca_fromSizeY c)" by (simp_all add: mult.commute)
qed

lemma row_in_images:
  assumes ok: "copy_ok c" and i: "ca_beginY c \<le> i" "i < ca_endY c"
  shows "in_block a (fst (copy_row c i)) (row_len c) \<Longrightarrow>
      in_block a (ca_to c) (of_int (4 * (ca_toSizeX c * ca_toSizeY c)))"
    and "in_block a (snd (copy_row c i)) (row_len c) \<Longrightarrow>
      in_block a (ca_from c) (of_int (4 * (ca_fromSizeX c * ca_fromSizeY c)))"
proof -
  have k: "0 \<le> row_bytes c" using ok by (simp add: copy_ok_def)
  note r = row_limits [OF ok i]
  show "in_block a (ca_to c) (of_int (4 * (ca_toSizeX c * ca_toSizeY c)))"
    if "in_block a (fst (copy_row c i)) (row_len c)"
    using that r(1, 2) k ok unfolding copy_row_def pixel_at_def fst_conv row_len_def
    by (elim in_block_part) (simp_all add: copy_ok_def)
  show "in_block a (ca_from c) (of_int (4 * (ca_fromSizeX c * ca_fromSizeY c)))"
    if "in_block a (snd (copy_row c i)) (row_len c)"
    using that r(3, 4) k ok unfolding copy_row_def pixel_at_def snd_conv row_len_def
    by (elim in_block_part) (simp_all add: copy_ok_def)
qed

text \<open>Which bytes of the destination a row covers.\<close>

lemma in_row:
  assumes ok: "copy_ok c" and i: "ca_beginY c \<le> i" "i < ca_endY c"
    and A: "0 \<le> A" "A < 4 * (ca_toSizeX c * ca_toSizeY c)"
  shows "in_block (ca_to c + of_int A) (fst (copy_row c i)) (row_len c) \<longleftrightarrow>
    (ca_toOffsetX c + ca_beginX c + ca_toSizeX c * (ca_toOffsetY c + i)) * 4 \<le> A \<and>
    A < (ca_toOffsetX c + ca_beginX c + ca_toSizeX c * (ca_toOffsetY c + i)) * 4 + row_bytes c"
proof -
  have s: "4 * (ca_toSizeX c * ca_toSizeY c) < 2 ^ 63" and k: "0 \<le> row_bytes c"
    using ok by (simp_all add: copy_ok_def)
  note r = row_limits(1, 2) [OF ok i]
  show ?thesis unfolding copy_row_def pixel_at_def fst_conv row_len_def
    by (rule in_block_int) (use r s k A in linarith)+
qed

lemma rows_disjoint:
  assumes ok: "copy_ok c" and i: "ca_beginY c \<le> i" "i < j" "j < ca_endY c"
  shows "disjoint_blocks (fst (copy_row c i)) (row_len c) (fst (copy_row c j)) (row_len c)"
  unfolding disjoint_blocks_def
proof (intro allI notI, elim conjE)
  let ?S = "4 * (ca_toSizeX c * ca_toSizeY c)"
  fix a assume a: "in_block a (fst (copy_row c i)) (row_len c)"
    "in_block a (fst (copy_row c j)) (row_len c)"
  define A where "A = uint (a - ca_to c)"
  have "ca_beginY c \<le> j" "i < ca_endY c" using i by simp_all
  have "in_block a (ca_to c) (of_int ?S)" using row_in_images(1) [OF ok i(1) \<open>i < ca_endY c\<close> a(1)] .
  moreover have "uint (of_int ?S :: u64) = ?S"
  proof -
    have "0 \<le> ?S" using row_limits(1, 2) [OF ok i(1) \<open>i < ca_endY c\<close>] ok by (simp add: copy_ok_def)
    with ok show ?thesis by (simp add: uint_word_of_int copy_ok_def del: of_int_mult)
  qed
  ultimately have A: "0 \<le> A" "A < ?S" by (simp_all add: A_def in_block_def word_less_def)
  have "a = ca_to c + of_int A" by (simp add: A_def)
  with a have "in_block (ca_to c + of_int A) (fst (copy_row c i)) (row_len c)"
    "in_block (ca_to c + of_int A) (fst (copy_row c j)) (row_len c)" by simp_all
  then have "(ca_toOffsetX c + ca_beginX c + ca_toSizeX c * (ca_toOffsetY c + j)) * 4 <
    (ca_toOffsetX c + ca_beginX c + ca_toSizeX c * (ca_toOffsetY c + i)) * 4 + row_bytes c"
    unfolding in_row [OF ok i(1) \<open>i < ca_endY c\<close> A] in_row [OF ok \<open>ca_beginY c \<le> j\<close> i(3) A] by linarith
  moreover have "ca_toSizeX c * (ca_toOffsetY c + i + 1) \<le> ca_toSizeX c * (ca_toOffsetY c + j)"
    using i(2) ok by (intro mult_left_mono) (simp_all add: copy_ok_def)
  moreover have "ca_endX c - ca_beginX c \<le> ca_toSizeX c"
    using clip_limits(3) [of "ca_toOffsetX c" "ca_fromOffsetX c"]
      clip_limits(6) [of "ca_toOffsetX c" "ca_countX c" "ca_fromSizeX c" "ca_fromOffsetX c" "ca_toSizeX c"] by linarith
  ultimately show False by (simp add: distrib_left)
qed

lemma rows_separate:
  assumes ok: "copy_ok c"
  shows "sorted_wrt (\<lambda>x y. disjoint_blocks (fst x) (row_len c) (fst y) (row_len c))
      (map (copy_row c) [ca_beginY c .. ca_endY c - 1])"
    and "(d, src) \<in> set (map (copy_row c) [ca_beginY c .. ca_endY c - 1]) \<Longrightarrow>
      (d', src') \<in> set (map (copy_row c) [ca_beginY c .. ca_endY c - 1]) \<Longrightarrow>
      disjoint_blocks src (row_len c) d' (row_len c)"
proof -
  have "sorted_wrt (<) [ca_beginY c .. ca_endY c - 1]" by (simp add: strict_sorted_iff)
  then show "sorted_wrt (\<lambda>x y. disjoint_blocks (fst x) (row_len c) (fst y) (row_len c))
      (map (copy_row c) [ca_beginY c .. ca_endY c - 1])"
    unfolding sorted_wrt_map by (rule sorted_wrt_mono_rel [rotated]) (auto intro!: rows_disjoint [OF ok])
  show "disjoint_blocks src (row_len c) d' (row_len c)"
    if rows: "(d, src) \<in> set (map (copy_row c) [ca_beginY c .. ca_endY c - 1])"
      "(d', src') \<in> set (map (copy_row c) [ca_beginY c .. ca_endY c - 1])"
  proof -
    from rows(1) obtain i where i': "ca_beginY c \<le> i" "i < ca_endY c" "(d, src) = copy_row c i" by auto
    then have i: "ca_beginY c \<le> i" "i < ca_endY c" "src = snd (copy_row c i)" by (simp_all flip: i'(3))
    from rows(2) obtain j where j': "ca_beginY c \<le> j" "j < ca_endY c" "(d', src') = copy_row c j" by auto
    then have j: "ca_beginY c \<le> j" "j < ca_endY c" "d' = fst (copy_row c j)" by (simp_all flip: j'(3))
    show ?thesis
      using row_in_images(2) [OF ok i(1, 2)] row_in_images(1) [OF ok j(1, 2)] ok
      unfolding i(3) j(3) by (auto simp: disjoint_blocks_def copy_ok_def)
  qed
qed

text \<open>A byte of the destination image: the pixel \<open>(X, Y)\<close> and its \<open>j\<close>-th byte.\<close>

lemma CopyBuffer32_byte:
  assumes ok: "copy_ok c" and X: "0 \<le> X" "X < ca_toSizeX c" and Y: "0 \<le> Y" "Y < ca_toSizeY c" and j: "j < 4"
  shows "graphics_CopyBuffer32 c m (pixel_at (ca_to c) (ca_toSizeX c) X Y + of_nat j) =
    (if in_region c (X - ca_toOffsetX c) (Y - ca_toOffsetY c)
     then m (pixel_at (ca_from c) (ca_fromSizeX c) (ca_fromOffsetX c + (X - ca_toOffsetX c))
            (ca_fromOffsetY c + (Y - ca_toOffsetY c)) + of_nat j)
     else m (pixel_at (ca_to c) (ca_toSizeX c) X Y + of_nat j))"
proof -
  let ?W = "ca_toSizeX c" and ?u = "X - ca_toOffsetX c" and ?v = "Y - ca_toOffsetY c"
  let ?n = "row_len c" and ?rows = "map (copy_row c) [ca_beginY c .. ca_endY c - 1]"
  define A where "A = (X + ?W * Y) * 4 + int j"
  have a: "pixel_at (ca_to c) ?W X Y + of_nat j = ca_to c + of_int A" by (simp add: pixel_at_def A_def)
  have "X + 1 \<le> ?W" using X(2) by simp
  from pixel_offset_bounds [OF X(1) this Y] j have A: "0 \<le> A" "A < 4 * (?W * ca_toSizeY c)" by (simp_all add: A_def)
  have row: "in_block (ca_to c + of_int A) (fst (copy_row c i)) ?n \<longleftrightarrow>
      Y = ca_toOffsetY c + i \<and> ca_toOffsetX c + ca_beginX c \<le> X \<and> X < ca_toOffsetX c + ca_endX c"
    if i: "ca_beginY c \<le> i" "i < ca_endY c" for i
  proof -
    have "0 \<le> ca_toOffsetX c + ca_beginX c" "ca_toOffsetX c + ca_beginX c + (ca_endX c - ca_beginX c) \<le> ?W"
      using clip_limits(3) clip_limits(6) [of "ca_toOffsetX c"] by simp_all
    from pixel_in_row [OF X this, of "int j" "ca_toOffsetY c + i" Y] j show ?thesis
      unfolding in_row [OF ok i A] by (simp add: A_def)
  qed
  have reg: "in_region c ?u ?v \<longleftrightarrow> ca_beginX c \<le> ?u \<and> ?u < ca_endX c \<and> ca_beginY c \<le> ?v \<and> ?v < ca_endY c"
    using X Y unfolding clip_between conj_assoc [symmetric] by (auto simp: in_region_def clip_begin_def clip_end_def)
  show ?thesis
  proof (cases "in_region c ?u ?v")
    case True
    then have v: "ca_beginY c \<le> ?v" "?v < ca_endY c" and u: "ca_beginX c \<le> ?u" "?u < ca_endX c" using reg by blast+
    have mem: "copy_row c ?v \<in> set ?rows" using v by simp
    have blk: "in_block (ca_to c + of_int A) (fst (copy_row c ?v)) ?n" using row [OF v] u by simp
    have "fold (\<lambda>(d, src) m. memcpy m d src ?n) ?rows m (ca_to c + of_int A) =
        m (snd (copy_row c ?v) + (ca_to c + of_int A - fst (copy_row c ?v)))"
      by (rule copies_inside [OF rows_separate(2) [OF ok] rows_separate(1) [OF ok] _ blk]) (use mem in simp_all)
    moreover have "snd (copy_row c ?v) + (ca_to c + of_int A - fst (copy_row c ?v)) =
        pixel_at (ca_from c) (ca_fromSizeX c) (ca_fromOffsetX c + ?u) (ca_fromOffsetY c + ?v) + of_nat j"
      by (simp add: copy_row_def pixel_at_def A_def algebra_simps)
    ultimately show ?thesis unfolding CopyBuffer32_rows a using True by simp
  next
    case False
    have out: "\<not> in_block (ca_to c + of_int A) d ?n" if "(d, src) \<in> set ?rows" for d src
    proof -
      from that obtain i where "ca_beginY c \<le> i" "i < ca_endY c" "(d, src) = copy_row c i" by auto
      with row [of i] False reg show ?thesis by (auto dest: arg_cong [of _ _ fst])
    qed
    show ?thesis unfolding CopyBuffer32_rows a if_not_P [OF False] by (rule copies_outside) (rule out)
  qed
qed

lemma CopyBuffer32_outside:
  assumes ok: "copy_ok c" and a: "\<not> in_block a (ca_to c) (of_int (4 * (ca_toSizeX c * ca_toSizeY c)))"
  shows "graphics_CopyBuffer32 c m a = m a"
  unfolding CopyBuffer32_rows
proof (rule copies_outside)
  fix d src assume "(d, src) \<in> set (map (copy_row c) [ca_beginY c .. ca_endY c - 1])"
  then obtain i where i: "ca_beginY c \<le> i" "i < ca_endY c" "(d, src) = copy_row c i" by auto
  then have "d = fst (copy_row c i)" by (metis fst_conv)
  with row_in_images(1) [OF ok i(1, 2)] a show "\<not> in_block a d (row_len c)" by blast
qed

section \<open>Invalidated rectangles\<close>

text \<open>
  The fields of a rectangle are read as numbers of an \<^verbatim>\<open>int\<close>. A rectangle may reach over the edges of
  a screen of width \<open>W\<close> but does not lie wholly beyond its left or right one, and its ends are small
  enough for the sums of two merged rectangles.
\<close>

definition rect_ok :: "int \<Rightarrow> graphics_Rect \<Rightarrow> bool" where
  "rect_ok W r \<longleftrightarrow>
     - 536870912 \<le> s32 (uint (rc_left r)) \<and> s32 (uint (rc_left r)) \<le> W \<and> 0 \<le> s32 (uint (rc_width r)) \<and>
     0 \<le> s32 (uint (rc_left r)) + s32 (uint (rc_width r)) \<and>
     s32 (uint (rc_left r)) + s32 (uint (rc_width r)) < 1610612736 \<and>
     - 536870912 \<le> s32 (uint (rc_top r)) \<and> 0 \<le> s32 (uint (rc_height r)) \<and>
     s32 (uint (rc_top r)) + s32 (uint (rc_height r)) < 1610612736"

definition rect_has :: "graphics_Rect \<Rightarrow> int \<Rightarrow> int \<Rightarrow> bool" where
  "rect_has r X Y \<longleftrightarrow>
     s32 (uint (rc_left r)) \<le> X \<and> X < s32 (uint (rc_left r)) + s32 (uint (rc_width r)) \<and>
     s32 (uint (rc_top r)) \<le> Y \<and> Y < s32 (uint (rc_top r)) + s32 (uint (rc_height r))"

lemma s32_mod [simp]: "s32 (x mod 4294967296) = s32 x"
proof -
  have "take_bit 32 x = x mod 4294967296" by (simp add: take_bit_eq_mod)
  then show ?thesis using signed_take_bit_take_bit [of 31 32 x] by (simp add: s32_def)
qed

lemma s32_uint_of_int [simp]: "s32 (uint (of_int x :: u32)) = s32 x"
  by (simp add: uint_word_of_int)

lemma s32_of_s32: "(of_int (s32 (uint (a :: u32))) :: u32) = a"
proof -
  have "s32 (uint a) = sint a" by (simp add: s32_def sint_uint)
  then show ?thesis by simp
qed

lemma s32_add:
  assumes "- 2147483648 \<le> s32 (uint a) + s32 (uint b)" and "s32 (uint a) + s32 (uint b) < 2147483648"
  shows "s32 (uint (a + b :: u32)) = s32 (uint a) + s32 (uint b)"
proof -
  have "a + b = of_int (s32 (uint a) + s32 (uint b))" by (simp only: of_int_add s32_of_s32)
  then have "s32 (uint (a + b)) = s32 (s32 (uint a) + s32 (uint b))" by (simp only: s32_uint_of_int)
  also have "\<dots> = s32 (uint a) + s32 (uint b)" using assms by (intro s32_id) simp_all
  finally show ?thesis .
qed

text \<open>The merged rectangle is the union.\<close>

lemma rect_merge_union:
  assumes "rect_merge prev r = Some r'" and "rect_ok W prev" and "rect_ok W r"
  shows "rect_ok W r' \<and> (rect_has r' X Y \<longleftrightarrow> rect_has prev X Y \<or> rect_has r X Y)"
proof -
  let ?n = "\<lambda>x :: u32. s32 (uint x)"
  note ok = assms(2, 3) [unfolded rect_ok_def]
  consider "rc_top prev = rc_top r" "rc_height prev = rc_height r" "rc_left prev + rc_width prev = rc_left r"
      "r' = r\<lparr>rc_left := rc_left prev, rc_width := rc_width prev + rc_width r\<rparr>"
    | "rc_top prev = rc_top r" "rc_height prev = rc_height r" "rc_left r + rc_width r = rc_left prev"
      "r' = r\<lparr>rc_width := rc_width r + rc_width prev\<rparr>"
    | "rc_left prev = rc_left r" "rc_width prev = rc_width r" "rc_top prev + rc_height prev = rc_top r"
      "r' = r\<lparr>rc_top := rc_top prev, rc_height := rc_height prev + rc_height r\<rparr>"
    | "rc_left prev = rc_left r" "rc_width prev = rc_width r" "rc_top r + rc_height r = rc_top prev"
      "r' = r\<lparr>rc_height := rc_height r + rc_height prev\<rparr>"
    using assms(1) by (auto simp: rect_merge_def split: if_splits)
  then show ?thesis
  proof cases
    case 1
    have L: "?n (rc_left r) = ?n (rc_left prev) + ?n (rc_width prev)"
      unfolding 1(3) [symmetric] by (rule s32_add) (use ok in linarith)+
    have E: "?n (rc_width prev + rc_width r) = ?n (rc_width prev) + ?n (rc_width r)"
      by (rule s32_add) (use L ok in linarith)+
    show ?thesis using ok L E 1 by (auto simp: rect_ok_def rect_has_def)
  next
    case 2
    have L: "?n (rc_left prev) = ?n (rc_left r) + ?n (rc_width r)"
      unfolding 2(3) [symmetric] by (rule s32_add) (use ok in linarith)+
    have E: "?n (rc_width r + rc_width prev) = ?n (rc_width r) + ?n (rc_width prev)"
      by (rule s32_add) (use L ok in linarith)+
    show ?thesis using ok L E 2 by (auto simp: rect_ok_def rect_has_def)
  next
    case 3
    have L: "?n (rc_top r) = ?n (rc_top prev) + ?n (rc_height prev)"
      unfolding 3(3) [symmetric] by (rule s32_add) (use ok in linarith)+
    have E: "?n (rc_height prev + rc_height r) = ?n (rc_height prev) + ?n (rc_height r)"
      by (rule s32_add) (use L ok in linarith)+
    show ?thesis using ok L E 3 by (auto simp: rect_ok_def rect_has_def)
  next
    case 4
    have L: "?n (rc_top prev) = ?n (rc_top r) + ?n (rc_height r)"
      unfolding 4(3) [symmetric] by (rule s32_add) (use ok in linarith)+
    have E: "?n (rc_height r + rc_height prev) = ?n (rc_height r) + ?n (rc_height prev)"
      by (rule s32_add) (use L ok in linarith)+
    show ?thesis using ok L E 4 by (auto simp: rect_ok_def rect_has_def)
  qed
qed

definition box :: "int \<Rightarrow> int \<Rightarrow> int \<Rightarrow> int \<Rightarrow> (int \<times> int) set" where
  "box x y w h = {x ..< x + w} \<times> {y ..< y + h}"

text \<open>The rectangles of the program, by their edges.\<close>

definition box_ok :: "int \<Rightarrow> int \<Rightarrow> int \<Rightarrow> int \<Rightarrow> int \<Rightarrow> bool" where
  "box_ok W x y w h \<longleftrightarrow> - 536870912 \<le> x \<and> x \<le> W \<and> 0 \<le> w \<and> 0 \<le> x + w \<and> x + w < 1610612736 \<and>
     - 536870912 \<le> y \<and> 0 \<le> h \<and> y + h < 1610612736"

lemma rect_box:
  assumes "box_ok W x y w h"
  shows "rect_has (rect x y w h) X Y \<longleftrightarrow> (X, Y) \<in> box x y w h" and "rect_ok W (rect x y w h)"
proof -
  have "s32 z = z" if "z \<in> {x, y, w, h}" for z by (rule s32_id) (use that assms in \<open>auto simp: box_ok_def\<close>)
  then have "s32 x = x" "s32 y = y" "s32 w = w" "s32 h = h" by simp_all
  with assms show "rect_has (rect x y w h) X Y \<longleftrightarrow> (X, Y) \<in> box x y w h" "rect_ok W (rect x y w h)"
    by (simp_all add: rect_has_def rect_ok_def rect_def box_def box_ok_def)
qed

text \<open>The pixels that the next swap will copy.\<close>

definition covered :: "graphics_state \<Rightarrow> int \<Rightarrow> int \<Rightarrow> bool" where
  "covered s X Y \<longleftrightarrow> g_invalidated_screen s \<or> (\<exists>r \<in> set (g_invalidated s). rect_has r X Y)"

text \<open>Nothing is asked of the rectangles once the whole screen is invalidated.\<close>

definition rects_ok :: "graphics_state \<Rightarrow> bool" where
  "rects_ok s \<longleftrightarrow> g_invalidated_screen s \<or> (\<forall>r \<in> set (g_invalidated s). rect_ok (gm_Width (g_Mode s)) r)"

lemma graphics_Invalidate_screen: "g_invalidated_screen s \<Longrightarrow> g_invalidated_screen (graphics_Invalidate x y w h s)"
  by (simp add: graphics_Invalidate_def Let_def split: list.split option.split)

lemma graphics_Invalidate_covers:
  assumes "rects_ok s" and "g_invalidated_screen s \<or> rect_ok (gm_Width (g_Mode s)) (rect x y w h)"
  shows "rects_ok (graphics_Invalidate x y w h s) \<and>
    (covered s X Y \<or> rect_has (rect x y w h) X Y \<longrightarrow> covered (graphics_Invalidate x y w h s) X Y)"
proof (cases "g_invalidated_screen s")
  case True
  with graphics_Invalidate_screen show ?thesis by (auto simp: rects_ok_def covered_def)
next
  case False
  with assms have ok: "\<forall>r \<in> set (g_invalidated s). rect_ok (gm_Width (g_Mode s)) r" "rect_ok (gm_Width (g_Mode s)) (rect x y w h)"
    by (auto simp: rects_ok_def)
  show ?thesis
  proof (cases "g_invalidated s")
    case Nil
    with ok show ?thesis
      by (auto simp: graphics_Invalidate_def Let_def rects_ok_def covered_def INVALIDATED_BUFFER_SIZE_def)
  next
    case (Cons prev rs)
    have prev: "rect_ok (gm_Width (g_Mode s)) prev" using ok(1) Cons by simp
    show ?thesis
    proof (cases "rect_merge prev (rect x y w h)")
      case None
      with Cons ok show ?thesis by (auto simp: graphics_Invalidate_def Let_def rects_ok_def covered_def)
    next
      case (Some r')
      from rect_merge_union [OF this prev ok(2)] Cons Some ok(1) show ?thesis
        by (auto simp: graphics_Invalidate_def Let_def rects_ok_def covered_def)
    qed
  qed
qed

lemma graphics_Invalidate_fields [simp]:
  "g_mem (graphics_Invalidate x y w h s) = g_mem s" "g_Mode (graphics_Invalidate x y w h s) = g_Mode s"
  "g_Framebuffer (graphics_Invalidate x y w h s) = g_Framebuffer s" "g_Cursor (graphics_Invalidate x y w h s) = g_Cursor s"
  "g_DeviceFramebuffer (graphics_Invalidate x y w h s) = g_DeviceFramebuffer s"
  "g_FramebufferSize (graphics_Invalidate x y w h s) = g_FramebufferSize s"
  "g_mouseOverlay (graphics_Invalidate x y w h s) = g_mouseOverlay s"
  "g_lastMouseX (graphics_Invalidate x y w h s) = g_lastMouseX s"
  "g_lastMouseY (graphics_Invalidate x y w h s) = g_lastMouseY s"
  "g_lastMouseSizeX (graphics_Invalidate x y w h s) = g_lastMouseSizeX s"
  "g_lastMouseSizeY (graphics_Invalidate x y w h s) = g_lastMouseSizeY s"
  by (simp_all add: graphics_Invalidate_def Let_def split: list.split option.split)

section \<open>The screen\<close>

definition on_screen :: "graphics_state \<Rightarrow> int \<Rightarrow> int \<Rightarrow> bool" where
  "on_screen s X Y \<longleftrightarrow> 0 \<le> X \<and> X < gm_Width (g_Mode s) \<and> 0 \<le> Y \<and> Y < gm_Height (g_Mode s)"

abbreviation screen_bytes :: "graphics_state \<Rightarrow> int" where
  "screen_bytes s \<equiv> 4 * (gm_Width (g_Mode s) * gm_Height (g_Mode s))"

text \<open>The two frame buffers are apart, and the size the firmware reports holds all pixels.\<close>

definition screen_ok :: "graphics_state \<Rightarrow> bool" where
  "screen_ok s \<longleftrightarrow> 0 \<le> gm_Width (g_Mode s) \<and> 0 \<le> gm_Height (g_Mode s) \<and>
     screen_bytes s \<le> uint (g_FramebufferSize s) \<and> uint (g_FramebufferSize s) < 2 ^ 63 \<and>
     disjoint_blocks (g_Framebuffer s) (g_FramebufferSize s) (g_DeviceFramebuffer s) (g_FramebufferSize s)"

definition same_pixel :: "graphics_state \<Rightarrow> mem \<Rightarrow> int \<Rightarrow> int \<Rightarrow> bool" where
  "same_pixel s m X Y \<longleftrightarrow> bytes_at m (pixel_at (g_DeviceFramebuffer s) (gm_Width (g_Mode s)) X Y) 4 =
     bytes_at m (pixel_at (g_Framebuffer s) (gm_Width (g_Mode s)) X Y) 4"

lemma same_pixel_bytes:
  "same_pixel s m X Y \<longleftrightarrow> (\<forall>j < 4. m (pixel_at (g_DeviceFramebuffer s) (gm_Width (g_Mode s)) X Y + of_nat j) =
     m (pixel_at (g_Framebuffer s) (gm_Width (g_Mode s)) X Y + of_nat j))"
  by (simp add: same_pixel_def list_eq_iff_nth_eq)

lemma in_screen_block:
  assumes "screen_ok s" and "in_block a p (of_int (screen_bytes s))"
  shows "in_block a p (g_FramebufferSize s)"
  using in_block_part [of a p 0 "screen_bytes s" "uint (g_FramebufferSize s)"] assms by (simp add: screen_ok_def)

lemma screen_disjoint:
  assumes "screen_ok s"
  shows "disjoint_blocks (g_Framebuffer s) (of_int (screen_bytes s)) (g_DeviceFramebuffer s) (of_int (screen_bytes s))"
proof -
  have "disjoint_blocks (g_Framebuffer s) (g_FramebufferSize s) (g_DeviceFramebuffer s) (g_FramebufferSize s)"
    using assms by (simp add: screen_ok_def)
  with in_screen_block [OF assms] show ?thesis unfolding disjoint_blocks_def by blast
qed

lemma screen_bytes_less: "screen_ok s \<Longrightarrow> screen_bytes s < 2 ^ 63"
  unfolding screen_ok_def by linarith

lemma screen_pixel_in:
  assumes "screen_ok s" and "on_screen s X Y" and "j < 4"
  shows "in_block (pixel_at p (gm_Width (g_Mode s)) X Y + of_nat j) p (of_int (screen_bytes s))"
proof -
  let ?W = "gm_Width (g_Mode s)" and ?H = "gm_Height (g_Mode s)"
  have "0 \<le> X" "X + 1 \<le> ?W" "0 \<le> Y" "Y < ?H" using assms(2) by (simp_all add: on_screen_def)
  from pixel_offset_bounds [OF this] assms(3)
  have "0 \<le> (X + ?W * Y) * 4 + int j" "(X + ?W * Y) * 4 + int j < 4 * (?W * ?H)" by simp_all
  moreover have "4 * (?W * ?H) < 2 ^ 63" by (rule screen_bytes_less [OF assms(1)])
  ultimately have "in_block (p + of_int ((X + ?W * Y) * 4 + int j)) (p + of_int 0) (of_int (4 * (?W * ?H))) \<longleftrightarrow>
      0 \<le> (X + ?W * Y) * 4 + int j \<and> (X + ?W * Y) * 4 + int j < 0 + 4 * (?W * ?H)"
    by (intro in_block_int) linarith+
  with \<open>0 \<le> (X + ?W * Y) * 4 + int j\<close> \<open>(X + ?W * Y) * 4 + int j < 4 * (?W * ?H)\<close>
  have "in_block (p + of_int ((X + ?W * Y) * 4 + int j)) (p + of_int 0) (of_int (4 * (?W * ?H)))" by linarith
  then show ?thesis by (simp add: pixel_at_def add.assoc)
qed

text \<open>Different pixels do not share bytes, and the two buffers share none.\<close>

lemma pixels_apart:
  assumes "screen_ok s" and "on_screen s X Y" and "on_screen s X' Y'" and "(X, Y) \<noteq> (X', Y')" and "j < 4"
  shows "\<not> in_block (pixel_at p (gm_Width (g_Mode s)) X Y + of_nat j) (pixel_at p (gm_Width (g_Mode s)) X' Y') 4"
proof
  let ?W = "gm_Width (g_Mode s)" and ?H = "gm_Height (g_Mode s)"
  let ?A = "(X + ?W * Y) * 4 + int j" and ?D = "(X' + ?W * Y') * 4"
  assume "in_block (pixel_at p ?W X Y + of_nat j) (pixel_at p ?W X' Y') 4"
  then have i: "in_block (p + of_int ?A) (p + of_int ?D) (of_int 4)" by (simp add: pixel_at_def add.assoc)
  have on: "0 \<le> X" "X + 1 \<le> ?W" "0 \<le> Y" "Y < ?H" "0 \<le> X'" "X' + 1 \<le> ?W" "0 \<le> Y'" "Y' < ?H"
    using assms(2, 3) by (simp_all add: on_screen_def)
  have b: "4 * (?W * ?H) < 2 ^ 63" by (rule screen_bytes_less [OF assms(1)])
  from pixel_offset_bounds [OF on(1-4)] pixel_offset_bounds [OF on(5-8)] assms(5) b
  have "0 \<le> ?A" "?A < 2 ^ 63" "0 \<le> ?D" "?D < 2 ^ 63" by linarith+
  from in_block_int [OF this, of 4 p] i have "?D \<le> ?A \<and> ?A < ?D + 4" by simp
  with pixel_in_row [of X ?W X' 1 "int j" Y' Y] on assms(5) have "Y = Y' \<and> X' \<le> X \<and> X < X' + 1" by simp
  with assms(4) show False by auto
qed

lemma in_pixel_offset:
  assumes "in_block a p (4 :: u64)"
  shows "\<exists>j<4. a = p + of_nat j"
proof -
  have "unat (a - p) < 4" using assms by (simp add: in_block_def word_less_nat_alt)
  then show ?thesis by (intro exI [of _ "unat (a - p)"]) simp
qed

abbreviation rect_area :: "graphics_state \<Rightarrow> graphics_Rect \<Rightarrow> copy_area" where
  "rect_area s r \<equiv> screen_area (g_Framebuffer s) (s32 (uint (rc_left r))) (s32 (uint (rc_top r)))
     (gm_Width (g_Mode s)) (gm_Height (g_Mode s)) (g_DeviceFramebuffer s) (s32 (uint (rc_left r))) (s32 (uint (rc_top r)))
     (gm_Width (g_Mode s)) (gm_Height (g_Mode s)) (s32 (uint (rc_width r))) (s32 (uint (rc_height r)))"

lemma rect_area_ok:
  assumes "screen_ok s" and "rect_ok (gm_Width (g_Mode s)) r"
  shows "copy_ok (rect_area s r)"
proof -
  have "screen_bytes s < 2 ^ 63" by (rule screen_bytes_less [OF assms(1)])
  moreover have "clip_begin (s32 (uint (rc_left r))) (s32 (uint (rc_left r))) \<le>
      clip_end (s32 (uint (rc_width r))) (gm_Width (g_Mode s)) (s32 (uint (rc_left r))) (gm_Width (g_Mode s)) (s32 (uint (rc_left r)))"
    using assms by (simp add: clip_begin_def clip_end_def rect_ok_def screen_ok_def)
  ultimately show ?thesis using assms(1) screen_disjoint [OF assms(1)]
    by (simp add: copy_ok_def screen_area_def screen_ok_def del: of_int_mult)
qed

text \<open>Copying a rectangle makes its pixels the same in both buffers and spoils no other.\<close>

lemma SwapBuffer_rect_same:
  assumes ok: "screen_ok s" "rect_ok (gm_Width (g_Mode s)) r" and on: "on_screen s X Y"
    and "rect_has r X Y \<or> same_pixel s m X Y"
  shows "same_pixel s (SwapBuffer_rect s r m) X Y"
  unfolding same_pixel_bytes
proof (intro allI impI)
  fix j :: nat assume j: "j < 4"
  let ?W = "gm_Width (g_Mode s)" and ?m = "SwapBuffer_rect s r m"
  let ?dev = "pixel_at (g_DeviceFramebuffer s) ?W X Y + of_nat j"
  let ?own = "pixel_at (g_Framebuffer s) ?W X Y + of_nat j"
  note c = rect_area_ok [OF ok]
  have "in_region (rect_area s r) (X - s32 (uint (rc_left r))) (Y - s32 (uint (rc_top r))) \<longleftrightarrow> rect_has r X Y"
    using on by (auto simp: in_region_def screen_area_def rect_has_def on_screen_def)
  with CopyBuffer32_byte [OF c _ _ _ _ j, of X Y m] on
  have dev: "?m ?dev = (if rect_has r X Y then m ?own else m ?dev)"
    by (simp add: SwapBuffer_rect_def Let_def screen_area_def on_screen_def)
  have "\<not> in_block ?own (g_DeviceFramebuffer s) (of_int (screen_bytes s))"
    using screen_pixel_in [OF ok(1) on j] screen_disjoint [OF ok(1)] by (auto simp: disjoint_blocks_def)
  then have "?m ?own = m ?own"
    unfolding SwapBuffer_rect_def Let_def by (intro CopyBuffer32_outside [OF c]) (simp add: screen_area_def)
  with dev assms(4) j show "?m ?dev = ?m ?own" by (auto simp: same_pixel_bytes)
qed

lemma SwapBuffer_rects_same:
  assumes "screen_ok s" and "\<forall>r \<in> set rs. rect_ok (gm_Width (g_Mode s)) r" and "on_screen s X Y"
    and "(\<exists>r \<in> set rs. rect_has r X Y) \<or> same_pixel s m X Y"
  shows "same_pixel s (fold (SwapBuffer_rect s) rs m) X Y"
  using assms(2, 4)
proof (induction rs arbitrary: m)
  case (Cons r rs)
  have "(\<exists>r \<in> set rs. rect_has r X Y) \<or> same_pixel s (SwapBuffer_rect s r m) X Y"
    using Cons.prems SwapBuffer_rect_same [OF assms(1) _ assms(3), of r m] by auto
  with Cons show ?case by simp
qed simp

lemma SwapBuffer_screen_same:
  assumes ok: "screen_ok s" and on: "on_screen s X Y"
  shows "same_pixel s (memcpy m (g_DeviceFramebuffer s) (g_Framebuffer s) (g_FramebufferSize s)) X Y"
  unfolding same_pixel_bytes
proof (intro allI impI)
  fix j :: nat assume j: "j < 4"
  let ?W = "gm_Width (g_Mode s)"
  let ?m = "memcpy m (g_DeviceFramebuffer s) (g_Framebuffer s) (g_FramebufferSize s)"
  let ?dev = "pixel_at (g_DeviceFramebuffer s) ?W X Y + of_nat j"
  let ?own = "pixel_at (g_Framebuffer s) ?W X Y + of_nat j"
  have in_dev: "in_block ?dev (g_DeviceFramebuffer s) (g_FramebufferSize s)"
    and in_back: "in_block ?own (g_Framebuffer s) (g_FramebufferSize s)"
    using in_screen_block [OF ok] screen_pixel_in [OF ok on j] by blast+
  have "?m ?dev = m (g_Framebuffer s + (?dev - g_DeviceFramebuffer s))" using in_dev by (simp add: memcpy_def in_block_def)
  also have "\<dots> = m ?own" by (simp add: pixel_at_def add.assoc)
  also have "\<dots> = ?m ?own" using in_back ok by (intro memcpy_outside [symmetric]) (auto simp: screen_ok_def disjoint_blocks_def)
  finally show "?m ?dev = ?m ?own" .
qed

section \<open>The cursor\<close>

text \<open>
  What the program keeps of the cursor: an image of at most 32 by 32 pixels whose hot spot lies in it and is not
  its leftmost column (as in the embedded one), a last position that reaches the screen from the left, and an
  overlay of 32 by 32 pixels apart from both frame buffers. Scrolling moves the last position up, but
  then the whole screen is invalidated.
\<close>

definition cursor_ready :: "graphics_state \<Rightarrow> bool" where
  "cursor_ready s \<longleftrightarrow> (case g_Cursor s of None \<Rightarrow> True | Some c \<Rightarrow>
     xc_width c \<le> 32 \<and> xc_height c \<le> 32 \<and> 0 < xc_xhot c \<and> xc_xhot c \<le> xc_width c \<and> xc_yhot c \<le> xc_height c \<and>
     0 \<le> g_lastMouseSizeX s \<and> g_lastMouseSizeX s \<le> 32 \<and> 0 \<le> g_lastMouseSizeY s \<and> g_lastMouseSizeY s \<le> 32 \<and>
     0 \<le> g_lastMouseX s + g_lastMouseSizeX s \<and> g_lastMouseX s \<le> gm_Width (g_Mode s) \<and> g_lastMouseY s \<le> 2 ^ 30 \<and>
     (g_invalidated_screen s \<or> - (2 ^ 29) \<le> g_lastMouseY s) \<and>
     gm_Width (g_Mode s) < 2 ^ 30 \<and> gm_Height (g_Mode s) < 2 ^ 30 \<and>
     disjoint_blocks (g_mouseOverlay s) 4096 (g_Framebuffer s) (g_FramebufferSize s) \<and>
     disjoint_blocks (g_mouseOverlay s) 4096 (g_DeviceFramebuffer s) (g_FramebufferSize s))"

text \<open>The position of the mouse may be on the far edges of the desktop, as the input keeps it.\<close>

definition mouse_in :: "graphics_state \<Rightarrow> int \<Rightarrow> int \<Rightarrow> bool" where
  "mouse_in s mx my \<longleftrightarrow> 0 \<le> mx \<and> mx \<le> gm_Width (g_Mode s) \<and> 0 \<le> my \<and> my \<le> gm_Height (g_Mode s)"

text \<open>The rectangle of the image drawn last, and that of the next one.\<close>

definition last_cursor :: "graphics_state \<Rightarrow> (int \<times> int) set" where
  "last_cursor s = box (g_lastMouseX s) (g_lastMouseY s) (g_lastMouseSizeX s) (g_lastMouseSizeY s)"

definition next_cursor :: "graphics_state \<Rightarrow> int \<Rightarrow> int \<Rightarrow> (int \<times> int) set" where
  "next_cursor s mx my = (case g_Cursor s of None \<Rightarrow> {} | Some c \<Rightarrow>
     box (mx - uint (xc_xhot c) + 1) (my - uint (xc_yhot c) + 1) (uint (xc_width c)) (uint (xc_height c)))"

lemma RenderBuffer32_outside:
  assumes "\<And>u v. ca_beginX c \<le> u \<Longrightarrow> u < ca_endX c \<Longrightarrow> ca_beginY c \<le> v \<Longrightarrow> v < ca_endY c \<Longrightarrow>
    \<not> in_block a (pixel_at (ca_to c) (ca_toSizeX c) (ca_toOffsetX c + u) (ca_toOffsetY c + v)) 4"
  shows "graphics_RenderBuffer32 c m a = m a"
proof -
  have pixel: "RenderBuffer32_pixel c u v m' a = m a"
    if "m' a = m a" "u \<in> {ca_beginX c .. ca_endX c - 1}" "v \<in> {ca_beginY c .. ca_endY c - 1}" for u v m'
    using that assms [of u v] by (simp add: RenderBuffer32_pixel_def Let_def store_bytes_outside)
  have row: "fold (RenderBuffer32_pixel c u) [ca_beginY c .. ca_endY c - 1] m' a = m a"
    if "m' a = m a" "u \<in> {ca_beginX c .. ca_endX c - 1}" for u m'
    by (rule fold_invariant [where P = "\<lambda>m'. m' a = m a" and Q = "\<lambda>v. v \<in> {ca_beginY c .. ca_endY c - 1}"])
      (use pixel that in auto)
  show ?thesis unfolding graphics_RenderBuffer32_def
    by (rule fold_invariant [where P = "\<lambda>m'. m' a = m a" and Q = "\<lambda>u. u \<in> {ca_beginX c .. ca_endX c - 1}"])
      (use row in auto)
qed

text \<open>Where the next image goes.\<close>

lemma cursor_position:
  assumes "cursor_ready s" and "g_Cursor s = Some c" and "mouse_in s mx my"
  shows "s32 (uint (of_int mx - xc_xhot c + 1)) = mx - uint (xc_xhot c) + 1"
    and "s32 (uint (of_int my - xc_yhot c + 1)) = my - uint (xc_yhot c) + 1"
    and "s32 (uint (xc_width c)) = uint (xc_width c)" and "s32 (uint (xc_height c)) = uint (xc_height c)"
    and "box_ok (gm_Width (g_Mode s)) (mx - uint (xc_xhot c) + 1) (my - uint (xc_yhot c) + 1) (uint (xc_width c)) (uint (xc_height c))"
    and "uint (xc_width c) \<le> 32" and "uint (xc_height c) \<le> 32"
proof -
  have c: "uint (xc_width c) \<le> 32" "uint (xc_height c) \<le> 32" "0 < uint (xc_xhot c)" "uint (xc_xhot c) \<le> uint (xc_width c)"
    "uint (xc_yhot c) \<le> uint (xc_height c)" "0 \<le> uint (xc_yhot c)" "0 \<le> uint (xc_width c)" "0 \<le> uint (xc_height c)"
    using assms(1, 2) by (simp_all add: cursor_ready_def word_le_def word_less_def)
  then show "uint (xc_width c) \<le> 32" "uint (xc_height c) \<le> 32" by simp_all
  have m: "0 \<le> mx" "mx \<le> gm_Width (g_Mode s)" "0 \<le> my" "my \<le> gm_Height (g_Mode s)"
    "gm_Width (g_Mode s) < 1073741824" "gm_Height (g_Mode s) < 1073741824"
    using assms by (simp_all add: cursor_ready_def mouse_in_def)
  have b: "- 2147483648 \<le> mx - uint (xc_xhot c) + 1" "mx - uint (xc_xhot c) + 1 < 2147483648"
    "- 2147483648 \<le> my - uint (xc_yhot c) + 1" "my - uint (xc_yhot c) + 1 < 2147483648"
    using c m by linarith+
  have "- (2 ^ 31) \<le> uint v" for v :: u32 by (rule order.trans [OF _ uint_ge_0]) simp
  then show "s32 (uint (xc_width c)) = uint (xc_width c)" "s32 (uint (xc_height c)) = uint (xc_height c)"
    using c by (simp_all add: s32_id)
  have w: "(of_int z - h + 1 :: u32) = of_int (z - uint h + 1)" for z h by simp
  show "s32 (uint (of_int mx - xc_xhot c + 1)) = mx - uint (xc_xhot c) + 1"
    "s32 (uint (of_int my - xc_yhot c + 1)) = my - uint (xc_yhot c) + 1"
    unfolding w s32_uint_of_int by (rule s32_id; use b in simp)+
  show "box_ok (gm_Width (g_Mode s)) (mx - uint (xc_xhot c) + 1) (my - uint (xc_yhot c) + 1) (uint (xc_width c)) (uint (xc_height c))"
    using m c unfolding box_ok_def by linarith
qed

text \<open>
  Moving the cursor changes the pixels of the last image and of the new one in the back buffer, and nothing
  of the device.
\<close>

lemma UpdateMouse_pixels:
  assumes ok: "screen_ok s" "cursor_ready s" and m: "mouse_in s mx my" and on: "on_screen s X Y" and j: "j < 4"
  shows "g_mem (graphics_UpdateMouse mx my s) (pixel_at (g_DeviceFramebuffer s) (gm_Width (g_Mode s)) X Y + of_nat j) =
      g_mem s (pixel_at (g_DeviceFramebuffer s) (gm_Width (g_Mode s)) X Y + of_nat j)"
    and "(X, Y) \<notin> last_cursor s \<union> next_cursor s mx my \<Longrightarrow>
      g_mem (graphics_UpdateMouse mx my s) (pixel_at (g_Framebuffer s) (gm_Width (g_Mode s)) X Y + of_nat j) =
      g_mem s (pixel_at (g_Framebuffer s) (gm_Width (g_Mode s)) X Y + of_nat j)"
proof -
  let ?W = "gm_Width (g_Mode s)" and ?H = "gm_Height (g_Mode s)"
  let ?dev = "pixel_at (g_DeviceFramebuffer s) ?W X Y + of_nat j" and ?own = "pixel_at (g_Framebuffer s) ?W X Y + of_nat j"
  have "g_mem (graphics_UpdateMouse mx my s) ?dev = g_mem s ?dev \<and> ((X, Y) \<notin> last_cursor s \<union> next_cursor s mx my \<longrightarrow>
      g_mem (graphics_UpdateMouse mx my s) ?own = g_mem s ?own)"
  proof (cases "g_Cursor s")
    case None
    then show ?thesis by (simp add: graphics_UpdateMouse_def)
  next
    case (Some c)
    note pos = cursor_position [OF ok(2) Some m]
    let ?x = "mx - uint (xc_xhot c) + 1" and ?y = "my - uint (xc_yhot c) + 1"
    let ?w = "uint (xc_width c)" and ?h = "uint (xc_height c)"
    define A where "A = screen_area (g_mouseOverlay s) 0 0 MOUSE_OVERLAY_SIZE MOUSE_OVERLAY_SIZE
      (g_Framebuffer s) (g_lastMouseX s) (g_lastMouseY s) ?W ?H (g_lastMouseSizeX s) (g_lastMouseSizeY s)"
    define B where "B = screen_area (g_Framebuffer s) ?x ?y ?W ?H (g_mouseOverlay s) 0 0 MOUSE_OVERLAY_SIZE MOUSE_OVERLAY_SIZE ?w ?h"
    define C where "C = screen_area (xc_pixels c) 0 0 ?w ?h (g_Framebuffer s) ?x ?y ?W ?H ?w ?h"
    let ?a = "graphics_CopyBuffer32 A (g_mem s)"
    let ?b = "graphics_CopyBuffer32 B ?a"
    have e: "g_mem (graphics_UpdateMouse mx my s) =
        (if ?x \<noteq> g_lastMouseX s \<or> ?y \<noteq> g_lastMouseY s \<or> xc_width c \<noteq> of_int (g_lastMouseSizeX s) \<or>
           xc_height c \<noteq> of_int (g_lastMouseSizeY s) then graphics_RenderBuffer32 C ?b else g_mem s)"
      unfolding graphics_UpdateMouse_def Some option.case Let_def pos(1-4) by (simp add: A_def B_def C_def)
    have apart: "disjoint_blocks (g_mouseOverlay s) 4096 (g_Framebuffer s) (of_int (screen_bytes s))"
      "disjoint_blocks (g_mouseOverlay s) 4096 (g_DeviceFramebuffer s) (of_int (screen_bytes s))"
      using ok(2) Some in_screen_block [OF ok(1)] unfolding cursor_ready_def Some disjoint_blocks_def by auto
    have W: "0 \<le> ?W" "0 \<le> ?H" "screen_bytes s < 2 ^ 63" using ok(1) screen_bytes_less [OF ok(1)] by (simp_all add: screen_ok_def)
    have last: "0 \<le> g_lastMouseSizeX s" "g_lastMouseSizeX s \<le> 32" "0 \<le> g_lastMouseX s + g_lastMouseSizeX s" "g_lastMouseX s \<le> ?W"
      using ok(2) by (simp_all add: cursor_ready_def Some)
    have A: "copy_ok A" using W last apart(1)
      by (simp add: A_def copy_ok_def screen_area_def MOUSE_OVERLAY_SIZE_def clip_begin_def clip_end_def del: of_int_mult)
    have B: "copy_ok B" using W pos(5, 6) disjoint_blocks_sym [OF apart(1)]
      by (simp add: B_def copy_ok_def screen_area_def MOUSE_OVERLAY_SIZE_def clip_begin_def clip_end_def box_ok_def del: of_int_mult)
    note own_in = screen_pixel_in [OF ok(1) on j, of "g_Framebuffer s"] and dev_in = screen_pixel_in [OF ok(1) on j, of "g_DeviceFramebuffer s"]
    have dev_out: "\<not> in_block ?dev (g_Framebuffer s) (of_int (screen_bytes s))"
      using dev_in screen_disjoint [OF ok(1)] unfolding disjoint_blocks_def by blast
    have render: "graphics_RenderBuffer32 C m' a = m' a"
      if "\<And>U V. on_screen s U V \<Longrightarrow> (U, V) \<in> next_cursor s mx my \<Longrightarrow> \<not> in_block a (pixel_at (g_Framebuffer s) ?W U V) 4" for a m'
    proof (rule RenderBuffer32_outside)
      fix u v assume "ca_beginX C \<le> u" "u < ca_endX C" "ca_beginY C \<le> v" "v < ca_endY C"
      then have "on_screen s (?x + u) (?y + v) \<and> (?x + u, ?y + v) \<in> next_cursor s mx my"
        by (auto simp: C_def screen_area_def clip_begin_def clip_end_def on_screen_def next_cursor_def Some box_def)
      with that show "\<not> in_block a (pixel_at (ca_to C) (ca_toSizeX C) (ca_toOffsetX C + u) (ca_toOffsetY C + v)) 4"
        by (simp add: C_def screen_area_def)
    qed
    have "?a ?dev = g_mem s ?dev" by (rule CopyBuffer32_outside [OF A]) (use dev_out in \<open>simp add: A_def screen_area_def\<close>)
    moreover have "?b ?dev = ?a ?dev"
      by (rule CopyBuffer32_outside [OF B])
        (use dev_in apart(2) in \<open>auto simp: B_def screen_area_def MOUSE_OVERLAY_SIZE_def disjoint_blocks_def\<close>)
    moreover have "graphics_RenderBuffer32 C ?b ?dev = ?b ?dev"
    proof (rule render)
      fix U V assume U: "on_screen s U V"
      show "\<not> in_block ?dev (pixel_at (g_Framebuffer s) ?W U V) 4"
      proof
        assume "in_block ?dev (pixel_at (g_Framebuffer s) ?W U V) 4"
        then obtain k where "k < 4" "?dev = pixel_at (g_Framebuffer s) ?W U V + of_nat k" by (blast dest: in_pixel_offset)
        with screen_pixel_in [OF ok(1) U, of k "g_Framebuffer s"] dev_out show False by simp
      qed
    qed
    moreover have "graphics_RenderBuffer32 C ?b ?own = g_mem s ?own" if out: "(X, Y) \<notin> last_cursor s \<union> next_cursor s mx my"
    proof -
      have "\<not> in_region A (X - g_lastMouseX s) (Y - g_lastMouseY s)"
        using out by (auto simp: in_region_def A_def screen_area_def last_cursor_def box_def)
      with CopyBuffer32_byte [OF A, of X Y j "g_mem s"] on j have "?a ?own = g_mem s ?own"
        by (simp add: A_def screen_area_def on_screen_def)
      moreover have "?b ?own = ?a ?own"
        by (rule CopyBuffer32_outside [OF B])
          (use own_in apart(1) in \<open>auto simp: B_def screen_area_def MOUSE_OVERLAY_SIZE_def disjoint_blocks_def\<close>)
      moreover have "graphics_RenderBuffer32 C ?b ?own = ?b ?own"
        by (rule render) (use pixels_apart [OF ok(1) on] out j in blast)
      ultimately show ?thesis by simp
    qed
    ultimately show ?thesis unfolding e by simp
  qed
  then show "g_mem (graphics_UpdateMouse mx my s) ?dev = g_mem s ?dev"
    "(X, Y) \<notin> last_cursor s \<union> next_cursor s mx my \<Longrightarrow> g_mem (graphics_UpdateMouse mx my s) ?own = g_mem s ?own" by simp_all
qed

lemma UpdateMouse_fields [simp]:
  "g_Mode (graphics_UpdateMouse mx my s) = g_Mode s" "g_Framebuffer (graphics_UpdateMouse mx my s) = g_Framebuffer s"
  "g_DeviceFramebuffer (graphics_UpdateMouse mx my s) = g_DeviceFramebuffer s"
  "g_FramebufferSize (graphics_UpdateMouse mx my s) = g_FramebufferSize s"
  "g_Cursor (graphics_UpdateMouse mx my s) = g_Cursor s" "g_mouseOverlay (graphics_UpdateMouse mx my s) = g_mouseOverlay s"
  by (simp_all add: graphics_UpdateMouse_def Let_def split: option.split)

lemma UpdateMouse_screen [simp]:
  "screen_ok (graphics_UpdateMouse mx my s) = screen_ok s" "on_screen (graphics_UpdateMouse mx my s) = on_screen s"
  "same_pixel (graphics_UpdateMouse mx my s) = same_pixel s"
  by (simp_all add: screen_ok_def on_screen_def same_pixel_def fun_eq_iff)

text \<open>Afterwards the last image is the one at the mouse.\<close>

lemma UpdateMouse_last:
  assumes "cursor_ready s" and "g_Cursor s = Some c" and "mouse_in s mx my"
  shows "g_lastMouseX (graphics_UpdateMouse mx my s) = mx - uint (xc_xhot c) + 1"
    and "g_lastMouseY (graphics_UpdateMouse mx my s) = my - uint (xc_yhot c) + 1"
    and "g_lastMouseSizeX (graphics_UpdateMouse mx my s) = uint (xc_width c)"
    and "g_lastMouseSizeY (graphics_UpdateMouse mx my s) = uint (xc_height c)"
proof -
  note pos = cursor_position [OF assms]
  have u: "z = uint v" if "v = of_int z" "0 \<le> z" "z \<le> 32" for z and v :: u32
    using that by (simp add: uint_word_of_int)
  have "0 \<le> g_lastMouseSizeX s" "g_lastMouseSizeX s \<le> 32" "0 \<le> g_lastMouseSizeY s" "g_lastMouseSizeY s \<le> 32"
    using assms(1) by (simp_all add: cursor_ready_def assms(2))
  with u show "g_lastMouseX (graphics_UpdateMouse mx my s) = mx - uint (xc_xhot c) + 1"
    "g_lastMouseY (graphics_UpdateMouse mx my s) = my - uint (xc_yhot c) + 1"
    "g_lastMouseSizeX (graphics_UpdateMouse mx my s) = uint (xc_width c)"
    "g_lastMouseSizeY (graphics_UpdateMouse mx my s) = uint (xc_height c)"
    unfolding graphics_UpdateMouse_def assms(2) option.case Let_def pos(1-4) by auto
qed

lemma UpdateMouse_cursor_ready:
  assumes "cursor_ready s" and "mouse_in s mx my"
  shows "cursor_ready (graphics_UpdateMouse mx my s)"
    and "cursor_ready (graphics_UpdateMouse mx my s\<lparr>g_mem := m, g_invalidated_screen := False, g_invalidated := []\<rparr>)"
proof -
  have "cursor_ready (graphics_UpdateMouse mx my s) \<and>
      cursor_ready (graphics_UpdateMouse mx my s\<lparr>g_mem := m, g_invalidated_screen := False, g_invalidated := []\<rparr>)"
  proof (cases "g_Cursor s")
    case None
    then show ?thesis by (simp add: cursor_ready_def)
  next
    case (Some c)
    note pos = cursor_position(5-7) [OF assms(1) Some assms(2)]
    have "my \<le> gm_Height (g_Mode s)" "gm_Height (g_Mode s) < 1073741824"
      using assms by (simp_all add: cursor_ready_def Some mouse_in_def)
    with uint_ge_0 [of "xc_yhot c"] have "my - uint (xc_yhot c) + 1 \<le> 1073741824" by linarith
    with assms(1) pos show ?thesis
      unfolding cursor_ready_def by (simp add: Some UpdateMouse_last [OF assms(1) Some assms(2)] box_ok_def)
  qed
  then show "cursor_ready (graphics_UpdateMouse mx my s)"
    "cursor_ready (graphics_UpdateMouse mx my s\<lparr>g_mem := m, g_invalidated_screen := False, g_invalidated := []\<rparr>)" by simp_all
qed

text \<open>The places it draws at are invalidated, so that a pixel stays covered or the same.\<close>

lemma UpdateMouse_covers:
  assumes "screen_ok s" and "cursor_ready s" and "rects_ok s" and "mouse_in s mx my"
  shows "rects_ok (graphics_UpdateMouse mx my s)"
    and "on_screen s X Y \<Longrightarrow> covered s X Y \<or> same_pixel s (g_mem s) X Y \<Longrightarrow>
      covered (graphics_UpdateMouse mx my s) X Y \<or> same_pixel s (g_mem (graphics_UpdateMouse mx my s)) X Y"
proof -
  let ?u = "graphics_UpdateMouse mx my s"
  have moved: "rects_ok ?u \<and> (covered s X Y \<or> (X, Y) \<in> last_cursor s \<union> next_cursor s mx my \<longrightarrow> covered ?u X Y)" if ne: "?u \<noteq> s"
  proof -
    obtain c where c: "g_Cursor s = Some c" using ne by (cases "g_Cursor s") (simp_all add: graphics_UpdateMouse_def)
    note pos = cursor_position [OF assms(2) c assms(4)]
    let ?x = "mx - uint (xc_xhot c) + 1" and ?y = "my - uint (xc_yhot c) + 1"
    let ?w = "uint (xc_width c)" and ?h = "uint (xc_height c)"
    define l where "l = graphics_Invalidate (g_lastMouseX s) (g_lastMouseY s) (g_lastMouseSizeX s) (g_lastMouseSizeY s) s"
    define n where "n = graphics_Invalidate ?x ?y ?w ?h l"
    have last: "g_invalidated_screen s \<or> box_ok (gm_Width (g_Mode s)) (g_lastMouseX s) (g_lastMouseY s) (g_lastMouseSizeX s) (g_lastMouseSizeY s)"
      using assms(2) by (auto simp: cursor_ready_def c box_ok_def)
    note L = graphics_Invalidate_covers [OF assms(3), of "g_lastMouseX s" "g_lastMouseY s" "g_lastMouseSizeX s" "g_lastMouseSizeY s" X Y]
    have 1: "rects_ok l" "covered s X Y \<or> (X, Y) \<in> last_cursor s \<longrightarrow> covered l X Y"
      using L rect_box last graphics_Invalidate_screen [of s "g_lastMouseX s"] unfolding l_def last_cursor_def
      by (auto simp: covered_def)
    have "g_invalidated_screen l \<or> rect_ok (gm_Width (g_Mode l)) (rect ?x ?y ?w ?h)"
      using rect_box(2) [OF pos(5)] by (simp add: l_def)
    from graphics_Invalidate_covers [OF 1(1) this, of X Y] rect_box(1) [OF pos(5), of X Y] 1(2)
    have 2: "rects_ok n \<and> (covered s X Y \<or> (X, Y) \<in> last_cursor s \<union> next_cursor s mx my \<longrightarrow> covered n X Y)"
      by (auto simp: n_def next_cursor_def c)
    have inv: "graphics_Invalidate x y w h (t\<lparr>g_mem := m\<rparr>) = graphics_Invalidate x y w h t\<lparr>g_mem := m\<rparr>" for x y w h t m
      by (simp add: graphics_Invalidate_def Let_def split: list.split option.split)
    have "g_invalidated ?u = g_invalidated n \<and> g_invalidated_screen ?u = g_invalidated_screen n"
      using that unfolding graphics_UpdateMouse_def c option.case Let_def pos(1-4) by (auto simp: inv n_def l_def split: if_splits)
    then have "rects_ok ?u = rects_ok n \<and> covered ?u X Y = covered n X Y"
      by (simp add: rects_ok_def covered_def) (simp add: n_def l_def)
    with 2 show ?thesis by simp
  qed
  then show "rects_ok ?u" using assms(3) by fastforce
  show "covered ?u X Y \<or> same_pixel s (g_mem ?u) X Y"
    if on: "on_screen s X Y" and "covered s X Y \<or> same_pixel s (g_mem s) X Y"
  proof (cases "?u = s \<or> (X, Y) \<in> last_cursor s \<union> next_cursor s mx my")
    case True
    with that moved show ?thesis by metis
  next
    case False
    then have "same_pixel s (g_mem ?u) X Y = same_pixel s (g_mem s) X Y"
      using UpdateMouse_pixels [OF assms(1, 2, 4) on] by (simp add: same_pixel_bytes)
    with that moved False show ?thesis by blast
  qed
qed

section \<open>The swap\<close>

lemma SwapBuffer_mem:
  "g_mem (graphics_SwapBuffer mx my s) = (if g_invalidated_screen (graphics_UpdateMouse mx my s)
     then memcpy (g_mem (graphics_UpdateMouse mx my s)) (g_DeviceFramebuffer s) (g_Framebuffer s) (g_FramebufferSize s)
     else fold (SwapBuffer_rect (graphics_UpdateMouse mx my s)) (g_invalidated (graphics_UpdateMouse mx my s))
       (g_mem (graphics_UpdateMouse mx my s)))"
  by (simp add: graphics_SwapBuffer_def Let_def)

lemma SwapBuffer_presents_covered:
  assumes "screen_ok s" and "cursor_ready s" and "mouse_in s mx my" and "rects_ok s" and "on_screen s X Y"
    and "covered s X Y \<or> same_pixel s (g_mem s) X Y"
  shows "same_pixel s (g_mem (graphics_SwapBuffer mx my s)) X Y"
proof -
  let ?u = "graphics_UpdateMouse mx my s"
  have u: "screen_ok ?u" "on_screen ?u X Y" using assms by simp_all
  note c = UpdateMouse_covers [OF assms(1, 2, 4, 3)]
  show ?thesis
  proof (cases "g_invalidated_screen ?u")
    case True
    with SwapBuffer_screen_same [OF assms(1, 5), of "g_mem ?u"] show ?thesis by (simp add: SwapBuffer_mem)
  next
    case False
    with c(1) c(2) [OF assms(5, 6)] SwapBuffer_rects_same [OF u(1) _ u(2), of "g_invalidated ?u" "g_mem ?u"]
    show ?thesis by (auto simp: SwapBuffer_mem covered_def rects_ok_def)
  qed
qed

text \<open>The swap does not write to the back buffer.\<close>

lemma SwapBuffer_back:
  assumes "screen_ok s" and "cursor_ready s" and "rects_ok s" and "mouse_in s mx my" and "on_screen s X Y" and "j < 4"
  shows "g_mem (graphics_SwapBuffer mx my s) (pixel_at (g_Framebuffer s) (gm_Width (g_Mode s)) X Y + of_nat j) =
    g_mem (graphics_UpdateMouse mx my s) (pixel_at (g_Framebuffer s) (gm_Width (g_Mode s)) X Y + of_nat j)"
proof -
  let ?u = "graphics_UpdateMouse mx my s" and ?a = "pixel_at (g_Framebuffer s) (gm_Width (g_Mode s)) X Y + of_nat j"
  have own: "in_block ?a (g_Framebuffer s) (g_FramebufferSize s)"
    by (rule in_screen_block [OF assms(1) screen_pixel_in [OF assms(1, 5, 6)]])
  then have dev: "\<not> in_block ?a (g_DeviceFramebuffer s) (g_FramebufferSize s)"
    using assms(1) by (auto simp: screen_ok_def disjoint_blocks_def)
  then have out: "\<not> in_block ?a (g_DeviceFramebuffer s) (of_int (screen_bytes s))" using in_screen_block [OF assms(1)] by blast
  have rect: "SwapBuffer_rect ?u r m ?a = m ?a" if "rect_ok (gm_Width (g_Mode s)) r" for r m
    unfolding SwapBuffer_rect_def Let_def
    by (rule CopyBuffer32_outside [OF rect_area_ok]) (use assms(1) that out in \<open>simp_all add: screen_area_def\<close>)
  have "fold (SwapBuffer_rect ?u) rs m ?a = m ?a" if "\<forall>r \<in> set rs. rect_ok (gm_Width (g_Mode s)) r" for rs m
    by (rule fold_invariant [where P = "\<lambda>m'. m' ?a = m ?a" and Q = "\<lambda>r. r \<in> set rs"]) (use that rect in auto)
  with UpdateMouse_covers(1) [OF assms(1-4)] memcpy_outside [OF dev] show ?thesis
    by (auto simp: SwapBuffer_mem rects_ok_def)
qed

text \<open>Several regions invalidated one after the other.\<close>

definition invalidate_all :: "(int \<times> int \<times> int \<times> int) list \<Rightarrow> graphics_state \<Rightarrow> graphics_state" where
  "invalidate_all rs = fold (\<lambda>(x, y, w, h). graphics_Invalidate x y w h) rs"

lemma invalidate_all_covers:
  assumes "rects_ok s" and "\<forall>(x, y, w, h) \<in> set rs. rect_ok (gm_Width (g_Mode s)) (rect x y w h)"
  shows "rects_ok (invalidate_all rs s) \<and>
    (covered s X Y \<or> (\<exists>(x, y, w, h) \<in> set rs. rect_has (rect x y w h) X Y) \<longrightarrow> covered (invalidate_all rs s) X Y)"
  using assms
proof (induction rs arbitrary: s)
  case (Cons r rs)
  obtain x y w h where r: "r = (x, y, w, h)" by (cases r)
  have "rect_ok (gm_Width (g_Mode s)) (rect x y w h)" using Cons.prems(2) by (simp add: r)
  note inv = graphics_Invalidate_covers [OF Cons.prems(1) disjI2 [OF this], of X Y]
  with Cons.IH [of "graphics_Invalidate x y w h s"] Cons.prems(2) show ?case
    by (auto simp: r invalidate_all_def)
qed (simp add: invalidate_all_def)

lemma invalidate_all_fields [simp]:
  "g_mem (invalidate_all rs s) = g_mem s" "g_Mode (invalidate_all rs s) = g_Mode s"
  "g_Framebuffer (invalidate_all rs s) = g_Framebuffer s" "g_Cursor (invalidate_all rs s) = g_Cursor s"
  "g_DeviceFramebuffer (invalidate_all rs s) = g_DeviceFramebuffer s"
  "g_FramebufferSize (invalidate_all rs s) = g_FramebufferSize s"
  "g_mouseOverlay (invalidate_all rs s) = g_mouseOverlay s"
  "g_lastMouseX (invalidate_all rs s) = g_lastMouseX s" "g_lastMouseY (invalidate_all rs s) = g_lastMouseY s"
  "g_lastMouseSizeX (invalidate_all rs s) = g_lastMouseSizeX s" "g_lastMouseSizeY (invalidate_all rs s) = g_lastMouseSizeY s"
  by (induction rs arbitrary: s) (auto simp: invalidate_all_def)

lemma invalidate_all_screen [simp]:
  "screen_ok (invalidate_all rs s) = screen_ok s" "on_screen (invalidate_all rs s) = on_screen s"
  "same_pixel (invalidate_all rs s) = same_pixel s"
  by (simp_all add: screen_ok_def on_screen_def same_pixel_def fun_eq_iff)

lemma graphics_Invalidate_ready: "cursor_ready s \<Longrightarrow> cursor_ready (graphics_Invalidate x y w h s)"
  by (auto simp: cursor_ready_def graphics_Invalidate_screen split: option.splits)

lemma invalidate_all_cursor: "cursor_ready s \<Longrightarrow> cursor_ready (invalidate_all rs s)"
proof (induction rs arbitrary: s)
  case (Cons r rs)
  obtain x y w h where r: "r = (x, y, w, h)" by (cases r)
  from Cons.IH [OF graphics_Invalidate_ready [OF Cons.prems]] show ?case by (simp add: invalidate_all_def r)
qed (simp add: invalidate_all_def)

section \<open>The properties\<close>

text \<open>
  Copying a region between two images. Whatever the offsets and sizes (negative offsets and
  regions that reach over an edge included, as long as the common part has no negative width), a
  pixel of the destination becomes the pixel of the source at the same place of the region if that
  exists and is part of the region; every other pixel, and every byte outside the destination
  image, stays what it was.
\<close>

theorem graphics_CopyBuffer32_copies:
  assumes "copy_ok c"
  shows "(\<forall>X Y. 0 \<le> X \<and> X < ca_toSizeX c \<and> 0 \<le> Y \<and> Y < ca_toSizeY c \<longrightarrow>
      bytes_at (graphics_CopyBuffer32 c m) (pixel_at (ca_to c) (ca_toSizeX c) X Y) 4 =
      (if in_region c (X - ca_toOffsetX c) (Y - ca_toOffsetY c)
       then bytes_at m (pixel_at (ca_from c) (ca_fromSizeX c) (ca_fromOffsetX c + (X - ca_toOffsetX c))
              (ca_fromOffsetY c + (Y - ca_toOffsetY c))) 4
       else bytes_at m (pixel_at (ca_to c) (ca_toSizeX c) X Y) 4)) \<and>
    (\<forall>a. \<not> in_block a (ca_to c) (of_int (4 * (ca_toSizeX c * ca_toSizeY c))) \<longrightarrow>
      graphics_CopyBuffer32 c m a = m a)"
  using CopyBuffer32_byte [OF assms] CopyBuffer32_outside [OF assms]
  by (auto simp: list_eq_iff_nth_eq)

text \<open>A region of two by two pixels that reaches over the upper left corner of the destination.\<close>

definition demo_area :: copy_area where
  "demo_area = screen_area 0x1000 1 1 4 4 0x2000 (- 1) 0 3 3 2 2"

lemma demo_area_ok: "copy_ok demo_area"
  by (simp add: copy_ok_def demo_area_def screen_area_def clip_begin_def clip_end_def disjoint_blocksI)

theorem graphics_CopyBuffer32_copies_witness:
  "bytes_at (graphics_CopyBuffer32 demo_area (\<lambda>a. ucast a)) 0x2000 4 = [0x18, 0x19, 0x1A, 0x1B] \<and>
   bytes_at (graphics_CopyBuffer32 demo_area (\<lambda>a. ucast a)) 0x2004 4 = [0x04, 0x05, 0x06, 0x07] \<and>
   graphics_CopyBuffer32 demo_area (\<lambda>a. ucast a) 0x2024 = 0x24"
proof -
  note copies = graphics_CopyBuffer32_copies [OF demo_area_ok, of "\<lambda>a. ucast a"]
  have src: "bytes_at (\<lambda>a. ucast a) 0x1018 4 = [0x18, 0x19, 0x1A, 0x1B]"
    "bytes_at (\<lambda>a. ucast a) 0x2004 4 = [0x04, 0x05, 0x06, 0x07]" by (simp_all add: bytes_at_def upt_conv_Cons)
  have "\<not> in_block 0x2024 0x2000 36" by (simp add: in_block_def)
  with conjunct1 [OF copies, rule_format, of 0 0] conjunct1 [OF copies, rule_format, of 1 0]
    conjunct2 [OF copies, rule_format, of "0x2024"] src
  show ?thesis by (simp add: demo_area_def screen_area_def in_region_def pixel_at_def)
qed

text \<open>
  C15: what is drawn is shown, the cursor with it. Let the two buffers, which lie apart, agree on every pixel of the screen outside
  some rectangles, none of which lies wholly beyond the left or the right edge. Then after invalidating these one by one, however they merge and even when they
  exhaust the stack of rectangles, \<^verbatim>\<open>graphics_SwapBuffer\<close> leaves the device with the pixels of the
  back buffer everywhere on the screen; and it changes the back buffer only where the cursor was drawn last and where it is
  drawn now. There may be no cursor, or one whose image is at most 32 by 32 pixels with its hot spot right of the first column,
  wherever on the desktop the mouse is.
\<close>

theorem graphics_SwapBuffer_presents:
  assumes "screen_ok s" and "cursor_ready s" and "mouse_in s mouseX mouseY" and "rects_ok s"
    and "\<forall>(x, y, w, h) \<in> set rs. rect_ok (gm_Width (g_Mode s)) (rect x y w h)"
    and "\<forall>X Y. on_screen s X Y \<longrightarrow> same_pixel s (g_mem s) X Y \<or> covered s X Y \<or>
      (\<exists>(x, y, w, h) \<in> set rs. rect_has (rect x y w h) X Y)"
  shows "\<forall>X Y. on_screen s X Y \<longrightarrow>
    same_pixel s (g_mem (graphics_SwapBuffer mouseX mouseY (invalidate_all rs s))) X Y \<and>
    ((X, Y) \<notin> last_cursor s \<union> next_cursor s mouseX mouseY \<longrightarrow>
      bytes_at (g_mem (graphics_SwapBuffer mouseX mouseY (invalidate_all rs s))) (pixel_at (g_Framebuffer s) (gm_Width (g_Mode s)) X Y) 4 =
      bytes_at (g_mem s) (pixel_at (g_Framebuffer s) (gm_Width (g_Mode s)) X Y) 4)"
proof (intro allI impI)
  fix X Y assume on: "on_screen s X Y"
  let ?s = "invalidate_all rs s"
  note inv = invalidate_all_covers [OF assms(4, 5), of X Y]
  have s: "screen_ok ?s" "cursor_ready ?s" "rects_ok ?s" "mouse_in ?s mouseX mouseY" "on_screen ?s X Y"
    using assms inv on by (simp_all add: invalidate_all_cursor mouse_in_def)
  have "covered ?s X Y \<or> same_pixel s (g_mem s) X Y" using assms(6) on inv by blast
  with SwapBuffer_presents_covered [OF s(1, 2, 4, 3, 5)]
  have "same_pixel s (g_mem (graphics_SwapBuffer mouseX mouseY ?s)) X Y" by simp
  moreover have "(X, Y) \<notin> last_cursor s \<union> next_cursor s mouseX mouseY \<longrightarrow>
      bytes_at (g_mem (graphics_SwapBuffer mouseX mouseY ?s)) (pixel_at (g_Framebuffer s) (gm_Width (g_Mode s)) X Y) 4 =
      bytes_at (g_mem s) (pixel_at (g_Framebuffer s) (gm_Width (g_Mode s)) X Y) 4"
    using SwapBuffer_back [OF s] UpdateMouse_pixels(2) [OF s(1, 2, 4, 5)]
    by (simp add: list_eq_iff_nth_eq last_cursor_def next_cursor_def)
  ultimately show "same_pixel s (g_mem (graphics_SwapBuffer mouseX mouseY ?s)) X Y \<and>
    ((X, Y) \<notin> last_cursor s \<union> next_cursor s mouseX mouseY \<longrightarrow>
      bytes_at (g_mem (graphics_SwapBuffer mouseX mouseY ?s)) (pixel_at (g_Framebuffer s) (gm_Width (g_Mode s)) X Y) 4 =
      bytes_at (g_mem s) (pixel_at (g_Framebuffer s) (gm_Width (g_Mode s)) X Y) 4)" ..
qed

definition demo_screen :: graphics_state where
  "demo_screen = \<lparr>g_mem = (\<lambda>a. if a = 0x1010 then 7 else 0), g_DeviceFramebuffer = 0x2000, g_Framebuffer = 0x1000,
     g_FramebufferSize = 64, g_Doublebuffer = 0x1000,
     g_Mode = \<lparr>gm_Width = 4, gm_Height = 4, gm_PixelsPerLine = 4, gm_PixelFormat = BGRA_8bit\<rparr>,
     g_Cursor = Some \<lparr>xc_width = 1, xc_height = 2, xc_xhot = 1, xc_yhot = 1, xc_pixels = 0x5000\<rparr>,
     g_lastMouseX = 0, g_lastMouseY = 0, g_lastMouseSizeX = 0, g_lastMouseSizeY = 0, g_mouseOverlay = 0x3000,
     g_invalidated_screen = False, g_invalidated = [], g_CursorX = 0, g_CursorY = 0\<rparr>"

theorem graphics_SwapBuffer_presents_witness:
  "same_pixel demo_screen
     (g_mem (graphics_SwapBuffer 4 3 (invalidate_all [(0, 0, 2, 1), (0, 1, 2, 1)] demo_screen))) 0 1"
proof -
  let ?rs = "[(0, 0, 2, 1), (0, 1, 2, 1)] :: (int \<times> int \<times> int \<times> int) list"
  have ok: "screen_ok demo_screen" "cursor_ready demo_screen" "mouse_in demo_screen 4 3" "rects_ok demo_screen"
    "\<forall>(x, y, w, h) \<in> set ?rs. rect_ok (gm_Width (g_Mode demo_screen)) (rect x y w h)"
    by (simp_all add: demo_screen_def screen_ok_def cursor_ready_def mouse_in_def disjoint_blocksI disjoint_blocks_sym [OF disjoint_blocksI]
        rects_ok_def rect_ok_def rect_def)
  have pix: "pixel_at 0x1000 4 X Y + of_nat j \<noteq> 0x1010" "pixel_at 0x2000 4 X Y + of_nat j \<noteq> 0x1010"
    if "0 \<le> X" "X < 4" "0 \<le> Y" "Y < 4" "j < 4" "\<not> (X = 0 \<and> Y = 1)" for X Y and j :: nat
  proof -
    have "X \<in> {0, 1, 2, 3}" "Y \<in> {0, 1, 2, 3}" "j \<in> {0, 1, 2, 3}" using that by auto
    then show "pixel_at 0x1000 4 X Y + of_nat j \<noteq> 0x1010" "pixel_at 0x2000 4 X Y + of_nat j \<noteq> 0x1010"
      using that(6) by (auto simp: pixel_at_def)
  qed
  have "same_pixel demo_screen (g_mem demo_screen) X Y"
    if "on_screen demo_screen X Y" "\<not> (X = 0 \<and> Y = 1)" for X Y
    using that pix [of X Y] by (simp add: same_pixel_bytes on_screen_def demo_screen_def)
  moreover have "rect_has (rect 0 1 2 1) 0 1" by (simp add: rect_has_def rect_def)
  ultimately have "\<forall>X Y. on_screen demo_screen X Y \<longrightarrow> same_pixel demo_screen (g_mem demo_screen) X Y \<or>
      covered demo_screen X Y \<or> (\<exists>(x, y, w, h) \<in> set ?rs. rect_has (rect x y w h) X Y)" by auto
  from graphics_SwapBuffer_presents [OF ok this] show ?thesis by (simp add: on_screen_def demo_screen_def)
qed

end
