(* ===== verification/Cstring.thy ===== *)
theory Cstring
  imports Prelude
begin

text \<open>
  C strings: \<^verbatim>\<open>src/runtime/string.c\<close> and the functions of \<^verbatim>\<open>src/extlib/pdlibc\<close> the kernel links. A
  string is read through a function from positions to characters, whether it lies in memory or is
  a literal, so that one definition models a function for both. \<open>None\<close> means that a loop does not end.
\<close>

section \<open>The code\<close>

type_synonym chars = "nat \<Rightarrow> u8"

definition mem_chars :: "mem \<Rightarrow> addr \<Rightarrow> chars" where
  "mem_chars m p = (\<lambda>i. m (p + of_nat i))"

definition str_chars :: "u8 list \<Rightarrow> chars" where
  "str_chars s = (\<lambda>i. if i < length s then s ! i else 0)"

partial_function (option) strlen :: "mem \<Rightarrow> addr \<Rightarrow> u64 \<Rightarrow> u64 option" where
  "strlen m s len = (if m s \<noteq> 0 then strlen m (s + 1) (len + 1) else Some len)"

partial_function (option) strcmp :: "chars \<Rightarrow> chars \<Rightarrow> int option" where
  "strcmp s1 s2 =
     (if s1 0 \<noteq> 0 \<and> s1 0 = s2 0 then strcmp (\<lambda>i. s1 (Suc i)) (\<lambda>i. s2 (Suc i))
      else Some (uint (s1 0) - uint (s2 0)))"

primrec strncmp :: "nat \<Rightarrow> chars \<Rightarrow> chars \<Rightarrow> int" where
  "strncmp 0 s1 s2 = 0"
| "strncmp (Suc n) s1 s2 =
     (if s1 0 \<noteq> 0 \<and> s1 0 = s2 0 then strncmp n (\<lambda>i. s1 (Suc i)) (\<lambda>i. s2 (Suc i))
      else uint (s1 0) - uint (s2 0))"

primrec memcmp :: "nat \<Rightarrow> chars \<Rightarrow> chars \<Rightarrow> int" where
  "memcmp 0 p1 p2 = 0"
| "memcmp (Suc n) p1 p2 =
     (if p1 0 \<noteq> p2 0 then uint (p1 0) - uint (p2 0) else memcmp n (\<lambda>i. p1 (Suc i)) (\<lambda>i. p2 (Suc i)))"

partial_function (option) strcpy :: "addr \<Rightarrow> addr \<Rightarrow> mem \<Rightarrow> mem option" where
  "strcpy s1 s2 m =
     (let c = m s2; m = m(s1 := c) in if c \<noteq> 0 then strcpy (s1 + 1) (s2 + 1) m else Some m)"

text \<open>The two loops of \<^verbatim>\<open>strncpy\<close>: the copy, and the zeros up to the length.\<close>

primrec strncpy_copy :: "nat \<Rightarrow> addr \<Rightarrow> addr \<Rightarrow> mem \<Rightarrow> nat \<times> addr \<times> mem" where
  "strncpy_copy 0 s1 s2 m = (0, s1, m)"
| "strncpy_copy (Suc n) s1 s2 m =
     (let c = m s2; m = m(s1 := c) in
      if c \<noteq> 0 then strncpy_copy n (s1 + 1) (s2 + 1) m else (Suc n, s1 + 1, m))"

primrec strncpy_fill :: "nat \<Rightarrow> addr \<Rightarrow> mem \<Rightarrow> mem" where
  "strncpy_fill 0 s1 m = m"
| "strncpy_fill (Suc n) s1 m = (if Suc n > 1 then strncpy_fill n (s1 + 1) (m(s1 := 0)) else m)"

definition strncpy :: "addr \<Rightarrow> addr \<Rightarrow> nat \<Rightarrow> mem \<Rightarrow> mem" where
  "strncpy s1 s2 n m = (let (n, s1, m) = strncpy_copy n s1 s2 m in strncpy_fill n s1 m)"

text \<open>The string at an address, as a list.\<close>

definition cstr :: "mem \<Rightarrow> addr \<Rightarrow> u8 list option" where
  "cstr m p = do { n \<leftarrow> strlen m p 0; Some (bytes_at m p (unat n)) }"

definition str_eq :: "u8 list \<Rightarrow> u8 list \<Rightarrow> bool" where
  "str_eq s t \<longleftrightarrow> strcmp (str_chars s) (str_chars t) = Some 0"

section \<open>What they compute\<close>

text \<open>\<open>cstring_at m p s\<close>: the string \<open>s\<close>, which has no zero, lies at \<open>p\<close> with a zero behind it.\<close>

definition cstring_at :: "mem \<Rightarrow> addr \<Rightarrow> u8 list \<Rightarrow> bool" where
  "cstring_at m p s \<longleftrightarrow> bytes_at m p (length s) = s \<and> m (p + of_nat (length s)) = 0 \<and> 0 \<notin> set s"

lemma cstring_at_simps [simp]:
  "cstring_at m p [] \<longleftrightarrow> m p = 0"
  "cstring_at m p (c # s) \<longleftrightarrow> m p = c \<and> c \<noteq> 0 \<and> cstring_at m (p + 1) s"
  by (auto simp: cstring_at_def bytes_at_Suc add.assoc)

lemma strlen_cstring: "cstring_at m p s \<Longrightarrow> strlen m p k = Some (k + of_nat (length s))"
proof (induction s arbitrary: p k)
  case (Cons c s)
  then have "strlen m (p + 1) (k + 1) = Some (k + 1 + of_nat (length s))" by simp
  with Cons.prems show ?case by (subst strlen.simps) (simp add: add.assoc)
qed (subst strlen.simps, simp)

lemma cstr_cstring: "cstring_at m p s \<Longrightarrow> length s < 2 ^ 64 \<Longrightarrow> cstr m p = Some s"
  by (simp add: cstr_def strlen_cstring unat_of_nat_u64) (simp add: cstring_at_def)

lemma str_chars_simps [simp]:
  "str_chars [] = (\<lambda>i. 0)" "str_chars (c # s) 0 = c" "str_chars (c # s) (Suc i) = str_chars s i"
  by (simp_all add: str_chars_def)

lemma cstring_at_chars: "cstring_at m p s \<Longrightarrow> i \<le> length s \<Longrightarrow> mem_chars m p i = str_chars s i"
  by (auto simp: cstring_at_def mem_chars_def str_chars_def list_eq_iff_nth_eq)

text \<open>Only the characters up to the terminating zero matter.\<close>

lemma strcmp_cong:
  "0 \<notin> set s \<Longrightarrow> (\<And>i. i \<le> length s \<Longrightarrow> a i = str_chars s i) \<Longrightarrow> strcmp a b = strcmp (str_chars s) b"
proof (induction s arbitrary: a b)
  case Nil
  then have "a 0 = 0" by simp
  then show ?case by (subst (1 2) strcmp.simps) simp
next
  case (Cons c s)
  have "strcmp (\<lambda>i. a (Suc i)) b' = strcmp (str_chars s) b'" for b'
  proof (rule Cons.IH)
    show "a (Suc i) = str_chars s i" if "i \<le> length s" for i using Cons.prems(2) [of "Suc i"] that by simp
  qed (use Cons.prems(1) in simp)
  moreover have "a 0 = c" using Cons.prems(2) [of 0] by simp
  ultimately show ?case by (subst (1 2) strcmp.simps) simp
qed

lemma strcmp_Cons:
  "c \<noteq> 0 \<Longrightarrow> strcmp (str_chars (c # s)) (str_chars (d # t)) =
     (if c = d then strcmp (str_chars s) (str_chars t) else Some (uint c - uint d))"
  by (subst strcmp.simps) simp

lemma strcmp_Nil: "strcmp (\<lambda>_. 0) b = Some (- uint (b 0))"
  by (subst strcmp.simps) simp

lemma strcmp_Cons_Nil: "c \<noteq> 0 \<Longrightarrow> strcmp (str_chars (c # s)) (\<lambda>_. 0) = Some (uint c)"
  by (subst strcmp.simps) simp

lemma uint_eq [simp]: "uint a = uint b \<longleftrightarrow> a = b"
  by (rule word_uint_eq_iff [symmetric])

lemma strcmp_strings: "0 \<notin> set s \<Longrightarrow> 0 \<notin> set t \<Longrightarrow> (strcmp (str_chars s) (str_chars t) = Some 0) = (s = t)"
proof (induction s arbitrary: t)
  case Nil
  then show ?case by (cases t) (auto simp: strcmp_Nil uint_0_iff)
next
  case (Cons c s)
  then show ?case by (cases t) (auto simp: strcmp_Cons strcmp_Cons_Nil uint_0_iff)
qed

lemma str_eq_iff: "0 \<notin> set s \<Longrightarrow> 0 \<notin> set t \<Longrightarrow> str_eq s t \<longleftrightarrow> s = t"
  by (simp add: str_eq_def strcmp_strings)

lemma strncmp_strings:
  "0 \<notin> set s \<Longrightarrow> 0 \<notin> set t \<Longrightarrow> strncmp n (str_chars s) (str_chars t) = 0 \<longleftrightarrow> take n s = take n t"
proof (induction n arbitrary: s t)
  case (Suc n)
  then show ?case
    by (cases s; cases t) (simp_all add: uint_0_iff)
qed simp

lemma memcmp_zero: "memcmp n a b = 0 \<longleftrightarrow> (\<forall>i < n. a i = b i)"
proof (induction n arbitrary: a b)
  case (Suc n)
  then show ?case by (simp add: All_less_Suc2)
qed simp

end
