(* ===== verification/Console.thy ===== *)
theory Console
  imports Graphics Unicode Serial Cstring
begin

text \<open>
  The text console: the characters of \<^verbatim>\<open>src/graphics/graphics.c\<close> and the output functions of
  \<^verbatim>\<open>src/runtime/stdio.c\<close>. Strings lie in the memory of the frame buffers. The firmware's console is
  the list of the strings handed to it. \<open>None\<close> means that a loop does not end.
\<close>

section \<open>The code\<close>

subsection \<open>Characters\<close>

text \<open>The font and the position of the mouse are read, never written, by the console.\<close>

record console_env =
  e_font :: "u32 \<Rightarrow> u8"
  e_mouseX :: int
  e_mouseY :: int

definition char_width :: "u32 \<Rightarrow> int" where
  "char_width c = (if unifont_IsCharDoublewidth c then UNIFONT_CHAR_WIDTH * 2 else UNIFONT_CHAR_WIDTH)"

definition console_WriteChar :: "console_env \<Rightarrow> HelosGraphics_Color \<Rightarrow> u32 \<Rightarrow> graphics_state \<Rightarrow> graphics_state" where
  "console_WriteChar e color c s =
     (if c = 0x0A then graphics_Newline UNIFONT_CHAR_HEIGHT s
      else if c = 0x0D then s\<lparr>g_CursorX := 0\<rparr>
      else
        (let width = char_width c;
             s = graphics_ElementSize width UNIFONT_CHAR_HEIGHT s;
             s = graphics_FillPixel (g_CursorX s) (g_CursorY s) (g_CursorX s + width)
                   (g_CursorY s + UNIFONT_CHAR_HEIGHT) HelosGraphics_Color_Black s;
             s = unifont_DrawChar (e_font e) (g_CursorX s) (g_CursorY s) color c s;
             s = graphics_Invalidate (g_CursorX s) (g_CursorY s) width UNIFONT_CHAR_HEIGHT s
         in s\<lparr>g_CursorX := g_CursorX s + width\<rparr>))"

text \<open>
  The three string functions differ in the size of an element and its conversion to a character:
  \<open>rd\<close> reads the element at an address, and \<open>n\<close> is its size in bytes.
\<close>

partial_function (option) Write_z ::
  "console_env \<Rightarrow> (mem \<Rightarrow> addr \<Rightarrow> u32) \<Rightarrow> u64 \<Rightarrow> HelosGraphics_Color \<Rightarrow> addr \<Rightarrow> bool \<Rightarrow> graphics_state \<Rightarrow>
     (bool \<times> graphics_state) option" where
  "Write_z e rd n color str wantSwap s =
     (if rd (g_mem s) str \<noteq> 0
      then (let s = console_WriteChar e color (rd (g_mem s) str) s in
            Write_z e rd n color (str + n) (wantSwap \<or> rd (g_mem s) str = 0x0A) s)
      else Some (wantSwap, s))"

definition Write_char ::
  "console_env \<Rightarrow> (mem \<Rightarrow> addr \<Rightarrow> u32) \<Rightarrow> HelosGraphics_Color \<Rightarrow> addr \<Rightarrow> bool \<times> graphics_state \<Rightarrow> bool \<times> graphics_state" where
  "Write_char e rd color p = (\<lambda>(wantSwap, s).
     let s = console_WriteChar e color (rd (g_mem s) p) s in (wantSwap \<or> rd (g_mem s) p = 0x0A, s))"

definition console_WriteString ::
  "console_env \<Rightarrow> (mem \<Rightarrow> addr \<Rightarrow> u32) \<Rightarrow> u64 \<Rightarrow> HelosGraphics_Color \<Rightarrow> addr \<Rightarrow> int \<Rightarrow> graphics_state \<Rightarrow>
     graphics_state option" where
  "console_WriteString e rd n color str len s = do {
     (wantSwap, s) \<leftarrow> (if len = 0 then Write_z e rd n color str False s
       else Some (fold (\<lambda>i. Write_char e rd color (str + n * of_nat i)) [0..<nat len] (False, s)));
     Some (if wantSwap then graphics_SwapBuffer (e_mouseX e) (e_mouseY e) s else s)
   }"

definition console_Write :: "console_env \<Rightarrow> HelosGraphics_Color \<Rightarrow> addr \<Rightarrow> int \<Rightarrow> graphics_state \<Rightarrow> graphics_state option" where
  "console_Write e = console_WriteString e (\<lambda>m p. ucast (le_load m p 4)) 4"

definition console_WriteUTF16 :: "console_env \<Rightarrow> HelosGraphics_Color \<Rightarrow> addr \<Rightarrow> int \<Rightarrow> graphics_state \<Rightarrow> graphics_state option" where
  "console_WriteUTF16 e = console_WriteString e (\<lambda>m p. ucast (le_load m p 2)) 2"

definition console_WriteASCII :: "console_env \<Rightarrow> HelosGraphics_Color \<Rightarrow> addr \<Rightarrow> int \<Rightarrow> graphics_state \<Rightarrow> graphics_state option" where
  "console_WriteASCII e = console_WriteString e (\<lambda>m p. scast (m p)) 1"

subsection \<open>Standard output\<close>

text \<open>
  The buffer for converted strings starts as a static array of 512 units; \<open>io_units\<close> counts the
  units really allocated at \<open>io_buffer\<close>.
\<close>

record stdio_state =
  io_graphics :: graphics_state
  io_serial :: "serial_port \<times> io_state"
  io_efi :: "u16 list list"
  io_bufSize :: int
  io_buffer :: addr
  io_bufferReal :: addr
  io_units :: int

definition WriteConsole_bufSize_init :: int where "WriteConsole_bufSize_init = 512"

definition stdio_serial :: "addr \<Rightarrow> int \<Rightarrow> stdio_state \<Rightarrow> stdio_state option" where
  "stdio_serial str n s = do {
     io \<leftarrow> pic_serial_Write (g_mem (io_graphics s)) str n (Some (fst (io_serial s))) (snd (io_serial s));
     Some (s\<lparr>io_serial := (fst (io_serial s), io)\<rparr>)
   }"

text \<open>One character; \<open>tmp\<close> is the address of the argument.\<close>

definition stdio_putchar :: "console_env \<Rightarrow> bool \<Rightarrow> addr \<Rightarrow> u8 \<Rightarrow> stdio_state \<Rightarrow> stdio_state option" where
  "stdio_putchar e quiet tmp c s = do {
     let s = s\<lparr>io_graphics := (io_graphics s)\<lparr>g_mem := (g_mem (io_graphics s))(tmp := c)\<rparr>\<rparr>;
     s \<leftarrow> stdio_serial tmp 1 s;
     if quiet then Some s
     else if g_Framebuffer (io_graphics s) = NULL then Some (s\<lparr>io_efi := io_efi s @ [[scast c]]\<rparr>)
     else (let g = console_WriteChar e HelosGraphics_Color_White (scast c) (io_graphics s);
               g = (if c = 0x0A then graphics_SwapBuffer (e_mouseX e) (e_mouseY e) g else g)
           in Some (s\<lparr>io_graphics := g\<rparr>))
   }"

text \<open>The loop that doubles the recorded size, and the allocation of \<open>size\<close> units at \<open>new\<close>.\<close>

partial_function (option) ResizeBuffer_loop :: "int \<Rightarrow> int \<Rightarrow> int option" where
  "ResizeBuffer_loop bufSize sz = (if bufSize < sz then ResizeBuffer_loop (s32 (bufSize * 2)) sz else Some bufSize)"

definition io_WriteConsole_ResizeBuffer :: "addr \<Rightarrow> int \<Rightarrow> stdio_state \<Rightarrow> stdio_state option" where
  "io_WriteConsole_ResizeBuffer new sz s =
     (if io_bufSize s < sz
      then do {
        b \<leftarrow> ResizeBuffer_loop (io_bufSize s) sz;
        Some (s\<lparr>io_bufSize := b, io_buffer := new, io_units := sz\<rparr>)
      }
      else Some s)"

text \<open>The two passes over a UTF-8 string: counting the characters, and storing them.\<close>

partial_function (option) UTF8_count :: "mem \<Rightarrow> addr \<Rightarrow> int \<Rightarrow> int \<Rightarrow> int \<Rightarrow> int option" where
  "UTF8_count m str len i sz =
     (if i < len
      then UTF8_count m str len (s32 (i + uint (fst (utf8_Decode m (str + of_int i) (of_int (len - i)) None)))) (sz + 1)
      else Some sz)"

partial_function (option) UTF8_store :: "addr \<Rightarrow> int \<Rightarrow> int \<Rightarrow> int \<Rightarrow> addr \<Rightarrow> mem \<Rightarrow> mem option" where
  "UTF8_store str len i j buffer m =
     (if i < len
      then (let (n, cp) = utf8_Decode m (str + of_int i) (of_int (len - i)) (Some 0) in
            UTF8_store str len (s32 (i + uint n)) (j + 1) buffer
              (store_bytes m (buffer + 2 * of_int j) (le_bytes 2 (ucast (the cp)))))
      else Some m)"

text \<open>What the firmware is handed: the units up to the terminating zero.\<close>

partial_function (option) efi_string :: "mem \<Rightarrow> addr \<Rightarrow> u16 list option" where
  "efi_string m p =
     (let u = ucast (le_load m p 2) in
      if u = 0 then Some [] else do { us \<leftarrow> efi_string m (p + 2); Some (u # us) })"

definition io_WriteConsoleUTF8 :: "console_env \<Rightarrow> addr \<Rightarrow> addr \<Rightarrow> stdio_state \<Rightarrow> stdio_state option" where
  "io_WriteConsoleUTF8 e new str s = do {
     l \<leftarrow> strlen (g_mem (io_graphics s)) str 0;
     let len = s32 (uint l);
     sz \<leftarrow> UTF8_count (g_mem (io_graphics s)) str len 0 0;
     s \<leftarrow> io_WriteConsole_ResizeBuffer new (sz + 1) s;
     m \<leftarrow> UTF8_store str len 0 0 (io_buffer s) (g_mem (io_graphics s));
     let m = store_bytes m (io_buffer s + 2 * of_int sz) [0, 0];
     let s = s\<lparr>io_graphics := (io_graphics s)\<lparr>g_mem := m\<rparr>\<rparr>;
     if g_Framebuffer (io_graphics s) = NULL
     then do { us \<leftarrow> efi_string m (io_buffer s); Some (s\<lparr>io_efi := io_efi s @ [us]\<rparr>) }
     else do {
       g \<leftarrow> console_WriteUTF16 e HelosGraphics_Color_White (io_buffer s) 0 (io_graphics s);
       Some (s\<lparr>io_graphics := g\<rparr>)
     }
   }"

definition ASCII_store :: "addr \<Rightarrow> addr \<Rightarrow> nat \<Rightarrow> mem \<Rightarrow> mem" where
  "ASCII_store str buffer i m =
     store_bytes m (buffer + 2 * of_nat i) (le_bytes 2 (scast (m (str + of_nat i))))"

definition io_WriteConsoleASCII_screen :: "console_env \<Rightarrow> addr \<Rightarrow> addr \<Rightarrow> stdio_state \<Rightarrow> stdio_state option" where
  "io_WriteConsoleASCII_screen e new str s =
     (if g_Framebuffer (io_graphics s) = NULL
      then do {
        l \<leftarrow> strlen (g_mem (io_graphics s)) str 0;
        let len = s32 (uint l);
        s \<leftarrow> io_WriteConsole_ResizeBuffer new (len + 1) s;
        let m = fold (ASCII_store str (io_buffer s)) [0..<nat (len + 1)] (g_mem (io_graphics s));
        us \<leftarrow> efi_string m (io_buffer s);
        Some (s\<lparr>io_graphics := (io_graphics s)\<lparr>g_mem := m\<rparr>, io_efi := io_efi s @ [us]\<rparr>)
      }
      else do {
        g \<leftarrow> console_WriteASCII e HelosGraphics_Color_White str 0 (io_graphics s);
        Some (s\<lparr>io_graphics := g\<rparr>)
      })"

text \<open>\<open>quiet\<close>: the build defines \<^verbatim>\<open>HELOS_RUNTIME_QUIET\<close>, as \<^verbatim>\<open>config.h\<close> does.\<close>

definition io_WriteConsole :: "console_env \<Rightarrow> bool \<Rightarrow> addr \<Rightarrow> addr \<Rightarrow> stdio_state \<Rightarrow> stdio_state option" where
  "io_WriteConsole e quiet new str s = do {
     s \<leftarrow> stdio_serial str 0 s;
     if quiet then Some s else io_WriteConsoleUTF8 e new str s
   }"

definition io_WriteConsoleASCII :: "console_env \<Rightarrow> bool \<Rightarrow> addr \<Rightarrow> addr \<Rightarrow> stdio_state \<Rightarrow> stdio_state option" where
  "io_WriteConsoleASCII e quiet new str s = do {
     s \<leftarrow> stdio_serial str 0 s;
     if quiet then Some s else io_WriteConsoleASCII_screen e new str s
   }"

definition io_Error :: "console_env \<Rightarrow> addr \<Rightarrow> addr \<Rightarrow> stdio_state \<Rightarrow> stdio_state option" where
  "io_Error e new str s = do { s \<leftarrow> stdio_serial str 0 s; io_WriteConsoleUTF8 e new str s }"

definition io_ErrorASCII :: "console_env \<Rightarrow> addr \<Rightarrow> addr \<Rightarrow> stdio_state \<Rightarrow> stdio_state option" where
  "io_ErrorASCII e new str s = do { s \<leftarrow> stdio_serial str 0 s; io_WriteConsoleASCII_screen e new str s }"

section \<open>Drawing stays in the back buffer\<close>

definition buffer_bytes :: "graphics_state \<Rightarrow> int" where
  "buffer_bytes s = 4 * (gm_PixelsPerLine (g_Mode s) * gm_Height (g_Mode s))"

text \<open>
  The state \<open>s'\<close> differs from \<open>s\<close> in memory only within the back buffer, and the screen is the same;
  for a step that draws, the cursor too.
\<close>

definition only_back :: "graphics_state \<Rightarrow> graphics_state \<Rightarrow> bool" where
  "only_back s s' \<longleftrightarrow> g_Mode s' = g_Mode s \<and> g_Framebuffer s' = g_Framebuffer s \<and> g_Doublebuffer s' = g_Doublebuffer s \<and>
     (\<forall>a. \<not> in_block a (g_Framebuffer s) (of_int (buffer_bytes s)) \<longrightarrow> g_mem s' a = g_mem s a)"

definition draws :: "graphics_state \<Rightarrow> graphics_state \<Rightarrow> bool" where
  "draws s s' \<longleftrightarrow> only_back s s' \<and> g_CursorX s' = g_CursorX s \<and> g_CursorY s' = g_CursorY s"

lemma only_back_trans: "only_back s s' \<Longrightarrow> only_back s' s'' \<Longrightarrow> only_back s s''"
  by (auto simp: only_back_def buffer_bytes_def)

lemma only_back_cursor [simp]:
  "only_back s (s'\<lparr>g_CursorX := x\<rparr>) = only_back s s'" "only_back s (s'\<lparr>g_CursorY := y\<rparr>) = only_back s s'"
  "only_back (s\<lparr>g_CursorX := x\<rparr>) s' = only_back s s'" "only_back (s\<lparr>g_CursorY := y\<rparr>) s' = only_back s s'"
  by (simp_all add: only_back_def buffer_bytes_def)

lemma draws_refl [simp]: "draws s s"
  by (simp add: draws_def only_back_def)

lemma draws_trans: "draws s s' \<Longrightarrow> draws s' s'' \<Longrightarrow> draws s s''"
  by (auto simp: draws_def intro: only_back_trans)

lemma draws_fold:
  "(\<And>x s'. x \<in> set xs \<Longrightarrow> draws s s' \<Longrightarrow> draws s' (f x s')) \<Longrightarrow> draws s s0 \<Longrightarrow> draws s (fold f xs s0)"
  by (rule fold_invariant [where Q = "\<lambda>x. x \<in> set xs"]) (auto intro: draws_trans)

text \<open>A screen of at least one character, whose back buffer is the frame buffer drawn to.\<close>

definition back_ok :: "graphics_state \<Rightarrow> bool" where
  "back_ok s \<longleftrightarrow> 16 < gm_Width (g_Mode s) \<and> 16 \<le> gm_Height (g_Mode s) \<and>
     gm_Width (g_Mode s) \<le> gm_PixelsPerLine (g_Mode s) \<and> buffer_bytes s < 2 ^ 63 \<and>
     g_Doublebuffer s = g_Framebuffer s"

lemma only_back_ok: "only_back s s' \<Longrightarrow> back_ok s' = back_ok s"
  by (simp add: only_back_def back_ok_def buffer_bytes_def)

lemma draws_back_ok: "draws s s' \<Longrightarrow> back_ok s' = back_ok s"
  by (simp add: draws_def only_back_ok)

lemma pixel_in_buffer:
  assumes "back_ok s" and "0 \<le> X" "X < gm_PixelsPerLine (g_Mode s)" "0 \<le> Y" "Y < gm_Height (g_Mode s)"
    and "in_block a (pixel_at (g_Framebuffer s) (gm_PixelsPerLine (g_Mode s)) X Y) 4"
  shows "in_block a (g_Framebuffer s) (of_int (buffer_bytes s))"
proof -
  have "X + 1 \<le> gm_PixelsPerLine (g_Mode s)" using assms(3) by simp
  from pixel_offset_bounds [OF assms(2) this assms(4, 5)]
  have b: "0 \<le> (X + gm_PixelsPerLine (g_Mode s) * Y) * 4" "(X + gm_PixelsPerLine (g_Mode s) * Y) * 4 + 4 \<le> buffer_bytes s"
    by (simp_all add: buffer_bytes_def)
  have a: "in_block a (g_Framebuffer s + of_int ((X + gm_PixelsPerLine (g_Mode s) * Y) * 4)) (of_int 4)"
    using assms(6) by (simp add: pixel_at_def)
  show ?thesis by (rule in_block_part [OF a b(1) _ b(2)]) (use assms(1) in \<open>simp_all add: back_ok_def\<close>)
qed

lemma store_pixel_draws:
  assumes "back_ok s" and "0 \<le> X" "X < gm_PixelsPerLine (g_Mode s)" "0 \<le> Y" "Y < gm_Height (g_Mode s)"
    and "length bs = 4"
  shows "draws s (s\<lparr>g_mem := store_bytes (g_mem s) (pixel_at (g_Framebuffer s) (gm_PixelsPerLine (g_Mode s)) X Y) bs\<rparr>)"
  using pixel_in_buffer [OF assms(1-5)] assms(6) by (auto simp: draws_def only_back_def intro!: store_bytes_outside)

lemma graphics_SetPixel_draws:
  assumes "back_ok s" and "0 \<le> X" "X < gm_PixelsPerLine (g_Mode s)" "0 \<le> Y" "Y < gm_Height (g_Mode s)"
  shows "draws s (graphics_SetPixel X Y color s)"
  using store_pixel_draws [OF assms]
  by (simp add: graphics_SetPixel_def graphics_SetPixel_BGR_def graphics_SetPixel_RGB_def split: graphics_PixelFormat.split)

lemma graphics_Invalidate_draws [simp]: "draws s (graphics_Invalidate x y w h s') = draws s s'"
proof -
  have "g_Doublebuffer (graphics_Invalidate x y w h s') = g_Doublebuffer s'"
    "g_CursorX (graphics_Invalidate x y w h s') = g_CursorX s'" "g_CursorY (graphics_Invalidate x y w h s') = g_CursorY s'"
    by (simp_all add: graphics_Invalidate_def Let_def split: list.split option.split)
  then show ?thesis by (simp add: draws_def only_back_def)
qed

text \<open>Filling a rectangle of the buffer.\<close>

lemma fill_draws:
  assumes "back_ok s" and "0 \<le> x0" "x1 \<le> gm_PixelsPerLine (g_Mode s)" "0 \<le> y0" "y1 \<le> gm_Height (g_Mode s)"
    and "length bs = 4"
  shows "draws s (s\<lparr>g_mem := fold (\<lambda>i. fold (\<lambda>j m. store_bytes m
      (pixel_at (g_Framebuffer s) (gm_PixelsPerLine (g_Mode s)) i j) bs) [y0 .. y1 - 1]) [x0 .. x1 - 1] (g_mem s)\<rparr>)"
proof -
  define out where "out m \<longleftrightarrow> (\<forall>a. \<not> in_block a (g_Framebuffer s) (of_int (buffer_bytes s)) \<longrightarrow> m a = g_mem s a)" for m
  let ?put = "\<lambda>i j m. store_bytes m (pixel_at (g_Framebuffer s) (gm_PixelsPerLine (g_Mode s)) i j) bs"
  have put: "out (?put i j m)" if "out m" "i \<in> {x0 .. x1 - 1}" "j \<in> {y0 .. y1 - 1}" for i j m
    unfolding out_def
  proof (intro allI impI)
    fix a assume a: "\<not> in_block a (g_Framebuffer s) (of_int (buffer_bytes s))"
    have "\<not> in_block a (pixel_at (g_Framebuffer s) (gm_PixelsPerLine (g_Mode s)) i j) 4"
      using pixel_in_buffer [OF assms(1), of i j a] that(2, 3) assms(2-5) a by auto
    with that(1) a assms(6) show "?put i j m a = g_mem s a" by (simp add: out_def store_bytes_outside)
  qed
  have row: "out (fold (?put i) [y0 .. y1 - 1] m)" if "out m" "i \<in> {x0 .. x1 - 1}" for i m
    by (rule fold_invariant [where P = out and Q = "\<lambda>j. j \<in> {y0 .. y1 - 1}"]) (use put that in auto)
  have "out (fold (\<lambda>i. fold (?put i) [y0 .. y1 - 1]) [x0 .. x1 - 1] (g_mem s))"
  proof (rule fold_invariant [where P = out and Q = "\<lambda>i. i \<in> {x0 .. x1 - 1}"])
    show "out (g_mem s)" by (simp add: out_def)
  qed (use row in auto)
  then show ?thesis by (simp add: draws_def only_back_def out_def)
qed

lemma graphics_FillPixel_draws:
  assumes "back_ok s" and "0 \<le> x0" "x1 \<le> gm_PixelsPerLine (g_Mode s)" "0 \<le> y0" "y1 \<le> gm_Height (g_Mode s)"
  shows "draws s (graphics_FillPixel x0 y0 x1 y1 color s)"
  using fill_draws [OF assms, of "[c_B color, c_G color, c_R color, 0]"]
  by (simp add: graphics_FillPixel_def Let_def)

lemma glyph_line_draws:
  assumes "back_ok s" and "0 \<le> X" "X + 8 \<le> gm_PixelsPerLine (g_Mode s)" "0 \<le> Y" "Y < gm_Height (g_Mode s)"
  shows "draws s (glyph_line X Y color line s)"
  unfolding glyph_line_def
proof (rule draws_fold)
  fix i s' assume i: "i \<in> set [0..<8]" and s': "draws s s'"
  have "back_ok s'" using draws_back_ok [OF s'] assms(1) by simp
  moreover have "g_Mode s' = g_Mode s" using s' by (simp add: draws_def only_back_def)
  ultimately show "draws s' (if line AND push_bit (7 - i mod 8) 1 \<noteq> 0 then graphics_SetPixel (X + int i) Y color s' else s')"
    using graphics_SetPixel_draws [of s' "X + int i" Y color] assms i by auto
qed simp

lemma unifont_DrawChar_draws:
  assumes "back_ok s" and "0 \<le> X" "X + char_width c \<le> gm_PixelsPerLine (g_Mode s)" "0 \<le> Y" "Y + 16 \<le> gm_Height (g_Mode s)"
  shows "draws s (unifont_DrawChar font X Y color c s)"
proof -
  have line: "draws s' (glyph_line X' (Y + int y) color b s')"
    if "draws s s'" "y \<in> set [0..<16]" "0 \<le> X'" "X' + 8 \<le> gm_PixelsPerLine (g_Mode s)" for s' y X' b
  proof (rule glyph_line_draws)
    show "back_ok s'" using draws_back_ok [OF that(1)] assms(1) by simp
    show "X' + 8 \<le> gm_PixelsPerLine (g_Mode s')" "Y + int y < gm_Height (g_Mode s')"
      using that assms(5) by (auto simp: draws_def only_back_def)
  qed (use that(3) assms(4) in simp_all)
  show ?thesis
  proof (cases "unifont_IsCharDoublewidth c")
    case True
    then have w: "X + 16 \<le> gm_PixelsPerLine (g_Mode s)" using assms(3) by (simp add: char_width_def UNIFONT_CHAR_WIDTH_def)
    show ?thesis unfolding unifont_DrawChar_def Let_def if_P [OF True]
    proof (rule draws_fold)
      fix y s' assume y: "y \<in> set [0..<16]" and s': "draws s s'"
      let ?d = "\<lambda>k. font (c * 8 * 16 * 2 div 8 + of_nat k)"
      let ?s1 = "glyph_line X (Y + int y) color (?d (2 * y)) s'"
      have 1: "draws s' ?s1" using line [OF s' y, of X] assms(2) w by simp
      have "draws ?s1 (glyph_line (X + 8) (Y + int y) color (?d (2 * y + 1)) ?s1)"
        using line [OF draws_trans [OF s' 1] y, of "X + 8"] assms(2) w by simp
      from draws_trans [OF 1 this]
      show "draws s' (glyph_line (X + 8) (Y + int y) color (?d (2 * y + 1)) ?s1)" .
    qed simp
  next
    case False
    then have w: "X + 8 \<le> gm_PixelsPerLine (g_Mode s)" using assms(3) by (simp add: char_width_def UNIFONT_CHAR_WIDTH_def)
    show ?thesis unfolding unifont_DrawChar_def Let_def if_not_P [OF False]
      by (rule draws_fold) (use line assms(2) w in simp_all)
  qed
qed

text \<open>Scrolling by no more than the height of the screen.\<close>

lemma graphics_Scroll_draws:
  assumes "back_ok s" and "0 \<le> k" "k \<le> gm_Height (g_Mode s)"
  shows "draws s (graphics_Scroll k s)"
proof -
  let ?ppl = "gm_PixelsPerLine (g_Mode s)" and ?h = "gm_Height (g_Mode s)"
  let ?n = "4 * (?ppl * (?h - k))"
  let ?m = "memcpy (g_mem s) (g_Doublebuffer s) (g_Doublebuffer s + of_int (4 * (?ppl * k))) (of_int ?n)"
  have w: "0 \<le> ?ppl" using assms(1) by (simp add: back_ok_def)
  then have n: "0 \<le> ?n" "?n \<le> buffer_bytes s"
    using assms(2, 3) by (simp_all add: buffer_bytes_def mult_left_mono)
  have "?m a = g_mem s a" if "\<not> in_block a (g_Framebuffer s) (of_int (buffer_bytes s))" for a
  proof (rule memcpy_outside)
    show "\<not> in_block a (g_Doublebuffer s) (of_int ?n)"
      using that in_block_part [of a "g_Framebuffer s" 0 ?n "buffer_bytes s"] n assms(1)
      by (auto simp: back_ok_def simp del: of_int_mult)
  qed
  then have 1: "draws s (s\<lparr>g_mem := ?m\<rparr>)" by (simp add: draws_def only_back_def)
  have "draws (s\<lparr>g_mem := ?m\<rparr>)
      (graphics_FillPixel 0 (?h - k) (gm_Width (g_Mode s)) ?h HelosGraphics_Color_Black (s\<lparr>g_mem := ?m\<rparr>))"
    using assms draws_back_ok [OF 1] by (intro graphics_FillPixel_draws) (simp_all add: back_ok_def)
  from draws_trans [OF 1 this] show ?thesis
    by (simp add: graphics_Scroll_def Let_def draws_def only_back_def)
qed

text \<open>
  Making room for an element of the given size: the cursor is left where the element fits, unless
  it is so far below the screen that more than the whole screen would have to be scrolled.
\<close>

lemma graphics_ElementSize_fits:
  assumes ok: "back_ok s" and cur: "0 \<le> g_CursorX s" "0 \<le> g_CursorY s" "g_CursorY s + 2 * h \<le> 2 * gm_Height (g_Mode s)"
    and sz: "0 \<le> w" "w < gm_Width (g_Mode s)" "0 \<le> h" "h \<le> gm_Height (g_Mode s)"
  defines "s' \<equiv> graphics_ElementSize w h s"
  shows "only_back s s' \<and> 0 \<le> g_CursorX s' \<and> g_CursorX s' + w < gm_Width (g_Mode s) \<and>
    0 \<le> g_CursorY s' \<and> g_CursorY s' + h \<le> gm_Height (g_Mode s)"
proof -
  define s1 where "s1 = (if g_CursorX s + w \<ge> gm_Width (g_Mode s)
      then s\<lparr>g_CursorY := g_CursorY s + h, g_CursorX := 0\<rparr> else s)"
  have refl: "only_back s s" by (simp add: only_back_def)
  then have 1: "only_back s s1" by (simp add: s1_def)
  have c1: "0 \<le> g_CursorX s1" "g_CursorX s1 + w < gm_Width (g_Mode s)" "0 \<le> g_CursorY s1"
    "g_CursorY s1 + h \<le> 2 * gm_Height (g_Mode s)" "g_Mode s1 = g_Mode s"
    using cur sz by (auto simp: s1_def)
  have es: "s' = (if g_CursorY s1 + h \<ge> gm_Height (g_Mode s1)
      then (let s = graphics_Scroll (h + g_CursorY s1 - gm_Height (g_Mode s1)) s1 in
            s\<lparr>g_CursorY := gm_Height (g_Mode s) - h\<rparr>) else s1)"
    unfolding s'_def graphics_ElementSize_def s1_def by (simp only: Let_def)
  show ?thesis
  proof (cases "g_CursorY s1 + h \<ge> gm_Height (g_Mode s)")
    case True
    let ?k = "h + g_CursorY s1 - gm_Height (g_Mode s)"
    have "draws s1 (graphics_Scroll ?k s1)"
      using only_back_ok [OF 1] ok True c1 by (intro graphics_Scroll_draws) simp_all
    then have d: "only_back s1 (graphics_Scroll ?k s1)" "g_CursorX (graphics_Scroll ?k s1) = g_CursorX s1"
      "g_Mode (graphics_Scroll ?k s1) = g_Mode s" using c1(5) by (simp_all add: draws_def only_back_def)
    have "s' = (graphics_Scroll ?k s1)\<lparr>g_CursorY := gm_Height (g_Mode s) - h\<rparr>"
      using True c1(5) d(3) es by (simp add: Let_def)
    with only_back_trans [OF 1 d(1)] d c1 sz show ?thesis by simp
  next
    case False
    then have "s' = s1" using c1(5) es by simp
    with False 1 c1 sz show ?thesis by simp
  qed
qed

section \<open>The properties\<close>

text \<open>
  The cursor lies on the screen or not more than its height below it.
\<close>

definition console_ok :: "graphics_state \<Rightarrow> bool" where
  "console_ok s \<longleftrightarrow> back_ok s \<and> 0 \<le> g_CursorX s \<and> 0 \<le> g_CursorY s \<and>
     g_CursorY s + 2 * UNIFONT_CHAR_HEIGHT \<le> 2 * gm_Height (g_Mode s)"

lemma char_width_cases: "char_width c = 8 \<or> char_width c = 16"
  by (simp add: char_width_def UNIFONT_CHAR_WIDTH_def)

lemma console_WriteChar_draws:
  fixes e color
  assumes ok: "console_ok s" and c: "c \<noteq> 0x0A" "c \<noteq> 0x0D"
  defines "s' \<equiv> console_WriteChar e color c s"
  shows "only_back s s' \<and> 0 \<le> g_CursorX s' \<and> g_CursorX s' < gm_Width (g_Mode s) \<and> 0 \<le> g_CursorY s' \<and>
    g_CursorY s' + 16 \<le> gm_Height (g_Mode s)"
proof -
  let ?w = "char_width c" and ?W = "gm_Width (g_Mode s)" and ?H = "gm_Height (g_Mode s)"
  let ?s1 = "graphics_ElementSize ?w UNIFONT_CHAR_HEIGHT s"
  let ?x = "g_CursorX ?s1" and ?y = "g_CursorY ?s1"
  let ?s2 = "graphics_FillPixel ?x ?y (?x + ?w) (?y + UNIFONT_CHAR_HEIGHT) HelosGraphics_Color_Black ?s1"
  let ?s3 = "unifont_DrawChar (e_font e) (g_CursorX ?s2) (g_CursorY ?s2) color c ?s2"
  have b: "back_ok s" "16 < ?W" "16 \<le> ?H" "?W \<le> gm_PixelsPerLine (g_Mode s)"
    using ok by (simp_all add: console_ok_def back_ok_def)
  have w: "0 \<le> ?w" "?w < ?W" using char_width_cases [of c] b(2) by auto
  from graphics_ElementSize_fits [OF b(1), of UNIFONT_CHAR_HEIGHT ?w] ok w b(3)
  have e: "only_back s ?s1" "0 \<le> ?x" "?x + ?w < ?W" "0 \<le> ?y" "?y + 16 \<le> ?H"
    by (auto simp: console_ok_def UNIFONT_CHAR_HEIGHT_def)
  have m: "g_Mode ?s1 = g_Mode s" using e(1) by (simp add: only_back_def)
  have 2: "draws ?s1 ?s2" using only_back_ok [OF e(1)] b e m
    by (intro graphics_FillPixel_draws) (simp_all add: UNIFONT_CHAR_HEIGHT_def)
  have xy: "g_CursorX ?s2 = ?x" "g_CursorY ?s2 = ?y" "g_Mode ?s2 = g_Mode s"
    using 2 m by (simp_all add: draws_def only_back_def)
  have 3: "draws ?s2 ?s3" using draws_back_ok [OF 2] only_back_ok [OF e(1)] b e xy
    by (intro unifont_DrawChar_draws) simp_all
  have d: "draws ?s1 ?s3" by (rule draws_trans [OF 2 3])
  then have "draws ?s1 (graphics_Invalidate (g_CursorX ?s3) (g_CursorY ?s3) ?w UNIFONT_CHAR_HEIGHT ?s3)" by simp
  then have i: "only_back ?s1 (graphics_Invalidate (g_CursorX ?s3) (g_CursorY ?s3) ?w UNIFONT_CHAR_HEIGHT ?s3)"
    "g_CursorX (graphics_Invalidate (g_CursorX ?s3) (g_CursorY ?s3) ?w UNIFONT_CHAR_HEIGHT ?s3) = ?x"
    "g_CursorY (graphics_Invalidate (g_CursorX ?s3) (g_CursorY ?s3) ?w UNIFONT_CHAR_HEIGHT ?s3) = ?y"
    by (simp_all add: draws_def)
  have "s' = (graphics_Invalidate (g_CursorX ?s3) (g_CursorY ?s3) ?w UNIFONT_CHAR_HEIGHT ?s3)\<lparr>g_CursorX := ?x + ?w\<rparr>"
    using c i(2) by (simp add: s'_def console_WriteChar_def Let_def)
  with only_back_trans [OF e(1) i(1)] i e w show ?thesis by simp
qed

text \<open>
  Writing any character but a newline or a carriage return changes memory only inside the back
  buffer, whatever the glyph and wherever the cursor stood, and leaves the cursor where the whole next
  line of text lies on the screen; so the bounds hold again for the character after it.
\<close>

theorem console_WriteChar_bounds:
  assumes "console_ok s" and "c \<noteq> 0x0A" and "c \<noteq> 0x0D"
  shows "(\<forall>a. \<not> in_block a (g_Framebuffer s) (of_int (buffer_bytes s)) \<longrightarrow>
      g_mem (console_WriteChar e color c s) a = g_mem s a) \<and>
    0 \<le> g_CursorX (console_WriteChar e color c s) \<and> g_CursorX (console_WriteChar e color c s) < gm_Width (g_Mode s) \<and>
    0 \<le> g_CursorY (console_WriteChar e color c s) \<and>
    g_CursorY (console_WriteChar e color c s) + 16 \<le> gm_Height (g_Mode s) \<and>
    console_ok (console_WriteChar e color c s)"
  using console_WriteChar_draws [OF assms, of e color] only_back_ok [of s "console_WriteChar e color c s"] assms(1)
  by (auto simp: only_back_def console_ok_def UNIFONT_CHAR_HEIGHT_def)

definition demo_console :: graphics_state where
  "demo_console =
     \<lparr>g_mem = (\<lambda>_. 0), g_DeviceFramebuffer = 0x10000, g_Framebuffer = 0x1000, g_FramebufferSize = 0x1000,
      g_Doublebuffer = 0x1000,
      g_Mode = \<lparr>gm_Width = 32, gm_Height = 32, gm_PixelsPerLine = 32, gm_PixelFormat = BGRA_8bit\<rparr>,
      g_Cursor = None, g_lastMouseX = 0, g_lastMouseY = 0, g_lastMouseSizeX = 0, g_lastMouseSizeY = 0,
      g_mouseOverlay = 0x20000, g_invalidated_screen = False, g_invalidated = [], g_CursorX = 24, g_CursorY = 32\<rparr>"

theorem console_WriteChar_bounds_witness:
  "g_mem (console_WriteChar \<lparr>e_font = (\<lambda>_. 0xFF), e_mouseX = 0, e_mouseY = 0\<rparr> HelosGraphics_Color_White 0x41 demo_console)
     0x2000 = 0 \<and>
   g_CursorY (console_WriteChar \<lparr>e_font = (\<lambda>_. 0xFF), e_mouseX = 0, e_mouseY = 0\<rparr> HelosGraphics_Color_White 0x41
     demo_console) \<le> 16"
proof -
  have ok: "console_ok demo_console"
    by (simp add: console_ok_def back_ok_def buffer_bytes_def demo_console_def UNIFONT_CHAR_HEIGHT_def)
  have "\<not> in_block 0x2000 0x1000 (0x1000 :: u64)" by (simp add: in_block_def)
  with console_WriteChar_bounds [OF ok, of "0x41" "\<lparr>e_font = (\<lambda>_. 0xFF), e_mouseX = 0, e_mouseY = 0\<rparr>"
      HelosGraphics_Color_White]
  show ?thesis by (simp add: demo_console_def buffer_bytes_def)
qed

text \<open>The doubled size reaches every requested one up to \<open>2 ^ 30\<close> units.\<close>

lemma ResizeBuffer_loop_reaches:
  "0 < b \<Longrightarrow> b \<le> 2 ^ 30 \<Longrightarrow> sz \<le> 2 ^ 30 \<Longrightarrow> \<exists>b'. ResizeBuffer_loop b sz = Some b' \<and> sz \<le> b' \<and> b \<le> b'"
proof (induction "nat (sz - b)" arbitrary: b rule: less_induct)
  case less
  show ?case
  proof (cases "b < sz")
    case True
    have "s32 (b * 2) = b * 2" using True less.prems by (intro s32_id) simp_all
    moreover have "\<exists>b'. ResizeBuffer_loop (b * 2) sz = Some b' \<and> sz \<le> b' \<and> b * 2 \<le> b'"
    proof (cases "b * 2 \<le> 2 ^ 30")
      case True
      with less.prems \<open>b < sz\<close> show ?thesis by (intro less.hyps) simp_all
    next
      case False
      with less.prems show ?thesis by (subst ResizeBuffer_loop.simps) simp
    qed
    ultimately show ?thesis using True less.prems(1) by (subst ResizeBuffer_loop.simps) force
  qed (use less.prems in \<open>simp add: ResizeBuffer_loop.simps\<close>)
qed

text \<open>
  Growing the buffer of converted strings always ends, with at least the requested units
  recorded; but the units allocated are the requested ones and not the recorded ones. So when a later
  string needs more units than were allocated and not more than are recorded, the buffer is kept as it
  is, and the string is stored past its end.
\<close>

theorem ResizeBuffer_keeps_small_buffer:
  assumes "0 < io_bufSize s" and "io_bufSize s < n" and "n \<le> 2 ^ 30"
  shows "\<exists>s1. io_WriteConsole_ResizeBuffer new n s = Some s1 \<and> io_units s1 = n \<and> n \<le> io_bufSize s1 \<and>
    (\<forall>m new'. n < m \<and> m \<le> io_bufSize s1 \<longrightarrow>
      io_WriteConsole_ResizeBuffer new' m s1 = Some s1 \<and> io_units s1 < m)"
proof -
  obtain b' where b': "ResizeBuffer_loop (io_bufSize s) n = Some b'" "n \<le> b'"
    using ResizeBuffer_loop_reaches [of "io_bufSize s" n] assms by auto
  let ?s1 = "s\<lparr>io_bufSize := b', io_buffer := new, io_units := n\<rparr>"
  have "io_WriteConsole_ResizeBuffer new n s = Some ?s1"
    using b'(1) assms(2) by (simp add: io_WriteConsole_ResizeBuffer_def)
  then show ?thesis using b'(2) by (intro exI [of _ ?s1]) (simp add: io_WriteConsole_ResizeBuffer_def)
qed

definition demo_stdio :: stdio_state where
  "demo_stdio =
     \<lparr>io_graphics = demo_console, io_serial = (pic_serial_COM1, demo_line 3), io_efi = [],
      io_bufSize = WriteConsole_bufSize_init, io_buffer = 0x30000, io_bufferReal = 0x30000, io_units = 512\<rparr>"

theorem ResizeBuffer_keeps_small_buffer_witness:
  "\<exists>s1. io_WriteConsole_ResizeBuffer 0x40000 600 demo_stdio = Some s1 \<and>
     io_WriteConsole_ResizeBuffer 0x50000 1000 s1 = Some s1 \<and> io_units s1 < 1000"
proof -
  have p: "0 < io_bufSize demo_stdio" "io_bufSize demo_stdio < 600" "(600 :: int) \<le> 2 ^ 30"
    by (simp_all add: demo_stdio_def WriteConsole_bufSize_init_def)
  have "io_bufSize s1 = 1024" if "io_WriteConsole_ResizeBuffer 0x40000 600 demo_stdio = Some s1" for s1
    using that
    by (simp add: io_WriteConsole_ResizeBuffer_def demo_stdio_def WriteConsole_bufSize_init_def ResizeBuffer_loop.simps)
      auto
  with ResizeBuffer_keeps_small_buffer [OF p, of "0x40000"] show ?thesis by fastforce
qed

end
