(* ===== verification/Memcpy.thy ===== *)
theory Memcpy
  imports Prelude
begin

text \<open>
  The block operations the kernel links: \<^verbatim>\<open>memset\<close> and \<^verbatim>\<open>memmove\<close> of
  \<^verbatim>\<open>src/runtime/memset_memmove.S\<close>, which work byte by byte, and \<^verbatim>\<open>memcpy\<close> of \<^verbatim>\<open>src/extlib/memcpy.c\<close>,
  which copies aligned words and shifts them when the source is not aligned like the destination. The
  other theories use the block operations of Prelude; the properties here say when the two agree.
\<close>

section \<open>The code\<close>

subsection \<open>Bytes\<close>

text \<open>The loops test at their end. The registers keep their names.\<close>

function memset_loop :: "addr \<Rightarrow> addr \<Rightarrow> u8 \<Rightarrow> mem \<Rightarrow> mem" where
  "memset_loop rcx r10 dl m =
     (let m = m(rcx := dl); rcx = rcx + 1 in if rcx \<noteq> r10 then memset_loop rcx r10 dl m else m)"
  by pat_completeness auto
termination
proof (relation "measure (\<lambda>(rcx, r10, dl, m). unat (r10 - rcx - 1))", goal_cases)
  case (2 rcx r10 dl m x xa)
  then have "r10 - rcx - 1 \<noteq> 0" by (auto simp: algebra_simps)
  then have "unat (r10 - rcx - 1 - 1) < unat (r10 - rcx - 1)" by (simp add: unat_pred_u64)
  with 2 show ?case by (simp add: algebra_simps)
qed simp

definition memset_asm :: "addr \<Rightarrow> u8 \<Rightarrow> u64 \<Rightarrow> mem \<Rightarrow> mem" where
  "memset_asm dest val n m = memset_loop dest (dest + n) val m"

function memmove_front :: "addr \<Rightarrow> addr \<Rightarrow> addr \<Rightarrow> mem \<Rightarrow> mem" where
  "memmove_front rcx rdx r10 m =
     (let m = m(rcx := m rdx); rcx = rcx + 1; rdx = rdx + 1 in
      if rcx \<noteq> r10 then memmove_front rcx rdx r10 m else m)"
  by pat_completeness auto
termination
proof (relation "measure (\<lambda>(rcx, rdx, r10, m). unat (r10 - rcx - 1))", goal_cases)
  case (2 rcx rdx r10 m x xa xb)
  then have "r10 - rcx - 1 \<noteq> 0" by (auto simp: algebra_simps)
  then have "unat (r10 - rcx - 1 - 1) < unat (r10 - rcx - 1)" by (simp add: unat_pred_u64)
  with 2 show ?case by (simp add: algebra_simps)
qed simp

function memmove_back :: "addr \<Rightarrow> addr \<Rightarrow> addr \<Rightarrow> mem \<Rightarrow> mem" where
  "memmove_back rcx r10 r11 m =
     (let r10 = r10 - 1; r11 = r11 - 1; m = m(r10 := m r11) in
      if rcx \<noteq> r10 then memmove_back rcx r10 r11 m else m)"
  by pat_completeness auto
termination
proof (relation "measure (\<lambda>(rcx, r10, r11, m). unat (r10 - rcx - 1))", goal_cases)
  case (2 rcx r10 r11 m x xa xb)
  then have "r10 - 1 - rcx \<noteq> 0" by auto
  then have "unat (r10 - 1 - rcx - 1) < unat (r10 - 1 - rcx)" by (simp add: unat_pred_u64)
  with 2 show ?case by (simp add: diff_diff_eq add.commute)
qed simp

text \<open>The addresses are compared as signed numbers.\<close>

definition memmove_asm :: "addr \<Rightarrow> addr \<Rightarrow> u64 \<Rightarrow> mem \<Rightarrow> mem" where
  "memmove_asm dest src n m =
     (if src = dest then m
      else if sint src < sint dest then memmove_back dest (dest + n) (src + n) m
      else memmove_front dest src (dest + n) m)"

subsection \<open>Words\<close>

definition TYPE_WIDTH :: nat where "TYPE_WIDTH = 8"

definition load_word :: "mem \<Rightarrow> addr \<Rightarrow> u64" where
  "load_word m p = le_load m p TYPE_WIDTH"

definition store_word :: "mem \<Rightarrow> addr \<Rightarrow> u64 \<Rightarrow> mem" where
  "store_word m p w = store_bytes m p (le_bytes TYPE_WIDTH w)"

text \<open>
  The two pointers that move through the blocks, with the memory. \<open>copy_byte\<close> is
  \<^verbatim>\<open>*dst8++ = *src8++\<close>; the cases of \<^verbatim>\<open>COPY_REMAINING\<close> fall through.
\<close>

type_synonym copy_state = "addr \<times> addr \<times> mem"

definition copy_byte :: "copy_state \<Rightarrow> copy_state" where
  "copy_byte = (\<lambda>(dst8, src8, m). (dst8 + 1, src8 + 1, m(dst8 := m src8)))"

definition COPY_REMAINING :: "nat \<Rightarrow> copy_state \<Rightarrow> copy_state" where
  "COPY_REMAINING n s = (if n \<le> 7 then (copy_byte ^^ n) s else s)"

definition CP_INCR :: "copy_state \<Rightarrow> copy_state" where
  "CP_INCR = (\<lambda>(dstN, srcN, m). (dstN + 8, srcN + 8, store_word m dstN (load_word m srcN)))"

definition CP :: "nat \<Rightarrow> copy_state \<Rightarrow> copy_state" where
  "CP idx = (\<lambda>(dstN, srcN, m).
     (dstN, srcN, store_word m (dstN + 8 * of_nat idx) (load_word m (srcN + 8 * of_nat idx))))"

definition INC_INDEX :: "nat \<Rightarrow> copy_state \<Rightarrow> copy_state" where
  "INC_INDEX k = (\<lambda>(dstN, srcN, m). (dstN + 8 * of_nat k, srcN + 8 * of_nat k, m))"

text \<open>The loop until the number of words is a multiple of 8, and the loop over groups of eight.\<close>

function NO_SHIFT_single :: "nat \<Rightarrow> copy_state \<Rightarrow> nat \<times> copy_state" where
  "NO_SHIFT_single n s = (if n mod 8 \<noteq> 0 then NO_SHIFT_single (n - 1) (CP_INCR s) else (n, s))"
  by pat_completeness auto
termination by (relation "measure fst") (auto intro: Nat.gr0I)

primrec NO_SHIFT_groups :: "nat \<Rightarrow> copy_state \<Rightarrow> copy_state" where
  "NO_SHIFT_groups 0 s = s"
| "NO_SHIFT_groups (Suc n) s = NO_SHIFT_groups n (INC_INDEX 8 (fold CP [0..<8] s))"

definition COPY_NO_SHIFT :: "nat \<Rightarrow> copy_state \<Rightarrow> copy_state" where
  "COPY_NO_SHIFT n s =
     (let (len, s) = NO_SHIFT_single (n div TYPE_WIDTH) s; s = NO_SHIFT_groups (len div 8) s
      in COPY_REMAINING (n mod TYPE_WIDTH) s)"

text \<open>With \<^verbatim>\<open>LITTLE_ENDIAN\<close>, \<^verbatim>\<open>SHL\<close> is a shift to the right and \<^verbatim>\<open>SHR\<close> one to the left.\<close>

type_synonym shift_state = "u64 \<times> copy_state"

definition CP_INCR_SH :: "nat \<Rightarrow> nat \<Rightarrow> shift_state \<Rightarrow> shift_state" where
  "CP_INCR_SH shl shr = (\<lambda>(srcWord, dstN, srcN, m).
     (let dstWord = drop_bit shl srcWord; srcWord = load_word m srcN; dstWord = dstWord OR push_bit shr srcWord
      in (srcWord, dstN + 8, srcN + 8, store_word m dstN dstWord)))"

definition CP_SH :: "nat \<Rightarrow> nat \<Rightarrow> nat \<Rightarrow> shift_state \<Rightarrow> shift_state" where
  "CP_SH shl shr x = (\<lambda>(srcWord, dstN, srcN, m).
     (let dstWord = drop_bit shl srcWord; srcWord = load_word m (srcN + 8 * of_nat x);
          dstWord = dstWord OR push_bit shr srcWord
      in (srcWord, dstN, srcN, store_word m (dstN + 8 * of_nat x) dstWord)))"

function SHIFT_single :: "nat \<Rightarrow> nat \<Rightarrow> nat \<Rightarrow> shift_state \<Rightarrow> nat \<times> shift_state" where
  "SHIFT_single shl shr n s = (if n mod 8 \<noteq> 0 then SHIFT_single shl shr (n - 1) (CP_INCR_SH shl shr s) else (n, s))"
  by pat_completeness auto
termination by (relation "measure (\<lambda>(shl, shr, n, s). n)") (auto intro: Nat.gr0I)

primrec SHIFT_groups :: "nat \<Rightarrow> nat \<Rightarrow> nat \<Rightarrow> shift_state \<Rightarrow> shift_state" where
  "SHIFT_groups shl shr 0 s = s"
| "SHIFT_groups shl shr (Suc n) s =
     (let (srcWord, s) = fold (CP_SH shl shr) [0..<8] s in SHIFT_groups shl shr n (srcWord, INC_INDEX 8 s))"

definition align_word :: "addr \<Rightarrow> addr" where
  "align_word p = p AND NOT (of_nat TYPE_WIDTH - 1)"

definition COPY_SHIFT :: "nat \<Rightarrow> nat \<Rightarrow> copy_state \<Rightarrow> copy_state" where
  "COPY_SHIFT shift n = (\<lambda>(dst8, src8, m).
     (let shl = 8 * shift; shr = 8 * (TYPE_WIDTH - shift);
          dstN = align_word dst8; srcN = align_word src8; srcWord = load_word m srcN; srcN = srcN + 8;
          (len, s) = SHIFT_single shl shr (n div TYPE_WIDTH) (srcWord, dstN, srcN, m);
          (srcWord, dstN, srcN, m) = SHIFT_groups shl shr (len div 8) s
      in COPY_REMAINING (n mod TYPE_WIDTH) (dstN, srcN + of_nat shift - of_nat TYPE_WIDTH, m)))"

text \<open>The loop that aligns the destination, which leaves the count that remains.\<close>

lemma align_step:
  assumes "d AND (7 :: u64) \<noteq> 0"
  shows "unat (- d - 1 AND 7) < unat (- d AND 7)"
proof -
  have low: "w AND 7 = take_bit 3 w" for w :: u64 by (simp add: take_bit_eq_mask mask_eq_exp_minus_1)
  have u: "unat (w AND 7) = unat w mod 8" for w :: u64 unfolding low unsigned_take_bit_eq by (simp add: take_bit_eq_mod)
  have nz: "d \<noteq> 0" using assms by auto
  then have "unat (- d) = 2 ^ 64 - unat d"
    using unat_sub_if_size [of 0 d] by (simp add: word_size unat_gt_0 unat_eq_0)
  then have m: "unat (- d) + unat d = 2 ^ 64" using unat_lt_u64 [of d] by linarith
  have "unat d mod 8 \<noteq> 0"
  proof
    assume "unat d mod 8 = 0"
    then have "d AND 7 = 0" using u [of d] by (metis unat_eq_zero)
    then show False using assms by simp
  qed
  moreover have "(unat (- d) + unat d) mod 8 = 0" unfolding m by simp
  ultimately have "unat (- d) mod 8 \<noteq> 0" by presburger
  moreover from this have "- d \<noteq> 0" by auto
  then have "unat (- d) = Suc (unat (- d - 1))" using unat_pred_u64 [of "- d"] by simp
  ultimately show ?thesis by (simp add: u mod_Suc split: if_splits)
qed

function memcpy_align :: "nat \<Rightarrow> copy_state \<Rightarrow> nat \<times> copy_state" where
  "memcpy_align n s =
     (if fst s AND (of_nat TYPE_WIDTH - 1) \<noteq> 0 then memcpy_align (n - 1) (copy_byte s) else (n, s))"
  by pat_completeness auto
termination
  by (relation "measure (\<lambda>(n, s). unat (- fst s AND 7))")
    (simp_all add: TYPE_WIDTH_def copy_byte_def split_beta align_step)

definition memcpy_c :: "addr \<Rightarrow> addr \<Rightarrow> u64 \<Rightarrow> mem \<Rightarrow> mem" where
  "memcpy_c dest src n m =
     (if n < 8 then snd (snd (COPY_REMAINING (unat n) (dest, src, m)))
      else
        (let (n, s) = memcpy_align (unat n) (dest, src, m);
             shift = unat (fst (snd s) AND (of_nat TYPE_WIDTH - 1)) in
         snd (snd (if shift = 0 then COPY_NO_SHIFT n s else COPY_SHIFT shift n s))))"

section \<open>The byte loops\<close>

declare memset_loop.simps [simp del] memmove_front.simps [simp del] memmove_back.simps [simp del]
declare NO_SHIFT_single.simps [simp del] SHIFT_single.simps [simp del] memcpy_align.simps [simp del]

text \<open>Storing the bytes that follow extends a copy.\<close>

lemma memcpy_extend:
  assumes "k + length bs < 2 ^ 64" and "\<And>i. i < length bs \<Longrightarrow> bs ! i = m (src + of_nat (k + i))"
  shows "store_bytes (memcpy m dst src (of_nat k)) (dst + of_nat k) bs = memcpy m dst src (of_nat (k + length bs))"
proof
  fix a
  define j where "j = length bs"
  define d where "d = a - dst"
  define u where "u = unat d"
  have kj: "k + j < 2 ^ 64" "u < 2 ^ 64" using assms(1) by (simp_all add: j_def u_def)
  have lt: "d < of_nat c \<longleftrightarrow> u < c" if "c < 2 ^ 64" for c
    using that by (simp only: word_less_nat_alt unat_of_nat_u64 u_def)
  have "a - (dst + of_nat k) = d - of_nat k" by (simp add: d_def diff_diff_eq)
  then have sub: "unat (a - (dst + of_nat k)) = (if k \<le> u then u - k else u + 2 ^ 64 - k)"
    using unat_sub_if_size [of d "of_nat k"] kj by (simp only: unat_of_nat_u64 u_def word_size) simp
  have st: "a - (dst + of_nat k) < of_nat j \<longleftrightarrow> k \<le> u \<and> u < k + j"
    using sub kj by (simp only: word_less_nat_alt unat_of_nat_u64) auto
  have at: "src + (a - dst) = src + of_nat u" by (simp add: u_def d_def)
  consider (low) "u < k" | (new) "k \<le> u" "u < k + j" | (high) "k + j \<le> u" by linarith
  then show "store_bytes (memcpy m dst src (of_nat k)) (dst + of_nat k) bs a = memcpy m dst src (of_nat (k + length bs)) a"
  proof cases
    case new
    then have "bs ! (u - k) = m (src + of_nat u)" using assms(2) [of "u - k"] by (simp add: j_def)
    with new st sub lt [of "k + j"] kj at show ?thesis
      by (simp add: store_bytes_def memcpy_def j_def [symmetric] d_def [symmetric] del: of_nat_add)
  qed (use st lt [of k] lt [of "k + j"] kj in
    \<open>simp_all add: store_bytes_def memcpy_def j_def [symmetric] d_def [symmetric] del: of_nat_add\<close>)
qed

lemma memcpy_extend_byte:
  "Suc k < 2 ^ 64 \<Longrightarrow> (memcpy m dst src (of_nat k))(dst + of_nat k := m (src + of_nat k)) = memcpy m dst src (of_nat (Suc k))"
  using memcpy_extend [of k "[m (src + of_nat k)]" m src dst] by (simp add: store_bytes_single del: of_nat_Suc)

lemma memcpy_0 [simp]: "memcpy m dst src 0 = m"
  by (simp add: memcpy_def)

lemma memset_loop_spec:
  "0 < n \<Longrightarrow> n < 2 ^ 64 \<Longrightarrow> memset_loop p (p + of_nat n) v m = memset m p v (of_nat n)"
proof (induction n arbitrary: p m)
  case (Suc n)
  have blk: "memset m p v (of_nat (Suc n)) = memset (m(p := v)) (p + 1) v (of_nat n)"
    using in_block_Suc [OF Suc.prems(2)] by (auto simp: memset_def in_block_def fun_eq_iff simp del: of_nat_Suc)
  show ?case
  proof (cases "n = 0")
    case False
    then have "(of_nat n :: u64) \<noteq> 0" using Suc.prems(2) unat_of_nat_u64 [of n] by auto
    moreover have "memset_loop (p + 1) (p + of_nat (Suc n)) v (m(p := v)) = memset m p v (of_nat (Suc n))"
      using Suc.IH [of "p + 1" "m(p := v)"] Suc.prems False blk by (simp only: of_nat_Suc add.assoc)
    ultimately show ?thesis by (subst memset_loop.simps) (simp add: Let_def)
  qed (subst memset_loop.simps, simp add: memset_def fun_eq_iff unat_eq_0 word_less_nat_alt)
qed simp

lemma memmove_front_spec:
  assumes "k < n" "n < 2 ^ 64" and safe: "\<And>j. j < n \<Longrightarrow> j \<le> unat (src + of_nat j - dst)"
  shows "memmove_front (dst + of_nat k) (src + of_nat k) (dst + of_nat n) (memcpy m dst src (of_nat k)) =
    memcpy m dst src (of_nat n)"
  using assms(1)
proof (induction "n - k" arbitrary: k)
  case (Suc i)
  have k: "k < 2 ^ 64" "Suc k < 2 ^ 64" using Suc.prems assms(2) by simp_all
  have rd: "memcpy m dst src (of_nat k) (src + of_nat k) = m (src + of_nat k)"
    using safe [OF Suc.prems] unat_of_nat_u64 [OF k(1)] by (simp add: memcpy_def word_less_nat_alt)
  have eq: "dst + of_nat k + 1 = dst + of_nat (Suc k)" "src + of_nat k + 1 = src + of_nat (Suc k)" by simp_all
  have next_eq: "dst + of_nat (Suc k) \<noteq> dst + of_nat n \<longleftrightarrow> Suc k \<noteq> n"
    using unat_of_nat_u64 [OF k(2)] unat_of_nat_u64 [OF assms(2)] by (metis add_left_cancel)
  show ?case
    by (subst memmove_front.simps) (use Suc next_eq memcpy_extend_byte [OF k(2), of m dst src] in
      \<open>simp only: Let_def eq rd, auto simp del: of_nat_Suc\<close>)
qed simp

text \<open>The memory when the last bytes have been copied, down to \<open>r\<close>.\<close>

definition copied_from :: "mem \<Rightarrow> addr \<Rightarrow> addr \<Rightarrow> nat \<Rightarrow> nat \<Rightarrow> mem" where
  "copied_from m dst src n r = (\<lambda>a. if r \<le> unat (a - dst) \<and> unat (a - dst) < n then m (src + (a - dst)) else m a)"

lemma memmove_back_spec:
  assumes "0 < r" "r \<le> n" "n < 2 ^ 64"
    and safe: "\<And>j. j < n \<Longrightarrow> unat (src + of_nat j - dst) \<le> j \<or> n \<le> unat (src + of_nat j - dst)"
  shows "memmove_back dst (dst + of_nat r) (src + of_nat r) (copied_from m dst src n r) = memcpy m dst src (of_nat n)"
  using assms(1, 2)
proof (induction r)
  case (Suc r)
  have r: "r < n" "r < 2 ^ 64" using Suc.prems assms(3) by simp_all
  have rd: "copied_from m dst src n (Suc r) (src + of_nat r) = m (src + of_nat r)"
    using safe [OF r(1)] by (auto simp: copied_from_def)
  have upd: "(copied_from m dst src n (Suc r))(dst + of_nat r := m (src + of_nat r)) = copied_from m dst src n r"
  proof
    fix a
    have "a = dst + of_nat r \<longleftrightarrow> unat (a - dst) = r"
      using unat_of_nat_u64 [OF r(2)] by (metis add_diff_cancel_left' offset_of_nat)
    then show "((copied_from m dst src n (Suc r))(dst + of_nat r := m (src + of_nat r))) a = copied_from m dst src n r a"
      using r(1) by (auto simp: copied_from_def)
  qed
  have eq: "dst + of_nat (Suc r) - 1 = dst + of_nat r" "src + of_nat (Suc r) - 1 = src + of_nat r" by simp_all
  have last: "copied_from m dst src n 0 = memcpy m dst src (of_nat n)"
    using unat_of_nat_u64 [OF assms(3)] by (simp add: copied_from_def memcpy_def word_less_nat_alt fun_eq_iff)
  have "dst \<noteq> dst + of_nat r \<longleftrightarrow> r \<noteq> 0" using unat_of_nat_u64 [OF r(2)] by (cases "r = 0") auto
  then show ?case
    by (subst memmove_back.simps) (use Suc last in \<open>auto simp only: Let_def eq rd upd split: if_splits\<close>)
qed simp

lemma unat_signed_diff:
  fixes a b :: u64
  assumes "sint a \<le> sint b"
  shows "int (unat (b - a)) = sint b - sint a"
proof -
  have "- (2 ^ 63) \<le> sint a" "sint b < 2 ^ 63"
    using sint_greater_eq [of a] sint_less [of b] by simp_all
  moreover have "uint (of_int (sint b - sint a) :: u64) = (sint b - sint a) mod 2 ^ 64"
    by (subst uint_word_of_int) simp
  ultimately have "uint (of_int (sint b - sint a) :: u64) = sint b - sint a" using assms by simp
  then show ?thesis by simp
qed

lemma memmove_asm_spec:
  assumes "0 < unat n" and "sint dst + int (unat n) \<le> 2 ^ 63" "sint src + int (unat n) \<le> 2 ^ 63"
  shows "memmove_asm dst src n m = memcpy m dst src n"
proof -
  have lo: "- (2 ^ 63) \<le> sint dst" "- (2 ^ 63) \<le> sint src"
    using sint_greater_eq [of dst] sint_greater_eq [of src] by simp_all
  have n: "dst + of_nat (unat n) = dst + n" "src + of_nat (unat n) = src + n" "of_nat (unat n) = n" by simp_all
  consider (same) "src = dst" | (down) "sint src < sint dst" | (up) "sint dst < sint src"
    using word_eq_iff_signed by (metis linorder_neqE)
  then show ?thesis
  proof cases
    case same
    then show ?thesis by (simp add: memmove_asm_def memcpy_def fun_eq_iff)
  next
    case down
    define d where "d = unat (dst - src)"
    have "int d = sint dst - sint src" using down by (simp only: d_def unat_signed_diff less_imp_le)
    moreover have "(2 :: int) ^ 63 + 2 ^ 63 = int (2 ^ 64)" by simp
    ultimately have dn: "0 < d" "d + unat n \<le> 2 ^ 64" using down assms(2) lo by linarith+
    have "unat (src + of_nat j - dst) \<le> j \<or> unat n \<le> unat (src + of_nat j - dst)" if j: "j < unat n" for j
    proof -
      have eq: "src + of_nat j - dst = of_nat j - of_nat d" by (simp add: d_def)
      have "unat (of_nat j :: u64) = j" "unat (of_nat d :: u64) = d" using j dn
        by (auto simp: d_def intro!: unat_of_nat_u64 order.strict_trans [OF j])
      then have "unat (src + of_nat j - dst) = (if d \<le> j then j - d else j + 2 ^ 64 - d)"
        unfolding eq using unat_sub_if_size [of "of_nat j" "of_nat d :: u64"] by (simp add: word_size)
      with dn show ?thesis by auto
    qed
    then have "memmove_back dst (dst + n) (src + n) (copied_from m dst src (unat n) (unat n)) = memcpy m dst src n"
      using memmove_back_spec [of "unat n" "unat n" src dst m] assms(1) unfolding n by simp
    moreover have "copied_from m dst src (unat n) (unat n) = m" by (auto simp: copied_from_def fun_eq_iff)
    ultimately show ?thesis using down by (auto simp: memmove_asm_def)
  next
    case up
    define d where "d = unat (src - dst)"
    have "int d = sint src - sint dst" using up by (simp only: d_def unat_signed_diff less_imp_le)
    moreover have "(2 :: int) ^ 63 + 2 ^ 63 = int (2 ^ 64)" by simp
    ultimately have dn: "0 < d" "d + unat n \<le> 2 ^ 64" using up assms(3) lo by linarith+
    have "j \<le> unat (src + of_nat j - dst)" if j: "j < unat n" for j
    proof -
      have eq: "src + of_nat j - dst = of_nat (d + j)" by (simp add: d_def)
      have "unat (of_nat (d + j) :: u64) = d + j" by (rule unat_of_nat_u64) (use j dn in linarith)
      then show ?thesis unfolding eq by simp
    qed
    then have "memmove_front dst src (dst + n) m = memcpy m dst src n"
      using memmove_front_spec [of 0 "unat n" src dst m] assms(1) by simp
    then show ?thesis using up by (auto simp: memmove_asm_def)
  qed
qed

section \<open>The words\<close>

subsection \<open>The bytes of a word\<close>

lemma bit_le_value: "bit (le_value bs) j \<longleftrightarrow> j < 64 \<and> j div 8 < length bs \<and> bit (bs ! (j div 8)) (j mod 8)"
proof (induction bs arbitrary: j)
  case (Cons b bs)
  have "le_value (b # bs) = push_bit 8 (le_value bs) OR ucast b" by (simp add: le_value_def)
  then have *: "bit (le_value (b # bs)) j \<longleftrightarrow> (8 \<le> j \<and> j < 64 \<and> bit (le_value bs) (j - 8)) \<or> (j < 8 \<and> bit b j)"
    by (auto simp: bit_simps dest: bit_imp_le_length)
  show ?case
  proof (cases "j < 8")
    case False
    then obtain k where "j = k + 8" using le_Suc_ex [of 8 j] by (auto simp: not_less add.commute)
    moreover have "(k + 8) div 8 = Suc (k div 8)" by simp
    ultimately show ?thesis using * Cons.IH [of k] by (auto simp del: div_add_self2)
  qed (use * in auto)
qed (simp add: le_value_def)

lemma bit_le_byte: "i < n \<Longrightarrow> bit (le_bytes n w ! i) j \<longleftrightarrow> j < 8 \<and> bit w (8 * i + j)"
  by (auto simp: le_bytes_def bit_simps)

lemma load_word_byte: "i < 8 \<Longrightarrow> le_bytes 8 (load_word m p) ! i = m (p + of_nat i)"
  by (rule bit_word_eqI)
    (auto simp: bit_le_byte bit_le_value load_word_def le_load_value TYPE_WIDTH_def dest: bit_imp_le_length)

text \<open>A word put together from the end of one word and the beginning of the next.\<close>

lemma shifted_word_byte:
  fixes w1 w2 :: u64
  assumes "0 < s" "s < 8" "i < 8"
  shows "le_bytes 8 (drop_bit (8 * s) w1 OR push_bit (8 * (TYPE_WIDTH - s)) w2) ! i =
    (if i + s < 8 then le_bytes 8 w1 ! (i + s) else le_bytes 8 w2 ! (i + s - 8))"
proof (rule bit_word_eqI)
  fix j assume "j < LENGTH(8)"
  then have j: "j < 8" by simp
  have w1: "bit w1 (8 * s + (8 * i + j)) \<Longrightarrow> i + s < 8"
    using bit_imp_le_length [of w1 "8 * s + (8 * i + j)"] by simp
  have w2: "\<not> i + s < 8 \<Longrightarrow> 8 * i + j - 8 * (8 - s) = 8 * (i + s - 8) + j" using assms by simp
  show "bit (le_bytes 8 (drop_bit (8 * s) w1 OR push_bit (8 * (TYPE_WIDTH - s)) w2) ! i) j =
    bit (if i + s < 8 then le_bytes 8 w1 ! (i + s) else le_bytes 8 w2 ! (i + s - 8)) j"
  proof (cases "i + s < 8")
    case True
    then have "\<not> 8 * (8 - s) \<le> 8 * i + j" using j by linarith
    with True j assms show ?thesis by (simp add: bit_le_byte TYPE_WIDTH_def bit_simps algebra_simps)
  next
    case False
    then have "8 * (8 - s) \<le> 8 * i + j" "8 * i + j < 64" using j assms by linarith+
    with False w1 w2 j assms show ?thesis by (auto simp: bit_le_byte TYPE_WIDTH_def bit_simps)
  qed
qed

subsection \<open>Copying\<close>

text \<open>The state after \<open>k\<close> bytes, and the source as it is read then.\<close>

definition copying :: "mem \<Rightarrow> addr \<Rightarrow> addr \<Rightarrow> nat \<Rightarrow> copy_state" where
  "copying m dst src k = (dst + of_nat k, src + of_nat k, memcpy m dst src (of_nat k))"

lemma memcpy_source:
  assumes "disjoint_blocks src n dst n" "i < unat n" "k \<le> unat n"
  shows "memcpy m dst src (of_nat k) (src + of_nat i) = m (src + of_nat i)"
proof -
  have "\<not> in_block (src + of_nat i) dst n" by (rule not_in_disjoint [OF assms(1, 2)])
  then have "\<not> in_block (src + of_nat i) dst (of_nat k)"
    using assms(3) unat_of_nat_u64 [of k] le_less_trans [OF assms(3) unat_lt_u64]
    by (simp add: in_block_def word_less_nat_alt)
  then show ?thesis by (rule memcpy_outside)
qed

lemma copy_bytes:
  assumes "disjoint_blocks src n dst n"
  shows "k + j \<le> unat n \<Longrightarrow> (copy_byte ^^ j) (copying m dst src k) = copying m dst src (k + j)"
proof (induction j)
  case (Suc j)
  have "Suc (k + j) < 2 ^ 64" using Suc.prems unat_lt_u64 [of n] by linarith
  moreover have "memcpy m dst src (of_nat (k + j)) (src + of_nat (k + j)) = m (src + of_nat (k + j))"
    using Suc.prems by (intro memcpy_source [OF assms]) simp_all
  ultimately have "copy_byte (copying m dst src (k + j)) = copying m dst src (Suc (k + j))"
    using memcpy_extend_byte [of "k + j" m dst src]
    by (simp add: copying_def copy_byte_def del: of_nat_add)
  with Suc show ?case by simp
qed simp

lemma COPY_REMAINING_copies:
  assumes "disjoint_blocks src n dst n" "k + j \<le> unat n" "j \<le> 7"
  shows "COPY_REMAINING j (copying m dst src k) = copying m dst src (k + j)"
  using copy_bytes [OF assms(1, 2)] assms(3) by (simp add: COPY_REMAINING_def)

text \<open>Storing a word that holds the next eight bytes of the source.\<close>

lemma store_word_copies:
  assumes "k + 8 < 2 ^ 64" and "\<And>i. i < 8 \<Longrightarrow> le_bytes 8 w ! i = m (src + of_nat (k + i))"
  shows "store_word (memcpy m dst src (of_nat k)) (dst + of_nat k) w = memcpy m dst src (of_nat (k + 8))"
  using memcpy_extend [of k "le_bytes 8 w" m src dst] assms by (simp add: store_word_def TYPE_WIDTH_def)

subsection \<open>Without a shift\<close>

lemma load_word_source:
  assumes "disjoint_blocks src n dst n" "k \<le> unat n" "j + i < unat n" "i < 8"
  shows "le_bytes 8 (load_word (memcpy m dst src (of_nat k)) (src + of_nat j)) ! i = m (src + of_nat (j + i))"
  using memcpy_source [OF assms(1, 3, 2), of m] assms(4) by (simp add: load_word_byte add.assoc)

lemma copied_words:
  assumes "disjoint_blocks src n dst n" and "j \<le> 8"
  shows "k + 8 * j \<le> unat n \<Longrightarrow>
    fold CP [0..<j] (copying m dst src k) = (dst + of_nat k, src + of_nat k, memcpy m dst src (of_nat (k + 8 * j)))"
  using assms(2)
proof (induction j)
  case (Suc j)
  let ?k = "k + 8 * j"
  have lt: "?k + 8 < 2 ^ 64" by (rule le_less_trans [OF _ unat_lt_u64 [of n]]) (use Suc.prems in simp)
  have "store_word (memcpy m dst src (of_nat ?k)) (dst + of_nat ?k) (load_word (memcpy m dst src (of_nat ?k)) (src + of_nat ?k)) =
    memcpy m dst src (of_nat (?k + 8))"
    using Suc.prems by (intro store_word_copies [OF lt] load_word_source [OF assms(1)]) simp_all
  moreover have "?k + 8 = k + 8 * Suc j" by simp
  ultimately show ?case using Suc by (simp add: CP_def ac_simps del: mult_Suc_right)
qed (simp add: copying_def)

lemma CP_INCR_CP: "CP_INCR s = INC_INDEX 1 (CP 0 s)"
  by (simp add: CP_INCR_def INC_INDEX_def CP_def split_beta)

lemma INC_INDEX_copying:
  "INC_INDEX j (dst + of_nat k, src + of_nat k, memcpy m dst src (of_nat (k + 8 * j))) = copying m dst src (k + 8 * j)"
  by (simp add: INC_INDEX_def copying_def add.assoc)

lemma copied_group:
  assumes "disjoint_blocks src n dst n" and "j \<le> 8" and "k + 8 * j \<le> unat n"
  shows "INC_INDEX j (fold CP [0..<j] (copying m dst src k)) = copying m dst src (k + 8 * j)"
  by (simp only: copied_words [OF assms] INC_INDEX_copying)

lemma NO_SHIFT_single_copies:
  assumes "disjoint_blocks src n dst n"
  shows "k + 8 * len \<le> unat n \<Longrightarrow>
    NO_SHIFT_single len (copying m dst src k) = (len - len mod 8, copying m dst src (k + 8 * (len mod 8)))"
proof (induction len arbitrary: k rule: less_induct)
  case (less len)
  show ?case
  proof (cases "len mod 8 = 0")
    case False
    then obtain l where l: "len = Suc l" "len mod 8 = Suc (l mod 8)" by (cases len) (auto simp: mod_Suc split: if_splits)
    have "CP_INCR (copying m dst src k) = copying m dst src (k + 8)"
      using copied_group [OF assms, of 1 k m] less.prems l by (simp add: CP_INCR_CP)
    then show ?thesis using less.IH [of l "k + 8"] less.prems l
      by (subst NO_SHIFT_single.simps) (simp add: algebra_simps)
  qed (simp add: NO_SHIFT_single.simps)
qed

lemma NO_SHIFT_groups_copies:
  assumes "disjoint_blocks src n dst n"
  shows "k + 64 * g \<le> unat n \<Longrightarrow> NO_SHIFT_groups g (copying m dst src k) = copying m dst src (k + 64 * g)"
proof (induction g arbitrary: k)
  case (Suc g)
  have "INC_INDEX 8 (fold CP [0..<8] (copying m dst src k)) = copying m dst src (k + 64)"
    using copied_group [OF assms, of 8 k m] Suc.prems by (simp del: upt_rec_numeral)
  with Suc.IH [of "k + 64"] Suc.prems show ?case by (simp add: add.assoc del: upt_rec_numeral)
qed simp

lemma words_split: "(len - len mod 8) div 8 * 64 + 8 * (len mod 8) = 8 * (len :: nat)"
proof -
  have "len - len mod 8 = 8 * (len div 8)" by (simp add: minus_mod_eq_mult_div)
  moreover have "8 * (len div 8) + len mod 8 = len" by simp
  ultimately show ?thesis by simp
qed

lemma COPY_NO_SHIFT_copies:
  assumes "disjoint_blocks src n dst n" and "k + c \<le> unat n"
  shows "COPY_NO_SHIFT c (copying m dst src k) = copying m dst src (k + c)"
proof -
  let ?len = "c div 8"
  have c: "8 * ?len + c mod 8 = c" by simp
  have w: "64 * ((?len - ?len mod 8) div 8) + 8 * (?len mod 8) = 8 * ?len" using words_split [of ?len] by simp
  have "NO_SHIFT_groups ((?len - ?len mod 8) div 8) (copying m dst src (k + 8 * (?len mod 8))) = copying m dst src (k + 8 * ?len)"
    using NO_SHIFT_groups_copies [OF assms(1), of "k + 8 * (?len mod 8)" "(?len - ?len mod 8) div 8" m] w c assms(2)
    by (simp add: add.assoc add.commute)
  moreover have "COPY_REMAINING (c mod 8) (copying m dst src (k + 8 * ?len)) = copying m dst src (k + c)"
    using COPY_REMAINING_copies [OF assms(1), of "k + 8 * ?len" "c mod 8" m] c assms(2) by (simp add: add.assoc)
  ultimately show ?thesis
    using NO_SHIFT_single_copies [OF assms(1), of k ?len m] c assms(2) by (simp add: COPY_NO_SHIFT_def TYPE_WIDTH_def)
qed

subsection \<open>With a shift\<close>

text \<open>The word at hand holds, from byte \<open>shift\<close> on, the source bytes that come next.\<close>

definition word_ahead :: "mem \<Rightarrow> addr \<Rightarrow> nat \<Rightarrow> nat \<Rightarrow> nat \<Rightarrow> u64 \<Rightarrow> bool" where
  "word_ahead m src n shift k w \<longleftrightarrow>
     (\<forall>i < 8 - shift. k + i < n \<longrightarrow> le_bytes 8 w ! (i + shift) = m (src + of_nat (k + i)))"

lemma shifted_step:
  fixes m dst src k n w
  assumes D: "disjoint_blocks src n dst n" and s: "0 < shift" "shift < 8" and k: "k + 8 \<le> unat n"
    and w: "word_ahead m src (unat n) shift k w"
  defines "mk \<equiv> memcpy m dst src (of_nat k)"
  defines "w' \<equiv> load_word mk (src + of_nat (k + 8 - shift))"
  shows "store_word mk (dst + of_nat k) (drop_bit (8 * shift) w OR push_bit (8 * (TYPE_WIDTH - shift)) w') =
    memcpy m dst src (of_nat (k + 8)) \<and> word_ahead m src (unat n) shift (k + 8) w'"
proof
  have kn: "k \<le> unat n" using k by simp
  have lt: "k + 8 < 2 ^ 64" by (rule le_less_trans [OF k unat_lt_u64])
  have w': "le_bytes 8 w' ! i = m (src + of_nat (k + 8 - shift + i))" if "i < 8" "k + 8 - shift + i < unat n" for i
    unfolding w'_def mk_def by (rule load_word_source [OF D kn that(2, 1)])
  show "store_word mk (dst + of_nat k) (drop_bit (8 * shift) w OR push_bit (8 * (TYPE_WIDTH - shift)) w') =
    memcpy m dst src (of_nat (k + 8))"
    unfolding mk_def
  proof (rule store_word_copies [OF lt])
    fix i :: nat assume i: "i < 8"
    show "le_bytes 8 (drop_bit (8 * shift) w OR push_bit (8 * (TYPE_WIDTH - shift)) w') ! i = m (src + of_nat (k + i))"
    proof (cases "i + shift < 8")
      case True
      with w k have "le_bytes 8 w ! (i + shift) = m (src + of_nat (k + i))" unfolding word_ahead_def by auto
      with True show ?thesis using shifted_word_byte [OF s i] by simp
    next
      case False
      then have "k + 8 - shift + (i + shift - 8) = k + i" using s by simp
      with w' [of "i + shift - 8"] False i k s have "le_bytes 8 w' ! (i + shift - 8) = m (src + of_nat (k + i))" by simp
      with False show ?thesis using shifted_word_byte [OF s i] by simp
    qed
  qed
  have "le_bytes 8 w' ! (i + shift) = m (src + of_nat (k + 8 + i))" if "i < 8 - shift" "k + 8 + i < unat n" for i
  proof -
    have "k + 8 - shift + (i + shift) = k + 8 + i" using s by simp
    with w' [of "i + shift"] that s show ?thesis by simp
  qed
  then show "word_ahead m src (unat n) shift (k + 8) w'" by (simp add: word_ahead_def)
qed

definition shifting :: "mem \<Rightarrow> addr \<Rightarrow> addr \<Rightarrow> nat \<Rightarrow> nat \<Rightarrow> nat \<Rightarrow> nat \<Rightarrow> shift_state \<Rightarrow> bool" where
  "shifting m dst src n shift base k st \<longleftrightarrow>
     (\<exists>w. st = (w, dst + of_nat base, src + of_nat (base + 8 - shift), memcpy m dst src (of_nat k)) \<and>
        word_ahead m src n shift k w)"

lemma CP_SH_shifting:
  assumes "disjoint_blocks src n dst n" and s: "0 < shift" "shift < 8" and k: "base + 8 * x + 8 \<le> unat n"
    and st: "shifting m dst src (unat n) shift base (base + 8 * x) st"
  shows "shifting m dst src (unat n) shift base (base + 8 * Suc x) (CP_SH (8 * shift) (8 * (TYPE_WIDTH - shift)) x st)"
proof -
  obtain w where w: "st = (w, dst + of_nat base, src + of_nat (base + 8 - shift), memcpy m dst src (of_nat (base + 8 * x)))"
    "word_ahead m src (unat n) shift (base + 8 * x) w" using st by (auto simp: shifting_def)
  have "base + 8 * x + 8 - shift = (base + 8 - shift) + 8 * x" using s by simp
  then have a: "src + of_nat (base + 8 - shift) + 8 * of_nat x = src + of_nat (base + 8 * x + 8 - shift)" by simp
  have b: "dst + of_nat base + 8 * of_nat x = dst + of_nat (base + 8 * x)" by simp
  have c: "base + 8 * Suc x = base + 8 * x + 8" by simp
  show ?thesis
    using shifted_step [OF assms(1) s k w(2)]
    unfolding w(1) CP_SH_def prod.case Let_def a b c shifting_def by blast
qed

lemma fold_CP_SH_shifting:
  assumes "disjoint_blocks src n dst n" "0 < shift" "shift < 8"
  shows "base + 8 * x \<le> unat n \<Longrightarrow> shifting m dst src (unat n) shift base base st \<Longrightarrow>
    shifting m dst src (unat n) shift base (base + 8 * x) (fold (CP_SH (8 * shift) (8 * (TYPE_WIDTH - shift))) [0..<x] st)"
proof (induction x)
  case (Suc x)
  then show ?case using CP_SH_shifting [OF assms, of base x m] by simp
qed simp

lemma INC_INDEX_shifting:
  assumes "shifting m dst src n shift base (base + 8 * j) (w, st)" and "shift < 8"
  shows "shifting m dst src n shift (base + 8 * j) (base + 8 * j) (w, INC_INDEX j st)"
proof -
  have "base + 8 * j + 8 - shift = (base + 8 - shift) + 8 * j" using assms(2) by simp
  then show ?thesis using assms(1) by (auto simp: shifting_def INC_INDEX_def add.assoc)
qed

lemma CP_INCR_SH_shifting:
  assumes "disjoint_blocks src n dst n" "0 < shift" "shift < 8" "k + 8 \<le> unat n"
    and "shifting m dst src (unat n) shift k k st"
  shows "shifting m dst src (unat n) shift (k + 8) (k + 8) (CP_INCR_SH (8 * shift) (8 * (TYPE_WIDTH - shift)) st)"
proof -
  let ?st = "CP_SH (8 * shift) (8 * (TYPE_WIDTH - shift)) 0 st"
  have "shifting m dst src (unat n) shift k (k + 8 * 1) (fst ?st, snd ?st)"
    using CP_SH_shifting [OF assms(1-3), of k 0 m st] assms(4, 5) by simp
  then have "shifting m dst src (unat n) shift (k + 8 * 1) (k + 8 * 1) (fst ?st, INC_INDEX 1 (snd ?st))"
    by (rule INC_INDEX_shifting) (rule assms(3))
  moreover have "CP_INCR_SH (8 * shift) (8 * (TYPE_WIDTH - shift)) st = (fst ?st, INC_INDEX 1 (snd ?st))"
    by (simp add: CP_INCR_SH_def CP_SH_def INC_INDEX_def split_beta Let_def)
  ultimately show ?thesis by simp
qed

lemma SHIFT_single_shifting:
  assumes "disjoint_blocks src n dst n" "0 < shift" "shift < 8"
  shows "k + 8 * len \<le> unat n \<Longrightarrow> shifting m dst src (unat n) shift k k st \<Longrightarrow>
    (\<exists>st'. SHIFT_single (8 * shift) (8 * (TYPE_WIDTH - shift)) len st = (len - len mod 8, st') \<and>
       shifting m dst src (unat n) shift (k + 8 * (len mod 8)) (k + 8 * (len mod 8)) st')"
proof (induction len arbitrary: k st rule: less_induct)
  case (less len)
  show ?case
  proof (cases "len mod 8 = 0")
    case False
    then obtain l where l: "len = Suc l" "len mod 8 = Suc (l mod 8)" by (cases len) (auto simp: mod_Suc split: if_splits)
    have "shifting m dst src (unat n) shift (k + 8) (k + 8) (CP_INCR_SH (8 * shift) (8 * (TYPE_WIDTH - shift)) st)"
      using less.prems l by (intro CP_INCR_SH_shifting [OF assms]) simp_all
    from less.IH [of l "k + 8", OF _ _ this] less.prems l show ?thesis
      by (subst SHIFT_single.simps) (simp add: algebra_simps)
  qed (use less.prems in \<open>simp add: SHIFT_single.simps\<close>)
qed

lemma SHIFT_groups_shifting:
  assumes "disjoint_blocks src n dst n" "0 < shift" "shift < 8"
  shows "k + 64 * g \<le> unat n \<Longrightarrow> shifting m dst src (unat n) shift k k st \<Longrightarrow>
    shifting m dst src (unat n) shift (k + 64 * g) (k + 64 * g) (SHIFT_groups (8 * shift) (8 * (TYPE_WIDTH - shift)) g st)"
proof (induction g arbitrary: k st)
  case (Suc g)
  let ?st = "fold (CP_SH (8 * shift) (8 * (TYPE_WIDTH - shift))) [0..<8] st"
  have "shifting m dst src (unat n) shift k (k + 8 * 8) (fst ?st, snd ?st)"
    using fold_CP_SH_shifting [OF assms, of k 8 m st] Suc.prems by (simp del: upt_rec_numeral)
  then have "shifting m dst src (unat n) shift (k + 64) (k + 64) (fst ?st, INC_INDEX 8 (snd ?st))"
    using INC_INDEX_shifting [of m dst src "unat n" shift k 8 "fst ?st" "snd ?st"] assms(3) by (simp del: upt_rec_numeral)
  from Suc.IH [OF _ this] Suc.prems show ?case by (simp add: split_beta Let_def add.assoc del: upt_rec_numeral)
qed simp

lemma align_word_eq: "align_word p = p - (p AND 7)"
proof -
  have "(p AND 7) + (p AND NOT 7) = (p AND 7) OR (p AND NOT 7)"
    by (rule disjunctive_add_eq_or) (simp add: ac_simps)
  also have "\<dots> = p" by (simp add: bit.conj_disj_distrib [symmetric])
  finally show ?thesis by (simp add: align_word_def TYPE_WIDTH_def algebra_simps)
qed

lemma COPY_SHIFT_copies:
  assumes D: "disjoint_blocks src n dst n" and c: "k + c \<le> unat n"
    and s: "0 < shift" "shift < 8" "(src + of_nat k) AND 7 = of_nat shift" and d: "(dst + of_nat k) AND 7 = 0"
  shows "COPY_SHIFT shift c (copying m dst src k) = copying m dst src (k + c)"
proof -
  let ?mk = "memcpy m dst src (of_nat k)" and ?shl = "8 * shift" and ?shr = "8 * (TYPE_WIDTH - shift)"
  let ?len = "c div 8"
  let ?p = "src + of_nat k - of_nat shift"
  have al: "align_word (dst + of_nat k) = dst + of_nat k" "align_word (src + of_nat k) = ?p"
    by (simp_all only: align_word_eq s(3) d) simp
  have kn: "k \<le> unat n" using c by simp
  have "word_ahead m src (unat n) shift k (load_word ?mk ?p)"
    unfolding word_ahead_def
  proof (intro allI impI)
    fix i assume i: "i < 8 - shift" "k + i < unat n"
    have "le_bytes 8 (load_word ?mk ?p) ! (i + shift) = ?mk (?p + of_nat (i + shift))"
      by (rule load_word_byte) (use i s in simp)
    also have "?p + of_nat (i + shift) = src + of_nat (k + i)" by simp
    also have "?mk (src + of_nat (k + i)) = m (src + of_nat (k + i))" by (rule memcpy_source [OF D i(2) kn])
    finally show "le_bytes 8 (load_word ?mk ?p) ! (i + shift) = m (src + of_nat (k + i))" .
  qed
  moreover have "?p + 8 = src + of_nat (k + 8 - shift)" using s(2) by (simp add: of_nat_diff)
  ultimately have st: "shifting m dst src (unat n) shift k k (load_word ?mk ?p, dst + of_nat k, ?p + 8, ?mk)"
    by (auto simp: shifting_def)
  have len: "8 * ?len + c mod 8 = c" "64 * ((?len - ?len mod 8) div 8) + 8 * (?len mod 8) = 8 * ?len"
    using words_split [of ?len] by simp_all
  have k1: "k + 8 * ?len \<le> unat n" "k + 8 * (?len mod 8) + 64 * ((?len - ?len mod 8) div 8) \<le> unat n"
    using c len by linarith+
  from SHIFT_single_shifting [OF D s(1, 2) k1(1) st] obtain st1 where st1:
    "SHIFT_single ?shl ?shr ?len (load_word ?mk ?p, dst + of_nat k, ?p + 8, ?mk) = (?len - ?len mod 8, st1)"
    "shifting m dst src (unat n) shift (k + 8 * (?len mod 8)) (k + 8 * (?len mod 8)) st1" by blast
  let ?K = "k + 8 * ?len"
  have "k + 8 * (?len mod 8) + 64 * ((?len - ?len mod 8) div 8) = ?K" using len(2) by linarith
  with SHIFT_groups_shifting [OF D s(1, 2) k1(2) st1(2)]
  obtain w where w: "SHIFT_groups ?shl ?shr ((?len - ?len mod 8) div 8) st1 =
      (w, dst + of_nat ?K, src + of_nat (?K + 8 - shift), memcpy m dst src (of_nat ?K))"
    by (simp only: shifting_def) blast
  have "?K + 8 - shift + shift - 8 = ?K" using s(2) by simp
  then have e: "src + of_nat (?K + 8 - shift) + of_nat shift - of_nat TYPE_WIDTH = src + of_nat ?K"
    using s(2) by (simp add: TYPE_WIDTH_def of_nat_diff)
  have "COPY_REMAINING (c mod 8) (copying m dst src ?K) = copying m dst src (k + c)"
    using COPY_REMAINING_copies [OF D, of ?K "c mod 8" m] len(1) c by (simp add: add.assoc)
  then have r: "COPY_REMAINING (c mod 8) (dst + of_nat ?K, src + of_nat ?K, memcpy m dst src (of_nat ?K)) =
    copying m dst src (k + c)" by (simp only: copying_def)
  have tw: "c div TYPE_WIDTH = ?len" "c mod TYPE_WIDTH = c mod 8" by (simp_all only: TYPE_WIDTH_def)
  show ?thesis
    unfolding COPY_SHIFT_def copying_def [of m dst src k] prod.case Let_def tw al st1(1) w e r by (rule refl)
qed

lemma memcpy_align_copies:
  assumes "disjoint_blocks src n dst n"
  shows "unat (- (dst + of_nat k) AND 7) \<le> c \<Longrightarrow> k + c = unat n \<Longrightarrow>
    \<exists>j. memcpy_align c (copying m dst src k) = (c - j, copying m dst src (k + j)) \<and> j \<le> c \<and>
      (dst + of_nat (k + j)) AND 7 = 0"
proof (induction "unat (- (dst + of_nat k) AND 7)" arbitrary: k c rule: less_induct)
  case less
  have tw: "of_nat TYPE_WIDTH - 1 = (7 :: u64)" by (simp add: TYPE_WIDTH_def)
  show ?case
  proof (cases "(dst + of_nat k) AND 7 = 0")
    case False
    have lt: "unat (- (dst + of_nat (Suc k)) AND 7) < unat (- (dst + of_nat k) AND 7)"
    proof -
      have "- (dst + of_nat (Suc k)) = - (dst + of_nat k) - 1" by simp
      then show ?thesis using align_step [OF False] by (simp only:)
    qed
    with less.prems have c: "c = Suc (c - 1)" by simp
    have "copy_byte (copying m dst src k) = copying m dst src (Suc k)"
      using copy_bytes [OF assms, of k 1 m] less.prems c by simp
    moreover obtain j where "memcpy_align (c - 1) (copying m dst src (Suc k)) = (c - 1 - j, copying m dst src (Suc k + j))"
      "j \<le> c - 1" "(dst + of_nat (Suc k + j)) AND 7 = 0"
      using less.hyps [OF lt, of "c - 1"] less.prems lt c by fastforce
    ultimately show ?thesis
      using False c by (intro exI [of _ "Suc j"], subst memcpy_align.simps) (simp add: tw copying_def)
  next
    case True
    then show ?thesis by (intro exI [of _ 0], subst memcpy_align.simps) (simp add: tw copying_def)
  qed
qed

lemma memcpy_c_spec:
  assumes D: "disjoint_blocks src n dst n"
  shows "memcpy_c dst src n m = memcpy m dst src n"
proof -
  have start: "(dst, src, m) = copying m dst src 0" by (simp add: copying_def)
  have fin: "snd (snd (copying m dst src (unat n))) = memcpy m dst src n" by (simp add: copying_def)
  have tw: "of_nat TYPE_WIDTH - 1 = (7 :: u64)" by (simp add: TYPE_WIDTH_def)
  show ?thesis
  proof (cases "n < 8")
    case True
    then have "COPY_REMAINING (unat n) (copying m dst src 0) = copying m dst src (unat n)"
      using COPY_REMAINING_copies [OF D, of 0 "unat n" m] by (simp add: word_less_nat_alt)
    with True fin show ?thesis by (simp add: memcpy_c_def start)
  next
    case False
    have low: "unat (w AND 7) < 8" for w :: u64
      using word_and_le1 [of w 7] by (simp add: word_le_nat_alt)
    have "unat (- dst AND 7) \<le> unat n" using low [of "- dst"] False by (simp add: word_less_nat_alt)
    then obtain j where j: "memcpy_align (unat n) (copying m dst src 0) = (unat n - j, copying m dst src j)" "j \<le> unat n"
      "(dst + of_nat j) AND 7 = 0"
      using memcpy_align_copies [OF D, of 0 "unat n" m] by auto
    let ?s = "unat ((src + of_nat j) AND 7)"
    have sel: "fst (snd (copying m dst src j)) = src + of_nat j" by (simp add: copying_def)
    have "(if ?s = 0 then COPY_NO_SHIFT (unat n - j) (copying m dst src j)
       else COPY_SHIFT ?s (unat n - j) (copying m dst src j)) = copying m dst src (unat n)"
      using COPY_NO_SHIFT_copies [OF D, of j "unat n - j" m] COPY_SHIFT_copies [OF D, of j "unat n - j" ?s m] j(2, 3) low
      by simp
    with False j(1) fin show ?thesis
      by (simp add: memcpy_c_def start tw Let_def sel split: if_splits)
  qed
qed

text \<open>
  The assembly routines are the block operations of the specification: filling stores the byte in
  every cell of a non-empty block, and moving copies a non-empty block as if the whole source were read first,
  also when the two blocks overlap, as long as neither crosses the middle of the address space.
\<close>

theorem memmove_memset_asm_correct:
  assumes "n \<noteq> 0" and "sint dst + int (unat n) \<le> 2 ^ 63" and "sint src + int (unat n) \<le> 2 ^ 63"
  shows "memmove_asm dst src n m = memcpy m dst src n \<and> memset_asm dst v n m = memset m dst v n"
  using memmove_asm_spec [of n dst src m] memset_loop_spec [of "unat n" dst v m] assms
  by (simp add: memset_asm_def unat_gt_0)

theorem memmove_memset_asm_correct_witness:
  "bytes_at (memmove_asm 0x1002 0x1000 4 (\<lambda>a. ucast a)) 0x1002 4 = [0x00, 0x01, 0x02, 0x03] \<and>
   bytes_at (memset_asm 0x1002 7 4 (\<lambda>a. ucast a)) 0x1001 3 = [0x01, 7, 7]"
  using memmove_memset_asm_correct [of 4 "0x1002" "0x1000" "\<lambda>a. ucast a" 7]
  by (simp add: bytes_at_def upt_conv_Cons memcpy_def memset_def)

text \<open>
  C7: The word-wise copy, with its alignment, its eight unrolled steps and its seven shifts, leaves
  exactly the memory of the byte-wise definition for every pair of disjoint blocks, whatever their
  alignment and length.
\<close>

theorem memcpy_c_equivalent:
  assumes "disjoint_blocks src n dst n"
  shows "memcpy_c dst src n m = memcpy m dst src n"
  by (rule memcpy_c_spec [OF assms])

theorem memcpy_c_equivalent_witness:
  "bytes_at (memcpy_c 0x2003 0x1001 21 (\<lambda>a. ucast a)) 0x2016 3 = [0x14, 0x15, 0x18]"
proof -
  have "disjoint_blocks 0x1001 21 0x2003 (21 :: u64)" by (rule disjoint_blocksI) simp_all
  from memcpy_c_equivalent [OF this, of "\<lambda>a. ucast a"] show ?thesis
    by (simp add: bytes_at_def upt_conv_Cons memcpy_def)
qed

end
