(* ===== verification/Block.thy ===== *)
theory Block
  imports Kernel_Memory
begin

text \<open>
  Block devices: \<^verbatim>\<open>src/driver/block/blockdevice.cpp\<close> and \<^verbatim>\<open>src/driver/block/ramdisk.cpp\<close>. The classes that
  implement the interface are the constructors of a datatype, and a virtual function is a
  function on it. Data lies in the byte memory.
\<close>

section \<open>The code\<close>

definition PermExecute :: u16 where "PermExecute = push_bit 0 1"
definition PermWrite :: u16 where "PermWrite = push_bit 1 1"
definition PermRead :: u16 where "PermRead = push_bit 2 1"

definition Ramdisk_Alloc_None :: u16 where "Ramdisk_Alloc_None = 0"
definition Ramdisk_Alloc_Malloc :: u16 where "Ramdisk_Alloc_Malloc = 1"
definition Ramdisk_Alloc_4KPages :: u16 where "Ramdisk_Alloc_4KPages = 2"
definition Ramdisk_Alloc_2MPages :: u16 where "Ramdisk_Alloc_2MPages = 3"

record ramdisk =
  rd_blocksize :: u64
  rd_blockcount :: u64
  rd_buffer :: addr
  rd_pages :: int
  rd_perm :: u16
  rd_alloctype :: u16

datatype BlockDevice = BlockDeviceRamdisk ramdisk | SlicedBlockDevice BlockDevice u64 u64

fun BlockSize :: "BlockDevice \<Rightarrow> u64" where
  "BlockSize (BlockDeviceRamdisk r) = rd_blocksize r"
| "BlockSize (SlicedBlockDevice backing off cnt) = BlockSize backing"

fun device_Size :: "BlockDevice \<Rightarrow> u64" where
  "device_Size (BlockDeviceRamdisk r) = rd_blockcount r"
| "device_Size (SlicedBlockDevice backing off cnt) = cnt"

fun SizeBytes :: "BlockDevice \<Rightarrow> u64" where
  "SizeBytes (BlockDeviceRamdisk r) = rd_blocksize r * rd_blockcount r"
| "SizeBytes (SlicedBlockDevice backing off cnt) = BlockSize backing * cnt"

fun DevicePermission :: "BlockDevice \<Rightarrow> u16" where
  "DevicePermission (BlockDeviceRamdisk r) = rd_perm r"
| "DevicePermission (SlicedBlockDevice backing off cnt) = DevicePermission backing"

text \<open>The count as the ramdisk limits it; the difference wraps for an offset beyond the end.\<close>

definition ramdisk_count :: "ramdisk \<Rightarrow> u64 \<Rightarrow> u64 \<Rightarrow> u64" where
  "ramdisk_count r offset cnt = (if cnt > rd_blockcount r - offset then rd_blockcount r - offset else cnt)"

definition ramdisk_ReadBlock :: "ramdisk \<Rightarrow> u64 \<Rightarrow> addr \<Rightarrow> u64 \<Rightarrow> mem \<Rightarrow> u64 \<times> mem" where
  "ramdisk_ReadBlock r offset data cnt m =
     (if rd_perm r AND PermRead = 0 then (- 1, m)
      else
        (let cnt = ramdisk_count r offset cnt in
         (cnt, memcpy m data (rd_buffer r + rd_blocksize r * offset) (rd_blocksize r * cnt))))"

definition ramdisk_WriteBlock :: "ramdisk \<Rightarrow> u64 \<Rightarrow> addr \<Rightarrow> u64 \<Rightarrow> mem \<Rightarrow> u64 \<times> mem" where
  "ramdisk_WriteBlock r offset data cnt m =
     (if rd_perm r AND PermWrite = 0 then (- 1, m)
      else
        (let cnt = ramdisk_count r offset cnt in
         (cnt, memcpy m (rd_buffer r + rd_blocksize r * offset) data (rd_blocksize r * cnt))))"

fun ReadBlock :: "BlockDevice \<Rightarrow> u64 \<Rightarrow> addr \<Rightarrow> u64 \<Rightarrow> mem \<Rightarrow> u64 \<times> mem" where
  "ReadBlock (BlockDeviceRamdisk r) offset data cnt m = ramdisk_ReadBlock r offset data cnt m"
| "ReadBlock (SlicedBlockDevice backing off cnt0) offset data cnt m = ReadBlock backing (offset + off) data cnt m"

fun WriteBlock :: "BlockDevice \<Rightarrow> u64 \<Rightarrow> addr \<Rightarrow> u64 \<Rightarrow> mem \<Rightarrow> u64 \<times> mem" where
  "WriteBlock (BlockDeviceRamdisk r) offset data cnt m = ramdisk_WriteBlock r offset data cnt m"
| "WriteBlock (SlicedBlockDevice backing off cnt0) offset data cnt m = WriteBlock backing (offset + off) data cnt m"

definition Slice :: "BlockDevice \<Rightarrow> u64 \<Rightarrow> u64 \<Rightarrow> BlockDevice" where
  "Slice dev blockOffset blockCount = SlicedBlockDevice dev blockOffset blockCount"

text \<open>
  The constructors of a ramdisk: around a buffer, and with a buffer of its own. The second takes the
  state of the address space and of the page tables; \<open>new\<close> is what the heap answers.
\<close>

definition Ramdisk_wrap :: "addr \<Rightarrow> u64 \<Rightarrow> u64 \<Rightarrow> u16 \<Rightarrow> ramdisk" where
  "Ramdisk_wrap buf blockSize blockCount perm =
     \<lparr>rd_blocksize = blockSize, rd_blockcount = blockCount, rd_buffer = buf, rd_pages = 0, rd_perm = perm,
      rd_alloctype = Ramdisk_Alloc_None\<rparr>"

definition Ramdisk_new ::
  "addr \<Rightarrow> u64 \<Rightarrow> u64 \<Rightarrow> u16 \<Rightarrow> u64 \<times> paging_state \<Rightarrow> (ramdisk \<times> u64 \<times> paging_state) option" where
  "Ramdisk_new new blockSize blockCount perm = (\<lambda>(bottom, ps).
     (let bytes = blockSize * blockCount; r = Ramdisk_wrap new blockSize blockCount perm in
      if bytes < SYSTEM_PAGE_SIZE then Some (r\<lparr>rd_alloctype := Ramdisk_Alloc_Malloc\<rparr>, bottom, ps)
      else if bytes < SYSTEM_PAGE_2M_SIZE * 64
      then
        (let (buf, bottom) = memory_AllocateKernelMapping bytes SYSTEM_PAGE_SIZE bottom; n = roundUpToPageCount bytes in do {
           ps \<leftarrow> paging_map_PageAllocated buf n (ucast perm) ps;
           Some (r\<lparr>rd_buffer := buf, rd_pages := n, rd_alloctype := Ramdisk_Alloc_4KPages\<rparr>, bottom, ps)
         })
      else
        (let (buf, bottom) = memory_AllocateKernelMapping bytes SYSTEM_PAGE_2M_SIZE bottom; n = roundUpToPageCount2M bytes in do {
           ps \<leftarrow> paging_map_PageAllocated2M buf n (ucast perm) ps;
           Some (r\<lparr>rd_buffer := buf, rd_pages := n, rd_alloctype := Ramdisk_Alloc_2MPages\<rparr>, bottom, ps)
         })))"

text \<open>The destructor: the page tables, or the buffer given to \<^verbatim>\<open>kFree\<close>.\<close>

definition Ramdisk_delete :: "ramdisk \<Rightarrow> addr list \<times> paging_state \<Rightarrow> (addr list \<times> paging_state) option" where
  "Ramdisk_delete r = (\<lambda>(freed, ps).
     (if rd_alloctype r = Ramdisk_Alloc_Malloc then Some (freed @ [rd_buffer r], ps)
      else if rd_alloctype r = Ramdisk_Alloc_4KPages \<or> rd_alloctype r = Ramdisk_Alloc_2MPages
      then do {
        ps \<leftarrow> paging_map_FreeAllocated (rd_buffer r) (rd_buffer r + of_int (rd_pages r) *
          (if rd_alloctype r = Ramdisk_Alloc_4KPages then SYSTEM_PAGE_SIZE else SYSTEM_PAGE_2M_SIZE)) ps;
        Some (freed, ps)
      }
      else Some (freed, ps)))"

section \<open>The contract\<close>

text \<open>
  What a file system needs of a device: a number of blocks of one size, reads that deliver the blocks
  asked for, and writes that change the blocks written and no other. Reading and writing beyond the
  end is outside the contract.
\<close>

locale block_device =
  fixes bsize :: "'d \<Rightarrow> nat"
    and blocks :: "'d \<Rightarrow> nat"
    and block :: "'d \<Rightarrow> mem \<Rightarrow> nat \<Rightarrow> u8 list"
    and holds :: "'d \<Rightarrow> addr \<Rightarrow> bool"
    and ok :: "'d \<Rightarrow> bool"
    and readable :: "'d \<Rightarrow> bool"
    and writable :: "'d \<Rightarrow> bool"
    and rd :: "'d \<Rightarrow> u64 \<Rightarrow> addr \<Rightarrow> u64 \<Rightarrow> mem \<Rightarrow> u64 \<times> mem"
    and wr :: "'d \<Rightarrow> u64 \<Rightarrow> addr \<Rightarrow> u64 \<Rightarrow> mem \<Rightarrow> u64 \<times> mem"
  assumes block_length [simp]: "length (block d m i) = bsize d"
    and small: "ok d \<Longrightarrow> bsize d * blocks d < 2 ^ 64"
    and block_cong: "ok d \<Longrightarrow> i < blocks d \<Longrightarrow> (\<And>a. holds d a \<Longrightarrow> m a = m' a) \<Longrightarrow> block d m i = block d m' i"
    and read_law: "ok d \<Longrightarrow> readable d \<Longrightarrow> unat off + unat n \<le> blocks d \<Longrightarrow>
      rd d off p n m = (n, store_bytes m p (concat (map (block d m) [unat off ..< unat off + unat n])))"
    and write_count: "ok d \<Longrightarrow> writable d \<Longrightarrow> unat off + unat n \<le> blocks d \<Longrightarrow> fst (wr d off p n m) = n"
    and write_inside: "ok d \<Longrightarrow> writable d \<Longrightarrow> unat off + unat n \<le> blocks d \<Longrightarrow> j < unat n \<Longrightarrow>
      block d (snd (wr d off p n m)) (unat off + j) = bytes_at m (p + of_nat (bsize d * j)) (bsize d)"
    and write_other: "ok d \<Longrightarrow> writable d \<Longrightarrow> unat off + unat n \<le> blocks d \<Longrightarrow> i < blocks d \<Longrightarrow>
      \<not> (unat off \<le> i \<and> i < unat off + unat n) \<Longrightarrow> block d (snd (wr d off p n m)) i = block d m i"
    and write_outside: "ok d \<Longrightarrow> writable d \<Longrightarrow> unat off + unat n \<le> blocks d \<Longrightarrow> \<not> holds d a \<Longrightarrow>
      snd (wr d off p n m) a = m a"
begin

lemma length_blocks [simp]: "length (concat (map (block d m) [i ..< j])) = bsize d * (j - i)"
  by (induction j) (auto simp: Suc_diff_le)

lemma read_size:
  assumes "ok d" "unat off + n \<le> blocks d"
  shows "bsize d * n < 2 ^ 64"
proof -
  have "bsize d * n \<le> bsize d * blocks d" using assms(2) by (intro mult_le_mono2) simp
  from le_less_trans [OF this small [OF assms(1)]] show ?thesis .
qed

lemma read_bytes:
  assumes "ok d" "readable d" "unat off + unat n \<le> blocks d"
  shows "bytes_at (snd (rd d off p n m)) p (bsize d * unat n) = concat (map (block d m) [unat off ..< unat off + unat n])"
  using read_law [OF assms, of p m] read_size [OF assms(1, 3)]
    bytes_at_store_bytes [of "concat (map (block d m) [unat off ..< unat off + unat n])" m p] by simp

lemma read_one:
  assumes "ok d" "readable d" "unat off < blocks d"
  shows "rd d off p 1 m = (1, store_bytes m p (block d m (unat off)))"
  using read_law [of d off 1 p m] assms by simp

lemma read_keeps:
  assumes "ok d" "readable d" "unat off + unat n \<le> blocks d" "i < blocks d"
    and "\<And>a. holds d a \<Longrightarrow> \<not> in_block a p (of_nat (bsize d * unat n))"
  shows "block d (snd (rd d off p n m)) i = block d m i"
  using read_law [OF assms(1-3), of p m] assms(1, 4, 5) by (intro block_cong) (simp_all add: store_bytes_outside)

lemma write_then_read:
  assumes "ok d" "readable d" "writable d" "unat off + unat n \<le> blocks d"
  shows "bytes_at (snd (rd d off q n (snd (wr d off p n m)))) q (bsize d * unat n) = bytes_at m p (bsize d * unat n)"
proof -
  have *: "concat (map (\<lambda>j. bytes_at m (p + of_nat (bsize d * j)) (bsize d)) [0 ..< k]) = bytes_at m p (bsize d * k)" for k
  proof (induction k)
    case (Suc k)
    then show ?case using bytes_at_add [of m p "bsize d * k" "bsize d"] by (simp add: add.commute)
  qed simp
  have "map (block d (snd (wr d off p n m))) [unat off ..< unat off + unat n] =
    map (\<lambda>j. bytes_at m (p + of_nat (bsize d * j)) (bsize d)) [0 ..< unat n]"
    using write_inside [OF assms(1, 3, 4)] by (auto intro: nth_equalityI)
  with read_bytes [OF assms(1, 2, 4)] * show ?thesis by simp
qed

end

section \<open>The devices meet it\<close>

fun dev_base :: "BlockDevice \<Rightarrow> addr" where
  "dev_base (BlockDeviceRamdisk r) = rd_buffer r"
| "dev_base (SlicedBlockDevice backing off cnt) = dev_base backing + BlockSize backing * off"

fun dev_ok :: "BlockDevice \<Rightarrow> bool" where
  "dev_ok (BlockDeviceRamdisk r) \<longleftrightarrow> unat (rd_blocksize r) * unat (rd_blockcount r) < 2 ^ 64"
| "dev_ok (SlicedBlockDevice backing off cnt) \<longleftrightarrow> dev_ok backing \<and> unat off + unat cnt \<le> unat (device_Size backing)"

definition dev_block :: "BlockDevice \<Rightarrow> mem \<Rightarrow> nat \<Rightarrow> u8 list" where
  "dev_block d m i = bytes_at m (dev_base d + of_nat (unat (BlockSize d) * i)) (unat (BlockSize d))"

definition dev_holds :: "BlockDevice \<Rightarrow> addr \<Rightarrow> bool" where
  "dev_holds d a \<longleftrightarrow> in_block a (dev_base d) (BlockSize d * device_Size d)"

definition dev_readable :: "BlockDevice \<Rightarrow> bool" where
  "dev_readable d \<longleftrightarrow> DevicePermission d AND PermRead \<noteq> 0"

definition dev_writable :: "BlockDevice \<Rightarrow> bool" where
  "dev_writable d \<longleftrightarrow> DevicePermission d AND PermWrite \<noteq> 0"

lemma dev_ok_small: "dev_ok d \<Longrightarrow> unat (BlockSize d) * unat (device_Size d) < 2 ^ 64"
proof (induction d)
  case (SlicedBlockDevice d off cnt)
  then have "unat (BlockSize d) * unat cnt \<le> unat (BlockSize d) * unat (device_Size d)" by (intro mult_le_mono2) simp
  from le_less_trans [OF this] SlicedBlockDevice show ?case by simp
qed simp

lemma ramdisk_count_id: "unat off + unat n \<le> unat (rd_blockcount r) \<Longrightarrow> ramdisk_count r off n = n"
  by (auto simp: ramdisk_count_def word_less_nat_alt unat_sub_if_size word_size)

lemma unat_add_le: "unat (a :: u64) + unat b \<le> unat (c :: u64) \<Longrightarrow> unat (a + b) = unat a + unat b"
  using unat_lt_u64 [of c] by (intro unat_add_no_wrap) linarith

lemma ReadBlock_memcpy:
  "dev_ok d \<Longrightarrow> dev_readable d \<Longrightarrow> unat off + unat n \<le> unat (device_Size d) \<Longrightarrow>
     ReadBlock d off p n m = (n, memcpy m p (dev_base d + BlockSize d * off) (BlockSize d * n))"
proof (induction d arbitrary: off)
  case (BlockDeviceRamdisk r)
  then show ?case by (simp add: ramdisk_ReadBlock_def dev_readable_def ramdisk_count_id)
next
  case (SlicedBlockDevice d o1 c1)
  then have r: "unat off + unat o1 \<le> unat (device_Size d)" by simp
  have "unat (off + o1) + unat n \<le> unat (device_Size d)" using SlicedBlockDevice.prems unat_add_le [OF r] by simp
  with SlicedBlockDevice.IH [of "off + o1"] SlicedBlockDevice.prems
  have "ReadBlock d (off + o1) p n m = (n, memcpy m p (dev_base d + BlockSize d * (off + o1)) (BlockSize d * n))"
    by (simp add: dev_readable_def)
  moreover have "dev_base d + BlockSize d * (off + o1) = dev_base d + BlockSize d * o1 + BlockSize d * off"
    by (simp add: distrib_left)
  ultimately show ?case by simp
qed

lemma WriteBlock_memcpy:
  "dev_ok d \<Longrightarrow> dev_writable d \<Longrightarrow> unat off + unat n \<le> unat (device_Size d) \<Longrightarrow>
     WriteBlock d off p n m = (n, memcpy m (dev_base d + BlockSize d * off) p (BlockSize d * n))"
proof (induction d arbitrary: off)
  case (BlockDeviceRamdisk r)
  then show ?case by (simp add: ramdisk_WriteBlock_def dev_writable_def ramdisk_count_id)
next
  case (SlicedBlockDevice d o1 c1)
  then have r: "unat off + unat o1 \<le> unat (device_Size d)" by simp
  have "unat (off + o1) + unat n \<le> unat (device_Size d)" using SlicedBlockDevice.prems unat_add_le [OF r] by simp
  with SlicedBlockDevice.IH [of "off + o1"] SlicedBlockDevice.prems
  have "WriteBlock d (off + o1) p n m = (n, memcpy m (dev_base d + BlockSize d * (off + o1)) p (BlockSize d * n))"
    by (simp add: dev_writable_def)
  moreover have "dev_base d + BlockSize d * (off + o1) = dev_base d + BlockSize d * o1 + BlockSize d * off"
    by (simp add: distrib_left)
  ultimately show ?case by simp
qed

lemma dev_blocks:
  "concat (map (dev_block d m) [i ..< i + k]) =
     bytes_at m (dev_base d + of_nat (unat (BlockSize d) * i)) (unat (BlockSize d) * k)"
proof (induction k)
  case (Suc k)
  then show ?case
    using bytes_at_add [of m "dev_base d + of_nat (unat (BlockSize d) * i)" "unat (BlockSize d) * k" "unat (BlockSize d)"]
    by (simp add: dev_block_def algebra_simps)
qed simp

lemma unat_mult_le:
  "unat (b :: u64) * unat (c :: u64) < 2 ^ 64 \<Longrightarrow> n \<le> unat c \<Longrightarrow> unat (b * of_nat n) = unat b * n"
proof -
  assume bc: "unat b * unat c < 2 ^ 64" and n: "n \<le> unat c"
  have "unat (of_nat n :: u64) = n" using n unat_lt_u64 [of c] by (intro unat_of_nat_u64) linarith
  moreover have "unat b * n < 2 ^ 64" by (rule le_less_trans [OF mult_le_mono2 [OF n] bc])
  ultimately show ?thesis by (simp add: unat_word_ariths)
qed

text \<open>The bytes written, seen from the start of the device.\<close>

lemma written_byte:
  assumes "dev_ok d" "dev_writable d" "unat off + unat n \<le> unat (device_Size d)"
    and "j < unat (BlockSize d) * unat (device_Size d)"
  shows "snd (WriteBlock d off p n m) (dev_base d + of_nat j) =
    (if unat (BlockSize d) * unat off \<le> j \<and> j < unat (BlockSize d) * (unat off + unat n)
     then m (p + of_nat (j - unat (BlockSize d) * unat off)) else m (dev_base d + of_nat j))"
proof -
  let ?b = "unat (BlockSize d)"
  note small = dev_ok_small [OF assms(1)]
  have j: "unat (of_nat j :: u64) = j" using assms(4) small by (intro unat_of_nat_u64) linarith
  have o: "unat (BlockSize d * off) = ?b * unat off" "unat (BlockSize d * n) = ?b * unat n"
    using unat_mult_le [OF small, of "unat off"] unat_mult_le [OF small, of "unat n"] assms(3) by simp_all
  have le: "?b * unat off + ?b * unat n \<le> ?b * unat (device_Size d)"
    using mult_le_mono2 [OF assms(3), of ?b] by (simp only: distrib_left)
  have "unat (BlockSize d * off) + unat (BlockSize d * n) \<le> 2 ^ 64" unfolding o using le small by linarith
  note in_block_interval [OF this, of "of_nat j"]
  then have lt: "of_nat j - BlockSize d * off < BlockSize d * n \<longleftrightarrow> ?b * unat off \<le> j \<and> j < ?b * (unat off + unat n)"
    unfolding in_block_def j o distrib_left .
  have e: "dev_base d + of_nat j - (dev_base d + BlockSize d * off) = of_nat j - BlockSize d * off"
    by (rule add_diff_cancel_left)
  have src: "of_nat j - BlockSize d * off = of_nat (j - ?b * unat off)" if "?b * unat off \<le> j"
    using of_nat_diff [OF that, where ?'a = "64 word"] by (simp only: of_nat_mult) simp
  show ?thesis
    unfolding WriteBlock_memcpy [OF assms(1-3), of p m] snd_conv memcpy_def e lt using src by auto
qed

interpretation bd: block_device "\<lambda>d. unat (BlockSize d)" "\<lambda>d. unat (device_Size d)" dev_block dev_holds dev_ok
  dev_readable dev_writable ReadBlock WriteBlock
proof
  fix d and m m' :: mem and i j :: nat and off n :: u64 and p a :: addr
  show "length (dev_block d m i) = unat (BlockSize d)" by (simp add: dev_block_def)
  assume ok: "dev_ok d"
  note small = dev_ok_small [OF ok]
  show "unat (BlockSize d) * unat (device_Size d) < 2 ^ 64" by (rule small)
  have byte: "unat (BlockSize d) * i + k < unat (BlockSize d) * unat (device_Size d)"
    if "i < unat (device_Size d)" "k < unat (BlockSize d)" for i k
    using mult_le_mono2 [OF Suc_leI [OF that(1)], of "unat (BlockSize d)"] that(2) by simp
  have addr: "dev_holds d (dev_base d + of_nat j)" if "j < unat (BlockSize d) * unat (device_Size d)" for j
    unfolding dev_holds_def using that unat_mult_le [OF small, of "unat (device_Size d)"] by (intro in_block_offset) simp
  have pos: "dev_base d + of_nat (unat (BlockSize d) * i) + of_nat k = dev_base d + of_nat (unat (BlockSize d) * i + k)" for i k
    by simp
  show "dev_block d m i = dev_block d m' i" if "i < unat (device_Size d)" "\<And>a. dev_holds d a \<Longrightarrow> m a = m' a"
    unfolding dev_block_def by (rule bytes_at_cong) (simp only: pos that(2) [OF addr [OF byte [OF that(1)]]])
  assume range: "unat off + unat n \<le> unat (device_Size d)"
  have bn: "unat (BlockSize d * n) = unat (BlockSize d) * unat n"
    using unat_mult_le [OF small, of "unat n"] range by simp
  show "ReadBlock d off p n m = (n, store_bytes m p (concat (map (dev_block d m) [unat off ..< unat off + unat n])))"
    if "dev_readable d" using ReadBlock_memcpy [OF ok that range, of p m] by (simp add: memcpy_store dev_blocks bn)
  assume wr: "dev_writable d"
  show "fst (WriteBlock d off p n m) = n" using WriteBlock_memcpy [OF ok wr range, of p m] by simp
  note written = written_byte [OF ok wr range, of _ p m]
  show "dev_block d (snd (WriteBlock d off p n m)) (unat off + j) =
      bytes_at m (p + of_nat (unat (BlockSize d) * j)) (unat (BlockSize d))" if j: "j < unat n"
    unfolding dev_block_def
  proof (rule nth_equalityI; simp only: length_bytes_at nth_bytes_at pos)
    fix k assume k: "k < unat (BlockSize d)"
    have i: "unat off + j < unat (device_Size d)" using j range by simp
    have "unat (BlockSize d) * (unat off + j) + k < unat (BlockSize d) * (unat off + unat n)"
      using mult_le_mono2 [of "Suc (unat off + j)" "unat off + unat n" "unat (BlockSize d)"] j k by simp
    with written [OF byte [OF i k]]
    show "snd (WriteBlock d off p n m) (dev_base d + of_nat (unat (BlockSize d) * (unat off + j) + k)) =
        m (p + of_nat (unat (BlockSize d) * j) + of_nat k)" by (simp add: distrib_left add.assoc)
  qed
  show "dev_block d (snd (WriteBlock d off p n m)) i = dev_block d m i"
    if i: "i < unat (device_Size d)" "\<not> (unat off \<le> i \<and> i < unat off + unat n)"
    unfolding dev_block_def
  proof (rule nth_equalityI; simp only: length_bytes_at nth_bytes_at pos)
    fix k assume k: "k < unat (BlockSize d)"
    have "\<not> (unat (BlockSize d) * unat off \<le> unat (BlockSize d) * i + k \<and>
        unat (BlockSize d) * i + k < unat (BlockSize d) * (unat off + unat n))"
    proof (cases "i < unat off")
      case True
      then show ?thesis using mult_le_mono2 [of "Suc i" "unat off" "unat (BlockSize d)"] k by simp
    next
      case False
      then have "unat (BlockSize d) * (unat off + unat n) \<le> unat (BlockSize d) * i" using i(2) by (intro mult_le_mono2) simp
      then show ?thesis by linarith
    qed
    with written [OF byte [OF i(1) k]]
    show "snd (WriteBlock d off p n m) (dev_base d + of_nat (unat (BlockSize d) * i + k)) =
        m (dev_base d + of_nat (unat (BlockSize d) * i + k))" by simp
  qed
  show "snd (WriteBlock d off p n m) a = m a" if a: "\<not> dev_holds d a"
  proof -
    have "\<not> in_block a (dev_base d + BlockSize d * off) (BlockSize d * n)"
    proof
      assume "in_block a (dev_base d + BlockSize d * off) (BlockSize d * n)"
      then have "unat (a - dev_base d - BlockSize d * off) < unat (BlockSize d) * unat n"
        by (simp add: in_block_def word_less_nat_alt bn diff_diff_eq)
      moreover have off: "unat (BlockSize d * off) = unat (BlockSize d) * unat off"
        using unat_mult_le [OF small, of "unat off"] range by simp
      moreover have "unat (BlockSize d) * unat off + unat (BlockSize d) * unat n \<le> unat (BlockSize d) * unat (device_Size d)"
        using mult_le_mono2 [OF range, of "unat (BlockSize d)"] by (simp add: distrib_left)
      moreover have "unat (a - dev_base d) = unat (a - dev_base d - BlockSize d * off + BlockSize d * off)" by simp
      ultimately have "unat (a - dev_base d) < unat (BlockSize d) * unat (device_Size d)"
        using small unat_add_no_wrap [of "a - dev_base d - BlockSize d * off" "BlockSize d * off"] by linarith
      then have "dev_holds d a"
        using unat_mult_le [OF small, of "unat (device_Size d)"] by (simp add: dev_holds_def in_block_def word_less_nat_alt)
      with a show False by simp
    qed
    then show ?thesis using WriteBlock_memcpy [OF ok wr range, of p m] by (simp add: memcpy_outside)
  qed
qed

text \<open>A slice shows a part of its device, and nothing written through it reaches another block.\<close>

lemma Slice_block: "dev_block (Slice d off cnt) m i = dev_block d m (unat off + i)"
  by (simp add: Slice_def dev_block_def distrib_left add.assoc)

lemma Slice_write_other:
  assumes "dev_ok (Slice d off cnt)" "dev_writable d" "unat o1 + unat n \<le> unat cnt"
    and "i < unat (device_Size d)" "\<not> (unat off \<le> i \<and> i < unat off + unat cnt)"
  shows "dev_block d (snd (WriteBlock (Slice d off cnt) o1 p n m)) i = dev_block d m i"
proof -
  have r: "unat o1 + unat off \<le> unat (device_Size d)" using assms(1, 3) by (simp add: Slice_def)
  have w: "unat (o1 + off) + unat n \<le> unat (device_Size d)"
    using assms(1, 3) by (simp add: Slice_def unat_add_le [OF r])
  have "\<not> (unat (o1 + off) \<le> i \<and> i < unat (o1 + off) + unat n)" unfolding unat_add_le [OF r] using assms(3, 5) by linarith
  with bd.write_other [OF _ assms(2) w assms(4), of p m] assms(1) show ?thesis by (simp add: Slice_def)
qed

section \<open>The properties\<close>

text \<open>
  C18: What is written to a range inside a block device that can be read and written, whether a ramdisk or a slice of one, is what a
  read of the range delivers, for buffers that do not overlap the device; both report the whole
  range done, the other blocks of the device are as before, and so is all memory outside the
  device.
\<close>

theorem WriteBlock_ReadBlock:
  assumes "dev_ok d" "dev_readable d" "dev_writable d" and "unat off + unat n \<le> unat (device_Size d)"
    and "disjoint_blocks p (BlockSize d * n) (dev_base d) (BlockSize d * device_Size d)"
    and "disjoint_blocks q (BlockSize d * n) (dev_base d) (BlockSize d * device_Size d)"
  shows "fst (WriteBlock d off p n m) = n \<and>
    fst (ReadBlock d off q n (snd (WriteBlock d off p n m))) = n \<and>
    bytes_at (snd (ReadBlock d off q n (snd (WriteBlock d off p n m)))) q (unat (BlockSize d) * unat n) =
      bytes_at m p (unat (BlockSize d) * unat n) \<and>
    (\<forall>i < unat (device_Size d). unat off \<le> i \<and> i < unat off + unat n \<or>
      dev_block d (snd (WriteBlock d off p n m)) i = dev_block d m i) \<and>
    (\<forall>a. dev_holds d a \<or> snd (WriteBlock d off p n m) a = m a)"
  using bd.write_count [OF assms(1, 3, 4), of p m] bd.read_law [OF assms(1, 2, 4)]
    bd.write_then_read [OF assms(1-4), of q p m] bd.write_other [OF assms(1, 3, 4), of _ p m]
    bd.write_outside [OF assms(1, 3, 4), of _ p m] by fastforce

definition demo_slice :: BlockDevice where
  "demo_slice = Slice (BlockDeviceRamdisk (Ramdisk_wrap 0x1000 4 4 (PermRead OR PermWrite))) 1 2"

theorem WriteBlock_ReadBlock_witness:
  "bytes_at (snd (ReadBlock demo_slice 1 0x3000 1 (snd (WriteBlock demo_slice 1 0x2000 1 (\<lambda>a. ucast a))))) 0x3000 4 =
     [0, 1, 2, 3] \<and>
   snd (WriteBlock demo_slice 1 0x2000 1 (\<lambda>a. ucast a)) 0x2004 = 4"
proof -
  have ok: "dev_ok demo_slice" "dev_readable demo_slice" "dev_writable demo_slice"
    "unat (1 :: u64) + unat (1 :: u64) \<le> unat (device_Size demo_slice)"
    by (simp_all add: demo_slice_def Slice_def Ramdisk_wrap_def dev_readable_def dev_writable_def PermRead_def PermWrite_def)
  have other: "\<not> dev_holds demo_slice 0x2004"
    by (simp add: dev_holds_def demo_slice_def Slice_def Ramdisk_wrap_def in_block_def)
  have sz: "unat (BlockSize demo_slice) * unat (1 :: u64) = 4" by (simp add: demo_slice_def Slice_def Ramdisk_wrap_def)
  have src: "bytes_at (\<lambda>a. ucast a) 0x2000 4 = [0, 1, 2, 3]" "ucast (0x2004 :: addr) = (4 :: u8)"
    by (simp_all add: bytes_at_def upt_conv_Cons)
  have "disjoint_blocks p (BlockSize demo_slice * 1) (dev_base demo_slice) (BlockSize demo_slice * device_Size demo_slice)"
    if "p = 0x2000 \<or> p = 0x3000" for p
    using that by (intro disjoint_blocks_sym [OF disjoint_blocksI]) (auto simp: demo_slice_def Slice_def Ramdisk_wrap_def)
  note apart = this [of "0x2000"] this [of "0x3000"]
  note r = WriteBlock_ReadBlock [OF ok apart, of "\<lambda>a. ucast a", simplified simp_thms, unfolded sz src(1)]
  then show ?thesis using other src(2) by metis
qed

end
