(* ===== verification/Filesystem.thy ===== *)
theory Filesystem
  imports Cstring
begin

text \<open>
  The interface of the file systems, \<^verbatim>\<open>src/driver/filesystem/filesystem.hpp\<close>: error numbers, modes, the
  status of a file and the description of an open one. Paths are strings without a zero.
\<close>

definition Seperator :: u8 where "Seperator = 0x2F"

definition EPERM :: int where "EPERM = 1"
definition ENOENT :: int where "ENOENT = 2"
definition EEXIST :: int where "EEXIST = 17"
definition EINVAL :: int where "EINVAL = 22"
definition EROFS :: int where "EROFS = 30"
definition ENOSYS :: int where "ENOSYS = 38"

lemmas error_numbers = EPERM_def ENOENT_def EEXIST_def EINVAL_def EROFS_def ENOSYS_def

type_synonym mode_t = u16

definition S_IFMT :: mode_t where "S_IFMT = 0xF000"
definition S_IFIFO :: mode_t where "S_IFIFO = 0x1000"
definition S_IFCHR :: mode_t where "S_IFCHR = 0x2000"
definition S_IFDIR :: mode_t where "S_IFDIR = 0x4000"
definition S_IFBLK :: mode_t where "S_IFBLK = 0x6000"
definition S_IFREG :: mode_t where "S_IFREG = 0x8000"
definition S_IFLNK :: mode_t where "S_IFLNK = 0xA000"

lemmas file_types = S_IFMT_def S_IFIFO_def S_IFCHR_def S_IFDIR_def S_IFBLK_def S_IFREG_def S_IFLNK_def

record Stat =
  st_Mode :: mode_t
  st_NumLinks :: u32
  st_Uid :: u16
  st_Gid :: u16
  st_Size :: u64
  st_Blocks :: u64
  st_TimeAccess :: u64
  st_TimeModification :: u64

record OpenFile =
  of_flags :: u32
  of_errno :: int
  of_handle :: u64

definition Capability_AtomicTruncate :: u32 where "Capability_AtomicTruncate = push_bit 0 1"
definition Capability_Export :: u32 where "Capability_Export = push_bit 1 1"
definition Capability_NoOpen :: u32 where "Capability_NoOpen = push_bit 2 1"

definition root_path :: "u8 list" where "root_path = [Seperator]"

text \<open>Two conditions on paths: no zero inside, and beginning with the separator.\<close>

definition path_ok :: "u8 list \<Rightarrow> bool" where
  "path_ok p \<longleftrightarrow> 0 \<notin> set p \<and> p \<noteq> [] \<and> hd p = Seperator"

lemma root_path_ok [simp]: "path_ok root_path"
  by (simp add: path_ok_def root_path_def Seperator_def)

lemma str_eq_root: "0 \<notin> set p \<Longrightarrow> str_eq p root_path \<longleftrightarrow> p = root_path"
  by (rule str_eq_iff) (simp_all add: root_path_def Seperator_def)

end
