(* ===== verification/Ustar.thy ===== *)
theory Ustar
  imports Block Filesystem
begin

text \<open>
  The read-only tar file system: \<^verbatim>\<open>src/driver/filesystem/ustar/ustar.cpp\<close> and its headers. A header block
  is read from the device into a local buffer in memory and its fields are taken from there; the
  names copied to the heap are lists of bytes. \<open>None\<close> as the result of a whole operation means that a loop does not end.
\<close>

section \<open>The code\<close>

definition USTAR_Type_NormalFile :: u8 where "USTAR_Type_NormalFile = 0x30"
definition USTAR_Type_HardLink :: u8 where "USTAR_Type_HardLink = 0x31"
definition USTAR_Type_SymbolicLink :: u8 where "USTAR_Type_SymbolicLink = 0x32"
definition USTAR_Type_CharacterDevice :: u8 where "USTAR_Type_CharacterDevice = 0x33"
definition USTAR_Type_BlockDevice :: u8 where "USTAR_Type_BlockDevice = 0x34"
definition USTAR_Type_Directory :: u8 where "USTAR_Type_Directory = 0x35"
definition USTAR_Type_FIFO :: u8 where "USTAR_Type_FIFO = 0x36"

lemmas ustar_types = USTAR_Type_NormalFile_def USTAR_Type_HardLink_def USTAR_Type_SymbolicLink_def
  USTAR_Type_CharacterDevice_def USTAR_Type_BlockDevice_def USTAR_Type_Directory_def USTAR_Type_FIFO_def

definition USTAR_Magic :: "u8 list" where "USTAR_Magic = [0x75, 0x73, 0x74, 0x61, 0x72]"
definition USTAR_Version :: "u8 list" where "USTAR_Version = [0x30, 0x30]"

definition USTAR_Metadata :: layout where
  "USTAR_Metadata =
    [(''filename'', 100), (''filemode'', 8), (''owner'', 8), (''group'', 8), (''size'', 12), (''lastmodify'', 12),
     (''checksum'', 8), (''type'', 1), (''linkname'', 100), (''magic'', 6), (''version'', 2), (''ownername'', 32),
     (''groupname'', 32), (''deviceMajor'', 8), (''deviceMinor'', 8), (''prefix'', 155)]"

abbreviation meta :: "addr \<Rightarrow> string \<Rightarrow> addr" where
  "meta buf f \<equiv> buf + of_nat (offsetof USTAR_Metadata f)"

record USTAR_File =
  uf_offset :: u64
  uf_filename :: "u8 list"
  uf_linkname :: "u8 list option"
  uf_size :: u64
  uf_lastmodify :: u64
  uf_mode :: mode_t
  uf_owner :: u16
  uf_group :: u16

record USTAR =
  us_files :: "USTAR_File list"
  us_block :: BlockDevice

text \<open>\<^verbatim>\<open>v * 8 + str[i] - '0'\<close> in 64 bits; a character is signed.\<close>

definition decode_octet :: "u64 \<Rightarrow> u8 \<Rightarrow> u64" where
  "decode_octet v c = v * 8 + scast c - 0x30"

definition decodeOctets :: "mem \<Rightarrow> addr \<Rightarrow> u64 \<Rightarrow> u64 option" where
  "decodeOctets m str len = do {
     len \<leftarrow> (if len = 0 then strlen m str 0 else Some len);
     Some (foldl decode_octet 0 (bytes_at m str (unat len)))
   }"

definition roundupBlocks :: "u64 \<Rightarrow> u64 \<Rightarrow> u64" where
  "roundupBlocks blockSize sz = (sz + blockSize - 1) div blockSize"

definition filetypeName :: "u8 \<Rightarrow> string" where
  "filetypeName type =
     (if type = USTAR_Type_NormalFile then ''(-) Normal file'' else if type = USTAR_Type_Directory then ''(d) Directory''
      else if type = USTAR_Type_BlockDevice then ''(b) Block Device''
      else if type = USTAR_Type_CharacterDevice then ''(c) Chatacter Device''
      else if type = USTAR_Type_FIFO then ''(p) Pipe/FIFO''
      else if type = USTAR_Type_SymbolicLink then ''(l) Symbolic link'' else ''(unknown)'')"

subsection \<open>Reading the archive\<close>

definition ustar_magic :: "mem \<Rightarrow> addr \<Rightarrow> bool" where
  "ustar_magic m buf \<longleftrightarrow>
     strcmp (mem_chars m (meta buf ''magic'')) (str_chars USTAR_Magic) = Some 0 \<and>
     strncmp 2 (mem_chars m (meta buf ''version'')) (str_chars USTAR_Version) = 0"

text \<open>The name with the separator before it, and without the separator it may end in.\<close>

definition ustar_filename :: "mem \<Rightarrow> addr \<Rightarrow> u8 list option" where
  "ustar_filename m buf = do {
     fname \<leftarrow> cstr m (meta buf ''filename'');
     prefix \<leftarrow> cstr m (meta buf ''prefix'');
     let name = Seperator # prefix @ fname;
     Some (if name ! (length fname + length prefix) = Seperator then take (length fname + length prefix) name else name)
   }"

definition ustar_file :: "mem \<Rightarrow> addr \<Rightarrow> int \<Rightarrow> USTAR_File option" where
  "ustar_file m buf i = do {
     filename \<leftarrow> ustar_filename m buf;
     owner \<leftarrow> decodeOctets m (meta buf ''owner'') 0;
     group \<leftarrow> decodeOctets m (meta buf ''group'') 0;
     lastmodify \<leftarrow> decodeOctets m (meta buf ''lastmodify'') 0;
     mode \<leftarrow> decodeOctets m (meta buf ''filemode'') 0;
     let type = m (meta buf ''type'');
     let file = \<lparr>uf_offset = of_int (i + 1), uf_filename = filename, uf_linkname = None, uf_size = 0,
       uf_lastmodify = lastmodify, uf_mode = ucast mode AND 0x1FF, uf_owner = ucast owner, uf_group = ucast group\<rparr>;
     if type = 0 \<or> type = USTAR_Type_NormalFile
     then do {
       sz \<leftarrow> decodeOctets m (meta buf ''size'') 0;
       Some (file\<lparr>uf_mode := uf_mode file AND S_IFREG, uf_size := sz\<rparr>)
     }
     else if type = USTAR_Type_SymbolicLink
     then do {
       link \<leftarrow> cstr m (meta buf ''linkname'');
       Some (file\<lparr>uf_mode := uf_mode file AND S_IFLNK, uf_linkname := Some link\<rparr>)
     }
     else if type = USTAR_Type_CharacterDevice then Some (file\<lparr>uf_mode := uf_mode file AND S_IFCHR\<rparr>)
     else if type = USTAR_Type_BlockDevice then Some (file\<lparr>uf_mode := uf_mode file AND S_IFBLK\<rparr>)
     else if type = USTAR_Type_Directory then Some (file\<lparr>uf_mode := uf_mode file AND S_IFDIR\<rparr>)
     else if type = USTAR_Type_FIFO then Some (file\<lparr>uf_mode := uf_mode file AND S_IFIFO\<rparr>)
     else Some file
   }"

text \<open>
  The loop over the blocks. The buffer keeps what it held when a read fails. The result is the list of
  files, or no file system when the first block has no magic.
\<close>

partial_function (option) AllocateBlock_loop ::
  "BlockDevice \<Rightarrow> addr \<Rightarrow> int \<Rightarrow> USTAR_File list \<Rightarrow> mem \<Rightarrow> (USTAR_File list option \<times> mem) option" where
  "AllocateBlock_loop dev buf i files m =
     (if (of_int i :: u64) < device_Size dev
      then
        (let m = snd (ReadBlock dev (of_int i) buf 1 m) in
         if \<not> ustar_magic m buf then Some (if i = 0 then None else Some files, m)
         else do {
           file \<leftarrow> ustar_file m buf i;
           AllocateBlock_loop dev buf (s32 (uint ((of_int i :: u64) + (roundupBlocks 512 (uf_size file) + 1))))
             (files @ [file]) m
         })
      else Some (Some files, m))"

definition USTAR_AllocateBlock :: "BlockDevice \<Rightarrow> addr \<Rightarrow> mem \<Rightarrow> (USTAR option \<times> mem) option" where
  "USTAR_AllocateBlock dev buf m = do {
     (files, m) \<leftarrow> AllocateBlock_loop dev buf 0 [] m;
     Some (map_option (\<lambda>fs. \<lparr>us_files = fs, us_block = dev\<rparr>) files, m)
   }"

subsection \<open>Operations\<close>

definition USTAR_find :: "USTAR \<Rightarrow> u8 list \<Rightarrow> nat option" where
  "USTAR_find us path = find (\<lambda>i. str_eq (uf_filename (us_files us ! i)) path) [0..<length (us_files us)]"

definition USTAR_Stat :: "USTAR_File \<Rightarrow> Stat" where
  "USTAR_Stat f =
     \<lparr>st_Mode = uf_mode f, st_NumLinks = 0, st_Uid = uf_owner f, st_Gid = uf_group f, st_Size = uf_size f,
      st_Blocks = roundupBlocks 512 (uf_size f), st_TimeAccess = 0, st_TimeModification = uf_lastmodify f\<rparr>"

definition USTAR_Getattr :: "USTAR \<Rightarrow> u8 list \<Rightarrow> Stat \<Rightarrow> int \<times> Stat" where
  "USTAR_Getattr us path stat =
     (if str_eq path root_path then (0, stat\<lparr>st_Mode := S_IFDIR OR 0x1ED\<rparr>)
      else case USTAR_find us path of Some i \<Rightarrow> (0, USTAR_Stat (us_files us ! i)) | None \<Rightarrow> (- ENOENT, stat))"

text \<open>The result, with the bytes copied to the buffer.\<close>

definition USTAR_Readlink :: "USTAR \<Rightarrow> u8 list \<Rightarrow> nat \<Rightarrow> int \<times> u8 list" where
  "USTAR_Readlink us link bufferSize = (case USTAR_find us link of
       None \<Rightarrow> (- ENOENT, [])
     | Some i \<Rightarrow> (case uf_linkname (us_files us ! i) of
           None \<Rightarrow> (- EINVAL, [])
         | Some target \<Rightarrow>
             if uf_mode (us_files us ! i) AND S_IFMT \<noteq> S_IFLNK then (- EINVAL, [])
             else if bufferSize < length target then (int (length target), take bufferSize target)
             else (0, take (if bufferSize > length target then length target + 1 else bufferSize) (target @ [0]))))"

definition USTAR_Open :: "USTAR \<Rightarrow> u8 list \<Rightarrow> OpenFile \<Rightarrow> int \<times> OpenFile" where
  "USTAR_Open us path file = (case USTAR_find us path of
       None \<Rightarrow> (- ENOENT, file)
     | Some i \<Rightarrow>
         (let type = uf_mode (us_files us ! i) AND S_IFMT in
          if type = S_IFLNK \<or> type = S_IFDIR then (- EINVAL, file) else (0, file\<lparr>of_handle := of_nat i\<rparr>)))"

text \<open>The loop of a read asks the device for 0 blocks each time.\<close>

partial_function (option) USTAR_Read_loop ::
  "BlockDevice \<Rightarrow> addr \<Rightarrow> addr \<Rightarrow> u64 \<Rightarrow> int \<Rightarrow> u64 \<Rightarrow> u64 \<Rightarrow> mem \<Rightarrow> mem option" where
  "USTAR_Read_loop dev buf buffer realsize i offset bufoff m =
     (if (of_int i :: u64) \<le> (offset + realsize - 1) div 512
      then
        (let m = snd (ReadBlock dev (of_int i) buf 0 m);
             m = memcpy m (buffer + bufoff) (buf + offset mod 512) (512 - offset mod 512);
             bufoff = (offset div 512 + 1) * 512 - offset
         in USTAR_Read_loop dev buf buffer realsize (s32 (i + 1)) (offset + bufoff) bufoff m)
      else Some m)"

definition USTAR_Read ::
  "USTAR \<Rightarrow> addr \<Rightarrow> addr \<Rightarrow> u64 \<Rightarrow> u64 \<Rightarrow> OpenFile \<Rightarrow> mem \<Rightarrow> (u64 \<times> mem) option" where
  "USTAR_Read us buf buffer cnt offset file m =
     (let f = us_files us ! unat (of_handle file);
          realsize = (if uf_size f - offset < cnt then uf_size f - offset else cnt) in do {
        m \<leftarrow> USTAR_Read_loop (us_block us) buf buffer realsize (s32 (uint (offset div 512))) offset 0 m;
        Some (realsize, m)
      })"

definition USTAR_Opendir :: "USTAR \<Rightarrow> u8 list \<Rightarrow> OpenFile \<Rightarrow> int \<times> OpenFile" where
  "USTAR_Opendir us path file =
     (if str_eq path root_path then (0, file\<lparr>of_handle := of_nat (length (us_files us))\<rparr>)
      else case USTAR_find us path of
          None \<Rightarrow> (- ENOENT, file)
        | Some i \<Rightarrow> if uf_mode (us_files us ! i) AND S_IFMT \<noteq> S_IFDIR then (- EINVAL, file)
                    else (0, file\<lparr>of_handle := of_nat i\<rparr>))"

text \<open>The names and the status passed to the callback, in order.\<close>

definition Readdir_child :: "u8 list \<Rightarrow> u8 list \<Rightarrow> bool" where
  "Readdir_child path name \<longleftrightarrow>
     strncmp (length path) (str_chars name) (str_chars path) = 0 \<and> str_chars name (length path) = Seperator \<and>
     (\<forall>j \<in> set [length path + 1 ..< length name]. name ! j \<noteq> Seperator)"

definition USTAR_Readdir :: "USTAR \<Rightarrow> u8 list \<Rightarrow> OpenFile \<Rightarrow> (u8 list \<times> Stat) list" where
  "USTAR_Readdir us path file =
     (let path = (if str_eq path root_path then drop 1 path else path) in
      concat (map (\<lambda>i. let f = us_files us ! i in
          if of_nat i = of_handle file \<or> \<not> Readdir_child path (uf_filename f) then []
          else [(drop (length path + 1) (uf_filename f), USTAR_Stat f)])
        [0..<length (us_files us)]))"

text \<open>Closing does nothing, and no operation that would write is supported.\<close>

definition USTAR_Close :: int where "USTAR_Close = 0"
definition USTAR_Write :: int where "USTAR_Write = - EROFS"

section \<open>Archives\<close>

text \<open>
  The format the reader expects, for the specification: an entry is a header of one block and the
  blocks of its content. Numbers are written with octal digits, strings are filled up with zeros; the
  fields the reader skips are arbitrary.
\<close>

record archive_entry =
  ae_name :: "u8 list"
  ae_mode :: nat
  ae_owner :: nat
  ae_group :: nat
  ae_mtime :: nat
  ae_checksum :: "u8 list"
  ae_type :: u8
  ae_linkname :: "u8 list"
  ae_names :: "u8 list"
  ae_prefix :: "u8 list"
  ae_content :: "u8 list"

fun octal :: "nat \<Rightarrow> nat \<Rightarrow> u8 list" where
  "octal 0 n = []"
| "octal (Suc k) n = octal k (n div 8) @ [0x30 + of_nat (n mod 8)]"

definition pad :: "nat \<Rightarrow> u8 list \<Rightarrow> u8 list" where
  "pad n s = s @ replicate (n - length s) 0"

definition ae_header :: "archive_entry \<Rightarrow> u8 list" where
  "ae_header e = pad 100 (ae_name e) @ octal 7 (ae_mode e) @ [0] @ octal 7 (ae_owner e) @ [0] @ octal 7 (ae_group e) @ [0] @
     octal 11 (length (ae_content e)) @ [0] @ octal 11 (ae_mtime e) @ [0] @ ae_checksum e @ [ae_type e] @
     pad 100 (ae_linkname e) @ USTAR_Magic @ [0] @ USTAR_Version @ ae_names e @ pad 155 (ae_prefix e) @ replicate 12 0"

fun content_blocks :: "u8 list \<Rightarrow> u8 list list" where
  "content_blocks c = (if c = [] then [] else pad 512 (take 512 c) # content_blocks (drop 512 c))"

declare content_blocks.simps [simp del]

definition entry_blocks :: "archive_entry \<Rightarrow> u8 list list" where
  "entry_blocks e = ae_header e # content_blocks (ae_content e)"

definition archive :: "archive_entry list \<Rightarrow> u8 list list" where
  "archive es = concat (map entry_blocks es)"

definition ae_regular :: "archive_entry \<Rightarrow> bool" where
  "ae_regular e \<longleftrightarrow> ae_type e = 0 \<or> ae_type e = USTAR_Type_NormalFile"

definition ae_ok :: "archive_entry \<Rightarrow> bool" where
  "ae_ok e \<longleftrightarrow> length (ae_name e) < 100 \<and> length (ae_linkname e) < 100 \<and> length (ae_prefix e) < 155 \<and>
     0 \<notin> set (ae_name e) \<and> 0 \<notin> set (ae_linkname e) \<and> 0 \<notin> set (ae_prefix e) \<and>
     length (ae_checksum e) = 8 \<and> length (ae_names e) = 80 \<and>
     ae_mode e < 8 ^ 7 \<and> ae_owner e < 8 ^ 7 \<and> ae_group e < 8 ^ 7 \<and> ae_mtime e < 8 ^ 11 \<and>
     length (ae_content e) < 8 ^ 11 \<and> (ae_content e \<noteq> [] \<longrightarrow> ae_regular e)"

text \<open>
  The absolute path of an entry, as the format defines it: a prefix that is not empty stands before the
  name, with a separator between the two; the separator at the end of a directory's name is dropped.
\<close>

definition archive_name :: "archive_entry \<Rightarrow> u8 list" where
  "archive_name e = (let name = Seperator # (if ae_prefix e = [] then ae_name e else ae_prefix e @ Seperator # ae_name e) in
     if last name = Seperator then butlast name else name)"

text \<open>
  The reader joins the two without the separator, so that it gets the name right only for entries
  without a prefix (lemma \<open>ustar_filename_joined\<close>).
\<close>

definition no_prefixes :: "archive_entry list \<Rightarrow> bool" where
  "no_prefixes es \<longleftrightarrow> (\<forall>e \<in> set es. ae_prefix e = [])"

text \<open>
  The file the reader makes of an entry. Its mode is masked with the bits of the type and not joined
  with them, which leaves no bit for the known types but the hard link.
\<close>

definition archive_file :: "nat \<Rightarrow> archive_entry \<Rightarrow> USTAR_File" where
  "archive_file i e =
     \<lparr>uf_offset = of_nat (i + 1), uf_filename = archive_name e,
      uf_linkname = (if ae_type e = USTAR_Type_SymbolicLink then Some (ae_linkname e) else None),
      uf_size = of_nat (length (ae_content e)), uf_lastmodify = of_nat (ae_mtime e),
      uf_mode = (if ae_type e = 0 \<or> ae_type e \<in> {USTAR_Type_NormalFile, USTAR_Type_SymbolicLink,
          USTAR_Type_CharacterDevice, USTAR_Type_BlockDevice, USTAR_Type_Directory, USTAR_Type_FIFO}
        then 0 else of_nat (ae_mode e) AND 0x1FF),
      uf_owner = of_nat (ae_owner e), uf_group = of_nat (ae_group e)\<rparr>"

fun archive_files :: "nat \<Rightarrow> archive_entry list \<Rightarrow> USTAR_File list" where
  "archive_files i [] = []"
| "archive_files i (e # es) = archive_file i e # archive_files (i + length (entry_blocks e)) es"

subsection \<open>Numbers and fields\<close>

lemma length_octal [simp]: "length (octal k n) = k"
  by (induction k arbitrary: n) simp_all

lemma octal_digit: "d < 8 \<Longrightarrow> (0x30 + of_nat d :: u8) \<noteq> 0 \<and> scast (0x30 + of_nat d :: u8) - 0x30 = (of_nat d :: u64)"
proof -
  assume "d < 8"
  then have "d \<in> {0, 1, 2, 3, 4, 5, 6, 7}" by auto
  then show ?thesis by auto
qed

lemma octal_not_0: "0 \<notin> set (octal k n)"
proof (induction k arbitrary: n)
  case (Suc k)
  with octal_digit [of "n mod 8"] show ?case by auto
qed simp

lemma decode_octal: "n < 8 ^ k \<Longrightarrow> foldl decode_octet v (octal k n) = v * 8 ^ k + of_nat n"
proof (induction k arbitrary: n)
  case (Suc k)
  have "n div 8 < 8 ^ k" using Suc.prems by (simp add: less_mult_imp_div_less mult.commute)
  note IH = Suc.IH [OF this]
  have "(of_nat (n div 8) * 8 + of_nat (n mod 8) :: u64) = of_nat (n div 8 * 8 + n mod 8)" by (simp only: of_nat_add of_nat_mult) simp
  then have n: "(of_nat (n div 8) * 8 + of_nat (n mod 8) :: u64) = of_nat n" by simp
  have "foldl decode_octet v (octal (Suc k) n) = (v * 8 ^ k + of_nat (n div 8)) * 8 + (scast (0x30 + of_nat (n mod 8) :: u8) - 0x30)"
    by (simp only: octal.simps foldl_append foldl_Cons foldl_Nil IH) (simp add: decode_octet_def)
  also have "\<dots> = v * 8 ^ Suc k + (of_nat (n div 8) * 8 + of_nat (n mod 8))"
    using octal_digit [of "n mod 8"] by (simp add: distrib_right mult.assoc mult.commute)
  finally show ?case unfolding n .
qed simp

lemma length_ae_header: "ae_ok e \<Longrightarrow> length (ae_header e) = 512"
  by (simp add: ae_header_def ae_ok_def pad_def USTAR_Magic_def USTAR_Version_def)

lemma store_bytes_nth:
  "k < length bs \<Longrightarrow> length bs < 2 ^ 64 \<Longrightarrow> store_bytes m p bs (p + of_nat k) = bs ! k"
  by (simp add: store_bytes_def of_nat_less_word unat_of_nat_u64)

lemma stored_field:
  assumes "bs = A @ s @ 0 # B" and "length A = off" and "0 \<notin> set s" and "length bs < 2 ^ 64"
  shows "cstring_at (store_bytes m p bs) (p + of_nat off) s"
proof -
  have at: "store_bytes m p bs (p + of_nat off + of_nat i) = bs ! (off + i)" if "i \<le> length s" for i
  proof -
    have "off + i < length bs" using assms(1, 2) that by simp
    from store_bytes_nth [OF this assms(4), of m p] show ?thesis by (simp add: add.assoc)
  qed
  have "bs ! (off + i) = s ! i" if "i < length s" for i using assms(1, 2) that by (auto simp: nth_append)
  moreover have "bs ! (off + length s) = 0" using assms(1, 2) by (auto simp: nth_append)
  ultimately show ?thesis
    using at assms(3) by (auto simp: cstring_at_def intro!: nth_equalityI)
qed

lemma pad_split: "length s < n \<Longrightarrow> pad n s = s @ 0 # replicate (n - length s - 1) 0"
  by (simp add: pad_def replicate_Suc [symmetric] Suc_diff_Suc del: replicate_Suc)

text \<open>The header as it lies in the buffer.\<close>

lemma header_strings:
  assumes "ae_ok e"
  shows "cstring_at (store_bytes m buf (ae_header e)) (meta buf ''filename'') (ae_name e)"
    and "cstring_at (store_bytes m buf (ae_header e)) (meta buf ''linkname'') (ae_linkname e)"
    and "cstring_at (store_bytes m buf (ae_header e)) (meta buf ''magic'') USTAR_Magic"
    and "cstring_at (store_bytes m buf (ae_header e)) (meta buf ''prefix'') (ae_prefix e)"
proof -
  note l = length_ae_header [OF assms]
  note f = stored_field [OF _ _ _ order.strict_trans1 [OF eq_refl [OF l]], of _ _ _ _ m buf]
  have z: "0 \<notin> set (ae_name e)" "0 \<notin> set (ae_linkname e)" "0 \<notin> set (ae_prefix e)" "0 \<notin> set USTAR_Magic"
    using assms by (simp_all add: ae_ok_def USTAR_Magic_def)
  let ?A = "pad 100 (ae_name e) @ octal 7 (ae_mode e) @ [0] @ octal 7 (ae_owner e) @ [0] @ octal 7 (ae_group e) @ [0] @
     octal 11 (length (ae_content e)) @ [0] @ octal 11 (ae_mtime e) @ [0] @ ae_checksum e @ [ae_type e]"
  have p: "pad 100 (ae_name e) = ae_name e @ 0 # replicate (100 - length (ae_name e) - 1) 0"
    "pad 100 (ae_linkname e) = ae_linkname e @ 0 # replicate (100 - length (ae_linkname e) - 1) 0"
    "pad 155 (ae_prefix e) = ae_prefix e @ 0 # replicate (155 - length (ae_prefix e) - 1) 0"
    using assms by (simp_all add: ae_ok_def pad_split)
  have len: "length (pad 100 (ae_name e)) = 100" "length (pad 100 (ae_linkname e)) = 100" "length (ae_checksum e) = 8"
    "length (ae_names e) = 80" using assms by (simp_all add: ae_ok_def pad_def)
  note off = offsetof_def sizeof_def USTAR_Metadata_def
  show "cstring_at (store_bytes m buf (ae_header e)) (meta buf ''filename'') (ae_name e)"
    by (rule f [where A = "[]"]) (simp_all add: ae_header_def p(1) z off)
  show "cstring_at (store_bytes m buf (ae_header e)) (meta buf ''linkname'') (ae_linkname e)"
    by (rule f [where A = ?A]) (simp_all add: ae_header_def p(2) z off len)
  show "cstring_at (store_bytes m buf (ae_header e)) (meta buf ''magic'') USTAR_Magic"
    by (rule f [where A = "?A @ pad 100 (ae_linkname e)"]) (simp_all add: ae_header_def z off len)
  show "cstring_at (store_bytes m buf (ae_header e)) (meta buf ''prefix'') (ae_prefix e)"
    by (rule f [where A = "?A @ pad 100 (ae_linkname e) @ USTAR_Magic @ [0] @ USTAR_Version @ ae_names e"])
      (simp_all add: ae_header_def p(3) z off len, simp add: USTAR_Magic_def USTAR_Version_def)
qed

lemma header_numbers:
  assumes "ae_ok e"
  shows "cstring_at (store_bytes m buf (ae_header e)) (meta buf ''filemode'') (octal 7 (ae_mode e))"
    and "cstring_at (store_bytes m buf (ae_header e)) (meta buf ''owner'') (octal 7 (ae_owner e))"
    and "cstring_at (store_bytes m buf (ae_header e)) (meta buf ''group'') (octal 7 (ae_group e))"
    and "cstring_at (store_bytes m buf (ae_header e)) (meta buf ''size'') (octal 11 (length (ae_content e)))"
    and "cstring_at (store_bytes m buf (ae_header e)) (meta buf ''lastmodify'') (octal 11 (ae_mtime e))"
proof -
  note l = length_ae_header [OF assms]
  note f = stored_field [OF _ _ octal_not_0 order.strict_trans1 [OF eq_refl [OF l]], of _ _ _ _ _ m buf]
  have len: "length (pad 100 (ae_name e)) = 100" using assms by (simp add: ae_ok_def pad_def)
  note off = offsetof_def sizeof_def USTAR_Metadata_def
  let ?A = "pad 100 (ae_name e)"
  show "cstring_at (store_bytes m buf (ae_header e)) (meta buf ''filemode'') (octal 7 (ae_mode e))"
    by (rule f [where A = ?A]) (simp_all add: ae_header_def off len)
  show "cstring_at (store_bytes m buf (ae_header e)) (meta buf ''owner'') (octal 7 (ae_owner e))"
    by (rule f [where A = "?A @ octal 7 (ae_mode e) @ [0]"]) (simp_all add: ae_header_def off len)
  show "cstring_at (store_bytes m buf (ae_header e)) (meta buf ''group'') (octal 7 (ae_group e))"
    by (rule f [where A = "?A @ octal 7 (ae_mode e) @ [0] @ octal 7 (ae_owner e) @ [0]"]) (simp_all add: ae_header_def off len)
  show "cstring_at (store_bytes m buf (ae_header e)) (meta buf ''size'') (octal 11 (length (ae_content e)))"
    by (rule f [where A = "?A @ octal 7 (ae_mode e) @ [0] @ octal 7 (ae_owner e) @ [0] @ octal 7 (ae_group e) @ [0]"])
      (simp_all add: ae_header_def off len)
  show "cstring_at (store_bytes m buf (ae_header e)) (meta buf ''lastmodify'') (octal 11 (ae_mtime e))"
    by (rule f [where A = "?A @ octal 7 (ae_mode e) @ [0] @ octal 7 (ae_owner e) @ [0] @ octal 7 (ae_group e) @ [0] @
        octal 11 (length (ae_content e)) @ [0]"]) (simp_all add: ae_header_def off len)
qed

lemma decodeOctets_octal:
  assumes "cstring_at m p (octal k n)" "n < 8 ^ k" "k < 2 ^ 64"
  shows "decodeOctets m p 0 = Some (of_nat n)"
proof -
  have "bytes_at m p k = octal k n" using assms(1) by (simp add: cstring_at_def)
  then show ?thesis
    using strlen_cstring [OF assms(1), of 0] decode_octal [OF assms(2), of 0] unat_of_nat_u64 [OF assms(3)]
    by (simp add: decodeOctets_def)
qed


lemma stored_byte:
  assumes "bs = A @ s @ B" and "length A = off" and "i < length s" and "length bs < 2 ^ 64"
  shows "store_bytes m p bs (p + of_nat off + of_nat i) = s ! i"
  using store_bytes_nth [of "off + i" bs m p] assms by (simp add: nth_append add.assoc)

lemma header_bytes:
  assumes "ae_ok e"
  shows "store_bytes m buf (ae_header e) (meta buf ''type'') = ae_type e"
    and "i < 2 \<Longrightarrow> mem_chars (store_bytes m buf (ae_header e)) (meta buf ''version'') i = USTAR_Version ! i"
proof -
  note stored = stored_byte [OF _ _ _ order.strict_trans1 [OF eq_refl [OF length_ae_header [OF assms]]], of _ _ _ _ _ m buf]
  let ?A = "pad 100 (ae_name e) @ octal 7 (ae_mode e) @ [0] @ octal 7 (ae_owner e) @ [0] @ octal 7 (ae_group e) @ [0] @
     octal 11 (length (ae_content e)) @ [0] @ octal 11 (ae_mtime e) @ [0] @ ae_checksum e"
  have len: "length (pad 100 (ae_name e)) = 100" "length (pad 100 (ae_linkname e)) = 100" "length (ae_checksum e) = 8"
    using assms by (simp_all add: ae_ok_def pad_def)
  note off = offsetof_def sizeof_def USTAR_Metadata_def
  have "store_bytes m buf (ae_header e) (buf + of_nat 156 + of_nat 0) = [ae_type e] ! 0"
    by (rule stored [where A = ?A]) (simp_all add: ae_header_def len)
  then show "store_bytes m buf (ae_header e) (meta buf ''type'') = ae_type e" by (simp add: off)
  assume "i < 2"
  then have "store_bytes m buf (ae_header e) (buf + of_nat 263 + of_nat i) = USTAR_Version ! i"
    by (intro stored [where A = "?A @ [ae_type e] @ pad 100 (ae_linkname e) @ USTAR_Magic @ [0]"])
      (simp_all add: ae_header_def len USTAR_Magic_def USTAR_Version_def)
  then show "mem_chars (store_bytes m buf (ae_header e)) (meta buf ''version'') i = USTAR_Version ! i"
    by (simp add: off mem_chars_def)
qed

lemma ustar_magic_header:
  assumes "ae_ok e"
  shows "ustar_magic (store_bytes m buf (ae_header e)) buf"
proof -
  have z: "0 \<notin> set USTAR_Magic" by (simp add: USTAR_Magic_def)
  have "strcmp (mem_chars (store_bytes m buf (ae_header e)) (meta buf ''magic'')) (str_chars USTAR_Magic) =
      strcmp (str_chars USTAR_Magic) (str_chars USTAR_Magic)"
    using cstring_at_chars [OF header_strings(3) [OF assms]] by (intro strcmp_cong z)
  moreover have "strncmp 2 (mem_chars (store_bytes m buf (ae_header e)) (meta buf ''version'')) (str_chars USTAR_Version) = 0"
    using header_bytes(2) [OF assms, of 0 m buf] header_bytes(2) [OF assms, of 1 m buf]
    by (simp add: numeral_2_eq_2 USTAR_Version_def)
  ultimately show ?thesis using strcmp_strings [OF z z] by (simp add: ustar_magic_def)
qed

lemma ustar_filename_joined:
  assumes "ae_ok e"
  shows "ustar_filename (store_bytes m buf (ae_header e)) buf = Some (let name = Seperator # ae_prefix e @ ae_name e in
     if last name = Seperator then butlast name else name)"
proof -
  have n: "cstr (store_bytes m buf (ae_header e)) (meta buf ''filename'') = Some (ae_name e)"
    "cstr (store_bytes m buf (ae_header e)) (meta buf ''prefix'') = Some (ae_prefix e)"
    using header_strings [OF assms] assms by (auto intro!: cstr_cstring simp: ae_ok_def)
  have last: "last xs = xs ! k" "butlast xs = take k xs" if "length xs = Suc k" for xs :: "u8 list" and k
    using that by (simp_all add: last_conv_nth butlast_conv_take length_0_conv [symmetric] del: length_0_conv)
  let ?x = "Seperator # ae_prefix e @ ae_name e"
  have "length ?x = Suc (length (ae_name e) + length (ae_prefix e))" by simp
  note last = last [OF this]
  show ?thesis unfolding ustar_filename_def last Let_def n by simp
qed

lemma ustar_filename_header:
  assumes "ae_ok e" and "ae_prefix e = []"
  shows "ustar_filename (store_bytes m buf (ae_header e)) buf = Some (archive_name e)"
  using ustar_filename_joined [OF assms(1)] assms(2) by (simp add: archive_name_def)

lemma ustar_file_header:
  assumes "ae_ok e" and "ae_prefix e = []"
  shows "ustar_file (store_bytes m buf (ae_header e)) buf (int i) = Some (archive_file i e)"
proof -
  note h = header_numbers [OF assms(1), of m buf]
  have d: "decodeOctets (store_bytes m buf (ae_header e)) (meta buf ''filemode'') 0 = Some (of_nat (ae_mode e))"
    "decodeOctets (store_bytes m buf (ae_header e)) (meta buf ''owner'') 0 = Some (of_nat (ae_owner e))"
    "decodeOctets (store_bytes m buf (ae_header e)) (meta buf ''group'') 0 = Some (of_nat (ae_group e))"
    "decodeOctets (store_bytes m buf (ae_header e)) (meta buf ''size'') 0 = Some (of_nat (length (ae_content e)))"
    "decodeOctets (store_bytes m buf (ae_header e)) (meta buf ''lastmodify'') 0 = Some (of_nat (ae_mtime e))"
    using assms by (auto intro!: decodeOctets_octal [OF h(1)] decodeOctets_octal [OF h(2)] decodeOctets_octal [OF h(3)]
        decodeOctets_octal [OF h(4)] decodeOctets_octal [OF h(5)] simp: ae_ok_def)
  have link: "cstr (store_bytes m buf (ae_header e)) (meta buf ''linkname'') = Some (ae_linkname e)"
    using header_strings(2) [OF assms(1)] assms by (intro cstr_cstring) (simp_all add: ae_ok_def)
  have u: "ucast (of_nat n :: u64) = (of_nat n :: u16)" for n by (simp add: unsigned_of_nat word_of_nat_eq_iff)
  have sz: "\<not> ae_regular e \<Longrightarrow> ae_content e = []" using assms by (simp add: ae_ok_def)
  have z: "(x AND 0x1FF) AND t = 0" if "t \<in> {S_IFREG, S_IFLNK, S_IFCHR, S_IFBLK, S_IFDIR, S_IFIFO}" for x t :: u16
    using that by (auto simp: file_types and.assoc)
  show ?thesis
    unfolding ustar_file_def d link ustar_filename_header [OF assms] header_bytes(1) [OF assms(1)]
    using sz by (auto simp: u z archive_file_def ae_regular_def ustar_types)
qed


subsection \<open>The walk over the blocks\<close>

lemma length_content_blocks: "length (content_blocks c) = (length c + 511) div 512"
proof (induction c rule: content_blocks.induct)
  case (1 c)
  have small: "(length c + 511) div 512 = 1" if "c \<noteq> []" "length c \<le> 512" using that by (cases c) simp_all
  have "(length c + 511) div 512 = Suc ((length c - 512 + 511) div 512)" if "512 < length c"
    using that by (auto simp: div_if [of "length c + 511"])
  with 1 small show ?case
    by (cases "c = []"; cases "length c \<le> 512") (auto simp: content_blocks.simps [of c] content_blocks.simps [of "[]"])
qed

lemma unat_block_index: "i \<le> unat (w :: u64) \<Longrightarrow> unat (of_int (int i) :: u64) = i"
  using unat_lt_u64 [of w] by (simp only: of_int_of_nat_eq) (rule unat_of_nat_u64, linarith)

lemma roundupBlocks_512: "n < 2 ^ 63 \<Longrightarrow> roundupBlocks 512 (of_nat n) = of_nat ((n + 511) div 512)"
proof -
  assume n: "n < 2 ^ 63"
  have "of_nat n + 512 - 1 = (of_nat (n + 511) :: u64)" by simp
  moreover have "unat (of_nat (n + 511) :: u64) = n + 511" using n by (intro unat_of_nat_u64) simp
  ultimately have "unat (roundupBlocks 512 (of_nat n)) = (n + 511) div 512" by (simp only: roundupBlocks_def unat_div) simp
  then show ?thesis by (metis of_nat_unat ucast_id)
qed

lemma ustar_magic_zero: "\<not> ustar_magic (store_bytes m buf (replicate 512 0)) buf"
proof -
  have "store_bytes m buf (replicate 512 0) (buf + of_nat 257) = 0"
    by (subst store_bytes_nth) simp_all
  then have "mem_chars (store_bytes m buf (replicate 512 0)) (meta buf ''magic'') 0 = 0"
    by (simp add: mem_chars_def offsetof_def sizeof_def USTAR_Metadata_def)
  then show ?thesis by (simp add: ustar_magic_def strcmp.simps USTAR_Magic_def)
qed

lemma archive_Cons [simp]: "archive (e # es) = entry_blocks e @ archive es"
  by (simp add: archive_def)

lemma archive_Nil [simp]: "archive [] = []"
  by (simp add: archive_def)

text \<open>A device with an archive from block \<open>i\<close> on; what follows it is a block of zeros, or the end.\<close>

definition holds_archive :: "BlockDevice \<Rightarrow> mem \<Rightarrow> nat \<Rightarrow> archive_entry list \<Rightarrow> bool" where
  "holds_archive dev m i es \<longleftrightarrow>
     dev_ok dev \<and> dev_readable dev \<and> BlockSize dev = 512 \<and> unat (device_Size dev) < 2 ^ 31 \<and>
     (\<forall>e \<in> set es. ae_ok e) \<and> i + length (archive es) \<le> unat (device_Size dev) \<and>
     (\<forall>j < length (archive es). dev_block dev m (i + j) = archive es ! j) \<and>
     (i + length (archive es) = unat (device_Size dev) \<or> dev_block dev m (i + length (archive es)) = replicate 512 0)"

definition apart_from :: "BlockDevice \<Rightarrow> addr \<Rightarrow> bool" where
  "apart_from dev buf \<longleftrightarrow> (\<forall>a. \<not> (dev_holds dev a \<and> in_block a buf 512))"

lemma holds_archive_cong:
  assumes "holds_archive dev m i es" and "\<And>a. dev_holds dev a \<Longrightarrow> m' a = m a"
  shows "holds_archive dev m' i es"
proof -
  have "dev_block dev m' j = dev_block dev m j" if "j < unat (device_Size dev)" for j
    using assms that by (intro bd.block_cong) (auto simp: holds_archive_def)
  with assms(1) show ?thesis by (auto simp: holds_archive_def order_le_less)
qed

lemma holds_archive_Cons:
  assumes "holds_archive dev m i (e # es)"
  shows "ae_ok e" "i < unat (device_Size dev)" "dev_block dev m i = ae_header e"
    "holds_archive dev m (i + length (entry_blocks e)) es"
proof -
  let ?k = "length (entry_blocks e)"
  show "ae_ok e" using assms by (simp add: holds_archive_def)
  show "i < unat (device_Size dev)" using assms by (auto simp: holds_archive_def entry_blocks_def)
  have b: "dev_block dev m (i + j) = archive (e # es) ! j" if "j < length (archive (e # es))" for j
    using assms that by (simp add: holds_archive_def)
  show "dev_block dev m i = ae_header e" using b [of 0] by (simp add: entry_blocks_def)
  have "dev_block dev m (i + ?k + j) = archive es ! j" if "j < length (archive es)" for j
    using b [of "?k + j"] that by (simp add: add.assoc)
  then show "holds_archive dev m (i + ?k) es" using assms by (simp add: holds_archive_def add.assoc)
qed

lemma read_header:
  assumes "holds_archive dev m i es" "apart_from dev buf" "i < unat (device_Size dev)"
  shows "snd (ReadBlock dev (of_int (int i)) buf 1 m) = store_bytes m buf (dev_block dev m i)"
    and "holds_archive dev (store_bytes m buf (dev_block dev m i)) i es"
    and "\<not> in_block a buf 512 \<Longrightarrow> store_bytes m buf (dev_block dev m i) a = m a"
proof -
  have dev: "dev_ok dev" "dev_readable dev" "BlockSize dev = 512" using assms(1) by (simp_all add: holds_archive_def)
  note i = unat_block_index [OF less_imp_le [OF assms(3)]]
  show "snd (ReadBlock dev (of_int (int i)) buf 1 m) = store_bytes m buf (dev_block dev m i)"
    using bd.read_one [OF dev(1, 2), of "of_int (int i)" buf m] assms(3) unfolding i by simp
  have l: "of_nat (length (dev_block dev m i)) = (512 :: u64)" using bd.block_length [of dev m i] dev(3) by simp
  show *: "store_bytes m buf (dev_block dev m i) a = m a" if "\<not> in_block a buf 512" for a
    using that l by (intro store_bytes_outside) simp
  show "holds_archive dev (store_bytes m buf (dev_block dev m i)) i es"
    using assms(2) * by (intro holds_archive_cong [OF assms(1)]) (auto simp: apart_from_def)
qed

lemma AllocateBlock_loop_archive:
  assumes "holds_archive dev m i es" "apart_from dev buf" "es = [] \<longrightarrow> 0 < i" "no_prefixes es"
  shows "\<exists>m'. AllocateBlock_loop dev buf (int i) files m = Some (Some (files @ archive_files i es), m') \<and>
    (\<forall>a. in_block a buf 512 \<or> m' a = m a)"
  using assms
proof (induction es arbitrary: m i files)
  case Nil
  have size: "of_int (int i) < device_Size dev \<longleftrightarrow> i < unat (device_Size dev)" if "i \<le> unat (device_Size dev)" for i
    unfolding word_less_nat_alt unat_block_index [OF that] ..
  have i: "i \<le> unat (device_Size dev)" using Nil.prems(1) by (simp add: holds_archive_def)
  show ?case
  proof (cases "i < unat (device_Size dev)")
    case True
    then have "dev_block dev m i = replicate 512 0" using Nil.prems(1) by (simp add: holds_archive_def)
    with read_header [OF Nil.prems(1, 2) True] ustar_magic_zero Nil.prems(3) size [OF i] True show ?thesis
      by (subst AllocateBlock_loop.simps) auto
  next
    case False
    with size [OF i] show ?thesis by (subst AllocateBlock_loop.simps) auto
  qed
next
  case (Cons e es)
  note h = holds_archive_Cons [OF Cons.prems(1)]
  let ?m = "store_bytes m buf (ae_header e)" and ?k = "length (entry_blocks e)"
  note r = read_header [OF Cons.prems(1, 2) h(2), unfolded h(3)]
  have next_ok: "holds_archive dev ?m (i + ?k) es" using holds_archive_Cons(4) [OF r(2)] .
  have size: "unat (device_Size dev) < 2 ^ 31" using Cons.prems(1) by (simp add: holds_archive_def)
  have i: "(of_int (int i) :: u64) < device_Size dev"
    unfolding word_less_nat_alt unat_block_index [OF less_imp_le [OF h(2)]] by (rule h(2))
  have ik: "i + ?k < 2 ^ 31" using next_ok size by (simp add: holds_archive_def)
  have "length (ae_content e) < 2 ^ 63" using h(1) by (simp add: ae_ok_def)
  from roundupBlocks_512 [OF this]
  have "(of_int (int i) :: u64) + (roundupBlocks 512 (uf_size (archive_file i e)) + 1) = of_nat (i + ?k)"
    by (simp add: archive_file_def entry_blocks_def length_content_blocks)
  moreover have "uint (of_nat (i + ?k) :: u64) = int (i + ?k)"
    using unat_of_nat_u64 [OF order.strict_trans [OF ik]] by (simp only: uint_nat) simp
  ultimately have step: "s32 (uint ((of_int (int i) :: u64) + (roundupBlocks 512 (uf_size (archive_file i e)) + 1))) = int (i + ?k)"
    using s32_int [of "i + ?k"] ik by simp
  obtain m' where m': "AllocateBlock_loop dev buf (int (i + ?k)) (files @ [archive_file i e]) ?m =
      Some (Some ((files @ [archive_file i e]) @ archive_files (i + ?k) es), m')" "\<forall>a. in_block a buf 512 \<or> m' a = ?m a"
    using Cons.IH [OF next_ok Cons.prems(2), of "files @ [archive_file i e]"] Cons.prems(4)
    by (auto simp: entry_blocks_def no_prefixes_def)
  have "ae_prefix e = []" using Cons.prems(4) by (simp add: no_prefixes_def)
  note hdr = ustar_file_header [OF h(1) this]
  have "AllocateBlock_loop dev buf (int i) files m = AllocateBlock_loop dev buf (int (i + ?k)) (files @ [archive_file i e]) ?m"
    using i r(1) ustar_magic_header [OF h(1)] hdr
    by (subst AllocateBlock_loop.simps) (simp only: Let_def if_True step not_True_eq_False if_False bind.bind_lunit)
  with m' r(3) show ?case by fastforce
qed


text \<open>A block that is no header at the start: no file system.\<close>

lemma AllocateBlock_not_tar:
  assumes "dev_ok dev" "dev_readable dev" "BlockSize dev = 512" "0 < device_Size dev"
    and "\<not> ustar_magic (store_bytes m buf (dev_block dev m 0)) buf"
  shows "USTAR_AllocateBlock dev buf m = Some (None, store_bytes m buf (dev_block dev m 0))"
  using bd.read_one [OF assms(1, 2), of 0 buf m] assms
  by (subst USTAR_AllocateBlock_def, subst AllocateBlock_loop.simps) (simp add: word_less_nat_alt)

subsection \<open>Names\<close>

lemma archive_name_no_zero: "ae_ok e \<Longrightarrow> 0 \<notin> set (archive_name e)"
  by (auto simp: archive_name_def ae_ok_def Let_def Seperator_def dest!: in_set_butlastD)

lemma archive_files_no_zero: "\<forall>e \<in> set es. ae_ok e \<Longrightarrow> f \<in> set (archive_files i es) \<Longrightarrow> 0 \<notin> set (uf_filename f)"
  by (induction es arbitrary: i) (auto simp: archive_file_def archive_name_no_zero)

text \<open>No file keeps its type: nothing but the root opens as a directory, and no link can be read.\<close>

lemma archive_file_no_type: "uf_mode (archive_file i e) AND S_IFMT = 0"
  by (simp add: archive_file_def file_types and.assoc)

lemma archive_files_no_type: "f \<in> set (archive_files i es) \<Longrightarrow> uf_mode f AND S_IFMT = 0"
  by (induction es arbitrary: i) (auto simp: archive_file_no_type)

lemma USTAR_find_in: "USTAR_find us path = Some i \<Longrightarrow> us_files us ! i \<in> set (us_files us)"
  by (auto simp: USTAR_find_def find_Some_iff)

lemma archive_Opendir:
  assumes "us_files us = archive_files 0 es" and "\<not> str_eq path root_path"
  shows "fst (USTAR_Opendir us path file) < 0"
  using assms archive_files_no_type [OF USTAR_find_in [of us path, unfolded assms(1)]]
  by (auto simp: USTAR_Opendir_def error_numbers S_IFDIR_def split: option.split)

lemma archive_Readlink: "us_files us = archive_files 0 es \<Longrightarrow> fst (USTAR_Readlink us link n) < 0"
  using archive_files_no_type [of _ 0 es] USTAR_find_in [of us link]
  by (auto simp: USTAR_Readlink_def error_numbers S_IFLNK_def split: option.split)

text \<open>The test of the directory listing is the relation between a path and its children.\<close>

lemma Readdir_child_iff:
  assumes "0 \<notin> set path" "0 \<notin> set name"
  shows "Readdir_child path name \<longleftrightarrow> (\<exists>n. name = path @ Seperator # n \<and> Seperator \<notin> set n)"
proof
  assume child: "Readdir_child path name"
  then have "take (length path) name = path"
    using strncmp_strings [OF assms(2, 1), of "length path"] by (simp add: Readdir_child_def)
  moreover have "length path < length name \<and> name ! length path = Seperator"
    using child by (auto simp: Readdir_child_def str_chars_def Seperator_def split: if_splits)
  ultimately have "name = path @ Seperator # drop (Suc (length path)) name"
    using id_take_nth_drop [of "length path" name] by simp
  moreover have "Seperator \<notin> set (drop (Suc (length path)) name)"
    using child by (fastforce simp: Readdir_child_def in_set_conv_nth)
  ultimately show "\<exists>n. name = path @ Seperator # n \<and> Seperator \<notin> set n" by blast
next
  assume "\<exists>n. name = path @ Seperator # n \<and> Seperator \<notin> set n"
  then obtain n where n: "name = path @ Seperator # n" "Seperator \<notin> set n" by blast
  have "name ! j \<noteq> Seperator" if "length path + 1 \<le> j" "j < length name" for j
  proof -
    from n that have "name ! j = n ! (j - Suc (length path))" "j - Suc (length path) < length n"
      by (auto simp: nth_append nth_Cons')
    with n(2) show ?thesis using nth_mem by metis
  qed
  then have "\<forall>j \<in> set [length path + 1 ..< length name]. name ! j \<noteq> Seperator" by simp
  moreover have "str_chars name (length path) = Seperator" using n(1) by (simp add: str_chars_def)
  moreover have "strncmp (length path) (str_chars name) (str_chars path) = 0"
    using n(1) strncmp_strings [OF assms(2, 1), of "length path"] by simp
  ultimately show "Readdir_child path name" by (simp only: Readdir_child_def simp_thms)
qed

lemma concat_map_filter: "concat (map (\<lambda>x. if P x then [g x] else []) xs) = map g (filter P xs)"
  by (induction xs) simp_all

lemma USTAR_Readdir_filter:
  assumes "\<forall>f \<in> set (us_files us). 0 \<notin> set (uf_filename f)" and "0 \<notin> set path" and "length (us_files us) < 2 ^ 64"
    and "snd (USTAR_Opendir us path file0) = file" and "fst (USTAR_Opendir us path file0) = 0"
  shows "USTAR_Readdir us path file =
    (let dir = (if path = root_path then [] else path) in
      map (\<lambda>f. (drop (length dir + 1) (uf_filename f), USTAR_Stat f))
        (filter (\<lambda>f. \<exists>n. uf_filename f = dir @ Seperator # n \<and> Seperator \<notin> set n) (us_files us)))"
proof -
  define dir where "dir = (if path = root_path then [] else path)"
  let ?child = "\<lambda>f. \<exists>n. uf_filename f = dir @ Seperator # n \<and> Seperator \<notin> set n"
  have dir: "(if str_eq path root_path then drop 1 path else path) = dir"
    using str_eq_root [OF assms(2)] by (simp add: dir_def root_path_def)
  have handle: "\<not> ?child (us_files us ! i)" if "of_nat i = of_handle file" "i < length (us_files us)" for i
  proof (cases "path = root_path")
    case True
    then have "of_handle file = of_nat (length (us_files us))"
      using assms(4) str_eq_root [OF assms(2)] by (auto simp: USTAR_Opendir_def)
    with that assms(3) have False by (metis nat_neq_iff order.strict_trans unat_of_nat_u64)
    then show ?thesis ..
  next
    case False
    then obtain k where "USTAR_find us path = Some k" "of_handle file = of_nat k"
      using assms(4, 5) str_eq_root [OF assms(2)] by (auto simp: USTAR_Opendir_def error_numbers split: option.splits if_splits)
    then have k: "k < length (us_files us)" "str_eq (uf_filename (us_files us ! k)) path" "of_nat k = (of_nat i :: u64)"
      using that by (auto simp: USTAR_find_def find_Some_iff)
    then have "k = i" using assms(3) that(2) by (metis order.strict_trans unat_of_nat_u64)
    with k assms(1, 2) have "uf_filename (us_files us ! i) = path" by (metis nth_mem str_eq_iff)
    with False show ?thesis by (auto simp: dir_def)
  qed
  have "0 \<notin> set dir" using assms(2) by (simp add: dir_def)
  then have child: "Readdir_child dir (uf_filename (us_files us ! i)) = ?child (us_files us ! i)" if "i < length (us_files us)" for i
    using Readdir_child_iff assms(1) that by simp
  let ?g = "\<lambda>f. (drop (length dir + 1) (uf_filename f), USTAR_Stat f)"
  have "USTAR_Readdir us path file = concat (map (\<lambda>i. if ?child (us_files us ! i) then [?g (us_files us ! i)] else []) [0..<length (us_files us)])"
    unfolding USTAR_Readdir_def dir Let_def using handle child by (intro arg_cong [where f = concat] map_cong) auto
  also have "\<dots> = concat (map (\<lambda>f. if ?child f then [?g f] else []) (us_files us))"
    by (rule arg_cong [where f = concat], rule nth_equalityI) simp_all
  also have "\<dots> = map ?g (filter ?child (us_files us))" by (rule concat_map_filter)
  finally show ?thesis by (simp add: dir_def Let_def)
qed

lemma AllocateBlock_archive:
  assumes "holds_archive dev m 0 es" "es \<noteq> []" "apart_from dev buf" "no_prefixes es"
  obtains m' where "USTAR_AllocateBlock dev buf m = Some (Some \<lparr>us_files = archive_files 0 es, us_block = dev\<rparr>, m')"
    "\<forall>a. in_block a buf 512 \<or> m' a = m a"
  using AllocateBlock_loop_archive [OF assms(1, 3), of "[]"] assms(2,4) by (auto simp: USTAR_AllocateBlock_def)

section \<open>The properties\<close>

text \<open>
  C13: Reading, with a buffer apart from it, a device that holds a tar archive whose entries have no prefix gives the files of the
  archive in its order, each with its path, its link target, the size and the position of its content, its time and
  its owner; of its mode nothing is left for the known types but the hard link. The reading ends at
  the block of zeros behind the archive or at the end of the device, and changes no memory but its
  buffer. Names and link targets shorter than their fields are covered.
\<close>

theorem USTAR_AllocateBlock_archive:
  assumes "holds_archive dev m 0 es" "es \<noteq> []" "apart_from dev buf" "no_prefixes es"
  shows "\<exists>m'. USTAR_AllocateBlock dev buf m = Some (Some \<lparr>us_files = archive_files 0 es, us_block = dev\<rparr>, m') \<and>
    (\<forall>a. in_block a buf 512 \<or> m' a = m a)"
  using AllocateBlock_archive [OF assms] by metis

definition demo_entry :: archive_entry where
  "demo_entry = \<lparr>ae_name = [0x61], ae_mode = 0x1A4, ae_owner = 1, ae_group = 2, ae_mtime = 3, ae_checksum = replicate 8 0,
     ae_type = USTAR_Type_NormalFile, ae_linkname = [], ae_names = replicate 80 0, ae_prefix = [], ae_content = [0x68, 0x69]\<rparr>"

definition demo_disk :: BlockDevice where
  "demo_disk = BlockDeviceRamdisk (Ramdisk_wrap 0x10000 512 2 PermRead)"

definition demo_mem :: mem where
  "demo_mem = store_bytes (\<lambda>_. 0) 0x10000 (concat (archive [demo_entry]))"

lemma demo_archive: "archive [demo_entry] = [ae_header demo_entry, pad 512 [0x68, 0x69]]"
  by (simp add: archive_def entry_blocks_def content_blocks.simps [of "[]"] content_blocks.simps [of "[0x68, 0x69]"] demo_entry_def)

lemma demo_holds: "holds_archive demo_disk demo_mem 0 [demo_entry]"
proof -
  have ok: "ae_ok demo_entry" by (simp add: ae_ok_def demo_entry_def ae_regular_def)
  note l = length_ae_header [OF ok]
  have "bytes_at demo_mem 0x10000 1024 = ae_header demo_entry @ pad 512 [0x68, 0x69]"
    using bytes_at_store_bytes [of "ae_header demo_entry @ pad 512 [0x68, 0x69]" "\<lambda>_. 0" "0x10000"] l
    unfolding demo_mem_def demo_archive by (simp add: pad_def)
  then have "bytes_at demo_mem 0x10000 512 = ae_header demo_entry" "bytes_at demo_mem 0x10200 512 = pad 512 [0x68, 0x69]"
    using bytes_at_add [of demo_mem "0x10000" 512 512] l by simp_all
  then have b: "dev_block demo_disk demo_mem 0 = ae_header demo_entry" "dev_block demo_disk demo_mem 1 = pad 512 [0x68, 0x69]"
    by (simp_all add: dev_block_def demo_disk_def Ramdisk_wrap_def)
  have "dev_ok demo_disk \<and> dev_readable demo_disk \<and> BlockSize demo_disk = 512 \<and> unat (device_Size demo_disk) = 2"
    by (simp add: demo_disk_def Ramdisk_wrap_def dev_readable_def PermRead_def)
  moreover have "dev_block demo_disk demo_mem j = archive [demo_entry] ! j" if "j < 2" for j
    using b less_2_cases [OF that] unfolding demo_archive by auto
  moreover have "length (archive [demo_entry]) = 2" by (simp only: demo_archive) simp
  ultimately show ?thesis using ok unfolding holds_archive_def by simp
qed

lemma demo_no_prefixes: "no_prefixes [demo_entry]"
  by (simp add: no_prefixes_def demo_entry_def)

lemma demo_apart: "apart_from demo_disk 0x2000"
  by (auto simp: apart_from_def dev_holds_def demo_disk_def Ramdisk_wrap_def in_block_def word_less_nat_alt unat_sub_if_size word_size
      split: if_splits)

theorem USTAR_AllocateBlock_archive_witness:
  "\<exists>m'. USTAR_AllocateBlock demo_disk 0x2000 demo_mem = Some (Some \<lparr>us_files =
      [\<lparr>uf_offset = 1, uf_filename = [0x2F, 0x61], uf_linkname = None, uf_size = 2, uf_lastmodify = 3, uf_mode = 0,
        uf_owner = 1, uf_group = 2\<rparr>], us_block = demo_disk\<rparr>, m') \<and>
    (\<forall>a. in_block a 0x2000 512 \<or> m' a = demo_mem a)"
proof -
  have "archive_files 0 [demo_entry] = [\<lparr>uf_offset = 1, uf_filename = [0x2F, 0x61], uf_linkname = None, uf_size = 2,
      uf_lastmodify = 3, uf_mode = 0, uf_owner = 1, uf_group = 2\<rparr>]"
    by (simp add: archive_file_def archive_name_def demo_entry_def Seperator_def ustar_types)
  then show ?thesis using USTAR_AllocateBlock_archive [OF demo_holds _ demo_apart demo_no_prefixes] by simp
qed

text \<open>
  C21: Listing an opened directory passes to the callback the direct children of the directory and
  nothing else, in the order of the archive: the files whose name is the path of the directory, a separator and a
  last part without a separator, each with that last part and its status. The directory is the root or a file of the archive.
\<close>

theorem USTAR_Readdir_children:
  assumes "\<forall>f \<in> set (us_files us). 0 \<notin> set (uf_filename f)" and "0 \<notin> set path" and "length (us_files us) < 2 ^ 64"
    and "snd (USTAR_Opendir us path file0) = file" and "fst (USTAR_Opendir us path file0) = 0"
  shows "USTAR_Readdir us path file =
    (let dir = (if path = root_path then [] else path) in
      map (\<lambda>f. (drop (length dir + 1) (uf_filename f), USTAR_Stat f))
        (filter (\<lambda>f. \<exists>n. uf_filename f = dir @ Seperator # n \<and> Seperator \<notin> set n) (us_files us)))"
  using assms by (rule USTAR_Readdir_filter)

theorem USTAR_Readdir_children_witness:
  "USTAR_Readdir \<lparr>us_files = [archive_file 0 demo_entry, archive_file 2 (demo_entry\<lparr>ae_name := [0x62, 0x2F, 0x63]\<rparr>)],
      us_block = demo_disk\<rparr> root_path \<lparr>of_flags = 0, of_errno = 0, of_handle = 2\<rparr> = [([0x61], USTAR_Stat (archive_file 0 demo_entry))]"
proof -
  let ?us = "\<lparr>us_files = [archive_file 0 demo_entry, archive_file 2 (demo_entry\<lparr>ae_name := [0x62, 0x2F, 0x63]\<rparr>)], us_block = demo_disk\<rparr>"
  let ?f = "\<lparr>of_flags = 0, of_errno = 0, of_handle = 2\<rparr>"
  have names: "uf_filename (archive_file 0 demo_entry) = [0x2F, 0x61]"
    "uf_filename (archive_file 2 (demo_entry\<lparr>ae_name := [0x62, 0x2F, 0x63]\<rparr>)) = [0x2F, 0x62, 0x2F, 0x63]"
    by (simp_all add: archive_file_def archive_name_def demo_entry_def Seperator_def)
  have root: "0 \<notin> set root_path" "str_eq root_path root_path" by (simp_all add: str_eq_iff root_path_def Seperator_def)
  have "USTAR_Opendir ?us root_path ?f = (0, ?f)" by (simp add: USTAR_Opendir_def root)
  with USTAR_Readdir_children [of ?us root_path ?f ?f] root names show ?thesis by (simp add: Seperator_def Let_def)
qed

end
