(* ===== verification/DevFS.thy ===== *)
theory DevFS
  imports Graphics Filesystem
begin

text \<open>
  The device file system: \<^verbatim>\<open>src/driver/filesystem/devfs/devfs.cpp\<close>, and the frame buffer devices of
  \<^verbatim>\<open>src/driver/filesystem/devfs/framebuffer.cpp\<close>. A callback is a function on the state of the
  devices, \<open>None\<close> where the pointer is null. \<^verbatim>\<open>runtime::String\<close> is a list of bytes; the interrupts that
  are disabled during a search are left out, since no operation here is interrupted.
\<close>

section \<open>The code\<close>

text \<open>The arguments: path, user, buffer, count, offset and file; or path, user, command, argument and file.\<close>

type_synonym 's device_io = "u8 list \<Rightarrow> u64 \<Rightarrow> addr \<Rightarrow> u64 \<Rightarrow> u64 \<Rightarrow> OpenFile \<Rightarrow> 's \<Rightarrow> u64 \<times> 's"
type_synonym 's device_ioctl = "u8 list \<Rightarrow> u64 \<Rightarrow> u64 \<Rightarrow> addr \<Rightarrow> OpenFile \<Rightarrow> 's \<Rightarrow> u64 \<times> 's"

record 's DeviceFilesystem_Mount =
  dm_path :: "u8 list"
  dm_read :: "'s device_io option"
  dm_write :: "'s device_io option"
  dm_ioctl :: "'s device_ioctl option"
  dm_user :: u64
  dm_type :: mode_t

type_synonym 's DeviceFilesystem = "'s DeviceFilesystem_Mount list"

definition InsertMount :: "'s DeviceFilesystem_Mount \<Rightarrow> 's DeviceFilesystem \<Rightarrow> int \<times> 's DeviceFilesystem" where
  "InsertMount m mounts =
     (if list_ex (\<lambda>x. str_eq (dm_path x) (dm_path m)) mounts then (- EEXIST, mounts) else (0, mounts @ [m]))"

definition MountCharacterIoctl ::
  "u8 list \<Rightarrow> u64 \<Rightarrow> 's device_ioctl option \<Rightarrow> 's DeviceFilesystem \<Rightarrow> int \<times> 's DeviceFilesystem" where
  "MountCharacterIoctl path user ioctl =
     InsertMount \<lparr>dm_path = path, dm_read = None, dm_write = None, dm_ioctl = ioctl, dm_user = user, dm_type = S_IFCHR\<rparr>"

definition MountCharacter ::
  "u8 list \<Rightarrow> u64 \<Rightarrow> 's device_io option \<Rightarrow> 's device_io option \<Rightarrow> 's device_ioctl option \<Rightarrow>
   's DeviceFilesystem \<Rightarrow> int \<times> 's DeviceFilesystem" where
  "MountCharacter path user rd wr ioctl =
     InsertMount \<lparr>dm_path = path, dm_read = rd, dm_write = wr, dm_ioctl = ioctl, dm_user = user, dm_type = S_IFCHR\<rparr>"

definition DevFS_MountBlock :: int where "DevFS_MountBlock = - ENOSYS"
definition DevFS_Umount :: int where "DevFS_Umount = - ENOSYS"

definition empty_stat :: Stat where
  "empty_stat = \<lparr>st_Mode = 0, st_NumLinks = 0, st_Uid = 0, st_Gid = 0, st_Size = 0, st_Blocks = 0, st_TimeAccess = 0,
     st_TimeModification = 0\<rparr>"

text \<open>The result, with the names and the status passed to the callback, in order.\<close>

definition DevFS_Readdir :: "u8 list \<Rightarrow> 's DeviceFilesystem \<Rightarrow> int \<times> (u8 list \<times> Stat) list" where
  "DevFS_Readdir path mounts =
     (if \<not> str_eq path root_path then (- ENOENT, [])
      else (0, map (\<lambda>m. (drop 1 (dm_path m), empty_stat\<lparr>st_Mode := dm_type m OR 0x1B6\<rparr>)) mounts))"

text \<open>The calls: \<open>None\<close> when a null pointer is called. The result of a read or write is cut to an \<^verbatim>\<open>int\<close>.\<close>

definition DevFS_Ioctl ::
  "u8 list \<Rightarrow> u64 \<Rightarrow> addr \<Rightarrow> OpenFile \<Rightarrow> 's DeviceFilesystem \<Rightarrow> 's \<Rightarrow> (u64 \<times> 's) option" where
  "DevFS_Ioctl path cmd arg file mounts s =
     (case find (\<lambda>m. str_eq (dm_path m) path) mounts of
        None \<Rightarrow> Some (of_int (- ENOENT), s)
      | Some m \<Rightarrow> (case dm_ioctl m of None \<Rightarrow> None | Some f \<Rightarrow> Some (f path (dm_user m) cmd arg file s)))"

definition DevFS_Read ::
  "u8 list \<Rightarrow> addr \<Rightarrow> u64 \<Rightarrow> u64 \<Rightarrow> OpenFile \<Rightarrow> 's DeviceFilesystem \<Rightarrow> 's \<Rightarrow> int \<times> 's" where
  "DevFS_Read path buffer cnt offset file mounts s =
     (case find (\<lambda>m. str_eq (dm_path m) path \<and> dm_read m \<noteq> None) mounts of
        None \<Rightarrow> (- ENOENT, s)
      | Some m \<Rightarrow> (let (r, s) = the (dm_read m) path (dm_user m) buffer cnt offset file s in (s32 (uint r), s)))"

definition DevFS_Write ::
  "u8 list \<Rightarrow> addr \<Rightarrow> u64 \<Rightarrow> u64 \<Rightarrow> OpenFile \<Rightarrow> 's DeviceFilesystem \<Rightarrow> 's \<Rightarrow> int \<times> 's" where
  "DevFS_Write path buffer cnt offset file mounts s =
     (case find (\<lambda>m. str_eq (dm_path m) path \<and> dm_write m \<noteq> None) mounts of
        None \<Rightarrow> (- ENOENT, s)
      | Some m \<Rightarrow> (let (r, s) = the (dm_write m) path (dm_user m) buffer cnt offset file s in (s32 (uint r), s)))"

subsection \<open>The frame buffer\<close>

definition devfs_Framebuffer_Ioctl_GetStat :: u64 where "devfs_Framebuffer_Ioctl_GetStat = 0"
definition devfs_Framebuffer_ColorFormat_BGR :: u8 where "devfs_Framebuffer_ColorFormat_BGR = 0"

definition devfs_Framebuffer_Stat :: "int \<Rightarrow> int \<Rightarrow> u8 list" where
  "devfs_Framebuffer_Stat width height =
     le_bytes 2 (of_int width) @ le_bytes 2 (of_int height) @ [4, devfs_Framebuffer_ColorFormat_BGR]"

definition Framebuffer_Ioctl :: "graphics_state device_ioctl" where
  "Framebuffer_Ioctl path user cmd arg file s =
     (if cmd = devfs_Framebuffer_Ioctl_GetStat \<and> user = 0
      then (0, s\<lparr>g_mem := store_bytes (g_mem s) arg (devfs_Framebuffer_Stat (gm_Width (g_Mode s)) (gm_Height (g_Mode s)))\<rparr>)
      else (of_int (- EINVAL), s))"

text \<open>A position in pixels, cut to an \<^verbatim>\<open>int\<close> and then limited to the screen.\<close>

definition Framebuffer_limit :: "graphics_state \<Rightarrow> u64 \<Rightarrow> int" where
  "Framebuffer_limit s offset =
     (let xy = s32 (uint (offset div 4)); size = gm_Width (g_Mode s) * gm_Height (g_Mode s) in if xy > size then size else xy)"

definition Framebuffer_Write :: "graphics_state device_io" where
  "Framebuffer_Write path user buffer cnt offset file s =
     (if offset mod 4 \<noteq> 0 \<or> cnt mod 4 \<noteq> 0 then (of_int (- EINVAL), s)
      else
        (let xy = Framebuffer_limit s offset; xyend = Framebuffer_limit s (offset + cnt) in
         (of_int ((xyend - xy) * 4),
          s\<lparr>g_mem := memcpy (g_mem s) (g_Framebuffer s + of_int (xy * 4)) buffer (of_int ((xyend - xy) * 4))\<rparr>)))"

definition Framebuffer_Read :: "graphics_state device_io" where
  "Framebuffer_Read path user buffer cnt offset file s = (of_int (- ENOSYS), s)"

text \<open>The mounting: every device is mounted at the same path. The failures are listed with their numbers.\<close>

definition fb0_path :: "u8 list" where "fb0_path = [0x2F, 0x66, 0x62, 0x30]"

definition Framebuffer_mount ::
  "int \<Rightarrow> graphics_state DeviceFilesystem \<times> (int \<times> int) list \<Rightarrow> graphics_state DeviceFilesystem \<times> (int \<times> int) list" where
  "Framebuffer_mount i = (\<lambda>(mounts, errors).
     (let (ret, mounts) = MountCharacter fb0_path (of_int i) (Some Framebuffer_Read) (Some Framebuffer_Write)
        (Some Framebuffer_Ioctl) mounts in (mounts, if ret \<noteq> 0 then errors @ [(i, ret)] else errors)))"

definition Framebuffer_Init :: "int \<Rightarrow> graphics_state DeviceFilesystem \<Rightarrow> graphics_state DeviceFilesystem \<times> (int \<times> int) list" where
  "Framebuffer_Init fbN mounts = fold Framebuffer_mount [1..fbN] (Framebuffer_mount 0 (mounts, []))"

section \<open>Correctness\<close>

definition devfs_inv :: "'s DeviceFilesystem \<Rightarrow> bool" where
  "devfs_inv mounts \<longleftrightarrow> distinct (map dm_path mounts) \<and> (\<forall>m \<in> set mounts. 0 \<notin> set (dm_path m))"

lemma InsertMount_inv: "devfs_inv mounts \<Longrightarrow> 0 \<notin> set (dm_path m) \<Longrightarrow> devfs_inv (snd (InsertMount m mounts))"
  by (auto simp: devfs_inv_def InsertMount_def list_ex_iff str_eq_iff)

text \<open>What is mounted is found at its path, and the other devices at theirs.\<close>

lemma find_distinct:
  assumes "devfs_inv mounts" "m \<in> set mounts"
  shows "find (\<lambda>x. str_eq (dm_path x) (dm_path m)) mounts = Some m"
  using assms by (induction mounts) (auto simp: devfs_inv_def str_eq_iff)

lemma find_mounted:
  assumes "devfs_inv mounts" "m \<in> set mounts" "P m"
  shows "find (\<lambda>x. str_eq (dm_path x) (dm_path m) \<and> P x) mounts = Some m"
  using assms by (induction mounts) (auto simp: devfs_inv_def str_eq_iff)

lemma InsertMount_found:
  assumes "InsertMount m mounts = (0, mounts')" "devfs_inv mounts" "0 \<notin> set (dm_path m)"
  shows "find (\<lambda>x. str_eq (dm_path x) (dm_path m)) mounts' = Some m"
  using assms InsertMount_inv [OF assms(2, 3)] by (intro find_distinct) (auto simp: InsertMount_def error_numbers split: if_splits)

lemma Framebuffer_Init_mounts:
  assumes "\<forall>x \<in> set mounts. \<not> str_eq (dm_path x) fb0_path" and "0 \<le> n"
  shows "fst (Framebuffer_Init n mounts) = mounts @ [\<lparr>dm_path = fb0_path, dm_read = Some Framebuffer_Read,
      dm_write = Some Framebuffer_Write, dm_ioctl = Some Framebuffer_Ioctl, dm_user = 0, dm_type = S_IFCHR\<rparr>]"
    and "map snd (snd (Framebuffer_Init n mounts)) = replicate (nat n) (- EEXIST)"
proof -
  define m :: "graphics_state DeviceFilesystem_Mount" where "m = \<lparr>dm_path = fb0_path, dm_read = Some Framebuffer_Read,
      dm_write = Some Framebuffer_Write, dm_ioctl = Some Framebuffer_Ioctl, dm_user = 0, dm_type = S_IFCHR\<rparr>"
  have self: "str_eq fb0_path fb0_path" by (simp add: str_eq_iff fb0_path_def)
  have first: "Framebuffer_mount 0 (mounts, []) = (mounts @ [m], [])"
    using assms(1) by (auto simp: Framebuffer_mount_def MountCharacter_def InsertMount_def m_def list_ex_iff)
  have later: "fold Framebuffer_mount is (mounts @ [m], errors) = (mounts @ [m], errors @ map (\<lambda>i. (i, - EEXIST)) is)" for "is" errors
    by (induction "is" arbitrary: errors)
      (simp_all add: Framebuffer_mount_def MountCharacter_def InsertMount_def m_def self error_numbers)
  show "fst (Framebuffer_Init n mounts) = mounts @ [m]" by (simp add: Framebuffer_Init_def first later)
  show "map snd (snd (Framebuffer_Init n mounts)) = replicate (nat n) (- EEXIST)"
    using assms(2) by (simp add: Framebuffer_Init_def first later o_def map_replicate_const)
qed

lemma Framebuffer_limit_min:
  assumes "offset mod 4 = 0" "unat offset < 2 ^ 33"
  shows "Framebuffer_limit s offset * 4 = min (int (unat offset)) (gm_Width (g_Mode s) * gm_Height (g_Mode s) * 4)"
proof -
  have "unat offset mod 4 = 0" using assms(1) unat_mod [of offset 4] by simp
  then have o: "int (unat offset) = 4 * int (unat offset div 4)" by presburger
  have "uint (offset div 4) = int (unat offset div 4)" by (simp only: uint_nat unat_div) simp
  moreover have "unat offset div 4 < 2 ^ 31" using assms(2) by (simp add: less_mult_imp_div_less)
  ultimately have "s32 (uint (offset div 4)) = int (unat offset div 4)" by (simp add: s32_int)
  then show ?thesis using o by (simp add: Framebuffer_limit_def Let_def min_def)
qed

lemma clipped_length: "min (int (i + k)) (int b) - min (int i) (int b) = int (min k (b - i))"
  by (cases "k \<le> b - i"; cases "i \<le> b") (auto simp: min_def of_nat_diff)



definition demo_screen :: graphics_state where
  "demo_screen = \<lparr>g_mem = \<lambda>a. if a < 0x100 then ucast a else 0, g_DeviceFramebuffer = 0x3000, g_Framebuffer = 0x2000, g_FramebufferSize = 16,
     g_Doublebuffer = 0x2000, g_Mode = \<lparr>gm_Width = 2, gm_Height = 2, gm_PixelsPerLine = 2, gm_PixelFormat = BGRA_8bit\<rparr>,
     g_Cursor = None, g_lastMouseX = 0, g_lastMouseY = 0, g_lastMouseSizeX = 0, g_lastMouseSizeY = 0, g_mouseOverlay = 0x4000,
     g_invalidated_screen = False, g_invalidated = [], g_CursorX = 0, g_CursorY = 0\<rparr>"

definition demo_file :: OpenFile where
  "demo_file = \<lparr>of_flags = 0, of_errno = 0, of_handle = 0\<rparr>"


end
