(* ===== verification/Vfs.thy ===== *)
theory Vfs
  imports Ustar DevFS "HOL-Library.Sublist"
begin

text \<open>
  The virtual file system: \<^verbatim>\<open>src/driver/filesystem/vfs/vfs.cpp\<close>, \<^verbatim>\<open>format.cpp\<close> and \<^verbatim>\<open>filesystem_init.cpp\<close>.
  File systems and the descriptions of open files are objects at addresses; the classes of file systems
  are the constructors of a datatype, and a virtual function is a function on it, the default of the
  base class included. The addresses \<open>new\<close> answers and the contents of fields that are
  not set are arguments. \<open>None\<close> is a call through a pointer to no object, or a loop without end.
\<close>

section \<open>The code\<close>

datatype FilesystemAllocator = USTAR_Allocator

datatype Filesystem = FS_USTAR USTAR | FS_Device "graphics_state DeviceFilesystem"

record VirtualFilesystem_Mount =
  vm_where :: "u8 list"
  vm_source :: "u8 list"
  vm_fs :: addr

record VirtualFilesystem_OpenFile =
  vf_fs :: addr
  vf_fspath :: "u8 list"
  vf_userfile :: OpenFile

record vfs_state =
  vs_objects :: "addr \<Rightarrow> Filesystem option"
  vs_files :: "addr \<Rightarrow> VirtualFilesystem_OpenFile option"
  vs_root :: VirtualFilesystem_Mount
  vs_mounts :: "VirtualFilesystem_Mount list"
  vs_graphics :: graphics_state
  vs_fslist :: "FilesystemAllocator list option"

subsection \<open>The functions of a file system\<close>

fun fs_Capabilities :: "Filesystem \<Rightarrow> u32" where
  "fs_Capabilities (FS_USTAR u) = 0"
| "fs_Capabilities (FS_Device d) = Capability_NoOpen"

fun fs_Open :: "Filesystem \<Rightarrow> u8 list \<Rightarrow> OpenFile \<Rightarrow> int \<times> OpenFile" where
  "fs_Open (FS_USTAR u) path file = USTAR_Open u path file"
| "fs_Open (FS_Device d) path file = (- ENOSYS, file)"

fun fs_Close :: "Filesystem \<Rightarrow> u8 list \<Rightarrow> OpenFile \<Rightarrow> int" where
  "fs_Close (FS_USTAR u) path file = USTAR_Close"
| "fs_Close (FS_Device d) path file = - ENOSYS"

fun fs_Opendir :: "Filesystem \<Rightarrow> u8 list \<Rightarrow> OpenFile \<Rightarrow> int \<times> OpenFile" where
  "fs_Opendir (FS_USTAR u) path file = USTAR_Opendir u path file"
| "fs_Opendir (FS_Device d) path file = (- ENOSYS, file)"

fun fs_Readdir :: "Filesystem \<Rightarrow> u8 list \<Rightarrow> OpenFile \<Rightarrow> int \<times> (u8 list \<times> Stat) list" where
  "fs_Readdir (FS_USTAR u) path file = (0, USTAR_Readdir u path file)"
| "fs_Readdir (FS_Device d) path file = DevFS_Readdir path d"

fun fs_Closedir :: "Filesystem \<Rightarrow> u8 list \<Rightarrow> OpenFile \<Rightarrow> int" where
  "fs_Closedir (FS_USTAR u) path file = 0"
| "fs_Closedir (FS_Device d) path file = - ENOSYS"

fun fs_Ioctl ::
  "Filesystem \<Rightarrow> u8 list \<Rightarrow> u64 \<Rightarrow> addr \<Rightarrow> OpenFile \<Rightarrow> graphics_state \<Rightarrow> (u64 \<times> graphics_state) option" where
  "fs_Ioctl (FS_USTAR u) path cmd arg file g = Some (of_int (- ENOSYS), g)"
| "fs_Ioctl (FS_Device d) path cmd arg file g = DevFS_Ioctl path cmd arg file d g"

subsection \<open>Mounts\<close>

text \<open>The length of a path without the separators it ends in.\<close>

fun Mount_len :: "u8 list \<Rightarrow> nat \<Rightarrow> nat" where
  "Mount_len path 0 = 0"
| "Mount_len path (Suc n) = (if Suc n > 1 \<and> path ! n = Seperator then Mount_len path n else Suc n)"

definition VFS_Mount :: "u8 list \<Rightarrow> u8 list \<Rightarrow> addr \<Rightarrow> vfs_state \<Rightarrow> int \<times> vfs_state" where
  "VFS_Mount path source fs v =
     (if fs = 0 then (- EINVAL, v)
      else if str_eq path root_path
      then (0, v\<lparr>vs_root := \<lparr>vm_where = path, vm_source = source, vm_fs = fs\<rparr>\<rparr>)
      else
        (let m = \<lparr>vm_where = take (Mount_len path (length path)) path, vm_source = source, vm_fs = fs\<rparr> in
         if list_ex (\<lambda>x. str_eq (vm_where x) (vm_where m)) (vs_mounts v) then (- EEXIST, v)
         else (0, v\<lparr>vs_mounts := vs_mounts v @ [m]\<rparr>)))"

definition VFS_Umount :: int where "VFS_Umount = - ENOSYS"

text \<open>The loop ends at the first mount that fits.\<close>

definition FilesystemOfPath :: "u8 list \<Rightarrow> vfs_state \<Rightarrow> addr \<times> u8 list" where
  "FilesystemOfPath path v =
     (if str_eq path root_path then (vm_fs (vs_root v), path)
      else
        (let (fs, maxlen) = (case find (\<lambda>m. strncmp (length (vm_where m)) (str_chars (vm_where m)) (str_chars path) = 0 \<and>
              length (vm_where m) > 1) (vs_mounts v) of
            None \<Rightarrow> (vm_fs (vs_root v), 1) | Some m \<Rightarrow> (vm_fs m, length (vm_where m))) in
         (fs, if fs = vm_fs (vs_root v) then path else drop maxlen path)))"

subsection \<open>Files\<close>

definition CreateOpenFile :: "addr \<Rightarrow> OpenFile \<Rightarrow> u8 list \<Rightarrow> vfs_state \<Rightarrow> vfs_state" where
  "CreateOpenFile new junk path v =
     (let (fs, fspath) = FilesystemOfPath path v in
      v\<lparr>vs_files := (vs_files v)(new \<mapsto>
        \<lparr>vf_fs = fs, vf_fspath = (if fspath = [] then root_path else fspath), vf_userfile = junk\<rparr>)\<rparr>)"

definition delete_file :: "addr \<Rightarrow> vfs_state \<Rightarrow> vfs_state" where
  "delete_file p v = v\<lparr>vs_files := (vs_files v)(p := None)\<rparr>"

text \<open>The end of an opening: the object is deleted after an error, and its address is the handle otherwise.\<close>

definition open_result ::
  "addr \<Rightarrow> VirtualFilesystem_OpenFile \<Rightarrow> int \<times> OpenFile \<Rightarrow> OpenFile \<Rightarrow> vfs_state \<Rightarrow> int \<times> OpenFile \<times> vfs_state" where
  "open_result new vf = (\<lambda>(userret, userfile) file v.
     (if userret < 0 then (userret, file, delete_file new v)
      else (0, file\<lparr>of_handle := new\<rparr>, v\<lparr>vs_files := (vs_files v)(new \<mapsto> vf\<lparr>vf_userfile := userfile\<rparr>)\<rparr>)))"

definition VFS_Open ::
  "addr \<Rightarrow> OpenFile \<Rightarrow> u8 list \<Rightarrow> OpenFile \<Rightarrow> vfs_state \<Rightarrow> (int \<times> OpenFile \<times> vfs_state) option" where
  "VFS_Open new junk path file v =
     (let v = CreateOpenFile new junk path v in do {
        vf \<leftarrow> vs_files v new;
        fs \<leftarrow> vs_objects v (vf_fs vf);
        Some (if fs_Capabilities fs OR Capability_NoOpen = 0
          then open_result new vf (fs_Open fs (vf_fspath vf) (vf_userfile vf)) file v
          else (0, file\<lparr>of_handle := new\<rparr>, v))
      })"

definition VFS_Close :: "u8 list \<Rightarrow> OpenFile \<Rightarrow> vfs_state \<Rightarrow> (int \<times> vfs_state) option" where
  "VFS_Close path file v = do {
     vf \<leftarrow> vs_files v (of_handle file);
     fs \<leftarrow> vs_objects v (vf_fs vf);
     let userret = (if fs_Capabilities fs OR Capability_NoOpen = 0 then fs_Close fs (vf_fspath vf) (vf_userfile vf) else 0);
     Some (userret, delete_file (of_handle file) v)
   }"

definition VFS_Opendir ::
  "addr \<Rightarrow> OpenFile \<Rightarrow> u8 list \<Rightarrow> OpenFile \<Rightarrow> vfs_state \<Rightarrow> (int \<times> OpenFile \<times> vfs_state) option" where
  "VFS_Opendir new junk path file v =
     (let v = CreateOpenFile new junk path v in do {
        vf \<leftarrow> vs_files v new;
        fs \<leftarrow> vs_objects v (vf_fs vf);
        Some (if fs_Capabilities fs AND Capability_NoOpen = 0
          then open_result new vf (fs_Opendir fs (vf_fspath vf) (vf_userfile vf)) file v
          else (0, file\<lparr>of_handle := new\<rparr>, v))
      })"

definition VFS_Readdir :: "u8 list \<Rightarrow> OpenFile \<Rightarrow> vfs_state \<Rightarrow> (int \<times> (u8 list \<times> Stat) list) option" where
  "VFS_Readdir path file v = do {
     vf \<leftarrow> vs_files v (of_handle file);
     fs \<leftarrow> vs_objects v (vf_fs vf);
     Some (fs_Readdir fs (vf_fspath vf) (vf_userfile vf))
   }"

definition VFS_Closedir :: "u8 list \<Rightarrow> OpenFile \<Rightarrow> vfs_state \<Rightarrow> (int \<times> vfs_state) option" where
  "VFS_Closedir path file v = do {
     vf \<leftarrow> vs_files v (of_handle file);
     fs \<leftarrow> vs_objects v (vf_fs vf);
     let userret = (if fs_Capabilities fs OR Capability_NoOpen = 0 then fs_Closedir fs (vf_fspath vf) (vf_userfile vf) else 0);
     Some (userret, delete_file (of_handle file) v)
   }"

definition VFS_Ioctl :: "u8 list \<Rightarrow> u64 \<Rightarrow> addr \<Rightarrow> OpenFile \<Rightarrow> vfs_state \<Rightarrow> (u64 \<times> vfs_state) option" where
  "VFS_Ioctl path cmd arg file v = do {
     vf \<leftarrow> vs_files v (of_handle file);
     fs \<leftarrow> vs_objects v (vf_fs vf);
     (r, g) \<leftarrow> fs_Ioctl fs (vf_fspath vf) cmd arg (vf_userfile vf) (vs_graphics v);
     Some (r, v\<lparr>vs_graphics := g\<rparr>)
   }"

subsection \<open>Formats\<close>

fun fs_Allocate :: "FilesystemAllocator \<Rightarrow> u8 list \<Rightarrow> Filesystem option" where
  "fs_Allocate USTAR_Allocator source = None"

fun fs_AllocateBlock :: "FilesystemAllocator \<Rightarrow> BlockDevice \<Rightarrow> addr \<Rightarrow> mem \<Rightarrow> (Filesystem option \<times> mem) option" where
  "fs_AllocateBlock USTAR_Allocator dev buf m = do {
     (us, m) \<leftarrow> USTAR_AllocateBlock dev buf m;
     Some (map_option FS_USTAR us, m)
   }"

definition Format_Register :: "FilesystemAllocator \<Rightarrow> FilesystemAllocator list option \<Rightarrow> FilesystemAllocator list option" where
  "Format_Register fs fslist = (case fslist of None \<Rightarrow> Some [fs] | Some l \<Rightarrow> Some (l @ [fs]))"

primrec Format_Allocate :: "FilesystemAllocator list \<Rightarrow> u8 list \<Rightarrow> Filesystem option" where
  "Format_Allocate [] source = None"
| "Format_Allocate (a # l) source = (case fs_Allocate a source of Some fs \<Rightarrow> Some fs | None \<Rightarrow> Format_Allocate l source)"

primrec Format_AllocateBlock ::
  "FilesystemAllocator list \<Rightarrow> BlockDevice \<Rightarrow> addr \<Rightarrow> mem \<Rightarrow> (Filesystem option \<times> mem) option" where
  "Format_AllocateBlock [] dev buf m = Some (None, m)"
| "Format_AllocateBlock (a # l) dev buf m = do {
     (fs, m) \<leftarrow> fs_AllocateBlock a dev buf m;
     if fs \<noteq> None then Some (fs, m) else Format_AllocateBlock l dev buf m
   }"

subsection \<open>Initialisation and listing\<close>

definition dev_path :: "u8 list" where "dev_path = [0x2F, 0x64, 0x65, 0x76]"
definition initrd_source :: "u8 list" where "initrd_source = [0x69, 0x6E, 0x69, 0x74, 0x72, 0x64]"
definition devdefault_source :: "u8 list" where
  "devdefault_source = [0x64, 0x65, 0x76, 0x64, 0x65, 0x66, 0x61, 0x75, 0x6C, 0x74]"

text \<open>The disk around the embedded archive, its size rounded up to blocks.\<close>

definition initrd_device :: "addr \<Rightarrow> addr \<Rightarrow> BlockDevice" where
  "initrd_device embed_Initrd embed_Initrd_End =
     (let size = embed_Initrd_End - embed_Initrd;
          rounded = (if size mod 512 \<noteq> 0 then (size div 512 + 1) * 512 else size)
      in BlockDeviceRamdisk (Ramdisk_wrap embed_Initrd 512 (rounded div 512) PermRead))"

text \<open>
  \<open>nfs\<close> and \<open>ndev\<close> are the addresses of the two file systems, \<open>buf\<close> that of the buffer of the reader,
  and \<open>junk\<close> the address a new virtual file system holds as its root. The errors of the mounts
  of frame buffers are printed and dropped.
\<close>

definition filesystem_Init ::
  "addr \<Rightarrow> addr \<Rightarrow> addr \<Rightarrow> addr \<Rightarrow> addr \<Rightarrow> addr \<Rightarrow> FilesystemAllocator list option \<Rightarrow> graphics_state \<Rightarrow> vfs_state option" where
  "filesystem_Init embed_Initrd embed_Initrd_End buf nfs ndev junk fslist g = do {
     fslist \<leftarrow> Format_Register USTAR_Allocator fslist;
     (initfs, m) \<leftarrow> Format_AllocateBlock fslist (initrd_device embed_Initrd embed_Initrd_End) buf (g_mem g);
     let v = \<lparr>vs_objects = (\<lambda>_. None)(nfs := initfs), vs_files = \<lambda>_. None,
       vs_root = \<lparr>vm_where = [], vm_source = [], vm_fs = junk\<rparr>, vs_mounts = [], vs_graphics = g\<lparr>g_mem := m\<rparr>, vs_fslist = Some fslist\<rparr>;
     let (ret, v) = VFS_Mount root_path initrd_source (if initfs = None then 0 else nfs) v;
     let v = v\<lparr>vs_objects := (vs_objects v)(ndev \<mapsto> FS_Device [])\<rparr>;
     let (ret, v) = VFS_Mount dev_path devdefault_source ndev v;
     if ret \<noteq> 0 then Some v
     else Some (v\<lparr>vs_objects := (vs_objects v)(ndev \<mapsto> FS_Device (fst (Framebuffer_Init 3 [])))\<rparr>)
   }"

text \<open>The strings written to the console between the heading and the errors, both of \<^verbatim>\<open>io_Printf\<close>.\<close>

definition filesystem_Ls ::
  "addr \<Rightarrow> OpenFile \<Rightarrow> OpenFile \<Rightarrow> u8 list \<Rightarrow> vfs_state \<Rightarrow> (u8 list list \<times> vfs_state) option" where
  "filesystem_Ls new junk open0 path v = do {
     (ret, file, v) \<leftarrow> VFS_Opendir new junk path open0 v;
     if ret \<noteq> 0 \<or> of_handle file = 0 then Some ([], v)
     else do {
       (ret, entries) \<leftarrow> VFS_Readdir path file v;
       let out = concat (map (\<lambda>(name, stat). [[0x20], name]) entries) @ [[0x0A]];
       (ret, v) \<leftarrow> VFS_Closedir path file v;
       Some (out, v)
     }
   }"

section \<open>Mounts and paths\<close>

text \<open>Mount points are distinct, have no zero, and end in no separator.\<close>

definition vfs_inv :: "vfs_state \<Rightarrow> bool" where
  "vfs_inv v \<longleftrightarrow> distinct (map vm_where (vs_mounts v)) \<and>
     (\<forall>m \<in> set (vs_mounts v). 0 \<notin> set (vm_where m) \<and> vm_fs m \<noteq> 0 \<and>
       (length (vm_where m) \<le> 1 \<or> last (vm_where m) \<noteq> Seperator))"

abbreviation mount_point :: "u8 list \<Rightarrow> u8 list" where
  "mount_point path \<equiv> take (Mount_len path (length path)) path"

lemma Mount_len_le: "Mount_len path n \<le> n"
  by (induction path n rule: Mount_len.induct) auto

lemma Mount_len_last:
  "n \<le> length path \<Longrightarrow> Mount_len path n \<le> 1 \<or> last (take (Mount_len path n) path) \<noteq> Seperator"
proof (induction path n rule: Mount_len.induct)
  case (2 path n)
  then have "take (Suc n) path \<noteq> []" "last (take (Suc n) path) = path ! n" by (auto simp: take_Suc_conv_app_nth)
  with 2 show ?case by auto
qed simp

lemma prefix_take: "prefix w p \<longleftrightarrow> take (length w) p = w"
  by (auto simp: prefix_def) (metis append_take_drop_id)

lemma strncmp_prefix: "0 \<notin> set w \<Longrightarrow> 0 \<notin> set p \<Longrightarrow> strncmp (length w) (str_chars w) (str_chars p) = 0 \<longleftrightarrow> prefix w p"
  by (auto simp: strncmp_strings prefix_take)

definition fitting :: "u8 list \<Rightarrow> VirtualFilesystem_Mount \<Rightarrow> bool" where
  "fitting path m \<longleftrightarrow> prefix (vm_where m) path \<and> 1 < length (vm_where m)"

lemma find_cong_set: "(\<And>x. x \<in> set xs \<Longrightarrow> P x = Q x) \<Longrightarrow> find P xs = find Q xs"
  by (induction xs) auto

lemma FilesystemOfPath_find:
  assumes "vfs_inv v" "0 \<notin> set path" "path \<noteq> root_path"
  shows "FilesystemOfPath path v = (case find (fitting path) (vs_mounts v) of
      None \<Rightarrow> (vm_fs (vs_root v), path)
    | Some m \<Rightarrow> (vm_fs m, if vm_fs m = vm_fs (vs_root v) then path else drop (length (vm_where m)) path))"
proof -
  have "find (\<lambda>m. strncmp (length (vm_where m)) (str_chars (vm_where m)) (str_chars path) = 0 \<and> length (vm_where m) > 1) (vs_mounts v)
      = find (fitting path) (vs_mounts v)"
    using assms(1, 2) strncmp_prefix by (intro find_cong_set) (auto simp: fitting_def vfs_inv_def)
  then show ?thesis using str_eq_root [OF assms(2)] assms(3) by (simp add: FilesystemOfPath_def split: option.split)
qed

lemma VFS_Mount_cases:
  assumes "vfs_inv v" "0 \<notin> set path" "path \<noteq> root_path"
  shows "VFS_Mount path source fs v =
    (if fs = 0 then (- EINVAL, v)
     else if mount_point path \<in> vm_where ` set (vs_mounts v) then (- EEXIST, v)
     else (0, v\<lparr>vs_mounts := vs_mounts v @ [\<lparr>vm_where = mount_point path, vm_source = source, vm_fs = fs\<rparr>]\<rparr>))"
proof -
  have "0 \<notin> set (mount_point path)" using assms(2) by (meson in_set_takeD)
  then have "list_ex (\<lambda>x. str_eq (vm_where x) (mount_point path)) (vs_mounts v) \<longleftrightarrow>
      mount_point path \<in> vm_where ` set (vs_mounts v)"
    using assms(1) by (force simp: list_ex_iff vfs_inv_def str_eq_iff)
  then show ?thesis using str_eq_root [OF assms(2)] assms(3) by (simp add: VFS_Mount_def Let_def)
qed

lemma VFS_Mount_keeps:
  assumes "vfs_inv v" "0 \<notin> set path"
  shows "vfs_inv (snd (VFS_Mount path source fs v))"
    and "fst (VFS_Mount path source fs v) = 0 \<or> snd (VFS_Mount path source fs v) = v"
proof -
  have "vfs_inv (snd (VFS_Mount path source fs v)) \<and>
    (fst (VFS_Mount path source fs v) = 0 \<or> snd (VFS_Mount path source fs v) = v)"
  proof (cases "path = root_path")
    case True
    then show ?thesis using assms(1) str_eq_root [OF assms(2)] by (auto simp: VFS_Mount_def vfs_inv_def)
  next
    case False
    have "0 \<notin> set (mount_point path)" using assms(2) by (meson in_set_takeD)
    with assms(1) Mount_len_last [of "length path" path] show ?thesis
      unfolding VFS_Mount_cases [OF assms False] by (auto simp: vfs_inv_def)
  qed
  then show "vfs_inv (snd (VFS_Mount path source fs v))"
    "fst (VFS_Mount path source fs v) = 0 \<or> snd (VFS_Mount path source fs v) = v" by blast+
qed

text \<open>
  C26: Every mount keeps the mounts well-formed: the mount points stay distinct, end in no separator
  and have a file system; a mount at an occupied point, and one of no file system, is refused and changes nothing.
\<close>

theorem VFS_Mount_invariant:
  assumes "vfs_inv v" "0 \<notin> set path"
  shows "vfs_inv (snd (VFS_Mount path source fs v)) \<and>
    (fst (VFS_Mount path source fs v) = 0 \<or> snd (VFS_Mount path source fs v) = v)"
  using VFS_Mount_keeps [OF assms] by blast

text \<open>
  C25: After a file system other than that of the root is mounted at a point other than the root,
  the mount point and every path below it, which goes on with a separator, lead to it with the
  rest of the path, provided that no mount made before fits, that is, has a point whose characters the
  path begins with; and a path that does not begin with the characters of the new mount
  point leads where it led before.
\<close>

theorem VFS_Mount_resolves:
  assumes "vfs_inv v" "VFS_Mount path source fs v = (0, v')" "0 \<notin> set path" "path \<noteq> root_path"
    and "0 \<notin> set p" "p \<noteq> root_path" "1 < length (mount_point path)"
  shows "(\<forall>rest. p = mount_point path @ rest \<and> (rest = [] \<or> hd rest = Seperator) \<and>
        (\<forall>m \<in> set (vs_mounts v). \<not> fitting p m) \<and> fs \<noteq> vm_fs (vs_root v) \<longrightarrow>
      FilesystemOfPath p v' = (fs, rest)) \<and>
    (\<not> prefix (mount_point path) p \<longrightarrow> FilesystemOfPath p v' = FilesystemOfPath p v)"
proof -
  let ?m = "\<lparr>vm_where = mount_point path, vm_source = source, vm_fs = fs\<rparr>"
  have inv: "vfs_inv v'" using VFS_Mount_keeps(1) [OF assms(1, 3), of source fs] assms(2) by simp
  have v': "v' = v\<lparr>vs_mounts := vs_mounts v @ [?m]\<rparr>"
    using assms(2) unfolding VFS_Mount_cases [OF assms(1, 3, 4)] by (auto simp: error_numbers split: if_splits)
  have find: "find (fitting p) (xs @ [?m]) =
      (case find (fitting p) xs of Some x \<Rightarrow> Some x | None \<Rightarrow> if prefix (mount_point path) p then Some ?m else None)" for xs
    using assms(7) by (induction xs) (auto simp: fitting_def)
  have "vs_mounts v' = vs_mounts v @ [?m]" "vs_root v' = vs_root v" by (simp_all add: v')
  then have new: "FilesystemOfPath p v' = (case (case find (fitting p) (vs_mounts v) of Some x \<Rightarrow> Some x
        | None \<Rightarrow> if prefix (mount_point path) p then Some ?m else None) of
      None \<Rightarrow> (vm_fs (vs_root v), p)
    | Some m \<Rightarrow> (vm_fs m, if vm_fs m = vm_fs (vs_root v) then p else drop (length (vm_where m)) p))"
    using FilesystemOfPath_find [OF inv assms(5, 6)] by (simp only: find)
  have "find (fitting p) (vs_mounts v) = None" if "\<forall>m \<in> set (vs_mounts v). \<not> fitting p m"
    using that by (auto simp: find_None_iff)
  then show ?thesis
    unfolding new FilesystemOfPath_find [OF assms(1, 5, 6)] by (auto split: option.split)
qed

definition demo_vfs :: vfs_state where
  "demo_vfs = \<lparr>vs_objects = (\<lambda>_. None)(0x100 \<mapsto> FS_USTAR \<lparr>us_files = [], us_block = demo_disk\<rparr>, 0x200 \<mapsto> FS_Device []),
     vs_files = \<lambda>_. None, vs_root = \<lparr>vm_where = root_path, vm_source = initrd_source, vm_fs = 0x100\<rparr>, vs_mounts = [],
     vs_graphics = demo_screen, vs_fslist = None\<rparr>"

definition demo_mounted :: vfs_state where
  "demo_mounted = snd (VFS_Mount dev_path devdefault_source 0x200 demo_vfs)"

lemma demo_vfs_inv: "vfs_inv demo_vfs"
  by (simp add: vfs_inv_def demo_vfs_def)

lemma dev_path_facts: "0 \<notin> set dev_path" "dev_path \<noteq> root_path" "mount_point dev_path = dev_path" "length dev_path = 4"
proof -
  show "0 \<notin> set dev_path" "dev_path \<noteq> root_path" by (simp_all add: dev_path_def root_path_def)
  have "length dev_path = Suc 3" "dev_path ! 3 \<noteq> Seperator" by (simp_all add: dev_path_def Seperator_def)
  then have "Mount_len dev_path (length dev_path) = length dev_path" by (simp only: Mount_len.simps) simp
  then show "mount_point dev_path = dev_path" by (simp only: take_all)
  show "length dev_path = 4" by (simp add: dev_path_def)
qed

lemma demo_mount: "VFS_Mount dev_path devdefault_source 0x200 demo_vfs = (0, demo_mounted)"
  unfolding demo_mounted_def using VFS_Mount_cases [OF demo_vfs_inv dev_path_facts(1, 2)] by (simp add: demo_vfs_def)

theorem VFS_Mount_invariant_witness: "vfs_inv (snd (VFS_Mount dev_path devdefault_source 0x200 demo_vfs))"
  using VFS_Mount_invariant [OF demo_vfs_inv dev_path_facts(1)] by simp

theorem VFS_Mount_resolves_witness: "FilesystemOfPath (dev_path @ fb0_path) demo_mounted = (0x200, fb0_path)"
proof -
  have p: "0 \<notin> set (dev_path @ fb0_path)" "dev_path @ fb0_path \<noteq> root_path"
    by (simp_all add: dev_path_def fb0_path_def root_path_def)
  have "hd fb0_path = Seperator" by (simp add: fb0_path_def Seperator_def)
  moreover have "1 < length (mount_point dev_path)" unfolding dev_path_facts(3) by (simp add: dev_path_facts(4))
  moreover note VFS_Mount_resolves [OF demo_vfs_inv demo_mount dev_path_facts(1, 2) p this]
  ultimately show ?thesis unfolding dev_path_facts(3) by (simp add: demo_vfs_def)
qed

section \<open>Open files\<close>

text \<open>
  Opening a directory and closing it again leaves the file system as it was: a failed opening
  frees the object it made, and closing frees the object of a successful one. The handle in between is the address of that object.
\<close>

theorem VFS_Opendir_Closedir:
  assumes "vs_files v new = None" "VFS_Opendir new junk path file v = Some (ret, file', v')"
  shows "if ret < 0 then v' = v \<and> file' = file
    else ret = 0 \<and> of_handle file' = new \<and> VFS_Closedir path file' v' = Some (0, v)"
proof -
  obtain vf where vf: "CreateOpenFile new junk path v = v\<lparr>vs_files := (vs_files v)(new \<mapsto> vf)\<rparr>"
    unfolding CreateOpenFile_def by (cases "FilesystemOfPath path v") auto
  have none: "(vs_files v)(new := None) = vs_files v" using assms(1) by (simp add: fun_upd_idem)
  then have del: "v\<lparr>vs_files := (vs_files v)(new := None)\<rparr> = v" by simp
  have no: "fs_Capabilities fs OR Capability_NoOpen \<noteq> 0" for fs
    by (cases fs) (simp_all add: Capability_NoOpen_def)
  from assms(2) obtain fs where fs: "vs_objects v (vf_fs vf) = Some fs"
    and r: "(ret, file', v') = (if fs_Capabilities fs AND Capability_NoOpen = 0
      then open_result new vf (fs_Opendir fs (vf_fspath vf) (vf_userfile vf)) file (v\<lparr>vs_files := (vs_files v)(new \<mapsto> vf)\<rparr>)
      else (0, file\<lparr>of_handle := new\<rparr>, v\<lparr>vs_files := (vs_files v)(new \<mapsto> vf)\<rparr>))"
    by (auto simp: VFS_Opendir_def vf Let_def split: bind_splits)
  show ?thesis
    using r fs no del by (auto simp: VFS_Closedir_def delete_file_def open_result_def split: if_splits prod.splits)
qed

theorem VFS_Opendir_Closedir_witness:
  "\<exists>file v'. VFS_Opendir 0x300 demo_file dev_path demo_file demo_mounted = Some (0, file, v') \<and>
    VFS_Closedir dev_path file v' = Some (0, demo_mounted)"
proof -
  have mounted: "demo_mounted = demo_vfs\<lparr>vs_mounts := [\<lparr>vm_where = dev_path, vm_source = devdefault_source, vm_fs = 0x200\<rparr>]\<rparr>"
    unfolding demo_mounted_def VFS_Mount_cases [OF demo_vfs_inv dev_path_facts(1, 2)] dev_path_facts(3) by (simp add: demo_vfs_def)
  have "strncmp 4 (str_chars dev_path) (str_chars dev_path) = 0" by (subst strncmp_strings) (simp_all add: dev_path_facts)
  then have "FilesystemOfPath dev_path demo_mounted = (0x200, [])"
    using str_eq_root [OF dev_path_facts(1)] dev_path_facts(2) by (simp add: mounted FilesystemOfPath_def dev_path_facts(4) demo_vfs_def)
  then obtain f v' where o: "VFS_Opendir 0x300 demo_file dev_path demo_file demo_mounted = Some (0, f, v')"
    by (simp add: VFS_Opendir_def CreateOpenFile_def mounted demo_vfs_def Capability_NoOpen_def)
  moreover have "vs_files demo_mounted 0x300 = None" by (simp add: mounted demo_vfs_def)
  ultimately show ?thesis using VFS_Opendir_Closedir [of demo_mounted "0x300"] by fastforce
qed

section \<open>The system after its start\<close>

lemma map_archive_name: "map uf_filename (archive_files i es) = map archive_name es"
  by (induction es arbitrary: i) (simp_all add: archive_file_def)

lemma length_archive_files [simp]: "length (archive_files i es) = length es"
  by (induction es arbitrary: i) simp_all

lemma length_archive: "length es \<le> length (archive es)"
  by (induction es) (simp_all add: entry_blocks_def)

definition fb0_mount :: "graphics_state DeviceFilesystem_Mount" where
  "fb0_mount = \<lparr>dm_path = fb0_path, dm_read = Some Framebuffer_Read, dm_write = Some Framebuffer_Write,
     dm_ioctl = Some Framebuffer_Ioctl, dm_user = 0, dm_type = S_IFCHR\<rparr>"

lemma Init_state:
  assumes "holds_archive (initrd_device s e) (g_mem g) 0 es" "es \<noteq> []" "apart_from (initrd_device s e) buf"
    and "nfs \<noteq> 0" "ndev \<noteq> 0" "nfs \<noteq> ndev" and "no_prefixes es"
  obtains m' where "filesystem_Init s e buf nfs ndev junk None g = Some \<lparr>vs_objects = (\<lambda>_. None)
      (nfs \<mapsto> FS_USTAR \<lparr>us_files = archive_files 0 es, us_block = initrd_device s e\<rparr>, ndev \<mapsto> FS_Device [fb0_mount]),
      vs_files = \<lambda>_. None, vs_root = \<lparr>vm_where = root_path, vm_source = initrd_source, vm_fs = nfs\<rparr>,
      vs_mounts = [\<lparr>vm_where = dev_path, vm_source = devdefault_source, vm_fs = ndev\<rparr>],
      vs_graphics = g\<lparr>g_mem := m'\<rparr>, vs_fslist = Some [USTAR_Allocator]\<rparr>"
proof -
  obtain m' where m': "USTAR_AllocateBlock (initrd_device s e) buf (g_mem g) =
      Some (Some \<lparr>us_files = archive_files 0 es, us_block = initrd_device s e\<rparr>, m')"
    using AllocateBlock_archive [OF assms(1-3,7)] by metis
  have "str_eq root_path root_path" "\<not> str_eq dev_path root_path"
    by (simp_all add: str_eq_iff root_path_def dev_path_def Seperator_def)
  moreover note dev_path_facts(3)
  ultimately have "filesystem_Init s e buf nfs ndev junk None g = Some \<lparr>vs_objects = (\<lambda>_. None)
      (nfs \<mapsto> FS_USTAR \<lparr>us_files = archive_files 0 es, us_block = initrd_device s e\<rparr>, ndev \<mapsto> FS_Device (fst (Framebuffer_Init 3 []))),
      vs_files = \<lambda>_. None, vs_root = \<lparr>vm_where = root_path, vm_source = initrd_source, vm_fs = nfs\<rparr>,
      vs_mounts = [\<lparr>vm_where = dev_path, vm_source = devdefault_source, vm_fs = ndev\<rparr>],
      vs_graphics = g\<lparr>g_mem := m'\<rparr>, vs_fslist = Some [USTAR_Allocator]\<rparr>"
    using assms(4, 5) by (simp add: filesystem_Init_def Format_Register_def m' VFS_Mount_def Let_def)
  moreover have "fst (Framebuffer_Init 3 []) = [fb0_mount]"
    using Framebuffer_Init_mounts(1) [of "[]" 3] by (simp add: fb0_mount_def)
  ultimately show ?thesis using that by simp
qed

text \<open>The last parts of the paths of an archive that lie directly below the root.\<close>

definition root_names :: "archive_entry list \<Rightarrow> u8 list list" where
  "root_names es = map (drop 1) (filter (\<lambda>n. \<exists>k. n = Seperator # k \<and> Seperator \<notin> set k) (map archive_name es))"

definition ls_lines :: "u8 list list \<Rightarrow> u8 list list" where
  "ls_lines names = concat (map (\<lambda>n. [[0x20], n]) names) @ [[0x0A]]"

lemma USTAR_Readdir_root:
  assumes "us_files us = archive_files 0 es" "\<forall>e \<in> set es. ae_ok e" "length es < 2 ^ 64"
  shows "map fst (USTAR_Readdir us root_path (file\<lparr>of_handle := of_nat (length es)\<rparr>)) = root_names es"
proof -
  have root: "0 \<notin> set root_path" "str_eq root_path root_path" by (simp_all add: str_eq_iff root_path_def Seperator_def)
  have "\<forall>f \<in> set (us_files us). 0 \<notin> set (uf_filename f)" using archive_files_no_zero [OF assms(2)] assms(1) by auto
  note r = USTAR_Readdir_filter [OF this root(1), of "file" "file\<lparr>of_handle := of_nat (length es)\<rparr>"]
  have "map fst (USTAR_Readdir us root_path (file\<lparr>of_handle := of_nat (length es)\<rparr>)) =
      map (drop 1) (filter (\<lambda>n. \<exists>k. n = Seperator # k \<and> Seperator \<notin> set k) (map uf_filename (us_files us)))"
    using r assms(1, 3) root(2) by (simp add: USTAR_Opendir_def Let_def filter_map o_def)
  then show ?thesis by (simp add: root_names_def assms(1) map_archive_name)
qed

lemma Ls_output:
  "concat (map (\<lambda>(name, stat). [[0x20], name]) entries) @ [[0x0A]] = ls_lines (map fst entries)"
  by (simp add: ls_lines_def o_def case_prod_unfold)

text \<open>
  C5: After the start of the system with an archive as its initial disk whose entries have no prefix,
  a listing of the root prints the names of the files and directories at the top of the archive, in
  its order, and a listing of the device directory prints the one frame buffer; neither leaves
  an open file behind. The allocations are taken to succeed, and the buffer for a block lies apart from the disk.
\<close>

theorem filesystem_Init_Ls:
  assumes "holds_archive (initrd_device s e) (g_mem g) 0 es" "es \<noteq> []" "apart_from (initrd_device s e) buf"
    and "nfs \<noteq> 0" "ndev \<noteq> 0" "nfs \<noteq> ndev" "new \<noteq> 0" and "no_prefixes es"
  shows "\<exists>v. filesystem_Init s e buf nfs ndev junk None g = Some v \<and>
    filesystem_Ls new file0 open0 root_path v = Some (ls_lines (root_names es), v) \<and>
    filesystem_Ls new file0 open0 dev_path v = Some (ls_lines [drop 1 fb0_path], v)"
proof -
  let ?us = "\<lparr>us_files = archive_files 0 es, us_block = initrd_device s e\<rparr>"
  obtain m' where init: "filesystem_Init s e buf nfs ndev junk None g = Some \<lparr>vs_objects = (\<lambda>_. None)
      (nfs \<mapsto> FS_USTAR ?us, ndev \<mapsto> FS_Device [fb0_mount]),
      vs_files = \<lambda>_. None, vs_root = \<lparr>vm_where = root_path, vm_source = initrd_source, vm_fs = nfs\<rparr>,
      vs_mounts = [\<lparr>vm_where = dev_path, vm_source = devdefault_source, vm_fs = ndev\<rparr>],
      vs_graphics = g\<lparr>g_mem := m'\<rparr>, vs_fslist = Some [USTAR_Allocator]\<rparr>" (is "_ = Some ?v")
    using Init_state [OF assms(1-6,8)] by metis
  have root: "str_eq root_path root_path" "\<not> str_eq dev_path root_path"
    by (simp_all add: str_eq_iff root_path_def dev_path_def Seperator_def)
  have "FilesystemOfPath root_path ?v = (nfs, root_path)" using root(1) by (simp add: FilesystemOfPath_def)
  moreover have "length es < 2 ^ 64" "\<forall>e \<in> set es. ae_ok e"
    using assms(1) length_archive [of es] by (auto simp: holds_archive_def)
  note names = USTAR_Readdir_root [of ?us, OF _ this(2, 1)]
  have "USTAR_Opendir ?us root_path file0 = (0, file0\<lparr>of_handle := of_nat (length es)\<rparr>)" using root(1) by (simp add: USTAR_Opendir_def)
  ultimately have ls_root: "filesystem_Ls new file0 open0 root_path ?v = Some (ls_lines (root_names es), ?v)"
    using assms(4-7) names
    by (simp add: filesystem_Ls_def VFS_Opendir_def CreateOpenFile_def open_result_def VFS_Readdir_def VFS_Closedir_def
        delete_file_def Let_def Ls_output fun_upd_idem root_path_def Capability_NoOpen_def)
  have "strncmp 4 (str_chars dev_path) (str_chars dev_path) = 0" by (subst strncmp_strings) (simp_all add: dev_path_def)
  then have "FilesystemOfPath dev_path ?v = (ndev, [])" using root(2) assms(6) by (simp add: FilesystemOfPath_def dev_path_def)
  then have ls_dev: "filesystem_Ls new file0 open0 dev_path ?v = Some (ls_lines [drop 1 fb0_path], ?v)"
    using assms(4-7) root(1)
    by (simp add: filesystem_Ls_def VFS_Opendir_def CreateOpenFile_def VFS_Readdir_def VFS_Closedir_def
        delete_file_def Let_def Ls_output fun_upd_idem Capability_NoOpen_def DevFS_Readdir_def fb0_mount_def)
  from init ls_root ls_dev show ?thesis by blast
qed

theorem filesystem_Init_Ls_witness:
  "\<exists>v. filesystem_Init 0x10000 0x10400 0x2000 0x100 0x200 0 None (demo_screen\<lparr>g_mem := demo_mem\<rparr>) = Some v \<and>
    filesystem_Ls 0x300 demo_file demo_file root_path v = Some ([[0x20], [0x61], [0x0A]], v) \<and>
    filesystem_Ls 0x300 demo_file demo_file dev_path v = Some ([[0x20], [0x66, 0x62, 0x30], [0x0A]], v)"
proof -
  have dev: "initrd_device 0x10000 0x10400 = demo_disk" by (simp add: initrd_device_def demo_disk_def)
  have lines: "ls_lines (root_names [demo_entry]) = [[0x20], [0x61], [0x0A]]"
    by (simp add: ls_lines_def root_names_def archive_name_def demo_entry_def Seperator_def)
  have fb0: "ls_lines [drop 1 fb0_path] = [[0x20], [0x66, 0x62, 0x30], [0x0A]]" by (simp add: ls_lines_def fb0_path_def)
  have mem: "g_mem (demo_screen\<lparr>g_mem := demo_mem\<rparr>) = demo_mem" by simp
  show ?thesis
    using filesystem_Init_Ls [of "0x10000" "0x10400" "demo_screen\<lparr>g_mem := demo_mem\<rparr>" "[demo_entry]" "0x2000" "0x100" "0x200" "0x300"]
    unfolding dev mem lines fb0 using demo_holds demo_apart demo_no_prefixes by simp
qed

end
