(* ===== verification/Fat.thy ===== *)
theory Fat
  imports Block Filesystem "HOL-Library.Signed_Division"
begin

text \<open>
  The FAT driver as far as it goes, \<^verbatim>\<open>src/driver/filesystem/fat/fat.cpp\<close>: it reads the first sector,
  keeps copies of its two records and tells the kinds of FAT apart. A copy on the heap is a list of
  bytes. \<open>None\<close> is a division by zero.
\<close>

section \<open>The code\<close>

datatype FATType = FAT12 | FAT16 | FAT32 | exFAT

definition BIOSParamBlock :: layout where
  "BIOSParamBlock =
    [(''jumpcode'', 3), (''oemid'', 8), (''numBytesPerSector'', 2), (''numSectorsPerCluster'', 1), (''numReservedSector'', 2),
     (''numFATs'', 1), (''numDirEntry'', 2), (''numSectors_short'', 2), (''mediaDescriptorType'', 1),
     (''numSectorsPerFAT_12_16'', 2), (''numSectorsPerTrack'', 2), (''numSides'', 2), (''offsetLBA'', 4), (''numSectors_large'', 4)]"

definition ExtBootRecord_12_16 :: layout where
  "ExtBootRecord_12_16 =
    [(''driveNumber'', 1), (''ntFlags'', 1), (''signature'', 1), (''volumeID'', 4), (''label'', 11), (''type'', 8)]"

definition ExtBootRecord_32 :: layout where
  "ExtBootRecord_32 =
    [(''sectorsPerFAT'', 4), (''flags'', 2), (''version'', 2), (''clusterRoot'', 4), (''sectorFSinfo'', 2),
     (''sectorBackupBootsect'', 2), (''reserved'', 12), (''driveNumber'', 1), (''ntFlags'', 1), (''signature'', 1),
     (''volumeID'', 4), (''label'', 11), (''type'', 8)]"

definition FSInfo_Offset :: nat where "FSInfo_Offset = 484"

definition FSInfo :: layout where
  "FSInfo = [(''signatureMid'', 4), (''freeClusterCount'', 4), (''freeClusterOffset'', 4), (''reserved'', 12), (''signatureTrail'', 4)]"

definition FSInfo_SignatureLead :: u32 where "FSInfo_SignatureLead = 0x41615252"
definition FSInto_SignatureMid :: u32 where "FSInto_SignatureMid = 0x61417272"
definition FSInfo_SignatureTrail :: u32 where "FSInfo_SignatureTrail = 0xaa550000"

definition DirEntry :: layout where
  "DirEntry =
    [(''name'', 8), (''ext'', 3), (''flags'', 1), (''reserved'', 1), (''createTime_Seconds_10th'', 1), (''createTime'', 2),
     (''createDate'', 2), (''lastAccessDate'', 2), (''firstCluster_high'', 2), (''modifyTime'', 2), (''modifyDate'', 2),
     (''firstCluster_low'', 2), (''size'', 4)]"

record FAT =
  fat_type :: FATType
  fat_bpb :: "u8 list"
  fat_ebr :: "u8 list"
  fat_sector :: addr
  fat_numSectors :: int

text \<open>A number of the copied record.\<close>

definition bpb_field :: "u8 list \<Rightarrow> string \<Rightarrow> nat \<Rightarrow> int" where
  "bpb_field bpb f n = uint (le_value (take n (drop (offsetof BIOSParamBlock f) bpb)))"

definition FAT12_string :: "u8 list" where "FAT12_string = [0x46, 0x41, 0x54, 0x31, 0x32]"
definition FAT16_string :: "u8 list" where "FAT16_string = [0x46, 0x41, 0x54, 0x31, 0x36]"

definition ebr_type :: "u8 list \<Rightarrow> u8 list" where
  "ebr_type ebr = drop (offsetof ExtBootRecord_12_16 ''type'') ebr"

text \<open>The division of an \<^verbatim>\<open>int\<close> cuts towards zero.\<close>

definition fat_clusters :: "int \<Rightarrow> int \<Rightarrow> int option" where
  "fat_clusters numSectors perCluster =
     (if perCluster = 0 then None
      else Some (numSectors sdiv perCluster + (if numSectors smod perCluster \<noteq> 0 then 1 else 0)))"

definition fat_type_12_16 :: "u8 list \<Rightarrow> int \<Rightarrow> int \<Rightarrow> FATType option" where
  "fat_type_12_16 ebr numSectors perCluster =
     (if strncmp 5 (str_chars (ebr_type ebr)) (str_chars FAT12_string) = 0 then Some FAT12
      else if strncmp 5 (str_chars (ebr_type ebr)) (str_chars FAT16_string) = 0 then Some FAT16
      else do {
        clusters \<leftarrow> fat_clusters numSectors perCluster;
        Some (if clusters > 4085 then FAT16 else FAT12)
      })"

definition FAT_AllocateBlock :: "BlockDevice \<Rightarrow> addr \<Rightarrow> mem \<Rightarrow> (FAT option \<times> mem) option" where
  "FAT_AllocateBlock dev sector m =
     (let (r, m) = ReadBlock dev 0 sector 1 m in
      if r = 0 then Some (None, m)
      else
        (let bpb = bytes_at m sector (sizeof BIOSParamBlock);
             short = bpb_field bpb ''numSectors_short'' 2;
             numSectors = s32 (if short \<noteq> 0 then short else bpb_field bpb ''numSectors_large'' 4);
             rest = sector + of_nat (sizeof BIOSParamBlock)
         in
           if bpb_field bpb ''numBytesPerSector'' 2 = 0 then Some (None, m)
           else if bpb_field bpb ''numSectorsPerFAT_12_16'' 2 = 0
           then Some (Some \<lparr>fat_type = FAT32, fat_bpb = bpb, fat_ebr = bytes_at m rest (sizeof ExtBootRecord_32),
             fat_sector = sector, fat_numSectors = numSectors\<rparr>, m)
           else do {
             let ebr = bytes_at m rest (sizeof ExtBootRecord_12_16);
             type \<leftarrow> fat_type_12_16 ebr numSectors (bpb_field bpb ''numSectorsPerCluster'' 1);
             Some (Some \<lparr>fat_type = type, fat_bpb = bpb, fat_ebr = ebr, fat_sector = sector, fat_numSectors = numSectors\<rparr>, m)
           }))"

text \<open>The functions without a body of their own.\<close>

definition FAT_NextCluster :: "int \<Rightarrow> int" where "FAT_NextCluster cluster = 0"
definition FAT_Readdir :: int where "FAT_Readdir = - ENOSYS"
definition FAT_Opendir :: int where "FAT_Opendir = - ENOSYS"
definition FAT_Closedir :: int where "FAT_Closedir = - ENOSYS"

section \<open>The kinds of FAT\<close>

text \<open>The sizes the code asserts.\<close>

lemma fat_layouts:
  "sizeof BIOSParamBlock = 36" "sizeof ExtBootRecord_12_16 = 62 - 36" "sizeof ExtBootRecord_32 = 90 - 36"
  "sizeof FSInfo = 512 - FSInfo_Offset" "sizeof DirEntry = 32"
  by (simp_all add: sizeof_def BIOSParamBlock_def ExtBootRecord_12_16_def ExtBootRecord_32_def FSInfo_def FSInfo_Offset_def DirEntry_def)

lemma fat_clusters_round_up:
  assumes "0 \<le> numSectors" "0 < perCluster"
  shows "fat_clusters numSectors perCluster = Some ((numSectors + perCluster - 1) div perCluster)"
proof -
  have d: "numSectors sdiv perCluster = numSectors div perCluster" "numSectors smod perCluster = numSectors mod perCluster"
    using assms by (auto simp: signed_divide_int_def signed_modulo_int_def sgn_if)
  have "(numSectors + perCluster - 1) div perCluster = numSectors div perCluster + (if numSectors mod perCluster \<noteq> 0 then 1 else 0)"
  proof -
    have "numSectors + perCluster - 1 = (numSectors mod perCluster + perCluster - 1) + numSectors div perCluster * perCluster" by simp
    then have "(numSectors + perCluster - 1) div perCluster = numSectors div perCluster + (numSectors mod perCluster + perCluster - 1) div perCluster"
      using assms(2) by (metis add.commute div_mult_self1 less_irrefl)
    moreover have "(numSectors mod perCluster + perCluster - 1) div perCluster = (if numSectors mod perCluster \<noteq> 0 then 1 else 0)"
    proof (cases "numSectors mod perCluster = 0")
      case True
      then show ?thesis using assms(2) by (simp add: div_pos_pos_trivial)
    next
      case False
      have "0 \<le> numSectors mod perCluster" "numSectors mod perCluster < perCluster" using assms(2) by simp_all
      with False have "0 \<le> numSectors mod perCluster - 1" "numSectors mod perCluster - 1 < perCluster" by linarith+
      then have "(numSectors mod perCluster - 1 + perCluster) div perCluster = 1"
        using assms(2) by (subst div_add_self2) (auto simp: div_pos_pos_trivial)
      with False show ?thesis by (simp add: algebra_simps)
    qed
    ultimately show ?thesis by simp
  qed
  then show ?thesis using assms(2) d by (simp add: fat_clusters_def)
qed

text \<open>A boot sector whose type string names neither kind is told by its number of clusters, rounded up.\<close>

lemma fat_type_by_clusters:
  assumes "take 5 (ebr_type ebr) \<noteq> FAT12_string" "take 5 (ebr_type ebr) \<noteq> FAT16_string" "0 \<notin> set (ebr_type ebr)"
    and "0 \<le> numSectors" "0 < perCluster"
  shows "fat_type_12_16 ebr numSectors perCluster =
    Some (if (numSectors + perCluster - 1) div perCluster > 4085 then FAT16 else FAT12)"
proof -
  have "0 \<notin> set FAT12_string" "0 \<notin> set FAT16_string" "take 5 FAT12_string = FAT12_string" "take 5 FAT16_string = FAT16_string"
    by (simp_all add: FAT12_string_def FAT16_string_def)
  with assms show ?thesis by (simp add: fat_type_12_16_def strncmp_strings fat_clusters_round_up)
qed

text \<open>A disk of which not a block can be read because it has none is no FAT.\<close>

lemma FAT_AllocateBlock_empty:
  "rd_perm r AND PermRead \<noteq> 0 \<Longrightarrow> rd_blockcount r = 0 \<Longrightarrow>
     fst (the (FAT_AllocateBlock (BlockDeviceRamdisk r) sector m)) = None"
  by (simp add: FAT_AllocateBlock_def ramdisk_ReadBlock_def ramdisk_count_def)

lemma FAT_AllocateBlock_ends:
  assumes "dev_ok dev" "dev_readable dev" "0 < unat (device_Size dev)" "BlockSize dev = 512"
    and "dev_block dev m 0 = b" "bpb_field (take 36 b) ''numSectorsPerCluster'' 1 \<noteq> 0"
  shows "FAT_AllocateBlock dev sector m \<noteq> None"
proof -
  have l: "length b = 512" using bd.block_length [of dev m 0] assms(4, 5) by simp
  have r: "ReadBlock dev 0 sector 1 m = (1, store_bytes m sector b)"
    using bd.read_one [OF assms(1, 2), of 0 sector m] assms(3, 5) by simp
  have "bytes_at (store_bytes m sector b) sector (sizeof BIOSParamBlock) = take 36 b"
    unfolding fat_layouts by (subst bytes_at_store_prefix) (simp_all add: l)
  with r assms(6) show ?thesis
    by (auto simp: FAT_AllocateBlock_def fat_type_12_16_def fat_clusters_def Let_def)
qed

end
