(* ===== verification/Runtime_String.thy ===== *)
theory Runtime_String
  imports Unicode Cstring
begin

text \<open>
  The class \<^verbatim>\<open>runtime::String\<close> of \<^verbatim>\<open>src/cppruntime/string.hpp\<close> and its iterator over code points. An
  object is its address, which is also the address of its member \<^verbatim>\<open>end\<close>, the address of its
  characters, and its size; the characters lie in the byte memory. \<open>new\<close> is the block the heap
  answers; the blocks deleted are listed.
\<close>

section \<open>The code\<close>

record String =
  str_end :: addr
  str_str :: addr
  str_size :: u64

subsection \<open>Construction\<close>

definition String_default :: "addr \<Rightarrow> mem \<Rightarrow> String \<times> mem" where
  "String_default self m = (\<lparr>str_end = self, str_str = self, str_size = 0\<rparr>, m(self := 0))"

definition String_cstr :: "addr \<Rightarrow> addr \<Rightarrow> addr \<Rightarrow> mem \<Rightarrow> (String \<times> mem) option" where
  "String_cstr self new s m = (let m = m(self := 0) in do {
     n \<leftarrow> strlen m s 0;
     Some (\<lparr>str_end = self, str_str = new, str_size = n\<rparr>, memcpy m new s (n + 1))
   })"

definition String_sized :: "addr \<Rightarrow> addr \<Rightarrow> addr \<Rightarrow> u64 \<Rightarrow> mem \<Rightarrow> String \<times> mem" where
  "String_sized self new s csize m =
     (let m = memcpy (m(self := 0)) new s csize
      in (\<lparr>str_end = self, str_str = new, str_size = csize\<rparr>, m(new + csize := 0)))"

definition String_copy :: "addr \<Rightarrow> addr \<Rightarrow> String \<Rightarrow> mem \<Rightarrow> String \<times> mem" where
  "String_copy self new other m =
     (\<lparr>str_end = self, str_str = new, str_size = str_size other\<rparr>,
      memcpy (m(self := 0)) new (str_str other) (str_size other + 1))"

definition String_unicode :: "addr \<Rightarrow> addr \<Rightarrow> addr \<Rightarrow> u32 \<Rightarrow> mem \<Rightarrow> String \<times> mem" where
  "String_unicode self new buf unicode m =
     (let (n, m) = utf8_Encode (m(self := 0)) buf unicode; sz = of_nat n; m = memcpy m new buf sz
      in (\<lparr>str_end = self, str_str = new, str_size = sz\<rparr>, m(new + sz := 0)))"

text \<open>The new object, and the old one after its characters are moved away.\<close>

definition String_move :: "addr \<Rightarrow> String \<Rightarrow> mem \<Rightarrow> String \<times> String \<times> mem" where
  "String_move self other m =
     (\<lparr>str_end = self, str_str = str_str other, str_size = str_size other\<rparr>,
      other\<lparr>str_size := 0, str_str := str_end other\<rparr>, m(self := 0))"

definition String_delete :: "String \<Rightarrow> addr list \<Rightarrow> addr list" where
  "String_delete s freed = (if str_str s \<noteq> 0 \<and> str_str s \<noteq> str_end s then freed @ [str_str s] else freed)"

subsection \<open>Operations\<close>

definition String_compare :: "String \<Rightarrow> String \<Rightarrow> mem \<Rightarrow> int option" where
  "String_compare s t m = strcmp (mem_chars m (str_str s)) (mem_chars m (str_str t))"

definition String_eq :: "String \<Rightarrow> String \<Rightarrow> mem \<Rightarrow> bool option" where
  "String_eq s t m = map_option (\<lambda>r. r = 0) (String_compare s t m)"
definition String_ne :: "String \<Rightarrow> String \<Rightarrow> mem \<Rightarrow> bool option" where
  "String_ne s t m = map_option Not (String_eq s t m)"
definition String_lt :: "String \<Rightarrow> String \<Rightarrow> mem \<Rightarrow> bool option" where
  "String_lt s t m = map_option (\<lambda>r. r < 0) (String_compare s t m)"
definition String_le :: "String \<Rightarrow> String \<Rightarrow> mem \<Rightarrow> bool option" where
  "String_le s t m = map_option (\<lambda>r. r \<le> 0) (String_compare s t m)"
definition String_gt :: "String \<Rightarrow> String \<Rightarrow> mem \<Rightarrow> bool option" where
  "String_gt s t m = map_option (\<lambda>r. r > 0) (String_compare s t m)"
definition String_ge :: "String \<Rightarrow> String \<Rightarrow> mem \<Rightarrow> bool option" where
  "String_ge s t m = map_option (\<lambda>r. r \<ge> 0) (String_compare s t m)"

definition String_assign :: "addr \<Rightarrow> String \<Rightarrow> String \<Rightarrow> mem \<times> addr list \<Rightarrow> String \<times> mem \<times> addr list" where
  "String_assign new s other = (\<lambda>(m, freed).
     (s\<lparr>str_size := str_size other, str_str := new\<rparr>, memcpy m new (str_str other) (str_size other + 1), String_delete s freed))"

definition String_move_assign :: "String \<Rightarrow> String \<Rightarrow> addr list \<Rightarrow> String \<times> String \<times> addr list" where
  "String_move_assign s other freed =
     (s\<lparr>str_size := str_size other, str_str := str_str other\<rparr>, other\<lparr>str_size := 0, str_str := str_end other\<rparr>, String_delete s freed)"

definition String_swap :: "String \<Rightarrow> String \<Rightarrow> String \<times> String" where
  "String_swap s t =
     (s\<lparr>str_str := str_str t, str_size := str_size t\<rparr>, t\<lparr>str_str := str_str s, str_size := str_size s\<rparr>)"

definition String_Length :: "String \<Rightarrow> u64" where "String_Length s = str_size s"
definition String_C :: "String \<Rightarrow> addr" where "String_C s = str_str s"
definition String_at :: "String \<Rightarrow> u64 \<Rightarrow> addr" where "String_at s offset = str_str s + offset"

definition String_Substring :: "addr \<Rightarrow> addr \<Rightarrow> String \<Rightarrow> u64 \<Rightarrow> u64 \<Rightarrow> mem \<Rightarrow> String \<times> mem" where
  "String_Substring self new s offset cnt m =
     (let m = memcpy (m(self := 0)) new (str_str s + offset) cnt
      in (\<lparr>str_end = self, str_str = new, str_size = cnt\<rparr>, m(new + cnt := 0)))"

subsection \<open>Iteration\<close>

text \<open>The member \<^verbatim>\<open>cur\<close> starts with the value \<open>garbage\<close>; decoding always sets it.\<close>

record UnicodeIterator =
  ui_parent :: String
  ui_i :: u64
  ui_cur :: u32
  ui_adv :: int

definition UnicodeIterator_decode :: "mem \<Rightarrow> UnicodeIterator \<Rightarrow> UnicodeIterator" where
  "UnicodeIterator_decode m it =
     (let (adv, cur) = utf8_Decode m (String_C (ui_parent it) + ui_i it) (String_Length (ui_parent it) - ui_i it) (Some (ui_cur it))
      in it\<lparr>ui_adv := s32 (uint adv), ui_cur := (case cur of Some c \<Rightarrow> c | None \<Rightarrow> ui_cur it)\<rparr>)"

definition UnicodeIterator_new :: "mem \<Rightarrow> String \<Rightarrow> u32 \<Rightarrow> UnicodeIterator" where
  "UnicodeIterator_new m parent garbage =
     UnicodeIterator_decode m \<lparr>ui_parent = parent, ui_i = 0, ui_cur = garbage, ui_adv = 0\<rparr>"

definition UnicodeIterator_next :: "mem \<Rightarrow> UnicodeIterator \<Rightarrow> UnicodeIterator" where
  "UnicodeIterator_next m it =
     (let it = it\<lparr>ui_i := ui_i it + of_int (ui_adv it)\<rparr> in
      if ui_i it < String_Length (ui_parent it) then UnicodeIterator_decode m it else it)"

definition UnicodeIterator_End :: "UnicodeIterator \<Rightarrow> bool" where
  "UnicodeIterator_End it \<longleftrightarrow> ui_i it \<ge> String_Length (ui_parent it)"

text \<open>The loop its comment gives: \<^verbatim>\<open>for(UnicodeIterator i(str); !i.End(); i++) { uint32_t code = *i; }\<close>.\<close>

partial_function (option) UnicodeIterator_loop :: "mem \<Rightarrow> UnicodeIterator \<Rightarrow> u32 list \<Rightarrow> u32 list option" where
  "UnicodeIterator_loop m it codes =
     (if \<not> UnicodeIterator_End it then UnicodeIterator_loop m (UnicodeIterator_next m it) (codes @ [ui_cur it])
      else Some codes)"

definition String_codes :: "mem \<Rightarrow> String \<Rightarrow> u32 \<Rightarrow> u32 list option" where
  "String_codes m s garbage = UnicodeIterator_loop m (UnicodeIterator_new m s garbage) []"

section \<open>Strings and lists\<close>

text \<open>An object holds the string \<open>s\<close>.\<close>

definition holds_string :: "mem \<Rightarrow> String \<Rightarrow> u8 list \<Rightarrow> bool" where
  "holds_string m x s \<longleftrightarrow> cstring_at m (str_str x) s \<and> unat (str_size x) = length s"

lemma strcmp_cong_right:
  "0 \<notin> set s \<Longrightarrow> 0 \<notin> set t \<Longrightarrow> (\<And>i. i \<le> length t \<Longrightarrow> b i = str_chars t i) \<Longrightarrow>
     strcmp (str_chars s) b = strcmp (str_chars s) (str_chars t)"
proof (induction s arbitrary: t b)
  case Nil
  have "b 0 = str_chars t 0" using Nil.prems(3) [of 0] by simp
  then show ?case by (simp add: strcmp_Nil)
next
  case (Cons c s)
  have b0: "b 0 = str_chars t 0" using Cons.prems(3) [of 0] by simp
  show ?case
  proof (cases t)
    case Nil
    with b0 Cons.prems(1) show ?thesis by (subst (1 2) strcmp.simps) auto
  next
    case (Cons d t')
    have "strcmp (str_chars s) (\<lambda>i. b (Suc i)) = strcmp (str_chars s) (str_chars t')"
    proof (rule Cons.IH)
      show "b (Suc i) = str_chars t' i" if "i \<le> length t'" for i
        using Cons.prems(3) [of "Suc i"] that Cons by simp
    qed (use Cons Cons.prems in simp_all)
    with b0 Cons show ?thesis by (subst (1 2) strcmp.simps) simp
  qed
qed

lemma String_compare_strings:
  assumes "holds_string m a s" "holds_string m b t"
  shows "String_compare a b m = strcmp (str_chars s) (str_chars t)"
proof -
  have z: "0 \<notin> set s" "0 \<notin> set t" using assms by (simp_all add: holds_string_def cstring_at_def)
  have "strcmp (mem_chars m (str_str a)) (mem_chars m (str_str b)) = strcmp (str_chars s) (mem_chars m (str_str b))"
    using assms(1) z(1) cstring_at_chars by (intro strcmp_cong) (auto simp: holds_string_def)
  also have "\<dots> = strcmp (str_chars s) (str_chars t)"
    using assms(2) z cstring_at_chars by (intro strcmp_cong_right) (auto simp: holds_string_def)
  finally show ?thesis by (simp add: String_compare_def)
qed

text \<open>The comparison is the lexicographic one of the bytes.\<close>

lemma strcmp_lexord:
  "0 \<notin> set s \<Longrightarrow> 0 \<notin> set t \<Longrightarrow> \<exists>r. strcmp (str_chars s) (str_chars t) = Some r \<and>
     (r < 0 \<longleftrightarrow> (s, t) \<in> lexord {(a, b). a < b}) \<and> (r = 0 \<longleftrightarrow> s = t)"
proof (induction s arbitrary: t)
  case Nil
  have "0 < uint a" if "a \<noteq> 0" for a :: u8 using that uint_0_iff [of a] by (simp add: less_le)
  with Nil show ?case by (cases t) (auto simp: strcmp_Nil uint_0_iff)
next
  case (Cons c s)
  then show ?case
    by (cases t) (auto simp: strcmp_Cons strcmp_Cons_Nil uint_0_iff word_less_def)
qed

lemma String_lt_lexord:
  assumes "holds_string m a s" "holds_string m b t"
  shows "String_lt a b m = Some ((s, t) \<in> lexord {(a, b). a < b})" "String_eq a b m = Some (s = t)"
  using strcmp_lexord [of s t] String_compare_strings [OF assms] assms
  by (auto simp: String_lt_def String_eq_def holds_string_def cstring_at_def)

text \<open>Construction from a C string.\<close>

lemma String_cstr_holds:
  assumes "cstring_at (m(self := 0)) p s" "length s + 1 < 2 ^ 64"
  obtains x m' where "String_cstr self new p m = Some (x, m')" "holds_string m' x s" "str_end x = self"
proof -
  have n: "strlen (m(self := 0)) p 0 = Some (of_nat (length s))" using strlen_cstring [OF assms(1), of 0] by simp
  have u: "unat (of_nat (length s) + 1 :: u64) = length s + 1"
    using unat_of_nat_u64 [OF assms(2)] by (simp add: add.commute)
  let ?m = "memcpy (m(self := 0)) new p (of_nat (length s) + 1)"
  have b: "bytes_at ?m new (length s + 1) = bytes_at (m(self := 0)) p (length s + 1)"
    using bytes_at_memcpy_word [of "m(self := 0)" new p "of_nat (length s) + 1"] unfolding u .
  then have "?m (new + of_nat i) = (m(self := 0)) (p + of_nat i)" if "i \<le> length s" for i
    using that nth_bytes_at [of i "length s + 1" ?m new] nth_bytes_at [of i "length s + 1" "m(self := 0)" p] by simp
  then have "cstring_at ?m new s"
    using assms(1) b unfolding cstring_at_def by (auto intro!: nth_equalityI simp: list_eq_iff_nth_eq)
  moreover have "unat (of_nat (length s) :: u64) = length s" using assms(2) by (intro unat_of_nat_u64) simp
  ultimately show ?thesis using that n by (simp add: String_cstr_def holds_string_def)
qed

subsection \<open>Code points\<close>

lemma UnicodeIterator_decode_bytes:
  assumes "c \<le> HELOS_UNICODE_MAX" "bytes_at m (str_str s + of_nat i) (length (utf8_bytes c)) = utf8_bytes c"
    and "i + length (utf8_bytes c) \<le> unat (str_size s)" "ui_parent it = s" "ui_i it = of_nat i"
  shows "UnicodeIterator_decode m it = it\<lparr>ui_adv := int (length (utf8_bytes c)), ui_cur := c\<rparr>"
proof -
  let ?n = "length (utf8_bytes c)"
  have i: "unat (of_nat i :: u64) = i" using assms(3) unat_lt_u64 [of "str_size s"] by (intro unat_of_nat_u64) linarith
  have n: "unat (of_nat ?n :: u64) = ?n" using length_utf8_bytes(2) [of c] by (intro unat_of_nat_u64) simp
  have "unat (str_size s - of_nat i) = unat (str_size s) - i"
    using assms(3) i by (simp add: unat_sub word_le_nat_alt)
  then have "of_nat ?n \<le> str_size s - of_nat i" using assms(3) n by (simp add: word_le_nat_alt)
  note d = utf8_bytes_decode [OF assms(1, 2) this, of "ui_cur it"]
  have "s32 (uint (of_nat ?n :: u64)) = int ?n"
    using n length_utf8_bytes(2) [of c] by (simp only: uint_nat n) (simp add: s32_int)
  then show ?thesis
    using d by (simp add: UnicodeIterator_decode_def String_C_def String_Length_def assms(4, 5))
qed

lemma String_codes_loop:
  assumes "bytes_at m (str_str s + of_nat i) (length (concat (map utf8_bytes cs))) = concat (map utf8_bytes cs)"
    and "\<forall>c \<in> set cs. c \<le> HELOS_UNICODE_MAX" "i + length (concat (map utf8_bytes cs)) = unat (str_size s)"
    and "ui_parent it = s" "ui_i it = of_nat i"
    and "cs \<noteq> [] \<longrightarrow> ui_cur it = hd cs \<and> ui_adv it = int (length (utf8_bytes (hd cs)))"
  shows "UnicodeIterator_loop m it codes = Some (codes @ cs)"
  using assms
proof (induction cs arbitrary: i it codes)
  case Nil
  then have "UnicodeIterator_End it"
    by (simp add: UnicodeIterator_End_def String_Length_def)
  with Nil show ?case by (subst UnicodeIterator_loop.simps) simp
next
  case (Cons c cs)
  let ?n = "length (utf8_bytes c)"
  have size: "i + ?n + length (concat (map utf8_bytes cs)) = unat (str_size s)" using Cons.prems(3) by simp
  have "unat (of_nat i :: u64) = i" using size unat_lt_u64 [of "str_size s"] by (intro unat_of_nat_u64) linarith
  then have "\<not> UnicodeIterator_End it"
    using size length_utf8_bytes(1) [of c] by (simp add: UnicodeIterator_End_def String_Length_def word_le_nat_alt Cons.prems(4, 5))
  moreover have "UnicodeIterator_loop m (UnicodeIterator_next m it) (codes @ [ui_cur it]) = Some ((codes @ [ui_cur it]) @ cs)"
  proof (rule Cons.IH)
    have "bytes_at m (str_str s + of_nat i) (?n + length (concat (map utf8_bytes cs))) = utf8_bytes c @ concat (map utf8_bytes cs)"
      using Cons.prems(1) by simp
    then show rest: "bytes_at m (str_str s + of_nat (i + ?n)) (length (concat (map utf8_bytes cs))) = concat (map utf8_bytes cs)"
      unfolding bytes_at_add by (simp add: add.assoc)
    show "\<forall>c \<in> set cs. c \<le> HELOS_UNICODE_MAX" using Cons.prems(2) by simp
    show "i + ?n + length (concat (map utf8_bytes cs)) = unat (str_size s)" by (rule size)
    let ?it = "it\<lparr>ui_i := of_nat (i + ?n)\<rparr>"
    have step: "UnicodeIterator_next m it = (if ui_i ?it < str_size s then UnicodeIterator_decode m ?it else ?it)"
      using Cons.prems(4-6) by (simp add: UnicodeIterator_next_def String_Length_def)
    have next_decode: "UnicodeIterator_next m it = UnicodeIterator_decode m ?it" if "cs \<noteq> []"
    proof -
      have "0 < length (concat (map utf8_bytes cs))" using that length_utf8_bytes(1) [of "hd cs"] by (cases cs) auto
      then have "i + ?n < unat (str_size s)" using size by linarith
      then have "(of_nat (i + ?n) :: u64) < str_size s"
        unfolding word_less_nat_alt using unat_of_nat_u64 [OF order.strict_trans [OF _ unat_lt_u64]] by metis
      then show ?thesis by (simp add: step)
    qed
    have decoded: "UnicodeIterator_decode m ?it = ?it\<lparr>ui_adv := int (length (utf8_bytes (hd cs))), ui_cur := hd cs\<rparr>" if "cs \<noteq> []"
    proof (rule UnicodeIterator_decode_bytes)
      obtain d ds where cs: "cs = d # ds" using \<open>cs \<noteq> []\<close> by (cases cs) auto
      have "bytes_at m (str_str s + of_nat (i + ?n)) (length (utf8_bytes d) + length (concat (map utf8_bytes ds))) =
          utf8_bytes d @ concat (map utf8_bytes ds)" using rest by (simp add: cs)
      then show "bytes_at m (str_str s + of_nat (i + ?n)) (length (utf8_bytes (hd cs))) = utf8_bytes (hd cs)"
        unfolding bytes_at_add by (simp add: cs)
      show "i + ?n + length (utf8_bytes (hd cs)) \<le> unat (str_size s)" using size by (simp add: cs)
      show "hd cs \<le> HELOS_UNICODE_MAX" using Cons.prems(2) by (simp add: cs)
    qed (use Cons.prems(4) in simp_all)
    show "ui_parent (UnicodeIterator_next m it) = s" "ui_i (UnicodeIterator_next m it) = of_nat (i + ?n)"
      using step next_decode decoded Cons.prems(4) by (auto simp: UnicodeIterator_decode_def split: prod.split)
    show "cs \<noteq> [] \<longrightarrow> ui_cur (UnicodeIterator_next m it) = hd cs \<and>
        ui_adv (UnicodeIterator_next m it) = int (length (utf8_bytes (hd cs)))"
      using next_decode decoded by simp
  qed
  ultimately show ?case using Cons.prems(6) by (subst UnicodeIterator_loop.simps) simp
qed

text \<open>For any bytes: a step advances, and not beyond the end.\<close>

definition iterator_ok :: "UnicodeIterator \<Rightarrow> bool" where
  "iterator_ok it \<longleftrightarrow> ui_i it < str_size (ui_parent it) \<longrightarrow>
     1 \<le> ui_adv it \<and> int (unat (ui_i it)) + ui_adv it \<le> int (unat (str_size (ui_parent it)))"

lemma iterator_ok_decode: "iterator_ok (UnicodeIterator_decode m it)"
proof -
  let ?p = "ui_parent it"
  obtain n r where d: "utf8_Decode m (String_C ?p + ui_i it) (String_Length ?p - ui_i it) (Some (ui_cur it)) = (n, r)"
    by (cases "utf8_Decode m (String_C ?p + ui_i it) (String_Length ?p - ui_i it) (Some (ui_cur it))")
  have "1 \<le> s32 (uint n) \<and> int (unat (ui_i it)) + s32 (uint n) \<le> int (unat (str_size ?p))" if lt: "ui_i it < str_size ?p"
  proof -
    have "0 < String_Length ?p - ui_i it" using lt by (simp add: String_Length_def word_gt_0)
    from utf8_Decode_advance [OF this d] have n: "1 \<le> unat n" "unat n \<le> 4" "n \<le> str_size ?p - ui_i it"
      by (simp_all add: String_Length_def word_le_nat_alt)
    have "unat (str_size ?p - ui_i it) = unat (str_size ?p) - unat (ui_i it)" using lt by (simp add: unat_sub)
    moreover have "s32 (uint n) = int (unat n)" using s32_int [of "unat n"] n(2) by simp
    ultimately show ?thesis using n lt unfolding word_le_nat_alt word_less_nat_alt by linarith
  qed
  then show ?thesis using d by (simp add: iterator_ok_def UnicodeIterator_decode_def)
qed

lemma UnicodeIterator_loop_ends:
  "iterator_ok it \<Longrightarrow> \<exists>more. UnicodeIterator_loop m it codes = Some (codes @ more) \<and>
     length more \<le> unat (str_size (ui_parent it)) - unat (ui_i it)"
proof (induction "unat (str_size (ui_parent it)) - unat (ui_i it)" arbitrary: it codes rule: less_induct)
  case less
  show ?case
  proof (cases "UnicodeIterator_End it")
    case True
    then show ?thesis by (subst UnicodeIterator_loop.simps) simp
  next
    case False
    then have lt: "ui_i it < str_size (ui_parent it)" by (simp add: UnicodeIterator_End_def String_Length_def not_le)
    then have adv: "1 \<le> ui_adv it" "int (unat (ui_i it)) + ui_adv it \<le> int (unat (str_size (ui_parent it)))"
      using less.prems by (simp_all add: iterator_ok_def)
    obtain k where k: "ui_adv it = int k" using adv(1) zero_le_imp_eq_int [of "ui_adv it"] by auto
    have a: "1 \<le> k" "unat (ui_i it) + k \<le> unat (str_size (ui_parent it))"
      using adv unfolding k by (linarith, simp only: of_nat_add [symmetric] of_nat_le_iff)
    have "unat (of_nat k :: u64) = k" using a(2) unat_lt_u64 [of "str_size (ui_parent it)"] by (intro unat_of_nat_u64) linarith
    moreover from this have "unat (ui_i it) + unat (of_nat k :: u64) < 2 ^ 64"
      using a unat_lt_u64 [of "str_size (ui_parent it)"] by linarith
    ultimately have i: "unat (ui_i it + of_int (ui_adv it)) = unat (ui_i it) + k"
      using unat_add_no_wrap [of "ui_i it" "of_nat k"] by (simp add: k)
    let ?it = "UnicodeIterator_next m it"
    have p: "ui_parent ?it = ui_parent it" and pos: "ui_i ?it = ui_i it + of_int (ui_adv it)"
      by (simp_all add: UnicodeIterator_next_def UnicodeIterator_decode_def Let_def split: prod.split)
    have ok: "iterator_ok ?it"
      using iterator_ok_decode by (simp add: UnicodeIterator_next_def Let_def String_Length_def) (simp add: iterator_ok_def)
    have "unat (str_size (ui_parent ?it)) - unat (ui_i ?it) < unat (str_size (ui_parent it)) - unat (ui_i it)"
      unfolding p pos i using a(1) lt by (simp add: word_less_nat_alt)
    from less.hyps [OF this ok, of "codes @ [ui_cur it]"]
    obtain more where "UnicodeIterator_loop m ?it (codes @ [ui_cur it]) = Some ((codes @ [ui_cur it]) @ more)"
      "length more \<le> unat (str_size (ui_parent it)) - (unat (ui_i it) + k)" unfolding p pos i by blast
    then show ?thesis using False a by (intro exI [of _ "ui_cur it # more"]) (subst UnicodeIterator_loop.simps, simp)
  qed
qed

text \<open>
  C37: Reading a string by code points always ends, after at most as many code points as the
  string has bytes; and when the string is the encoding of a list of code points, it gives that list.
\<close>

theorem String_codes_decodes:
  shows "(\<exists>codes. String_codes m s garbage = Some codes \<and> length codes \<le> unat (str_size s)) \<and>
    (\<forall>cs. (\<forall>c \<in> set cs. c \<le> HELOS_UNICODE_MAX) \<longrightarrow> unat (str_size s) = length (concat (map utf8_bytes cs)) \<longrightarrow>
      bytes_at m (str_str s) (length (concat (map utf8_bytes cs))) = concat (map utf8_bytes cs) \<longrightarrow>
      String_codes m s garbage = Some cs)"
proof (intro conjI allI impI)
  show "\<exists>codes. String_codes m s garbage = Some codes \<and> length codes \<le> unat (str_size s)"
    using UnicodeIterator_loop_ends [OF iterator_ok_decode, of m m "\<lparr>ui_parent = s, ui_i = 0, ui_cur = garbage, ui_adv = 0\<rparr>" "[]"]
    by (auto simp: String_codes_def UnicodeIterator_new_def UnicodeIterator_decode_def split: prod.splits)
next
  fix cs
  assume cs: "\<forall>c \<in> set cs. c \<le> HELOS_UNICODE_MAX" "unat (str_size s) = length (concat (map utf8_bytes cs))"
    "bytes_at m (str_str s) (length (concat (map utf8_bytes cs))) = concat (map utf8_bytes cs)"
  let ?it = "\<lparr>ui_parent = s, ui_i = 0, ui_cur = garbage, ui_adv = 0\<rparr>"
  have "UnicodeIterator_decode m ?it = ?it\<lparr>ui_adv := int (length (utf8_bytes (hd cs))), ui_cur := hd cs\<rparr>" if "cs \<noteq> []"
  proof -
    obtain d ds where d: "cs = d # ds" using \<open>cs \<noteq> []\<close> by (cases cs) auto
    have "bytes_at m (str_str s) (length (utf8_bytes d) + length (concat (map utf8_bytes ds))) =
        utf8_bytes d @ concat (map utf8_bytes ds)" using cs(3) by (simp add: d)
    then have b: "bytes_at m (str_str s + of_nat 0) (length (utf8_bytes d)) = utf8_bytes d"
      unfolding bytes_at_add by simp
    show ?thesis using UnicodeIterator_decode_bytes [OF _ b, of ?it] cs(1, 2) by (simp add: d)
  qed
  then show "String_codes m s garbage = Some cs"
    unfolding String_codes_def UnicodeIterator_new_def
    using cs by (subst String_codes_loop [of m s 0 cs]) (auto simp: UnicodeIterator_decode_def split: prod.splits)
qed

lemma demo_utf8_bytes: "utf8_bytes 0x41 = [0x41]" "utf8_bytes 0xE9 = [0xC3, 0xA9]"
  by (simp_all add: utf8_bytes_def utf8_Encode_def utf8_EncodeLength_def utf8_constants utf8_firstBytes_def encode_switch_unfold
      bytes_at_def upt_conv_Cons)

theorem String_codes_decodes_witness:
  "String_codes (store_bytes (\<lambda>_. 0) 0x1000 [0x41, 0xC3, 0xA9]) \<lparr>str_end = 0x10, str_str = 0x1000, str_size = 3\<rparr> 0 = Some [0x41, 0xE9]"
proof -
  let ?m = "store_bytes (\<lambda>_. 0) 0x1000 [0x41, 0xC3, 0xA9]" and ?s = "\<lparr>str_end = 0x10, str_str = 0x1000, str_size = 3\<rparr>"
  have b: "concat (map utf8_bytes [0x41, 0xE9]) = [0x41, 0xC3, 0xA9]" by (simp add: demo_utf8_bytes)
  have m: "bytes_at ?m 0x1000 (length [0x41 :: u8, 0xC3, 0xA9]) = [0x41, 0xC3, 0xA9]" by (rule bytes_at_store_bytes) simp
  have "\<forall>c \<in> set [0x41, 0xE9]. c \<le> HELOS_UNICODE_MAX" by (simp add: HELOS_UNICODE_MAX_def)
  with String_codes_decodes [THEN conjunct2, rule_format, of "[0x41, 0xE9]" ?s ?m 0] b m show ?thesis by (simp add: demo_utf8_bytes)
qed

end
