(* ===== verification/Channel.thy ===== *)
theory Channel
  imports Sync Queue
begin

text \<open>
  The channels of \<^verbatim>\<open>src/smp/channel.c\<close> on the queues of the theory Queue and the conditions of the theory
  Sync. A send waits in several places; between them it is a value of the type \<open>send_at\<close>, and each step
  runs up to the next place where the thread yields. What the allocator answers is an
  argument. Only sending is defined in the code.
\<close>

section \<open>The code\<close>

text \<open>\<open>sc_queue\<close> is \<open>None\<close> for a null pointer; the two conditions are what the fields \<^verbatim>\<open>send\<close> and \<^verbatim>\<open>recv\<close> hold.\<close>

record smp_Channel =
  sc_queue :: "addr option"
  sc_buffer :: addr
  sc_send :: addr
  sc_recv :: addr
  sc_objSize :: u64

record channel_state =
  ch_mem :: mem
  ch_queues :: "addr \<Rightarrow> queue_Queue option"
  ch_channels :: "addr \<Rightarrow> smp_Channel option"
  ch_smp :: smp_state

record channel_new =
  cn_channel :: addr
  cn_buffer :: addr
  cn_send :: addr
  cn_recv :: addr
  cn_queue :: addr
  cn_data :: addr
  cn_garbage :: queue_Queue

definition smp_Channel_Create :: "channel_new \<Rightarrow> u64 \<Rightarrow> u64 \<Rightarrow> channel_state \<Rightarrow> addr \<times> channel_state" where
  "smp_Channel_Create new objectSize bufferSize s =
     (let (send, smp) = smp_Condition_Create (cn_send new) (ch_smp s);
          (recv, smp) = smp_Condition_Create (cn_recv new) smp;
          c = \<lparr>sc_queue = (if bufferSize \<noteq> 0 then Some (cn_queue new) else None), sc_buffer = cn_buffer new,
            sc_send = send, sc_recv = recv, sc_objSize = objectSize\<rparr>;
          queues = (if bufferSize \<noteq> 0
            then (ch_queues s)(cn_queue new \<mapsto> queue_InitBuffered (cn_garbage new) (cn_data new) (objectSize * bufferSize))
            else ch_queues s)
      in (cn_channel new, s\<lparr>ch_smp := smp, ch_queues := queues, ch_channels := (ch_channels s)(cn_channel new \<mapsto> c)\<rparr>))"

text \<open>A null queue is read all the same.\<close>

definition smp_Channel_Destroy :: "addr \<Rightarrow> channel_state \<Rightarrow> channel_state option" where
  "smp_Channel_Destroy c s = do {
     ch \<leftarrow> ch_channels s c;
     (n, smp) \<leftarrow> smp_Condition_NotifyAll (sc_send ch) 0 (ch_smp s);
     (n, smp) \<leftarrow> smp_Condition_NotifyAll (sc_recv ch) 0 smp;
     q \<leftarrow> sc_queue ch;
     _ \<leftarrow> ch_queues s q;
     Some (s\<lparr>ch_smp := smp, ch_queues := (ch_queues s)(q := None), ch_channels := (ch_channels s)(c := None)\<rparr>)
   }"

subsection \<open>Sending\<close>

text \<open>The loop that fills the queue; the index is an \<^verbatim>\<open>int\<close>, compared with a count of 64 bits.\<close>

partial_function (option) Send_fill ::
  "u64 \<Rightarrow> addr \<Rightarrow> u64 \<Rightarrow> int \<Rightarrow> mem \<times> queue_Queue \<Rightarrow> (int \<times> mem \<times> queue_Queue) option" where
  "Send_fill objSize data cnt i s =
     (if (of_int i :: u64) < cnt \<and> queue_Space (snd s) \<noteq> 0
      then Send_fill objSize data cnt (s32 (i + 1)) (queue_Push (data + of_int i * objSize) objSize s)
      else Some (i, s))"

datatype send_at = Send_start | Send_next u64 int | Send_waited u64 int | Send_return u64

text \<open>The thread yields; what the wait delivers is not read.\<close>

definition channel_yield :: "smp_thread_State \<Rightarrow> channel_state \<Rightarrow> (smp_thread_State \<times> channel_state) option" where
  "channel_yield cpu s = do { (cpu, smp) \<leftarrow> smp_thread_Yield cpu (ch_smp s); Some (cpu, s\<lparr>ch_smp := smp\<rparr>) }"

definition Send_queue ::
  "smp_Channel \<Rightarrow> addr \<Rightarrow> addr \<Rightarrow> u64 \<Rightarrow> channel_state \<Rightarrow> (int \<times> channel_state) option" where
  "Send_queue ch qa data cnt s = do {
     q \<leftarrow> ch_queues s qa;
     (i, m, q) \<leftarrow> Send_fill (sc_objSize ch) data cnt 0 (ch_mem s, q);
     (n, smp) \<leftarrow> smp_Condition_NotifyAll (sc_recv ch) 0 (ch_smp s);
     Some (i, s\<lparr>ch_mem := m, ch_queues := (ch_queues s)(qa \<mapsto> q), ch_smp := smp\<rparr>)
   }"

definition Send_wait :: "smp_Channel \<Rightarrow> smp_Thread_Waiting \<Rightarrow> channel_state \<Rightarrow> channel_state option" where
  "Send_wait ch garbage s = do {
     smp \<leftarrow> Condition_Wait_request (sc_send ch) garbage (ch_smp s);
     Some (s\<lparr>ch_smp := smp\<rparr>)
   }"

definition Send_object :: "smp_Channel \<Rightarrow> addr \<Rightarrow> int \<Rightarrow> channel_state \<Rightarrow> channel_state option" where
  "Send_object ch data i s = do {
     let m = memcpy (ch_mem s) (sc_buffer ch) (data + of_int i * sc_objSize ch) (sc_objSize ch);
     (b, smp) \<leftarrow> smp_Condition_NotifyOne (sc_recv ch) 1 (ch_smp s);
     Some (s\<lparr>ch_mem := m, ch_smp := smp\<rparr>)
   }"

definition Send_step ::
  "addr \<Rightarrow> addr \<Rightarrow> u64 \<Rightarrow> smp_Thread_Waiting \<Rightarrow> send_at \<Rightarrow> smp_thread_State \<Rightarrow> channel_state \<Rightarrow>
     (send_at \<times> smp_thread_State \<times> channel_state) option" where
  "Send_step c data cnt garbage at cpu s = do {
     ch \<leftarrow> ch_channels s c;
     case at of
       Send_start \<Rightarrow> (case sc_queue ch of
           None \<Rightarrow> Some (Send_next 0 0, cpu, s)
         | Some qa \<Rightarrow> do {
             (i, s) \<leftarrow> Send_queue ch qa data cnt s;
             (cpu, s) \<leftarrow> channel_yield cpu s;
             Some (Send_next (of_int i) i, cpu, s)
           })
     | Send_next sent i \<Rightarrow>
         (if \<not> (of_int i :: u64) < cnt then Some (Send_return sent, cpu, s)
          else do {
            s \<leftarrow> Send_wait ch garbage s;
            (cpu, s) \<leftarrow> channel_yield cpu s;
            Some (Send_waited sent i, cpu, s)
          })
     | Send_waited sent i \<Rightarrow> do {
         s \<leftarrow> Send_object ch data i s;
         (cpu, s) \<leftarrow> channel_yield cpu s;
         Some (Send_next sent (s32 (i + 1)), cpu, s)
       }
     | Send_return sent \<Rightarrow> Some (Send_return sent, cpu, s)
   }"

section \<open>What the queue receives\<close>

lemma queue_Push_room:
  assumes "queue_inv (snd s)" "unat p + unat sz < 2 ^ 64" "disjoint_blocks p sz (q_data (snd s)) (q_size (snd s))"
    and "length (queue_contents s) + unat sz \<le> unat (q_size (snd s))"
  shows "queue_contents (queue_Push p sz s) = queue_contents s @ bytes_at (fst s) p (unat sz)"
    and "queue_inv (snd (queue_Push p sz s))"
    and "q_size (snd (queue_Push p sz s)) = q_size (snd s)" "q_data (snd (queue_Push p sz s)) = q_data (snd s)"
    and "\<not> in_block a (q_data (snd s)) (q_size (snd s)) \<Longrightarrow> fst (queue_Push p sz s) a = fst s a"
  using queue_Push_fold [OF assms(1-3)] rq.contents_pushes [OF assms(1)] rq.inv_pushes [OF assms(1)]
    queue_pushes_mem [OF assms(1)] assms(4) by simp_all

text \<open>\<open>k\<close> is the size of an object; a queue that holds whole objects has room for \<open>queue_room\<close> more.\<close>

definition whole_objects :: "nat \<Rightarrow> mem \<times> queue_Queue \<Rightarrow> bool" where
  "whole_objects k s \<longleftrightarrow> queue_inv (snd s) \<and> 0 < k \<and> k dvd unat (q_size (snd s)) \<and> k dvd length (queue_contents s)"

definition queue_room :: "nat \<Rightarrow> mem \<times> queue_Queue \<Rightarrow> nat" where
  "queue_room k s = (unat (q_size (snd s)) - length (queue_contents s)) div k"

lemma queue_room_Push:
  assumes "whole_objects (unat sz) s" "unat p + unat sz < 2 ^ 64"
    and "disjoint_blocks p sz (q_data (snd s)) (q_size (snd s))" "queue_Space (snd s) \<noteq> 0"
  shows "length (queue_contents s) + unat sz \<le> unat (q_size (snd s))"
    and "whole_objects (unat sz) (queue_Push p sz s)" "queue_room (unat sz) s = Suc (queue_room (unat sz) (queue_Push p sz s))"
proof -
  have inv: "queue_inv (snd s)" and k: "0 < unat sz" "unat sz dvd unat (q_size (snd s))" "unat sz dvd length (queue_contents s)"
    using assms(1) by (simp_all add: whole_objects_def)
  define room where "room = unat (q_size (snd s)) - length (queue_contents s)"
  have "0 < room" using queue_Space_unat [OF inv] assms(4) unfolding room_def by (metis unat_eq_zero neq0_conv)
  moreover have "unat sz dvd room" using k(2, 3) by (simp add: room_def)
  ultimately have room: "unat sz \<le> room" by (simp add: dvd_imp_le)
  then show le: "length (queue_contents s) + unat sz \<le> unat (q_size (snd s))" using rq.fits [OF inv] by (simp add: room_def)
  note r = queue_Push_room [OF inv assms(2, 3) le]
  have len: "length (queue_contents (queue_Push p sz s)) = length (queue_contents s) + unat sz" by (simp only: r(1) length_append length_bytes_at)
  then show "whole_objects (unat sz) (queue_Push p sz s)" using k r(2, 3) by (simp add: whole_objects_def)
  have "room div unat sz = Suc ((room - unat sz) div unat sz)" using room k(1) by (simp add: le_div_geq)
  then show "queue_room (unat sz) s = Suc (queue_room (unat sz) (queue_Push p sz s))"
    unfolding queue_room_def r(3) len room_def by simp
qed

lemma Send_fill_spec:
  assumes "whole_objects (unat sz) s" "i \<le> unat cnt" "unat cnt < 2 ^ 31" "unat data + unat cnt * unat sz < 2 ^ 64"
    and "disjoint_blocks data (of_nat (unat cnt * unat sz)) (q_data (snd s)) (q_size (snd s))"
    and "n = min (unat cnt) (i + queue_room (unat sz) s)"
  shows "\<exists>s'. Send_fill sz data cnt (int i) s = Some (int n, s') \<and> queue_inv (snd s') \<and>
    queue_contents s' = queue_contents s @ bytes_at (fst s) (data + of_nat (i * unat sz)) ((n - i) * unat sz) \<and>
    (\<forall>a. in_block a (q_data (snd s)) (q_size (snd s)) \<or> fst s' a = fst s a)"
  using assms
proof (induction "unat cnt - i" arbitrary: i s)
  case 0
  then have "i = unat cnt" "n = i" by simp_all
  then have "\<not> (of_int (int i) :: u64) < cnt" by (simp add: word_less_nat_alt)
  then show ?case using 0 by (subst Send_fill.simps) (simp add: whole_objects_def)
next
  case (Suc d)
  have inv: "queue_inv (snd s)" "0 < unat sz" using Suc.prems(1) by (simp_all add: whole_objects_def)
  have i: "i < unat cnt" using Suc.hyps(2) by simp
  have lt: "(of_int (int i) :: u64) < cnt"
    unfolding word_less_nat_alt using i unat_of_nat_u64 [OF order.strict_trans [OF i unat_lt_u64]] by simp
  show ?case
  proof (cases "queue_Space (snd s) = 0")
    case True
    then have "queue_room (unat sz) s = 0" using queue_Space_unat [OF inv(1)] by (simp add: queue_room_def)
    then have "n = i" using Suc.prems(6) i by simp
    with True lt inv show ?thesis by (subst Send_fill.simps) simp
  next
    case False
    let ?p = "data + of_nat (i * unat sz)"
    let ?s = "queue_Push ?p sz s"
    have isz: "i * unat sz + unat sz \<le> unat cnt * unat sz" using mult_le_mono1 [of "Suc i" "unat cnt" "unat sz"] i by simp
    have off: "unat (of_nat (i * unat sz) :: u64) = i * unat sz" and tot: "unat (of_nat (unat cnt * unat sz) :: u64) = unat cnt * unat sz"
      using isz Suc.prems(4) by (auto intro!: unat_of_nat_u64 simp del: of_nat_mult)
    have p: "unat ?p = unat data + i * unat sz" using isz Suc.prems(4) off by (subst unat_add_no_wrap) simp_all
    have at: "data + of_int (int i) * sz = ?p" by simp
    have nowrap: "unat ?p + unat sz < 2 ^ 64" using p isz Suc.prems(4) by linarith
    have inside: "in_block a data (of_nat (unat cnt * unat sz))" if "in_block a ?p sz" for a
      using that nowrap isz tot p Suc.prems(4) by (subst (asm) in_block_interval; simp add: in_block_interval)
    have disj: "disjoint_blocks ?p sz (q_data (snd s)) (q_size (snd s))"
      using Suc.prems(5) inside by (auto simp: disjoint_blocks_def)
    note room = queue_room_Push [OF Suc.prems(1) nowrap disj False] and push = queue_Push_room [OF inv(1) nowrap disj room(1)]
    have frame: "bytes_at (fst ?s) (data + of_nat j) l = bytes_at (fst s) (data + of_nat j) l" if "j + l \<le> unat cnt * unat sz" for j l
    proof (rule bytes_at_cong)
      fix x assume "x < l"
      then have "\<not> in_block (data + of_nat (j + x)) (q_data (snd s)) (q_size (snd s))"
        using that tot by (intro not_in_disjoint [OF Suc.prems(5)]) simp
      with push(5) show "fst ?s (data + of_nat j + of_nat x) = fst s (data + of_nat j + of_nat x)" by (simp add: add.assoc)
    qed
    have "d = unat cnt - Suc i" "Suc i \<le> unat cnt" using Suc.hyps(2) by simp_all
    moreover have n: "n = min (unat cnt) (Suc i + queue_room (unat sz) ?s)" using Suc.prems(6) room(3) by simp
    moreover note Suc.prems(3, 4) room(2)
    moreover have "disjoint_blocks data (of_nat (unat cnt * unat sz)) (q_data (snd ?s)) (q_size (snd ?s))"
      using Suc.prems(5) push(3, 4) by simp
    ultimately obtain s' where s': "Send_fill sz data cnt (int (Suc i)) ?s = Some (int n, s')" "queue_inv (snd s')"
      "queue_contents s' = queue_contents ?s @ bytes_at (fst ?s) (data + of_nat (Suc i * unat sz)) ((n - Suc i) * unat sz)"
      "\<forall>a. in_block a (q_data (snd ?s)) (q_size (snd ?s)) \<or> fst s' a = fst ?s a"
      using Suc.hyps(1) [of "Suc i" ?s] by blast
    have "Suc i \<le> n" "n \<le> unat cnt" using n i by simp_all
    then have "n - i = Suc (n - Suc i)" by simp
    then have split: "(n - i) * unat sz = unat sz + (n - Suc i) * unat sz" by simp
    have "Suc i * unat sz + (n - Suc i) * unat sz = n * unat sz"
      using \<open>Suc i \<le> n\<close> by (metis add_mult_distrib le_add_diff_inverse)
    then have "Suc i * unat sz + (n - Suc i) * unat sz \<le> unat cnt * unat sz" using mult_le_mono1 [OF \<open>n \<le> unat cnt\<close>] by simp
    note rest = frame [OF this]
    have "queue_contents s' = queue_contents s @ bytes_at (fst s) ?p ((n - i) * unat sz)"
      unfolding s'(3) push(1) rest split bytes_at_add by (simp add: ac_simps)
    moreover have "Send_fill sz data cnt (int i) s = Some (int n, s')"
      using s'(1) lt False i Suc.prems(3) by (subst Send_fill.simps) (simp add: at s32_int add.commute)
    ultimately show ?thesis using s'(2, 4) push(3-5) by metis
  qed
qed

text \<open>A channel as it is created: the queue is empty and has room for the objects asked for.\<close>

lemma Create_queue:
  assumes "0 < unat objectSize" "0 < unat bufferSize" "unat objectSize * unat bufferSize < 2 ^ 64"
  obtains q where "ch_queues (snd (smp_Channel_Create new objectSize bufferSize s)) (cn_queue new) = Some q"
    "queue_contents (m, q) = []" "whole_objects (unat objectSize) (m, q)" "queue_room (unat objectSize) (m, q) = unat bufferSize"
proof -
  define q where "q = queue_InitBuffered (cn_garbage new) (cn_data new) (objectSize * bufferSize)"
  have sz: "unat (objectSize * bufferSize) = unat objectSize * unat bufferSize" using assms(3) by (simp add: unat_word_ariths)
  have "0 < unat objectSize * unat bufferSize" using assms(1, 2) by simp
  then have "0 < unat (objectSize * bufferSize)" unfolding sz .
  then have "queue_inv q" "queue_contents (m, q) = []"
    by (simp_all only: q_def queue_InitBuffered_def queue_inv_def) (simp_all add: q_def queue_InitBuffered_def queue_inv_def q_off_def q_cell_def queue_contents_def)
  moreover have "q_size q = objectSize * bufferSize" by (simp add: q_def queue_InitBuffered_def)
  ultimately have "whole_objects (unat objectSize) (m, q)" "queue_room (unat objectSize) (m, q) = unat bufferSize"
    using assms(1) sz by (simp_all add: whole_objects_def queue_room_def)
  moreover have "ch_queues (snd (smp_Channel_Create new objectSize bufferSize s)) (cn_queue new) = Some q"
    using assms(2) by (auto simp: smp_Channel_Create_def Let_def q_def smp_Condition_Create_def)
  ultimately show ?thesis using that \<open>queue_contents (m, q) = []\<close> by blast
qed

text \<open>
  C32: The first part of a send to a buffered channel puts whole objects into the queue, in their order
  and behind those already there, until all are sent or no room is left; it returns after them, says how many
  they were, changes no memory but the buffer of the queue, and releases every thread that waits to receive.
\<close>

theorem Send_queue_fills:
  assumes "ch_queues s qa = Some q" "whole_objects (unat (sc_objSize ch)) (ch_mem s, q)" "unat cnt < 2 ^ 31"
    and "unat data + unat cnt * unat (sc_objSize ch) < 2 ^ 64"
    and "disjoint_blocks data (of_nat (unat cnt * unat (sc_objSize ch))) (q_data q) (q_size q)"
    and "smp_Condition_NotifyAll (sc_recv ch) 0 (ch_smp s) = Some (r, smp)"
    and "n = min (unat cnt) (queue_room (unat (sc_objSize ch)) (ch_mem s, q))"
  shows "\<exists>q' s'. Send_queue ch qa data cnt s = Some (int n, s') \<and> ch_queues s' qa = Some q' \<and> queue_inv q' \<and>
    queue_contents (ch_mem s', q') =
      queue_contents (ch_mem s, q) @ bytes_at (ch_mem s) data (n * unat (sc_objSize ch)) \<and>
    (\<forall>a. in_block a (q_data q) (q_size q) \<or> ch_mem s' a = ch_mem s a) \<and> ch_smp s' = smp"
proof -
  obtain m' q' where "Send_fill (sc_objSize ch) data cnt (int 0) (ch_mem s, q) = Some (int n, m', q')" "queue_inv q'"
    "queue_contents (m', q') = queue_contents (ch_mem s, q) @ bytes_at (ch_mem s) data (n * unat (sc_objSize ch))"
    "\<forall>a. in_block a (q_data q) (q_size q) \<or> m' a = ch_mem s a"
    using Send_fill_spec [of "sc_objSize ch" "(ch_mem s, q)" 0 cnt data n] assms by auto
  with assms(1, 6) show ?thesis by (simp add: Send_queue_def)
qed

definition demo_new :: channel_new where
  "demo_new = \<lparr>cn_channel = 0x10, cn_buffer = 0x20, cn_send = 0x30, cn_recv = 0x40, cn_queue = 0x50, cn_data = 0x1000,
     cn_garbage = \<lparr>q_data = 0, q_size = 0, q_begin = 0, q_end = 0, q_count = 0\<rparr>\<rparr>"

definition demo_channel :: channel_state where
  "demo_channel = snd (smp_Channel_Create demo_new 2 2 \<lparr>ch_mem = \<lambda>a. ucast a, ch_queues = \<lambda>_. None, ch_channels = \<lambda>_. None,
     ch_smp = demo_smp\<rparr>)"

lemma demo_channel_simps [simp]:
  "ch_mem demo_channel = (\<lambda>a. ucast a)"
  "ch_smp demo_channel = demo_smp\<lparr>s_conditions := [0x30 \<mapsto> [], 0x40 \<mapsto> []]\<rparr>"
  "ch_queues demo_channel 0x50 = Some \<lparr>q_data = 0x1000, q_size = 4, q_begin = 0x1000, q_end = 0x1000, q_count = 0\<rparr>"
  "ch_channels demo_channel 0x10 = Some \<lparr>sc_queue = Some 0x50, sc_buffer = 0x20, sc_send = 0x30, sc_recv = 0x40, sc_objSize = 2\<rparr>"
  by (simp_all add: demo_channel_def demo_new_def smp_Channel_Create_def smp_Condition_Create_def queue_InitBuffered_def demo_smp_def)

theorem Send_queue_fills_witness:
  "\<exists>ch q' s'. ch_channels demo_channel 0x10 = Some ch \<and> Send_queue ch 0x50 0x2000 3 demo_channel = Some (2, s') \<and>
    ch_queues s' 0x50 = Some q' \<and> queue_contents (ch_mem s', q') = [0, 1, 2, 3]"
proof -
  let ?q = "\<lparr>q_data = 0x1000, q_size = 4, q_begin = 0x1000, q_end = 0x1000, q_count = 0\<rparr> :: queue_Queue"
  let ?ch = "\<lparr>sc_queue = Some 0x50, sc_buffer = 0x20, sc_send = 0x30, sc_recv = 0x40, sc_objSize = 2\<rparr>"
  have q: "whole_objects (unat (2 :: u64)) (\<lambda>a. ucast a, ?q)" "queue_room (unat (2 :: u64)) (\<lambda>a. ucast a, ?q) = 2"
    "queue_contents (\<lambda>a. ucast a, ?q) = []"
    by (simp_all add: whole_objects_def queue_room_def queue_inv_def q_off_def q_cell_def queue_contents_def)
  have smp: "smp_Condition_NotifyAll 0x40 0 (ch_smp demo_channel) = Some (0, ch_smp demo_channel)"
    by (simp add: smp_Condition_NotifyAll_def)
  have bytes: "bytes_at (\<lambda>a. ucast a) 0x2000 4 = [0, 1, 2, 3]" by (simp add: bytes_at_def upt_conv_Cons)
  have a: "ch_queues demo_channel 0x50 = Some ?q" by simp
  have b: "whole_objects (unat (sc_objSize ?ch)) (ch_mem demo_channel, ?q)" using q(1) by simp
  have c: "unat (3 :: u64) < 2 ^ 31" "unat (0x2000 :: u64) + unat (3 :: u64) * unat (sc_objSize ?ch) < 2 ^ 64" by simp_all
  have d: "smp_Condition_NotifyAll (sc_recv ?ch) 0 (ch_smp demo_channel) = Some (0, ch_smp demo_channel)" using smp by simp
  have e: "2 = min (unat (3 :: u64)) (queue_room (unat (sc_objSize ?ch)) (ch_mem demo_channel, ?q))" using q(2) by simp
  have f: "disjoint_blocks 0x2000 (of_nat (unat (3 :: u64) * unat (sc_objSize ?ch))) (q_data ?q) (q_size ?q)"
    by (intro disjoint_blocks_sym [OF disjoint_blocksI]) simp_all
  obtain q' s' where s': "Send_queue ?ch 0x50 0x2000 3 demo_channel = Some (int 2, s')" "ch_queues s' 0x50 = Some q'"
    "queue_contents (ch_mem s', q') = queue_contents (ch_mem demo_channel, ?q) @ bytes_at (ch_mem demo_channel) 0x2000 (2 * unat (sc_objSize ?ch))"
    using Send_queue_fills [OF a b c f d e] by blast
  have "queue_contents (ch_mem s', q') = [0, 1, 2, 3]" using s'(3) q(3) bytes by simp
  with s'(1, 2) show ?thesis by simp
qed

end
