(* ===== verification/Kmain.thy ===== *)
theory Kmain
  imports Input Graphics Cstring
begin

text \<open>
  The main thread, \<^verbatim>\<open>src/kernel/kmain.c\<close>: the choice of the cursor from the file of
  \<^verbatim>\<open>src/graphics/xcursor/xcursor.c\<close>, the loop that takes the events off the queue, and the loop of the
  thread that reads the serial port. What is printed is a list of messages. The calls that start the
  other parts of the system are modelled with those parts.
\<close>

section \<open>The code\<close>

subsection \<open>Cursor files\<close>

definition XCURSOR_MAGIC :: "u8 list" where "XCURSOR_MAGIC = [0x58, 0x63, 0x75, 0x72]"
definition XCURSOR_CHUNKTYPE_COMMENT :: u64 where "XCURSOR_CHUNKTYPE_COMMENT = 0xfffe0001"
definition XCURSOR_CHUNKTYPE_IMAGE :: u64 where "XCURSOR_CHUNKTYPE_IMAGE = 0xfffd0002"

definition xcursor_Header :: layout where
  "xcursor_Header = [(''magic'', 4), (''headerSize'', 4), (''version'', 4), (''numTOC'', 4)]"

definition xcursor_TOCEntry :: layout where
  "xcursor_TOCEntry = [(''type'', 4), (''subtype'', 4), (''offset'', 4)]"

definition xcursor_ChunkHeader_Image :: layout where
  "xcursor_ChunkHeader_Image =
    [(''headerSize'', 4), (''type'', 4), (''subtype'', 4), (''version'', 4), (''width'', 4), (''height'', 4),
     (''xhot'', 4), (''yhot'', 4), (''delay'', 4), (''pixels'', 4)]"

record xcursor_Xcursor =
  xc_header :: addr
  xc_size :: u64
  xc_n :: u64
  xc_toc :: addr

abbreviation member :: "mem \<Rightarrow> layout \<Rightarrow> addr \<Rightarrow> string \<Rightarrow> u64" where
  "member m l p f \<equiv> le_load m (p + of_nat (offsetof l f)) 4"

definition xcursor_LoadMemory :: "addr \<Rightarrow> u64 \<Rightarrow> mem \<Rightarrow> xcursor_Xcursor \<Rightarrow> xcursor_Xcursor" where
  "xcursor_LoadMemory file fileSize m cursor =
     (let cursor = cursor\<lparr>xc_header := 0\<rparr> in
      if memcmp 4 (mem_chars m file) (str_chars XCURSOR_MAGIC) \<noteq> 0 then cursor
      else cursor\<lparr>xc_size := fileSize, xc_n := member m xcursor_Header file ''numTOC'',
        xc_toc := file + member m xcursor_Header file ''headerSize'', xc_header := file\<rparr>)"

text \<open>The first entry of the table that is an image; the index is an \<^verbatim>\<open>int\<close>.\<close>

definition toc_entry :: "xcursor_Xcursor \<Rightarrow> nat \<Rightarrow> addr" where
  "toc_entry cursor i = xc_toc cursor + of_nat (sizeof xcursor_TOCEntry * i)"

definition kMain_find_image :: "mem \<Rightarrow> xcursor_Xcursor \<Rightarrow> nat option" where
  "kMain_find_image m cursor =
     find (\<lambda>i. member m xcursor_TOCEntry (toc_entry cursor i) ''type'' = XCURSOR_CHUNKTYPE_IMAGE) [0..<unat (xc_n cursor)]"

definition load_image :: "mem \<Rightarrow> addr \<Rightarrow> xcursor_Image" where
  "load_image m p =
     \<lparr>xc_width = ucast (member m xcursor_ChunkHeader_Image p ''width''),
      xc_height = ucast (member m xcursor_ChunkHeader_Image p ''height''),
      xc_xhot = ucast (member m xcursor_ChunkHeader_Image p ''xhot''),
      xc_yhot = ucast (member m xcursor_ChunkHeader_Image p ''yhot''),
      xc_pixels = p + of_nat (offsetof xcursor_ChunkHeader_Image ''pixels'')\<rparr>"

definition kMain_cursor :: "addr \<Rightarrow> addr \<Rightarrow> xcursor_Xcursor \<Rightarrow> graphics_state \<Rightarrow> graphics_state" where
  "kMain_cursor embed_Data embed_End garbage s =
     (let cursor = xcursor_LoadMemory embed_Data (embed_End - embed_Data) (g_mem s) garbage in
      if xc_header cursor = 0 then s
      else case kMain_find_image (g_mem s) cursor of
          None \<Rightarrow> s
        | Some i \<Rightarrow> s\<lparr>g_Cursor := Some (load_image (g_mem s)
              (embed_Data + member (g_mem s) xcursor_TOCEntry (toc_entry cursor i) ''offset''))\<rparr>)"

subsection \<open>Events\<close>

datatype kMain_message =
    Message_KeyPressed string
  | Message_KeyReleased string
  | Message_MouseButtonPressed int
  | Message_MouseButtonReleased int

definition load_int :: "mem \<Rightarrow> addr \<Rightarrow> int" where
  "load_int m p = s32 (uint (le_load m p 4))"

text \<open>The message for the event at \<open>e\<close>: its type is the first member, the key or button the second.\<close>

definition kMain_message :: "mem \<Rightarrow> addr \<Rightarrow> kMain_message list" where
  "kMain_message m e =
     (let type = load_int m e in
      if type = 3 then [Message_KeyPressed (input_Key_GetName (load_int m (e + 4)))]
      else if type = 4 then [Message_KeyReleased (input_Key_GetName (load_int m (e + 4)))]
      else if type = 1 then [Message_MouseButtonPressed (load_int m (e + 4))]
      else if type = 2 then [Message_MouseButtonReleased (load_int m (e + 4))]
      else [])"

partial_function (option) kMain_drain ::
  "addr \<Rightarrow> kMain_message list \<Rightarrow> mem \<times> queue_Queue \<Rightarrow> (kMain_message list \<times> mem \<times> queue_Queue) option" where
  "kMain_drain e out s =
     (if queue_Size (snd s) > 0
      then (let s = snd (queue_Pop e sizeof_input_Event s) in kMain_drain e (out @ kMain_message (fst s) e) s)
      else Some (out, s))"

text \<open>The bytes the thread of the serial port prints each time it is notified.\<close>

partial_function (option) kThreader_SerialReader_drain ::
  "u8 list \<Rightarrow> mem \<times> queue_Queue \<Rightarrow> (u8 list \<times> mem \<times> queue_Queue) option" where
  "kThreader_SerialReader_drain out s =
     (if \<not> queue_Empty (snd s)
      then (let (b, s) = queue_PopByte s in kThreader_SerialReader_drain (out @ [b]) s)
      else Some (out, s))"

section \<open>The events reported\<close>

fun message_of :: "input_Event \<Rightarrow> kMain_message list" where
  "message_of (MouseMoved x y) = []"
| "message_of (MouseButtonPressed b x y) = [Message_MouseButtonPressed (s32 b)]"
| "message_of (MouseButtonReleased b x y) = [Message_MouseButtonReleased (s32 b)]"
| "message_of (KeyPressed k c sh a su) = [Message_KeyPressed (input_Key_GetName (s32 k))]"
| "message_of (KeyReleased k c sh a su) = [Message_KeyReleased (input_Key_GetName (s32 k))]"

lemma load_int_bytes: "bytes_at m p 4 = int_bytes x \<Longrightarrow> load_int m p = s32 x"
  by (simp add: load_int_def le_load_value int_bytes_def s32_def unsigned_take_bit_eq uint_word_of_int_eq
      take_bit_take_bit signed_take_bit_take_bit)

lemma int_bytes_simps [simp]: "length (int_bytes x) = 4"
  by (simp add: int_bytes_def)

lemma kMain_message_bytes:
  assumes "bytes_at m p 16 = event_bytes ev"
  shows "kMain_message m p = message_of ev"
proof -
  have "bytes_at m p (4 + (4 + 8)) = event_bytes ev" using assms by simp
  then have split: "bytes_at m p 4 @ bytes_at m (p + 4) 4 @ bytes_at m (p + 8) 8 = event_bytes ev"
    unfolding bytes_at_add by (simp add: add.assoc)
  have app: "xs @ ys = zs @ us \<longleftrightarrow> xs = zs \<and> ys = us" if "length xs = 4" "length zs = 4" for xs ys zs us :: "u8 list"
    using that by simp
  show ?thesis
    using split load_int_bytes [of m p] load_int_bytes [of m "p + 4"]
    by (cases ev) (auto simp: event_bytes.simps app kMain_message_def)
qed

lemma queue_Pop_loop_frame:
  "q_data (snd (queue_Pop_loop i e s)) = q_data (snd s) \<and> q_size (snd (queue_Pop_loop i e s)) = q_size (snd s)"
proof (induction i e s rule: queue_Pop_loop.induct)
  case (1 i e s)
  obtain b m q where pop: "queue_PopByte s = (b, m, q)" by (cases "queue_PopByte s") auto
  with 1 [of "(b, m, q)" b "(m, q)" m q] q_data_PopByte [of s] q_size_PopByte [of s]
  show ?case by (subst (1 2) queue_Pop_loop.simps) simp
qed

lemma queue_Pop_frame:
  "q_data (snd (snd (queue_Pop p n s))) = q_data (snd s)" "q_size (snd (snd (queue_Pop p n s))) = q_size (snd s)"
  by (simp_all add: queue_Pop_def queue_Pop_loop_frame)

text \<open>The loop takes all events off the queue and reports them in their order.\<close>

lemma kMain_drain_events:
  assumes "queue_inv (snd s)" "queue_contents s = concat (map event_bytes es)"
    and "unat e + 16 < 2 ^ 64" "disjoint_blocks e 16 (q_data (snd s)) (q_size (snd s))"
  shows "\<exists>s'. kMain_drain e out s = Some (out @ concat (map message_of es), s') \<and> queue_contents s' = [] \<and> queue_inv (snd s')"
  using assms
proof (induction es arbitrary: s out)
  case Nil
  then have "q_count (snd s) = 0" by (metis concat.simps(1) length_0_conv length_queue_contents list.simps(8) unat_eq_zero)
  with Nil show ?case by (subst kMain_drain.simps) (simp add: queue_Size_def)
next
  case (Cons ev es)
  obtain r s' where pop: "queue_Pop e sizeof_input_Event s = (r, s')" by (cases "queue_Pop e sizeof_input_Event s")
  have "unat e + unat sizeof_input_Event < 2 ^ 64" "disjoint_blocks e sizeof_input_Event (q_data (snd s)) (q_size (snd s))"
    using Cons.prems(3, 4) by (simp_all add: sizeof_input_Event_def)
  note spec = queue_Pop_spec [OF Cons.prems(1) this pop]
  have s': "bytes_at (fst s') e 16 = event_bytes ev" "queue_contents s' = concat (map event_bytes es)" "queue_inv (snd s')"
    using spec Cons.prems(2) by (simp_all add: sizeof_input_Event_def)
  have "0 < queue_Size (snd s)"
  proof -
    have "unat (q_count (snd s)) \<noteq> 0" using Cons.prems(2) length_queue_contents [of s] by simp
    then show ?thesis by (auto simp: queue_Size_def word_gt_0)
  qed
  moreover have "q_data (snd s') = q_data (snd s)" "q_size (snd s') = q_size (snd s)"
    using queue_Pop_frame [of e sizeof_input_Event s] pop by simp_all
  with Cons.IH [OF s'(3, 2) Cons.prems(3), of "out @ message_of ev"] Cons.prems(4)
  obtain s'' where "kMain_drain e (out @ message_of ev) s' = Some ((out @ message_of ev) @ concat (map message_of es), s'')"
    "queue_contents s'' = []" "queue_inv (snd s'')" by auto
  ultimately show ?case using pop kMain_message_bytes [OF s'(1)] by (subst kMain_drain.simps) simp
qed

text \<open>The bytes that have come in over the serial port are printed in their order.\<close>

lemma SerialReader_drain_prints:
  "queue_inv (snd s) \<Longrightarrow> \<exists>s'. kThreader_SerialReader_drain out s = Some (out @ queue_contents s, s') \<and> queue_contents s' = []"
proof (induction "queue_contents s" arbitrary: s out)
  case Nil
  then have "q_count (snd s) = 0" by (metis length_0_conv length_queue_contents unat_eq_zero)
  with Nil show ?case by (subst kThreader_SerialReader_drain.simps) (simp add: queue_Empty_def)
next
  case (Cons b bs)
  have "\<not> queue_Empty (snd s)"
  proof
    assume "queue_Empty (snd s)"
    then have "queue_contents s = []" by (metis length_0_conv length_queue_contents queue_Empty_def unat_0)
    with Cons.hyps(2) show False by simp
  qed
  moreover obtain s' where s': "queue_PopByte s = (b, s')" "queue_contents s' = bs" "queue_inv (snd s')"
    using rq.pop_some [OF Cons.prems Cons.hyps(2) [symmetric]] rq.inv_pop [OF Cons.prems] by (cases "queue_PopByte s") auto
  moreover obtain s'' where "kThreader_SerialReader_drain (out @ [b]) s' = Some ((out @ [b]) @ bs, s'')" "queue_contents s'' = []"
    using Cons.hyps(1) [of s' "out @ [b]"] s'(2, 3) by auto
  ultimately show ?case using Cons.hyps(2) by (subst kThreader_SerialReader_drain.simps) auto
qed

text \<open>
  C36: What the input drivers do is what the main thread reports: when operations of the drivers have run
  on an empty queue, the loop of the main thread ends, leaves the queue empty, and has printed the
  messages of the events of these operations in their order, of the first ones as far as the queue has room.
\<close>

theorem kMain_reports_input:
  assumes "input_run s ops s'" "event_queue s q []" "\<And>op. op \<in> set ops \<Longrightarrow> op_clear q op"
    and "unat e + 16 < 2 ^ 64" "disjoint_blocks e 16 (q_data q) (q_size q)" "in_EventQueue s' = Some q'"
  shows "\<exists>m q''. kMain_drain e [] (in_mem s', q') =
      Some (concat (map message_of (take (unat (q_size q) div 16) (trace_events ops s))), m, q'') \<and> queue_contents (m, q'') = []"
proof -
  have "event_queue s' q (concat (map event_bytes (take (unat (q_size q) div 16) (trace_events ops s))))"
    using fold_apply_event_queue [OF assms(2) _ assms(3)] assms(1) by (simp add: input_run_fold)
  then have q': "queue_inv q'" "q_data q' = q_data q" "q_size q' = q_size q"
    "queue_contents (in_mem s', q') = concat (map event_bytes (take (unat (q_size q) div 16) (trace_events ops s)))"
    using assms(6) by (auto simp: event_queue_def)
  with kMain_drain_events [of "(in_mem s', q')" _ e "[]"] assms(4, 5) show ?thesis by fastforce
qed

theorem kMain_reports_input_witness:
  "\<exists>m q. kMain_drain 0x8000 [] (in_mem (fold input_apply demo_ops demo_input), the (in_EventQueue (fold input_apply demo_ops demo_input))) =
     Some ([Message_KeyPressed ''input_Key_LShift''], m, q)"
proof -
  let ?q = "the (in_EventQueue demo_input)" and ?s = "fold input_apply demo_ops demo_input"
  have q: "event_queue demo_input ?q []"
    by (simp add: event_queue_def demo_input_def queue_inv_def q_off_def q_cell_def queue_contents_def)
  have clear: "op_clear ?q op" if "op \<in> set demo_ops" for op
    using that by (auto simp: demo_ops_def demo_input_def intro!: disjoint_blocks_sym [OF disjoint_blocksI])
  have e: "unat (0x8000 :: u64) + 16 < 2 ^ 64" "disjoint_blocks 0x8000 16 (q_data ?q) (q_size ?q)"
    by (simp_all add: demo_input_def disjoint_blocks_sym [OF disjoint_blocksI])
  have events: "take (unat (q_size ?q) div 16) (trace_events demo_ops demo_input) =
      [KeyPressed input_Key_LShift False True False False, MouseMoved 8 3]"
    by (simp add: demo_ops_def demo_input_def source_defs Let_def input_Key_defs flagControl_def flagShift_def
        flagAlt_def input_KeyPressed_def shl1_def intminmax_def key_index)
  have name: "input_Key_GetName (s32 input_Key_LShift) = ''input_Key_LShift''"
    by (simp add: input_Key_GetName_def input_Key_cases_def input_Key_defs)
  have "event_queue ?s ?q (concat (map event_bytes (take (unat (q_size ?q) div 16) (trace_events demo_ops demo_input))))"
    using fold_apply_event_queue [OF q _ clear, of demo_ops] by simp
  then obtain q' where "in_EventQueue ?s = Some q'" by (auto simp: event_queue_def)
  with kMain_reports_input [OF demo_input_run q clear e this] show ?thesis
    unfolding events by (auto simp: name)
qed

subsection \<open>The cursor\<close>

text \<open>A cursor file: a header, then a table with an entry for each chunk.\<close>

definition toc_bytes :: "u32 \<times> u32 \<times> u32 \<Rightarrow> u8 list" where
  "toc_bytes = (\<lambda>(type, subtype, offset). le_bytes 4 (ucast type) @ le_bytes 4 (ucast subtype) @ le_bytes 4 (ucast offset))"

definition cursor_file :: "u32 \<Rightarrow> (u32 \<times> u32 \<times> u32) list \<Rightarrow> u8 list" where
  "cursor_file version toc =
     XCURSOR_MAGIC @ le_bytes 4 16 @ le_bytes 4 (ucast version) @ le_bytes 4 (of_nat (length toc)) @ concat (map toc_bytes toc)"

lemma length_toc_bytes [simp]: "length (toc_bytes t) = 12"
  by (simp add: toc_bytes_def split: prod.split)

lemma drop_toc: "drop (12 * i) (concat (map toc_bytes toc)) = concat (map toc_bytes (drop i toc))"
proof (induction i arbitrary: toc)
  case (Suc i)
  then show ?case by (cases toc) simp_all
qed simp

lemma member_part:
  assumes "bytes_at m p n = bs" "off + 4 \<le> n" "take 4 (drop off bs) = le_bytes 4 w"
  shows "le_load m (p + of_nat off) 4 = take_bit 32 w"
  using bytes_at_part [OF assms(1, 2)] assms(3) by (simp add: le_load_value)

lemma find_map: "find P (map f xs) = map_option f (find (P \<circ> f) xs)"
  by (induction xs) simp_all

lemma find_nth_case:
  "(case find (\<lambda>i. P (xs ! i)) [0..<length xs] of None \<Rightarrow> a | Some i \<Rightarrow> f (xs ! i)) =
   (case find P xs of None \<Rightarrow> a | Some x \<Rightarrow> f x)"
proof -
  have "find P xs = find P (map ((!) xs) [0..<length xs])" by (simp only: map_nth)
  then show ?thesis by (simp add: find_map o_def split: option.split)
qed

text \<open>The cursor becomes the image of the first entry of that type, and stays as it is when there is none.\<close>

lemma kMain_cursor_first_image:
  assumes "bytes_at (g_mem s) p (16 + 12 * length toc) = cursor_file version toc" "length toc < 2 ^ 32" "p \<noteq> 0"
  shows "kMain_cursor p pe garbage s =
    (case find (\<lambda>(type, subtype, offset). ucast type = XCURSOR_CHUNKTYPE_IMAGE) toc of
       None \<Rightarrow> s
     | Some (type, subtype, offset) \<Rightarrow> s\<lparr>g_Cursor := Some (load_image (g_mem s) (p + ucast offset))\<rparr>)"
proof -
  note b = member_part [OF assms(1)]
  have "le_load (g_mem s) (p + of_nat 4) 4 = take_bit 32 16"
    by (rule b) (simp_all add: cursor_file_def XCURSOR_MAGIC_def)
  then have size: "member (g_mem s) xcursor_Header p ''headerSize'' = 16"
    by (simp add: offsetof_def sizeof_def xcursor_Header_def)
  have "le_load (g_mem s) (p + of_nat 12) 4 = take_bit 32 (of_nat (length toc))"
    by (rule b) (simp_all add: cursor_file_def XCURSOR_MAGIC_def)
  then have n: "member (g_mem s) xcursor_Header p ''numTOC'' = of_nat (length toc)"
    using assms(2) by (simp add: offsetof_def sizeof_def xcursor_Header_def take_bit_of_nat take_bit_nat_eq_self)
  have magic: "memcmp 4 (mem_chars (g_mem s) p) (str_chars XCURSOR_MAGIC) = 0"
  proof -
    have "bytes_at (g_mem s) (p + of_nat 0) 4 = XCURSOR_MAGIC"
      by (subst bytes_at_part [OF assms(1)]) (simp_all add: cursor_file_def XCURSOR_MAGIC_def)
    then have "g_mem s (p + of_nat i) = XCURSOR_MAGIC ! i" if "i < 4" for i
      using that nth_bytes_at [of i 4 "g_mem s" p] by simp
    then show ?thesis by (auto simp: memcmp_zero mem_chars_def str_chars_def XCURSOR_MAGIC_def)
  qed
  have entry: "le_load (g_mem s) (p + of_nat (16 + 12 * i)) 4 = ucast type"
    "le_load (g_mem s) (p + of_nat (24 + 12 * i)) 4 = ucast offset" if i: "i < length toc" "toc ! i = (type, subtype, offset)" for i type subtype offset
  proof -
    have table: "drop 16 (cursor_file version toc) = concat (map toc_bytes toc)"
      by (simp add: cursor_file_def XCURSOR_MAGIC_def)
    have "drop (12 * i + 16) (cursor_file version toc) = toc_bytes (toc ! i) @ concat (map toc_bytes (drop (Suc i) toc))"
      unfolding drop_drop [symmetric] table drop_toc Cons_nth_drop_Suc [OF i(1), symmetric] by simp
    then have d: "drop (16 + 12 * i) (cursor_file version toc) = le_bytes 4 (ucast type) @ le_bytes 4 (ucast subtype) @
        le_bytes 4 (ucast offset) @ concat (map toc_bytes (drop (Suc i) toc))"
      by (simp add: add.commute toc_bytes_def i(2))
    have "drop (24 + 12 * i) (cursor_file version toc) = drop 8 (drop (16 + 12 * i) (cursor_file version toc))" by simp
    then have d8: "drop (24 + 12 * i) (cursor_file version toc) = le_bytes 4 (ucast offset) @ concat (map toc_bytes (drop (Suc i) toc))"
      unfolding d by simp
    have t: "take_bit 32 (ucast (w :: u32) :: u64) = ucast w" for w
      by (rule bit_word_eqI) (auto simp: bit_simps dest: bit_imp_le_length)
    have le: "16 + 12 * i + 4 \<le> 16 + 12 * length toc" "24 + 12 * i + 4 \<le> 16 + 12 * length toc" using i(1) by simp_all
    show "le_load (g_mem s) (p + of_nat (16 + 12 * i)) 4 = ucast type"
      using b [OF le(1), of "ucast type"] by (simp only: d t) simp
    show "le_load (g_mem s) (p + of_nat (24 + 12 * i)) 4 = ucast offset"
      using b [OF le(2), of "ucast offset"] by (simp only: d8 t) simp
  qed
  define cursor where "cursor = xcursor_LoadMemory p (pe - p) (g_mem s) garbage"
  have cursor: "xc_header cursor = p" "unat (xc_n cursor) = length toc" "xc_toc cursor = p + 16"
    using magic n size assms(2) by (simp_all add: cursor_def xcursor_LoadMemory_def unat_of_nat_u64)
  have at: "toc_entry cursor i = p + of_nat (16 + 12 * i)" for i
    by (simp add: toc_entry_def cursor(3) sizeof_def xcursor_TOCEntry_def)
  have type: "member (g_mem s) xcursor_TOCEntry (toc_entry cursor i) ''type'' = ucast (fst (toc ! i))"
    and offset: "member (g_mem s) xcursor_TOCEntry (toc_entry cursor i) ''offset'' = ucast (snd (snd (toc ! i)))"
    if "i < length toc" for i
    using entry [OF that, of "fst (toc ! i)" "fst (snd (toc ! i))" "snd (snd (toc ! i))"]
    by (simp_all add: at offsetof_def sizeof_def xcursor_TOCEntry_def add.assoc)
  have found: "kMain_find_image (g_mem s) cursor = find (\<lambda>i. ucast (fst (toc ! i)) = XCURSOR_CHUNKTYPE_IMAGE) [0..<length toc]"
    unfolding kMain_find_image_def cursor(2) by (rule find_cong) (simp_all add: type)
  have "kMain_cursor p pe garbage s = (case find (\<lambda>i. ucast (fst (toc ! i)) = XCURSOR_CHUNKTYPE_IMAGE) [0..<length toc] of
       None \<Rightarrow> s
     | Some i \<Rightarrow> s\<lparr>g_Cursor := Some (load_image (g_mem s) (p + ucast (snd (snd (toc ! i)))))\<rparr>)"
  proof (cases "find (\<lambda>i. ucast (fst (toc ! i)) = XCURSOR_CHUNKTYPE_IMAGE) [0..<length toc]")
    case None
    then show ?thesis by (simp add: kMain_cursor_def cursor_def [symmetric] cursor(1) found)
  next
    case (Some i)
    then have "i < length toc" by (auto simp: find_Some_iff)
    with Some show ?thesis
      using assms(3) by (simp add: kMain_cursor_def cursor_def [symmetric] cursor(1) found offset)
  qed
  also have "\<dots> = (case find (\<lambda>e. ucast (fst e) = XCURSOR_CHUNKTYPE_IMAGE) toc of
       None \<Rightarrow> s
     | Some e \<Rightarrow> s\<lparr>g_Cursor := Some (load_image (g_mem s) (p + ucast (snd (snd e))))\<rparr>)"
    by (rule find_nth_case)
  finally show ?thesis by (simp add: case_prod_unfold split: option.split)
qed

end
