(* ===== verification/Console_Text.thy ===== *)
theory Console_Text
  imports Console
begin

text \<open>
  Whole strings on the console: the loops of \<^verbatim>\<open>src/runtime/stdio.c\<close> and of the string functions in
  \<^verbatim>\<open>src/graphics/graphics.c\<close> end, and a UTF-8 string is drawn code point by code point. The screen has
  room for the lines of the text when the cursor cannot get further below it than one scroll takes back.
\<close>

section \<open>Room for the lines of a text\<close>

definition lines_fit :: "nat \<Rightarrow> graphics_state \<Rightarrow> bool" where
  "lines_fit k s \<longleftrightarrow> back_ok s \<and> 0 \<le> g_CursorX s \<and> 0 \<le> g_CursorY s \<and>
     g_CursorY s + 16 * int k + 32 \<le> 2 * gm_Height (g_Mode s) \<and> 16 * (int k + 1) \<le> gm_Height (g_Mode s)"

lemma lines_fit_console: "lines_fit k s \<Longrightarrow> console_ok s"
  by (simp add: lines_fit_def console_ok_def UNIFONT_CHAR_HEIGHT_def)

lemma only_back_refl [simp]: "only_back s s"
  by (simp add: only_back_def)

lemma lines_fit_WriteChar:
  assumes "lines_fit (k + (if c = 0x0A then 1 else 0)) s"
  shows "lines_fit k (console_WriteChar e color c s) \<and> only_back s (console_WriteChar e color c s)"
proof -
  consider "c = 0x0A" | "c = 0x0D" "c \<noteq> 0x0A" | "c \<noteq> 0x0A" "c \<noteq> 0x0D" by blast
  then show ?thesis
  proof cases
    case 1
    with assms show ?thesis
      by (auto simp: lines_fit_def console_WriteChar_def graphics_Newline_def UNIFONT_CHAR_HEIGHT_def back_ok_def buffer_bytes_def)
  next
    case 2
    with assms show ?thesis by (auto simp: lines_fit_def console_WriteChar_def back_ok_def buffer_bytes_def)
  next
    case 3
    note w = console_WriteChar_draws [OF lines_fit_console [OF assms] 3, of e color]
    then have "only_back s (console_WriteChar e color c s)" by simp
    with w assms 3(1) only_back_ok [OF this] show ?thesis by (auto simp: lines_fit_def only_back_def)
  qed
qed

section \<open>Drawing a text\<close>

text \<open>A text is drawn character by character, and the screen is brought up to date after a text with a new line.\<close>

definition draw_chars :: "console_env \<Rightarrow> HelosGraphics_Color \<Rightarrow> u32 list \<Rightarrow> graphics_state \<Rightarrow> graphics_state" where
  "draw_chars e color cs = fold (console_WriteChar e color) cs"

definition draw_text :: "console_env \<Rightarrow> HelosGraphics_Color \<Rightarrow> u32 list \<Rightarrow> graphics_state \<Rightarrow> graphics_state" where
  "draw_text e color cs s =
     (let s = draw_chars e color cs s in
      if 0x0A \<in> set cs then graphics_SwapBuffer (e_mouseX e) (e_mouseY e) s else s)"

lemma draw_chars_only_back:
  "lines_fit (count_list cs 0x0A) s \<Longrightarrow> only_back s (draw_chars e color cs s)"
proof (induction cs arbitrary: s)
  case (Cons c cs)
  then have "lines_fit (count_list cs 0x0A) (console_WriteChar e color c s)" "only_back s (console_WriteChar e color c s)"
    using lines_fit_WriteChar [of "count_list cs 0x0A" c s e color] by (auto split: if_splits)
  with Cons.IH show ?case by (auto simp: draw_chars_def intro: only_back_trans)
qed (simp add: draw_chars_def)

text \<open>The elements read at an address, with a zero behind them, whatever is drawn.\<close>

definition reads_text :: "(mem \<Rightarrow> addr \<Rightarrow> u32) \<Rightarrow> u64 \<Rightarrow> addr \<Rightarrow> u32 list \<Rightarrow> graphics_state \<Rightarrow> bool" where
  "reads_text rd n str cs s \<longleftrightarrow> 0 \<notin> set cs \<and> (\<forall>s'. only_back s s' \<longrightarrow>
     (\<forall>i<length cs. rd (g_mem s') (str + n * of_nat i) = cs ! i) \<and> rd (g_mem s') (str + n * of_nat (length cs)) = 0)"

lemma reads_text_Cons:
  assumes "reads_text rd n str (c # cs) s" and "only_back s s'"
  shows "c \<noteq> 0" and "rd (g_mem s') str = c" and "reads_text rd n (str + n) cs s'"
proof -
  note r = assms(1) [unfolded reads_text_def]
  show "c \<noteq> 0" using r by simp
  have 0: "\<forall>i<Suc (length cs). rd (g_mem s'') (str + n * of_nat i) = (c # cs) ! i"
    "rd (g_mem s'') (str + n * of_nat (Suc (length cs))) = 0" if "only_back s' s''" for s''
    using r only_back_trans [OF assms(2) that] by auto
  show "rd (g_mem s') str = c" using 0(1) [OF only_back_refl] by force
  have "rd (g_mem s'') (str + n + n * of_nat i) = cs ! i" if "only_back s' s''" "i < length cs" for s'' i
  proof -
    have "rd (g_mem s'') (str + n * of_nat (Suc i)) = (c # cs) ! Suc i" using 0(1) [OF that(1)] that(2) by blast
    then show ?thesis by (simp add: algebra_simps)
  qed
  moreover have "rd (g_mem s'') (str + n + n * of_nat (length cs)) = 0" if "only_back s' s''" for s''
    using 0(2) [OF that] by (simp add: algebra_simps)
  ultimately show "reads_text rd n (str + n) cs s'" using r by (simp add: reads_text_def)
qed

lemma Write_z_text:
  "reads_text rd n str cs s \<Longrightarrow> lines_fit (count_list cs 0x0A) s \<Longrightarrow>
     Write_z e rd n color str w s = Some (w \<or> 0x0A \<in> set cs, draw_chars e color cs s)"
proof (induction cs arbitrary: str w s)
  case Nil
  then have "rd (g_mem s) str = 0" by (auto simp: reads_text_def)
  then show ?case by (subst Write_z.simps) (simp add: draw_chars_def)
next
  case (Cons c cs)
  note c = reads_text_Cons [OF Cons.prems(1)]
  let ?s = "console_WriteChar e color c s"
  have s: "lines_fit (count_list cs 0x0A) ?s" "only_back s ?s"
    using Cons.prems(2) lines_fit_WriteChar [of "count_list cs 0x0A" c s e color] by (auto split: if_splits)
  have "rd (g_mem s) str = c" "rd (g_mem ?s) str = c" using c(2) s(2) by simp_all
  with Cons.IH [OF c(3) [OF s(2)] s(1), of "w \<or> c = 0x0A"] c(1) [OF only_back_refl]
  show ?case by (subst Write_z.simps) (simp add: draw_chars_def)
qed

lemma console_WriteString_text:
  assumes "reads_text rd n str cs s" and "lines_fit (count_list cs 0x0A) s"
  shows "console_WriteString e rd n color str 0 s = Some (draw_text e color cs s)"
  using Write_z_text [OF assms] by (simp add: console_WriteString_def draw_text_def Let_def)

section \<open>Decoding a string\<close>

text \<open>The bytes of a text, and the 16-bit units its code points are cut to.\<close>

definition utf8_text :: "u32 list \<Rightarrow> u8 list" where
  "utf8_text cs = concat (map utf8_bytes cs)"

definition unit_bytes :: "u32 list \<Rightarrow> u8 list" where
  "unit_bytes cs = concat (map (\<lambda>c. le_bytes 2 (ucast c)) cs)"

lemma text_simps [simp]:
  "utf8_text [] = []" "utf8_text (c # cs) = utf8_bytes c @ utf8_text cs"
  "unit_bytes [] = []" "unit_bytes (c # cs) = le_bytes 2 (ucast c) @ unit_bytes cs"
  by (simp_all add: utf8_text_def unit_bytes_def)

lemma length_unit_bytes [simp]: "length (unit_bytes cs) = 2 * length cs"
  by (induction cs) simp_all

lemma length_utf8_text: "length cs \<le> length (utf8_text cs)"
proof (induction cs)
  case (Cons c cs)
  then show ?case using length_utf8_bytes(1) [of c] by simp
qed simp

lemma utf8_Decode_text:
  assumes "bytes_at m (str + of_nat i) (length (utf8_text (c # cs))) = utf8_text (c # cs)"
    and "c \<le> HELOS_UNICODE_MAX" and "i + length (utf8_text (c # cs)) = n" and "n < 2 ^ 31"
  shows "utf8_Decode m (str + of_int (int i)) (of_int (int n - int i)) (Some x) = (of_nat (length (utf8_bytes c)), Some c)"
    and "fst (utf8_Decode m (str + of_int (int i)) (of_int (int n - int i)) None) = of_nat (length (utf8_bytes c))"
    and "bytes_at m (str + of_nat (i + length (utf8_bytes c))) (length (utf8_text cs)) = utf8_text cs"
    and "i + length (utf8_bytes c) + length (utf8_text cs) = n"
    and "s32 (int i + uint (of_nat (length (utf8_bytes c)) :: u64)) = int (i + length (utf8_bytes c))"
    and "int i < int n"
proof -
  let ?k = "length (utf8_bytes c)"
  have "bytes_at m (str + of_nat i) (?k + length (utf8_text cs)) = utf8_bytes c @ utf8_text cs" using assms(1) by simp
  then have b: "bytes_at m (str + of_nat i) ?k = utf8_bytes c"
    "bytes_at m (str + of_nat (i + ?k)) (length (utf8_text cs)) = utf8_text cs"
    by (simp_all add: bytes_at_add add.assoc)
  then show "bytes_at m (str + of_nat (i + ?k)) (length (utf8_text cs)) = utf8_text cs" by simp
  have k: "unat (of_nat ?k :: u64) = ?k" using length_utf8_bytes(2) [of c] by (intro unat_of_nat_u64) simp
  have "int n - int i = int (n - i)" using assms(3) by simp
  then have w: "(of_int (int n - int i) :: u64) = of_nat (n - i)" by (simp only: of_int_of_nat_eq)
  have "(of_nat ?k :: u64) \<le> of_nat (n - i)"
    using assms(3, 4) k unat_of_nat_u64 [of "n - i"] by (simp add: word_le_nat_alt)
  note d = utf8_bytes_decode [OF assms(2) b(1) this]
  show "utf8_Decode m (str + of_int (int i)) (of_int (int n - int i)) (Some x) = (of_nat ?k, Some c)"
    unfolding w using d [of x] by simp
  show "fst (utf8_Decode m (str + of_int (int i)) (of_int (int n - int i)) None) = of_nat ?k"
    unfolding w utf8_Decode_length [of m _ _ 0, symmetric] using d [of 0] by simp
  show "i + ?k + length (utf8_text cs) = n" using assms(3) by simp
  show "s32 (int i + uint (of_nat ?k :: u64)) = int (i + ?k)"
    using assms(3, 4) k by (simp add: uint_nat)
  show "int i < int n" using assms(3) length_utf8_bytes(1) [of c] by simp
qed

lemma UTF8_count_text:
  assumes "bytes_at m (str + of_nat i) (length (utf8_text cs)) = utf8_text cs" and "\<forall>c \<in> set cs. c \<le> HELOS_UNICODE_MAX"
    and "i + length (utf8_text cs) = n" and "n < 2 ^ 31"
  shows "UTF8_count m str (int n) (int i) sz = Some (sz + int (length cs))"
  using assms
proof (induction cs arbitrary: i sz)
  case Nil
  then show ?case by (subst UTF8_count.simps) simp
next
  case (Cons c cs)
  have "c \<le> HELOS_UNICODE_MAX" using Cons.prems(2) by simp
  note d = utf8_Decode_text [OF Cons.prems(1) this Cons.prems(3, 4)]
  from Cons.IH [OF d(3) _ d(4) Cons.prems(4), of "sz + 1"] Cons.prems(2)
  show ?case by (subst UTF8_count.simps) (simp only: d(2, 5, 6) if_True, simp)
qed

lemma UTF8_store_text:
  assumes "bytes_at m (str + of_nat i) (length (utf8_text cs)) = utf8_text cs" and "\<forall>c \<in> set cs. c \<le> HELOS_UNICODE_MAX"
    and "i + length (utf8_text cs) = n" and "n < 2 ^ 31"
    and "\<And>k l. k < n \<Longrightarrow> l < 2 * (j + length cs) \<Longrightarrow> str + of_nat k \<noteq> buffer + of_nat l"
    and "2 * (j + length cs) < 2 ^ 64"
  shows "UTF8_store str (int n) (int i) (int j) buffer m = Some (store_bytes m (buffer + of_nat (2 * j)) (unit_bytes cs))"
  using assms
proof (induction cs arbitrary: i j m)
  case Nil
  have "\<not> int i < int n" using Nil.prems(3) by simp
  then show ?case by (subst UTF8_store.simps) (simp only: if_False text_simps store_bytes_Nil)
next
  case (Cons c cs)
  have "c \<le> HELOS_UNICODE_MAX" using Cons.prems(2) by simp
  note d = utf8_Decode_text [OF Cons.prems(1) this Cons.prems(3, 4)]
  let ?p = "buffer + of_nat (2 * j)" and ?bs = "le_bytes 2 (ucast c)"
  have p: "buffer + 2 * of_int (int j) = ?p" by simp
  have outside: "\<not> in_block (str + of_nat k) ?p 2" if "k < n" for k
  proof
    assume "in_block (str + of_nat k) ?p 2"
    then have b: "unat (str + of_nat k - ?p) < 2" by (simp add: in_block_def word_less_nat_alt)
    have "str + of_nat k = buffer + of_nat (2 * j + unat (str + of_nat k - ?p))" by simp
    moreover have "2 * j + unat (str + of_nat k - ?p) < 2 * (j + length (c # cs))" using b by simp
    ultimately show False using Cons.prems(5) [OF that] by blast
  qed
  have kept: "bytes_at (store_bytes m ?p ?bs) (str + of_nat (i + length (utf8_bytes c))) (length (utf8_text cs)) = utf8_text cs"
  proof (rule trans [OF _ d(3)], rule bytes_at_cong)
    fix k assume "k < length (utf8_text cs)"
    then have "i + length (utf8_bytes c) + k < n" using d(4) by simp
    from outside [OF this] have "\<not> in_block (str + of_nat (i + length (utf8_bytes c)) + of_nat k) ?p (of_nat (length ?bs))"
      by (simp add: add.assoc)
    then show "store_bytes m ?p ?bs (str + of_nat (i + length (utf8_bytes c)) + of_nat k)
        = m (str + of_nat (i + length (utf8_bytes c)) + of_nat k)"
      by (rule store_bytes_outside)
  qed
  have valid: "\<forall>c \<in> set cs. c \<le> HELOS_UNICODE_MAX" using Cons.prems(2) by simp
  have apart: "str + of_nat k \<noteq> buffer + of_nat l" if "k < n" "l < 2 * (Suc j + length cs)" for k l
  proof (rule Cons.prems(5) [OF that(1)])
    show "l < 2 * (j + length (c # cs))" using that(2) by simp
  qed
  have "2 * (Suc j + length cs) < 2 ^ 64" using Cons.prems(6) by simp
  note stored = Cons.IH [OF kept valid d(4) Cons.prems(4) apart this]
  have "UTF8_store str (int n) (int (i + length (utf8_bytes c))) (int (Suc j)) buffer (store_bytes m ?p ?bs)
      = Some (store_bytes (store_bytes m ?p ?bs) (buffer + of_nat (2 * Suc j)) (unit_bytes cs))"
    by (rule stored)
  moreover have "store_bytes (store_bytes m ?p ?bs) (buffer + of_nat (2 * Suc j)) (unit_bytes cs) = store_bytes m ?p (unit_bytes (c # cs))"
    using store_bytes_append [of ?bs "unit_bytes cs" m ?p] Cons.prems(6) by (simp add: algebra_simps)
  ultimately show ?case
    by (subst UTF8_store.simps) (simp only: d(1, 5, 6) if_True p prod.case Let_def option.sel of_nat_Suc add.commute [of 1])
qed

section \<open>The output functions\<close>

text \<open>
  What the buffer of \<^verbatim>\<open>UINT16\<close> units keeps of a text: the lower 16 bits of its code points, up to the first zero among
  them. It is the text itself for code points from 1 to \<open>0xFFFF\<close>; the greater ones are lost.
\<close>

definition shown :: "u32 list \<Rightarrow> u32 list" where
  "shown cs = takeWhile (\<lambda>c. c \<noteq> 0) (map (take_bit 16) cs)"

lemma shown_simps [simp]:
  "shown [] = []" "shown (c # cs) = (if take_bit 16 c = 0 then [] else take_bit 16 c # shown cs)"
  by (simp_all add: shown_def)

lemma zero_not_shown [simp]: "0 \<notin> set (shown cs)"
  by (induction cs) auto

lemma load_unit: "bytes_at m p 2 = le_bytes 2 (ucast (c :: u32)) \<Longrightarrow> ucast (le_load m p 2) = take_bit 16 c"
  by (simp add: le_load_value) (rule bit_word_eqI, auto simp: bit_simps)

text \<open>The units that lie in memory, with two zeros behind them.\<close>

definition units_at :: "mem \<Rightarrow> addr \<Rightarrow> u32 list \<Rightarrow> bool" where
  "units_at m p cs \<longleftrightarrow> bytes_at m p (2 * length cs + 2) = unit_bytes cs @ [0, 0]"

lemma units_at_simps [simp]:
  "units_at m p [] \<longleftrightarrow> bytes_at m p 2 = [0, 0]"
  "units_at m p (c # cs) \<longleftrightarrow> bytes_at m p 2 = le_bytes 2 (ucast c) \<and> units_at m (p + 2) cs"
proof -
  have "bytes_at m p (2 * length (c # cs) + 2) = bytes_at m p 2 @ bytes_at m (p + of_nat 2) (2 * length cs + 2)"
    using bytes_at_add [of m p 2 "2 * length cs + 2"] by simp
  then show "units_at m p (c # cs) \<longleftrightarrow> bytes_at m p 2 = le_bytes 2 (ucast c) \<and> units_at m (p + 2) cs"
    by (simp add: units_at_def)
qed (simp add: units_at_def eval_nat_numeral)

lemma load_zero: "bytes_at m p 2 = [0, 0] \<Longrightarrow> ucast (le_load m p 2) = 0"
  by (simp add: le_load_def)

lemma units_at_read:
  assumes "units_at m p cs"
  shows "(\<forall>i<length (shown cs). ucast (le_load m (p + 2 * of_nat i) 2) = shown cs ! i) \<and>
    ucast (le_load m (p + 2 * of_nat (length (shown cs))) 2) = (0 :: u32)"
  using assms
proof (induction cs arbitrary: p)
  case Nil
  then show ?case by (simp add: load_zero)
next
  case (Cons c cs)
  have c: "ucast (le_load m p 2) = take_bit 16 c" using Cons.prems by (intro load_unit) simp
  have a: "p + 2 * of_nat (Suc i) = (p + 2) + 2 * of_nat i" for i by (simp add: algebra_simps)
  show ?case
  proof (cases "take_bit 16 c = 0")
    case False
    have "ucast (le_load m (p + 2 * of_nat i) 2) = (take_bit 16 c # shown cs) ! i" if "i < Suc (length (shown cs))" for i
      using that Cons.IH [of "p + 2"] Cons.prems c by (cases i) (simp_all add: algebra_simps)
    moreover have "ucast (le_load m (p + 2 * of_nat (Suc (length (shown cs)))) 2) = (0 :: u32)"
      unfolding a using Cons.IH [of "p + 2"] Cons.prems by simp
    ultimately show ?thesis using False by simp
  qed (use c in simp)
qed

lemma units_at_efi: "units_at m p cs \<Longrightarrow> efi_string m p = Some (map ucast (shown cs))"
proof (induction cs arbitrary: p)
  case Nil
  then show ?case by (subst efi_string.simps) (simp add: le_load_def)
next
  case (Cons c cs)
  have "ucast (le_load m p 2) = take_bit 16 c" using Cons.prems by (intro load_unit) simp
  moreover have "ucast (le_load m p 2) = (ucast (ucast (le_load m p 2) :: u32) :: u16)"
    by (rule bit_word_eqI) (auto simp: bit_simps)
  ultimately have "ucast (le_load m p 2) = (ucast (take_bit 16 c) :: u16)" by simp
  moreover have "ucast (take_bit 16 c) = (0 :: u16) \<longleftrightarrow> take_bit 16 c = 0"
  proof
    assume "ucast (take_bit 16 c) = (0 :: u16)"
    then have "bit (ucast (take_bit 16 c) :: u16) i = False" for i by simp
    then show "take_bit 16 c = 0" by (intro bit_word_eqI) (auto simp: bit_simps)
  qed simp
  ultimately show ?case using Cons.IH [of "p + 2"] Cons.prems by (subst efi_string.simps) simp
qed

lemma units_at_cong: "(\<And>i. i < 2 * length cs + 2 \<Longrightarrow> m' (p + of_nat i) = m (p + of_nat i)) \<Longrightarrow> units_at m' p cs = units_at m p cs"
  unfolding units_at_def by (subst bytes_at_cong) simp_all

lemma units_at_stored:
  "2 * length cs + 2 < 2 ^ 64 \<Longrightarrow> units_at (store_bytes m p (unit_bytes cs @ [0, 0])) p cs"
  using bytes_at_store_bytes [of "unit_bytes cs @ [0, 0]" m p] by (simp add: units_at_def)

text \<open>
  A valid UTF-8 text in memory, apart from the buffer for its units, which is large enough for them and
  apart from the back buffer.
\<close>

definition text_room :: "addr \<Rightarrow> u32 list \<Rightarrow> stdio_state \<Rightarrow> bool" where
  "text_room str cs s \<longleftrightarrow> (\<forall>c \<in> set cs. c \<le> HELOS_UNICODE_MAX) \<and>
     length (utf8_text cs) < 2 ^ 31 \<and> int (length cs) < io_bufSize s \<and>
     disjoint_blocks str (of_nat (length (utf8_text cs))) (io_buffer s) (of_nat (2 * length cs + 2)) \<and>
     disjoint_blocks (io_buffer s) (of_nat (2 * length cs + 2)) (g_Framebuffer (io_graphics s)) (of_int (buffer_bytes (io_graphics s)))"

definition text_ready :: "addr \<Rightarrow> u32 list \<Rightarrow> stdio_state \<Rightarrow> bool" where
  "text_ready str cs s \<longleftrightarrow> cstring_at (g_mem (io_graphics s)) str (utf8_text cs) \<and> text_room str cs s"

text \<open>The memory after the units have been stored.\<close>

definition with_units :: "u32 list \<Rightarrow> stdio_state \<Rightarrow> graphics_state" where
  "with_units cs s = (io_graphics s)\<lparr>g_mem := store_bytes (g_mem (io_graphics s)) (io_buffer s) (unit_bytes cs @ [0, 0])\<rparr>"

lemma reads_units:
  assumes "text_ready str cs s"
  shows "reads_text (\<lambda>m p. ucast (le_load m p 2)) 2 (io_buffer s) (shown cs) (with_units cs s)"
  unfolding reads_text_def
proof (intro conjI allI impI)
  have l: "2 * length cs + 2 < 2 ^ 64" using assms length_utf8_text [of cs] by (simp add: text_ready_def text_room_def)
  fix s' assume b: "only_back (with_units cs s) s'"
  have out: "\<not> in_block (io_buffer s + of_nat i) (g_Framebuffer (io_graphics s)) (of_int (buffer_bytes (io_graphics s)))"
    if "i < 2 * length cs + 2" for i
  proof (rule not_in_disjoint)
    show "disjoint_blocks (io_buffer s) (of_nat (2 * length cs + 2)) (g_Framebuffer (io_graphics s))
        (of_int (buffer_bytes (io_graphics s)))" using assms unfolding text_ready_def text_room_def by blast
    show "i < unat (of_nat (2 * length cs + 2) :: u64)" using that by (simp only: unat_of_nat_u64 [OF l])
  qed
  have "g_mem s' (io_buffer s + of_nat i) = g_mem (with_units cs s) (io_buffer s + of_nat i)" if "i < 2 * length cs + 2" for i
    using b out [OF that] by (simp add: only_back_def with_units_def buffer_bytes_def)
  then have "units_at (g_mem s') (io_buffer s) cs = units_at (g_mem (with_units cs s)) (io_buffer s) cs" by (rule units_at_cong)
  then have "units_at (g_mem s') (io_buffer s) cs" using units_at_stored [OF l] by (simp add: with_units_def)
  note r = units_at_read [OF this]
  show "ucast (le_load (g_mem s') (io_buffer s + 2 * of_nat i) 2) = shown cs ! i" if "i < length (shown cs)" for i
    using r that by blast
  show "ucast (le_load (g_mem s') (io_buffer s + 2 * of_nat (length (shown cs))) 2) = (0 :: u32)" using r by blast
qed simp

text \<open>The string is decoded to its units in the buffer.\<close>

lemma WriteConsoleUTF8_decodes:
  assumes "text_ready str cs s"
  shows "io_WriteConsoleUTF8 e new str s =
    (if g_Framebuffer (io_graphics s) = NULL
     then Some (s\<lparr>io_graphics := with_units cs s, io_efi := io_efi s @ [map ucast (shown cs)]\<rparr>)
     else do {
       g \<leftarrow> console_WriteUTF16 e HelosGraphics_Color_White (io_buffer s) 0 (with_units cs s);
       Some (s\<lparr>io_graphics := g\<rparr>)
     })"
proof -
  let ?m = "g_mem (io_graphics s)" and ?n = "length (utf8_text cs)" and ?b = "io_buffer s"
  note t = assms [unfolded text_ready_def text_room_def]
  have n: "?n < 2 ^ 31" "length cs \<le> ?n" "2 * length cs + 2 < 2 ^ 64" using t length_utf8_text [of cs] by simp_all
  have str: "bytes_at ?m (str + of_nat 0) ?n = utf8_text cs" using t by (simp add: cstring_at_def)
  have len: "strlen ?m str 0 = Some (of_nat ?n)" "s32 (uint (of_nat ?n :: u64)) = int ?n"
    using t strlen_cstring [of ?m str "utf8_text cs" 0] by (simp_all add: uint_nat unat_of_nat_u64)
  have count: "UTF8_count ?m str (int ?n) 0 0 = Some (int (length cs))"
    using UTF8_count_text [OF str, of ?n 0] t by simp
  have apart: "str + of_nat k \<noteq> ?b + of_nat l" if "k < ?n" "l < 2 * (0 + length cs)" for k l
  proof
    assume e: "str + of_nat k = ?b + of_nat l"
    have "in_block (str + of_nat k) str (of_nat ?n)" using that(1) n by (intro in_block_offset) (simp add: unat_of_nat_u64)
    moreover have "in_block (?b + of_nat l) ?b (of_nat (2 * length cs + 2))"
      using that(2) by (intro in_block_offset) (simp only: unat_of_nat_u64 [OF n(3)], simp)
    ultimately show False using t e unfolding disjoint_blocks_def by metis
  qed
  have "2 * (0 + length cs) < 2 ^ 64" using n by simp
  from UTF8_store_text [where j = 0, OF str _ _ n(1) apart this] t
  have store: "UTF8_store str (int ?n) 0 0 ?b ?m = Some (store_bytes ?m ?b (unit_bytes cs))" by simp
  have zero: "store_bytes (store_bytes ?m ?b (unit_bytes cs)) (?b + 2 * of_int (int (length cs))) [0, 0]
      = store_bytes ?m ?b (unit_bytes cs @ [0, 0])"
    using store_bytes_append [of "unit_bytes cs" "[0, 0]" ?m ?b] n by simp
  have "io_WriteConsole_ResizeBuffer new (int (length cs) + 1) s = Some s"
    using t by (simp add: io_WriteConsole_ResizeBuffer_def)
  moreover have "efi_string (store_bytes ?m ?b (unit_bytes cs @ [0, 0])) ?b = Some (map ucast (shown cs))"
    by (rule units_at_efi [OF units_at_stored [OF n(3)]])
  ultimately show ?thesis
    by (simp add: io_WriteConsoleUTF8_def len count store zero [simplified] with_units_def Let_def)
qed

text \<open>A text on the screen, or handed to the firmware.\<close>

lemma WriteConsoleUTF8_text:
  assumes "text_ready str cs s" and "g_Framebuffer (io_graphics s) \<noteq> NULL"
    and "lines_fit (count_list (shown cs) 0x0A) (io_graphics s)"
  shows "io_WriteConsoleUTF8 e new str s
    = Some (s\<lparr>io_graphics := draw_text e HelosGraphics_Color_White (shown cs) (with_units cs s)\<rparr>)"
proof -
  have "lines_fit (count_list (shown cs) 0x0A) (with_units cs s)"
    using assms(3) by (simp add: lines_fit_def with_units_def back_ok_def buffer_bytes_def)
  from console_WriteString_text [OF reads_units [OF assms(1)] this] assms(2) show ?thesis
    by (simp add: WriteConsoleUTF8_decodes [OF assms(1)] console_WriteUTF16_def)
qed

lemma cstring_at_stored:
  assumes "0 \<notin> set t" and "length t + 1 < 2 ^ 64"
  shows "cstring_at (store_bytes m p (t @ [0])) p t"
proof -
  have "bytes_at (store_bytes m p (t @ [0])) p (length t + 1) = t @ [0]"
    using bytes_at_store_bytes [of "t @ [0]" m p] assms(2) by simp
  then show ?thesis using assms(1)
    by (simp only: cstring_at_def bytes_at_add bytes_at_Suc bytes_at_0 One_nat_def append_eq_append_conv length_bytes_at simp_thms) simp
qed

text \<open>The serial line.\<close>

lemma stdio_serial_text:
  assumes "cstring_at (g_mem (io_graphics s)) str t" and "io_serial s = (port, io)" and "sp_ok port" and "line_ready port io"
  shows "\<exists>io'. stdio_serial str 0 s = Some (s\<lparr>io_serial := (port, io')\<rparr>) \<and> io_in io' = io_in io \<and>
    io_out io' = io_out io @ map (Pair (serial_reg port 0)) t"
proof -
  let ?m = "g_mem (io_graphics s)"
  have t: "bytes_at ?m str (length t) = t" "?m (str + of_nat (length t)) = 0" "0 \<notin> set t"
    using assms(1) by (simp_all add: cstring_at_def)
  have "?m (str + of_nat i) \<noteq> 0" if "i < length t" for i
    using arg_cong [OF t(1), of "\<lambda>l. l ! i"] that t(3) by (metis nth_bytes_at nth_mem)
  from serial_Write_z_n [where n = "length t" and str = str and m = ?m and s = io, OF this t(2), of port] serial_Write_n_ready [OF assms(4), of "length t" ?m str] t(1)
  obtain io' where "serial_Write_z ?m str port io = Some io'" "io_in io' = io_in io"
    "io_out io' = io_out io @ map (Pair (serial_reg port 0)) t" by auto
  then show ?thesis using assms(2, 3) by (intro exI [of _ io']) (simp add: stdio_serial_def pic_serial_Write_def)
qed

text \<open>\<^verbatim>\<open>io_Error\<close>, and \<^verbatim>\<open>io_WriteConsole\<close> when it is not quiet, put out the text on both.\<close>

lemma io_Error_text:
  assumes "text_ready str cs s" and "g_Framebuffer (io_graphics s) \<noteq> NULL"
    and "lines_fit (count_list (shown cs) 0x0A) (io_graphics s)"
    and "io_serial s = (port, io)" and "sp_ok port" and "line_ready port io"
  shows "\<exists>io'. io_Error e new str s = Some (s\<lparr>io_serial := (port, io'),
      io_graphics := draw_text e HelosGraphics_Color_White (shown cs) (with_units cs s)\<rparr>) \<and> io_in io' = io_in io \<and>
    io_out io' = io_out io @ map (Pair (serial_reg port 0)) (utf8_text cs)"
proof -
  have "cstring_at (g_mem (io_graphics s)) str (utf8_text cs)" using assms(1) by (simp add: text_ready_def)
  from stdio_serial_text [OF this assms(4-6)] obtain io' where
    io: "stdio_serial str 0 s = Some (s\<lparr>io_serial := (port, io')\<rparr>)" "io_in io' = io_in io"
      "io_out io' = io_out io @ map (Pair (serial_reg port 0)) (utf8_text cs)" by blast
  have "text_ready str cs (s\<lparr>io_serial := (port, io')\<rparr>)" using assms(1) by (simp add: text_ready_def text_room_def)
  from WriteConsoleUTF8_text [OF this] assms(2, 3) io show ?thesis
    by (intro exI [of _ io']) (simp add: io_Error_def with_units_def)
qed

lemma io_WriteConsole_loud: "io_WriteConsole e False new str s = io_Error e new str s"
  by (simp add: io_WriteConsole_def io_Error_def)

end
