(* ===== verification/Printf.thy ===== *)
theory Printf
  imports Console_Text
begin

text \<open>
  Formatted output, \<^verbatim>\<open>src/extlib/printf.c\<close>, and \<^verbatim>\<open>io_Printf\<close> and \<^verbatim>\<open>io_Errorf\<close> of \<^verbatim>\<open>src/runtime/stdio.c\<close>. A format is a
  literal, the list of its characters without the zero behind them; reading beyond that zero is \<open>None\<close>.
  The arguments are the list of their 8-byte slots, as the compiler of the \<^verbatim>\<open>Makefile\<close> passes them, for which
  a \<^verbatim>\<open>long\<close> has 32 bits. What the conversions of floating point numbers put out is an argument; the
  kernel is compiled without floating point registers and does not use them. The conversion buffer is the list of its
  characters up to \<^verbatim>\<open>len\<close>.
\<close>

section \<open>The code\<close>

abbreviation chr :: "char \<Rightarrow> u8" where "chr c \<equiv> of_char c"

definition PRINTF_NTOA_BUFFER_SIZE :: nat where "PRINTF_NTOA_BUFFER_SIZE = 32"

definition FLAGS_ZEROPAD :: u32 where "FLAGS_ZEROPAD = push_bit 0 1"
definition FLAGS_LEFT :: u32 where "FLAGS_LEFT = push_bit 1 1"
definition FLAGS_PLUS :: u32 where "FLAGS_PLUS = push_bit 2 1"
definition FLAGS_SPACE :: u32 where "FLAGS_SPACE = push_bit 3 1"
definition FLAGS_HASH :: u32 where "FLAGS_HASH = push_bit 4 1"
definition FLAGS_UPPERCASE :: u32 where "FLAGS_UPPERCASE = push_bit 5 1"
definition FLAGS_CHAR :: u32 where "FLAGS_CHAR = push_bit 6 1"
definition FLAGS_SHORT :: u32 where "FLAGS_SHORT = push_bit 7 1"
definition FLAGS_LONG :: u32 where "FLAGS_LONG = push_bit 8 1"
definition FLAGS_LONG_LONG :: u32 where "FLAGS_LONG_LONG = push_bit 9 1"
definition FLAGS_PRECISION :: u32 where "FLAGS_PRECISION = push_bit 10 1"
definition FLAGS_ADAPT_EXP :: u32 where "FLAGS_ADAPT_EXP = push_bit 11 1"

definition has :: "u32 \<Rightarrow> u32 \<Rightarrow> bool" where
  "has flags f \<longleftrightarrow> flags AND f \<noteq> 0"

subsection \<open>Putting out characters\<close>

text \<open>
  A printer is the function that puts out a character, with the buffer and its size; \<open>pr_mem\<close> is the memory
  of its state. The position and the state go together: \<open>put\<close> is \<^verbatim>\<open>out(c, buffer, idx++, maxlen)\<close>.
\<close>

type_synonym 's out_fct = "u8 \<Rightarrow> addr \<Rightarrow> u64 \<Rightarrow> u64 \<Rightarrow> 's \<Rightarrow> 's"

record 's printer =
  pr_out :: "'s out_fct"
  pr_buffer :: addr
  pr_maxlen :: u64
  pr_mem :: "'s \<Rightarrow> mem"

definition put :: "'s printer \<Rightarrow> u8 \<Rightarrow> u64 \<times> 's \<Rightarrow> u64 \<times> 's" where
  "put P c = (\<lambda>(idx, s). (idx + 1, pr_out P c (pr_buffer P) idx (pr_maxlen P) s))"

definition out_buffer :: "mem out_fct" where
  "out_buffer c buffer idx maxlen m = (if idx < maxlen then m(buffer + idx := c) else m)"

definition out_null :: "'s out_fct" where
  "out_null c buffer idx maxlen s = s"

text \<open>The characters handed to \<^verbatim>\<open>_putchar\<close>, or to the function of \<^verbatim>\<open>fctprintf\<close>.\<close>

definition out_char :: "(mem \<times> u8 list) out_fct" where
  "out_char c buffer idx maxlen = (\<lambda>(m, cs). (m, if c \<noteq> 0 then cs @ [c] else cs))"

lemma unat_step_less: "i < (width :: 'a::len word) \<Longrightarrow> unat width - unat (i + 1) < unat width - unat i"
  by (auto simp: word_less_nat_alt unat_word_ariths mod_less [OF le_less_trans [OF Suc_leI unsigned_less]])

function pad_spaces :: "'s printer \<Rightarrow> 'a::len word \<Rightarrow> 'a word \<Rightarrow> u64 \<times> 's \<Rightarrow> u64 \<times> 's" where
  "pad_spaces P i width st = (if i < width then pad_spaces P (i + 1) width (put P (chr CHR '' '') st) else st)"
  by pat_completeness auto
termination by (relation "measure (\<lambda>(P, i, width, st). unat width - unat i)") (simp_all add: unat_step_less)

declare pad_spaces.simps [simp del]

function pad_right :: "'s printer \<Rightarrow> u64 \<Rightarrow> u32 \<Rightarrow> u64 \<times> 's \<Rightarrow> u64 \<times> 's" where
  "pad_right P start_idx width st =
     (if fst st - start_idx < ucast width then pad_right P start_idx width (put P (chr CHR '' '') st) else st)"
  by pat_completeness auto
termination
proof (relation "measure (\<lambda>(P, start_idx, width, st). unat (ucast width :: u64) - unat (fst st - start_idx))")
  fix P :: "'s printer" and start_idx width and st :: "u64 \<times> 's"
  assume a: "fst st - start_idx < (ucast width :: u64)"
  have e: "fst (put P (chr CHR '' '') st) - start_idx = (fst st - start_idx) + 1" by (simp add: put_def split_beta)
  have "unat (ucast width :: u64) - unat (fst (put P (chr CHR '' '') st) - start_idx)
      < unat (ucast width :: u64) - unat (fst st - start_idx)"
    unfolding e using a unat_Suc_u64 [OF a] by (simp add: word_less_nat_alt)
  then show "((P, start_idx, width, put P (chr CHR '' '') st), P, start_idx, width, st)
      \<in> measure (\<lambda>(P, start_idx, width, st). unat (ucast width :: u64) - unat (fst st - start_idx))"
    by simp
qed simp

declare pad_right.simps [simp del]

definition out_rev :: "'s printer \<Rightarrow> u8 list \<Rightarrow> u32 \<Rightarrow> u32 \<Rightarrow> u64 \<times> 's \<Rightarrow> u64 \<times> 's" where
  "out_rev P buf width flags st =
     (let start_idx = fst st;
          st = (if \<not> has flags FLAGS_LEFT \<and> \<not> has flags FLAGS_ZEROPAD
            then pad_spaces P (of_nat (length buf) :: u64) (ucast width) st else st);
          st = fold (put P) (rev buf) st
      in if has flags FLAGS_LEFT then pad_right P start_idx width st else st)"

subsection \<open>Integers\<close>

function fill_zeros :: "nat \<Rightarrow> u8 list \<Rightarrow> u8 list" where
  "fill_zeros n buf =
     (if length buf < n \<and> length buf < PRINTF_NTOA_BUFFER_SIZE then fill_zeros n (buf @ [chr CHR ''0'']) else buf)"
  by pat_completeness auto
termination by (relation "measure (\<lambda>(n, buf). n - length buf)") auto

declare fill_zeros.simps [simp del]

definition ntoa_hash :: "u8 list \<Rightarrow> u32 \<Rightarrow> u32 \<Rightarrow> u32 \<Rightarrow> u32 \<Rightarrow> u8 list" where
  "ntoa_hash buf base prec width flags =
     (let buf = (if \<not> has flags FLAGS_PRECISION \<and> buf \<noteq> [] \<and> (length buf = unat prec \<or> length buf = unat width)
            then (let buf = butlast buf in if buf \<noteq> [] \<and> base = 16 then butlast buf else buf)
            else buf);
          buf = (if base = 16 \<and> \<not> has flags FLAGS_UPPERCASE \<and> length buf < PRINTF_NTOA_BUFFER_SIZE then buf @ [chr CHR ''x'']
            else if base = 16 \<and> has flags FLAGS_UPPERCASE \<and> length buf < PRINTF_NTOA_BUFFER_SIZE then buf @ [chr CHR ''X'']
            else if base = 2 \<and> length buf < PRINTF_NTOA_BUFFER_SIZE then buf @ [chr CHR ''b''] else buf)
      in if length buf < PRINTF_NTOA_BUFFER_SIZE then buf @ [chr CHR ''0''] else buf)"

definition ntoa_format ::
  "'s printer \<Rightarrow> u8 list \<Rightarrow> bool \<Rightarrow> u32 \<Rightarrow> u32 \<Rightarrow> u32 \<Rightarrow> u32 \<Rightarrow> u64 \<times> 's \<Rightarrow> u64 \<times> 's" where
  "ntoa_format P buf negative base prec width flags st =
     (let width = (if \<not> has flags FLAGS_LEFT \<and> width \<noteq> 0 \<and> has flags FLAGS_ZEROPAD \<and>
            (negative \<or> has flags (FLAGS_PLUS OR FLAGS_SPACE)) then width - 1 else width);
          buf = (if \<not> has flags FLAGS_LEFT then fill_zeros (unat prec) buf else buf);
          buf = (if \<not> has flags FLAGS_LEFT \<and> has flags FLAGS_ZEROPAD then fill_zeros (unat width) buf else buf);
          buf = (if has flags FLAGS_HASH then ntoa_hash buf base prec width flags else buf);
          buf = (if length buf < PRINTF_NTOA_BUFFER_SIZE
            then (if negative then buf @ [chr CHR ''-'']
              else if has flags FLAGS_PLUS then buf @ [chr CHR ''+'']
              else if has flags FLAGS_SPACE then buf @ [chr CHR '' ''] else buf)
            else buf)
      in out_rev P buf width flags st)"

definition digit_char :: "u32 \<Rightarrow> u8 \<Rightarrow> u8" where
  "digit_char flags digit =
     (if digit < 10 then chr CHR ''0'' + digit
      else (if has flags FLAGS_UPPERCASE then chr CHR ''A'' else chr CHR ''a'') + digit - 10)"

function ntoa_digits :: "'a::len word \<Rightarrow> 'a word \<Rightarrow> u32 \<Rightarrow> u8 list \<Rightarrow> u8 list" where
  "ntoa_digits value base flags buf =
     (let buf = buf @ [digit_char flags (ucast (value mod base))];
          value = value div base
      in if value \<noteq> 0 \<and> length buf < PRINTF_NTOA_BUFFER_SIZE then ntoa_digits value base flags buf else buf)"
  by pat_completeness auto
termination by (relation "measure (\<lambda>(value, base, flags, buf). PRINTF_NTOA_BUFFER_SIZE - length buf)") auto

declare ntoa_digits.simps [simp del]

text \<open>The bodies for \<^verbatim>\<open>long\<close> and \<^verbatim>\<open>long long\<close> are the same, at their widths.\<close>

definition ntoa ::
  "'s printer \<Rightarrow> 'a::len word \<Rightarrow> bool \<Rightarrow> 'a word \<Rightarrow> u32 \<Rightarrow> u32 \<Rightarrow> u32 \<Rightarrow> u64 \<times> 's \<Rightarrow> u64 \<times> 's" where
  "ntoa P value negative base prec width flags st =
     (let flags = (if value = 0 then flags AND NOT FLAGS_HASH else flags);
          buf = (if \<not> has flags FLAGS_PRECISION \<or> value \<noteq> 0 then ntoa_digits value base flags [] else [])
      in ntoa_format P buf negative (ucast base) prec width flags st)"

definition ntoa_long :: "'s printer \<Rightarrow> u32 \<Rightarrow> bool \<Rightarrow> u32 \<Rightarrow> u32 \<Rightarrow> u32 \<Rightarrow> u32 \<Rightarrow> u64 \<times> 's \<Rightarrow> u64 \<times> 's" where
  "ntoa_long = ntoa"

definition ntoa_long_long :: "'s printer \<Rightarrow> u64 \<Rightarrow> bool \<Rightarrow> u64 \<Rightarrow> u32 \<Rightarrow> u32 \<Rightarrow> u32 \<Rightarrow> u64 \<times> 's \<Rightarrow> u64 \<times> 's" where
  "ntoa_long_long = ntoa"

subsection \<open>Reading a conversion\<close>

definition is_digit :: "u8 \<Rightarrow> bool" where
  "is_digit ch \<longleftrightarrow> chr CHR ''0'' \<le> ch \<and> ch \<le> chr CHR ''9''"

fun atoi :: "u8 list \<Rightarrow> u32 \<Rightarrow> u32 \<times> u8 list" where
  "atoi [] i = (i, [])"
| "atoi (c # cs) i = (if is_digit c then atoi cs (i * 10 + ucast (c - chr CHR ''0'')) else (i, c # cs))"

fun parse_flags :: "u8 list \<Rightarrow> u32 \<Rightarrow> u32 \<times> u8 list" where
  "parse_flags [] flags = (flags, [])"
| "parse_flags (c # cs) flags =
     (if c = chr CHR ''0'' then parse_flags cs (flags OR FLAGS_ZEROPAD)
      else if c = chr CHR ''-'' then parse_flags cs (flags OR FLAGS_LEFT)
      else if c = chr CHR ''+'' then parse_flags cs (flags OR FLAGS_PLUS)
      else if c = chr CHR '' '' then parse_flags cs (flags OR FLAGS_SPACE)
      else if c = chr CHR ''#'' then parse_flags cs (flags OR FLAGS_HASH)
      else (flags, c # cs))"

text \<open>The character at the position in the format, and an argument of type \<^verbatim>\<open>int\<close>.\<close>

definition at :: "u8 list \<Rightarrow> u8" where
  "at fmt = (case fmt of [] \<Rightarrow> 0 | c # _ \<Rightarrow> c)"

fun va_int :: "u64 list \<Rightarrow> (u32 \<times> u64 list) option" where
  "va_int [] = None"
| "va_int (v # va) = Some (ucast v, va)"

definition parse_width :: "u8 list \<Rightarrow> u32 \<Rightarrow> u64 list \<Rightarrow> (u32 \<times> u32 \<times> u8 list \<times> u64 list) option" where
  "parse_width fmt flags va =
     (if is_digit (at fmt) then (let (width, fmt) = atoi fmt 0 in Some (width, flags, fmt, va))
      else if at fmt = chr CHR ''*'' then do {
        (w, va) \<leftarrow> va_int va;
        Some (if w <s 0 then (- w, flags OR FLAGS_LEFT, tl fmt, va) else (w, flags, tl fmt, va))
      }
      else Some (0, flags, fmt, va))"

definition parse_precision :: "u8 list \<Rightarrow> u32 \<Rightarrow> u64 list \<Rightarrow> (u32 \<times> u32 \<times> u8 list \<times> u64 list) option" where
  "parse_precision fmt flags va =
     (if at fmt = chr CHR ''.''
      then (let flags = flags OR FLAGS_PRECISION; fmt = tl fmt in
        if is_digit (at fmt) then (let (prec, fmt) = atoi fmt 0 in Some (prec, flags, fmt, va))
        else if at fmt = chr CHR ''*'' then do {
          (prec, va) \<leftarrow> va_int va;
          Some (if 0 <s prec then prec else 0, flags, tl fmt, va)
        }
        else Some (0, flags, fmt, va))
      else Some (0, flags, fmt, va))"

text \<open>\<^verbatim>\<open>ptrdiff_t\<close>, \<^verbatim>\<open>intmax_t\<close> and \<^verbatim>\<open>size_t\<close> have 64 bits, \<^verbatim>\<open>long\<close> 32.\<close>

definition parse_length :: "u8 list \<Rightarrow> u32 \<Rightarrow> u32 \<times> u8 list" where
  "parse_length fmt flags =
     (if at fmt = chr CHR ''l''
      then (let flags = flags OR FLAGS_LONG; fmt = tl fmt in
        if at fmt = chr CHR ''l'' then (flags OR FLAGS_LONG_LONG, tl fmt) else (flags, fmt))
      else if at fmt = chr CHR ''h''
      then (let flags = flags OR FLAGS_SHORT; fmt = tl fmt in
        if at fmt = chr CHR ''h'' then (flags OR FLAGS_CHAR, tl fmt) else (flags, fmt))
      else if at fmt = chr CHR ''t'' \<or> at fmt = chr CHR ''j'' \<or> at fmt = chr CHR ''z''
      then (flags OR FLAGS_LONG_LONG, tl fmt)
      else (flags, fmt))"

subsection \<open>Conversions\<close>

definition int_base :: "u8 \<Rightarrow> u32" where
  "int_base c = (if c = chr CHR ''x'' \<or> c = chr CHR ''X'' then 16 else if c = chr CHR ''o'' then 8
     else if c = chr CHR ''b'' then 2 else 10)"

definition int_flags :: "u8 \<Rightarrow> u32 \<Rightarrow> u32" where
  "int_flags c flags =
     (let flags = (if int_base c = 10 then flags AND NOT FLAGS_HASH else flags);
          flags = (if c = chr CHR ''X'' then flags OR FLAGS_UPPERCASE else flags);
          flags = (if c \<noteq> chr CHR ''i'' \<and> c \<noteq> chr CHR ''d'' then flags AND NOT (FLAGS_PLUS OR FLAGS_SPACE) else flags)
      in if has flags FLAGS_PRECISION then flags AND NOT FLAGS_ZEROPAD else flags)"

text \<open>The absolute value wraps for the smallest number.\<close>

definition word_magnitude :: "'a::len word \<Rightarrow> 'a word" where
  "word_magnitude value = (if 0 <s value then value else 0 - value)"

definition int_arg :: "u32 \<Rightarrow> u64 \<Rightarrow> u32" where
  "int_arg flags v =
     (if has flags FLAGS_CHAR then scast (ucast v :: u8) else if has flags FLAGS_SHORT then scast (ucast v :: u16) else ucast v)"

definition unsigned_arg :: "u32 \<Rightarrow> u64 \<Rightarrow> u32" where
  "unsigned_arg flags v =
     (if has flags FLAGS_CHAR then ucast (ucast v :: u8) else if has flags FLAGS_SHORT then ucast (ucast v :: u16) else ucast v)"

definition convert_int :: "'s printer \<Rightarrow> u8 \<Rightarrow> u32 \<Rightarrow> u32 \<Rightarrow> u32 \<Rightarrow> u64 \<Rightarrow> u64 \<times> 's \<Rightarrow> u64 \<times> 's" where
  "convert_int P c flags width precision v st =
     (let base = int_base c; flags = int_flags c flags in
      if c = chr CHR ''i'' \<or> c = chr CHR ''d''
      then
        if has flags FLAGS_LONG_LONG then ntoa_long_long P (word_magnitude v) (v <s 0) (ucast base) precision width flags st
        else if has flags FLAGS_LONG
        then (let value = ucast v :: u32 in ntoa_long P (word_magnitude value) (value <s 0) base precision width flags st)
        else (let value = int_arg flags v in ntoa_long P (word_magnitude value) (value <s 0) base precision width flags st)
      else
        if has flags FLAGS_LONG_LONG then ntoa_long_long P v False (ucast base) precision width flags st
        else if has flags FLAGS_LONG then ntoa_long P (ucast v) False base precision width flags st
        else ntoa_long P (unsigned_arg flags v) False base precision width flags st)"

definition convert_char :: "'s printer \<Rightarrow> u32 \<Rightarrow> u32 \<Rightarrow> u64 \<Rightarrow> u64 \<times> 's \<Rightarrow> u64 \<times> 's" where
  "convert_char P flags width v st =
     (let st = (if \<not> has flags FLAGS_LEFT then pad_spaces P 1 width st else st);
          st = put P (ucast v) st
      in if has flags FLAGS_LEFT then pad_spaces P 1 width st else st)"

partial_function (option) strnlen_s :: "mem \<Rightarrow> addr \<Rightarrow> addr \<Rightarrow> u64 \<Rightarrow> u32 option" where
  "strnlen_s m str s maxsize =
     (if m s \<noteq> 0 \<and> maxsize \<noteq> 0 then strnlen_s m str (s + 1) (maxsize - 1) else Some (ucast (s - str)))"

partial_function (option) convert_string_loop ::
  "'s printer \<Rightarrow> addr \<Rightarrow> bool \<Rightarrow> u32 \<Rightarrow> u64 \<times> 's \<Rightarrow> (u64 \<times> 's) option" where
  "convert_string_loop P p limited precision st =
     (if pr_mem P (snd st) p \<noteq> 0 \<and> (\<not> limited \<or> precision \<noteq> 0)
      then convert_string_loop P (p + 1) limited (if limited then precision - 1 else precision) (put P (pr_mem P (snd st) p) st)
      else Some st)"

text \<open>A loop that pads moves \<^verbatim>\<open>l\<close> on; only one of the two runs.\<close>

definition convert_string :: "'s printer \<Rightarrow> u32 \<Rightarrow> u32 \<Rightarrow> u32 \<Rightarrow> u64 \<Rightarrow> u64 \<times> 's \<Rightarrow> (u64 \<times> 's) option" where
  "convert_string P flags width precision p st = do {
     l \<leftarrow> strnlen_s (pr_mem P (snd st)) p p (if precision \<noteq> 0 then ucast precision else - 1);
     let l = (if has flags FLAGS_PRECISION then (if l < precision then l else precision) else l);
     let st = (if \<not> has flags FLAGS_LEFT then pad_spaces P l width st else st);
     st \<leftarrow> convert_string_loop P p (has flags FLAGS_PRECISION) precision st;
     Some (if has flags FLAGS_LEFT then pad_spaces P l width st else st)
   }"

definition convert_pointer :: "'s printer \<Rightarrow> u32 \<Rightarrow> u32 \<Rightarrow> u64 \<Rightarrow> u64 \<times> 's \<Rightarrow> u64 \<times> 's" where
  "convert_pointer P flags precision v st =
     ntoa_long_long P v False 16 precision 16 (flags OR (FLAGS_ZEROPAD OR FLAGS_UPPERCASE)) st"

text \<open>The characters of a floating point conversion: its letter, flags, width, precision and the bits of the number.\<close>

type_synonym float_text = "u8 \<Rightarrow> u32 \<Rightarrow> u32 \<Rightarrow> u32 \<Rightarrow> u64 \<Rightarrow> u8 list"

text \<open>What follows the length field; \<open>c\<close> is the letter of the conversion.\<close>

definition convert ::
  "float_text \<Rightarrow> 's printer \<Rightarrow> u8 \<Rightarrow> u32 \<Rightarrow> u32 \<Rightarrow> u32 \<Rightarrow> u64 list \<Rightarrow> u64 \<times> 's \<Rightarrow> ((u64 \<times> 's) \<times> u64 list) option" where
  "convert ft P c flags width precision va st =
     (if c \<in> set (map of_char ''diuxXob'') then (case va of [] \<Rightarrow> None
        | v # va \<Rightarrow> Some (convert_int P c flags width precision v st, va))
      else if c \<in> set (map of_char ''fFeEgG'') then (case va of [] \<Rightarrow> None
        | v # va \<Rightarrow> Some (fold (put P) (ft c flags width precision v) st, va))
      else if c = chr CHR ''c'' then (case va of [] \<Rightarrow> None
        | v # va \<Rightarrow> Some (convert_char P flags width v st, va))
      else if c = chr CHR ''s'' then (case va of [] \<Rightarrow> None
        | v # va \<Rightarrow> do { st \<leftarrow> convert_string P flags width precision v st; Some (st, va) })
      else if c = chr CHR ''p'' then (case va of [] \<Rightarrow> None
        | v # va \<Rightarrow> Some (convert_pointer P flags precision v st, va))
      else Some (put P c st, va))"

definition parse_conversion :: "u8 list \<Rightarrow> u64 list \<Rightarrow> (u32 \<times> u32 \<times> u32 \<times> u8 list \<times> u64 list) option" where
  "parse_conversion fmt va = do {
     let (flags, fmt) = parse_flags fmt 0;
     (width, flags, fmt, va) \<leftarrow> parse_width fmt flags va;
     (precision, flags, fmt, va) \<leftarrow> parse_precision fmt flags va;
     let (flags, fmt) = parse_length fmt flags;
     Some (flags, width, precision, fmt, va)
   }"

lemma length_atoi: "length (snd (atoi fmt i)) \<le> length fmt"
  by (induction fmt i rule: atoi.induct) auto

lemma length_parse_flags: "length (snd (parse_flags fmt flags)) \<le> length fmt"
  by (induction fmt flags rule: parse_flags.induct) auto

lemma length_parse_length: "length (snd (parse_length fmt flags)) \<le> length fmt"
  by (auto simp: parse_length_def Let_def)

lemma length_parse_width:
  "parse_width fmt flags va = Some (width, flags', fmt', va') \<Longrightarrow> length fmt' \<le> length fmt"
  using length_atoi [of fmt 0] by (auto simp: parse_width_def Let_def split_beta bind_eq_Some_conv split: if_splits)

lemma length_parse_precision:
  "parse_precision fmt flags va = Some (precision, flags', fmt', va') \<Longrightarrow> length fmt' \<le> length fmt"
  using length_atoi [of "tl fmt" 0]
  by (auto simp: parse_precision_def Let_def split_beta bind_eq_Some_conv split: if_splits)

lemma length_parse_conversion:
  assumes "parse_conversion fmt va = Some (flags, width, precision, fmt', va')"
  shows "length fmt' \<le> length fmt"
proof -
  obtain flags0 fmt0 where 0: "parse_flags fmt 0 = (flags0, fmt0)" by fastforce
  obtain flags1 fmt1 va1 where 1: "parse_width fmt0 flags0 va = Some (width, flags1, fmt1, va1)"
    and 2: "\<exists>flags2 fmt2. parse_precision fmt1 flags1 va1 = Some (precision, flags2, fmt2, va') \<and> fmt' = snd (parse_length fmt2 flags2)"
    using assms by (auto simp: parse_conversion_def 0 bind_eq_Some_conv split_beta)
  from 2 have "length fmt' \<le> length fmt1"
    using length_parse_length length_parse_precision le_trans by blast
  with length_parse_width [OF 1] length_parse_flags [of fmt 0] show ?thesis by (simp add: 0)
qed

text \<open>The loop over the format; a \<^verbatim>\<open>%\<close> at its end puts out the zero and reads on behind it.\<close>

function vsnprintf_loop ::
  "float_text \<Rightarrow> 's printer \<Rightarrow> u8 list \<Rightarrow> u64 list \<Rightarrow> u64 \<times> 's \<Rightarrow> (u64 \<times> 's) option" where
  "vsnprintf_loop ft P fmt va st =
     (if at fmt = 0 then Some st
      else if at fmt \<noteq> chr CHR ''%'' then vsnprintf_loop ft P (tl fmt) va (put P (at fmt) st)
      else (case parse_conversion (tl fmt) va of None \<Rightarrow> None
        | Some (flags, width, precision, rest, va) \<Rightarrow>
            if rest = [] then None
            else (case convert ft P (at rest) flags width precision va st of None \<Rightarrow> None
              | Some (st, va) \<Rightarrow> vsnprintf_loop ft P (tl rest) va st)))"
  by pat_completeness auto
termination
  by (relation "measure (\<lambda>(ft, P, fmt, va, st). length fmt)")
    (auto simp: at_def split: list.splits dest: length_parse_conversion)

declare vsnprintf_loop.simps [simp del]

definition vsnprintf_main :: "float_text \<Rightarrow> 's printer \<Rightarrow> u8 list \<Rightarrow> u64 list \<Rightarrow> 's \<Rightarrow> (int \<times> 's) option" where
  "vsnprintf_main ft P fmt va s = do {
     let P = (if pr_buffer P = NULL then P\<lparr>pr_out := out_null\<rparr> else P);
     (idx, s) \<leftarrow> vsnprintf_loop ft P fmt va (0, s);
     Some (s32 (uint idx), pr_out P 0 (pr_buffer P) (if idx < pr_maxlen P then idx else pr_maxlen P - 1) (pr_maxlen P) s)
   }"

subsection \<open>The functions of the interface\<close>

definition buffer_printer :: "addr \<Rightarrow> u64 \<Rightarrow> mem printer" where
  "buffer_printer buffer maxlen = \<lparr>pr_out = out_buffer, pr_buffer = buffer, pr_maxlen = maxlen, pr_mem = (\<lambda>m. m)\<rparr>"

text \<open>\<open>local\<close>: the address of the local object passed as the buffer.\<close>

definition char_printer :: "addr \<Rightarrow> (mem \<times> u8 list) printer" where
  "char_printer local = \<lparr>pr_out = out_char, pr_buffer = local, pr_maxlen = - 1, pr_mem = fst\<rparr>"

definition vsnprintf :: "float_text \<Rightarrow> addr \<Rightarrow> u64 \<Rightarrow> u8 list \<Rightarrow> u64 list \<Rightarrow> mem \<Rightarrow> (int \<times> mem) option" where
  "vsnprintf ft buffer cnt = vsnprintf_main ft (buffer_printer buffer cnt)"

definition snprintf :: "float_text \<Rightarrow> addr \<Rightarrow> u64 \<Rightarrow> u8 list \<Rightarrow> u64 list \<Rightarrow> mem \<Rightarrow> (int \<times> mem) option" where
  "snprintf ft buffer cnt = vsnprintf_main ft (buffer_printer buffer cnt)"

definition sprintf :: "float_text \<Rightarrow> addr \<Rightarrow> u8 list \<Rightarrow> u64 list \<Rightarrow> mem \<Rightarrow> (int \<times> mem) option" where
  "sprintf ft buffer = vsnprintf_main ft (buffer_printer buffer (- 1))"

definition printf :: "float_text \<Rightarrow> addr \<Rightarrow> u8 list \<Rightarrow> u64 list \<Rightarrow> mem \<times> u8 list \<Rightarrow> (int \<times> mem \<times> u8 list) option" where
  "printf ft local = vsnprintf_main ft (char_printer local)"

definition vprintf :: "float_text \<Rightarrow> addr \<Rightarrow> u8 list \<Rightarrow> u64 list \<Rightarrow> mem \<times> u8 list \<Rightarrow> (int \<times> mem \<times> u8 list) option" where
  "vprintf ft local = vsnprintf_main ft (char_printer local)"

definition fctprintf :: "float_text \<Rightarrow> addr \<Rightarrow> u8 list \<Rightarrow> u64 list \<Rightarrow> mem \<times> u8 list \<Rightarrow> (int \<times> mem \<times> u8 list) option" where
  "fctprintf ft local = vsnprintf_main ft (char_printer local)"

text \<open>The kernel's functions print through a static buffer.\<close>

definition io_Printf_size :: u64 where "io_Printf_size = 4096"

definition io_Printf_with ::
  "float_text \<Rightarrow> addr \<Rightarrow> (addr \<Rightarrow> stdio_state \<Rightarrow> stdio_state option) \<Rightarrow> u8 list \<Rightarrow> u64 list \<Rightarrow> stdio_state \<Rightarrow>
     (int \<times> stdio_state) option" where
  "io_Printf_with ft buffer out fmt va s = do {
     (ret, m) \<leftarrow> vsnprintf ft buffer io_Printf_size fmt va (g_mem (io_graphics s));
     s \<leftarrow> out buffer (s\<lparr>io_graphics := (io_graphics s)\<lparr>g_mem := m\<rparr>\<rparr>);
     Some (ret, s)
   }"

definition io_Printf ::
  "float_text \<Rightarrow> addr \<Rightarrow> console_env \<Rightarrow> bool \<Rightarrow> addr \<Rightarrow> u8 list \<Rightarrow> u64 list \<Rightarrow> stdio_state \<Rightarrow> (int \<times> stdio_state) option" where
  "io_Printf ft buffer e quiet new = io_Printf_with ft buffer (io_WriteConsole e quiet new)"

definition io_Errorf ::
  "float_text \<Rightarrow> addr \<Rightarrow> console_env \<Rightarrow> addr \<Rightarrow> u8 list \<Rightarrow> u64 list \<Rightarrow> stdio_state \<Rightarrow> (int \<times> stdio_state) option" where
  "io_Errorf ft buffer e new = io_Printf_with ft buffer (io_Error e new)"

section \<open>What a conversion puts out\<close>

named_theorems flag_simps \<open>tests of flags as tests of bits\<close>

lemma has_flag [flag_simps]:
  "has f FLAGS_ZEROPAD = bit f 0" "has f FLAGS_LEFT = bit f 1" "has f FLAGS_PLUS = bit f 2"
  "has f FLAGS_SPACE = bit f 3" "has f FLAGS_HASH = bit f 4" "has f FLAGS_UPPERCASE = bit f 5"
  "has f FLAGS_CHAR = bit f 6" "has f FLAGS_SHORT = bit f 7" "has f FLAGS_LONG = bit f 8"
  "has f FLAGS_LONG_LONG = bit f 9" "has f FLAGS_PRECISION = bit f 10" "has f FLAGS_ADAPT_EXP = bit f 11"
  unfolding has_def FLAGS_ZEROPAD_def FLAGS_LEFT_def FLAGS_PLUS_def FLAGS_SPACE_def FLAGS_HASH_def FLAGS_UPPERCASE_def
    FLAGS_CHAR_def FLAGS_SHORT_def FLAGS_LONG_def FLAGS_LONG_LONG_def FLAGS_PRECISION_def FLAGS_ADAPT_EXP_def
  by (simp_all only: bit_iff_and_push_bit_not_eq_0)

lemma has_or [flag_simps]: "has f (g OR h) \<longleftrightarrow> has f g \<or> has f h"
  by (simp add: has_def bit.conj_disj_distrib or_eq_0_iff)

lemma bit_push_one: "k < 32 \<Longrightarrow> bit (push_bit k 1 :: u32) n \<longleftrightarrow> n = k"
  by (auto simp: bit_simps)

lemma bit_flags [flag_simps]:
  "bit FLAGS_ZEROPAD n \<longleftrightarrow> n = 0" "bit FLAGS_LEFT n \<longleftrightarrow> n = 1" "bit FLAGS_PLUS n \<longleftrightarrow> n = 2"
  "bit FLAGS_SPACE n \<longleftrightarrow> n = 3" "bit FLAGS_HASH n \<longleftrightarrow> n = 4" "bit FLAGS_UPPERCASE n \<longleftrightarrow> n = 5"
  "bit FLAGS_CHAR n \<longleftrightarrow> n = 6" "bit FLAGS_SHORT n \<longleftrightarrow> n = 7" "bit FLAGS_LONG n \<longleftrightarrow> n = 8"
  "bit FLAGS_LONG_LONG n \<longleftrightarrow> n = 9" "bit FLAGS_PRECISION n \<longleftrightarrow> n = 10" "bit FLAGS_ADAPT_EXP n \<longleftrightarrow> n = 11"
  unfolding FLAGS_ZEROPAD_def FLAGS_LEFT_def FLAGS_PLUS_def FLAGS_SPACE_def FLAGS_HASH_def FLAGS_UPPERCASE_def
    FLAGS_CHAR_def FLAGS_SHORT_def FLAGS_LONG_def FLAGS_LONG_LONG_def FLAGS_PRECISION_def FLAGS_ADAPT_EXP_def
  by (rule bit_push_one; simp)+

lemma bit_and_not [flag_simps]: "bit (f AND NOT g :: u32) n \<longleftrightarrow> bit f n \<and> \<not> bit g n"
  using bit_imp_le_length [of f n] by (auto simp: bit_simps)

lemma bit_and_nots [flag_simps]: "bit (f AND (NOT g AND NOT h) :: u32) n \<longleftrightarrow> bit f n \<and> \<not> bit g n \<and> \<not> bit h n"
  using bit_imp_le_length [of f n] by (auto simp: bit_simps)

lemma fst_fold_put: "fst (fold (put P) cs st) = fst st + of_nat (length cs)"
  by (induction cs arbitrary: st) (simp_all add: put_def split_beta)

lemma pad_spaces_fold:
  "pad_spaces P i width st = fold (put P) (replicate (unat width - unat i) (chr CHR '' '')) st"
proof (induction P i width st rule: pad_spaces.induct)
  case (1 P i width st)
  show ?case
  proof (cases "i < width")
    case True
    then have "unat width - unat i = Suc (unat width - unat (i + 1))"
      by (auto simp: word_less_nat_alt unat_word_ariths mod_less [OF le_less_trans [OF Suc_leI unsigned_less]])
    with True 1 show ?thesis by (simp add: pad_spaces.simps [of P i])
  qed (simp add: pad_spaces.simps [of P i] word_less_nat_alt)
qed

lemma pad_right_fold:
  "pad_right P start width st = fold (put P) (replicate (unat width - unat (fst st - start)) (chr CHR '' '')) st"
proof (induction P start width st rule: pad_right.induct)
  case (1 P start width st)
  have w: "unat (ucast width :: u64) = unat width" by simp
  show ?case
  proof (cases "fst st - start < ucast width")
    case True
    have e: "fst (put P (chr CHR '' '') st) - start = (fst st - start) + 1" by (simp add: put_def split_beta)
    have "unat width - unat (fst st - start) = Suc (unat width - unat (fst (put P (chr CHR '' '') st) - start))"
      unfolding e using unat_Suc_u64 [OF True] True w by (simp add: word_less_nat_alt)
    with True 1 show ?thesis by (subst pad_right.simps) simp
  next
    case False
    then show ?thesis by (subst pad_right.simps) (simp add: word_less_nat_alt w)
  qed
qed

text \<open>Padding to a width with spaces.\<close>

definition padded :: "bool \<Rightarrow> nat \<Rightarrow> u8 list \<Rightarrow> u8 list" where
  "padded left width t =
     (if left then t @ replicate (width - length t) (chr CHR '' '') else replicate (width - length t) (chr CHR '' '') @ t)"

lemma out_rev_text:
  assumes "length buf < 2 ^ 64"
  shows "out_rev P buf width flags st = fold (put P)
     (if has flags FLAGS_LEFT \<or> \<not> has flags FLAGS_ZEROPAD then padded (has flags FLAGS_LEFT) (unat width) (rev buf) else rev buf) st"
proof -
  have "unat (ucast width :: u64) = unat width" by simp
  then show ?thesis using assms
    by (simp add: out_rev_def padded_def pad_spaces_fold pad_right_fold fst_fold_put unat_of_nat_u64 Let_def)
qed

lemma fill_zeros_eq:
  "fill_zeros n buf = buf @ replicate (min n PRINTF_NTOA_BUFFER_SIZE - length buf) (chr CHR ''0'')"
proof (induction n buf rule: fill_zeros.induct)
  case (1 n buf)
  show ?case
  proof (cases "length buf < n \<and> length buf < PRINTF_NTOA_BUFFER_SIZE")
    case True
    then have "min n PRINTF_NTOA_BUFFER_SIZE - length buf = Suc (min n PRINTF_NTOA_BUFFER_SIZE - Suc (length buf))" by linarith
    with True 1 show ?thesis by (subst fill_zeros.simps) simp
  qed (subst fill_zeros.simps, auto)
qed

subsection \<open>Digits\<close>

text \<open>The digits of a number, the first the most significant, and their characters.\<close>

fun digits_of :: "nat \<Rightarrow> nat \<Rightarrow> nat list" where
  "digits_of b n = (if n < b \<or> b < 2 then [n] else digits_of b (n div b) @ [n mod b])"

declare digits_of.simps [simp del]

definition numeral_char :: "bool \<Rightarrow> nat \<Rightarrow> u8" where
  "numeral_char upper d = of_char ((if upper then ''0123456789ABCDEF'' else ''0123456789abcdef'') ! d)"

definition nat_text :: "bool \<Rightarrow> nat \<Rightarrow> nat \<Rightarrow> u8 list" where
  "nat_text upper b n = map (numeral_char upper) (digits_of b n)"

lemma digits_of_less: "2 \<le> b \<Longrightarrow> d \<in> set (digits_of b n) \<Longrightarrow> d < b"
proof (induction b n rule: digits_of.induct)
  case (1 b n)
  then show ?case by (subst (asm) (2) digits_of.simps) (auto split: if_splits)
qed

lemma digits_of_value: "2 \<le> b \<Longrightarrow> foldl (\<lambda>a d. a * b + d) 0 (digits_of b n) = n"
proof (induction b n rule: digits_of.induct)
  case (1 b n)
  then show ?case by (subst digits_of.simps) simp
qed

lemma digits_of_not_Nil [simp]: "digits_of b n \<noteq> []"
  by (subst digits_of.simps) simp

lemma length_digits_of: "2 \<le> b \<Longrightarrow> 0 < k \<Longrightarrow> n < b ^ k \<Longrightarrow> length (digits_of b n) \<le> k"
proof (induction k arbitrary: n)
  case (Suc k)
  show ?case
  proof (cases "n < b")
    case False
    with Suc.prems have "0 < k" by (cases k) auto
    moreover have "n div b < b ^ k" using Suc.prems by (simp add: less_mult_imp_div_less mult.commute)
    ultimately show ?thesis using Suc.IH [of "n div b"] Suc.prems False by (subst digits_of.simps) simp
  qed (subst digits_of.simps, simp)
qed simp

lemma digit_char_numeral:
  assumes "d < 16"
  shows "digit_char flags (of_nat d) = numeral_char (has flags FLAGS_UPPERCASE) d"
proof -
  have "d \<in> set [0..<16]" using assms by simp
  then show ?thesis by (simp add: upt_rec) (elim disjE; simp add: digit_char_def numeral_char_def)
qed

lemma ntoa_digits_text:
  fixes v base :: "'a::len word"
  assumes "2 \<le> unat base" and "unat base \<le> 16"
    and "length buf + length (digits_of (unat base) (unat v)) \<le> PRINTF_NTOA_BUFFER_SIZE"
  shows "ntoa_digits v base flags buf
    = buf @ rev (nat_text (has flags FLAGS_UPPERCASE) (unat base) (unat v))"
  using assms
proof (induction v base flags buf rule: ntoa_digits.induct)
  case (1 v base flags buf)
  let ?b = "unat base" and ?v = "unat v" and ?up = "has flags FLAGS_UPPERCASE"
  have c: "digit_char flags (ucast (v mod base)) = numeral_char ?up (?v mod ?b)"
  proof -
    have "(ucast (v mod base) :: u8) = of_nat (unat (v mod base))" by simp
    moreover have "?v mod ?b < 16" using 1(2, 3) less_le_trans [OF mod_less_divisor, of ?b 16] by simp
    ultimately show ?thesis using digit_char_numeral [of "?v mod ?b" flags] by (simp add: unat_mod)
  qed
  have z: "v div base \<noteq> 0 \<longleftrightarrow> \<not> ?v < ?b"
    using 1(2) by (auto simp: unat_eq_zero [symmetric] unat_div div_eq_0_iff simp del: unat_eq_zero)
  show ?case
  proof (cases "?v < ?b")
    case True
    with z c show ?thesis by (subst ntoa_digits.simps) (simp add: nat_text_def digits_of.simps [of ?b ?v])
  next
    case False
    then have d: "digits_of ?b ?v = digits_of ?b (?v div ?b) @ [?v mod ?b]"
      using 1(2) by (subst digits_of.simps) simp
    from 1(4) d have "length buf + 1 + length (digits_of ?b (?v div ?b)) \<le> PRINTF_NTOA_BUFFER_SIZE" by simp
    moreover have "0 < length (digits_of ?b (?v div ?b))" by simp
    ultimately have l: "length buf + 1 < PRINTF_NTOA_BUFFER_SIZE"
      "length (buf @ [digit_char flags (ucast (v mod base))]) + length (digits_of ?b (unat (v div base))) \<le> PRINTF_NTOA_BUFFER_SIZE"
      by (simp_all only: length_append unat_div list.size)
    have "ntoa_digits (v div base) base flags (buf @ [digit_char flags (ucast (v mod base))])
        = buf @ [digit_char flags (ucast (v mod base))] @ rev (nat_text ?up ?b (unat (v div base)))"
      using 1(1) [OF refl refl] z False l 1(2, 3) by simp
    with z False l(1) c d show ?thesis by (subst ntoa_digits.simps) (simp add: nat_text_def unat_div)
  qed
qed

text \<open>
  The text of an integer: at least \<open>prec\<close> digits, the sign before them, and up to \<open>width\<close> either zeros
  behind the sign or spaces.
\<close>

definition int_text :: "bool \<Rightarrow> bool \<Rightarrow> nat \<Rightarrow> nat \<Rightarrow> u8 list \<Rightarrow> u8 list \<Rightarrow> u8 list" where
  "int_text zero left width prec sign digits =
     (let body = replicate (prec - length digits) (chr CHR ''0'') @ digits;
          body = (if zero \<and> \<not> left then replicate (width - length sign - length body) (chr CHR ''0'') @ body else body)
      in padded left width (sign @ body))"

definition sign_text :: "bool \<Rightarrow> bool \<Rightarrow> bool \<Rightarrow> u8 list" where
  "sign_text negative pls spc =
     (if negative then [chr CHR ''-''] else if pls then [chr CHR ''+''] else if spc then [chr CHR '' ''] else [])"

lemma length_sign_text: "length (sign_text negative pls spc) = (if negative \<or> pls \<or> spc then 1 else 0)"
  by (simp add: sign_text_def)

lemma rev_sign_text [simp]: "rev (sign_text negative pls spc) = sign_text negative pls spc"
  by (simp add: sign_text_def)

text \<open>The conversion buffer is large enough, and a precision does not come with left adjustment.\<close>

definition int_fits :: "bool \<Rightarrow> bool \<Rightarrow> nat \<Rightarrow> nat \<Rightarrow> nat \<Rightarrow> bool" where
  "int_fits zero left width prec n \<longleftrightarrow> n < 32 \<and> prec < 32 \<and> (zero \<longrightarrow> width \<le> 32) \<and> (left \<longrightarrow> prec \<le> n)"

lemma ntoa_format_text:
  assumes "\<not> has flags FLAGS_HASH"
    and "int_fits (has flags FLAGS_ZEROPAD) (has flags FLAGS_LEFT) (unat width) (unat prec) (length buf)"
  shows "ntoa_format P buf negative base prec width flags st = fold (put P)
     (int_text (has flags FLAGS_ZEROPAD) (has flags FLAGS_LEFT) (unat width) (unat prec)
       (sign_text negative (has flags FLAGS_PLUS) (has flags FLAGS_SPACE)) (rev buf)) st"
proof -
  let ?z = "has flags FLAGS_ZEROPAD" and ?l = "has flags FLAGS_LEFT"
  let ?sign = "sign_text negative (has flags FLAGS_PLUS) (has flags FLAGS_SPACE)"
  let ?signed = "negative \<or> has flags (FLAGS_PLUS OR FLAGS_SPACE)"
  define width' where "width' = (if \<not> ?l \<and> width \<noteq> 0 \<and> ?z \<and> ?signed then width - 1 else width)"
  have w': "unat width' = unat width - (if \<not> ?l \<and> ?z \<and> ?signed then 1 else 0)"
    by (auto simp: width'_def unat_minus_one)
  have sign: "length ?sign = (if ?signed then 1 else 0)" by (simp add: length_sign_text has_or disj_assoc)
  define buf1 where "buf1 = (if \<not> ?l then fill_zeros (unat prec) buf else buf)"
  define buf2 where "buf2 = (if \<not> ?l \<and> ?z then fill_zeros (unat width') buf1 else buf1)"
  note fits = assms(2) [unfolded int_fits_def]
  have 1: "buf1 = buf @ replicate (unat prec - length buf) (chr CHR ''0'')"
    using fits by (simp add: buf1_def fill_zeros_eq PRINTF_NTOA_BUFFER_SIZE_def)
  have l1: "length buf1 < 32" using fits unfolding 1 by (simp add: less_diff_conv2 not_le split: nat_diff_split)
  have 2: "buf2 = (if ?z \<and> \<not> ?l then buf1 @ replicate (unat width - length ?sign - length buf1) (chr CHR ''0'') else buf1)"
  proof -
    have "min (unat width') 32 = unat width - length ?sign" if "?z \<and> \<not> ?l" using that fits w' sign by (auto simp: min_def)
    then show ?thesis by (simp add: buf2_def fill_zeros_eq PRINTF_NTOA_BUFFER_SIZE_def)
  qed
  have l2: "length buf2 < 32 \<or> ?sign = [] \<and> length buf2 \<le> 32" using fits l1 sign by (auto simp: 2)
  have sgn: "(if length buf2 < PRINTF_NTOA_BUFFER_SIZE
        then if negative then buf2 @ [chr CHR ''-''] else if has flags FLAGS_PLUS then buf2 @ [chr CHR ''+'']
          else if has flags FLAGS_SPACE then buf2 @ [chr CHR '' ''] else buf2
        else buf2) = buf2 @ ?sign"
    using l2 by (auto simp: sign_text_def PRINTF_NTOA_BUFFER_SIZE_def split: if_splits)
  have "ntoa_format P buf negative base prec width flags st = out_rev P (buf2 @ ?sign) width' flags st"
    by (simp only: ntoa_format_def Let_def width'_def [symmetric] buf1_def [symmetric] buf2_def [symmetric] assms(1) if_False sgn)
  also have "\<dots> = fold (put P) (if ?l \<or> \<not> ?z then padded ?l (unat width') (?sign @ rev buf2) else ?sign @ rev buf2) st"
    using l2 sign by (subst out_rev_text) auto
  also have "(if ?l \<or> \<not> ?z then padded ?l (unat width') (?sign @ rev buf2) else ?sign @ rev buf2)
      = int_text ?z ?l (unat width) (unat prec) ?sign (rev buf)"
  proof (cases "?z \<and> \<not> ?l")
    case True
    have "unat width \<le> length (?sign @ rev buf2)" using True by (simp add: 2)
    with True show ?thesis by (simp add: int_text_def 1 2 padded_def Let_def add.commute)
  next
    case False
    then show ?thesis using w' by (auto simp: int_text_def 1 2 Let_def)
  qed
  finally show ?thesis .
qed

text \<open>The digits put out: none for a zero of precision 0.\<close>

definition digits_text :: "bool \<Rightarrow> bool \<Rightarrow> nat \<Rightarrow> nat \<Rightarrow> u8 list" where
  "digits_text limited upper b n = (if limited \<and> n = 0 then [] else nat_text upper b n)"

lemma ntoa_text:
  fixes v base :: "'a::len word"
  assumes "\<not> has flags FLAGS_HASH" and "2 \<le> unat base" and "unat base \<le> 16"
    and "length (digits_of (unat base) (unat v)) \<le> 31"
    and "int_fits (has flags FLAGS_ZEROPAD) (has flags FLAGS_LEFT) (unat width) (unat prec)
      (length (digits_text (has flags FLAGS_PRECISION) up (unat base) (unat v)))"
  shows "ntoa P v negative base prec width flags st = fold (put P)
     (int_text (has flags FLAGS_ZEROPAD) (has flags FLAGS_LEFT) (unat width) (unat prec)
       (sign_text negative (has flags FLAGS_PLUS) (has flags FLAGS_SPACE))
       (digits_text (has flags FLAGS_PRECISION) (has flags FLAGS_UPPERCASE) (unat base) (unat v))) st"
proof -
  define flags' where "flags' = (if v = 0 then flags AND NOT FLAGS_HASH else flags)"
  have f: "has flags' F = has flags F" if "F \<in> {FLAGS_ZEROPAD, FLAGS_LEFT, FLAGS_PLUS, FLAGS_SPACE, FLAGS_HASH, FLAGS_PRECISION, FLAGS_UPPERCASE}" for F
    using that assms(1) by (auto simp: flags'_def flag_simps)
  define buf where "buf = (if \<not> has flags' FLAGS_PRECISION \<or> v \<noteq> 0 then ntoa_digits v base flags' [] else [])"
  have "ntoa_digits v base flags' [] = rev (nat_text (has flags FLAGS_UPPERCASE) (unat base) (unat v))"
    using assms(2-4) f [of FLAGS_UPPERCASE] by (subst ntoa_digits_text) (simp_all add: PRINTF_NTOA_BUFFER_SIZE_def)
  then have b: "rev buf = digits_text (has flags FLAGS_PRECISION) (has flags FLAGS_UPPERCASE) (unat base) (unat v)"
    using f [of FLAGS_PRECISION] unat_eq_zero [of v] by (auto simp: buf_def digits_text_def)
  have "length buf = length (digits_text (has flags FLAGS_PRECISION) up (unat base) (unat v))"
    using arg_cong [OF b, of length] by (simp add: digits_text_def nat_text_def)
  with assms(1, 5) have "ntoa_format P buf negative (ucast base) prec width flags' st = fold (put P)
     (int_text (has flags FLAGS_ZEROPAD) (has flags FLAGS_LEFT) (unat width) (unat prec)
       (sign_text negative (has flags FLAGS_PLUS) (has flags FLAGS_SPACE)) (rev buf)) st"
    by (subst ntoa_format_text) (simp_all add: f)
  moreover have "ntoa P v negative base prec width flags st = ntoa_format P buf negative (ucast base) prec width flags' st"
    by (simp only: ntoa_def Let_def flags'_def buf_def)
  ultimately show ?thesis by (simp add: b)
qed

subsection \<open>Reading what was printed\<close>

lemma numeral_char_digit:
  assumes "d < 10"
  shows "is_digit (numeral_char upper d)" and "ucast (numeral_char upper d - chr CHR ''0'') = (of_nat d :: u32)"
    and "numeral_char upper d = chr CHR ''0'' \<longleftrightarrow> d = 0"
proof -
  have "d \<in> set [0..<10]" using assms by simp
  then have "is_digit (numeral_char upper d) \<and> ucast (numeral_char upper d - chr CHR ''0'') = (of_nat d :: u32) \<and>
      (numeral_char upper d = chr CHR ''0'' \<longleftrightarrow> d = 0)"
    by (simp add: upt_rec) (elim disjE; simp add: is_digit_def numeral_char_def)
  then show "is_digit (numeral_char upper d)" "ucast (numeral_char upper d - chr CHR ''0'') = (of_nat d :: u32)"
    "numeral_char upper d = chr CHR ''0'' \<longleftrightarrow> d = 0" by simp_all
qed

lemma atoi_digits:
  "(\<And>d. d \<in> set ds \<Longrightarrow> d < 10) \<Longrightarrow> \<not> is_digit (at rest) \<Longrightarrow>
     atoi (map (numeral_char upper) ds @ rest) (of_nat i) = (of_nat (foldl (\<lambda>a d. a * 10 + d) i ds), rest)"
proof (induction ds arbitrary: i)
  case Nil
  then show ?case by (cases rest) (simp_all add: at_def)
next
  case (Cons d ds)
  then have "(of_nat i * 10 + ucast (numeral_char upper d - chr CHR ''0'') :: u32) = of_nat (i * 10 + d)"
    by (simp add: numeral_char_digit(2) [simplified])
  with Cons show ?case by (simp add: numeral_char_digit(1) del: of_nat_add of_nat_mult)
qed

lemma atoi_nat_text: "\<not> is_digit (at rest) \<Longrightarrow> atoi (nat_text upper 10 n @ rest) 0 = (of_nat n, rest)"
  using atoi_digits [of "digits_of 10 n" rest upper 0] digits_of_less [of 10] digits_of_value [of 10 n]
  by (simp add: nat_text_def)

section \<open>Formats and their texts\<close>

text \<open>
  What a format means: a list of pieces, each with the characters it has in the format, its arguments
  and the text the C standard gives it. \<open>cv_width\<close> is 0 and \<open>cv_prec\<close> is \<open>None\<close> when not given.
\<close>

datatype len_mod = No_mod | Mod_hh | Mod_h | Mod_l | Mod_ll | Mod_t | Mod_j | Mod_z

fun mod_chars :: "len_mod \<Rightarrow> u8 list" where
  "mod_chars No_mod = []"
| "mod_chars Mod_hh = map of_char ''hh''"
| "mod_chars Mod_h = map of_char ''h''"
| "mod_chars Mod_l = map of_char ''l''"
| "mod_chars Mod_ll = map of_char ''ll''"
| "mod_chars Mod_t = map of_char ''t''"
| "mod_chars Mod_j = map of_char ''j''"
| "mod_chars Mod_z = map of_char ''z''"

record conv =
  cv_zero :: bool
  cv_left :: bool
  cv_plus :: bool
  cv_space :: bool
  cv_width :: nat
  cv_prec :: "nat option"

definition flag_chars :: "conv \<Rightarrow> u8 list" where
  "flag_chars d = (if cv_zero d then [chr CHR ''0''] else []) @ (if cv_left d then [chr CHR ''-''] else []) @
     (if cv_plus d then [chr CHR ''+''] else []) @ (if cv_space d then [chr CHR '' ''] else [])"

definition conv_chars :: "conv \<Rightarrow> u8 list" where
  "conv_chars d = flag_chars d @ (if cv_width d = 0 then [] else nat_text False 10 (cv_width d)) @
     (case cv_prec d of None \<Rightarrow> [] | Some p \<Rightarrow> chr CHR ''.'' # nat_text False 10 p)"

definition conv_prec :: "conv \<Rightarrow> nat" where
  "conv_prec d = (case cv_prec d of None \<Rightarrow> 0 | Some p \<Rightarrow> p)"

datatype piece =
    Plain "u8 list"
  | Percent
  | Integer conv len_mod u8 u64
  | Character conv u64
  | CString conv addr "u8 list"
  | Pointer u64

fun piece_chars :: "piece \<Rightarrow> u8 list" where
  "piece_chars (Plain t) = t"
| "piece_chars Percent = map of_char ''%%''"
| "piece_chars (Integer d lm c v) = chr CHR ''%'' # conv_chars d @ mod_chars lm @ [c]"
| "piece_chars (Character d v) = chr CHR ''%'' # conv_chars d @ [chr CHR ''c'']"
| "piece_chars (CString d p t) = chr CHR ''%'' # conv_chars d @ [chr CHR ''s'']"
| "piece_chars (Pointer v) = map of_char ''%p''"

fun piece_args :: "piece \<Rightarrow> u64 list" where
  "piece_args (Integer d lm c v) = [v]"
| "piece_args (Character d v) = [v]"
| "piece_args (CString d p t) = [p]"
| "piece_args (Pointer v) = [v]"
| "piece_args _ = []"

fun signed_value :: "len_mod \<Rightarrow> u64 \<Rightarrow> int" where
  "signed_value Mod_hh v = sint (ucast v :: u8)"
| "signed_value Mod_h v = sint (ucast v :: u16)"
| "signed_value No_mod v = sint (ucast v :: u32)"
| "signed_value Mod_l v = sint (ucast v :: u32)"
| "signed_value _ v = sint v"

fun unsigned_value :: "len_mod \<Rightarrow> u64 \<Rightarrow> nat" where
  "unsigned_value Mod_hh v = unat v mod 2 ^ 8"
| "unsigned_value Mod_h v = unat v mod 2 ^ 16"
| "unsigned_value No_mod v = unat v mod 2 ^ 32"
| "unsigned_value Mod_l v = unat v mod 2 ^ 32"
| "unsigned_value _ v = unat v"

definition is_signed :: "u8 \<Rightarrow> bool" where
  "is_signed c \<longleftrightarrow> c = chr CHR ''d'' \<or> c = chr CHR ''i''"

definition int_digits :: "conv \<Rightarrow> len_mod \<Rightarrow> u8 \<Rightarrow> u64 \<Rightarrow> u8 list" where
  "int_digits d lm c v = digits_text (cv_prec d \<noteq> None) (c = chr CHR ''X'') (unat (int_base c))
     (if is_signed c then nat \<bar>signed_value lm v\<bar> else unsigned_value lm v)"

fun piece_text :: "piece \<Rightarrow> u8 list" where
  "piece_text (Plain t) = t"
| "piece_text Percent = [chr CHR ''%'']"
| "piece_text (Integer d lm c v) =
     int_text (cv_zero d \<and> cv_prec d = None) (cv_left d) (cv_width d) (conv_prec d)
       (if is_signed c then sign_text (signed_value lm v < 0) (cv_plus d) (cv_space d) else []) (int_digits d lm c v)"
| "piece_text (Character d v) = padded (cv_left d) (cv_width d) [ucast v]"
| "piece_text (CString d p t) = padded (cv_left d) (cv_width d) (case cv_prec d of None \<Rightarrow> t | Some n \<Rightarrow> take n t)"
| "piece_text (Pointer v) = int_text True False 16 0 [] (nat_text True 16 (unat v))"

text \<open>
  The formats the code follows the standard on. A conversion has no flag \<^verbatim>\<open>#\<close> and no asterisk: \<open>conv\<close> has no field for them. By
  \<open>int_fits\<close> the digits and the precision of an integer stay below the 32 characters of the conversion buffer, a zero-padded
  width does not exceed it, and a precision that adds digits does not come with left adjustment
  (\<open>left_precision_ignored\<close> shows that the code then drops it). The strings lie in the memory.
\<close>

fun piece_ok :: "mem \<Rightarrow> piece \<Rightarrow> bool" where
  "piece_ok m (Plain t) \<longleftrightarrow> 0 \<notin> set t \<and> chr CHR ''%'' \<notin> set t"
| "piece_ok m Percent \<longleftrightarrow> True"
| "piece_ok m (Integer d lm c v) \<longleftrightarrow> c \<in> set (map of_char ''diuxXo'') \<and> cv_width d < 2 ^ 32 \<and>
     int_fits (cv_zero d \<and> cv_prec d = None) (cv_left d) (cv_width d) (conv_prec d) (length (int_digits d lm c v))"
| "piece_ok m (Character d v) \<longleftrightarrow> cv_width d < 2 ^ 32 \<and> conv_prec d < 2 ^ 32"
| "piece_ok m (CString d p t) \<longleftrightarrow> cv_width d < 2 ^ 32 \<and> conv_prec d < 2 ^ 32 \<and> cstring_at m p t \<and> length t < 2 ^ 32"
| "piece_ok m (Pointer v) \<longleftrightarrow> True"

definition fmt_chars :: "piece list \<Rightarrow> u8 list" where "fmt_chars ps = concat (map piece_chars ps)"
definition fmt_args :: "piece list \<Rightarrow> u64 list" where "fmt_args ps = concat (map piece_args ps)"
definition fmt_text :: "piece list \<Rightarrow> u8 list" where "fmt_text ps = concat (map piece_text ps)"

subsection \<open>Reading the pieces of a format\<close>

definition conv_flags :: "conv \<Rightarrow> u32" where
  "conv_flags d =
     (let f = (if cv_zero d then 0 OR FLAGS_ZEROPAD else 0); f = (if cv_left d then f OR FLAGS_LEFT else f);
          f = (if cv_plus d then f OR FLAGS_PLUS else f)
      in if cv_space d then f OR FLAGS_SPACE else f)"

lemma bit_conv_flags [flag_simps]:
  "bit (conv_flags d) n \<longleftrightarrow> n = 0 \<and> cv_zero d \<or> n = 1 \<and> cv_left d \<or> n = 2 \<and> cv_plus d \<or> n = 3 \<and> cv_space d"
  by (auto simp: conv_flags_def Let_def bit_or_iff flag_simps)

fun mod_flags :: "len_mod \<Rightarrow> u32 \<Rightarrow> u32" where
  "mod_flags No_mod f = f"
| "mod_flags Mod_hh f = (f OR FLAGS_SHORT) OR FLAGS_CHAR"
| "mod_flags Mod_h f = f OR FLAGS_SHORT"
| "mod_flags Mod_l f = f OR FLAGS_LONG"
| "mod_flags Mod_ll f = (f OR FLAGS_LONG) OR FLAGS_LONG_LONG"
| "mod_flags _ f = f OR FLAGS_LONG_LONG"

text \<open>A letter that ends a conversion.\<close>

definition ends_conv :: "u8 \<Rightarrow> bool" where
  "ends_conv c \<longleftrightarrow> c \<in> set (map of_char ''diuxXocs'')"

lemma ends_conv_cases: "ends_conv c \<longleftrightarrow> c = chr CHR ''d'' \<or> c = chr CHR ''i'' \<or> c = chr CHR ''u'' \<or> c = chr CHR ''x'' \<or>
    c = chr CHR ''X'' \<or> c = chr CHR ''o'' \<or> c = chr CHR ''c'' \<or> c = chr CHR ''s''"
  by (simp add: ends_conv_def)

lemma parse_length_mod:
  assumes "ends_conv c"
  shows "parse_length (mod_chars lm @ c # rest) f = (mod_flags lm f, c # rest)"
proof -
  have "c \<noteq> chr CHR ''l''" "c \<noteq> chr CHR ''h''" "c \<noteq> chr CHR ''t''" "c \<noteq> chr CHR ''j''" "c \<noteq> chr CHR ''z''"
    using assms by (auto simp: ends_conv_cases)
  then show ?thesis by (cases lm) (simp_all add: parse_length_def at_def Let_def)
qed

definition not_flag :: "u8 \<Rightarrow> bool" where
  "not_flag c \<longleftrightarrow> c \<notin> set (map of_char ''0-+ #'')"

lemma parse_flags_chars:
  assumes "not_flag (at rest)"
  shows "parse_flags (flag_chars d @ rest) 0 = (conv_flags d, rest)"
proof -
  have "parse_flags rest f = (f, rest)" for f
    using assms by (cases rest) (simp_all add: not_flag_def at_def)
  then show ?thesis by (simp add: flag_chars_def conv_flags_def Let_def)
qed

lemma nat_text_Cons:
  assumes "0 < n"
  obtains d ds where "nat_text False 10 n = numeral_char False d # ds" "0 < d" "d < 10"
proof -
  obtain d ds where d: "digits_of 10 n = d # ds" by (cases "digits_of 10 n") simp_all
  have "0 < d" using assms d
  proof (induction "10 :: nat" n arbitrary: ds rule: digits_of.induct)
    case (1 n)
    show ?case
    proof (cases "n < 10")
      case False
      then have "digits_of 10 n = digits_of 10 (n div 10) @ [n mod 10]" by (subst digits_of.simps) simp
      moreover obtain e es where "digits_of 10 (n div 10) = e # es" by (cases "digits_of 10 (n div 10)") simp_all
      ultimately show ?thesis using 1 False by simp
    qed (use 1 in \<open>simp add: digits_of.simps [of 10 n]\<close>)
  qed
  moreover have "d < 10" using digits_of_less [of 10 d n] d by simp
  ultimately show thesis using that d by (simp add: nat_text_def)
qed

lemma numeral_char_not_flag: "0 < d \<Longrightarrow> d < 10 \<Longrightarrow> not_flag (numeral_char False d)"
proof -
  assume "0 < d" "d < 10"
  then have "d \<in> set [1..<10]" by simp
  then show ?thesis by (simp add: upt_rec) (elim disjE; simp add: not_flag_def numeral_char_def)
qed

lemma at_mod_chars:
  assumes "ends_conv c"
  shows "\<not> is_digit (at (mod_chars lm @ c # rest))" and "at (mod_chars lm @ c # rest) \<noteq> chr CHR ''.''"
    and "at (mod_chars lm @ c # rest) \<noteq> chr CHR ''*''" and "not_flag (at (mod_chars lm @ c # rest))"
proof -
  have "\<not> is_digit c \<and> c \<noteq> chr CHR ''.'' \<and> c \<noteq> chr CHR ''*'' \<and> not_flag c"
    using assms unfolding ends_conv_cases by (elim disjE) (simp_all add: is_digit_def not_flag_def)
  then show "\<not> is_digit (at (mod_chars lm @ c # rest))" "at (mod_chars lm @ c # rest) \<noteq> chr CHR ''.''"
    "at (mod_chars lm @ c # rest) \<noteq> chr CHR ''*''" "not_flag (at (mod_chars lm @ c # rest))"
    by (cases lm; simp add: at_def is_digit_def not_flag_def)+
qed

lemma parse_conversion_chars:
  assumes "cv_width d < 2 ^ 32" and "conv_prec d < 2 ^ 32" and "ends_conv c"
  shows "parse_conversion (conv_chars d @ mod_chars lm @ c # rest) va = Some (mod_flags lm
     (if cv_prec d = None then conv_flags d else conv_flags d OR FLAGS_PRECISION),
     of_nat (cv_width d), of_nat (conv_prec d), c # rest, va)"
proof -
  let ?t2 = "mod_chars lm @ c # rest"
  let ?t1 = "(case cv_prec d of None \<Rightarrow> [] | Some p \<Rightarrow> chr CHR ''.'' # nat_text False 10 p) @ ?t2"
  let ?t0 = "(if cv_width d = 0 then [] else nat_text False 10 (cv_width d)) @ ?t1"
  note t2 = at_mod_chars [OF assms(3), of lm rest]
  have t1: "\<not> is_digit (at ?t1)" "at ?t1 \<noteq> chr CHR ''*''" "not_flag (at ?t1)"
    using t2 by (auto simp: at_def is_digit_def not_flag_def split: option.split)
  have 0: "parse_flags (conv_chars d @ ?t2) 0 = (conv_flags d, ?t0)"
  proof -
    have "not_flag (at ?t0)"
    proof (cases "cv_width d = 0")
      case False
      then obtain e es where "nat_text False 10 (cv_width d) = numeral_char False e # es" "0 < e" "e < 10"
        using nat_text_Cons [of "cv_width d"] by auto
      with False numeral_char_not_flag [of e] show ?thesis by (simp add: at_def)
    qed (use t1 in simp)
    from parse_flags_chars [OF this, of d] show ?thesis by (simp add: conv_chars_def)
  qed
  have 1: "parse_width ?t0 (conv_flags d) va = Some (of_nat (cv_width d), conv_flags d, ?t1, va)"
  proof (cases "cv_width d = 0")
    case True
    with t1 show ?thesis by (simp add: parse_width_def)
  next
    case False
    then have "0 < cv_width d" by simp
    then obtain e es where e: "nat_text False 10 (cv_width d) = numeral_char False e # es" "0 < e" "e < 10"
      by (rule nat_text_Cons)
    then have "is_digit (at ?t0)" using False numeral_char_digit(1) [of e False] by (simp add: at_def)
    moreover have "atoi ?t0 0 = (of_nat (cv_width d), ?t1)" using atoi_nat_text [OF t1(1)] False by simp
    ultimately show ?thesis by (simp add: parse_width_def)
  qed
  have 2: "parse_precision ?t1 (conv_flags d) va = Some (of_nat (conv_prec d),
      if cv_prec d = None then conv_flags d else conv_flags d OR FLAGS_PRECISION, ?t2, va)"
  proof (cases "cv_prec d")
    case None
    with t2 show ?thesis by (simp add: parse_precision_def conv_prec_def)
  next
    case (Some p)
    obtain e es where e: "nat_text False 10 p = numeral_char False e # es" "e < 10"
      using digits_of_less [of 10 _ p] by (cases "digits_of 10 p") (simp_all add: nat_text_def)
    then have "is_digit (at (nat_text False 10 p @ ?t2))" using numeral_char_digit(1) [of e False] by (simp add: at_def)
    moreover have "atoi (nat_text False 10 p @ ?t2) 0 = (of_nat p, ?t2)" using atoi_nat_text [OF t2(1)] by simp
    ultimately show ?thesis using Some by (simp add: parse_precision_def conv_prec_def at_def [of "_ # _"])
  qed
  show ?thesis by (simp add: parse_conversion_def 0 1 2 parse_length_mod [OF assms(3)])
qed

subsection \<open>The text of each conversion\<close>

lemma sint_less_exp: "sint (x :: 'a::len word) < 2 ^ LENGTH('a)" "- sint x < 2 ^ LENGTH('a)"
proof -
  have "(2 :: int) ^ (LENGTH('a) - 1) < 2 ^ LENGTH('a)" by (simp add: power_strict_increasing)
  with sint_lt [of x] sint_ge [of x] show "sint x < 2 ^ LENGTH('a)" "- sint x < 2 ^ LENGTH('a)" by linarith+
qed

lemma unat_word_magnitude: "unat (word_magnitude (x :: 'a::len word)) = nat \<bar>sint x\<bar>"
proof (cases "0 <s x")
  case True
  then have "0 < sint x" by (simp add: word_sless_alt)
  moreover have "uint x = sint x" by (rule word_of_int_inverse) (use \<open>0 < sint x\<close> sint_less_exp in simp_all)
  ultimately show ?thesis using True by (simp add: word_magnitude_def unat_eq_nat_uint)
next
  case False
  then have "sint x \<le> 0" by (simp add: word_sless_alt)
  moreover have "uint (0 - x) = - sint x"
    by (rule word_of_int_inverse) (use \<open>sint x \<le> 0\<close> sint_less_exp in simp_all)
  ultimately show ?thesis using False by (simp only: word_magnitude_def unat_eq_nat_uint if_False)
qed

lemma digits_of_31:
  assumes "b \<in> {8, 10, 16}" and "n < 2 ^ 64"
  shows "length (digits_of b n) \<le> 31"
proof -
  have "(8 :: nat) ^ 31 \<le> b ^ 31" using assms(1) by (intro power_mono) auto
  then have "n < b ^ 31" using assms(2) by simp
  then show ?thesis using assms(1) by (intro length_digits_of) auto
qed

lemma ntoa_conv:
  fixes v base :: "'a::len word"
  assumes "unat base = b" and "b \<in> {8, 10, 16}" and "unat v = n" and "n < 2 ^ 64" and "w < 2 ^ 32" and "p < 2 ^ 32"
    and "int_fits z l w p (length (digits_text lim up b n))" and "\<not> has F FLAGS_HASH"
    and "has F FLAGS_ZEROPAD = z" "has F FLAGS_LEFT = l" "has F FLAGS_PRECISION = lim" "has F FLAGS_UPPERCASE = up"
  shows "ntoa P v negative base (of_nat p) (of_nat w) F st = fold (put P)
    (int_text z l w p (sign_text negative (has F FLAGS_PLUS) (has F FLAGS_SPACE)) (digits_text lim up b n)) st"
proof -
  have u: "unat (of_nat p :: u32) = p" "unat (of_nat w :: u32) = w"
    using assms(5, 6) by (simp_all add: unat_of_nat take_bit_nat_eq_self)
  show ?thesis using ntoa_text [of F base v "of_nat w" "of_nat p" up P negative st] digits_of_31 [OF assms(2, 4)] assms
    by (auto simp: u)
qed

lemma bit_mod_flags [flag_simps]:
  "bit (mod_flags lm f) n \<longleftrightarrow> bit f n \<or> n = 6 \<and> lm = Mod_hh \<or> n = 7 \<and> (lm = Mod_hh \<or> lm = Mod_h) \<or>
     n = 8 \<and> (lm = Mod_l \<or> lm = Mod_ll) \<or> n = 9 \<and> (lm = Mod_ll \<or> lm = Mod_t \<or> lm = Mod_j \<or> lm = Mod_z)"
  by (cases lm) (auto simp: bit_or_iff flag_simps)

definition conv_all_flags :: "conv \<Rightarrow> len_mod \<Rightarrow> u32" where
  "conv_all_flags d lm = mod_flags lm (if cv_prec d = None then conv_flags d else conv_flags d OR FLAGS_PRECISION)"

lemma bit_conv_all_flags [flag_simps]:
  "bit (conv_all_flags d lm) n \<longleftrightarrow> n = 0 \<and> cv_zero d \<or> n = 1 \<and> cv_left d \<or> n = 2 \<and> cv_plus d \<or> n = 3 \<and> cv_space d \<or>
     n = 6 \<and> lm = Mod_hh \<or> n = 7 \<and> (lm = Mod_hh \<or> lm = Mod_h) \<or> n = 8 \<and> (lm = Mod_l \<or> lm = Mod_ll) \<or>
     n = 9 \<and> (lm = Mod_ll \<or> lm = Mod_t \<or> lm = Mod_j \<or> lm = Mod_z) \<or> n = 10 \<and> cv_prec d \<noteq> None"
  by (auto simp: conv_all_flags_def bit_or_iff flag_simps)

lemma bit_int_flags [flag_simps]:
  "bit (int_flags c f) n \<longleftrightarrow> bit f n \<and> \<not> (n = 4 \<and> int_base c = 10) \<and> \<not> ((n = 2 \<or> n = 3) \<and> \<not> is_signed c) \<and>
     \<not> (n = 0 \<and> bit f 10) \<or> n = 5 \<and> c = chr CHR ''X''"
proof -
  have e: "c \<noteq> chr CHR ''i'' \<and> c \<noteq> chr CHR ''d'' \<longleftrightarrow> \<not> is_signed c" by (auto simp: is_signed_def)
  have X: "is_signed c \<Longrightarrow> c \<noteq> chr CHR ''X''" by (auto simp: is_signed_def)
  show ?thesis unfolding int_flags_def e Let_def
    by (cases "is_signed c"; cases "c = chr CHR ''X''"; cases "int_base c = 10") (use X in \<open>auto simp: bit_or_iff flag_simps\<close>)
qed

lemma signed_value_args:
  "sint (int_arg f v) = (if has f FLAGS_CHAR then sint (ucast v :: u8) else if has f FLAGS_SHORT then sint (ucast v :: u16)
     else sint (ucast v :: u32))"
  by (simp add: int_arg_def sint_up_scast is_up)

lemma unsigned_value_args:
  "unat (unsigned_arg f v) = (if has f FLAGS_CHAR then unat v mod 2 ^ 8 else if has f FLAGS_SHORT then unat v mod 2 ^ 16
     else unat v mod 2 ^ 32)"
  by (simp add: unsigned_arg_def unsigned_ucast_eq take_bit_eq_mod unat_mod mod_mod_cancel)

lemma convert_int_text:
  assumes "piece_ok m (Integer d lm c v)"
  shows "convert_int P c (conv_all_flags d lm) (of_nat (cv_width d)) (of_nat (conv_prec d)) v st
    = fold (put P) (piece_text (Integer d lm c v)) st"
proof -
  let ?F = "int_flags c (conv_all_flags d lm)" and ?b = "unat (int_base c)" and ?up = "c = chr CHR ''X''"
  let ?sign = "\<lambda>neg. sign_text neg (has ?F FLAGS_PLUS) (has ?F FLAGS_SPACE)" and ?lim = "cv_prec d \<noteq> None"
  have b: "?b \<in> {8, 10, 16}" using assms by (auto simp: int_base_def)
  have h4: "int_base c = 10 \<or> \<not> bit (conv_all_flags d lm) 4" by (simp add: flag_simps)
  have F: "\<not> has ?F FLAGS_HASH" "has ?F FLAGS_ZEROPAD = (cv_zero d \<and> cv_prec d = None)" "has ?F FLAGS_LEFT = cv_left d"
    "has ?F FLAGS_PRECISION = ?lim" "has ?F FLAGS_UPPERCASE = ?up"
    "has ?F FLAGS_PLUS = (is_signed c \<and> cv_plus d)" "has ?F FLAGS_SPACE = (is_signed c \<and> cv_space d)"
    "has ?F FLAGS_CHAR = (lm = Mod_hh)" "has ?F FLAGS_SHORT = (lm = Mod_hh \<or> lm = Mod_h)"
    "has ?F FLAGS_LONG = (lm = Mod_l \<or> lm = Mod_ll)" "has ?F FLAGS_LONG_LONG = (lm = Mod_ll \<or> lm = Mod_t \<or> lm = Mod_j \<or> lm = Mod_z)"
    by (auto simp: flag_simps)
  let ?n = "if is_signed c then nat \<bar>signed_value lm v\<bar> else unsigned_value lm v"
  have w: "cv_width d < 2 ^ 32" "conv_prec d < 2 ^ 32" using assms by (simp_all add: int_fits_def)
  have fits: "int_fits (cv_zero d \<and> cv_prec d = None) (cv_left d) (cv_width d) (conv_prec d) (length (digits_text ?lim ?up ?b ?n))"
    using assms by (simp add: int_digits_def)
  let ?out = "\<lambda>neg. fold (put P) (int_text (cv_zero d \<and> cv_prec d = None) (cv_left d) (cv_width d) (conv_prec d) (?sign neg)
      (digits_text ?lim ?up ?b ?n)) st"
  have n64: "?n < 2 ^ 64" if "unat x = ?n" for x :: u64 using that unat_lt_u64 [of x] by simp
  have n32: "?n < 2 ^ 64" if "unat x = ?n" for x :: u32 using that unat_lt_u32 [of x] by simp
  have u64: "ntoa P x neg (ucast (int_base c)) (of_nat (conv_prec d)) (of_nat (cv_width d)) ?F st = ?out neg"
    if "unat x = ?n" for x :: u64 and neg
    by (rule ntoa_conv [OF _ b that n64 [OF that] w fits F(1-5)]) simp
  have u32: "ntoa P x neg (int_base c) (of_nat (conv_prec d)) (of_nat (cv_width d)) ?F st = ?out neg"
    if "unat x = ?n" for x :: u32 and neg
    by (rule ntoa_conv [OF _ b that n32 [OF that] w fits F(1-5)]) simp
  have s: "c = chr CHR ''i'' \<or> c = chr CHR ''d'' \<longleftrightarrow> is_signed c" by (auto simp: is_signed_def)
  have "convert_int P c (conv_all_flags d lm) (of_nat (cv_width d)) (of_nat (conv_prec d)) v st
      = ?out (is_signed c \<and> signed_value lm v < 0)"
  proof (cases "is_signed c")
    case True
    note unfold = convert_int_def Let_def s True if_True if_False ntoa_long_def ntoa_long_long_def simp_thms
    show ?thesis
    proof (cases "has ?F FLAGS_LONG_LONG")
      case LL: True
      then have v: "signed_value lm v = sint v" using F(11) by (cases lm) auto
      then have "unat (word_magnitude v) = ?n" using True by (simp add: unat_word_magnitude)
      from u64 [OF this, of "v <s 0"] v show ?thesis by (simp only: unfold LL) (simp add: word_sless_alt)
    next
      case LL: False
      let ?x = "if has ?F FLAGS_LONG then ucast v else int_arg ?F v"
      have v: "signed_value lm v = sint ?x" using F(8-11) LL by (cases lm) (simp_all add: signed_value_args)
      then have "unat (word_magnitude ?x) = ?n" using True by (simp add: unat_word_magnitude)
      from u32 [OF this, of "?x <s 0"] v show ?thesis
        by (cases "has ?F FLAGS_LONG") (simp_all only: unfold LL, simp_all add: word_sless_alt)
    qed
  next
    case False
    note unfold = convert_int_def Let_def s False if_True if_False ntoa_long_def ntoa_long_long_def simp_thms
    show ?thesis
    proof (cases "has ?F FLAGS_LONG_LONG")
      case LL: True
      then have "unat v = ?n" using False F(11) by (cases lm) auto
      from u64 [OF this, of False] show ?thesis by (simp only: unfold LL)
    next
      case LL: False
      let ?x = "if has ?F FLAGS_LONG then ucast v else unsigned_arg ?F v"
      have "unat ?x = ?n" using F(8-11) LL False
        by (cases lm) (simp_all add: unsigned_value_args unsigned_ucast_eq take_bit_eq_mod)
      from u32 [OF this, of False] show ?thesis
        by (cases "has ?F FLAGS_LONG") (simp_all only: unfold LL)
    qed
  qed
  then show ?thesis by (simp add: int_digits_def F sign_text_def)
qed

lemma convert_char_text:
  "cv_width d < 2 ^ 32 \<Longrightarrow> convert_char P (conv_all_flags d lm) (of_nat (cv_width d)) v st
    = fold (put P) (piece_text (Character d v)) st"
  by (simp add: convert_char_def pad_spaces_fold padded_def flag_simps unat_of_nat take_bit_nat_eq_self Let_def)

lemma convert_pointer_text: "convert_pointer P 0 0 v st = fold (put P) (piece_text (Pointer v)) st"
proof -
  let ?F = "0 OR (FLAGS_ZEROPAD OR FLAGS_UPPERCASE)"
  have "ntoa P v False 16 (of_nat 0) (of_nat 16) ?F st = fold (put P) (int_text True False 16 0
      (sign_text False (has ?F FLAGS_PLUS) (has ?F FLAGS_SPACE)) (digits_text False True 16 (unat v))) st"
    using digits_of_31 [of 16 "unat v"]
    by (intro ntoa_conv) (auto simp: flag_simps bit_or_iff int_fits_def digits_text_def nat_text_def)
  then show ?thesis by (simp add: convert_pointer_def ntoa_long_long_def digits_text_def sign_text_def flag_simps bit_or_iff)
qed

subsection \<open>Strings\<close>

text \<open>Putting out a character leaves the cells \<open>A\<close> of the memory alone.\<close>

definition keeps :: "'s printer \<Rightarrow> addr set \<Rightarrow> bool" where
  "keeps P A \<longleftrightarrow> (\<forall>c st. \<forall>a\<in>A. pr_mem P (snd (put P c st)) a = pr_mem P (snd st) a)"

definition string_at_cells :: "addr \<Rightarrow> u8 list \<Rightarrow> addr set" where
  "string_at_cells p t = (\<lambda>i. p + of_nat i) ` {..length t}"

fun string_cells :: "piece \<Rightarrow> addr set" where
  "string_cells (CString d p t) = string_at_cells p t"
| "string_cells _ = {}"

lemma string_at_cells_Cons: "string_at_cells p (c # t) = insert p (string_at_cells (p + 1) t)"
proof -
  have "{..length (c # t)} = insert 0 (Suc ` {..length t})" by (simp add: atMost_Suc_eq_insert_0)
  then show ?thesis by (simp add: string_at_cells_def image_image add.assoc)
qed

lemma cstring_at_agree:
  "(\<And>a. a \<in> string_at_cells p t \<Longrightarrow> m a = m' a) \<Longrightarrow> cstring_at m p t = cstring_at m' p t"
proof (induction t arbitrary: p)
  case (Cons c t)
  then show ?case by (simp add: string_at_cells_Cons)
qed (simp add: string_at_cells_def)

lemma keeps_put: "keeps P A \<Longrightarrow> a \<in> A \<Longrightarrow> pr_mem P (snd (put P c st)) a = pr_mem P (snd st) a"
  unfolding keeps_def by blast

lemma keeps_fold: "keeps P A \<Longrightarrow> a \<in> A \<Longrightarrow> pr_mem P (snd (fold (put P) cs st)) a = pr_mem P (snd st) a"
  by (induction cs arbitrary: st) (simp_all add: keeps_put)

lemma strnlen_cstring:
  "cstring_at m s t \<Longrightarrow> strnlen_s m str s n = Some (ucast (s + of_nat (min (length t) (unat n)) - str))"
proof (induction t arbitrary: s n)
  case Nil
  then show ?case by (subst strnlen_s.simps) simp
next
  case (Cons c t)
  show ?case
  proof (cases "n = 0")
    case False
    then have "unat n = Suc (unat (n - 1))" by (rule unat_pred_u64)
    with Cons False show ?thesis by (subst strnlen_s.simps) (simp add: algebra_simps)
  qed (subst strnlen_s.simps, simp)
qed

lemma convert_string_loop_text:
  assumes "keeps P (string_at_cells p t)" and "cstring_at (pr_mem P (snd st)) p t"
  shows "convert_string_loop P p limited n st = Some (fold (put P) (if limited then take (unat n) t else t) st)"
  using assms
proof (induction t arbitrary: p n st)
  case Nil
  then show ?case by (subst convert_string_loop.simps) simp
next
  case (Cons c t)
  show ?case
  proof (cases "limited \<and> n = 0")
    case False
    have k: "keeps P (string_at_cells (p + 1) t)" using Cons.prems(1) by (simp add: string_at_cells_Cons keeps_def)
    have "cstring_at (pr_mem P (snd st)) (p + 1) t" using Cons.prems(2) by simp
    moreover have "pr_mem P (snd (put P c st)) a = pr_mem P (snd st) a" if "a \<in> string_at_cells (p + 1) t" for a
      using k that by (rule keeps_put)
    ultimately have s: "cstring_at (pr_mem P (snd (put P c st))) (p + 1) t" using cstring_at_agree by blast
    have n: "unat n = Suc (unat (n - 1))" if "n \<noteq> 0" using that by (simp add: unat_minus_one unat_gt_0)
    have "pr_mem P (snd st) p = c" "c \<noteq> 0" using Cons.prems(2) by simp_all
    with Cons.IH [OF k s] n False show ?thesis by (subst convert_string_loop.simps) auto
  qed (subst convert_string_loop.simps, simp)
qed

lemma convert_string_text:
  assumes "piece_ok (pr_mem P (snd st)) (CString d p t)" and "keeps P (string_at_cells p t)"
  shows "convert_string P (conv_all_flags d lm) (of_nat (cv_width d)) (of_nat (conv_prec d)) p st
    = Some (fold (put P) (piece_text (CString d p t)) st)"
proof -
  let ?F = "conv_all_flags d lm" and ?prec = "of_nat (conv_prec d) :: u32"
  note ok = assms(1) [unfolded piece_ok.simps]
  have u: "unat (of_nat (cv_width d) :: u32) = cv_width d" "unat ?prec = conv_prec d"
    using ok by (simp_all add: unat_of_nat take_bit_nat_eq_self)
  let ?max = "if ?prec \<noteq> 0 then ucast ?prec else - 1 :: u64"
  let ?k = "min (length t) (unat ?max)"
  have max: "unat ?max = (if conv_prec d = 0 then 2 ^ 64 - 1 else conv_prec d)"
    using u(2) unat_eq_zero [of ?prec] by (simp add: unsigned_minus_1_eq_mask mask_eq_exp_minus_1)
  have k: "?k = (if conv_prec d = 0 then length t else min (length t) (conv_prec d))" using ok by (simp add: max)
  define l where "l = (ucast (of_nat ?k :: u64) :: u32)"
  have lk: "unat l = ?k"
  proof -
    have "?k < 2 ^ 32" using ok by (intro le_less_trans [OF min.cobounded1]) simp
    then show ?thesis by (simp add: l_def unsigned_ucast_eq unat_of_nat take_bit_eq_mod del: min_less_iff_conj)
  qed
  have 1: "strnlen_s (pr_mem P (snd st)) p p ?max = Some l"
    using strnlen_cstring [of "pr_mem P (snd st)" p t p ?max] ok by (simp add: l_def)
  let ?t = "case cv_prec d of None \<Rightarrow> t | Some n \<Rightarrow> take n t"
  have pr: "has ?F FLAGS_PRECISION = (cv_prec d \<noteq> None)" "has ?F FLAGS_LEFT = cv_left d" by (simp_all add: flag_simps)
  define l' where "l' = (if has ?F FLAGS_PRECISION then (if l < ?prec then l else ?prec) else l)"
  have l': "unat l' = length ?t"
    using lk k u(2) by (auto simp: l'_def pr conv_prec_def word_less_nat_alt min_def split: option.split)
  have loop: "convert_string_loop P p (has ?F FLAGS_PRECISION) ?prec st' = Some (fold (put P) ?t st')"
    if "\<And>a. a \<in> string_at_cells p t \<Longrightarrow> pr_mem P (snd st') a = pr_mem P (snd st) a" for st'
  proof -
    have "cstring_at (pr_mem P (snd st')) p t" using ok cstring_at_agree [of p t, OF that] by simp
    from convert_string_loop_text [OF assms(2) this] show ?thesis
      using u(2) by (auto simp: pr conv_prec_def split: option.split)
  qed
  note loops = loop [OF refl] loop [OF keeps_fold [OF assms(2)]]
  show ?thesis
    unfolding convert_string_def 1 Option.bind.simps Let_def
    by (simp add: l'_def [symmetric] pad_spaces_fold loops l' u(1) pr(2) padded_def del: fold_replicate)
qed

subsection \<open>The whole format\<close>

lemma vsnprintf_loop_conv:
  assumes "parse_conversion tail va = Some (flags, width, precision, c # rest, va')"
    and "convert ft P c flags width precision va' st = Some (st', va'')"
  shows "vsnprintf_loop ft P (chr CHR ''%'' # tail) va st = vsnprintf_loop ft P rest va'' st'"
  by (subst vsnprintf_loop.simps) (simp add: at_def assms)

lemma vsnprintf_loop_plain:
  "0 \<notin> set t \<Longrightarrow> chr CHR ''%'' \<notin> set t \<Longrightarrow>
     vsnprintf_loop ft P (t @ rest) va st = vsnprintf_loop ft P rest va (fold (put P) t st)"
proof (induction t arbitrary: st)
  case (Cons c t)
  then show ?case by (subst vsnprintf_loop.simps) (auto simp: at_def)
qed simp

lemma convert_letter:
  "convert ft P (chr CHR ''%'') flags width precision va st = Some (put P (chr CHR ''%'') st, va)"
  "convert ft P (chr CHR ''c'') flags width precision (v # va) st = Some (convert_char P flags width v st, va)"
  "convert ft P (chr CHR ''s'') flags width precision (v # va) st
    = map_option (\<lambda>st. (st, va)) (convert_string P flags width precision v st)"
  "convert ft P (chr CHR ''p'') flags width precision (v # va) st = Some (convert_pointer P flags precision v st, va)"
  by (simp_all add: convert_def map_option_case split: option.split)

lemma convert_letter_int:
  "c \<in> set (map of_char ''diuxXo'') \<Longrightarrow>
     convert ft P c flags width precision (v # va) st = Some (convert_int P c flags width precision v st, va)"
  by (auto simp: convert_def)

lemma vsnprintf_loop_piece:
  assumes "piece_ok (pr_mem P (snd st)) q" and "keeps P (string_cells q)"
  shows "vsnprintf_loop ft P (piece_chars q @ rest) (piece_args q @ va) st
    = vsnprintf_loop ft P rest va (fold (put P) (piece_text q) st)"
proof -
  have loop: "vsnprintf_loop ft P (piece_chars q @ rest) (piece_args q @ va) st
      = vsnprintf_loop ft P rest va (fold (put P) (piece_text q) st)"
    if "parse_conversion tail (piece_args q @ va) = Some (flags, width, precision, c # rest, piece_args q @ va)"
      "convert ft P c flags width precision (piece_args q @ va) st = Some (fold (put P) (piece_text q) st, va)"
      "piece_chars q @ rest = chr CHR ''%'' # tail" for tail flags width precision c
    unfolding that(3) by (rule vsnprintf_loop_conv [OF that(1, 2)])
  show ?thesis
proof (cases q)
  case (Plain t)
  with assms show ?thesis by (simp add: vsnprintf_loop_plain)
next
  case Percent
  have "parse_conversion (chr CHR ''%'' # rest) (piece_args q @ va) = Some (0, 0, 0, chr CHR ''%'' # rest, piece_args q @ va)"
    by (simp add: Percent parse_conversion_def parse_width_def parse_precision_def parse_length_def is_digit_def at_def)
  moreover have "convert ft P (chr CHR ''%'') 0 0 0 (piece_args q @ va) st = Some (fold (put P) (piece_text q) st, va)"
    unfolding Percent by (simp add: convert_letter [simplified])
  ultimately show ?thesis by (rule loop) (simp add: Percent)
next
  case (Integer d lm c v)
  then have c: "ends_conv c" using assms by (auto simp: ends_conv_def)
  have "parse_conversion (conv_chars d @ mod_chars lm @ c # rest) (piece_args q @ va) = Some (conv_all_flags d lm,
      of_nat (cv_width d), of_nat (conv_prec d), c # rest, piece_args q @ va)"
    using assms Integer by (subst parse_conversion_chars [OF _ _ c]) (auto simp: int_fits_def conv_all_flags_def)
  moreover have "convert ft P c (conv_all_flags d lm) (of_nat (cv_width d)) (of_nat (conv_prec d)) (piece_args q @ va) st
      = Some (fold (put P) (piece_text q) st, va)"
    using assms(1) unfolding Integer by (simp only: convert_int_text convert_letter_int [of c] piece_args.simps append.simps piece_ok.simps)
  ultimately show ?thesis by (rule loop) (simp add: Integer)
next
  case (Character d v)
  have "parse_conversion (conv_chars d @ mod_chars No_mod @ chr CHR ''c'' # rest) (piece_args q @ va) = Some (conv_all_flags d No_mod,
      of_nat (cv_width d), of_nat (conv_prec d), chr CHR ''c'' # rest, piece_args q @ va)"
    using assms Character by (subst parse_conversion_chars) (auto simp: conv_all_flags_def ends_conv_def)
  moreover have "convert ft P (chr CHR ''c'') (conv_all_flags d No_mod) (of_nat (cv_width d)) (of_nat (conv_prec d)) (piece_args q @ va) st
      = Some (fold (put P) (piece_text q) st, va)"
    using assms(1) unfolding Character
    by (simp only: convert_char_text convert_letter piece_args.simps append.simps piece_ok.simps)
  ultimately show ?thesis by (rule loop) (simp add: Character)
next
  case (CString d p t)
  have "parse_conversion (conv_chars d @ mod_chars No_mod @ chr CHR ''s'' # rest) (piece_args q @ va) = Some (conv_all_flags d No_mod,
      of_nat (cv_width d), of_nat (conv_prec d), chr CHR ''s'' # rest, piece_args q @ va)"
    using assms CString by (subst parse_conversion_chars) (auto simp: conv_all_flags_def ends_conv_def)
  moreover have "convert ft P (chr CHR ''s'') (conv_all_flags d No_mod) (of_nat (cv_width d)) (of_nat (conv_prec d)) (piece_args q @ va) st
      = Some (fold (put P) (piece_text q) st, va)"
    using convert_string_text [OF assms(1) [unfolded CString], of No_mod] assms(2) unfolding CString
    by (simp only: convert_letter piece_args.simps append.simps string_cells.simps) simp
  ultimately show ?thesis by (rule loop) (simp add: CString)
next
  case (Pointer v)
  have "parse_conversion (chr CHR ''p'' # rest) (piece_args q @ va) = Some (0, 0, 0, chr CHR ''p'' # rest, piece_args q @ va)"
    by (simp add: Pointer parse_conversion_def parse_width_def parse_precision_def parse_length_def is_digit_def at_def)
  moreover have "convert ft P (chr CHR ''p'') 0 0 0 (piece_args q @ va) st = Some (fold (put P) (piece_text q) st, va)"
    unfolding Pointer by (simp only: convert_pointer_text convert_letter piece_args.simps append.simps)
  ultimately show ?thesis by (rule loop) (simp add: Pointer)
qed
qed

lemma piece_ok_agree: "(\<And>a. a \<in> string_cells q \<Longrightarrow> m a = m' a) \<Longrightarrow> piece_ok m q = piece_ok m' q"
  using cstring_at_agree [of _ _ m m'] by (cases q) simp_all

definition fmt_cells :: "piece list \<Rightarrow> addr set" where
  "fmt_cells ps = (\<Union>q\<in>set ps. string_cells q)"

lemma fmt_simps [simp]:
  "fmt_chars [] = []" "fmt_args [] = []" "fmt_text [] = []" "fmt_cells [] = {}"
  "fmt_chars (q # ps) = piece_chars q @ fmt_chars ps" "fmt_args (q # ps) = piece_args q @ fmt_args ps"
  "fmt_text (q # ps) = piece_text q @ fmt_text ps" "fmt_cells (q # ps) = string_cells q \<union> fmt_cells ps"
  by (simp_all add: fmt_chars_def fmt_args_def fmt_text_def fmt_cells_def)

lemma vsnprintf_loop_text:
  assumes "\<And>q. q \<in> set ps \<Longrightarrow> piece_ok (pr_mem P (snd st)) q" and "keeps P (fmt_cells ps)"
  shows "vsnprintf_loop ft P (fmt_chars ps) (fmt_args ps) st = Some (fold (put P) (fmt_text ps) st)"
  using assms
proof (induction ps arbitrary: st)
  case Nil
  show ?case by (subst vsnprintf_loop.simps) (simp add: at_def)
next
  case (Cons q ps)
  let ?st = "fold (put P) (piece_text q) st"
  have k: "keeps P (string_cells q)" "keeps P (fmt_cells ps)" using Cons.prems(2) by (simp_all add: keeps_def)
  have "piece_ok (pr_mem P (snd ?st)) r" if "r \<in> set ps" for r
  proof -
    have "a \<in> fmt_cells (q # ps)" if "a \<in> string_cells r" for a using that \<open>r \<in> set ps\<close> by (auto simp: fmt_cells_def)
    with keeps_fold [OF Cons.prems(2)] have "piece_ok (pr_mem P (snd ?st)) r = piece_ok (pr_mem P (snd st)) r"
      by (intro piece_ok_agree) blast
    with Cons.prems(1) that show ?thesis by simp
  qed
  from Cons.IH [OF this k(2)] vsnprintf_loop_piece [OF _ k(1), of st ft] Cons.prems(1) show ?case by simp
qed

section \<open>Printing to a buffer\<close>

lemma store_bytes_snoc:
  "length t < 2 ^ 64 - 1 \<Longrightarrow> (store_bytes m p t)(p + of_nat (length t) := c) = store_bytes m p (t @ [c])"
  using store_bytes_append [of t "[c]" m p] by (simp add: store_bytes_single)

lemma pr_mem_buffer [simp]: "pr_mem (buffer_printer b n) m = m"
  by (simp add: buffer_printer_def)

lemma put_buffer: "put (buffer_printer b n) c (idx, m) = (idx + 1, if idx < n then m(b + idx := c) else m)"
  by (simp add: put_def buffer_printer_def out_buffer_def)

lemma fold_put_buffer:
  assumes "length t < 2 ^ 64"
  shows "fold (put (buffer_printer b n)) t (0, m) = (of_nat (length t), store_bytes m b (take (unat n) t))"
  using assms
proof (induction t rule: rev_induct)
  case Nil
  show ?case by (simp add: store_bytes_def fun_eq_iff)
next
  case (snoc c t)
  have "of_nat (length t) < n \<longleftrightarrow> length t < unat n" using snoc.prems by (simp add: of_nat_less_word)
  moreover have "(store_bytes m b t)(b + of_nat (length t) := c) = store_bytes m b (t @ [c])"
    using snoc.prems by (intro store_bytes_snoc) simp
  ultimately show ?case using snoc by (simp add: put_buffer add.commute)
qed

lemma buffer_keeps: "(\<And>a. a \<in> A \<Longrightarrow> \<not> in_block a b n) \<Longrightarrow> keeps (buffer_printer b n) A"
  by (auto simp: keeps_def put_buffer in_block_def) (metis add_diff_cancel_left')

lemma terminated_text:
  assumes "0 < n" and "n < 2 ^ 64"
  shows "(store_bytes m b (take n t))(b + of_nat (min (length t) (n - 1)) := 0) = store_bytes m b (take (n - 1) t @ [0])"
proof (cases "length t < n")
  case True
  then show ?thesis using assms store_bytes_snoc [of t m b 0] by simp
next
  case False
  let ?u = "take (n - 1) t"
  have u: "length ?u = n - 1" "take n t = ?u @ [t ! (n - 1)]"
    using False assms take_Suc_conv_app_nth [of "n - 1" t] by simp_all
  have "store_bytes m b (take n t) = (store_bytes m b ?u)(b + of_nat (length ?u) := t ! (n - 1))"
    using assms u by (subst store_bytes_snoc) simp_all
  then have "(store_bytes m b (take n t))(b + of_nat (length ?u) := 0) = (store_bytes m b ?u)(b + of_nat (length ?u) := 0)" by simp
  also have "\<dots> = store_bytes m b (?u @ [0])" using assms u(1) by (intro store_bytes_snoc) simp
  finally show ?thesis using False u(1) by (simp add: min_absorb2)
qed

lemma vsnprintf_pieces:
  assumes "\<And>q. q \<in> set ps \<Longrightarrow> piece_ok m q" and "\<And>a. a \<in> fmt_cells ps \<Longrightarrow> \<not> in_block a buffer cnt"
    and "buffer \<noteq> 0" and "0 < cnt" and "length (fmt_text ps) < 2 ^ 31"
  shows "vsnprintf ft buffer cnt (fmt_chars ps) (fmt_args ps) m
    = Some (int (length (fmt_text ps)), store_bytes m buffer (take (unat cnt - 1) (fmt_text ps) @ [0]))"
proof -
  let ?P = "buffer_printer buffer cnt" and ?t = "fmt_text ps"
  have "vsnprintf_loop ft ?P (fmt_chars ps) (fmt_args ps) (0, m) = Some (fold (put ?P) ?t (0, m))"
    using assms(1, 2) by (intro vsnprintf_loop_text buffer_keeps) (simp_all add: buffer_printer_def)
  then have loop: "vsnprintf_loop ft ?P (fmt_chars ps) (fmt_args ps) (0, m)
      = Some (of_nat (length ?t), store_bytes m buffer (take (unat cnt) ?t))"
    using assms(5) by (simp add: fold_put_buffer)
  let ?i = "if of_nat (length ?t) < cnt then of_nat (length ?t) else cnt - 1"
  have n: "0 < unat cnt" using assms(4) by (simp add: word_less_nat_alt)
  have "?i = of_nat (min (length ?t) (unat cnt - 1))"
    using assms(5) n by (auto simp: of_nat_less_word min_def of_nat_diff)
  moreover have "unat (cnt - 1) = unat cnt - 1" using assms(4) by (intro unat_minus_one) auto
  then have "?i < cnt" using n by (auto simp: word_less_nat_alt)
  ultimately have "out_buffer 0 buffer ?i cnt (store_bytes m buffer (take (unat cnt) ?t))
      = store_bytes m buffer (take (unat cnt - 1) ?t @ [0])"
    using terminated_text [OF n, of m buffer ?t] by (simp add: out_buffer_def)
  moreover have "s32 (uint (of_nat (length ?t) :: u64)) = int (length ?t)"
    using assms(5) by (simp add: uint_nat unat_of_nat_u64)
  moreover have "vsnprintf ft buffer cnt (fmt_chars ps) (fmt_args ps) m = Some (s32 (uint (of_nat (length ?t) :: u64)),
      out_buffer 0 buffer ?i cnt (store_bytes m buffer (take (unat cnt) ?t)))"
    using assms(3) loop by (simp add: vsnprintf_def vsnprintf_main_def buffer_printer_def)
  ultimately show ?thesis by (simp only:)
qed

subsection \<open>Any format\<close>

text \<open>What every output of a character preserves, formatting preserves.\<close>

definition stable :: "'s printer \<Rightarrow> (u64 \<times> 's \<Rightarrow> bool) \<Rightarrow> bool" where
  "stable P Q \<longleftrightarrow> (\<forall>c st. Q st \<longrightarrow> Q (put P c st))"

lemma stable_put: "stable P Q \<Longrightarrow> Q st \<Longrightarrow> Q (put P c st)"
  unfolding stable_def by blast

lemma stable_fold: "stable P Q \<Longrightarrow> Q st \<Longrightarrow> Q (fold (put P) cs st)"
  by (rule fold_invariant [where P = Q and Q = "\<lambda>_. True"]) (auto intro: stable_put)

lemma stable_pads:
  assumes "stable P Q" and "Q st"
  shows "Q (pad_spaces P i width st)" and "Q (pad_right P start width' st)"
  using assms by (simp_all only: pad_spaces_fold pad_right_fold stable_fold)

lemma stable_out_rev: "stable P Q \<Longrightarrow> Q st \<Longrightarrow> Q (out_rev P buf width flags st)"
  by (simp add: out_rev_def Let_def stable_pads stable_fold)

lemma stable_ntoa: "stable P Q \<Longrightarrow> Q st \<Longrightarrow> Q (ntoa P v negative base prec width flags st)"
  unfolding ntoa_def ntoa_format_def Let_def by (rule stable_out_rev)

lemma stable_convert_int: "stable P Q \<Longrightarrow> Q st \<Longrightarrow> Q (convert_int P c flags width prec v st)"
  by (simp add: convert_int_def ntoa_long_def ntoa_long_long_def Let_def stable_ntoa)

lemma stable_convert_char: "stable P Q \<Longrightarrow> Q st \<Longrightarrow> Q (convert_char P flags width v st)"
  by (simp add: convert_char_def Let_def stable_pads stable_put)

lemma stable_string_loop:
  assumes ret: "convert_string_loop P p limited precision st = Some st'" and "stable P Q" and "Q st"
  shows "Q st'"
proof -
  have "stable (fst (fst (fst (fst ((((P, p), limited), precision), st))))) Q \<longrightarrow> Q (snd ((((P, p), limited), precision), st)) \<longrightarrow> Q st'"
  proof (rule convert_string_loop.raw_induct
      [where Pa = "\<lambda>args st'. stable (fst (fst (fst (fst args)))) Q \<longrightarrow> Q (snd args) \<longrightarrow> Q st'", OF _ ret], simp only: fst_conv snd_conv, intro impI)
    fix loop P p limited precision st st'
    assume IH: "\<And>P p limited precision st st'. loop P p limited precision st = Some st' \<Longrightarrow> stable P Q \<longrightarrow> Q st \<longrightarrow> Q st'"
      and body: "(if pr_mem P (snd st) p \<noteq> 0 \<and> (\<not> limited \<or> precision \<noteq> 0)
        then loop P (p + 1) limited (if limited then precision - 1 else precision) (put P (pr_mem P (snd st) p) st)
        else Some st) = Some st'" and st: "stable P Q" "Q st"
    show "Q st'" using body IH stable_put [OF st] st by (metis option.inject)
  qed
  with assms(2, 3) show ?thesis by simp
qed

lemma stable_convert_string:
  assumes "stable P Q" and "Q st" and "convert_string P flags width precision p st = Some st'"
  shows "Q st'"
proof -
  from assms(3) obtain l st1 where
    loop: "convert_string_loop P p (has flags FLAGS_PRECISION) precision
      (if \<not> has flags FLAGS_LEFT then pad_spaces P l width st else st) = Some st1"
    and st': "st' = (if has flags FLAGS_LEFT then pad_spaces P l width st1 else st1)"
    by (auto simp: convert_string_def bind_eq_Some_conv Let_def)
  have "Q (if \<not> has flags FLAGS_LEFT then pad_spaces P l width st else st)" using assms(1, 2) by (simp add: stable_pads)
  from stable_string_loop [OF loop assms(1) this] assms(1) show ?thesis by (simp add: st' stable_pads)
qed

lemma stable_convert:
  assumes "stable P Q" and "Q st" and "convert ft P c flags width precision va st = Some (st', va')"
  shows "Q st'"
proof (cases va)
  case Nil
  with assms show ?thesis by (auto simp: convert_def stable_put split: if_splits)
next
  case (Cons v va)
  note c = assms(3) [unfolded convert_def Cons list.case convert_pointer_def ntoa_long_long_def]
  from c stable_convert_string [OF assms(1, 2), of flags width precision v] show ?thesis
    by (auto simp: bind_eq_Some_conv assms(1, 2) stable_put stable_fold stable_ntoa stable_convert_int stable_convert_char
        simp del: set_map list.map split: if_split_asm)
qed

lemma stable_vsnprintf_loop:
  "stable P Q \<Longrightarrow> Q st \<Longrightarrow> vsnprintf_loop ft P fmt va st = Some st' \<Longrightarrow> Q st'"
proof (induction "length fmt" arbitrary: fmt va st rule: less_induct)
  case less
  note body = less.prems(3) [unfolded vsnprintf_loop.simps [of ft P fmt]]
  show ?case
  proof (cases "at fmt = 0")
    case True
    with body less.prems show ?thesis by simp
  next
    case nz: False
    then have l: "length (tl fmt) < length fmt" by (cases fmt) (simp_all add: at_def)
    show ?thesis
    proof (cases "at fmt = chr CHR ''%''")
      case False
      with body nz have "vsnprintf_loop ft P (tl fmt) va (put P (at fmt) st) = Some st'" by simp
      from less.hyps [OF l less.prems(1) stable_put [OF less.prems(1, 2)] this] show ?thesis .
    next
      case True
      with body nz obtain flags width precision rest va1 st1 va2 where
        p: "parse_conversion (tl fmt) va = Some (flags, width, precision, rest, va1)" and "rest \<noteq> []"
        and c: "convert ft P (at rest) flags width precision va1 st = Some (st1, va2)"
        and r: "vsnprintf_loop ft P (tl rest) va2 st1 = Some st'"
        by (auto split: option.splits if_splits)
      have "length (tl rest) < length fmt" using length_parse_conversion [OF p] l \<open>rest \<noteq> []\<close> by (cases rest) simp_all
      from less.hyps [OF this less.prems(1) stable_convert [OF less.prems(1, 2) c] r] show ?thesis .
    qed
  qed
qed

lemma vsnprintf_outside:
  assumes "vsnprintf ft buffer cnt fmt va m = Some (n, m')" and "\<not> in_block a buffer cnt"
  shows "m' a = m a"
proof -
  let ?P = "buffer_printer buffer cnt" and ?Q = "\<lambda>st :: u64 \<times> mem. snd st a = m a"
  have out: "out_buffer c buffer idx cnt m1 a = m1 a" for c idx m1
    using assms(2) by (auto simp: out_buffer_def in_block_def)
  have P: "stable (if pr_buffer ?P = NULL then ?P\<lparr>pr_out := out_null\<rparr> else ?P) ?Q"
    using assms(2) by (auto simp: stable_def put_def buffer_printer_def out_null_def out)
  from assms(1) obtain idx m1 where
    loop: "vsnprintf_loop ft (if pr_buffer ?P = NULL then ?P\<lparr>pr_out := out_null\<rparr> else ?P) fmt va (0, m) = Some (idx, m1)"
    and m': "m' = (if buffer = NULL then m1 else out_buffer 0 buffer (if idx < cnt then idx else cnt - 1) cnt m1)"
    by (auto simp: vsnprintf_def vsnprintf_main_def Let_def bind_eq_Some_conv buffer_printer_def out_null_def split: if_splits)
  from stable_vsnprintf_loop [OF P _ loop] m' show ?thesis by (simp add: out)
qed

subsection \<open>The kernel's output\<close>

text \<open>The text in the static buffer, and the state with it there.\<close>

definition printed :: "piece list \<Rightarrow> u8 list" where
  "printed ps = take 4095 (fmt_text ps)"

definition with_text :: "addr \<Rightarrow> piece list \<Rightarrow> stdio_state \<Rightarrow> stdio_state" where
  "with_text buffer ps s = s\<lparr>io_graphics := (io_graphics s)\<lparr>g_mem := store_bytes (g_mem (io_graphics s)) buffer (printed ps @ [0])\<rparr>\<rparr>"

lemma printed_at_buffer:
  "0 \<notin> set (fmt_text ps) \<Longrightarrow> cstring_at (g_mem (io_graphics (with_text buffer ps s))) buffer (printed ps)"
  using cstring_at_stored [of "printed ps" "g_mem (io_graphics s)" buffer]
  by (auto simp: with_text_def printed_def min_less_iff_disj dest: in_set_takeD)

lemma io_Printf_with_pieces:
  assumes "\<And>q. q \<in> set ps \<Longrightarrow> piece_ok (g_mem (io_graphics s)) q" and "\<And>a. a \<in> fmt_cells ps \<Longrightarrow> \<not> in_block a buffer 4096"
    and "buffer \<noteq> 0" and "length (fmt_text ps) < 2 ^ 31"
  shows "io_Printf_with ft buffer out (fmt_chars ps) (fmt_args ps) s
    = map_option (Pair (int (length (fmt_text ps)))) (out buffer (with_text buffer ps s))"
  using vsnprintf_pieces [OF assms(1-3) _ assms(4), of ft]
  by (simp add: io_Printf_with_def io_Printf_size_def with_text_def printed_def map_option_case split: Option.bind_split option.split)

lemma io_Printf_quiet:
  fixes s :: stdio_state
  assumes "\<And>q. q \<in> set ps \<Longrightarrow> piece_ok (g_mem (io_graphics s)) q" and "\<And>a. a \<in> fmt_cells ps \<Longrightarrow> \<not> in_block a buffer 4096"
    and "buffer \<noteq> 0" and "length (fmt_text ps) < 2 ^ 31" and "0 \<notin> set (fmt_text ps)"
    and "io_serial s = (port, io)" and "sp_ok port" and "line_ready port io"
  shows "\<exists>s'. io_Printf ft buffer e True new (fmt_chars ps) (fmt_args ps) s = Some (int (length (fmt_text ps)), s') \<and>
    io_out (snd (io_serial s')) = io_out io @ map (Pair (serial_reg port 0)) (take 4095 (fmt_text ps))"
proof -
  have "io_serial (with_text buffer ps s) = (port, io)" using assms(6) by (simp add: with_text_def)
  from stdio_serial_text [OF printed_at_buffer [OF assms(5)] this assms(7, 8)] show ?thesis
    by (auto simp: io_Printf_def io_Printf_with_pieces [OF assms(1-4)] io_WriteConsole_def printed_def)
qed

text \<open>\<^verbatim>\<open>io_Errorf\<close> puts out the text on the serial line and on the screen.\<close>

lemma io_Errorf_text:
  fixes s :: stdio_state
  assumes "\<And>q. q \<in> set ps \<Longrightarrow> piece_ok (g_mem (io_graphics s)) q" and "\<And>a. a \<in> fmt_cells ps \<Longrightarrow> \<not> in_block a buffer 4096"
    and "buffer \<noteq> 0" and "length (fmt_text ps) \<le> 4095" and "0 \<notin> set (fmt_text ps)" and "fmt_text ps = utf8_text cs"
    and "text_room buffer cs s" and "g_Framebuffer (io_graphics s) \<noteq> NULL"
    and "lines_fit (count_list (shown cs) 0x0A) (io_graphics s)"
    and "io_serial s = (port, io)" and "sp_ok port" and "line_ready port io"
  shows "\<exists>io'. io_Errorf ft buffer e new (fmt_chars ps) (fmt_args ps) s = Some (int (length (fmt_text ps)), s\<lparr>io_serial := (port, io'),
      io_graphics := draw_text e HelosGraphics_Color_White (shown cs) (with_units cs (with_text buffer ps s))\<rparr>) \<and>
    io_in io' = io_in io \<and> io_out io' = io_out io @ map (Pair (serial_reg port 0)) (fmt_text ps)"
proof -
  have l: "length (fmt_text ps) < 2 ^ 31" using assms(4) by simp
  have p: "printed ps = utf8_text cs" using assms(4, 6) by (simp add: printed_def)
  have "text_ready buffer cs (with_text buffer ps s)"
    using printed_at_buffer [OF assms(5), of buffer s] assms(7) unfolding p
    by (simp add: text_ready_def text_room_def with_text_def buffer_bytes_def)
  moreover have "g_Framebuffer (io_graphics (with_text buffer ps s)) \<noteq> NULL"
    "lines_fit (count_list (shown cs) 0x0A) (io_graphics (with_text buffer ps s))"
    "io_serial (with_text buffer ps s) = (port, io)"
    using assms(8-10) by (simp_all add: with_text_def lines_fit_def back_ok_def buffer_bytes_def)
  ultimately obtain io' where "io_Error e new buffer (with_text buffer ps s) = Some ((with_text buffer ps s)\<lparr>io_serial := (port, io'),
      io_graphics := draw_text e HelosGraphics_Color_White (shown cs) (with_units cs (with_text buffer ps s))\<rparr>)"
    "io_in io' = io_in io" "io_out io' = io_out io @ map (Pair (serial_reg port 0)) (utf8_text cs)"
    using io_Error_text assms(11, 12) by blast
  then show ?thesis using assms(6)
    by (intro exI [of _ io']) (simp add: io_Errorf_def io_Printf_with_pieces [OF assms(1-3) l], simp add: with_text_def)
qed

section \<open>Where the code departs from the standard\<close>

text \<open>
  With left adjustment the precision is not applied; binary numbers lose the digits beyond the 32 of the
  conversion buffer; a lone \<^verbatim>\<open>%\<close> at the end of a format reads behind it.
\<close>

lemma left_precision_ignored:
  "convert_int (char_printer 0) (chr CHR ''d'') (FLAGS_LEFT OR FLAGS_PRECISION) 0 3 5 (0, m, []) = (1, m, [chr CHR ''5''])"
proof -
  let ?F = "FLAGS_LEFT OR FLAGS_PRECISION"
  have F: "has (int_flags (chr CHR ''d'') ?F) f = has ?F f" if "f \<in> {FLAGS_LEFT, FLAGS_PRECISION, FLAGS_ZEROPAD, FLAGS_HASH,
      FLAGS_PLUS, FLAGS_SPACE, FLAGS_UPPERCASE, FLAGS_CHAR, FLAGS_SHORT, FLAGS_LONG, FLAGS_LONG_LONG}" for f
    using that by (auto simp: flag_simps bit_or_iff is_signed_def)
  have "ntoa_digits (5 :: u32) 10 (int_flags (chr CHR ''d'') ?F) [] = [chr CHR ''5'']"
    by (subst ntoa_digits.simps) (simp add: digit_char_def)
  then show ?thesis
    by (simp add: convert_int_def ntoa_long_def ntoa_def ntoa_format_def out_rev_def Let_def F flag_simps bit_or_iff
        int_base_def word_magnitude_def word_sless_alt int_arg_def PRINTF_NTOA_BUFFER_SIZE_def pad_right_fold put_def char_printer_def out_char_def)
qed

lemma ntoa_digits_length: "length buf < PRINTF_NTOA_BUFFER_SIZE \<Longrightarrow> length (ntoa_digits v base flags buf) \<le> PRINTF_NTOA_BUFFER_SIZE"
proof (induction v base flags buf rule: ntoa_digits.induct)
  case (1 v base flags buf)
  then show ?case by (subst ntoa_digits.simps) (simp add: Let_def)
qed

lemma lone_percent: "vsnprintf_loop ft P (map of_char ''%'') va st = None"
  by (subst vsnprintf_loop.simps)
    (simp add: at_def parse_conversion_def parse_width_def parse_precision_def parse_length_def is_digit_def)

section \<open>Properties\<close>

text \<open>
  C8: Printing a format to a buffer stores what the C standard says the format means: the texts of its
  pieces one after the other, cut to leave room for the terminating zero, and nothing else; the result is the length
  of the whole text. The buffer is not empty and lies apart from the strings printed. This holds for literal text, integers in all sizes (\<^verbatim>\<open>d i u x X o\<close>), characters, strings and pointers,
  with the flags \<^verbatim>\<open>0 - +\<close> and space, widths and precisions written as digits. Left out are the flag \<^verbatim>\<open>#\<close>, an asterisk for a width or a precision,
  floating point, and for integers what the 32 characters of the conversion buffer do not hold (a precision of 32 or more, a zero-padded
  width above 32) and left adjustment with a precision that adds digits, where the code does not follow the standard.
\<close>

theorem snprintf_formats:
  assumes "\<And>q. q \<in> set ps \<Longrightarrow> piece_ok m q" and "\<And>a. a \<in> fmt_cells ps \<Longrightarrow> \<not> in_block a buffer cnt"
    and "buffer \<noteq> 0" and "0 < cnt" and "length (fmt_text ps) < 2 ^ 31"
  shows "snprintf ft buffer cnt (fmt_chars ps) (fmt_args ps) m
    = Some (int (length (fmt_text ps)), store_bytes m buffer (take (unat cnt - 1) (fmt_text ps) @ [0]))"
  using vsnprintf_pieces [OF assms] by (simp add: snprintf_def vsnprintf_def)

definition plain_conv :: conv where
  "plain_conv = \<lparr>cv_zero = False, cv_left = False, cv_plus = False, cv_space = False, cv_width = 0, cv_prec = None\<rparr>"

text \<open>The formats \<^verbatim>\<open>"n=%5d, %-4s%%"\<close> and \<^verbatim>\<open>"%02X"\<close>.\<close>

definition demo_pieces :: "piece list" where
  "demo_pieces = [Plain (map of_char ''n=''), Integer (plain_conv\<lparr>cv_width := 5\<rparr>) No_mod (chr CHR ''d'') (- 42),
     Plain (map of_char '', ''), CString (plain_conv\<lparr>cv_left := True, cv_width := 4\<rparr>) 0x2000 (map of_char ''ab''), Percent,
     Integer (plain_conv\<lparr>cv_zero := True, cv_width := 2\<rparr>) Mod_hh (chr CHR ''X'') 0x1FA]"

definition demo_text_mem :: mem where
  "demo_text_mem = (\<lambda>a. if a = 0x2000 then chr CHR ''a'' else if a = 0x2001 then chr CHR ''b'' else 0)"

lemma demo_digits: "digits_of 10 42 = [4, 2]" "digits_of 16 250 = [15, 10]" "digits_of 10 5 = [5]" "digits_of 10 4 = [4]"
  "digits_of 10 2 = [2]"
  by (simp_all add: digits_of.simps)

lemmas demo_conv_defs = demo_pieces_def plain_conv_def conv_chars_def flag_chars_def nat_text_def demo_digits numeral_char_def
  is_signed_def sign_text_def int_digits_def digits_text_def int_base_def conv_prec_def

lemma demo_pieces_chars:
  "fmt_chars demo_pieces = map of_char ''n=%5d, %-4s%%%02hhX''" "fmt_args demo_pieces = [- 42, 0x2000, 0x1FA]"
  by (simp_all add: demo_conv_defs)

lemma demo_pieces_text: "fmt_text demo_pieces = map of_char ''n=  -42, ab  %FA''"
  by code_simp

lemma demo_pieces_ok: "q \<in> set demo_pieces \<Longrightarrow> piece_ok demo_text_mem q"
  by (auto simp: demo_conv_defs int_fits_def demo_text_mem_def)

lemma demo_pieces_cells: "fmt_cells demo_pieces = {0x2000, 0x2001, 0x2002}"
  by (auto simp: demo_pieces_def string_at_cells_def atMost_Suc)

theorem snprintf_formats_witness:
  "snprintf (\<lambda>_ _ _ _ _. []) 0x1000 12 (map of_char ''n=%5d, %-4s%%%02hhX'') [- 42, 0x2000, 0x1FA] demo_text_mem
    = Some (16, store_bytes demo_text_mem 0x1000 (map of_char ''n=  -42, ab'' @ [0]))"
proof -
  have "\<not> in_block a 0x1000 12" if "a \<in> fmt_cells demo_pieces" for a
    using that by (auto simp: demo_pieces_cells in_block_def)
  from snprintf_formats [where ps = demo_pieces and m = demo_text_mem and buffer = "0x1000" and cnt = 12
      and ft = "\<lambda>_ _ _ _ _. []", OF demo_pieces_ok this]
  show ?thesis by (simp add: demo_pieces_chars demo_pieces_text)
qed

text \<open>
  C30: Whatever the format and the arguments are, printing to a buffer of \<open>cnt\<close> bytes changes nothing outside
  of it, not even for a size of 0.
\<close>

theorem vsnprintf_stays_in_buffer:
  assumes "vsnprintf ft buffer cnt fmt va m = Some (n, m')" and "\<not> in_block a buffer cnt"
  shows "m' a = m a"
  using assms by (rule vsnprintf_outside)

theorem vsnprintf_stays_in_buffer_witness:
  "vsnprintf (\<lambda>_ _ _ _ _. []) 0x1000 2 (map of_char ''abc'') [] (\<lambda>_. 7)
     = Some (3, (\<lambda>_. 7)(0x1000 := chr CHR ''a'', 0x1001 := 0)) \<and>
   ((\<lambda>_. 7)(0x1000 := chr CHR ''a'', 0x1001 := 0)) (0x1002 :: addr) = (7 :: u8)"
proof -
  have "vsnprintf (\<lambda>_ _ _ _ _. []) 0x1000 2 (map of_char ''abc'') [] (\<lambda>_. 7)
     = Some (3, (\<lambda>_. 7)(0x1000 := chr CHR ''a'', 0x1001 := 0))"
    by (simp add: vsnprintf_def vsnprintf_main_def buffer_printer_def vsnprintf_loop.simps at_def put_def out_buffer_def fun_upd_twist)
  from this vsnprintf_stays_in_buffer [OF this, of "0x1002"] show ?thesis by (simp add: in_block_def)
qed

definition demo_output :: stdio_state where
  "demo_output = \<lparr>io_graphics = demo_console\<lparr>g_mem := demo_text_mem\<rparr>, io_serial = (pic_serial_COM1\<lparr>sp_ok := True\<rparr>, demo_line 3),
     io_efi = [], io_bufSize = 512, io_buffer = 0, io_bufferReal = 0, io_units = 512\<rparr>"

theorem demo_output_transmits:
  "\<exists>s'. io_Printf (\<lambda>_ _ _ _ _. []) 0x10000 \<lparr>e_font = (\<lambda>_. 0), e_mouseX = 0, e_mouseY = 0\<rparr> True 0 (map of_char ''n=%5d, %-4s%%%02hhX'') [- 42, 0x2000, 0x1FA] demo_output
     = Some (16, s') \<and> io_out (snd (io_serial s')) = map (Pair 0x3f8) (map of_char ''n=  -42, ab  %FA'')"
proof -
  have "\<exists>n\<ge>k. n mod 3 = 2" for k :: nat by (rule exI [of _ "3 * k + 2"]) presburger
  then have ready: "line_ready (pic_serial_COM1\<lparr>sp_ok := True\<rparr>) (demo_line 3)" by (force simp: line_ready_def demo_line_def)
  have cells: "\<not> in_block a 0x10000 4096" if "a \<in> fmt_cells demo_pieces" for a
    using that by (auto simp: demo_pieces_cells in_block_def)
  have ok: "piece_ok (g_mem (io_graphics demo_output)) q" if "q \<in> set demo_pieces" for q
    using demo_pieces_ok [OF that] by (simp add: demo_output_def)
  from io_Printf_quiet [where ps = demo_pieces and buffer = "0x10000" and s = "demo_output" and new = 0 and e = "\<lparr>e_font = (\<lambda>_. 0), e_mouseX = 0, e_mouseY = 0\<rparr>"
      and ft = "\<lambda>_ _ _ _ _. []", OF ok cells _ _ _ _ _ ready]
  show ?thesis by (simp add: demo_pieces_chars demo_pieces_text demo_output_def pic_serial_COM1_def serial_reg_def demo_line_def)
qed

end
