(* ===== verification/Reports.thy ===== *)
theory Reports
  imports Printf Interrupt
begin

text \<open>
  What the kernel prints when it cannot go on: \<^verbatim>\<open>src/runtime/panic_assert.h\<close> and the handlers of
  \<^verbatim>\<open>src/interrupt/handler.c\<close>. The processor halts in the state they end in. The registers are arguments,
  read by the entry stubs; strings are literals or lie in memory.
\<close>

section \<open>The code\<close>

abbreviation lit :: "string \<Rightarrow> u8 list" where "lit \<equiv> map of_char"

abbreviation buffer_size :: u64 where "buffer_size \<equiv> of_nat HELOS_BUFFER_SIZE"

text \<open>A call that may not return: the processor runs on, or halts.\<close>

datatype 's flow = Runs 's | Halted 's

subsection \<open>Panics\<close>

definition Panic :: "float_text \<Rightarrow> addr \<Rightarrow> console_env \<Rightarrow> addr \<Rightarrow> addr \<Rightarrow> stdio_state \<Rightarrow> stdio_state flow option" where
  "Panic ft buffer e new message s = do {
     (_, s) \<leftarrow> io_Errorf ft buffer e new (lit ''Panic: %s'' @ [0x0A]) [message] s;
     Some (Halted s)
   }"

text \<open>\<open>general\<close> is the address of \<^verbatim>\<open>Buffer\<close>.\<close>

definition Panicf ::
  "float_text \<Rightarrow> addr \<Rightarrow> addr \<Rightarrow> console_env \<Rightarrow> addr \<Rightarrow> u8 list \<Rightarrow> u64 list \<Rightarrow> stdio_state \<Rightarrow> stdio_state flow option" where
  "Panicf ft buffer general e new fmt va s = do {
     (_, m) \<leftarrow> vsnprintf ft general buffer_size fmt va (g_mem (io_graphics s));
     let s = s\<lparr>io_graphics := (io_graphics s)\<lparr>g_mem := m\<rparr>\<rparr>;
     (_, s) \<leftarrow> io_Errorf ft buffer e new (lit ''Panic: %s'' @ [0x0A]) [general] s;
     Some (Halted s)
   }"

text \<open>\<open>file\<close> is a part of the format; \<open>func\<close> and \<open>expr\<close> are the addresses of their texts.\<close>

definition assert_or_panic ::
  "float_text \<Rightarrow> addr \<Rightarrow> addr \<Rightarrow> console_env \<Rightarrow> addr \<Rightarrow> u8 list \<Rightarrow> int \<Rightarrow> addr \<Rightarrow> addr \<Rightarrow> bool \<Rightarrow> stdio_state \<Rightarrow>
     stdio_state flow option" where
  "assert_or_panic ft buffer general e new file line func expr ok s =
     (if \<not> ok
      then Panicf ft buffer general e new (lit ''Assertion failed: ('' @ file @ lit '':%d[%s]), Expression: %s'')
        [of_int line, func, expr] s
      else Some (Runs s))"

subsection \<open>The handlers\<close>

record registers =
  r_rax :: u64
  r_rbx :: u64
  r_rcx :: u64
  r_rdx :: u64
  r_rsi :: u64
  r_rdi :: u64
  r_rbp :: u64
  r_rsp :: u64
  r_r8 :: u64
  r_r9 :: u64
  r_r10 :: u64
  r_r11 :: u64
  r_r12 :: u64
  r_r13 :: u64
  r_r14 :: u64
  r_r15 :: u64

definition handler_format :: "u8 list" where
  "handler_format =
     lit ''Panic: INT %02xh: %s, err=%d(0x%02x), RIP=%llx, CR2=%llx'' @ [0x0A] @
     lit ''    RAX=%016llX, RBX=%016llX, RCX=%016llX, RDX=%016llX'' @ [0x0A] @
     lit ''    RSI=%016llX, RDI=%016llX, RBP=%016llX, RSP=%016llX'' @ [0x0A] @
     lit ''     R8=%016llX,  R9=%016llX, R10=%016llX, R11=%016llX'' @ [0x0A] @
     lit ''    R12=%016llX, R13=%016llX, R14=%016llX, R15=%016llX''"

text \<open>
  \<open>descriptions\<close> is the address of the array \<^verbatim>\<open>interrupt_Descriptions\<close> of pointers. The vector, the error code, the
  saved \<^verbatim>\<open>RIP\<close> and the registers are the arguments of the C function: the entry stubs of
  \<^verbatim>\<open>interrupt/handler.asm.S\<close> that collect them are assembly and not modelled (the stub of vector 8 takes the error code for the
  \<^verbatim>\<open>RIP\<close>).
\<close>

definition interrupt_Handler ::
  "float_text \<Rightarrow> addr \<Rightarrow> console_env \<Rightarrow> addr \<Rightarrow> addr \<Rightarrow> int \<Rightarrow> int \<Rightarrow> u64 \<Rightarrow> u64 \<Rightarrow> registers \<Rightarrow> stdio_state \<Rightarrow>
     stdio_state flow option" where
  "interrupt_Handler ft buffer e new descriptions vec errcode rip cr2 r s = do {
     let description = le_load (g_mem (io_graphics s)) (descriptions + of_int (8 * vec)) 8;
     (_, s) \<leftarrow> io_Errorf ft buffer e new handler_format
       [of_int vec, description, of_int errcode, of_int errcode, rip, cr2, r_rax r, r_rbx r, r_rcx r, r_rdx r,
        r_rsi r, r_rdi r, r_rbp r, r_rsp r, r_r8 r, r_r9 r, r_r10 r, r_r11 r, r_r12 r, r_r13 r, r_r14 r, r_r15 r] s;
     Some (Halted s)
   }"

definition interrupt_Handler128 ::
  "float_text \<Rightarrow> addr \<Rightarrow> console_env \<Rightarrow> bool \<Rightarrow> addr \<Rightarrow> int \<Rightarrow> int \<Rightarrow> int \<Rightarrow> int \<Rightarrow> int \<Rightarrow> int \<Rightarrow> int \<Rightarrow> stdio_state \<Rightarrow>
     stdio_state option" where
  "interrupt_Handler128 ft buffer env quiet new opcode a b c d e f s = do {
     (_, s) \<leftarrow> io_Printf ft buffer env quiet new
       (lit ''INT 80h: EAX(opcode)=%d, abcdef=[%d,%d,%d,%d,%d,%d]'' @ [0x0A])
       [of_int opcode, of_int a, of_int b, of_int c, of_int d, of_int e, of_int f] s;
     Some s
   }"

section \<open>Texts of plain characters\<close>

text \<open>Characters of one byte in UTF-8.\<close>

definition ascii :: "u8 list \<Rightarrow> bool" where
  "ascii t \<longleftrightarrow> (\<forall>c \<in> set t. c \<noteq> 0 \<and> c < 0x80)"

lemma ascii_simps [simp]: "ascii []" "ascii (c # t) \<longleftrightarrow> c \<noteq> 0 \<and> c < 0x80 \<and> ascii t"
  "ascii (t @ u) \<longleftrightarrow> ascii t \<and> ascii u" "ascii (replicate n c) \<longleftrightarrow> n = 0 \<or> c \<noteq> 0 \<and> c < 0x80"
  by (auto simp: ascii_def)

lemma unat_wide [simp]: "unat (ucast (c :: u8) :: u32) = unat c"
  using unat_lt_u8 [of c] by (simp add: unsigned_ucast_eq take_bit_nat_eq_self del: unat_lt_u8)

lemma ascii_utf8: "ascii t \<Longrightarrow> utf8_text (map ucast t) = t"
proof (induction t)
  case (Cons c t)
  then have "ucast c < (0x80 :: u32)" by (simp add: word_less_nat_alt)
  moreover have "ucast (ucast c :: u32) = c" by (rule bit_word_eqI) (auto simp: bit_simps dest: bit_imp_le_length)
  ultimately show ?case using Cons by (simp add: utf8_bytes_ascii)
qed simp

lemma ascii_shown: "ascii t \<Longrightarrow> shown (map ucast t) = map ucast t"
proof (induction t)
  case (Cons c t)
  have "take_bit 16 (ucast c :: u32) = ucast c" by (rule bit_word_eqI) (auto simp: bit_simps dest: bit_imp_le_length)
  moreover have "ucast c = (0 :: u32) \<longleftrightarrow> c = 0" by (simp add: word_unat_eq_iff)
  ultimately show ?case using Cons by simp
qed simp

lemma ascii_max: "ascii t \<Longrightarrow> c \<in> set (map ucast t) \<Longrightarrow> c \<le> HELOS_UNICODE_MAX"
  by (auto simp: ascii_def utf8_constants word_le_nat_alt word_less_nat_alt)

lemma count_list_ucast: "count_list (map ucast t) (0x0A :: u32) = count_list t (0x0A :: u8)"
  by (induction t) (auto simp: word_unat_eq_iff)

lemma disjoint_blocks_mono: "disjoint_blocks p n q k \<Longrightarrow> n' \<le> n \<Longrightarrow> k' \<le> k \<Longrightarrow> disjoint_blocks p n' q k'"
  by (auto simp: disjoint_blocks_def in_block_def dest: order.strict_trans2)

text \<open>A console with its buffer of at least 512 units, where the static buffer of \<^verbatim>\<open>io_Printf\<close> is at \<open>buffer\<close>.\<close>

definition console_ready :: "addr \<Rightarrow> stdio_state \<Rightarrow> bool" where
  "console_ready buffer s \<longleftrightarrow> buffer \<noteq> 0 \<and> g_Framebuffer (io_graphics s) \<noteq> NULL \<and> 512 \<le> io_bufSize s \<and>
     disjoint_blocks buffer 4096 (io_buffer s) 1024 \<and>
     disjoint_blocks (io_buffer s) 1024 (g_Framebuffer (io_graphics s)) (of_int (buffer_bytes (io_graphics s)))"

lemma console_ready_room:
  assumes "console_ready buffer s" and "ascii t" and "length t < 512"
  shows "text_room buffer (map ucast t) s"
proof -
  have "2 * length t + 2 < 2 ^ 64" "length t < 2 ^ 64" using assms(3) by simp_all
  note u = this [THEN unat_of_nat_u64]
  have l: "(of_nat (length t) :: u64) \<le> 4096" "(of_nat (2 * length t + 2) :: u64) \<le> 1024"
    using assms(3) by (simp_all only: word_le_nat_alt u) simp_all
  have "disjoint_blocks buffer (of_nat (length t)) (io_buffer s) (of_nat (2 * length t + 2))"
    using assms(1) l by (auto simp: console_ready_def intro: disjoint_blocks_mono)
  moreover have "disjoint_blocks (io_buffer s) (of_nat (2 * length t + 2)) (g_Framebuffer (io_graphics s)) (of_int (buffer_bytes (io_graphics s)))"
    using assms(1) l by (auto simp: console_ready_def intro: disjoint_blocks_mono)
  ultimately show ?thesis
    using assms ascii_max [OF assms(2)] by (simp add: text_room_def console_ready_def ascii_utf8)
qed

text \<open>The state after a text has been put out.\<close>

definition reported :: "console_env \<Rightarrow> addr \<Rightarrow> piece list \<Rightarrow> stdio_state \<Rightarrow> graphics_state" where
  "reported e buffer ps s =
     draw_text e HelosGraphics_Color_White (map ucast (fmt_text ps)) (with_units (map ucast (fmt_text ps)) (with_text buffer ps s))"

lemma io_Errorf_ascii:
  fixes s :: stdio_state
  assumes "\<And>q. q \<in> set ps \<Longrightarrow> piece_ok (g_mem (io_graphics s)) q" and "\<And>a. a \<in> fmt_cells ps \<Longrightarrow> \<not> in_block a buffer 4096"
    and "ascii (fmt_text ps)" and "length (fmt_text ps) < 512" and "console_ready buffer s"
    and "lines_fit (count_list (fmt_text ps) 0x0A) (io_graphics s)"
    and "io_serial s = (port, io)" and "sp_ok port" and "line_ready port io"
  shows "\<exists>io'. io_Errorf ft buffer e new (fmt_chars ps) (fmt_args ps) s = Some (int (length (fmt_text ps)),
      s\<lparr>io_serial := (port, io'), io_graphics := reported e buffer ps s\<rparr>) \<and>
    io_out io' = io_out io @ map (Pair (serial_reg port 0)) (fmt_text ps)"
proof -
  let ?cs = "map ucast (fmt_text ps) :: u32 list"
  have b: "buffer \<noteq> 0" "g_Framebuffer (io_graphics s) \<noteq> NULL" using assms(5) by (simp_all add: console_ready_def)
  have l: "length (fmt_text ps) \<le> 4095" "0 \<notin> set (fmt_text ps)" using assms(3, 4) by (auto simp: ascii_def)
  have t: "fmt_text ps = utf8_text ?cs" using ascii_utf8 [OF assms(3)] by simp
  have lf: "lines_fit (count_list (shown ?cs) 0x0A) (io_graphics s)"
    using assms(6) by (simp add: ascii_shown [OF assms(3)] count_list_ucast)
  from io_Errorf_text [where cs = ?cs, OF assms(1, 2) b(1) l t console_ready_room [OF assms(5, 3, 4)] b(2) lf assms(7-9)]
  show ?thesis by (simp add: ascii_shown [OF assms(3)] reported_def) blast
qed

section \<open>The report of an exception\<close>

definition hex_text :: "bool \<Rightarrow> nat \<Rightarrow> nat \<Rightarrow> u8 list" where
  "hex_text upper width n = replicate (width - length (nat_text upper 16 n)) (chr CHR ''0'') @ nat_text upper 16 n"

definition dec_text :: "int \<Rightarrow> u8 list" where
  "dec_text z = (if z < 0 then [chr CHR ''-''] else []) @ nat_text False 10 (nat \<bar>z\<bar>)"

text \<open>What is reported: the exception, and the registers four to a line.\<close>

definition register_text :: "string \<times> u64 \<Rightarrow> u8 list" where
  "register_text = (\<lambda>(name, v). lit name @ hex_text True 16 (unat v))"

definition register_fields :: "registers \<Rightarrow> (string \<times> u64) list" where
  "register_fields r =
     [(''    RAX='', r_rax r), ('', RBX='', r_rbx r), ('', RCX='', r_rcx r), ('', RDX='', r_rdx r),
      (''    RSI='', r_rsi r), ('', RDI='', r_rdi r), ('', RBP='', r_rbp r), ('', RSP='', r_rsp r),
      (''     R8='', r_r8 r), ('',  R9='', r_r9 r), ('', R10='', r_r10 r), ('', R11='', r_r11 r),
      (''    R12='', r_r12 r), ('', R13='', r_r13 r), ('', R14='', r_r14 r), ('', R15='', r_r15 r)]"

definition register_lines :: "(string \<times> u64) list \<Rightarrow> u8 list" where
  "register_lines fs = concat (map register_text (take 4 fs)) @ [0x0A] @ concat (map register_text (take 4 (drop 4 fs))) @ [0x0A] @
     concat (map register_text (take 4 (drop 8 fs))) @ [0x0A] @ concat (map register_text (drop 12 fs))"

definition exception_text :: "nat \<Rightarrow> int \<Rightarrow> u64 \<Rightarrow> u64 \<Rightarrow> registers \<Rightarrow> u8 list" where
  "exception_text vec errcode rip cr2 r =
     lit ''Panic: INT '' @ hex_text False 2 vec @ lit ''h: '' @ lit (interrupt_Descriptions ! vec) @
     lit '', err='' @ dec_text errcode @ lit ''(0x'' @ hex_text False 2 (nat (errcode mod 2 ^ 32)) @
     lit ''), RIP='' @ nat_text False 16 (unat rip) @ lit '', CR2='' @ nat_text False 16 (unat cr2) @ [0x0A] @
     register_lines (register_fields r)"

text \<open>The same as pieces of the format.\<close>

definition padded_hex :: "nat \<Rightarrow> conv" where
  "padded_hex width = plain_conv\<lparr>cv_zero := True, cv_width := width\<rparr>"

definition register_pieces :: "string \<times> u64 \<Rightarrow> piece list" where
  "register_pieces = (\<lambda>(name, v). [Plain (lit name), Integer (padded_hex 16) Mod_ll (chr CHR ''X'') v])"

definition handler_pieces :: "nat \<Rightarrow> addr \<Rightarrow> int \<Rightarrow> u64 \<Rightarrow> u64 \<Rightarrow> registers \<Rightarrow> piece list" where
  "handler_pieces vec p errcode rip cr2 r =
     [Plain (lit ''Panic: INT ''), Integer (padded_hex 2) No_mod (chr CHR ''x'') (of_nat vec), Plain (lit ''h: ''),
      CString plain_conv p (lit (interrupt_Descriptions ! vec)), Plain (lit '', err=''),
      Integer plain_conv No_mod (chr CHR ''d'') (of_int errcode), Plain (lit ''(0x''),
      Integer (padded_hex 2) No_mod (chr CHR ''x'') (of_int errcode), Plain (lit ''), RIP=''),
      Integer plain_conv Mod_ll (chr CHR ''x'') rip, Plain (lit '', CR2=''), Integer plain_conv Mod_ll (chr CHR ''x'') cr2,
      Plain [0x0A]] @
     (let fs = register_fields r in
      concat (map register_pieces (take 4 fs)) @ [Plain [0x0A]] @ concat (map register_pieces (take 4 (drop 4 fs))) @ [Plain [0x0A]] @
      concat (map register_pieces (take 4 (drop 8 fs))) @ [Plain [0x0A]] @ concat (map register_pieces (drop 12 fs)))"

lemma conv_chars_report:
  "conv_chars plain_conv = []" "conv_chars (padded_hex 2) = lit ''02''" "conv_chars (padded_hex 16) = lit ''016''"
  by (simp_all add: padded_hex_def conv_chars_def plain_conv_def flag_chars_def nat_text_def digits_of.simps numeral_char_def)

lemma handler_pieces_chars: "fmt_chars (handler_pieces vec p errcode rip cr2 r) = handler_format"
  by (simp add: handler_pieces_def handler_format_def register_pieces_def register_fields_def conv_chars_report)

lemma handler_pieces_args: "fmt_args (handler_pieces vec p errcode rip cr2 r) =
  [of_nat vec, p, of_int errcode, of_int errcode, rip, cr2, r_rax r, r_rbx r, r_rcx r, r_rdx r,
   r_rsi r, r_rdi r, r_rbp r, r_rsp r, r_r8 r, r_r9 r, r_r10 r, r_r11 r, r_r12 r, r_r13 r, r_r14 r, r_r15 r]"
  by (simp add: handler_pieces_def register_pieces_def register_fields_def)

lemma handler_pieces_cells: "fmt_cells (handler_pieces vec p errcode rip cr2 r) = string_at_cells p (lit (interrupt_Descriptions ! vec))"
  by (simp add: handler_pieces_def register_pieces_def register_fields_def)

lemma padded_hex_text:
  assumes "unsigned_value lm v = n"
  shows "piece_text (Integer (padded_hex w) lm (chr CHR ''x'') v) = hex_text False w n"
    and "piece_text (Integer (padded_hex w) lm (chr CHR ''X'') v) = hex_text True w n"
  using assms
  by (simp_all add: padded_hex_def plain_conv_def int_text_def hex_text_def int_digits_def digits_text_def is_signed_def
      int_base_def conv_prec_def padded_def Let_def)

lemma plain_hex_text: "piece_text (Integer plain_conv Mod_ll (chr CHR ''x'') v) = nat_text False 16 (unat v)"
  by (simp add: plain_conv_def int_text_def int_digits_def digits_text_def is_signed_def int_base_def conv_prec_def padded_def Let_def)

lemma sint_of_int32: "- (2 ^ 31) \<le> z \<Longrightarrow> z < 2 ^ 31 \<Longrightarrow> sint (ucast (of_int z :: u64) :: u32) = z"
  by (simp add: signed_ucast_eq uint_word_of_int_eq signed_take_bit_take_bit signed_take_bit_int_eq_self)

lemma plain_dec_text:
  "- (2 ^ 31) \<le> z \<Longrightarrow> z < 2 ^ 31 \<Longrightarrow> piece_text (Integer plain_conv No_mod (chr CHR ''d'') (of_int z)) = dec_text z"
  using sint_of_int32 [of z]
  by (simp add: plain_conv_def int_text_def dec_text_def int_digits_def digits_text_def is_signed_def sign_text_def int_base_def
      conv_prec_def padded_def Let_def)

lemma unsigned_of_int32: "unsigned_value No_mod (of_int z) = nat (z mod 2 ^ 32)"
proof -
  have "int (unat (of_int z :: u64) mod 2 ^ 32) = z mod 2 ^ 32"
    by (simp add: zmod_int uint_word_of_int mod_mod_cancel)
  then show ?thesis by (metis nat_int unsigned_value.simps(3))
qed

lemma unsigned_of_nat32: "n < 2 ^ 32 \<Longrightarrow> unsigned_value No_mod (of_nat n) = n"
  by (simp add: unat_of_nat_u64)

lemma handler_pieces_text:
  assumes "vec < 2 ^ 32" and "- (2 ^ 31) \<le> errcode" and "errcode < 2 ^ 31"
  shows "fmt_text (handler_pieces vec p errcode rip cr2 r) = exception_text vec errcode rip cr2 r"
proof -
  have reg: "fmt_text (concat (map register_pieces fs)) = concat (map register_text fs)" for fs
  proof (induction fs)
    case (Cons f fs)
    have "unsigned_value Mod_ll v = unat v" for v by simp
    from padded_hex_text(2) [OF this] Cons show ?case
      by (simp add: register_pieces_def register_text_def split_beta fmt_text_def del: piece_text.simps(3))
  qed simp
  have app: "fmt_text (xs @ ys) = fmt_text xs @ fmt_text ys" for xs ys by (simp add: fmt_text_def)
  have desc: "piece_text (CString plain_conv p t) = t" for t by (simp add: plain_conv_def padded_def)
  have vec: "piece_text (Integer (padded_hex 2) No_mod (chr CHR ''x'') (of_nat vec)) = hex_text False 2 vec"
    by (rule padded_hex_text(1) [OF unsigned_of_nat32 [OF assms(1)]])
  have err: "piece_text (Integer (padded_hex 2) No_mod (chr CHR ''x'') (of_int errcode)) = hex_text False 2 (nat (errcode mod 2 ^ 32))"
    by (rule padded_hex_text(1) [OF unsigned_of_int32])
  show ?thesis
    unfolding handler_pieces_def exception_text_def register_lines_def Let_def app reg fmt_simps piece_text.simps(1) desc
      vec err plain_hex_text plain_dec_text [OF assms(2, 3)] by simp
qed

subsection \<open>Its characters\<close>

text \<open>Plain characters that start no new line, and how many there are.\<close>

definition plain_text :: "nat \<Rightarrow> u8 list \<Rightarrow> bool" where
  "plain_text n t \<longleftrightarrow> ascii t \<and> 0x0A \<notin> set t \<and> 0x0D \<notin> set t \<and> length t \<le> n"

lemma plain_textD: "plain_text n t \<Longrightarrow> ascii t" "plain_text n t \<Longrightarrow> 0x0A \<notin> set t" "plain_text n t \<Longrightarrow> length t \<le> n"
  by (simp_all add: plain_text_def)

lemma plain_text_append: "plain_text n t \<Longrightarrow> plain_text k u \<Longrightarrow> plain_text (n + k) (t @ u)"
  by (simp add: plain_text_def)

lemma plain_nat_text:
  assumes "2 \<le> b" and "b \<le> 16" and "n < b ^ k" and "0 < k"
  shows "plain_text k (nat_text upper b n)"
proof -
  have c: "c \<noteq> 0 \<and> c < 0x80 \<and> c \<noteq> 0x0A \<and> c \<noteq> 0x0D" if c: "c \<in> set (nat_text upper b n)" for c
  proof -
    obtain d where d: "c = numeral_char upper d" and "d \<in> set (digits_of b n)"
      using c by (auto simp: nat_text_def)
    with digits_of_less [OF assms(1) this(2)] assms(2) have "d \<in> set [0..<16]" by simp
    then show ?thesis unfolding d(1) by (simp add: upt_rec) (elim disjE; simp add: numeral_char_def)
  qed
  then show ?thesis
    using length_digits_of [OF assms(1, 4, 3)] by (auto simp: plain_text_def ascii_def nat_text_def)
qed

lemma plain_hex_text_width:
  assumes "n < 16 ^ k" and "0 < k" and "w \<le> k"
  shows "plain_text k (hex_text upper w n)"
  using plain_nat_text [of 16 n k upper] assms by (auto simp: plain_text_def hex_text_def)

lemma plain_dec:
  assumes "- (2 ^ 31) \<le> z" and "z < 2 ^ 31"
  shows "plain_text 11 (dec_text z)"
proof -
  have "plain_text 10 (nat_text False 10 (nat \<bar>z\<bar>))" using assms by (intro plain_nat_text) auto
  then show ?thesis by (auto simp: dec_text_def plain_text_def)
qed

lemma plain_register:
  assumes "plain_text 8 (lit (fst f))"
  shows "plain_text 24 (register_text f)"
proof -
  have "plain_text (8 + 16) (lit (fst f) @ hex_text True 16 (unat (snd f)))"
    by (intro plain_text_append assms plain_hex_text_width) simp_all
  then show ?thesis by (simp add: register_text_def split_beta)
qed

lemma plain_concat: "(\<And>t. t \<in> set ts \<Longrightarrow> plain_text n t) \<Longrightarrow> plain_text (n * length ts) (concat ts)"
proof (induction ts)
  case (Cons t ts)
  then show ?case using plain_text_append [of n t "n * length ts" "concat ts"] by simp
qed (simp add: plain_text_def)

lemma plain_description: "vec < 32 \<Longrightarrow> plain_text 30 (lit (interrupt_Descriptions ! vec))"
proof -
  have "list_all (\<lambda>t. plain_text 30 (lit t)) interrupt_Descriptions"
    by (simp add: interrupt_Descriptions_def plain_text_def)
  moreover have "length interrupt_Descriptions = 32" by (simp add: interrupt_Descriptions_def)
  ultimately show "vec < 32 \<Longrightarrow> plain_text 30 (lit (interrupt_Descriptions ! vec))" by (auto simp: list_all_length)
qed

lemma exception_text_plain:
  assumes "vec < 32" and "- (2 ^ 31) \<le> errcode" and "errcode < 2 ^ 31"
  shows "ascii (exception_text vec errcode rip cr2 r) \<and> length (exception_text vec errcode rip cr2 r) < 512 \<and>
    count_list (exception_text vec errcode rip cr2 r) 0x0A = 4"
proof -
  have regs: "plain_text (24 * length fs) (concat (map register_text fs))" if "set fs \<subseteq> set (register_fields r)" for fs
  proof -
    have "plain_text 8 (lit (fst f))" if "f \<in> set (register_fields r)" for f
      using that by (auto simp: register_fields_def plain_text_def)
    with that plain_register have "plain_text 24 t" if "t \<in> set (map register_text fs)" for t using that by auto
    from plain_concat [where ts = "map register_text fs", OF this] show ?thesis by simp
  qed
  let ?fs = "register_fields r"
  note sub = subset_trans [OF set_take_subset set_drop_subset]
  have lines: "plain_text 96 (concat (map register_text (take 4 ?fs)))" "plain_text 96 (concat (map register_text (take 4 (drop 4 ?fs))))"
    "plain_text 96 (concat (map register_text (take 4 (drop 8 ?fs))))" "plain_text 96 (concat (map register_text (drop 12 ?fs)))"
    using regs [OF set_take_subset, of 4] regs [OF sub, of 4 4] regs [OF sub, of 4 8] regs [OF set_drop_subset, of 12]
    by (simp_all add: register_fields_def)
  have v: "plain_text 2 (hex_text False 2 vec)" using assms(1) by (intro plain_hex_text_width) simp_all
  have e: "plain_text 8 (hex_text False 2 (nat (errcode mod 2 ^ 32)))"
  proof (rule plain_hex_text_width)
    have "errcode mod 2 ^ 32 < 2 ^ 32" by (rule pos_mod_bound) simp
    then show "nat (errcode mod 2 ^ 32) < 16 ^ 8" by simp
  qed simp_all
  have h: "plain_text 16 (nat_text False 16 (unat w))" for w :: u64 by (rule plain_nat_text) simp_all
  note parts = v e h [of rip] h [of cr2] lines plain_dec [OF assms(2, 3)] plain_description [OF assms(1)]
  show ?thesis
    unfolding exception_text_def register_lines_def
    using parts [THEN plain_textD(1)] parts [THEN plain_textD(2)] parts [THEN plain_textD(3)]
    by (simp add: count_list_0_iff)
qed

text \<open>Numbers always fit the conversion buffer.\<close>

lemma sint_bound64:
  fixes w :: "'a::len word"
  assumes "LENGTH('a) \<le> 64"
  shows "\<bar>sint w\<bar> < 2 ^ 64"
proof -
  have "(2 :: int) ^ (LENGTH('a) - 1) \<le> 2 ^ 63" using assms by (intro power_increasing) simp_all
  then show ?thesis using sint_ge [of w] sint_lt [of w] by simp
qed

lemma value_bounds: "nat \<bar>signed_value lm v\<bar> < 2 ^ 64" "unsigned_value lm v < 2 ^ 64"
proof -
  note s = sint_bound64 [of "ucast v :: u8"] sint_bound64 [of "ucast v :: u16"] sint_bound64 [of "ucast v :: u32"] sint_bound64 [of v]
  then show "nat \<bar>signed_value lm v\<bar> < 2 ^ 64" by (cases lm) (simp_all add: nat_less_iff)
  have "unat v mod n < 2 ^ 64" for n by (rule le_less_trans [OF mod_less_eq_dividend unat_lt_u64])
  then show "unsigned_value lm v < 2 ^ 64" using unat_lt_u64 [of v] by (cases lm) simp_all
qed

lemma hex_piece_ok:
  assumes "c = chr CHR ''x'' \<or> c = chr CHR ''X''" and "w \<le> 16"
  shows "piece_ok m (Integer (padded_hex w) lm c v)"
proof -
  have "length (digits_of 16 (unsigned_value lm v)) \<le> 16" using value_bounds(2) [of lm v] by (intro length_digits_of) simp_all
  with assms show ?thesis
    by (auto simp: padded_hex_def plain_conv_def int_fits_def int_digits_def digits_text_def nat_text_def is_signed_def
        int_base_def conv_prec_def)
qed

lemma plain_piece_ok:
  assumes "c = chr CHR ''x'' \<or> c = chr CHR ''d''"
  shows "piece_ok m (Integer plain_conv lm c v)"
proof -
  let ?n = "if is_signed c then nat \<bar>signed_value lm v\<bar> else unsigned_value lm v"
  have "length (digits_of (unat (int_base c)) ?n) \<le> 31"
    using assms value_bounds [of lm v] by (intro digits_of_31) (auto simp: int_base_def)
  with assms show ?thesis
    by (auto simp: plain_conv_def int_fits_def int_digits_def digits_text_def nat_text_def conv_prec_def)
qed

lemma plain_string_ok: "cstring_at m p t \<Longrightarrow> length t < 2 ^ 32 \<Longrightarrow> piece_ok m (CString plain_conv p t)"
  by (simp add: plain_conv_def conv_prec_def)

text \<open>The cells of a string lie in its block.\<close>

lemma string_cells_block:
  assumes "a \<in> string_at_cells p t" and "length t < n" and "n < 2 ^ 64"
  shows "in_block a p (of_nat n)"
proof -
  obtain i where i: "i \<le> length t" "a = p + of_nat i" using assms(1) by (auto simp: string_at_cells_def)
  with assms(2, 3) have "i < unat (of_nat n :: u64)" by (simp add: unat_of_nat_u64)
  then show ?thesis unfolding i(2) by (rule in_block_offset)
qed

lemma interrupt_Handler_text:
  fixes s :: stdio_state
  assumes "vec < 32" and "- (2 ^ 31) \<le> errcode" and "errcode < 2 ^ 31"
    and "le_load (g_mem (io_graphics s)) (descriptions + of_nat (8 * vec)) 8 = p"
    and "cstring_at (g_mem (io_graphics s)) p (lit (interrupt_Descriptions ! vec))"
    and "disjoint_blocks p 31 buffer 4096" and "console_ready buffer s" and "lines_fit 4 (io_graphics s)"
    and "io_serial s = (port, io)" and "sp_ok port" and "line_ready port io"
  shows "\<exists>io'. interrupt_Handler ft buffer e new descriptions (int vec) errcode rip cr2 r s =
      Some (Halted (s\<lparr>io_serial := (port, io'), io_graphics := reported e buffer (handler_pieces vec p errcode rip cr2 r) s\<rparr>)) \<and>
    io_out io' = io_out io @ map (Pair (serial_reg port 0)) (exception_text vec errcode rip cr2 r)"
proof -
  let ?ps = "handler_pieces vec p errcode rip cr2 r" and ?m = "g_mem (io_graphics s)"
  have content: "fmt_text ?ps = exception_text vec errcode rip cr2 r" using assms(1-3) by (intro handler_pieces_text) simp_all
  note plain = exception_text_plain [OF assms(1-3), of rip cr2 r, folded content]
  have len: "length (lit (interrupt_Descriptions ! vec)) \<le> 30" using plain_description [OF assms(1)] by (rule plain_textD(3))
  have ok: "piece_ok ?m q" if "q \<in> set ?ps" for q
  proof -
    have "piece_ok ?m (CString plain_conv p (lit (interrupt_Descriptions ! vec)))"
      using len by (intro plain_string_ok assms(5)) simp
    with that show ?thesis
      by (auto simp: handler_pieces_def register_pieces_def register_fields_def hex_piece_ok plain_piece_ok simp del: piece_ok.simps(3, 5))
  qed
  have cells: "\<not> in_block a buffer 4096" if "a \<in> fmt_cells ?ps" for a
    using string_cells_block [of a p _ 31] that len assms(6) unfolding handler_pieces_cells disjoint_blocks_def by force
  have "ascii (fmt_text ?ps)" "length (fmt_text ?ps) < 512" "lines_fit (count_list (fmt_text ?ps) 0x0A) (io_graphics s)"
    using plain assms(8) by simp_all
  from io_Errorf_ascii [OF ok cells this(1, 2) assms(7) this(3) assms(9-11), of ft e new] show ?thesis
    using assms(4) content unfolding handler_pieces_chars handler_pieces_args
    by (auto simp: interrupt_Handler_def)
qed

section \<open>The report of a panic\<close>

definition panic_pieces :: "addr \<Rightarrow> u8 list \<Rightarrow> piece list" where
  "panic_pieces p t = [Plain (lit ''Panic: ''), CString plain_conv p t, Plain [0x0A]]"

lemma panic_pieces_format:
  "fmt_chars (panic_pieces p t) = lit ''Panic: %s'' @ [0x0A]" "fmt_args (panic_pieces p t) = [p]"
  "fmt_text (panic_pieces p t) = lit ''Panic: '' @ t @ [0x0A]" "fmt_cells (panic_pieces p t) = string_at_cells p t"
  by (simp_all add: panic_pieces_def conv_chars_report) (simp add: plain_conv_def padded_def)

lemma io_Errorf_panic:
  fixes s :: stdio_state
  assumes "cstring_at (g_mem (io_graphics s)) p t" and "disjoint_blocks p 512 buffer 4096"
    and "ascii t" and "length t < 504" and "console_ready buffer s" and "lines_fit (Suc (count_list t 0x0A)) (io_graphics s)"
    and "io_serial s = (port, io)" and "sp_ok port" and "line_ready port io"
  shows "\<exists>io'. io_Errorf ft buffer e new (lit ''Panic: %s'' @ [0x0A]) [p] s = Some (int (length t) + 8,
      s\<lparr>io_serial := (port, io'), io_graphics := reported e buffer (panic_pieces p t) s\<rparr>) \<and>
    io_out io' = io_out io @ map (Pair (serial_reg port 0)) (lit ''Panic: '' @ t @ [0x0A])"
proof -
  let ?ps = "panic_pieces p t" and ?m = "g_mem (io_graphics s)"
  have ok: "piece_ok ?m q" if "q \<in> set ?ps" for q
    using that plain_string_ok [OF assms(1)] assms(4) by (auto simp: panic_pieces_def simp del: piece_ok.simps(5))
  have cells: "\<not> in_block a buffer 4096" if "a \<in> fmt_cells ?ps" for a
    using string_cells_block [of a p t 512] that assms(2, 4) unfolding panic_pieces_format disjoint_blocks_def by force
  have "ascii (fmt_text ?ps)" "length (fmt_text ?ps) < 512" "lines_fit (count_list (fmt_text ?ps) 0x0A) (io_graphics s)"
    using assms(3, 4, 6) by (simp_all add: panic_pieces_format)
  from io_Errorf_ascii [OF ok cells this(1, 2) assms(5) this(3) assms(7-9), of ft e new] show ?thesis
    unfolding panic_pieces_format by (simp add: add.commute)
qed

lemma Panicf_text:
  fixes s :: stdio_state
  assumes "\<And>q. q \<in> set ps \<Longrightarrow> piece_ok (g_mem (io_graphics s)) q" and "\<And>a. a \<in> fmt_cells ps \<Longrightarrow> \<not> in_block a general buffer_size"
    and "general \<noteq> 0" and "disjoint_blocks general buffer_size buffer 4096"
    and "ascii (fmt_text ps)" and "length (fmt_text ps) < 504"
    and "console_ready buffer s" and "lines_fit (Suc (count_list (fmt_text ps) 0x0A)) (io_graphics s)"
    and "io_serial s = (port, io)" and "sp_ok port" and "line_ready port io"
  shows "\<exists>s'. Panicf ft buffer general e new (fmt_chars ps) (fmt_args ps) s = Some (Halted s') \<and>
    io_out (snd (io_serial s')) = io_out io @ map (Pair (serial_reg port 0)) (lit ''Panic: '' @ fmt_text ps @ [0x0A])"
proof -
  let ?t = "fmt_text ps" and ?m = "g_mem (io_graphics s)"
  define m where "m = store_bytes ?m general (?t @ [0])"
  have "length ?t < 2 ^ 31" "0 < buffer_size" "take (unat buffer_size - 1) ?t = ?t"
    using assms(6) by (simp_all add: HELOS_BUFFER_SIZE_def)
  with vsnprintf_pieces [where ft = ft, OF assms(1-3)]
  have v: "vsnprintf ft general buffer_size (fmt_chars ps) (fmt_args ps) ?m = Some (int (length ?t), m)"
    by (simp add: m_def)
  let ?s = "s\<lparr>io_graphics := (io_graphics s)\<lparr>g_mem := m\<rparr>\<rparr>"
  have c: "cstring_at (g_mem (io_graphics ?s)) general ?t"
    using cstring_at_stored [of ?t ?m general] assms(5, 6) by (auto simp: m_def ascii_def)
  have d: "disjoint_blocks general 512 buffer 4096"
    by (rule disjoint_blocks_mono [OF assms(4)]) (simp_all add: HELOS_BUFFER_SIZE_def)
  have r: "console_ready buffer ?s" "lines_fit (Suc (count_list ?t 0x0A)) (io_graphics ?s)" "io_serial ?s = (port, io)"
    using assms(7-9) by (simp_all add: console_ready_def lines_fit_def back_ok_def buffer_bytes_def)
  from io_Errorf_panic [OF c d assms(5, 6) r assms(10, 11), of ft e new] show ?thesis
    by (auto simp: Panicf_def v)
qed

text \<open>A failed assertion: the file is a part of the format, its line and the other texts are arguments.\<close>

definition assertion_text :: "u8 list \<Rightarrow> int \<Rightarrow> u8 list \<Rightarrow> u8 list \<Rightarrow> u8 list" where
  "assertion_text file line func expr =
     lit ''Assertion failed: ('' @ file @ lit '':'' @ dec_text line @ lit ''['' @ func @ lit '']), Expression: '' @ expr"

definition assertion_pieces :: "u8 list \<Rightarrow> int \<Rightarrow> addr \<Rightarrow> u8 list \<Rightarrow> addr \<Rightarrow> u8 list \<Rightarrow> piece list" where
  "assertion_pieces file line fp func ep expr =
     [Plain (lit ''Assertion failed: ('' @ file @ lit '':''), Integer plain_conv No_mod (chr CHR ''d'') (of_int line),
      Plain (lit ''[''), CString plain_conv fp func, Plain (lit '']), Expression: ''), CString plain_conv ep expr]"

lemma assertion_pieces_format:
  "fmt_chars (assertion_pieces file line fp func ep expr) = lit ''Assertion failed: ('' @ file @ lit '':%d[%s]), Expression: %s''"
  "fmt_args (assertion_pieces file line fp func ep expr) = [of_int line, fp, ep]"
  "fmt_cells (assertion_pieces file line fp func ep expr) = string_at_cells fp func \<union> string_at_cells ep expr"
  by (simp_all add: assertion_pieces_def conv_chars_report)

lemma assertion_pieces_text:
  "- (2 ^ 31) \<le> line \<Longrightarrow> line < 2 ^ 31 \<Longrightarrow> fmt_text (assertion_pieces file line fp func ep expr) = assertion_text file line func expr"
  unfolding assertion_pieces_def assertion_text_def fmt_simps plain_dec_text piece_text.simps(1)
  by (simp add: plain_conv_def padded_def)

lemma assertion_text_plain:
  assumes "plain_text 128 file" and "- (2 ^ 31) \<le> line" and "line < 2 ^ 31" and "plain_text 128 func" and "plain_text 128 expr"
  shows "plain_text 503 (assertion_text file line func expr)"
  using assms plain_dec [OF assms(2, 3)] by (simp add: plain_text_def assertion_text_def)

section \<open>Properties\<close>

text \<open>
  C33: When the processor raises one of its 32 exceptions, the handler halts it, and before that it has sent
  the whole report over the serial line: the number and the description of the exception, the error
  code, the position in the code, the address accessed and all sixteen registers.
\<close>

theorem interrupt_Handler_reports:
  fixes s :: stdio_state
  assumes "vec < 32" and "- (2 ^ 31) \<le> errcode" and "errcode < 2 ^ 31"
    and "le_load (g_mem (io_graphics s)) (descriptions + of_nat (8 * vec)) 8 = p"
    and "cstring_at (g_mem (io_graphics s)) p (lit (interrupt_Descriptions ! vec))"
    and "disjoint_blocks p 31 buffer 4096" and "console_ready buffer s" and "lines_fit 4 (io_graphics s)"
    and "io_serial s = (port, io)" and "sp_ok port" and "line_ready port io"
  shows "\<exists>s'. interrupt_Handler ft buffer e new descriptions (int vec) errcode rip cr2 r s = Some (Halted s') \<and>
    io_out (snd (io_serial s')) = io_out io @ map (Pair (serial_reg port 0)) (exception_text vec errcode rip cr2 r)"
  using interrupt_Handler_text [OF assms, of ft e new rip cr2 r] by force

text \<open>A screen of 128 lines of pixels, and the description of the page fault in memory.\<close>

definition demo_crash_mem :: mem where
  "demo_crash_mem = store_bytes (store_bytes (\<lambda>_. 0) 0x40000 (lit ''Page-Fault Exception'' @ [0])) 0x50070 (le_bytes 8 0x40000)"

definition demo_crash :: stdio_state where
  "demo_crash = demo_stdio\<lparr>io_graphics := demo_console\<lparr>g_mem := demo_crash_mem, g_CursorX := 0, g_CursorY := 0,
     g_Mode := \<lparr>gm_Width = 32, gm_Height = 128, gm_PixelsPerLine = 32, gm_PixelFormat = BGRA_8bit\<rparr>\<rparr>,
     io_serial := (pic_serial_COM1\<lparr>sp_ok := True\<rparr>, demo_line 3)\<rparr>"

definition demo_env :: console_env where
  "demo_env = \<lparr>e_font = (\<lambda>_. 0), e_mouseX = 0, e_mouseY = 0\<rparr>"

lemma demo_crash_line: "io_serial demo_crash = (pic_serial_COM1\<lparr>sp_ok := True\<rparr>, demo_line 3)"
  "line_ready (pic_serial_COM1\<lparr>sp_ok := True\<rparr>) (demo_line 3)"
proof -
  have "\<exists>n\<ge>k. n mod 3 = 2" for k :: nat by (rule exI [of _ "3 * k + 2"]) presburger
  then show "line_ready (pic_serial_COM1\<lparr>sp_ok := True\<rparr>) (demo_line 3)" by (force simp: line_ready_def demo_line_def)
qed (simp add: demo_crash_def)

lemma demo_crash_ready: "console_ready 0x20000 demo_crash" "lines_fit 4 (io_graphics demo_crash)"
  by (simp_all add: demo_crash_def demo_stdio_def demo_console_def console_ready_def lines_fit_def back_ok_def
      buffer_bytes_def WriteConsole_bufSize_init_def disjoint_blocksI disjoint_blocks_sym [OF disjoint_blocksI])

definition demo_registers :: registers where
  "demo_registers = \<lparr>r_rax = 1, r_rbx = 2, r_rcx = 3, r_rdx = 4, r_rsi = 5, r_rdi = 6, r_rbp = 7, r_rsp = 8,
     r_r8 = 9, r_r9 = 10, r_r10 = 11, r_r11 = 12, r_r12 = 13, r_r13 = 14, r_r14 = 15, r_r15 = 0xDEADBEEF\<rparr>"

lemma demo_crash_cells: "le_load (g_mem (io_graphics demo_crash)) (0x50000 + of_nat (8 * 14)) 8 = 0x40000"
  "cstring_at (g_mem (io_graphics demo_crash)) 0x40000 (lit (interrupt_Descriptions ! 14))"
proof -
  have "bytes_at demo_crash_mem 0x50070 8 = le_bytes 8 0x40000"
    using bytes_at_store_bytes [of "le_bytes 8 0x40000" _ "0x50070"] by (simp add: demo_crash_mem_def)
  then show "le_load (g_mem (io_graphics demo_crash)) (0x50000 + of_nat (8 * 14)) 8 = 0x40000"
    by (simp add: le_load_value demo_crash_def)
  let ?t = "lit ''Page-Fault Exception''"
  have "cstring_at (store_bytes (\<lambda>_. 0) 0x40000 (?t @ [0])) 0x40000 ?t" by (rule cstring_at_stored) simp_all
  moreover have "demo_crash_mem a = store_bytes (\<lambda>_. 0) 0x40000 (?t @ [0]) a" if "a \<in> string_at_cells 0x40000 ?t" for a
  proof -
    have "in_block a 0x40000 21" using string_cells_block [OF that, of 21] by simp
    moreover have "disjoint_blocks 0x40000 21 0x50070 8" by (simp add: disjoint_blocksI)
    ultimately show ?thesis unfolding demo_crash_mem_def by (intro store_bytes_outside) (auto simp: disjoint_blocks_def)
  qed
  ultimately show "cstring_at (g_mem (io_graphics demo_crash)) 0x40000 (lit (interrupt_Descriptions ! 14))"
    using cstring_at_agree [of "0x40000" ?t demo_crash_mem "store_bytes (\<lambda>_. 0) 0x40000 (?t @ [0])"]
    by (simp add: demo_crash_def interrupt_Descriptions_def)
qed

theorem interrupt_Handler_reports_witness:
  "\<exists>s'. interrupt_Handler (\<lambda>_ _ _ _ _. []) 0x20000 demo_env 0 0x50000 14 2 0x1234 0xFF demo_registers demo_crash = Some (Halted s') \<and>
    io_out (snd (io_serial s')) = map (Pair 0x3f8) (exception_text 14 2 0x1234 0xFF demo_registers)"
proof -
  have "disjoint_blocks 0x40000 31 0x20000 4096" by (simp add: disjoint_blocks_sym [OF disjoint_blocksI])
  from interrupt_Handler_reports [OF _ _ _ demo_crash_cells this demo_crash_ready demo_crash_line(1) _ demo_crash_line(2),
      of 2 "\<lambda>_ _ _ _ _. []" demo_env 0 "0x1234" "0xFF" demo_registers]
  show ?thesis by (simp add: pic_serial_COM1_def serial_reg_def demo_line_def)
qed

text \<open>
  C28: A failed assertion halts the processor, and the place, the function and the expression that failed
  have been sent over the serial line.
\<close>

theorem failed_assertion_reports:
  fixes s :: stdio_state
  assumes "plain_text 128 file" and "chr CHR ''%'' \<notin> set file" and "- (2 ^ 31) \<le> line" and "line < 2 ^ 31"
    and "cstring_at (g_mem (io_graphics s)) fp func" and "plain_text 128 func" and "disjoint_blocks fp 129 general buffer_size"
    and "cstring_at (g_mem (io_graphics s)) ep expr" and "plain_text 128 expr" and "disjoint_blocks ep 129 general buffer_size"
    and "general \<noteq> 0" and "disjoint_blocks general buffer_size buffer 4096"
    and "console_ready buffer s" and "lines_fit 1 (io_graphics s)"
    and "io_serial s = (port, io)" and "sp_ok port" and "line_ready port io"
  shows "\<exists>s'. assert_or_panic ft buffer general e new file line fp ep False s = Some (Halted s') \<and>
    io_out (snd (io_serial s')) = io_out io @ map (Pair (serial_reg port 0)) (lit ''Panic: '' @ assertion_text file line func expr @ [0x0A])"
proof -
  let ?ps = "assertion_pieces file line fp func ep expr" and ?m = "g_mem (io_graphics s)"
  note plain = assertion_text_plain [OF assms(1, 3, 4, 6, 9), folded assertion_pieces_text [OF assms(3, 4), of "file" fp func ep expr]]
  have len: "length func < 129" "length expr < 129" using assms(6, 9) by (auto simp: plain_text_def)
  have ok: "piece_ok ?m q" if "q \<in> set ?ps" for q
    using that plain_string_ok [OF assms(5)] plain_string_ok [OF assms(8)] len assms(1, 2)
    by (auto simp: assertion_pieces_def plain_piece_ok plain_text_def ascii_def simp del: piece_ok.simps(3, 5))
  have cells: "\<not> in_block a general buffer_size" if "a \<in> fmt_cells ?ps" for a
    using that string_cells_block [of a fp func 129] string_cells_block [of a ep expr 129] len assms(7, 10)
    unfolding assertion_pieces_format disjoint_blocks_def by force
  have "ascii (fmt_text ?ps)" "length (fmt_text ?ps) < 504" "lines_fit (Suc (count_list (fmt_text ?ps) 0x0A)) (io_graphics s)"
    using plain assms(14) by (auto simp: plain_text_def count_list_0_iff)
  from Panicf_text [OF ok cells assms(11, 12) this(1, 2) assms(13) this(3) assms(15-17), of ft e new] show ?thesis
    unfolding assertion_pieces_format assertion_pieces_text [OF assms(3, 4)] by (simp add: assert_or_panic_def)
qed

text \<open>A failed \<^verbatim>\<open>assert(ok)\<close> in line 7 of a function \<^verbatim>\<open>main\<close>.\<close>

definition demo_assert :: stdio_state where
  "demo_assert = demo_crash\<lparr>io_graphics := (io_graphics demo_crash)\<lparr>g_mem :=
     store_bytes (store_bytes (\<lambda>_. 0) 0x50000 (lit ''ok'' @ [0])) 0x40000 (lit ''main'' @ [0])\<rparr>\<rparr>"

lemma demo_assert_cells: "cstring_at (g_mem (io_graphics demo_assert)) 0x40000 (lit ''main'')"
  "cstring_at (g_mem (io_graphics demo_assert)) 0x50000 (lit ''ok'')"
proof -
  let ?m = "store_bytes (\<lambda>_. 0) 0x50000 (lit ''ok'' @ [0])"
  have "cstring_at (store_bytes ?m 0x40000 (lit ''main'' @ [0])) 0x40000 (lit ''main'')" by (rule cstring_at_stored) simp_all
  then show "cstring_at (g_mem (io_graphics demo_assert)) 0x40000 (lit ''main'')" by (simp add: demo_assert_def)
  have "cstring_at ?m 0x50000 (lit ''ok'')" by (rule cstring_at_stored) simp_all
  moreover have "store_bytes ?m 0x40000 (lit ''main'' @ [0]) a = ?m a" if "a \<in> string_at_cells 0x50000 (lit ''ok'')" for a
  proof -
    have "in_block a 0x50000 3" using string_cells_block [OF that, of 3] by simp
    moreover have "disjoint_blocks 0x40000 5 0x50000 3" by (simp add: disjoint_blocksI)
    ultimately show ?thesis by (intro store_bytes_outside) (auto simp: disjoint_blocks_def)
  qed
  ultimately show "cstring_at (g_mem (io_graphics demo_assert)) 0x50000 (lit ''ok'')"
    using cstring_at_agree [of "0x50000" "lit ''ok''" "store_bytes ?m 0x40000 (lit ''main'' @ [0])" ?m]
    by (simp add: demo_assert_def)
qed

theorem failed_assertion_reports_witness:
  "\<exists>s'. assert_or_panic (\<lambda>_ _ _ _ _. []) 0x20000 0x60000 demo_env 0 (lit ''main.c'') 7 0x40000 0x50000 False demo_assert = Some (Halted s') \<and>
    io_out (snd (io_serial s')) = map (Pair 0x3f8) (lit ''Panic: Assertion failed: (main.c:7[main]), Expression: ok'' @ [0x0A])"
proof -
  have ready: "console_ready 0x20000 demo_assert" "lines_fit 1 (io_graphics demo_assert)" "0x60000 \<noteq> (0 :: addr)"
    "io_serial demo_assert = (pic_serial_COM1\<lparr>sp_ok := True\<rparr>, demo_line 3)"
    using demo_crash_ready demo_crash_line(1)
    by (simp_all add: demo_assert_def console_ready_def lines_fit_def back_ok_def buffer_bytes_def)
  have blocks: "disjoint_blocks 0x40000 129 0x60000 buffer_size" "disjoint_blocks 0x50000 129 0x60000 buffer_size"
    "disjoint_blocks 0x60000 buffer_size 0x20000 4096"
    by (simp_all add: HELOS_BUFFER_SIZE_def disjoint_blocksI disjoint_blocks_sym [OF disjoint_blocksI])
  have texts: "plain_text 128 (lit ''main.c'')" "chr CHR ''%'' \<notin> set (lit ''main.c'')" "plain_text 128 (lit ''main'')" "plain_text 128 (lit ''ok'')"
    by (simp_all add: plain_text_def)
  have t: "lit ''Panic: '' @ assertion_text (lit ''main.c'') 7 (lit ''main'') (lit ''ok'') @ [0x0A]
      = lit ''Panic: Assertion failed: (main.c:7[main]), Expression: ok'' @ [0x0A]"
    by (simp add: assertion_text_def dec_text_def nat_text_def digits_of.simps numeral_char_def)
  from failed_assertion_reports [OF texts(1, 2) _ _ demo_assert_cells(1) texts(3) blocks(1) demo_assert_cells(2) texts(4) blocks(2)
      ready(3) blocks(3) ready(1, 2, 4) _ demo_crash_line(2), of 7 "\<lambda>_ _ _ _ _. []" demo_env 0, unfolded t]
  show ?thesis by (simp add: pic_serial_COM1_def serial_reg_def demo_line_def)
qed

end
