(* ===== verification/Display.thy ===== *)
theory Display
  imports Console_Text
begin

text \<open>
  From the back buffer to the device: everything the console draws is covered by the rectangles it
  invalidates, so that the next swap makes the device show it.
\<close>

section \<open>Painting pixels\<close>

text \<open>A step that changes nothing but the pixels of a set in the back buffer.\<close>

definition unpainted :: "(int \<times> int) set \<Rightarrow> graphics_state \<Rightarrow> addr \<Rightarrow> bool" where
  "unpainted R s a \<longleftrightarrow> (\<forall>(X, Y) \<in> R. \<not> in_block a (pixel_at (g_Framebuffer s) (gm_PixelsPerLine (g_Mode s)) X Y) 4)"

definition paints :: "(int \<times> int) set \<Rightarrow> graphics_state \<Rightarrow> graphics_state \<Rightarrow> bool" where
  "paints R s s' \<longleftrightarrow> s' = s\<lparr>g_mem := g_mem s'\<rparr> \<and> (\<forall>a. unpainted R s a \<longrightarrow> g_mem s' a = g_mem s a)"

lemma unpainted_mem [simp]: "unpainted R (s\<lparr>g_mem := m\<rparr>) = unpainted R s"
  by (simp add: unpainted_def fun_eq_iff)

lemma cursor_ready_update [simp]:
  "cursor_ready (s\<lparr>g_mem := m\<rparr>) = cursor_ready s" "cursor_ready (s\<lparr>g_CursorX := x\<rparr>) = cursor_ready s"
  "cursor_ready (s\<lparr>g_CursorY := x\<rparr>) = cursor_ready s"
  by (simp_all add: cursor_ready_def cong: option.case_cong)

lemma paints_fields:
  assumes "paints R s s'"
  shows "g_Mode s' = g_Mode s" "g_Framebuffer s' = g_Framebuffer s" "g_DeviceFramebuffer s' = g_DeviceFramebuffer s"
    "g_FramebufferSize s' = g_FramebufferSize s" "g_Cursor s' = g_Cursor s" "g_invalidated s' = g_invalidated s"
    "g_invalidated_screen s' = g_invalidated_screen s" "g_CursorX s' = g_CursorX s" "g_CursorY s' = g_CursorY s"
    "cursor_ready s' = cursor_ready s"
proof -
  have "s' = s\<lparr>g_mem := g_mem s'\<rparr>" using assms by (simp add: paints_def)
  then show "g_Mode s' = g_Mode s" "g_Framebuffer s' = g_Framebuffer s" "g_DeviceFramebuffer s' = g_DeviceFramebuffer s"
    "g_FramebufferSize s' = g_FramebufferSize s" "g_Cursor s' = g_Cursor s" "g_invalidated s' = g_invalidated s"
    "g_invalidated_screen s' = g_invalidated_screen s" "g_CursorX s' = g_CursorX s" "g_CursorY s' = g_CursorY s"
    by (metis graphics_state.ext_inject graphics_state.surjective graphics_state.update_convs(1))+
  show "cursor_ready s' = cursor_ready s" by (subst \<open>s' = s\<lparr>g_mem := g_mem s'\<rparr>\<close>) simp
qed

lemma paints_refl [simp]: "paints R s s"
  by (simp add: paints_def)

lemma paints_trans:
  assumes "paints R s s'" and "paints R s' s''"
  shows "paints R s s''"
proof -
  have e: "s' = s\<lparr>g_mem := g_mem s'\<rparr>" "s'' = s'\<lparr>g_mem := g_mem s''\<rparr>" using assms by (simp_all add: paints_def)
  then have "s'' = s\<lparr>g_mem := g_mem s''\<rparr>" by (metis graphics_state.surjective graphics_state.update_convs(1))
  moreover have "unpainted R s' = unpainted R s" by (subst e(1)) simp
  ultimately show ?thesis using assms by (simp add: paints_def)
qed

lemma paints_mono: "paints R s s' \<Longrightarrow> R \<subseteq> R' \<Longrightarrow> paints R' s s'"
  unfolding paints_def unpainted_def by blast

lemma paints_fold:
  "(\<And>x s'. x \<in> set xs \<Longrightarrow> paints R s' (f x s')) \<Longrightarrow> paints R s (fold f xs s)"
  by (rule fold_invariant [where P = "paints R s" and Q = "\<lambda>x. x \<in> set xs"]) (auto intro: paints_trans)

lemma paints_store:
  assumes "(X, Y) \<in> R" and "length bs = 4"
  shows "paints R s (s\<lparr>g_mem := store_bytes (g_mem s) (pixel_at (g_Framebuffer s) (gm_PixelsPerLine (g_Mode s)) X Y) bs\<rparr>)"
  using assms by (auto simp: paints_def unpainted_def intro!: store_bytes_outside)

lemma graphics_SetPixel_paints: "(X, Y) \<in> R \<Longrightarrow> paints R s (graphics_SetPixel X Y color s)"
  using paints_store [of X Y R]
  by (simp add: graphics_SetPixel_def graphics_SetPixel_BGR_def graphics_SetPixel_RGB_def split: graphics_PixelFormat.split)

lemma glyph_line_paints: "box X Y 8 1 \<subseteq> R \<Longrightarrow> paints R s (glyph_line X Y color line s)"
  unfolding glyph_line_def by (rule paints_fold) (auto simp: box_def intro!: graphics_SetPixel_paints)

lemma unifont_DrawChar_paints: "paints (box X Y (char_width c) 16) s (unifont_DrawChar font X Y color c s)"
proof -
  have line: "paints (box X Y (char_width c) 16) s' (glyph_line X' (Y + int y) color b s')"
    if "y \<in> set [0..<16]" "X \<le> X'" "X' + 8 \<le> X + char_width c" for s' y X' b
    by (rule glyph_line_paints) (use that in \<open>auto simp: box_def\<close>)
  show ?thesis
  proof (cases "unifont_IsCharDoublewidth c")
    case True
    then have w: "char_width c = 16" by (simp add: char_width_def UNIFONT_CHAR_WIDTH_def)
    show ?thesis unfolding unifont_DrawChar_def Let_def if_P [OF True]
      by (rule paints_fold) (rule paints_trans [OF line line], use w in auto)
  next
    case False
    then have w: "char_width c = 8" by (simp add: char_width_def UNIFONT_CHAR_WIDTH_def)
    show ?thesis unfolding unifont_DrawChar_def Let_def if_not_P [OF False]
      by (rule paints_fold) (rule line, use w in auto)
  qed
qed

lemma fill_paints:
  assumes "length bs = 4"
  shows "paints (box x0 y0 (x1 - x0) (y1 - y0)) s (s\<lparr>g_mem := fold (\<lambda>i. fold (\<lambda>j m. store_bytes m
      (pixel_at (g_Framebuffer s) (gm_PixelsPerLine (g_Mode s)) i j) bs) [y0 .. y1 - 1]) [x0 .. x1 - 1] (g_mem s)\<rparr>)"
proof -
  let ?R = "box x0 y0 (x1 - x0) (y1 - y0)"
  define out where "out m \<longleftrightarrow> (\<forall>a. unpainted ?R s a \<longrightarrow> m a = g_mem s a)" for m
  let ?put = "\<lambda>i j m. store_bytes m (pixel_at (g_Framebuffer s) (gm_PixelsPerLine (g_Mode s)) i j) bs"
  have put: "out (?put i j m)" if "out m" "i \<in> {x0 .. x1 - 1}" "j \<in> {y0 .. y1 - 1}" for i j m
  proof -
    have "(i, j) \<in> ?R" using that by (auto simp: box_def)
    then have "\<not> in_block a (pixel_at (g_Framebuffer s) (gm_PixelsPerLine (g_Mode s)) i j) (of_nat (length bs))" if "unpainted ?R s a" for a
      using that assms by (auto simp: unpainted_def)
    with that(1) show ?thesis unfolding out_def by (metis store_bytes_outside)
  qed
  have row: "out (fold (?put i) [y0 .. y1 - 1] m)" if "out m" "i \<in> {x0 .. x1 - 1}" for i m
    by (rule fold_invariant [where P = out and Q = "\<lambda>j. j \<in> {y0 .. y1 - 1}"]) (use put that in auto)
  have "out (fold (\<lambda>i. fold (?put i) [y0 .. y1 - 1]) [x0 .. x1 - 1] (g_mem s))"
  proof (rule fold_invariant [where P = out and Q = "\<lambda>i. i \<in> {x0 .. x1 - 1}"])
    show "out (g_mem s)" by (simp add: out_def)
  qed (use row in auto)
  then show ?thesis by (simp add: paints_def out_def)
qed

text \<open>Filling a rectangle paints it and invalidates it.\<close>

lemma graphics_FillPixel_paints:
  "\<exists>s'. paints (box x0 y0 (x1 - x0) (y1 - y0)) s s' \<and> graphics_FillPixel x0 y0 x1 y1 color s = graphics_Invalidate x0 y0 (x1 - x0) (y1 - y0) s'"
proof -
  define s' where "s' = s\<lparr>g_mem := fold (\<lambda>i. fold (\<lambda>j m. store_bytes m (pixel_at (g_Framebuffer s) (gm_PixelsPerLine (g_Mode s)) i j)
      [c_B color, c_G color, c_R color, 0]) [y0 .. y1 - 1]) [x0 .. x1 - 1] (g_mem s)\<rparr>"
  have p: "paints (box x0 y0 (x1 - x0) (y1 - y0)) s s'" unfolding s'_def by (rule fill_paints) simp
  have "graphics_FillPixel x0 y0 x1 y1 color s =
      graphics_Invalidate x0 y0 (x1 - x0) (y1 - y0) (if gm_PixelFormat (g_Mode s) = OtherFormat then s else s')"
    by (cases "gm_PixelFormat (g_Mode s)") (simp_all add: graphics_FillPixel_def s'_def Let_def)
  then show ?thesis using p paints_refl by (metis (full_types))
qed

section \<open>The invariant\<close>

text \<open>
  Every pixel on the screen that the device does not show yet will be copied by the next swap, and the cursor,
  if there is one, is fit to be drawn. The lines of the
  buffer have no padding: the copy takes the width of the screen for their length.
\<close>

definition presentable :: "graphics_state \<Rightarrow> bool" where
  "presentable s \<longleftrightarrow> screen_ok s \<and> rects_ok s \<and> cursor_ready s \<and> gm_PixelsPerLine (g_Mode s) = gm_Width (g_Mode s) \<and>
     gm_Width (g_Mode s) < 2 ^ 30 \<and> gm_Height (g_Mode s) < 2 ^ 30 \<and>
     (\<forall>X Y. on_screen s X Y \<longrightarrow> covered s X Y \<or> same_pixel s (g_mem s) X Y)"

lemma painted_same:
  assumes "screen_ok s" and "gm_PixelsPerLine (g_Mode s) = gm_Width (g_Mode s)" and "paints R s s'"
    and "\<And>X Y. (X, Y) \<in> R \<Longrightarrow> on_screen s X Y" and "on_screen s X Y" and "(X, Y) \<notin> R"
  shows "same_pixel s (g_mem s') X Y = same_pixel s (g_mem s) X Y"
proof -
  let ?W = "gm_Width (g_Mode s)"
  have own: "unpainted R s (pixel_at (g_Framebuffer s) ?W X Y + of_nat j)" if "j < 4" for j
    using pixels_apart [OF assms(1, 5) assms(4) _ that] assms(6) unfolding unpainted_def assms(2) by fast
  have dev: "unpainted R s (pixel_at (g_DeviceFramebuffer s) ?W X Y + of_nat j)" if "j < 4" for j
    unfolding unpainted_def
  proof (intro ballI, clarify)
    fix X' Y' assume R: "(X', Y') \<in> R"
      and "in_block (pixel_at (g_DeviceFramebuffer s) ?W X Y + of_nat j) (pixel_at (g_Framebuffer s) (gm_PixelsPerLine (g_Mode s)) X' Y') 4"
    then obtain k where "k < 4" "pixel_at (g_DeviceFramebuffer s) ?W X Y + of_nat j = pixel_at (g_Framebuffer s) ?W X' Y' + of_nat k"
      unfolding assms(2) by (blast dest: in_pixel_offset)
    with screen_pixel_in [OF assms(1, 5) that] screen_pixel_in [OF assms(1) assms(4) [OF R], of k] screen_disjoint [OF assms(1)]
    show False unfolding disjoint_blocks_def by metis
  qed
  have "g_mem s' a = g_mem s a" if "unpainted R s a" for a using assms(3) that by (simp add: paints_def)
  with own dev show ?thesis by (simp add: same_pixel_bytes)
qed

lemma graphics_Invalidate_same [simp]:
  "on_screen (graphics_Invalidate x y w h s) = on_screen s" "same_pixel (graphics_Invalidate x y w h s) = same_pixel s"
  "screen_ok (graphics_Invalidate x y w h s) = screen_ok s"
  by (simp_all add: on_screen_def same_pixel_def screen_ok_def fun_eq_iff)

text \<open>Painting a rectangle on the screen and invalidating it keeps the invariant.\<close>

lemma presentable_paint:
  assumes "presentable s" and "paints (box x y w h) s s'"
    and "0 \<le> x" "0 \<le> w" "x + w \<le> gm_Width (g_Mode s)" "0 \<le> y" "0 \<le> h" "y + h \<le> gm_Height (g_Mode s)"
  shows "presentable (graphics_Invalidate x y w h s')"
proof -
  note f = paints_fields [OF assms(2)]
  note p = assms(1) [unfolded presentable_def]
  have b: "gm_Width (g_Mode s) < 2 ^ 30" "gm_Height (g_Mode s) < 2 ^ 30" using p by simp_all
  have "box_ok (gm_Width (g_Mode s)) x y w h" using assms(3-8) b by (simp add: box_ok_def)
  note r = rect_box [OF this]
  have on: "on_screen s X Y" if "(X, Y) \<in> box x y w h" for X Y using that assms(3-8) by (auto simp: box_def on_screen_def)
  have s': "rects_ok s'" "on_screen s' = on_screen s" "same_pixel s' = same_pixel s" "covered s' = covered s" "screen_ok s' = screen_ok s"
    "cursor_ready s'"
    using p f by (simp_all add: rects_ok_def on_screen_def same_pixel_def covered_def screen_ok_def fun_eq_iff)
  have "rect_ok (gm_Width (g_Mode s')) (rect x y w h)" using r(2) f(1) by simp
  note inv = graphics_Invalidate_covers [OF s'(1) disjI2 [OF this]]
  have "covered (graphics_Invalidate x y w h s') X Y \<or> same_pixel s (g_mem s') X Y" if "on_screen s X Y" for X Y
  proof (cases "(X, Y) \<in> box x y w h")
    case True
    with inv r(1) show ?thesis by blast
  next
    case False
    have "covered s X Y \<or> same_pixel s (g_mem s) X Y" using p that by blast
    with painted_same [OF _ _ assms(2) on that False] p inv s'(4) show ?thesis by auto
  qed
  then show ?thesis using p f(1) s' inv graphics_Invalidate_ready [OF s'(6)] by (simp add: presentable_def)
qed

section \<open>The console keeps it\<close>

lemma presentable_cursor [simp]:
  "presentable (s\<lparr>g_CursorX := x\<rparr>) = presentable s" "presentable (s\<lparr>g_CursorY := y\<rparr>) = presentable s"
  by (simp_all add: presentable_def screen_ok_def rects_ok_def on_screen_def covered_def same_pixel_def)

lemma graphics_Invalidate_cursor [simp]:
  "g_CursorX (graphics_Invalidate x y w h s) = g_CursorX s" "g_CursorY (graphics_Invalidate x y w h s) = g_CursorY s"
  by (simp_all add: graphics_Invalidate_def Let_def split: list.split option.split)

lemma presentable_FillPixel:
  assumes "presentable s" and "0 \<le> x0" "x0 \<le> x1" "x1 \<le> gm_Width (g_Mode s)" "0 \<le> y0" "y0 \<le> y1" "y1 \<le> gm_Height (g_Mode s)"
  shows "presentable (graphics_FillPixel x0 y0 x1 y1 color s)" and "g_Mode (graphics_FillPixel x0 y0 x1 y1 color s) = g_Mode s"
    and "g_CursorX (graphics_FillPixel x0 y0 x1 y1 color s) = g_CursorX s" "g_CursorY (graphics_FillPixel x0 y0 x1 y1 color s) = g_CursorY s"
proof -
  obtain s' where s': "paints (box x0 y0 (x1 - x0) (y1 - y0)) s s'"
    "graphics_FillPixel x0 y0 x1 y1 color s = graphics_Invalidate x0 y0 (x1 - x0) (y1 - y0) s'"
    using graphics_FillPixel_paints by blast
  from presentable_paint [OF assms(1) s'(1)] assms show "presentable (graphics_FillPixel x0 y0 x1 y1 color s)"
    by (simp add: s'(2))
  show "g_Mode (graphics_FillPixel x0 y0 x1 y1 color s) = g_Mode s" "g_CursorX (graphics_FillPixel x0 y0 x1 y1 color s) = g_CursorX s"
    "g_CursorY (graphics_FillPixel x0 y0 x1 y1 color s) = g_CursorY s"
    using paints_fields [OF s'(1)] by (simp_all add: s'(2))
qed

text \<open>Scrolling moves everything, and has the whole screen copied.\<close>

lemma presentable_last_moved:
  assumes "presentable t" and "g_invalidated_screen t" and "0 \<le> k"
  shows "presentable (t\<lparr>g_lastMouseY := g_lastMouseY t - k\<rparr>)"
proof -
  have "cursor_ready t" using assms(1) by (simp add: presentable_def)
  then have "cursor_ready (t\<lparr>g_lastMouseY := g_lastMouseY t - k\<rparr>)"
    using assms(2, 3) by (cases "g_Cursor t") (simp_all add: cursor_ready_def)
  with assms(1) show ?thesis by (simp add: presentable_def screen_ok_def rects_ok_def on_screen_def covered_def same_pixel_def)
qed

lemma presentable_Scroll:
  assumes "presentable s" and "0 \<le> k" "k \<le> gm_Height (g_Mode s)"
  shows "presentable (graphics_Scroll k s)"
proof -
  let ?W = "gm_Width (g_Mode s)" and ?H = "gm_Height (g_Mode s)"
  define m where "m = memcpy (g_mem s) (g_Doublebuffer s) (g_Doublebuffer s + of_int (4 * (gm_PixelsPerLine (g_Mode s) * k)))
    (of_int (4 * (gm_PixelsPerLine (g_Mode s) * (?H - k))))"
  define f where "f = graphics_FillPixel 0 (?H - k) ?W ?H HelosGraphics_Color_Black (s\<lparr>g_mem := m, g_invalidated_screen := True\<rparr>)"
  have W: "0 \<le> ?W" using assms(1) by (simp add: presentable_def screen_ok_def)
  have "cursor_ready (s\<lparr>g_mem := m, g_invalidated_screen := True\<rparr>)"
    using assms(1) unfolding presentable_def by (cases "g_Cursor s") (simp_all add: cursor_ready_def)
  then have "presentable (s\<lparr>g_mem := m, g_invalidated_screen := True\<rparr>)"
    using assms(1) by (simp add: presentable_def screen_ok_def rects_ok_def covered_def)
  from presentable_FillPixel(1) [OF this, of 0 ?W "?H - k" ?H HelosGraphics_Color_Black] assms(2, 3) W
  have f: "presentable f" unfolding f_def by simp
  have scr: "g_invalidated_screen f" "g_lastMouseY f = g_lastMouseY s"
    by (simp_all add: f_def graphics_FillPixel_def Let_def graphics_Invalidate_screen)
  have "graphics_Scroll k s = (graphics_FillPixel 0 (?H - k) ?W ?H HelosGraphics_Color_Black (s\<lparr>g_mem := m\<rparr>))
      \<lparr>g_lastMouseY := g_lastMouseY s - k, g_invalidated_screen := True\<rparr>"
    by (simp add: graphics_Scroll_def m_def Let_def) (simp add: graphics_FillPixel_def graphics_Invalidate_def Let_def split: list.split option.split)
  moreover have "f = (graphics_FillPixel 0 (?H - k) ?W ?H HelosGraphics_Color_Black (s\<lparr>g_mem := m\<rparr>))\<lparr>g_invalidated_screen := True\<rparr>"
    by (simp add: f_def graphics_FillPixel_def graphics_Invalidate_def Let_def split: list.split option.split)
  ultimately have "graphics_Scroll k s = f\<lparr>g_lastMouseY := g_lastMouseY f - k\<rparr>" using scr(2) by simp
  with presentable_last_moved [OF f scr(1) assms(2)] show ?thesis by simp
qed

lemma presentable_ElementSize:
  assumes "presentable s" and "0 \<le> g_CursorY s" "g_CursorY s + 2 * h \<le> 2 * gm_Height (g_Mode s)" "0 \<le> h" "h \<le> gm_Height (g_Mode s)"
  shows "presentable (graphics_ElementSize w h s)"
proof -
  define s1 where "s1 = (if g_CursorX s + w \<ge> gm_Width (g_Mode s)
      then s\<lparr>g_CursorY := g_CursorY s + h, g_CursorX := 0\<rparr> else s)"
  have 1: "presentable s1" "g_Mode s1 = g_Mode s" "0 \<le> g_CursorY s1" "g_CursorY s1 + h \<le> 2 * gm_Height (g_Mode s)"
    using assms by (auto simp: s1_def)
  let ?k = "h + g_CursorY s1 - gm_Height (g_Mode s1)"
  have e: "graphics_ElementSize w h s = (if g_CursorY s1 + h \<ge> gm_Height (g_Mode s1)
      then (let s = graphics_Scroll ?k s1 in s\<lparr>g_CursorY := gm_Height (g_Mode s) - h\<rparr>) else s1)"
    by (simp only: graphics_ElementSize_def s1_def Let_def)
  have "presentable (graphics_Scroll ?k s1)" if "g_CursorY s1 + h \<ge> gm_Height (g_Mode s1)"
    using presentable_Scroll [OF 1(1), of ?k] that 1 by simp
  then show ?thesis using 1 unfolding e by (simp add: Let_def)
qed

lemma presentable_WriteChar:
  assumes "presentable s" and "console_ok s"
  shows "presentable (console_WriteChar e color c s)"
proof (cases "c = 0x0A \<or> c = 0x0D")
  case True
  with assms(1) show ?thesis by (auto simp: console_WriteChar_def graphics_Newline_def)
next
  case False
  let ?w = "char_width c" and ?W = "gm_Width (g_Mode s)" and ?H = "gm_Height (g_Mode s)"
  define s1 where "s1 = graphics_ElementSize ?w UNIFONT_CHAR_HEIGHT s"
  let ?x = "g_CursorX s1" and ?y = "g_CursorY s1"
  define s2 where "s2 = graphics_FillPixel ?x ?y (?x + ?w) (?y + UNIFONT_CHAR_HEIGHT) HelosGraphics_Color_Black s1"
  define s3 where "s3 = unifont_DrawChar (e_font e) (g_CursorX s2) (g_CursorY s2) color c s2"
  have b: "back_ok s" "16 < ?W" "16 \<le> ?H" using assms(2) by (simp_all add: console_ok_def back_ok_def)
  have w: "0 \<le> ?w" "?w < ?W" using char_width_cases [of c] b(2) by auto
  from graphics_ElementSize_fits [OF b(1), of UNIFONT_CHAR_HEIGHT ?w] assms(2) w b(3)
  have fits: "g_Mode s1 = g_Mode s" "0 \<le> ?x" "?x + ?w < ?W" "0 \<le> ?y" "?y + 16 \<le> ?H"
    by (auto simp: console_ok_def UNIFONT_CHAR_HEIGHT_def s1_def only_back_def)
  have 1: "presentable s1"
    using presentable_ElementSize [OF assms(1), of UNIFONT_CHAR_HEIGHT ?w] assms(2) b(3)
    by (simp_all add: s1_def console_ok_def UNIFONT_CHAR_HEIGHT_def)
  have 2: "presentable s2" "g_Mode s2 = g_Mode s" "g_CursorX s2 = ?x" "g_CursorY s2 = ?y"
    using presentable_FillPixel [OF 1, of ?x "?x + ?w" ?y "?y + UNIFONT_CHAR_HEIGHT" HelosGraphics_Color_Black] fits w
    by (simp_all add: s2_def UNIFONT_CHAR_HEIGHT_def)
  have p: "paints (box ?x ?y ?w 16) s2 s3" unfolding s3_def 2(3, 4) by (rule unifont_DrawChar_paints)
  have "presentable (graphics_Invalidate ?x ?y ?w 16 s3)"
    by (rule presentable_paint [OF 2(1) p]) (use fits w 2(2) in simp_all)
  moreover have "console_WriteChar e color c s = (graphics_Invalidate (g_CursorX s3) (g_CursorY s3) ?w UNIFONT_CHAR_HEIGHT s3)
      \<lparr>g_CursorX := g_CursorX s3 + ?w\<rparr>"
    using False by (simp add: console_WriteChar_def s1_def s2_def s3_def Let_def)
  ultimately show ?thesis using paints_fields [OF p] 2 by (simp add: UNIFONT_CHAR_HEIGHT_def)
qed

lemma presentable_draw_chars:
  "presentable s \<Longrightarrow> lines_fit (count_list cs 0x0A) s \<Longrightarrow>
     presentable (draw_chars e color cs s)"
proof (induction cs arbitrary: s)
  case (Cons c cs)
  have "lines_fit (count_list cs 0x0A) (console_WriteChar e color c s)"
    using lines_fit_WriteChar [of "count_list cs 0x0A" c s e color] Cons.prems(2) by (auto split: if_splits)
  with Cons.IH [of "console_WriteChar e color c s"] presentable_WriteChar [OF Cons.prems(1) lines_fit_console [OF Cons.prems(2)], of e color c]
  show ?case by (simp add: draw_chars_def)
qed (simp add: draw_chars_def)

text \<open>The pixels the device shows are those of the back buffer.\<close>

definition shows_all :: "graphics_state \<Rightarrow> bool" where
  "shows_all s \<longleftrightarrow> (\<forall>X Y. on_screen s X Y \<longrightarrow> same_pixel s (g_mem s) X Y)"

lemma SwapBuffer_fields [simp]:
  "g_Mode (graphics_SwapBuffer mx my s) = g_Mode s" "g_Framebuffer (graphics_SwapBuffer mx my s) = g_Framebuffer s"
  "g_DeviceFramebuffer (graphics_SwapBuffer mx my s) = g_DeviceFramebuffer s"
  "g_FramebufferSize (graphics_SwapBuffer mx my s) = g_FramebufferSize s"
  by (simp_all add: graphics_SwapBuffer_def Let_def)

lemma SwapBuffer_shows_all:
  assumes "presentable s" and "mouse_in s mx my"
  shows "shows_all (graphics_SwapBuffer mx my s)"
proof -
  have "same_pixel s (g_mem (graphics_SwapBuffer mx my s)) X Y" if "on_screen s X Y" for X Y
    using assms that by (intro SwapBuffer_presents_covered) (auto simp: presentable_def)
  then show ?thesis by (simp add: shows_all_def on_screen_def same_pixel_def)
qed

text \<open>A swap keeps the invariant.\<close>

lemma SwapBuffer_presentable:
  assumes "presentable s" and "mouse_in s mx my"
  shows "presentable (graphics_SwapBuffer mx my s)"
proof -
  have "rects_ok (graphics_SwapBuffer mx my s)" "cursor_ready (graphics_SwapBuffer mx my s)"
    using UpdateMouse_cursor_ready(2) [OF _ assms(2)] assms(1)
    by (simp_all add: graphics_SwapBuffer_def Let_def rects_ok_def presentable_def)
  with SwapBuffer_shows_all [OF assms] assms(1) show ?thesis by (simp add: presentable_def shows_all_def screen_ok_def)
qed

lemma draw_text_shown:
  assumes "presentable s" and "mouse_in s (e_mouseX e) (e_mouseY e)" and "lines_fit (count_list cs 0x0A) s" and "0x0A \<in> set cs"
  shows "shows_all (draw_text e color cs s)"
proof -
  have "g_Mode (draw_chars e color cs s) = g_Mode s"
    using draw_chars_only_back [OF assms(3), of e color] by (simp add: only_back_def)
  then have "mouse_in (draw_chars e color cs s) (e_mouseX e) (e_mouseY e)" using assms(2) by (simp add: mouse_in_def)
  with presentable_draw_chars [OF assms(1, 3), of e color] assms(4) show ?thesis
    by (simp add: draw_text_def SwapBuffer_shows_all Let_def)
qed

text \<open>Memory apart from both buffers does not matter.\<close>

lemma presentable_store:
  assumes "presentable s" and "disjoint_blocks p n (g_Framebuffer s) (of_int (buffer_bytes s))"
    and "disjoint_blocks p n (g_DeviceFramebuffer s) (g_FramebufferSize s)" and "of_nat (length bs) \<le> n"
  shows "presentable (s\<lparr>g_mem := store_bytes (g_mem s) p bs\<rparr>)"
proof -
  note ok = assms(1) [unfolded presentable_def]
  let ?W = "gm_Width (g_Mode s)"
  have B: "buffer_bytes s = screen_bytes s" using ok by (simp add: buffer_bytes_def)
  have out: "store_bytes (g_mem s) p bs a = g_mem s a" if "\<not> in_block a p n" for a
  proof (rule store_bytes_outside)
    show "\<not> in_block a p (of_nat (length bs))" using that assms(4) by (auto simp: in_block_def)
  qed
  have scr: "screen_ok s" using ok by simp
  have "same_pixel s (store_bytes (g_mem s) p bs) X Y = same_pixel s (g_mem s) X Y" if on: "on_screen s X Y" for X Y
  proof -
    have "\<not> in_block (pixel_at (g_Framebuffer s) ?W X Y + of_nat j) p n" if "j < 4" for j
      using assms(2) screen_pixel_in [OF scr on that] unfolding B disjoint_blocks_def by blast
    moreover have "\<not> in_block (pixel_at (g_DeviceFramebuffer s) ?W X Y + of_nat j) p n" if "j < 4" for j
      using assms(3) in_screen_block [OF scr screen_pixel_in [OF scr on that]] unfolding disjoint_blocks_def by blast
    ultimately show ?thesis by (simp add: same_pixel_bytes out)
  qed
  with ok show ?thesis
    by (simp add: presentable_def screen_ok_def rects_ok_def on_screen_def covered_def same_pixel_def)
qed

section \<open>The property\<close>

text \<open>
  C35: A text written to the console is seen. Let a UTF-8 text of code points between 1 and \<open>0xFFFF\<close> contain a new line and be
  shorter than the output buffer, which lies apart from the text and from both frame buffers; let the screen have room for its
  lines (\<open>lines_fit\<close>), no padding of its rows, and its rectangles and cursor in order (\<open>presentable\<close>). Then \<^verbatim>\<open>io_WriteConsoleUTF8\<close>
  ends; it has drawn the code points of the text one after the other; and the device shows every pixel of the back buffer,
  the cursor included, wherever on the desktop the mouse is. Greater code points do not survive the buffer of 16-bit units.
\<close>

lemma shown_all: "\<forall>c \<in> set cs. 0 < c \<and> c < 0x10000 \<Longrightarrow> shown cs = cs"
proof (induction cs)
  case (Cons c cs)
  then have "take_bit 16 c = c" by (simp add: word_unat_eq_iff unsigned_take_bit_eq take_bit_nat_eq_self word_less_nat_alt)
  with Cons show ?case by auto
qed simp

theorem WriteConsoleUTF8_is_seen:
  assumes "text_ready str cs s" and "g_Framebuffer (io_graphics s) \<noteq> NULL" and "\<forall>c \<in> set cs. 0 < c \<and> c < 0x10000"
    and "lines_fit (count_list cs 0x0A) (io_graphics s)" and "0x0A \<in> set cs"
    and "presentable (io_graphics s)" and "mouse_in (io_graphics s) (e_mouseX e) (e_mouseY e)"
    and "disjoint_blocks (io_buffer s) (of_nat (2 * length cs + 2)) (g_DeviceFramebuffer (io_graphics s)) (g_FramebufferSize (io_graphics s))"
  shows "\<exists>g. io_WriteConsoleUTF8 e new str s = Some (s\<lparr>io_graphics := g\<rparr>) \<and>
    g = draw_text e HelosGraphics_Color_White cs (with_units cs s) \<and> shows_all g"
proof -
  note sh = shown_all [OF assms(3)]
  have "disjoint_blocks (io_buffer s) (of_nat (2 * length cs + 2)) (g_Framebuffer (io_graphics s)) (of_int (buffer_bytes (io_graphics s)))"
    using assms(1) by (simp add: text_ready_def text_room_def)
  from presentable_store [OF assms(6) this assms(8), of "unit_bytes cs @ [0, 0]"]
  have "presentable (with_units cs s)" by (simp add: with_units_def)
  moreover have "mouse_in (with_units cs s) (e_mouseX e) (e_mouseY e)" "lines_fit (count_list cs 0x0A) (with_units cs s)"
    using assms(4, 7) by (simp_all add: with_units_def mouse_in_def lines_fit_def back_ok_def buffer_bytes_def)
  ultimately show ?thesis
    using WriteConsoleUTF8_text [OF assms(1, 2), unfolded sh, OF assms(4)] assms(5) draw_text_shown by blast
qed

text \<open>A screen of 32 by 64 pixels, all black, a cursor of the size of the embedded one, and the text \<^verbatim>\<open>A\<close> with a new line.\<close>

definition demo_display :: stdio_state where
  "demo_display = demo_stdio\<lparr>io_graphics := demo_console\<lparr>g_mem := store_bytes (\<lambda>_. 0) 0x40000 ([0x41, 0x0A] @ [0]),
     g_FramebufferSize := 0x2000, g_CursorX := 0, g_CursorY := 0,
     g_Mode := \<lparr>gm_Width = 32, gm_Height = 64, gm_PixelsPerLine = 32, gm_PixelFormat = BGRA_8bit\<rparr>,
     g_Cursor := Some \<lparr>xc_width = 24, xc_height = 24, xc_xhot = 7, xc_yhot = 4, xc_pixels = 0x50000\<rparr>\<rparr>\<rparr>"

lemma demo_text: "utf8_text [0x41, 0x0A] = [0x41, 0x0A]"
  by (simp add: utf8_bytes_ascii)

lemma demo_display_ready: "text_ready 0x40000 [0x41, 0x0A] demo_display"
proof -
  have "cstring_at (store_bytes (\<lambda>_. 0) 0x40000 ([0x41, 0x0A] @ [0])) 0x40000 [0x41, 0x0A]"
    by (rule cstring_at_stored) simp_all
  then show ?thesis
    unfolding text_ready_def text_room_def demo_text
    by (simp add: demo_display_def demo_stdio_def demo_console_def WriteConsole_bufSize_init_def buffer_bytes_def utf8_constants
        disjoint_blocks_sym [OF disjoint_blocksI])
qed

lemma demo_display_presentable: "presentable (io_graphics demo_display)"
proof -
  let ?g = "io_graphics demo_display"
  have scr: "screen_ok ?g" by (simp add: demo_display_def demo_stdio_def demo_console_def screen_ok_def disjoint_blocksI)
  have zero: "g_mem ?g a = 0" if "in_block a 0x1000 0x2000 \<or> in_block a 0x10000 0x2000" for a
  proof -
    have "disjoint_blocks 0x1000 0x2000 0x40000 3" "disjoint_blocks 0x10000 0x2000 0x40000 3" by (simp_all add: disjoint_blocksI)
    with that have "\<not> in_block a 0x40000 (of_nat (length ([0x41, 0x0A] @ [0] :: u8 list)))" by (auto simp: disjoint_blocks_def)
    from store_bytes_outside [OF this] show ?thesis by (simp add: demo_display_def)
  qed
  have "same_pixel ?g (g_mem ?g) X Y" if on: "on_screen ?g X Y" for X Y
  proof -
    have f: "g_Framebuffer ?g = 0x1000" "g_DeviceFramebuffer ?g = 0x10000" "g_FramebufferSize ?g = 0x2000"
      by (simp_all add: demo_display_def demo_stdio_def demo_console_def)
    note b = in_screen_block [OF scr screen_pixel_in [OF scr on], unfolded f(3)]
    have "g_mem ?g (pixel_at p (gm_Width (g_Mode ?g)) X Y + of_nat j) = 0" if "j < 4" "p = 0x1000 \<or> p = 0x10000" for j p
      using b [OF that(1), of p] that(2) by (intro zero) auto
    then show ?thesis unfolding same_pixel_bytes f by simp
  qed
  moreover have "cursor_ready ?g"
    by (simp add: cursor_ready_def demo_display_def demo_stdio_def demo_console_def disjoint_blocks_sym [OF disjoint_blocksI])
  ultimately show ?thesis using scr by (simp add: presentable_def demo_display_def demo_stdio_def demo_console_def rects_ok_def)
qed

theorem WriteConsoleUTF8_is_seen_witness:
  "\<exists>g. io_WriteConsoleUTF8 \<lparr>e_font = (\<lambda>_. 0xFF), e_mouseX = 20, e_mouseY = 64\<rparr> 0 0x40000 demo_display = Some (demo_display\<lparr>io_graphics := g\<rparr>) \<and>
     shows_all g"
proof -
  let ?cs = "[0x41, 0x0A] :: u32 list" and ?e = "\<lparr>e_font = (\<lambda>_. 0xFF), e_mouseX = 20, e_mouseY = 64\<rparr>"
  have apart: "disjoint_blocks (io_buffer demo_display) (of_nat (2 * length ?cs + 2))
      (g_DeviceFramebuffer (io_graphics demo_display)) (g_FramebufferSize (io_graphics demo_display))"
    by (simp add: demo_display_def demo_stdio_def demo_console_def disjoint_blocks_sym [OF disjoint_blocksI])
  have scr: "g_Framebuffer (io_graphics demo_display) \<noteq> NULL" "mouse_in (io_graphics demo_display) (e_mouseX ?e) (e_mouseY ?e)"
    "lines_fit (count_list ?cs 0x0A) (io_graphics demo_display)"
    by (simp_all add: demo_display_def demo_stdio_def demo_console_def mouse_in_def lines_fit_def back_ok_def buffer_bytes_def)
  have cs: "\<forall>c \<in> set ?cs. 0 < c \<and> c < 0x10000" "0x0A \<in> set ?cs" by simp_all
  from WriteConsoleUTF8_is_seen [OF demo_display_ready scr(1) cs(1) scr(3) cs(2) demo_display_presentable scr(2) apart]
  show ?thesis by blast
qed

end
