(* ===== verification/Overlay.thy ===== *)
theory Overlay
  imports Reports Display
begin

text \<open>
  The thread of \<^verbatim>\<open>src/kernel/kmain.c\<close> that draws how the ticks of the last second were spent. A turn
  is what it does between two calls of \<^verbatim>\<open>smp_thread_Sleep\<close>; the counters of the scheduler, which go on while
  it draws, are arguments, and so is the address of its local buffer.
\<close>

section \<open>The code\<close>

record ticks =
  tk_Idling :: u64
  tk_Kernel :: u64
  tk_Userspace :: u64

definition Overlay_fill :: HelosGraphics_Color where
  "Overlay_fill = \<lparr>c_B = 20, c_G = 20, c_R = 20, c_A = 0\<rparr>"

definition Overlay_format :: "u8 list" where
  "Overlay_format = lit ''  Idle %4d'' @ [0x0A] @ lit ''Kernel %4d'' @ [0x0A] @ lit ''  User %4d''"

text \<open>\<open>prev\<close> and \<open>now\<close>: the counters at the end of the last turn and at the start of this one.\<close>

definition kThreader_Overlay_turn ::
  "float_text \<Rightarrow> console_env \<Rightarrow> addr \<Rightarrow> ticks \<Rightarrow> ticks \<Rightarrow> graphics_state \<Rightarrow> graphics_state option" where
  "kThreader_Overlay_turn ft e buf prev now s = do {
     let deltaIdle = tk_Idling now - tk_Idling prev;
     let deltaKernel = tk_Kernel now - tk_Kernel prev;
     let deltaUser = tk_Userspace now - tk_Userspace prev;
     let W = gm_Width (g_Mode s);
     let s = graphics_FillPixel (W - UNIFONT_CHAR_WIDTH * 11) 0 W (UNIFONT_CHAR_HEIGHT * 3) Overlay_fill s;
     (_, m) \<leftarrow> snprintf ft buf 512 Overlay_format [deltaIdle, deltaKernel, deltaUser] (g_mem s);
     let s = s\<lparr>g_mem := m\<rparr>;
     t \<leftarrow> cstr m buf;
     let s = unifont_DrawStringASCII (e_font e) (W - UNIFONT_CHAR_WIDTH * 11) 0 HelosGraphics_Color_White t s;
     let s = graphics_Invalidate (W - UNIFONT_CHAR_WIDTH * 11) 0 (UNIFONT_CHAR_WIDTH * 11) (UNIFONT_CHAR_HEIGHT * 3) s;
     Some (graphics_SwapBuffer (e_mouseX e) (e_mouseY e) s)
   }"

text \<open>The turns, each with the position of the mouse and the counters at its start and at its end.\<close>

fun kThreader_Overlay ::
  "float_text \<Rightarrow> addr \<Rightarrow> ticks \<Rightarrow> (console_env \<times> ticks \<times> ticks) list \<Rightarrow> graphics_state \<Rightarrow> graphics_state option" where
  "kThreader_Overlay ft buf prev [] s = Some s"
| "kThreader_Overlay ft buf prev ((e, now, later) # turns) s = do {
     s \<leftarrow> kThreader_Overlay_turn ft e buf prev now s;
     kThreader_Overlay ft buf later turns s
   }"

section \<open>The text\<close>

definition count_conv :: conv where
  "count_conv = plain_conv\<lparr>cv_width := 4\<rparr>"

definition Overlay_pieces :: "u64 \<Rightarrow> u64 \<Rightarrow> u64 \<Rightarrow> piece list" where
  "Overlay_pieces a b c =
     [Plain (lit ''  Idle ''), Integer count_conv No_mod (chr CHR ''d'') a, Plain [0x0A],
      Plain (lit ''Kernel ''), Integer count_conv No_mod (chr CHR ''d'') b, Plain [0x0A],
      Plain (lit ''  User ''), Integer count_conv No_mod (chr CHR ''d'') c]"

definition count_text :: "u64 \<Rightarrow> u8 list" where
  "count_text v = padded False 4 (nat_text False 10 (unat v))"

definition Overlay_lines :: "u64 \<Rightarrow> u64 \<Rightarrow> u64 \<Rightarrow> u8 list list" where
  "Overlay_lines a b c = [lit ''  Idle '' @ count_text a, lit ''Kernel '' @ count_text b, lit ''  User '' @ count_text c]"

text \<open>The lines of a text with new lines between them.\<close>

fun joined :: "u8 list list \<Rightarrow> u8 list" where
  "joined [] = []"
| "joined [l] = l"
| "joined (l # ls) = l @ [0x0A] @ joined ls"

lemma Overlay_pieces_format:
  "fmt_chars (Overlay_pieces a b c) = Overlay_format" "fmt_args (Overlay_pieces a b c) = [a, b, c]"
  "fmt_cells (Overlay_pieces a b c) = {}"
proof -
  have "conv_chars count_conv = lit ''4''"
    by (simp add: count_conv_def conv_chars_def plain_conv_def flag_chars_def nat_text_def digits_of.simps numeral_char_def)
  then show "fmt_chars (Overlay_pieces a b c) = Overlay_format" "fmt_args (Overlay_pieces a b c) = [a, b, c]"
    "fmt_cells (Overlay_pieces a b c) = {}"
    by (simp_all add: Overlay_pieces_def Overlay_format_def)
qed

lemma count_piece:
  assumes "v < 10000"
  shows "piece_text (Integer count_conv No_mod (chr CHR ''d'') v) = count_text v"
    and "piece_ok m (Integer count_conv No_mod (chr CHR ''d'') v)"
    and "plain_text 4 (count_text v)" and "length (count_text v) = 4"
proof -
  have u: "unat v < 10000" using assms by (simp add: word_less_nat_alt)
  have "- (2 ^ 31) \<le> uint v" by (rule order.trans [OF _ uint_ge_0]) simp
  then have s: "sint (ucast v :: u32) = int (unat v)"
    using sint_of_int32 [of "uint v"] assms by (simp add: word_less_def)
  with u show "piece_text (Integer count_conv No_mod (chr CHR ''d'') v) = count_text v"
    by (simp add: count_conv_def plain_conv_def int_text_def int_digits_def digits_text_def is_signed_def sign_text_def int_base_def
        conv_prec_def count_text_def Let_def)
  have l: "length (digits_of 10 (unat v)) \<le> 4" using u by (intro length_digits_of) simp_all
  with s show "piece_ok m (Integer count_conv No_mod (chr CHR ''d'') v)"
    by (simp add: count_conv_def plain_conv_def int_fits_def int_digits_def digits_text_def nat_text_def conv_prec_def
        is_signed_def int_base_def)
  have "plain_text 4 (nat_text False 10 (unat v))" using u by (intro plain_nat_text) simp_all
  then show "plain_text 4 (count_text v)" by (auto simp: count_text_def padded_def plain_text_def)
  show "length (count_text v) = 4" using l by (simp add: count_text_def padded_def nat_text_def)
qed

text \<open>Counts of up to four digits give three lines of 11 characters.\<close>

lemma Overlay_text:
  assumes "a < 10000" and "b < 10000" and "c < 10000"
  shows "fmt_text (Overlay_pieces a b c) = joined (Overlay_lines a b c)"
    and "\<And>q. q \<in> set (Overlay_pieces a b c) \<Longrightarrow> piece_ok m q"
    and "\<And>l. l \<in> set (Overlay_lines a b c) \<Longrightarrow> plain_text 11 l \<and> length l = 11"
    and "length (Overlay_lines a b c) = 3"
proof -
  note n = assms [THEN count_piece(1)] and k = assms [THEN count_piece(2)] and p = assms [THEN count_piece(3)] and l = assms [THEN count_piece(4)]
  show "fmt_text (Overlay_pieces a b c) = joined (Overlay_lines a b c)"
    unfolding Overlay_pieces_def fmt_simps n piece_text.simps(1) by (simp add: Overlay_lines_def)
  show "piece_ok m q" if "q \<in> set (Overlay_pieces a b c)" for q
    using that k by (auto simp: Overlay_pieces_def simp del: piece_ok.simps(3))
  show "plain_text 11 t \<and> length t = 11" if "t \<in> set (Overlay_lines a b c)" for t
    using that p l by (auto simp: Overlay_lines_def plain_text_def)
  show "length (Overlay_lines a b c) = 3" by (simp add: Overlay_lines_def)
qed

section \<open>Drawing it\<close>

lemma plain_char:
  assumes "plain_text n t" and "c \<in> set t"
  shows "(scast c :: u32) = ucast c" and "scast c \<noteq> (0x0A :: u32)" and "scast c \<noteq> (0x0D :: u32)" and "char_width (scast c) = 8"
proof -
  have c: "c < 0x80" "c \<noteq> 0x0A" "c \<noteq> 0x0D" using assms by (auto simp: plain_text_def ascii_def)
  then have "\<not> bit (unat c) 7" by (simp add: bit_iff_odd word_less_nat_alt)
  then have "\<not> bit c 7" by (simp add: bit_unsigned_iff)
  moreover have "\<not> bit c k" if "8 \<le> k" for k using that bit_imp_le_length [of c k] by auto
  ultimately have b: "\<not> bit c k" if "7 \<le> k" for k using that by (cases "k = 7") simp_all
  show e: "(scast c :: u32) = ucast c"
  proof (rule bit_word_eqI)
    fix n assume "n < LENGTH(32)"
    then show "bit (scast c :: u32) n = bit (ucast c :: u32) n" using b [of n] b [of 7] by (cases "n < 7") (simp_all add: bit_simps)
  qed
  have u: "unat (scast c :: u32) = unat c" by (simp add: e)
  show "scast c \<noteq> (0x0A :: u32)" "scast c \<noteq> (0x0D :: u32)" using c u by (auto simp: word_unat_eq_iff)
  have "\<not> 0x1100 \<le> (scast c :: u32)" using c(1) u by (simp add: word_le_nat_alt word_less_nat_alt)
  then show "char_width (scast c) = 8" by (simp add: char_width_def unifont_IsCharDoublewidth_def UNIFONT_CHAR_WIDTH_def)
qed

lemma box_mono: "x \<le> x' \<Longrightarrow> x' + w' \<le> x + w \<Longrightarrow> y \<le> y' \<Longrightarrow> y' + h' \<le> y + h \<Longrightarrow> box x' y' w' h' \<subseteq> box x y w h"
  by (auto simp: box_def)

lemma draw_line:
  assumes "plain_text n l"
  shows "\<exists>s'. fold (DrawString_char font posX color (\<lambda>_. UNIFONT_CHAR_WIDTH)) (map scast l) (x, y, s) = (x + 8 * int (length l), y, s') \<and>
    paints (box x y (8 * int (length l)) 16) s s'"
  using assms
proof (induction l arbitrary: x s n)
  case (Cons c l)
  note c = plain_char [OF Cons.prems, of c]
  let ?s = "unifont_DrawChar font x y color (scast c) s"
  have "plain_text n l" using Cons.prems by (simp add: plain_text_def)
  from Cons.IH [OF this, of "x + 8" ?s] obtain s' where
    s': "fold (DrawString_char font posX color (\<lambda>_. UNIFONT_CHAR_WIDTH)) (map scast l) (x + 8, y, ?s) = (x + 8 + 8 * int (length l), y, s')"
      "paints (box (x + 8) y (8 * int (length l)) 16) ?s s'" by blast
  have "paints (box x y (8 * int (length (c # l))) 16) s ?s"
    by (rule paints_mono [OF unifont_DrawChar_paints box_mono]) (simp_all add: c(4))
  moreover have "paints (box x y (8 * int (length (c # l))) 16) ?s s'"
    by (rule paints_mono [OF s'(2) box_mono]) simp_all
  ultimately have "paints (box x y (8 * int (length (c # l))) 16) s s'" by (rule paints_trans)
  moreover have "DrawString_char font posX color (\<lambda>_. UNIFONT_CHAR_WIDTH) (scast c) (x, y, s) = (x + 8, y, ?s)"
    using c(2, 3) by (simp add: DrawString_char_def UNIFONT_CHAR_WIDTH_def)
  ultimately show ?case using s'(1) by (intro exI [of _ s']) simp
qed simp

lemma draw_lines:
  assumes "\<And>l. l \<in> set ls \<Longrightarrow> plain_text 11 l \<and> length l = 11"
  shows "\<exists>x' y' s'. fold (DrawString_char font posX color (\<lambda>_. UNIFONT_CHAR_WIDTH)) (map scast (joined ls)) (posX, y, s) = (x', y', s') \<and>
    paints (box posX y 88 (16 * int (length ls))) s s'"
  using assms
proof (induction ls arbitrary: y s rule: joined.induct)
  case (2 l)
  then have l: "plain_text 11 l" "length l = 11" by simp_all
  from draw_line [OF l(1), of font posX color posX y s] l(2) show ?case by auto
next
  case (3 l l' ls)
  then have l: "plain_text 11 l" "length l = 11" by simp_all
  obtain s1 where s1: "fold (DrawString_char font posX color (\<lambda>_. UNIFONT_CHAR_WIDTH)) (map scast l) (posX, y, s) = (posX + 88, y, s1)"
    "paints (box posX y 88 16) s s1" using draw_line [OF l(1), of font posX color posX y s] l(2) by auto
  obtain x' y' s' where s': "fold (DrawString_char font posX color (\<lambda>_. UNIFONT_CHAR_WIDTH)) (map scast (joined (l' # ls))) (posX, y + 16, s1) = (x', y', s')"
    "paints (box posX (y + 16) 88 (16 * int (length (l' # ls)))) s1 s'"
    using "3.IH" [of "y + 16" s1] "3.prems" by auto
  let ?R = "box posX y 88 (16 * int (length (l # l' # ls)))"
  have "paints ?R s s1" by (rule paints_mono [OF s1(2) box_mono]) simp_all
  moreover have "paints ?R s1 s'" by (rule paints_mono [OF s'(2) box_mono]) simp_all
  ultimately have "paints ?R s s'" by (rule paints_trans)
  moreover have "DrawString_char font posX color (\<lambda>_. UNIFONT_CHAR_WIDTH) (scast (0x0A :: u8)) (posX + 88, y, s1) = (posX, y + 16, s1)"
    by (simp add: DrawString_char_def UNIFONT_CHAR_HEIGHT_def)
  ultimately show ?case using s1(1) s'(1) by simp
qed simp

lemma DrawStringASCII_lines:
  "(\<And>l. l \<in> set ls \<Longrightarrow> plain_text 11 l \<and> length l = 11) \<Longrightarrow>
     paints (box posX y 88 (16 * int (length ls))) s (unifont_DrawStringASCII font posX y color (joined ls) s)"
  using draw_lines [of ls font posX color y s] by (auto simp: unifont_DrawStringASCII_def)

section \<open>A turn\<close>

text \<open>Counts of at most four digits; the local buffer lies apart from both frame buffers.\<close>

definition few_ticks :: "ticks \<Rightarrow> ticks \<Rightarrow> bool" where
  "few_ticks prev now \<longleftrightarrow> tk_Idling now - tk_Idling prev < 10000 \<and> tk_Kernel now - tk_Kernel prev < 10000 \<and>
     tk_Userspace now - tk_Userspace prev < 10000"

definition overlay_ready :: "addr \<Rightarrow> graphics_state \<Rightarrow> bool" where
  "overlay_ready buf s \<longleftrightarrow> presentable s \<and> 88 \<le> gm_Width (g_Mode s) \<and> 48 \<le> gm_Height (g_Mode s) \<and> buf \<noteq> 0 \<and>
     disjoint_blocks buf 512 (g_Framebuffer s) (of_int (buffer_bytes s)) \<and>
     disjoint_blocks buf 512 (g_DeviceFramebuffer s) (g_FramebufferSize s)"

text \<open>The picture: the text over a filled box in the upper right corner.\<close>

definition overlay_picture :: "console_env \<Rightarrow> addr \<Rightarrow> u8 list \<Rightarrow> graphics_state \<Rightarrow> graphics_state" where
  "overlay_picture e buf t s =
     (let x = gm_Width (g_Mode s) - 88; f = graphics_FillPixel x 0 (x + 88) 48 Overlay_fill s in
      unifont_DrawStringASCII (e_font e) x 0 HelosGraphics_Color_White t (f\<lparr>g_mem := store_bytes (g_mem f) buf (t @ [0])\<rparr>))"

definition overlay_text :: "ticks \<Rightarrow> ticks \<Rightarrow> u8 list" where
  "overlay_text prev now = joined (Overlay_lines (tk_Idling now - tk_Idling prev) (tk_Kernel now - tk_Kernel prev)
     (tk_Userspace now - tk_Userspace prev))"

lemma overlay_text_plain:
  assumes "few_ticks prev now"
  shows "length (overlay_text prev now) = 35" and "0 \<notin> set (overlay_text prev now)"
proof -
  let ?ls = "Overlay_lines (tk_Idling now - tk_Idling prev) (tk_Kernel now - tk_Kernel prev) (tk_Userspace now - tk_Userspace prev)"
  obtain l1 l2 l3 where ls: "?ls = [l1, l2, l3]" by (simp add: Overlay_lines_def)
  have "plain_text 11 l \<and> length l = 11" if "l \<in> set ?ls" for l
    using Overlay_text(3) that assms unfolding few_ticks_def by blast
  then have "plain_text 11 l1 \<and> length l1 = 11" "plain_text 11 l2 \<and> length l2 = 11" "plain_text 11 l3 \<and> length l3 = 11"
    unfolding ls by simp_all
  then show "length (overlay_text prev now) = 35" "0 \<notin> set (overlay_text prev now)"
    unfolding overlay_text_def ls by (auto simp: plain_text_def ascii_def)
qed

lemma FillPixel_frame:
  "g_Framebuffer (graphics_FillPixel x0 y0 x1 y1 color s) = g_Framebuffer s"
  "g_DeviceFramebuffer (graphics_FillPixel x0 y0 x1 y1 color s) = g_DeviceFramebuffer s"
  "g_FramebufferSize (graphics_FillPixel x0 y0 x1 y1 color s) = g_FramebufferSize s"
  by (simp_all add: graphics_FillPixel_def Let_def)

lemma Overlay_turn_picture:
  assumes "overlay_ready buf s" and "few_ticks prev now"
  defines "x \<equiv> gm_Width (g_Mode s) - 88"
  shows "kThreader_Overlay_turn ft e buf prev now s = Some (graphics_SwapBuffer (e_mouseX e) (e_mouseY e)
      (graphics_Invalidate x 0 88 48 (overlay_picture e buf (overlay_text prev now) s)))"
    and "presentable (graphics_Invalidate x 0 88 48 (overlay_picture e buf (overlay_text prev now) s))"
    and "g_Mode (overlay_picture e buf (overlay_text prev now) s) = g_Mode s"
    and "g_Framebuffer (overlay_picture e buf (overlay_text prev now) s) = g_Framebuffer s"
    and "g_DeviceFramebuffer (overlay_picture e buf (overlay_text prev now) s) = g_DeviceFramebuffer s"
    and "g_FramebufferSize (overlay_picture e buf (overlay_text prev now) s) = g_FramebufferSize s"
proof -
  let ?W = "gm_Width (g_Mode s)" and ?H = "gm_Height (g_Mode s)"
  let ?a = "tk_Idling now - tk_Idling prev" and ?b = "tk_Kernel now - tk_Kernel prev" and ?c = "tk_Userspace now - tk_Userspace prev"
  let ?ps = "Overlay_pieces ?a ?b ?c" and ?t = "overlay_text prev now"
  define f where "f = graphics_FillPixel x 0 (x + 88) 48 Overlay_fill s"
  define g where "g = f\<lparr>g_mem := store_bytes (g_mem f) buf (?t @ [0])\<rparr>"
  have r: "presentable s" "88 \<le> ?W" "48 \<le> ?H" "buf \<noteq> 0"
    "disjoint_blocks buf 512 (g_Framebuffer s) (of_int (buffer_bytes s))" "disjoint_blocks buf 512 (g_DeviceFramebuffer s) (g_FramebufferSize s)"
    using assms(1) by (simp_all add: overlay_ready_def)
  have few: "?a < 10000" "?b < 10000" "?c < 10000" using assms(2) by (simp_all add: few_ticks_def)
  note tx = Overlay_text [OF few]
  have t: "fmt_text ?ps = ?t" using tx(1) by (simp add: overlay_text_def)
  have lines: "\<And>l. l \<in> set (Overlay_lines ?a ?b ?c) \<Longrightarrow> plain_text 11 l \<and> length l = 11" by (rule tx(3))
  have len: "length ?t = 35" "0 \<notin> set ?t" by (rule overlay_text_plain [OF assms(2)])+
  have F: "presentable f" "g_Mode f = g_Mode s"
    using presentable_FillPixel [OF r(1), of x "x + 88" 0 48 Overlay_fill] r by (simp_all add: f_def x_def)
  have fr: "g_Framebuffer f = g_Framebuffer s" "g_DeviceFramebuffer f = g_DeviceFramebuffer s" "g_FramebufferSize f = g_FramebufferSize s"
    "buffer_bytes f = buffer_bytes s" by (simp_all add: f_def FillPixel_frame buffer_bytes_def F(2) [unfolded f_def])
  have pg: "presentable g"
    unfolding g_def by (rule presentable_store [OF F(1), of buf 512]) (simp_all add: fr r len word_le_nat_alt)
  have painted: "paints (box x 0 88 48) g (overlay_picture e buf ?t s)"
    using DrawStringASCII_lines [where ls = "Overlay_lines ?a ?b ?c" and posX = x and y = 0 and s = g
        and font = "e_font e" and color = HelosGraphics_Color_White, OF lines] tx(4)
    by (simp add: overlay_picture_def f_def g_def x_def overlay_text_def Let_def)
  show "presentable (graphics_Invalidate x 0 88 48 (overlay_picture e buf ?t s))"
    by (rule presentable_paint [OF pg painted]) (use r(2, 3) F(2) in \<open>simp_all add: g_def x_def\<close>)
  show "g_Mode (overlay_picture e buf ?t s) = g_Mode s"
    "g_Framebuffer (overlay_picture e buf ?t s) = g_Framebuffer s" "g_DeviceFramebuffer (overlay_picture e buf ?t s) = g_DeviceFramebuffer s"
    "g_FramebufferSize (overlay_picture e buf ?t s) = g_FramebufferSize s"
    using paints_fields [OF painted] F fr by (simp_all add: g_def)
  have "snprintf ft buf 512 (fmt_chars ?ps) (fmt_args ?ps) (g_mem f) = Some (35, store_bytes (g_mem f) buf (?t @ [0]))"
    using vsnprintf_pieces [of ?ps "g_mem f" buf 512 ft] tx(2) r(4) t len(1)
    by (simp add: snprintf_def vsnprintf_def Overlay_pieces_format)
  then have sn: "snprintf ft buf 512 Overlay_format [?a, ?b, ?c] (g_mem f) = Some (35, g_mem g)"
    by (simp add: Overlay_pieces_format g_def)
  have "cstring_at (g_mem g) buf ?t" unfolding g_def using len by (simp add: cstring_at_stored)
  then have cs: "cstr (g_mem g) buf = Some ?t" by (rule cstr_cstring) (simp add: len)
  have w: "?W - 88 = x" "UNIFONT_CHAR_HEIGHT * 3 = 48" "UNIFONT_CHAR_WIDTH * 11 = 88" "?W = x + 88"
    by (simp_all add: x_def UNIFONT_CHAR_WIDTH_def UNIFONT_CHAR_HEIGHT_def)
  have gf: "f\<lparr>g_mem := g_mem g\<rparr> = g" by (simp add: g_def)
  show "kThreader_Overlay_turn ft e buf prev now s = Some (graphics_SwapBuffer (e_mouseX e) (e_mouseY e)
      (graphics_Invalidate x 0 88 48 (overlay_picture e buf ?t s)))"
    unfolding kThreader_Overlay_turn_def Let_def w(1-3) unfolding w(4) f_def [symmetric] sn
    by (simp add: cs gf) (simp add: overlay_picture_def f_def g_def x_def Let_def)
qed

lemma Overlay_turn_ready:
  assumes "overlay_ready buf s" and "few_ticks prev now" and "mouse_in s (e_mouseX e) (e_mouseY e)"
  shows "\<exists>s'. kThreader_Overlay_turn ft e buf prev now s = Some s' \<and> overlay_ready buf s' \<and> shows_all s' \<and> g_Mode s' = g_Mode s"
proof -
  let ?p = "graphics_Invalidate (gm_Width (g_Mode s) - 88) 0 88 48 (overlay_picture e buf (overlay_text prev now) s)"
  note p = Overlay_turn_picture [OF assms(1, 2)]
  have m: "mouse_in ?p (e_mouseX e) (e_mouseY e)" using assms(3) by (simp add: mouse_in_def p(3))
  have "overlay_ready buf (graphics_SwapBuffer (e_mouseX e) (e_mouseY e) ?p)"
    using assms(1) by (simp add: overlay_ready_def SwapBuffer_presentable [OF p(2) m] p(3-6) buffer_bytes_def)
  then show ?thesis using p(1) SwapBuffer_shows_all [OF p(2) m] by (simp add: p(3))
qed

section \<open>The property\<close>

text \<open>Each turn counts at most four digits, with the mouse somewhere on the desktop.\<close>

fun turns_few :: "graphics_state \<Rightarrow> ticks \<Rightarrow> (console_env \<times> ticks \<times> ticks) list \<Rightarrow> bool" where
  "turns_few s prev [] \<longleftrightarrow> True"
| "turns_few s prev ((e, now, later) # turns) \<longleftrightarrow>
     few_ticks prev now \<and> mouse_in s (e_mouseX e) (e_mouseY e) \<and> turns_few s later turns"

lemma turns_few_mode: "g_Mode s' = g_Mode s \<Longrightarrow> turns_few s' prev turns = turns_few s prev turns"
  by (induction s prev turns rule: turns_few.induct) (simp_all add: mouse_in_def)

text \<open>
  C27: On a screen of at least 88 by 48 pixels without padding of its rows, whose rectangles and cursor are in order
  (\<open>presentable\<close>), with the local buffer apart from both frame buffers, and as long as each of the three counts of a turn has at
  most four digits, the thread that draws the statistics goes
  through all its turns, wherever on the desktop the mouse is at each, leaves the screen ready for the next one before each, and
  after the last one the device shows the back buffer: the text in its corner, and the cursor over it.
\<close>

theorem Overlay_keeps_drawing:
  assumes "overlay_ready buf s" and "turns_few s prev (turns @ [(e, now, later)])"
  shows "\<exists>s1 s2. kThreader_Overlay ft buf prev (turns @ [(e, now, later)]) s = Some s2 \<and> overlay_ready buf s1 \<and>
    s2 = graphics_SwapBuffer (e_mouseX e) (e_mouseY e) (graphics_Invalidate (gm_Width (g_Mode s1) - 88) 0 88 48
      (overlay_picture e buf (overlay_text (last (prev # map (\<lambda>t. snd (snd t)) turns)) now) s1)) \<and> shows_all s2"
  using assms
proof (induction turns arbitrary: prev s)
  case Nil
  then have few: "few_ticks prev now" "mouse_in s (e_mouseX e) (e_mouseY e)" by simp_all
  from Overlay_turn_picture(1) [OF Nil.prems(1) few(1), of ft e] Overlay_turn_ready [OF Nil.prems(1) few, of ft] Nil.prems(1)
  show ?case by auto
next
  case (Cons t turns)
  obtain e' now' later' where t: "t = (e', now', later')" by (cases t)
  with Cons.prems(2) have few: "few_ticks prev now'" "mouse_in s (e_mouseX e') (e_mouseY e')"
    "turns_few s later' (turns @ [(e, now, later)])" by simp_all
  obtain s' where s': "kThreader_Overlay_turn ft e' buf prev now' s = Some s'" "overlay_ready buf s'" "g_Mode s' = g_Mode s"
    using Overlay_turn_ready [OF Cons.prems(1) few(1, 2)] by blast
  have "turns_few s' later' (turns @ [(e, now, later)])" using few(3) turns_few_mode [OF s'(3)] by simp
  from Cons.IH [OF s'(2) this] show ?case using s'(1) by (simp add: t)
qed

text \<open>A black screen of 96 by 64 pixels with a cursor of 24 by 24 pixels, and two turns of 1024 and 1025 ticks.\<close>

definition demo_overlay :: graphics_state where
  "demo_overlay = demo_console\<lparr>g_FramebufferSize := 0x6000, g_DeviceFramebuffer := 0x10000,
     g_Mode := \<lparr>gm_Width = 96, gm_Height = 64, gm_PixelsPerLine = 96, gm_PixelFormat = BGRA_8bit\<rparr>,
     g_mouseOverlay := 0x30000,
     g_Cursor := Some \<lparr>xc_width = 24, xc_height = 24, xc_xhot = 7, xc_yhot = 4, xc_pixels = 0x50000\<rparr>\<rparr>"

definition demo_ticks :: "u64 \<Rightarrow> ticks" where
  "demo_ticks n = \<lparr>tk_Idling = n, tk_Kernel = 2 * n, tk_Userspace = 0\<rparr>"

lemma demo_overlay_ready: "overlay_ready 0x20000 demo_overlay"
proof -
  have "presentable demo_overlay"
    by (simp add: presentable_def screen_ok_def rects_ok_def cursor_ready_def same_pixel_bytes demo_overlay_def demo_console_def
        disjoint_blocksI disjoint_blocks_sym [OF disjoint_blocksI])
  moreover have "disjoint_blocks 0x20000 512 (g_Framebuffer demo_overlay) (of_int (buffer_bytes demo_overlay))"
    "disjoint_blocks 0x20000 512 (g_DeviceFramebuffer demo_overlay) (g_FramebufferSize demo_overlay)"
    by (simp_all add: demo_overlay_def demo_console_def buffer_bytes_def disjoint_blocks_sym [OF disjoint_blocksI])
  ultimately show ?thesis by (simp add: overlay_ready_def) (simp add: demo_overlay_def demo_console_def)
qed

theorem Overlay_keeps_drawing_witness:
  "\<exists>s. kThreader_Overlay (\<lambda>_ _ _ _ _. []) 0x20000 (demo_ticks 0) [(demo_env, demo_ticks 1024, demo_ticks 1025),
     (demo_env\<lparr>e_mouseX := 96\<rparr>, demo_ticks 2050, demo_ticks 2051)] demo_overlay = Some s \<and> shows_all s"
proof -
  have "turns_few demo_overlay (demo_ticks 0) ([(demo_env, demo_ticks 1024, demo_ticks 1025)] @
      [(demo_env\<lparr>e_mouseX := 96\<rparr>, demo_ticks 2050, demo_ticks 2051)])"
    by (simp add: few_ticks_def demo_ticks_def mouse_in_def demo_env_def demo_overlay_def)
  from Overlay_keeps_drawing [OF demo_overlay_ready this] show ?thesis by (metis append_Cons append_Nil)
qed

end
