(* ===== verification/Spec2Isabelle.thy ===== *)
theory Spec2Isabelle
  imports Prelude Queue Stack Vector Numeric Treap Unicode Kernel_Memory Paging_Large Input Interrupt Pic PS2 Serial Sync PE Console Memcpy Vfs Fat Runtime_String Channel Kmain Printf Reports Display Overlay
begin

text \<open>
  A verification development for Helos, a small kernel that starts as a UEFI application, takes over
  the machine, and runs threads on one processor with a keyboard, a mouse, serial ports and a frame
  buffer. This theory imports the whole library; the properties of the manifest stand in the theory of
  the component they are about, each after a text block with its id.

  \<^bold>\<open>The program and the theories.\<close> Paths are relative to \<^verbatim>\<open>src/\<close>.

  Containers. \<open>Queue\<close>, \<open>Stack\<close> and \<open>Vector\<close> model \<^verbatim>\<open>util/queue.c\<close>, \<^verbatim>\<open>util/stack.c\<close> and
  \<^verbatim>\<open>util/vector.c\<close>: control blocks are records, and their buffers lie in the byte memory of \<open>Prelude\<close>,
  a function from 64-bit addresses to bytes. \<open>Treap\<close> models \<^verbatim>\<open>util/tree.c\<close> and \<^verbatim>\<open>util/tree_internal.h\<close> on a
  heap of nodes with their son and father pointers. \<open>Numeric\<close> has \<^verbatim>\<open>util/minmax.h\<close> and
  \<^verbatim>\<open>driver/random/random.c\<close>, \<open>Unicode\<close> the UTF-8 codec of \<^verbatim>\<open>runtime/unicode.c\<close>. \<open>Memcpy\<close> has the copying and
  filling of memory of \<^verbatim>\<open>extlib/memcpy.c\<close> and \<^verbatim>\<open>runtime/memset_memmove.S\<close>, \<open>Cstring\<close> the functions on C strings,
  and \<open>Runtime_String\<close> the string class of \<^verbatim>\<open>cppruntime/string.hpp\<close> on both and on \<open>Unicode\<close>.

  Memory. \<open>Paging_Physical\<close> is the frame bitmap of \<^verbatim>\<open>memory/paging_physical.c\<close>, \<open>Paging_Map\<close> the page
  tables of \<^verbatim>\<open>memory/paging_map.c\<close>, which take their frames from it; \<open>Paging_Large\<close> adds its large pages and counts the frames taken; \<open>Kernel_Memory\<close> has the kernel address
  space, the break of the heap, and the passes of \<^verbatim>\<open>memory/paging_init.c\<close> over the memory map of the firmware.

  Devices. \<open>Ports\<close> models port input and output: what the hardware answers is an arbitrary environment,
  and the writes are a trace. On it stand \<open>Pic\<close> (interrupt controller and clock, \<^verbatim>\<open>driver/irq/pic\<close>),
  \<open>PS2\<close> (keyboard and mouse, \<^verbatim>\<open>ps2/ps2.c\<close>) and \<open>Serial\<close> (\<^verbatim>\<open>serial/serial.c\<close>). The interrupt handlers
  put bytes on queues, decode them, and call the operations of \<open>Input\<close> (\<^verbatim>\<open>driver/input/input.c\<close>, with the
  key codes in \<open>Input_Keys\<close>), which record the keys and put events on the event queue.
  \<open>Interrupt\<close> writes the descriptor tables of \<^verbatim>\<open>interrupt/init.c\<close> as bytes.

  Storage. \<open>Block\<close> models the block devices of \<^verbatim>\<open>driver/block\<close>, memory disks and slices of another device;
  \<open>Filesystem\<close> the types and the registry of formats of \<^verbatim>\<open>driver/filesystem\<close>. \<open>Ustar\<close> reads tar archives from a block
  device, \<open>DevFS\<close> holds the files of devices and the frame buffer device, and \<open>Vfs\<close> mounts both under one root
  (\<^verbatim>\<open>ustar\<close>, \<^verbatim>\<open>devfs\<close>, \<^verbatim>\<open>vfs\<close>, \<^verbatim>\<open>filesystem_init.cpp\<close>). \<open>Fat\<close> tells the kinds of FAT apart, which is all its driver does.

  Threads. \<open>Sched\<close> models \<^verbatim>\<open>smp/kthread.c\<close>, \<^verbatim>\<open>smp/kthread_switch.c\<close> and the switch in assembly; \<open>Sync\<close>
  the conditions and mutexes of \<^verbatim>\<open>smp/condiction.c\<close> and \<^verbatim>\<open>smp/mutex.c\<close>, and the step relation of the
  whole: start, end, sleep, switch, wait, notify, lock and unlock, in any order. \<open>Channel\<close> has
  the channels of \<^verbatim>\<open>smp/channel.c\<close>, a queue of \<open>Queue\<close> with two conditions of \<open>Sync\<close>; \<open>Kmain\<close> the loops of
  \<^verbatim>\<open>kernel/kmain.c\<close>, which report what \<open>Input\<close> and \<open>Serial\<close> put on their queues.

  Output and loading. \<open>Graphics\<close> models \<^verbatim>\<open>graphics/graphics.c\<close>, \<^verbatim>\<open>internal_helpers.h\<close> and
  \<^verbatim>\<open>unifont.c\<close>, \<open>Console\<close> the text console and \<^verbatim>\<open>runtime/stdio.c\<close>, which decodes with \<open>Unicode\<close>, draws with
  \<open>Graphics\<close> and sends to \<open>Serial\<close>; \<open>Printf\<close> the formatted output of \<^verbatim>\<open>extlib/printf.c\<close> and \<^verbatim>\<open>io_Printf\<close> on it.
  \<open>Console_Text\<close> shows that these functions return and what they draw, and \<open>Display\<close> that it reaches the device. \<open>Reports\<close>
  models the failed assertion of \<^verbatim>\<open>runtime/panic_assert.h\<close> and the handlers of the exceptions of \<^verbatim>\<open>interrupt/handler.c\<close>,
  which print with \<open>Printf\<close> and halt; \<open>Overlay\<close> the thread of \<^verbatim>\<open>kernel/kmain.c\<close> that draws the statistics. \<open>PE\<close> has the executable headers and base relocations of
  \<^verbatim>\<open>execformat/pe\<close>.

  \<^bold>\<open>Conventions.\<close> A struct is a record and an enum a datatype or its codes; 8, 16, 32 and 64 bit integers
  are words, so that their arithmetic wraps; a C \<^verbatim>\<open>int\<close> is a mathematical integer, cut with \<open>s32\<close> where
  the code converts to it. A pointer is an address, \<open>NULL\<close> is 0. An operation takes the state and returns
  it; \<open>option\<close> stands for a failed assertion, a fault on an address without an object, or a loop that
  does not return. Such loops are \<^verbatim>\<open>partial_function\<close>s, so there is no fuel in the development: where a
  property says that the code returns, it says that the value is \<open>Some\<close>, and where it hangs, that it is
  \<open>None\<close>. Loops with a bound are folds, or functions with a measure.

  \<^bold>\<open>Interfaces.\<close> The locale \<open>byte_fifo\<close> of \<open>Prelude\<close> states what the drivers need of a queue and is
  interpreted on the ring of \<open>Queue\<close>; \<open>ordered_nodes\<close> of \<open>Treap\<close> states what the scheduler needs of a
  tree and is interpreted on the treap. The scheduler works with the ordered list of entries that \<open>Treap\<close>
  proves to be the content of a tree. \<open>block_device\<close> of
  \<open>Block\<close> states what a file system needs of a device and is interpreted on the memory disk and its slices.

  \<^bold>\<open>What the lemmas show.\<close> For the containers: their invariants, and that each operation does to the
  content what its contract says (refinement of lists). For memory: frames handed out were free and are
  zeroed, freeing clears exactly its range, mapping changes exactly the translations and rights asked for, and the boot
  map leaves exactly conventional memory free. For the devices: the interrupt-driven decoders are
  equivalent to decoding the whole stream of bytes at once. For threads: an invariant of every state
  reached by starts under unused ids and priorities, and that the switch picks what its contract says and saves and loads the right registers. For
  output: the copies, the equivalence of redrawing rectangles with redrawing the screen, and that text
  never leaves the buffer. For loading: relocation changes exactly the fields listed. For memory
  blocks and strings: the copy by words and the assembly equal the copy by bytes, and reading a string by
  code points ends and gives the code points written. For storage: what is written to a range is what is
  read, an archive read gives its files and their directories, and a path leads to the file system mounted
  above it; the start of the system composes them. For the main thread: it reports what the drivers did. For formatted output: what is printed is
  what the C standard says the format means, inside the buffer, and goes out over the serial port, as do the reports of
  a failed assertion and of an exception before the processor halts. For the screen: all that was drawn since
  the last copy, the cursor included, lies in the invalidated rectangles, so that the copy shows all of it.

  \<^bold>\<open>Limits.\<close> The bitmap of frames is a function on the numbers of words, of which the array of the code has the
  first \<open>2 ^ 18\<close>: its properties suppose memory within the 64 GiB these stand for, which the code does not check, and state that no
  word behind the array is written (\<open>array_kept\<close>). A copy of memory reads its whole source before it writes, as \<^verbatim>\<open>memmove\<close> does;
  \<open>Memcpy\<close> proves that \<^verbatim>\<open>memcpy.c\<close>, which copies forward, does the same for blocks that do not overlap, and the properties
  of the devices suppose such blocks. The properties of archives suppose entries without a prefix, as the code joins a
  prefix and a name without the separator. The cursor is absent or an image of at most 32 by 32 pixels with its hot spot right of the first column, which
  the one embedded in the kernel is; the mouse may be anywhere on the desktop, whose far edges are included.

  Where the code departs from its contract, the property states what the code does: a thread
  lost to another with its key, a stack reused one page too high, a lock that returns unlocked, a
  keyboard blocked by one byte. Theorems beside the properties show more of these: an output buffer
  smaller than recorded, memory exhaustion without a return, a stray byte accepted as text, a vector that
  never grows again.

  \<^bold>\<open>Not modelled.\<close> Code that only asks the firmware (\<^verbatim>\<open>main.c\<close>, \<^verbatim>\<open>graphics_Init\<close>, the exit from boot
  services) and the entry stubs in assembly; the digits of floating point numbers; the other vendored libraries under \<^verbatim>\<open>extlib/\<close> (the heap of
  dlmalloc, whose answers are arguments, libvterm, which nothing uses, and headers); the thread that sleeps for demonstration; the vector template, which nothing instantiates. Interrupts are steps between operations, as the code
  disables them around its critical sections.
\<close>

end
